(* ===== verification/Prelude.thy ===== *)
theory Prelude
  imports Main "HOL-Library.Word" "HOL-Library.Monad_Syntax"
begin

text \<open>
  Shared ground of the development.

  \<^item> Byte-addressed memory: the kernel's direct-mapped physical memory, a user heap and a disk
    block are all functions from addresses to bytes. Multi-byte C objects are read and
    written little-endian, as RISC-V does, by \<open>ldn\<close> and \<open>stn\<close>; the laws "read what was
    written" and "a write elsewhere is not seen" are collected in \<open>mem_simps\<close>.
  \<^item> The outcome of a kernel routine: it returns a value and a state, panics with the
    message of the source, goes to sleep on a channel, or never ends. Sequencing is \<open>obind\<close>;
    \<open>oloop\<close> runs the result of a pointer-chasing loop, whose \<open>None\<close> is the loop that never ends.
  \<^item> Small facts on words, lists and association of list segments used by several
    components.
\<close>

unbundle bit_operations_syntax

type_synonym byte = "8 word"
type_synonym mem = "nat \<Rightarrow> byte"

named_theorems mem_simps "reads over writes of byte memory"
named_theorems outcome_simps "sequencing of kernel routines"

section \<open>Little-endian access to byte memory\<close>

fun ldn :: "nat \<Rightarrow> mem \<Rightarrow> nat \<Rightarrow> nat" where
  "ldn 0 m a = 0"
| "ldn (Suc n) m a = unat (m a) + 256 * ldn n m (a + 1)"

fun stn :: "nat \<Rightarrow> mem \<Rightarrow> nat \<Rightarrow> nat \<Rightarrow> mem" where
  "stn 0 m a v = m"
| "stn (Suc n) m a v = stn n (m(a := of_nat v)) (a + 1) (v div 256)"

lemma stn_outside [mem_simps]: "x < a \<or> a + n \<le> x \<Longrightarrow> stn n m a v x = m x"
  by (induction n m a v rule: stn.induct) auto

lemma ldn_cong: "(\<And>x. a \<le> x \<Longrightarrow> x < a + n \<Longrightarrow> m x = m' x) \<Longrightarrow> ldn n m a = ldn n m' a"
  by (induction n m a rule: ldn.induct) auto

lemma ldn_zero: "ldn n (\<lambda>_. 0) a = 0"
  by (induction n arbitrary: a) auto

lemma ldn_less: "ldn n m a < 256 ^ n"
proof (induction n m a rule: ldn.induct)
  case (2 n m a)
  have "unat (m a) < 256"
    using unsigned_less [of "m a", where ?'a = nat] by simp
  with 2 show ?case by simp
qed simp

lemma ldn_stn_same [mem_simps]: "ldn n (stn n m a v) a = v mod 256 ^ n"
proof (induction n arbitrary: m a v)
  case (Suc n)
  have "stn n (m(a := of_nat v)) (a + 1) (v div 256) a = of_nat v"
    by (simp add: stn_outside)
  with Suc have "ldn (Suc n) (stn (Suc n) m a v) a = v mod 256 + 256 * (v div 256 mod 256 ^ n)"
    by (simp add: unat_of_nat)
  also have "\<dots> = v mod 256 ^ Suc n"
    by (simp add: mod_mult2_eq)
  finally show ?case .
qed simp

lemma ldn_stn_apart [mem_simps]:
  "a + n \<le> b \<or> b + k \<le> a \<Longrightarrow> ldn n (stn k m b v) a = ldn n m a"
  by (rule ldn_cong) (auto simp: stn_outside)

lemma stn_apply:
  "stn n m a v x = (if a \<le> x \<and> x < a + n then of_nat (v div 256 ^ (x - a)) else m x)"
proof (induction n arbitrary: m a v)
  case (Suc n)
  have "v div 256 div 256 ^ (x - Suc a) = v div 256 ^ (x - a)" if "a < x"
    using that by (simp add: Suc_diff_Suc flip: div_mult2_eq power_Suc)
  then show ?case by (auto simp: Suc.IH not_less_eq_eq)
qed auto

lemma stn_stn: "stn n (stn n m a u) a v = stn n m a v"
  by (rule ext) (simp add: stn_apply)

lemma stn_commute:
  "a + n \<le> b \<or> b + k \<le> a \<Longrightarrow> stn n (stn k m b v) a u = stn k (stn n m a u) b v"
  by (rule ext) (auto simp: stn_apply)

text \<open>C integers of 16, 32 and 64 bits in memory.\<close>

definition load16 :: "mem \<Rightarrow> nat \<Rightarrow> 16 word" where
  "load16 m a = of_nat (ldn 2 m a)"

definition load32 :: "mem \<Rightarrow> nat \<Rightarrow> 32 word" where
  "load32 m a = of_nat (ldn 4 m a)"

definition load64 :: "mem \<Rightarrow> nat \<Rightarrow> 64 word" where
  "load64 m a = of_nat (ldn 8 m a)"

definition store16 :: "mem \<Rightarrow> nat \<Rightarrow> 16 word \<Rightarrow> mem" where
  "store16 m a v = stn 2 m a (unat v)"

definition store32 :: "mem \<Rightarrow> nat \<Rightarrow> 32 word \<Rightarrow> mem" where
  "store32 m a v = stn 4 m a (unat v)"

definition store64 :: "mem \<Rightarrow> nat \<Rightarrow> 64 word \<Rightarrow> mem" where
  "store64 m a v = stn 8 m a (unat v)"

lemma load_store_same [mem_simps]:
  "load16 (store16 m a v) a = v"
  "load32 (store32 m a w) a = w"
  "load64 (store64 m a x) a = x"
  using unsigned_less [of v, where ?'a = nat] unsigned_less [of w, where ?'a = nat]
    unsigned_less [of x, where ?'a = nat]
  by (simp_all add: load16_def store16_def load32_def store32_def load64_def store64_def
      ldn_stn_same)

lemma load_store_apart [mem_simps]:
  "a + 8 \<le> b \<or> b + 8 \<le> a \<Longrightarrow> load64 (store64 m b x) a = load64 m a"
  "a + 4 \<le> b \<or> b + 4 \<le> a \<Longrightarrow> load32 (store32 m b w) a = load32 m a"
  "a + 2 \<le> b \<or> b + 2 \<le> a \<Longrightarrow> load16 (store16 m b v) a = load16 m a"
  by (simp_all add: load16_def store16_def load32_def store32_def load64_def store64_def
      ldn_stn_apart)

lemma store_outside [mem_simps]:
  "y < a \<or> a + 8 \<le> y \<Longrightarrow> store64 m a x y = m y"
  "y < a \<or> a + 4 \<le> y \<Longrightarrow> store32 m a w y = m y"
  "y < a \<or> a + 2 \<le> y \<Longrightarrow> store16 m a v y = m y"
  by (simp_all add: store16_def store32_def store64_def stn_outside)

section \<open>32-bit words and natural numbers\<close>

lemma word32_less_of_nat:
  "a < 2 ^ 32 \<Longrightarrow> b < 2 ^ 32 \<Longrightarrow> (of_nat a < (of_nat b :: 32 word)) = (a < b)"
  "a < 2 ^ 32 \<Longrightarrow> b < 2 ^ 32 \<Longrightarrow> (of_nat a \<le> (of_nat b :: 32 word)) = (a \<le> b)"
  by (simp_all add: word_less_nat_alt word_le_nat_alt unsigned_of_nat take_bit_nat_eq_self)

lemma of_nat_diff32: "b \<le> a \<Longrightarrow> of_nat a - of_nat b = (of_nat (a - b) :: 32 word)"
  by (simp add: of_nat_diff)

lemma unat_of_nat32: "n < 2 ^ 32 \<Longrightarrow> unat (of_nat n :: 32 word) = n"
  by (simp add: unsigned_of_nat take_bit_nat_eq_self)

lemma sint_of_nat32: "n < 2 ^ 31 \<Longrightarrow> sint (of_nat n :: 32 word) = int n"
  by (simp add: signed_of_nat signed_take_bit_int_eq_self)

lemma sint_minus_of_nat32: "n < 2 ^ 31 \<Longrightarrow> sint (- of_nat n :: 32 word) = - int n"
proof -
  assume "n < 2 ^ 31"
  then have "sint (word_of_int (- int n) :: 32 word) = - int n"
    by (simp only: signed_of_int) (simp add: signed_take_bit_int_eq_self)
  then show ?thesis by simp
qed

section \<open>Searching lists\<close>

lemma find_SomeD: "find P xs = Some x \<Longrightarrow> x \<in> set xs \<and> P x"
  by (auto simp: find_Some_iff)

section \<open>Outcomes of kernel routines\<close>

datatype ('s, 'a) outcome = Ret 'a 's | Panic string | Sleep nat 's | Diverge

fun obind :: "('s, 'a) outcome \<Rightarrow> ('a \<Rightarrow> 's \<Rightarrow> ('s, 'b) outcome) \<Rightarrow> ('s, 'b) outcome" where
  "obind (Ret a s) f = f a s"
| "obind (Panic e) f = Panic e"
| "obind (Sleep c s) f = Sleep c s"
| "obind Diverge f = Diverge"

definition oloop :: "'a option \<Rightarrow> ('a \<Rightarrow> ('s, 'b) outcome) \<Rightarrow> ('s, 'b) outcome" where
  "oloop r f = (case r of None \<Rightarrow> Diverge | Some a \<Rightarrow> f a)"

lemma oloop_simps [simp]: "oloop None f = Diverge" "oloop (Some a) f = f a"
  by (simp_all add: oloop_def)

lemma obind_assoc: "obind (obind m f) g = obind m (\<lambda>a s. obind (f a s) g)"
  by (cases m) simp_all

lemma obind_Ret_right: "obind m Ret = m"
  by (cases m) simp_all

lemma obind_eq_Ret:
  "obind m f = Ret b t \<longleftrightarrow> (\<exists>a s. m = Ret a s \<and> f a s = Ret b t)"
  by (cases m) auto

lemmas outcome_rules = obind_assoc obind_Ret_right obind_eq_Ret
declare outcome_rules [outcome_simps]

end
