(* ===== verification/CString.thy ===== *)
theory CString
  imports Prelude
begin

text \<open>
  The byte and string routines of \<^verbatim>\<open>user/ulib.c\<close> and \<^verbatim>\<open>kernel/string.c\<close>, over byte memory. A
  pointer is an address. Routines bounded by a count recurse on it; those that run to a
  terminating NUL are option-valued, \<open>None\<close> being a run that never meets one. \<open>char\<close> is
  unsigned, as it is on RISC-V. Where the two files have different bodies for one name,
  the kernel's carries the prefix \<open>k\<close>. The lemmas relate every routine to the list of
  characters \<open>cstr m a cs\<close> finds at an address.
\<close>

section \<open>user/ulib.c\<close>

partial_function (option) strcpy :: "mem \<Rightarrow> nat \<Rightarrow> nat \<Rightarrow> mem option" where
  "strcpy m s t =
     (let m' = m(s := m t) in if m t \<noteq> 0 then strcpy m' (s + 1) (t + 1) else Some m')"

partial_function (option) strcmp :: "mem \<Rightarrow> nat \<Rightarrow> nat \<Rightarrow> int option" where
  "strcmp m p q =
     (if m p \<noteq> 0 \<and> m p = m q then strcmp m (p + 1) (q + 1)
      else Some (uint (m p) - uint (m q)))"

partial_function (option) strlen_loop :: "mem \<Rightarrow> nat \<Rightarrow> nat \<Rightarrow> nat option" where
  "strlen_loop m s n = (if m (s + n) \<noteq> 0 then strlen_loop m s (n + 1) else Some n)"

definition strlen :: "mem \<Rightarrow> nat \<Rightarrow> nat option" where
  "strlen m s = strlen_loop m s 0"

fun memset :: "mem \<Rightarrow> nat \<Rightarrow> 32 word \<Rightarrow> nat \<Rightarrow> mem" where
  "memset m dst c 0 = m"
| "memset m dst c (Suc n) = memset (m(dst := ucast c)) (dst + 1) c n"

partial_function (option) strchr :: "mem \<Rightarrow> nat \<Rightarrow> byte \<Rightarrow> nat option" where
  "strchr m s c =
     (if m s \<noteq> 0 then (if m s = c then Some s else strchr m (s + 1) c) else Some 0)"

text \<open>\<open>n*10 + *s++ - '0'\<close> is \<open>int\<close> arithmetic, which the RISC-V registers wrap to 32 bits.\<close>

partial_function (option) atoi_loop :: "mem \<Rightarrow> nat \<Rightarrow> 32 word \<Rightarrow> 32 word option" where
  "atoi_loop m s n =
     (if 48 \<le> m s \<and> m s \<le> 57 then atoi_loop m (s + 1) (n * 10 + ucast (m s) - 48)
      else Some n)"

definition atoi :: "mem \<Rightarrow> nat \<Rightarrow> 32 word option" where
  "atoi m s = atoi_loop m s 0"

fun move_up :: "mem \<Rightarrow> nat \<Rightarrow> nat \<Rightarrow> nat \<Rightarrow> mem" where
  "move_up m dst src 0 = m"
| "move_up m dst src (Suc n) = move_up (m(dst := m src)) (dst + 1) (src + 1) n"

fun move_down :: "mem \<Rightarrow> nat \<Rightarrow> nat \<Rightarrow> nat \<Rightarrow> mem" where
  "move_down m dst src 0 = m"
| "move_down m dst src (Suc n) = move_down (m(dst + n := m (src + n))) dst src n"

text \<open>The count is a signed \<open>int\<close>: a negative one moves nothing.\<close>

definition memmove :: "mem \<Rightarrow> nat \<Rightarrow> nat \<Rightarrow> int \<Rightarrow> mem" where
  "memmove m dst src n =
     (if src > dst then move_up m dst src (nat n) else move_down m dst src (nat n))"

fun memcmp :: "mem \<Rightarrow> nat \<Rightarrow> nat \<Rightarrow> nat \<Rightarrow> int" where
  "memcmp m p1 p2 0 = 0"
| "memcmp m p1 p2 (Suc n) =
     (if m p1 \<noteq> m p2 then uint (m p1) - uint (m p2) else memcmp m (p1 + 1) (p2 + 1) n)"

text \<open>\<open>memcpy\<close> hands its unsigned count to \<open>memmove\<close>, which reads it as signed.\<close>

definition memcpy :: "mem \<Rightarrow> nat \<Rightarrow> nat \<Rightarrow> 32 word \<Rightarrow> mem" where
  "memcpy m dst src n = memmove m dst src (sint n)"

section \<open>kernel/string.c\<close>

definition kmemmove :: "mem \<Rightarrow> nat \<Rightarrow> nat \<Rightarrow> nat \<Rightarrow> mem" where
  "kmemmove m dst src n =
     (if n = 0 then m
      else if src < dst \<and> src + n > dst then move_down m dst src n
      else move_up m dst src n)"

fun strncmp :: "mem \<Rightarrow> nat \<Rightarrow> nat \<Rightarrow> nat \<Rightarrow> int" where
  "strncmp m p q 0 = 0"
| "strncmp m p q (Suc n) =
     (if m p \<noteq> 0 \<and> m p = m q then strncmp m (p + 1) (q + 1) n
      else uint (m p) - uint (m q))"

fun strncpy :: "mem \<Rightarrow> nat \<Rightarrow> nat \<Rightarrow> nat \<Rightarrow> mem" where
  "strncpy m s t 0 = m"
| "strncpy m s t (Suc n) =
     (let m' = m(s := m t)
      in if m t \<noteq> 0 then strncpy m' (s + 1) (t + 1) n else memset m' (s + 1) 0 n)"

text \<open>\<open>safestrcpy_loop\<close> runs with the count after the decrement of \<open>--n > 0\<close>.\<close>

fun safestrcpy_loop :: "mem \<Rightarrow> nat \<Rightarrow> nat \<Rightarrow> nat \<Rightarrow> mem" where
  "safestrcpy_loop m s t 0 = m(s := 0)"
| "safestrcpy_loop m s t (Suc n) =
     (let m' = m(s := m t)
      in if m t \<noteq> 0 then safestrcpy_loop m' (s + 1) (t + 1) n else m'(s + 1 := 0))"

definition safestrcpy :: "mem \<Rightarrow> nat \<Rightarrow> nat \<Rightarrow> int \<Rightarrow> mem" where
  "safestrcpy m s t n = (if n \<le> 0 then m else safestrcpy_loop m s t (nat n - 1))"

section \<open>Strings in memory\<close>

text \<open>The bytes at \<open>a\<close> are those of \<open>cs\<close>; \<open>cstr\<close> adds the NUL, which \<open>cs\<close> does not contain.\<close>

definition bytes_at :: "mem \<Rightarrow> nat \<Rightarrow> byte list \<Rightarrow> bool" where
  "bytes_at m a cs \<longleftrightarrow> (\<forall>i<length cs. m (a + i) = cs ! i)"

definition cstr :: "mem \<Rightarrow> nat \<Rightarrow> byte list \<Rightarrow> bool" where
  "cstr m a cs \<longleftrightarrow> bytes_at m a cs \<and> m (a + length cs) = 0 \<and> 0 \<notin> set cs"

lemma bytes_at_simps [simp]:
  "bytes_at m a []"
  "bytes_at m a (c # cs) \<longleftrightarrow> m a = c \<and> bytes_at m (Suc a) cs"
  by (auto simp: bytes_at_def less_Suc_eq_0_disj)

lemma cstr_simps [simp]:
  "cstr m a [] \<longleftrightarrow> m a = 0"
  "cstr m a (c # cs) \<longleftrightarrow> m a = c \<and> c \<noteq> 0 \<and> cstr m (Suc a) cs"
  by (auto simp: cstr_def)

lemma cstr_cong:
  "(\<And>x. a \<le> x \<Longrightarrow> x \<le> a + length cs \<Longrightarrow> m' x = m x) \<Longrightarrow> cstr m' a cs = cstr m a cs"
  by (auto simp: cstr_def bytes_at_def)

lemma cstr_unique: "cstr m a cs \<Longrightarrow> cstr m a ds \<Longrightarrow> cs = ds"
proof (induction cs arbitrary: a ds)
  case Nil
  then show ?case by (cases ds) auto
next
  case (Cons c cs)
  then show ?case by (cases ds) auto
qed

lemma cstr_suffix: "cstr m a (cs @ ds) \<Longrightarrow> cstr m (a + length cs) ds"
proof (induction cs arbitrary: a)
  case (Cons c cs)
  then show ?case using Cons.IH [of "Suc a"] by simp
qed simp

section \<open>Correctness of the routines\<close>

lemma memset_apply: "memset m d c n x = (if d \<le> x \<and> x < d + n then ucast c else m x)"
  by (induction n arbitrary: m d) auto

lemma move_up_apply:
  "dst < src \<or> src + n \<le> dst \<or> src = dst \<Longrightarrow>
   move_up m dst src n x = (if dst \<le> x \<and> x < dst + n then m (src + (x - dst)) else m x)"
proof (induction n arbitrary: m dst src)
  case (Suc n)
  have "Suc src + (x - Suc dst) = src + (x - dst)" if "Suc dst \<le> x"
    using that by auto
  moreover have "src + (x - dst) \<noteq> dst" if "Suc dst \<le> x" "x < Suc dst + n" "src \<noteq> dst"
    using that Suc.prems by auto
  moreover have "move_up m dst src (Suc n) x =
      (if Suc dst \<le> x \<and> x < Suc dst + n then (m(dst := m src)) (Suc src + (x - Suc dst))
       else (m(dst := m src)) x)"
    using Suc.prems by (simp only: move_up.simps, subst Suc.IH) auto
  ultimately show ?case using Suc.prems by (cases "x = dst") auto
qed auto

lemma move_down_apply:
  "src \<le> dst \<Longrightarrow>
   move_down m dst src n x = (if dst \<le> x \<and> x < dst + n then m (src + (x - dst)) else m x)"
  by (induction n arbitrary: m) (auto simp: less_Suc_eq)

lemma memmove_apply:
  "memmove m dst src n x = (if dst \<le> x \<and> x < dst + nat n then m (src + (x - dst)) else m x)"
  by (simp add: memmove_def move_up_apply move_down_apply)

lemma memcpy_apply:
  "unat n < 2 ^ 31 \<Longrightarrow>
   memcpy m dst src n x = (if dst \<le> x \<and> x < dst + unat n then m (src + (x - dst)) else m x)"
proof -
  assume "unat n < 2 ^ 31"
  then have "sint n = int (unat n)"
    using sint_of_nat32 [of "unat n"] by simp
  then show ?thesis by (simp add: memcpy_def memmove_apply)
qed

lemma kmemmove_apply:
  "kmemmove m dst src n x = (if dst \<le> x \<and> x < dst + n then m (src + (x - dst)) else m x)"
proof -
  have "dst < src \<or> src + n \<le> dst \<or> src = dst" if "\<not> (src < dst \<and> src + n > dst)"
    using that by auto
  then show ?thesis by (auto simp: kmemmove_def move_up_apply move_down_apply)
qed

lemma strlen_loop_cstr: "cstr m (a + n) cs \<Longrightarrow> strlen_loop m a n = Some (n + length cs)"
proof (induction cs arbitrary: n)
  case Nil
  then show ?case by (simp add: strlen_loop.simps)
next
  case (Cons c cs)
  then show ?case using Cons.IH [of "Suc n"] by (simp add: strlen_loop.simps [of m a n])
qed

lemma strlen_cstr: "cstr m a cs \<Longrightarrow> strlen m a = Some (length cs)"
  using strlen_loop_cstr [of m a 0 cs] by (simp add: strlen_def)

text \<open>Copying to a place the source does not reach into.\<close>

lemma strcpy_cstr:
  assumes "cstr m t cs" "s + length cs < t \<or> t + length cs < s"
  shows "\<exists>m'. strcpy m s t = Some m'
    \<and> (\<forall>x. m' x = (if s \<le> x \<and> x \<le> s + length cs then m (t + (x - s)) else m x))"
  using assms
proof (induction cs arbitrary: m s t)
  case Nil
  then show ?case by (auto simp: strcpy.simps)
next
  case (Cons c cs)
  let ?m = "m(s := m t)"
  have "cstr ?m (Suc t) cs = cstr m (Suc t) cs"
    using Cons.prems(2) by (intro cstr_cong) auto
  then obtain m' where m': "strcpy ?m (Suc s) (Suc t) = Some m'"
    "\<And>x. m' x = (if Suc s \<le> x \<and> x \<le> Suc s + length cs then ?m (Suc t + (x - Suc s)) else ?m x)"
    using Cons.IH [of ?m "Suc t" "Suc s"] Cons.prems by (auto simp del: fun_upd_apply)
  have "m' x = (if s \<le> x \<and> x \<le> s + length (c # cs) then m (t + (x - s)) else m x)" for x
  proof (cases "x = s")
    case False
    then have "Suc s \<le> x \<Longrightarrow> Suc t + (x - Suc s) = t + (x - s)" by auto
    then show ?thesis using False Cons.prems(2) by (auto simp: m'(2))
  qed (simp add: m'(2))
  then show ?case using m'(1) Cons.prems(1) by (subst strcpy.simps) (auto simp: Let_def)
qed

lemma strcpy_result:
  assumes "cstr m t cs" "s + length cs < t \<or> t + length cs < s"
  shows "\<exists>m'. strcpy m s t = Some m' \<and> cstr m' s cs
    \<and> (\<forall>x. x < s \<or> s + length cs < x \<longrightarrow> m' x = m x)"
proof -
  obtain m' where m': "strcpy m s t = Some m'"
    "\<forall>x. m' x = (if s \<le> x \<and> x \<le> s + length cs then m (t + (x - s)) else m x)"
    using strcpy_cstr [OF assms] by blast
  then have "cstr m' s cs" using assms(1) by (simp add: cstr_def bytes_at_def)
  with m' show ?thesis by auto
qed

lemma strcmp_cstr:
  "cstr m p cs \<Longrightarrow> cstr m q ds \<Longrightarrow> \<exists>r. strcmp m p q = Some r \<and> (r = 0 \<longleftrightarrow> cs = ds)"
proof (induction cs arbitrary: p q ds)
  case Nil
  then show ?case by (cases ds) (auto simp: strcmp.simps unsigned_eq_0_iff)
next
  case (Cons c cs)
  show ?case
  proof (cases ds)
    case Nil
    then show ?thesis using Cons.prems by (auto simp: strcmp.simps unsigned_eq_0_iff)
  next
    case (Cons d ds')
    show ?thesis
    proof (cases "c = d")
      case True
      then show ?thesis
        using Cons.IH [of "Suc p" "Suc q" ds'] Cons.prems Cons by (auto simp: strcmp.simps [of m p q])
    next
      case False
      then have "uint c \<noteq> uint d" using word_uint_eqI by blast
      then show ?thesis using Cons.prems Cons False by (auto simp: strcmp.simps)
    qed
  qed
qed

lemma strchr_cstr:
  "cstr m s cs \<Longrightarrow> c \<noteq> 0 \<Longrightarrow>
   strchr m s c = Some (if c \<in> set cs then s + length (takeWhile (\<lambda>x. x \<noteq> c) cs) else 0)"
  by (induction cs arbitrary: s) (auto simp: strchr.simps)

text \<open>\<open>atoi\<close> reads the decimal digits at the front of the string, modulo the width of \<open>int\<close>.\<close>

definition is_digit :: "byte \<Rightarrow> bool" where
  "is_digit c \<longleftrightarrow> 48 \<le> c \<and> c \<le> 57"

definition dec_value :: "byte list \<Rightarrow> nat" where
  "dec_value ds = foldl (\<lambda>n d. n * 10 + (unat d - 48)) 0 ds"

lemma atoi_loop_cstr:
  "cstr m s cs \<Longrightarrow> atoi_loop m s n =
     Some (foldl (\<lambda>n d. n * 10 + (ucast d - 48)) n (takeWhile is_digit cs))"
proof (induction cs arbitrary: s n)
  case Nil
  then show ?case by (subst atoi_loop.simps) simp
next
  case (Cons c cs)
  then show ?case
    by (subst atoi_loop.simps) (simp add: add_diff_eq flip: is_digit_def)
qed

lemma digit_value: "is_digit d \<Longrightarrow> (ucast d :: 32 word) - 48 = of_nat (unat d - 48)"
  by (simp add: is_digit_def word_le_nat_alt of_nat_diff)

lemma foldl_digits:
  "\<forall>d\<in>set ds. is_digit d \<Longrightarrow> foldl (\<lambda>n d. n * 10 + (ucast d - 48)) (of_nat k :: 32 word) ds
     = of_nat (foldl (\<lambda>n d. n * 10 + (unat d - 48)) k ds)"
proof (induction ds arbitrary: k)
  case (Cons d ds)
  have "(of_nat k :: 32 word) * 10 + (ucast d - 48) = of_nat (k * 10 + (unat d - 48))"
    using Cons.prems by (simp add: digit_value)
  then show ?case using Cons.IH [of "k * 10 + (unat d - 48)"] Cons.prems by simp
qed simp

lemma atoi_cstr: "cstr m s cs \<Longrightarrow> atoi m s = Some (of_nat (dec_value (takeWhile is_digit cs)))"
  using foldl_digits [of "takeWhile is_digit cs" 0] set_takeWhileD [of _ is_digit cs]
  unfolding atoi_def dec_value_def by (simp add: atoi_loop_cstr)

end
