(* ===== verification/Memlayout.thy ===== *)
theory Memlayout
  imports Prelude
begin

text \<open>
  Constants and rounding of \<^verbatim>\<open>kernel/memlayout.h\<close>, \<^verbatim>\<open>kernel/riscv.h\<close> and \<^verbatim>\<open>kernel/param.h\<close> that several components use.
\<close>

definition KERNBASE :: nat where "KERNBASE = 0x80000000"
definition PHYSTOP :: nat where "PHYSTOP = KERNBASE + 128 * 1024 * 1024"
definition PGSIZE :: nat where "PGSIZE = 4096"

definition PGROUNDUP :: "nat \<Rightarrow> nat" where
  "PGROUNDUP sz = (sz + PGSIZE - 1) div PGSIZE * PGSIZE"

lemmas page_consts = KERNBASE_def PHYSTOP_def PGSIZE_def

lemma PGROUNDUP_props: "PGSIZE dvd PGROUNDUP n" "n \<le> PGROUNDUP n" "PGROUNDUP n < n + PGSIZE"
  by (simp_all add: PGROUNDUP_def PGSIZE_def) 

end
