(* ===== verification/Umalloc.thy ===== *)
theory Umalloc
  imports CString Memlayout
begin

text \<open>
  The user-level allocator, \<^verbatim>\<open>user/umalloc.c\<close>: its state and operations, over the bytes of the
  process image. A pointer is its address, 0 is NULL. A block header occupies 32 bytes at
  the block's address (name, size with the free bit, next, prev); the free-list node of a
  free block is the 16 bytes behind the header. Sizes are C's 32-bit \<open>uint\<close>, so their
  arithmetic wraps. Loops that chase pointers are option-valued: \<open>None\<close> is a loop that
  does not end. \<open>sbrk\<close> is the eager path of \<^verbatim>\<open>user/ulib.c\<close> as a process sees it; how much
  memory the kernel can still give is the field \<open>brk_max\<close>.
\<close>

section \<open>State\<close>

record heap =
  hmem :: mem
  head :: nat
  tail :: nat
  free_head :: nat
  current_fsm :: int
  brk :: nat
  brk_max :: nat

definition FIRST_FIT :: int where "FIRST_FIT = 0"
definition BEST_FIT :: int where "BEST_FIT = 1"
definition WORST_FIT :: int where "WORST_FIT = 2"

text \<open>\<open>sizeof(struct mem_block)\<close>: the packed struct has 8 + 8 + 8 + 8 bytes.\<close>

definition sizeof_mem_block :: nat where "sizeof_mem_block = 32"

text \<open>Field reads and writes of \<open>struct mem_block\<close> and \<open>struct free_list_node\<close>.\<close>

definition blk_size :: "heap \<Rightarrow> nat \<Rightarrow> 64 word" where
  "blk_size s b = load64 (hmem s) (b + 8)"

definition next_block :: "heap \<Rightarrow> nat \<Rightarrow> nat" where
  "next_block s b = ldn 8 (hmem s) (b + 16)"

definition prev_block :: "heap \<Rightarrow> nat \<Rightarrow> nat" where
  "prev_block s b = ldn 8 (hmem s) (b + 24)"

definition get_free_node :: "nat \<Rightarrow> nat" where
  "get_free_node b = b + sizeof_mem_block"

definition next_free :: "heap \<Rightarrow> nat \<Rightarrow> nat" where
  "next_free s b = ldn 8 (hmem s) (get_free_node b)"

definition prev_free :: "heap \<Rightarrow> nat \<Rightarrow> nat" where
  "prev_free s b = ldn 8 (hmem s) (get_free_node b + 8)"

definition set_blk_size :: "nat \<Rightarrow> 64 word \<Rightarrow> heap \<Rightarrow> heap" where
  "set_blk_size b v s = s\<lparr>hmem := store64 (hmem s) (b + 8) v\<rparr>"

definition set_next_block :: "nat \<Rightarrow> nat \<Rightarrow> heap \<Rightarrow> heap" where
  "set_next_block b v s = s\<lparr>hmem := stn 8 (hmem s) (b + 16) v\<rparr>"

definition set_prev_block :: "nat \<Rightarrow> nat \<Rightarrow> heap \<Rightarrow> heap" where
  "set_prev_block b v s = s\<lparr>hmem := stn 8 (hmem s) (b + 24) v\<rparr>"

definition set_next_free :: "nat \<Rightarrow> nat \<Rightarrow> heap \<Rightarrow> heap" where
  "set_next_free b v s = s\<lparr>hmem := stn 8 (hmem s) (get_free_node b) v\<rparr>"

definition set_prev_free :: "nat \<Rightarrow> nat \<Rightarrow> heap \<Rightarrow> heap" where
  "set_prev_free b v s = s\<lparr>hmem := stn 8 (hmem s) (get_free_node b + 8) v\<rparr>"

section \<open>Size and free bit\<close>

definition set_used :: "nat \<Rightarrow> heap \<Rightarrow> heap" where
  "set_used b s = set_blk_size b (blk_size s b AND NOT 1) s"

definition set_free :: "nat \<Rightarrow> heap \<Rightarrow> heap" where
  "set_free b s = set_blk_size b (blk_size s b OR 1) s"

definition is_free :: "heap \<Rightarrow> nat \<Rightarrow> bool" where
  "is_free s b \<longleftrightarrow> blk_size s b AND 1 \<noteq> 0"

definition get_size :: "heap \<Rightarrow> nat \<Rightarrow> 32 word" where
  "get_size s b = ucast (blk_size s b AND NOT 1)"

definition set_size :: "nat \<Rightarrow> 32 word \<Rightarrow> heap \<Rightarrow> heap" where
  "set_size b n s =
     (let was_free = is_free s b;
          s = set_blk_size b (ucast n) s
      in if was_free then set_free b s else s)"

section \<open>Alignment\<close>

definition align_size :: "32 word \<Rightarrow> 32 word" where
  "align_size sz = (if sz mod 16 = 0 then sz else sz + (16 - sz mod 16))"

definition align_to_page :: "32 word \<Rightarrow> 32 word" where
  "align_to_page sz = (if sz mod 4096 = 0 then sz else sz + (4096 - sz mod 4096))"

section \<open>Free list\<close>

partial_function (option) free_list_tail :: "heap \<Rightarrow> nat \<Rightarrow> nat option" where
  "free_list_tail s current =
     (if next_free s current \<noteq> 0 then free_list_tail s (next_free s current)
      else Some current)"

definition free_list_add :: "nat \<Rightarrow> heap \<Rightarrow> heap option" where
  "free_list_add block s =
     (let s = set_prev_free block 0 (set_next_free block 0 s)
      in if free_head s = 0 then Some (s\<lparr>free_head := block\<rparr>)
         else do {
           current \<leftarrow> free_list_tail s (free_head s);
           Some (set_prev_free block current (set_next_free current block s))
         })"

definition free_list_remove :: "nat \<Rightarrow> heap \<Rightarrow> heap" where
  "free_list_remove block s =
     (let s = (if prev_free s block \<noteq> 0
               then set_next_free (prev_free s block) (next_free s block) s
               else s\<lparr>free_head := next_free s block\<rparr>)
      in if next_free s block \<noteq> 0
         then set_prev_free (next_free s block) (prev_free s block) s
         else s)"

section \<open>Block list\<close>

partial_function (option) block_list_find :: "heap \<Rightarrow> nat \<Rightarrow> nat \<Rightarrow> nat option" where
  "block_list_find s block current =
     (if next_block s current \<noteq> 0 \<and> next_block s current < block
      then block_list_find s block (next_block s current)
      else Some current)"

definition block_list_add :: "nat \<Rightarrow> heap \<Rightarrow> heap option" where
  "block_list_add block s =
     (if head s = 0 then
        Some (set_prev_block block 0 (set_next_block block 0 (s\<lparr>head := block, tail := block\<rparr>)))
      else if block < head s then
        (let s = set_prev_block block 0 (set_next_block block (head s) s);
             s = set_prev_block (head s) block s
         in Some (s\<lparr>head := block\<rparr>))
      else do {
        current \<leftarrow> block_list_find s block (head s);
        let s = set_next_block block (next_block s current) s;
        let s = set_prev_block block current s;
        let s = (if next_block s current \<noteq> 0
                 then set_prev_block (next_block s current) block s
                 else s\<lparr>tail := block\<rparr>);
        Some (set_next_block current block s)
      })"

definition block_list_remove :: "nat \<Rightarrow> heap \<Rightarrow> heap" where
  "block_list_remove block s =
     (let s = (if prev_block s block \<noteq> 0
               then set_next_block (prev_block s block) (next_block s block) s
               else s\<lparr>head := next_block s block\<rparr>)
      in if next_block s block \<noteq> 0
         then set_prev_block (next_block s block) (prev_block s block) s
         else s\<lparr>tail := prev_block s block\<rparr>)"

section \<open>Splitting and merging\<close>

definition split :: "nat \<Rightarrow> 32 word \<Rightarrow> heap \<Rightarrow> nat \<times> heap" where
  "split block sz s =
     (if block = 0 then (0, s)
      else
       let block_size = get_size s block;
           min_split_size = sz + of_nat sizeof_mem_block + 16
       in if block_size < min_split_size then (0, s)
          else
            let remaining_size = block_size - sz;
                s = set_size block sz s;
                new_block = block + unat sz;
                s = s\<lparr>hmem := memset (hmem s) new_block 0 8\<rparr>;
                s = set_size new_block remaining_size s;
                s = set_free new_block s;
                s = set_prev_block new_block block s;
                s = set_next_block new_block (next_block s block) s;
                s = (if next_block s block \<noteq> 0
                     then set_prev_block (next_block s block) new_block s
                     else s\<lparr>tail := new_block\<rparr>);
                s = set_next_block block new_block s
            in (new_block, s))"

definition merge_with_next :: "nat \<Rightarrow> heap \<Rightarrow> heap" where
  "merge_with_next block s =
     (if next_block s block = 0 \<or> \<not> is_free s (next_block s block) then s
      else
        let nxt = next_block s block;
            s = free_list_remove nxt s;
            new_size = get_size s block + get_size s nxt;
            s = set_size block new_size s;
            s = set_next_block block (next_block s nxt) s
        in if next_block s nxt \<noteq> 0
           then set_prev_block (next_block s nxt) block s
           else s\<lparr>tail := block\<rparr>)"

definition merge_with_prev :: "nat \<Rightarrow> heap \<Rightarrow> heap" where
  "merge_with_prev block s =
     (if prev_block s block = 0 \<or> \<not> is_free s (prev_block s block) then s
      else
        let prev = prev_block s block;
            s = free_list_remove block s;
            new_size = get_size s prev + get_size s block;
            s = set_size prev new_size s;
            s = set_next_block prev (next_block s block) s
        in if next_block s block \<noteq> 0
           then set_prev_block (next_block s block) prev s
           else s\<lparr>tail := prev\<rparr>)"

section \<open>Searching the free list\<close>

partial_function (option) first_fit_loop :: "heap \<Rightarrow> 32 word \<Rightarrow> nat \<Rightarrow> nat option" where
  "first_fit_loop s sz current =
     (if current = 0 then Some 0
      else if get_size s current \<ge> sz then Some current
      else first_fit_loop s sz (next_free s current))"

definition find_free_block_first_fit :: "32 word \<Rightarrow> heap \<Rightarrow> nat option" where
  "find_free_block_first_fit sz s = first_fit_loop s sz (free_head s)"

partial_function (option) best_fit_loop ::
  "heap \<Rightarrow> 32 word \<Rightarrow> nat \<Rightarrow> nat \<Rightarrow> 32 word \<Rightarrow> nat option" where
  "best_fit_loop s sz current best best_size =
     (if current = 0 then Some best
      else if get_size s current \<ge> sz \<and> get_size s current < best_size
      then best_fit_loop s sz (next_free s current) current (get_size s current)
      else best_fit_loop s sz (next_free s current) best best_size)"

definition find_free_block_best_fit :: "32 word \<Rightarrow> heap \<Rightarrow> nat option" where
  "find_free_block_best_fit sz s = best_fit_loop s sz (free_head s) 0 0xFFFFFFFF"

partial_function (option) worst_fit_loop ::
  "heap \<Rightarrow> 32 word \<Rightarrow> nat \<Rightarrow> nat \<Rightarrow> 32 word \<Rightarrow> nat option" where
  "worst_fit_loop s sz current worst worst_size =
     (if current = 0 then Some worst
      else if get_size s current \<ge> sz \<and> get_size s current > worst_size
      then worst_fit_loop s sz (next_free s current) current (get_size s current)
      else worst_fit_loop s sz (next_free s current) worst worst_size)"

definition find_free_block_worst_fit :: "32 word \<Rightarrow> heap \<Rightarrow> nat option" where
  "find_free_block_worst_fit sz s = worst_fit_loop s sz (free_head s) 0 0"

definition reuse_block :: "32 word \<Rightarrow> heap \<Rightarrow> nat option" where
  "reuse_block sz s =
     (if current_fsm s = FIRST_FIT then find_free_block_first_fit sz s
      else if current_fsm s = BEST_FIT then find_free_block_best_fit sz s
      else if current_fsm s = WORST_FIT then find_free_block_worst_fit sz s
      else Some 0)"

section \<open>malloc, free, calloc, realloc\<close>

text \<open>
  \<open>sbrk(int n)\<close> is \<open>sys_sbrk(n, SBRK_EAGER)\<close>: the old break is returned; a positive \<open>n\<close>
  maps zeroed pages and fails with \<open>(void*)-1\<close> (here \<open>None\<close>) when memory is short; a
  negative \<open>n\<close> moves the break down, unless the 64-bit sum wraps, in which case
  \<open>uvmdealloc\<close> changes nothing.
\<close>

definition sbrk :: "32 word \<Rightarrow> heap \<Rightarrow> nat option \<times> heap" where
  "sbrk n s =
     (let i = sint n in
      if i > 0 then
        (if brk s + nat i \<le> brk_max s
         then (Some (brk s),
               s\<lparr>hmem := (\<lambda>x. if PGROUNDUP (brk s) \<le> x \<and> x < PGROUNDUP (brk s + nat i) then 0
                             else hmem s x),
                 brk := brk s + nat i\<rparr>)
         else (None, s))
      else if nat (- i) \<le> brk s then (Some (brk s), s\<lparr>brk := brk s - nat (- i)\<rparr>)
      else (Some (brk s), s))"

definition malloc :: "32 word \<Rightarrow> heap \<Rightarrow> (nat \<times> heap) option" where
  "malloc sz s =
     (if sz = 0 then Some (0, s)
      else do {
        let aligned_sz = align_size sz;
        let total_sz = of_nat sizeof_mem_block + aligned_sz;
        block \<leftarrow> reuse_block total_sz s;
        if block \<noteq> 0 then do {
          let s = set_used block s;
          let s = free_list_remove block s;
          let (split_block, s) = split block total_sz s;
          s \<leftarrow> (if split_block \<noteq> 0 then free_list_add split_block s else Some s);
          Some (block + sizeof_mem_block, s)
        } else do {
          let page_sz = align_to_page total_sz;
          case sbrk page_sz s of
            (None, s) \<Rightarrow> Some (0, s)
          | (Some block, s) \<Rightarrow> do {
              let s = s\<lparr>hmem := memset (hmem s) block 0 8\<rparr>;
              let s = set_used block (set_size block page_sz s);
              let s = set_prev_block block 0 (set_next_block block 0 s);
              s \<leftarrow> block_list_add block s;
              let (split_block, s) = split block total_sz s;
              s \<leftarrow> (if split_block \<noteq> 0 then free_list_add split_block s else Some s);
              Some (block + sizeof_mem_block, s)
            }
        }
      })"

partial_function (option) release_loop :: "heap \<Rightarrow> heap option" where
  "release_loop s =
     (if tail s \<noteq> 0 \<and> is_free s (tail s) \<and> get_size s (tail s) \<ge> 4096 then
        (let to_release = tail s;
             release_size = get_size s to_release;
             s = free_list_remove to_release s;
             s = block_list_remove to_release s
         in release_loop (snd (sbrk (- release_size) s)))
      else Some s)"

definition free :: "nat \<Rightarrow> heap \<Rightarrow> heap option" where
  "free ptr s =
     (if ptr = 0 then Some s
      else do {
        let block = ptr - sizeof_mem_block;
        s \<leftarrow> free_list_add block (set_free block s);
        let s = merge_with_next block s;
        let s = merge_with_prev block s;
        release_loop s
      })"

definition calloc :: "32 word \<Rightarrow> 32 word \<Rightarrow> heap \<Rightarrow> (nat \<times> heap) option" where
  "calloc nmemb sz s = do {
     (p, s) \<leftarrow> malloc (nmemb * sz) s;
     if p = 0 then Some (0, s)
     else Some (p, s\<lparr>hmem := memset (hmem s) p 0 (unat (nmemb * sz))\<rparr>)
   }"

definition realloc :: "nat \<Rightarrow> 32 word \<Rightarrow> heap \<Rightarrow> (nat \<times> heap) option" where
  "realloc ptr sz s =
     (if ptr = 0 then malloc sz s
      else if sz = 0 then do { s \<leftarrow> free ptr s; Some (0, s) }
      else
        let block = ptr - sizeof_mem_block;
            old_size = get_size s block;
            aligned_sz = align_size sz;
            new_total_sz = of_nat sizeof_mem_block + aligned_sz
        in
        if new_total_sz \<le> old_size then
          (let (split_block, s) = split block new_total_sz s
           in if split_block \<noteq> 0 then do {
                s \<leftarrow> free_list_add split_block s;
                Some (ptr, merge_with_next split_block s)
              }
              else Some (ptr, s))
        else if next_block s block \<noteq> 0 \<and> is_free s (next_block s block)
          \<and> old_size + get_size s (next_block s block) \<ge> new_total_sz then
          (let s = free_list_remove (next_block s block) s;
               s = merge_with_next block s;
               (split_block, s) = split block new_total_sz s
           in if split_block \<noteq> 0 then do {
                s \<leftarrow> free_list_add split_block s;
                Some (ptr, s)
              }
              else Some (ptr, s))
        else do {
          (new_ptr, s) \<leftarrow> malloc sz s;
          if new_ptr = 0 then Some (0, s)
          else do {
            let copy_size = old_size - of_nat sizeof_mem_block;
            let copy_size = (if sz < copy_size then sz else copy_size);
            let s = s\<lparr>hmem := memcpy (hmem s) new_ptr ptr copy_size\<rparr>;
            s \<leftarrow> free ptr s;
            Some (new_ptr, s)
          }
        })"

section \<open>Naming and policy selection\<close>

definition malloc_setfsm :: "int \<Rightarrow> heap \<Rightarrow> heap" where
  "malloc_setfsm algorithm s = s\<lparr>current_fsm := algorithm\<rparr>"

fun name_loop :: "mem \<Rightarrow> nat \<Rightarrow> nat \<Rightarrow> byte list \<Rightarrow> mem" where
  "name_loop m b i [] = m(b + i := 0)"
| "name_loop m b i (c # cs) =
     (if i < 7 \<and> c \<noteq> 0 then name_loop (m(b + i := c)) b (i + 1) cs else m(b + i := 0))"

text \<open>\<open>name\<close> is the bytes of the C string, without its terminating NUL; a NULL pointer is \<open>None\<close>.\<close>

definition malloc_name :: "nat \<Rightarrow> byte list option \<Rightarrow> heap \<Rightarrow> heap" where
  "malloc_name ptr name s =
     (case name of
        None \<Rightarrow> s
      | Some cs \<Rightarrow>
          if ptr = 0 then s
          else s\<lparr>hmem := name_loop (hmem s) (ptr - sizeof_mem_block) 0 cs\<rparr>)"

end
