(* ===== verification/Umalloc_Rep.thy ===== *)
theory Umalloc_Rep
  imports Umalloc
begin

text \<open>
  What the bytes of a heap represent: the header words of a block, the doubly linked list of all blocks in
  address order and the doubly linked free list, as lists of addresses related to memory, with the effect of each
  list operation of \<open>Umalloc\<close> on them.
\<close>

section \<open>Representation of the heap\<close>

definition enc :: "nat \<Rightarrow> bool \<Rightarrow> 64 word" where
  "enc n f = of_nat (n + of_bool f)"

lemma enc_bit: "even n \<Longrightarrow> bit (enc n f) i = (i < 64 \<and> (if i = 0 then f else bit n i))"
proof -
  assume "even n"
  then have "bit (n + of_bool f) i = (if i = 0 then f else bit n i)"
    by (cases i; cases f) (auto simp: bit_0 bit_Suc)
  then show ?thesis
    by (simp add: enc_def bit_of_nat_iff del: of_nat_add)
qed

lemma enc_and_not: "even n \<Longrightarrow> enc n f AND - 2 = enc n False"
  unfolding not_one_eq [symmetric] by (rule bit_word_eqI) (auto simp: bit_simps enc_bit)

lemma enc_or: "even n \<Longrightarrow> enc n f OR 1 = enc n True"
  by (rule bit_word_eqI) (auto simp: bit_simps enc_bit)

lemma enc_and: "even n \<Longrightarrow> (enc n f AND 1 \<noteq> 0) = f"
  using enc_bit [of n f 0] by (simp add: and_one_eq bit_0 odd_iff_mod_2_eq_one)

lemma ucast_enc: "n < 2 ^ 32 \<Longrightarrow> ucast (enc n False) = (of_nat n :: 32 word)"
  by (simp add: enc_def unsigned_of_nat take_bit_nat_eq_self)
lemma ucast_of_nat32: "n < 2 ^ 32 \<Longrightarrow> ucast (of_nat n :: 32 word) = enc n False"
  by (simp add: enc_def unsigned_of_nat take_bit_nat_eq_self)

named_theorems blk_simps

definition apart :: "nat \<Rightarrow> nat \<Rightarrow> bool" where
  "apart a b \<longleftrightarrow> a + 48 \<le> b \<or> b + 48 \<le> a"

lemmas field_defs = blk_size_def next_block_def prev_block_def next_free_def prev_free_def
  set_blk_size_def set_next_block_def set_prev_block_def set_next_free_def set_prev_free_def
  get_free_node_def sizeof_mem_block_def load64_def store64_def

lemma field_same [blk_simps]:
  "blk_size (set_blk_size b w s) b = w"
  "v < 2 ^ 64 \<Longrightarrow> next_block (set_next_block b v s) b = v"
  "v < 2 ^ 64 \<Longrightarrow> prev_block (set_prev_block b v s) b = v"
  "v < 2 ^ 64 \<Longrightarrow> next_free (set_next_free b v s) b = v"
  "v < 2 ^ 64 \<Longrightarrow> prev_free (set_prev_free b v s) b = v"
  using unsigned_less [of w, where ?'a = nat] by (simp_all add: field_defs mem_simps)

lemma field_other [blk_simps]:
  "blk_size (set_next_block b v s) b = blk_size s b"
  "blk_size (set_prev_block b v s) b = blk_size s b"
  "blk_size (set_next_free b v s) b = blk_size s b"
  "blk_size (set_prev_free b v s) b = blk_size s b"
  "next_block (set_blk_size b w s) b = next_block s b"
  "next_block (set_prev_block b v s) b = next_block s b"
  "next_block (set_next_free b v s) b = next_block s b"
  "next_block (set_prev_free b v s) b = next_block s b"
  "prev_block (set_blk_size b w s) b = prev_block s b"
  "prev_block (set_next_block b v s) b = prev_block s b"
  "prev_block (set_next_free b v s) b = prev_block s b"
  "prev_block (set_prev_free b v s) b = prev_block s b"
  "next_free (set_blk_size b w s) b = next_free s b"
  "next_free (set_next_block b v s) b = next_free s b"
  "next_free (set_prev_block b v s) b = next_free s b"
  "next_free (set_prev_free b v s) b = next_free s b"
  "prev_free (set_blk_size b w s) b = prev_free s b"
  "prev_free (set_next_block b v s) b = prev_free s b"
  "prev_free (set_prev_block b v s) b = prev_free s b"
  "prev_free (set_next_free b v s) b = prev_free s b"
  by (simp_all add: field_defs mem_simps)

lemma field_apart [blk_simps]:
  assumes "apart a b"
  shows
  "blk_size (set_blk_size b w s) a = blk_size s a"
  "blk_size (set_next_block b v s) a = blk_size s a"
  "blk_size (set_prev_block b v s) a = blk_size s a"
  "blk_size (set_next_free b v s) a = blk_size s a"
  "blk_size (set_prev_free b v s) a = blk_size s a"
  "next_block (set_blk_size b w s) a = next_block s a"
  "next_block (set_next_block b v s) a = next_block s a"
  "next_block (set_prev_block b v s) a = next_block s a"
  "next_block (set_next_free b v s) a = next_block s a"
  "next_block (set_prev_free b v s) a = next_block s a"
  "prev_block (set_blk_size b w s) a = prev_block s a"
  "prev_block (set_next_block b v s) a = prev_block s a"
  "prev_block (set_prev_block b v s) a = prev_block s a"
  "prev_block (set_next_free b v s) a = prev_block s a"
  "prev_block (set_prev_free b v s) a = prev_block s a"
  "next_free (set_blk_size b w s) a = next_free s a"
  "next_free (set_next_block b v s) a = next_free s a"
  "next_free (set_prev_block b v s) a = next_free s a"
  "next_free (set_next_free b v s) a = next_free s a"
  "next_free (set_prev_free b v s) a = next_free s a"
  "prev_free (set_blk_size b w s) a = prev_free s a"
  "prev_free (set_next_block b v s) a = prev_free s a"
  "prev_free (set_prev_block b v s) a = prev_free s a"
  "prev_free (set_next_free b v s) a = prev_free s a"
  "prev_free (set_prev_free b v s) a = prev_free s a"
  using assms by (auto simp: field_defs mem_simps apart_def)

lemma field_globals [blk_simps]:
  "blk_size (s\<lparr>head := x\<rparr>) a = blk_size s a"
  "blk_size (s\<lparr>tail := x\<rparr>) a = blk_size s a"
  "blk_size (s\<lparr>free_head := x\<rparr>) a = blk_size s a"
  "next_block (s\<lparr>head := x\<rparr>) a = next_block s a"
  "next_block (s\<lparr>tail := x\<rparr>) a = next_block s a"
  "next_block (s\<lparr>free_head := x\<rparr>) a = next_block s a"
  "prev_block (s\<lparr>head := x\<rparr>) a = prev_block s a"
  "prev_block (s\<lparr>tail := x\<rparr>) a = prev_block s a"
  "prev_block (s\<lparr>free_head := x\<rparr>) a = prev_block s a"
  "next_free (s\<lparr>head := x\<rparr>) a = next_free s a"
  "next_free (s\<lparr>tail := x\<rparr>) a = next_free s a"
  "next_free (s\<lparr>free_head := x\<rparr>) a = next_free s a"
  "prev_free (s\<lparr>head := x\<rparr>) a = prev_free s a"
  "prev_free (s\<lparr>tail := x\<rparr>) a = prev_free s a"
  "prev_free (s\<lparr>free_head := x\<rparr>) a = prev_free s a"
  by (simp_all add: field_defs)

type_synonym ablock = "nat \<times> nat \<times> bool"

fun first_addr :: "nat \<Rightarrow> ablock list \<Rightarrow> nat" where
  "first_addr nx [] = nx"
| "first_addr nx (b # bs) = fst b"

fun last_addr :: "nat \<Rightarrow> ablock list \<Rightarrow> nat" where
  "last_addr p [] = p"
| "last_addr p (b # bs) = last_addr (fst b) bs"

fun seg :: "heap \<Rightarrow> nat \<Rightarrow> ablock list \<Rightarrow> nat \<Rightarrow> bool" where
  "seg s p [] nx = True"
| "seg s p ((a, n, f) # bs) nx =
     (prev_block s a = p \<and> blk_size s a = enc n f \<and> next_block s a = first_addr nx bs
      \<and> seg s a bs nx)"

fun first_free :: "nat \<Rightarrow> nat list \<Rightarrow> nat" where
  "first_free nx [] = nx"
| "first_free nx (a # fl) = a"

fun last_free :: "nat \<Rightarrow> nat list \<Rightarrow> nat" where
  "last_free p [] = p"
| "last_free p (a # fl) = last_free a fl"

fun fseg :: "heap \<Rightarrow> nat \<Rightarrow> nat list \<Rightarrow> nat \<Rightarrow> bool" where
  "fseg s p [] nx = True"
| "fseg s p (a # fl) nx =
     (prev_free s a = p \<and> next_free s a = first_free nx fl \<and> fseg s a fl nx)"

lemma first_addr_append [simp]: "first_addr nx (xs @ ys) = first_addr (first_addr nx ys) xs"
  by (cases xs) auto
lemma last_addr_append [simp]: "last_addr p (xs @ ys) = last_addr (last_addr p xs) ys"
  by (induction p xs rule: last_addr.induct) auto
lemma first_free_append [simp]: "first_free nx (xs @ ys) = first_free (first_free nx ys) xs"
  by (cases xs) auto
lemma last_free_append [simp]: "last_free p (xs @ ys) = last_free (last_free p xs) ys"
  by (induction p xs rule: last_free.induct) auto

lemma seg_append [simp]:
  "seg s p (xs @ ys) nx \<longleftrightarrow> seg s p xs (first_addr nx ys) \<and> seg s (last_addr p xs) ys nx"
  by (induction s p xs nx rule: seg.induct) auto

lemma fseg_append [simp]:
  "fseg s p (xs @ ys) nx \<longleftrightarrow> fseg s p xs (first_free nx ys) \<and> fseg s (last_free p xs) ys nx"
  by (induction s p xs nx rule: fseg.induct) auto

lemma apart_sym: "apart a b \<Longrightarrow> apart b a"
  by (auto simp: apart_def)

lemma seg_cong:
  "(\<And>a. a \<in> fst ` set bs \<Longrightarrow> prev_block t a = prev_block s a \<and> blk_size t a = blk_size s a
     \<and> next_block t a = next_block s a) \<Longrightarrow> seg t p bs nx = seg s p bs nx"
  by (induction s p bs nx rule: seg.induct) auto

lemma fseg_cong:
  "(\<And>a. a \<in> set fl \<Longrightarrow> prev_free t a = prev_free s a \<and> next_free t a = next_free s a) \<Longrightarrow>
   fseg t p fl nx = fseg s p fl nx"
  by (induction s p fl nx rule: fseg.induct) auto

definition away :: "nat set \<Rightarrow> nat \<Rightarrow> bool" where
  "away A b \<longleftrightarrow> (\<forall>a\<in>A. apart a b)"

definition clear_of :: "nat set \<Rightarrow> nat \<Rightarrow> bool" where
  "clear_of A b \<longleftrightarrow> (\<forall>a\<in>A. a = b \<or> apart a b)"

lemma away_clear: "away A b \<Longrightarrow> clear_of A b"
  by (auto simp: away_def clear_of_def)

lemma away_simps [simp]:
  "away {} b" "away (insert a A) b \<longleftrightarrow> apart a b \<and> away A b"
  "away (A \<union> B) b \<longleftrightarrow> away A b \<and> away B b"
  "clear_of {} b" "clear_of (insert a A) b \<longleftrightarrow> (a = b \<or> apart a b) \<and> clear_of A b"
  "clear_of (A \<union> B) b \<longleftrightarrow> clear_of A b \<and> clear_of B b"
  by (auto simp: away_def clear_of_def)

lemma seg_away [blk_simps]:
  assumes "away (fst ` set bs) b"
  shows "seg (set_blk_size b w s) p bs nx = seg s p bs nx"
    "seg (set_next_block b v s) p bs nx = seg s p bs nx"
    "seg (set_prev_block b v s) p bs nx = seg s p bs nx"
  using assms by (auto intro!: seg_cong simp: away_def blk_simps)

lemma seg_node [blk_simps]:
  assumes "clear_of (fst ` set bs) b"
  shows "seg (set_next_free b v s) p bs nx = seg s p bs nx"
    "seg (set_prev_free b v s) p bs nx = seg s p bs nx"
  using assms by (auto intro!: seg_cong simp: clear_of_def blk_simps)

lemma fseg_away [blk_simps]:
  assumes "away (set fl) b"
  shows "fseg (set_next_free b v s) p fl nx = fseg s p fl nx"
    "fseg (set_prev_free b v s) p fl nx = fseg s p fl nx"
  using assms by (auto intro!: fseg_cong simp: away_def blk_simps)

lemma fseg_header [blk_simps]:
  assumes "clear_of (set fl) b"
  shows "fseg (set_blk_size b w s) p fl nx = fseg s p fl nx"
    "fseg (set_next_block b v s) p fl nx = fseg s p fl nx"
    "fseg (set_prev_block b v s) p fl nx = fseg s p fl nx"
  using assms by (auto intro!: fseg_cong simp: clear_of_def blk_simps)

lemma seg_globals [blk_simps]:
  "seg (s\<lparr>head := x\<rparr>) p bs nx = seg s p bs nx"
  "seg (s\<lparr>tail := x\<rparr>) p bs nx = seg s p bs nx"
  "seg (s\<lparr>free_head := x\<rparr>) p bs nx = seg s p bs nx"
  "fseg (s\<lparr>head := x\<rparr>) p fl nx = fseg s p fl nx"
  "fseg (s\<lparr>tail := x\<rparr>) p fl nx = fseg s p fl nx"
  "fseg (s\<lparr>free_head := x\<rparr>) p fl nx = fseg s p fl nx"
  by (auto intro!: seg_cong fseg_cong simp: blk_simps)

lemma setter_globals [blk_simps]:
  "head (set_blk_size b w s) = head s" "head (set_next_block b v s) = head s"
  "head (set_prev_block b v s) = head s" "head (set_next_free b v s) = head s"
  "head (set_prev_free b v s) = head s"
  "tail (set_blk_size b w s) = tail s" "tail (set_next_block b v s) = tail s"
  "tail (set_prev_block b v s) = tail s" "tail (set_next_free b v s) = tail s"
  "tail (set_prev_free b v s) = tail s"
  "free_head (set_blk_size b w s) = free_head s" "free_head (set_next_block b v s) = free_head s"
  "free_head (set_prev_block b v s) = free_head s" "free_head (set_next_free b v s) = free_head s"
  "free_head (set_prev_free b v s) = free_head s"
  by (simp_all add: field_defs)

lemma free_list_remove_fseg:
  assumes "fseg s 0 (f1 @ b # f2) 0" "free_head s = first_free 0 (f1 @ b # f2)"
    and "sorted_wrt apart (f1 @ b # f2)" "\<forall>x\<in>set (f1 @ b # f2). 0 < x \<and> x < 2 ^ 64"
  shows "fseg (free_list_remove b s) 0 (f1 @ f2) 0"
    and "free_head (free_list_remove b s) = first_free 0 (f1 @ f2)"
  using assms
  by (cases f1 rule: rev_cases; cases f2;
      force simp: free_list_remove_def sorted_wrt_append blk_simps apart_sym away_def Let_def)+

lemma set_blk_size_twice [blk_simps]: "set_blk_size b w (set_blk_size b u s) = set_blk_size b w s"
  by (simp add: field_defs stn_stn)

lemma set_size_eq:
  assumes "blk_size s b = enc n f" "even n" "even k" "k < 2 ^ 32"
  shows "set_size b (of_nat k) s = set_blk_size b (enc k f) s"
  using assms
  by (simp add: set_size_def is_free_def Let_def set_free_def blk_simps ucast_of_nat32 enc_and enc_or)

lemma set_size_free_eq:
  assumes "even k" "k < 2 ^ 32"
  shows "set_free b (set_size b (of_nat k) s) = set_blk_size b (enc k True) s"
  using assms
  by (simp add: set_size_def Let_def set_free_def blk_simps ucast_of_nat32 enc_or)

lemma set_size_used_eq:
  assumes "even k" "k < 2 ^ 32"
  shows "set_used b (set_size b (of_nat k) s) = set_blk_size b (enc k False) s"
  using assms
  by (simp add: set_size_def Let_def set_free_def set_used_def blk_simps ucast_of_nat32 enc_or enc_and_not)

lemma set_free_eq:
  assumes "blk_size s b = enc n f" "even n"
  shows "set_free b s = set_blk_size b (enc n True) s"
  using assms by (simp add: set_free_def enc_or)

lemma set_used_eq:
  assumes "blk_size s b = enc n f" "even n"
  shows "set_used b s = set_blk_size b (enc n False) s"
  using assms by (simp add: set_used_def enc_and_not)

lemma is_free_eq: "blk_size s b = enc n f \<Longrightarrow> even n \<Longrightarrow> is_free s b = f"
  by (simp add: is_free_def enc_and)

lemma get_size_eq: "blk_size s b = enc n f \<Longrightarrow> even n \<Longrightarrow> n < 2 ^ 32 \<Longrightarrow> get_size s b = of_nat n"
  by (simp add: get_size_def enc_and_not ucast_enc)

lemma name_fields [blk_simps]:
  assumes "a = b \<or> apart a b"
  shows
    "blk_size (s\<lparr>hmem := memset (hmem s) b c 8\<rparr>) a = blk_size s a"
    "next_block (s\<lparr>hmem := memset (hmem s) b c 8\<rparr>) a = next_block s a"
    "prev_block (s\<lparr>hmem := memset (hmem s) b c 8\<rparr>) a = prev_block s a"
    "next_free (s\<lparr>hmem := memset (hmem s) b c 8\<rparr>) a = next_free s a"
    "prev_free (s\<lparr>hmem := memset (hmem s) b c 8\<rparr>) a = prev_free s a"
  using assms by (auto simp: field_defs memset_apply apart_def intro!: ldn_cong arg_cong [of _ _ of_nat])

lemma seg_name [blk_simps]:
  assumes "clear_of (fst ` set bs) b"
  shows "seg (s\<lparr>hmem := memset (hmem s) b c 8\<rparr>) p bs nx = seg s p bs nx"
  using assms by (auto intro!: seg_cong simp: clear_of_def blk_simps)

lemma fseg_name [blk_simps]:
  assumes "clear_of (set fl) b"
  shows "fseg (s\<lparr>hmem := memset (hmem s) b c 8\<rparr>) p fl nx = fseg s p fl nx"
  using assms by (auto intro!: fseg_cong simp: clear_of_def blk_simps)

section \<open>layout\<close>

fun tiled :: "nat \<Rightarrow> ablock list \<Rightarrow> nat \<Rightarrow> bool" where
  "tiled a [] e = (a = e)"
| "tiled a ((b, n, f) # bs) e = (b = a \<and> 48 \<le> n \<and> 16 dvd n \<and> tiled (a + n) bs e)"

lemma tiled_append [simp]:
  "tiled a (xs @ ys) e \<longleftrightarrow> (\<exists>m. tiled a xs m \<and> tiled m ys e)"
  by (induction a xs e rule: tiled.induct) auto

lemma tiled_le: "tiled a bs e \<Longrightarrow> a \<le> e"
  by (induction a bs e rule: tiled.induct) auto

lemma tiled_bounds: "tiled a bs e \<Longrightarrow> (b, n, f) \<in> set bs \<Longrightarrow> a \<le> b \<and> b + n \<le> e \<and> 48 \<le> n \<and> 16 dvd n"
  by (induction a bs e rule: tiled.induct) (auto dest: tiled_le)

lemma tiled_addr: "tiled a bs e \<Longrightarrow> b \<in> fst ` set bs \<Longrightarrow> a \<le> b \<and> b + 48 \<le> e"
  using tiled_bounds by fastforce

lemma tiled_sorted: "tiled a bs e \<Longrightarrow> sorted_wrt apart (map fst bs)"
  by (induction a bs e rule: tiled.induct) (fastforce simp: apart_def dest: tiled_addr)+

lemma sorted_wrt_clear: "sorted_wrt apart xs \<Longrightarrow> b \<in> set xs \<Longrightarrow> clear_of (set xs) b"
  by (induction xs) (auto simp: clear_of_def apart_sym)

lemma clear_subset: "clear_of A b \<Longrightarrow> B \<subseteq> A \<Longrightarrow> clear_of B b"
  by (auto simp: clear_of_def)

definition shape :: "heap \<Rightarrow> ablock list \<Rightarrow> nat list \<Rightarrow> bool" where
  "shape s bs fl \<longleftrightarrow> head s = first_addr 0 bs \<and> tail s = last_addr 0 bs \<and> seg s 0 bs 0
     \<and> free_head s = first_free 0 fl \<and> fseg s 0 fl 0"

definition layout :: "nat \<Rightarrow> ablock list \<Rightarrow> nat \<Rightarrow> bool" where
  "layout base bs e \<longleftrightarrow> tiled base bs e \<and> 0 < base \<and> 16 dvd base \<and> e < 2 ^ 31"

lemma split_small:
  assumes "blk_size s a = enc n f" "even n" "n < 2 ^ 32" "k + 48 < 2 ^ 32" "n < k + 48"
  shows "split a (of_nat k) s = (0, s)"
  using assms word32_less_of_nat(1) [of n "k + 48"]
  by (simp add: split_def Let_def get_size_eq sizeof_mem_block_def add.assoc)

lemma split_shape:
  assumes "shape s (b1 @ (a, n, f) # b2) fl" "layout base (b1 @ (a, n, f) # b2) e"
    and "set fl \<subseteq> fst ` set (b1 @ (a, n, f) # b2)" "a \<notin> set fl"
    and "16 dvd k" "48 \<le> k" "k + 48 \<le> n"
  shows "\<exists>s'. split a (of_nat k) s = (a + k, s')
    \<and> shape s' (b1 @ (a, k, f) # (a + k, n - k, True) # b2) fl"
proof -
  have tl: "tiled base (b1 @ (a, n, f) # b2) e" "0 < base" "16 dvd base" "e < 2 ^ 31"
    using assms(2) by (auto simp: layout_def)
  have n: "even n" "n < 2 ^ 31" "0 < a" "a + n \<le> e" "16 dvd n"
    using tl tiled_bounds [OF tl(1), of a n f] by auto
  have k: "even k" "a < 2 ^ 64" "a + k < 2 ^ 64" using assms(5,7) n(4) tl(4) by auto
  have b1: "x + 48 \<le> a" if "x \<in> fst ` set b1" for x
    using tl that by (auto dest: tiled_addr)
  have b2: "a + n \<le> x \<and> x < 2 ^ 31" if "x \<in> fst ` set b2" for x
    using tl that by (auto dest: tiled_addr)
  have aw: "away (fst ` set b1) a" "away (fst ` set b1) (a + k)"
     "away (fst ` set b2) a" "away (fst ` set b2) (a + k)" "apart a (a + k)"  "apart (a + k) a"
    using b1 b2 assms(6,7) by (force simp: away_def apart_def)+
  have cl: "clear_of (fst ` set (b1 @ (a, n, f) # b2)) a"
    using aw by (simp add: away_clear image_Un)
  have fl: "clear_of (set fl) a" 
    using clear_subset [OF cl assms(3)] .
  have fl': "away (set fl) (a + k)"
    using assms(3,4) aw by (force simp: away_def)
  define s1 where "s1 = set_blk_size a (enc k f) s"
  define s3 where "s3 = set_blk_size (a + k) (enc (n - k) True) (s1\<lparr>hmem := memset (hmem s1) (a + k) 0 8\<rparr>)"
  define s5 where "s5 = set_next_block (a + k) (first_addr 0 b2) (set_prev_block (a + k) a s3)"
  define s6 where "s6 = (if first_addr 0 b2 \<noteq> 0 then set_prev_block (first_addr 0 b2) (a + k) s5 else s5\<lparr>tail := a + k\<rparr>)"
  have sa: "blk_size s a = enc n f" "next_block s a = first_addr 0 b2" "prev_block s a = last_addr 0 b1" "seg s 0 b1 a" "seg s a b2 0"
    "head s = first_addr 0 (b1 @ (a, n, f) # b2)" "tail s = last_addr 0 (b1 @ (a, n, f) # b2)"
    "free_head s = first_free 0 fl" "fseg s 0 fl 0"
    using assms(1) by (auto simp: shape_def)
  have rem: "set_free (a + k) (set_size (a + k) (of_nat n - of_nat k) t)
    = set_blk_size (a + k) (enc (n - k) True) t" for t
    using set_size_free_eq [of "n - k" "a + k" t] n k assms(7) by simp
  have split: "split a (of_nat k) s = (a + k, set_next_block a (a + k) s6)"
    using n k assms(5-7) sa(1,2) aw word32_less_of_nat(1) [of n "k + 48"]
    by (simp add: split_def Let_def get_size_eq sizeof_mem_block_def add.assoc set_size_eq rem
       unsigned_of_nat take_bit_nat_eq_self s6_def s5_def s3_def s1_def blk_simps)
  have "shape (set_next_block a (a + k) s6) (b1 @ (a, k, f) # (a + k, n - k, True) # b2) fl"
  proof (cases b2)
    case Nil
    then show ?thesis
      using n k assms(5-7) sa aw fl fl' 
      by (simp add: shape_def s6_def s5_def s3_def s1_def blk_simps away_clear)
  next
    case (Cons c b2')
    obtain d m g where c: "c = (d, m, g)" by (cases c) auto
    have srt: "sorted_wrt apart (map fst (b1 @ (a, n, f) # b2))" using tl tiled_sorted by blast
    have d: "away (fst ` set b1) d" "away (fst ` set b2') d" "apart d a" "apart a d"
      using srt by (auto simp: Cons c sorted_wrt_append away_def apart_sym)
    have d': "d \<noteq> 0" "d < 2 ^ 31" "apart (a + k) d" "apart d (a + k)"
      using b2 [of d] assms(7) n by (auto simp: Cons c apart_def)
    have "clear_of (set fl) d"
      using clear_subset [OF _ assms(3), of d] d by (simp add: Cons c image_Un away_clear)
    then show ?thesis
      using n k assms(5-7) sa aw fl fl' d d'
      by (simp add: Cons c shape_def s6_def s5_def s3_def s1_def blk_simps away_clear)
  qed
  with split show ?thesis by blast
qed

definition hdr :: "nat \<Rightarrow> nat set" where "hdr b = {b..<b + 32}"
definition node :: "nat \<Rightarrow> nat set" where "node b = {b + 32..<b + 48}"

definition frame :: "nat set \<Rightarrow> heap \<Rightarrow> heap \<Rightarrow> bool" where
  "frame X s t \<longleftrightarrow> (\<forall>x. x \<notin> X \<longrightarrow> hmem t x = hmem s x)
     \<and> brk t = brk s \<and> brk_max t = brk_max s \<and> current_fsm t = current_fsm s"

named_theorems frame_intros

lemma frame_refl [frame_intros]: "frame X s s"
  by (simp add: frame_def)

lemma frame_trans: "frame X s t \<Longrightarrow> frame Y t u \<Longrightarrow> X \<subseteq> Z \<Longrightarrow> Y \<subseteq> Z \<Longrightarrow> frame Z s u"
  unfolding frame_def by (metis subsetD)

lemma frame_setters [frame_intros]:
  "frame X s t \<Longrightarrow> hdr b \<subseteq> X \<Longrightarrow> frame X s (set_blk_size b w t)"
  "frame X s t \<Longrightarrow> hdr b \<subseteq> X \<Longrightarrow> frame X s (set_next_block b v t)"
  "frame X s t \<Longrightarrow> hdr b \<subseteq> X \<Longrightarrow> frame X s (set_prev_block b v t)"
  "frame X s t \<Longrightarrow> node b \<subseteq> X \<Longrightarrow> frame X s (set_next_free b v t)"
  "frame X s t \<Longrightarrow> node b \<subseteq> X \<Longrightarrow> frame X s (set_prev_free b v t)"
  "frame X s t \<Longrightarrow> hdr b \<subseteq> X \<Longrightarrow> frame X s (t\<lparr>hmem := memset (hmem t) b c 8\<rparr>)"
  "frame X s t \<Longrightarrow> frame X s (t\<lparr>head := x\<rparr>)"
  "frame X s t \<Longrightarrow> frame X s (t\<lparr>tail := x\<rparr>)"
  "frame X s t \<Longrightarrow> frame X s (t\<lparr>free_head := x\<rparr>)"
  by (auto simp: frame_def field_defs stn_apply memset_apply hdr_def node_def subset_iff)

lemma frame_size [frame_intros]:
  "frame X s t \<Longrightarrow> hdr b \<subseteq> X \<Longrightarrow> frame X s (set_free b t)"
  "frame X s t \<Longrightarrow> hdr b \<subseteq> X \<Longrightarrow> frame X s (set_used b t)"
  "frame X s t \<Longrightarrow> hdr b \<subseteq> X \<Longrightarrow> frame X s (set_size b n t)"
  by (simp_all add: set_free_def set_used_def set_size_def Let_def frame_intros)

definition meta :: "ablock list \<Rightarrow> nat list \<Rightarrow> nat set" where
  "meta bs fl = (\<Union>b\<in>fst ` set bs. hdr b) \<union> (\<Union>b\<in>set fl. node b)"

lemma meta_hdr: "b \<in> fst ` set bs \<Longrightarrow> hdr b \<subseteq> meta bs fl"
  and meta_node: "b \<in> set fl \<Longrightarrow> node b \<subseteq> meta bs fl"
  by (auto simp: meta_def)

lemma meta_mono: "fst ` set bs \<subseteq> fst ` set bs' \<Longrightarrow> set fl \<subseteq> set fl' \<Longrightarrow> meta bs fl \<subseteq> meta bs' fl'"
  unfolding meta_def by (intro Un_mono UN_mono) auto


text \<open>Facts on the neighbours of a block that its layout gives.\<close>

lemma layout_mid:
  assumes "layout base (b1 @ (a, n, f) # b2) e"
  shows "even n" "48 \<le> n" "16 dvd n" "n < 2 ^ 31" "0 < a" "a < 2 ^ 31" "a + n \<le> e"
    "away (fst ` set b1) a" "away (fst ` set b2) a" "clear_of (fst ` set (b1 @ (a, n, f) # b2)) a"
proof -
  have t: "tiled base (b1 @ (a, n, f) # b2) e" "0 < base" "e < 2 ^ 31"
    using assms by (auto simp: layout_def)
  have b: "base \<le> a \<and> a + n \<le> e \<and> 48 \<le> n \<and> 16 dvd n"
    using tiled_bounds [OF t(1), of a n f] by simp
  show "even n" "48 \<le> n" "16 dvd n" "n < 2 ^ 31" "0 < a" "a < 2 ^ 31" "a + n \<le> e"
    using b t by auto
  have "sorted_wrt apart (map fst (b1 @ (a, n, f) # b2))"
    using t tiled_sorted by blast
  then show aw: "away (fst ` set b1) a" "away (fst ` set b2) a"
    by (auto simp: sorted_wrt_append away_def apart_sym)
  then show "clear_of (fst ` set (b1 @ (a, n, f) # b2)) a"
    by (simp add: away_clear image_Un)
qed

lemma free_clear:
  assumes "layout base (b1 @ (a, n, f) # b2) e" "set fl \<subseteq> fst ` set (b1 @ (a, n, f) # b2)"
  shows "clear_of (set fl) a"
  using clear_subset [OF layout_mid(10) [OF assms(1)] assms(2)] .

lemma free_sorted:
  assumes "layout base bs e" "set fl \<subseteq> fst ` set bs" "distinct fl"
  shows "sorted_wrt apart fl" "\<forall>x\<in>set fl. 0 < x \<and> x < 2 ^ 64"
proof -
  have t: "tiled base bs e" "0 < base" "e < 2 ^ 31"
    using assms by (auto simp: layout_def)
  have c: "apart x y" if "x \<in> set (map fst bs)" "y \<in> set (map fst bs)" "x \<noteq> y" for x y
    using sorted_wrt_clear [OF tiled_sorted [OF t(1)] that(2)] that
    by (auto simp: clear_of_def)
  show "sorted_wrt apart fl"
    using assms(2,3)
  proof (induction fl)
    case (Cons x fl)
    then show ?case
      by (simp) (metis c image_set list.set_map subsetD)
  qed simp
  show "\<forall>x\<in>set fl. 0 < x \<and> x < 2 ^ 64"
    using assms(2) t tiled_addr [OF t(1)] by fastforce
qed

lemma free_list_remove_header:
  assumes "layout base bs e" "set (f1 @ b # f2) \<subseteq> fst ` set bs"
    and "fseg s 0 (f1 @ b # f2) 0" "distinct (f1 @ b # f2)"
  shows "seg (free_list_remove b s) p (bs) nx = seg s p bs nx"
    "head (free_list_remove b s) = head s" "tail (free_list_remove b s) = tail s"
proof -
  have t: "tiled base bs e" using assms by (auto simp: layout_def)
  have c: "clear_of (fst ` set bs) y" if "y \<in> fst ` set bs" for y
    using sorted_wrt_clear [OF tiled_sorted [OF t(1)], of y] that by simp
  show "seg (free_list_remove b s) p (bs) nx = seg s p bs nx"
    using assms(2,3) free_sorted [OF assms(1,2,4)]
    by (cases f1 rule: rev_cases; cases f2;
        auto simp: free_list_remove_def Let_def blk_simps c sorted_wrt_append apart_sym)
  show "head (free_list_remove b s) = head s" "tail (free_list_remove b s) = tail s"
    by (auto simp: free_list_remove_def Let_def blk_simps)
qed

lemma free_list_remove_shape:
  assumes "shape s bs (f1 @ b # f2)" "layout base bs e"
    and "set (f1 @ b # f2) \<subseteq> fst ` set bs" "distinct (f1 @ b # f2)"
  shows "shape (free_list_remove b s) bs (f1 @ f2)"
  using assms free_list_remove_header [OF assms(2,3) _ assms(4)] free_list_remove_fseg [of s f1 b f2]
    free_sorted [OF assms(2-4)]
  by (auto simp: shape_def)

lemma free_list_tail_seg:
  "fseg s p (f1 @ [c]) 0 \<Longrightarrow> \<forall>x\<in>set (f1 @ [c]). 0 < x \<Longrightarrow>
   free_list_tail s (first_free 0 (f1 @ [c])) = Some c"
proof (induction f1 arbitrary: p)
  case Nil
  then show ?case by (simp add: free_list_tail.simps)
next
  case (Cons x f1)
  have "next_free s x = first_free c f1" "first_free c f1 \<noteq> 0"
    using Cons.prems by (cases f1; auto)+
  then show ?case using Cons.prems Cons.IH [of x]
    by (simp add: free_list_tail.simps [of s x])
qed

lemma free_list_add_shape:
  assumes "shape s bs fl" "layout base bs e" "set fl \<subseteq> fst ` set bs" "distinct fl"
    and "b \<in> fst ` set bs" "b \<notin> set fl"
  shows "\<exists>s'. free_list_add b s = Some s' \<and> shape s' bs (fl @ [b])"
proof -
  have t: "tiled base bs e" "0 < base" "e < 2 ^ 31" using assms by (auto simp: layout_def)
  have c: "clear_of (fst ` set bs) y" if "y \<in> fst ` set bs" for y
    using sorted_wrt_clear [OF tiled_sorted [OF t(1)], of y] that by simp
  have srt: "sorted_wrt apart (fl @ [b])" "\<forall>x\<in>set (fl @ [b]). 0 < x \<and> x < 2 ^ 64"
    using free_sorted [OF assms(2), of "fl @ [b]"] assms(3-6) by auto
  then have aw: "away (set fl) b"
    by (auto simp: sorted_wrt_append away_def)
  define s1 where "s1 = set_prev_free b 0 (set_next_free b 0 s)"
  have s1: "shape s1 bs fl"
    using assms(1) aw c [OF assms(5)] by (simp add: shape_def s1_def blk_simps)
  show ?thesis
  proof (cases fl rule: rev_cases)
    case Nil
    have "free_list_add b s = Some (s1\<lparr>free_head := b\<rparr>)"
      using s1 Nil by (simp add: free_list_add_def s1_def [symmetric] Let_def shape_def)
    moreover have "shape (s1\<lparr>free_head := b\<rparr>) bs (fl @ [b])"
      using s1 Nil by (simp add: shape_def blk_simps s1_def)
    ultimately show ?thesis by blast
  next
    case (snoc f1 x)
    have x: "apart x b" "apart b x" "x < 2 ^ 64" "b < 2 ^ 64" "away (set f1) x" "x \<in> fst ` set bs" "0 < x"
      using srt snoc assms(3) by (auto simp: sorted_wrt_append away_def apart_sym)
    have "free_list_tail s1 (first_free 0 fl) = Some x"
      using free_list_tail_seg [of s1 0 f1 x] s1 srt(2) snoc by (simp add: shape_def)
    moreover have "first_free 0 fl \<noteq> 0"
      using snoc srt(2) by (cases f1) auto
    ultimately have "free_list_add b s = Some (set_prev_free b x (set_next_free x b s1))"
      using s1 by (simp add: free_list_add_def s1_def [symmetric] Let_def shape_def)
    moreover have "shape (set_prev_free b x (set_next_free x b s1)) bs (fl @ [b])"
      using s1 x aw snoc c [OF assms(5)] c [OF x(6)] 
      by (simp add: shape_def blk_simps s1_def)
    ultimately show ?thesis by blast
  qed
qed

lemma merge_with_next_none:
  assumes "shape s (b1 @ (a, n, f) # b2) fl" "layout base (b1 @ (a, n, f) # b2) e"
    and "b2 = [] \<or> (\<exists>c m b3. b2 = (c, m, False) # b3)"
  shows "merge_with_next a s = s"
  using assms layout_mid(1) [of base "b1 @ [(a, n, f)]" "fst (hd b2)" "fst (snd (hd b2))" False]
  by (auto simp: merge_with_next_def shape_def is_free_eq)

lemma merge_with_next_shape:
  assumes "shape s (b1 @ (a, n, f) # (c, m, True) # b2) (f1 @ c # f2)"
    and "layout base (b1 @ (a, n, f) # (c, m, True) # b2) e"
    and "set (f1 @ c # f2) \<subseteq> fst ` set (b1 @ (a, n, f) # (c, m, True) # b2)" "distinct (f1 @ c # f2)"
  shows "shape (merge_with_next a s) (b1 @ (a, n + m, f) # b2) (f1 @ f2)"
proof -
  let ?bs = "b1 @ (a, n, f) # (c, m, True) # b2"
  note A = layout_mid [OF assms(2)]
  have L2: "layout base ((b1 @ [(a, n, f)]) @ (c, m, True) # b2) e" using assms(2) by simp
  note C = layout_mid [OF L2]
  have nm: "n + m < 2 ^ 32" "a + n = c" using A(7) C(7) assms(2) by (auto simp: layout_def)
  define s1 where "s1 = free_list_remove c s"
  have s1: "shape s1 ?bs (f1 @ f2)"
    unfolding s1_def by (rule free_list_remove_shape [OF assms])
  have nc: "next_block s a = c" "blk_size s c = enc m True"
    using assms(1) by (auto simp: shape_def)
  have fields: "blk_size s1 a = enc n f" "blk_size s1 c = enc m True" "next_block s1 c = first_addr 0 b2"
    using s1 by (auto simp: shape_def)
  define s2 where "s2 = set_next_block a (first_addr 0 b2) (set_blk_size a (enc (n + m) f) s1)"
  have ap: "apart a c" "apart c a" using A C by (auto simp: away_def apart_sym)
  have add: "get_size s1 a + get_size s1 c = of_nat (n + m)"
    using fields A C by (simp add: get_size_eq)
  have eq: "merge_with_next a s = (if first_addr 0 b2 \<noteq> 0 then set_prev_block (first_addr 0 b2) a s2 else s2\<lparr>tail := a\<rparr>)"
    using nc fields A C ap nm set_size_eq [OF fields(1), of "n + m"]
    by (simp add: merge_with_next_def Let_def is_free_eq s1_def [symmetric] add s2_def blk_simps del: of_nat_add)
  have fla: "clear_of (set (f1 @ f2)) a"
    using free_clear [OF assms(2,3)] by (rule clear_subset) auto
  show ?thesis
  proof (cases b2)
    case Nil
    then show ?thesis
      using s1 A C fla by (simp add: eq shape_def s2_def blk_simps away_clear)
  next
    case (Cons x b3)
    obtain d k g where x: "x = (d, k, g)" by (cases x) auto
    have L3: "layout base ((b1 @ [(a, n, f), (c, m, True)]) @ (d, k, g) # b3) e" using assms(2) by (simp add: Cons x)
    note D = layout_mid [OF L3]
    have fld: "clear_of (set (f1 @ f2)) d"
      using clear_subset [OF D(10), of "set (f1 @ f2)"] assms(3) by (auto simp: Cons x)
    show ?thesis
      using s1 A C D fla fld by (simp add: eq shape_def s2_def blk_simps away_clear Cons x apart_sym)
  qed
qed

lemma merge_with_prev_none:
  assumes "shape s (b1 @ (a, n, f) # b2) fl" "layout base (b1 @ (a, n, f) # b2) e"
    and "b1 = [] \<or> (\<exists>c m b3. b1 = b3 @ [(c, m, False)])"
  shows "merge_with_prev a s = s"
  using assms layout_mid(1) [of base "butlast b1" "fst (last b1)" "fst (snd (last b1))" False]
  by (auto simp: merge_with_prev_def shape_def is_free_eq)

lemma merge_with_prev_next:
  assumes "shape s (b1 @ (p, m, True) # (a, n, True) # b2) fl"
    and "layout base (b1 @ (p, m, True) # (a, n, True) # b2) e"
  shows "merge_with_prev a s = merge_with_next p s"
proof -
  have "layout base ((b1 @ [(p, m, True)]) @ (a, n, True) # b2) e"
    using assms(2) by simp
  note A = layout_mid [OF this] and P = layout_mid [OF assms(2)]
  show ?thesis
    using assms(1) A P
    by (simp add: merge_with_prev_def merge_with_next_def shape_def is_free_eq)
qed

lemma block_list_remove_tail:
  assumes "shape s (b1 @ [(a, n, f)]) fl" "layout base (b1 @ [(a, n, f)]) e"
    and "set fl \<subseteq> fst ` set b1"
  shows "shape (block_list_remove a s) b1 fl"
proof (cases b1 rule: rev_cases)
  case Nil
  then show ?thesis
    using assms by (simp add: block_list_remove_def shape_def blk_simps)
next
  case (snoc b2 x)
  obtain c m g where x: "x = (c, m, g)" by (cases x) auto
  have L: "layout base (b2 @ (c, m, g) # [(a, n, f)]) e"
    using assms(2) by (simp add: snoc x)
  note C = layout_mid [OF L]
  have "clear_of (set fl) c"
    using assms(3) by (intro clear_subset [OF C(10)]) (auto simp: snoc x)
  then show ?thesis
    using assms(1) C
    by (simp add: block_list_remove_def shape_def snoc x blk_simps apart_sym)
qed

lemma block_list_find_seg:
  "seg s p ((c, m, g) # b2) 0 \<Longrightarrow> tiled base ((c, m, g) # b2) e \<Longrightarrow> 0 < base \<Longrightarrow> e \<le> a \<Longrightarrow>
   block_list_find s a c = Some (last_addr 0 ((c, m, g) # b2))"
proof (induction b2 arbitrary: p c m g base)
  case Nil
  then show ?case by (simp add: block_list_find.simps)
next
  case (Cons y b2)
  obtain d k h where y: "y = (d, k, h)" by (cases y) auto
  have d: "0 < d" "d < a"
    using Cons.prems tiled_le [of "base + m + k" b2 e] by (auto simp: y)
  show ?case
    using Cons.prems Cons.IH [of c d k h "base + m"] d
    by (simp add: block_list_find.simps [of s a base] y)
qed

lemma block_list_add_shape:
  assumes "shape s bs fl" "layout base bs a" "set fl \<subseteq> fst ` set bs"
    and "blk_size s a = enc n f" "0 < a" "a < 2 ^ 31"
  shows "\<exists>s'. block_list_add a s = Some s' \<and> shape s' (bs @ [(a, n, f)]) fl
    \<and> frame (meta (bs @ [(a, n, f)]) fl) s s'"
proof (cases bs rule: rev_cases)
  case Nil
  then show ?thesis
    using assms by (simp add: block_list_add_def shape_def blk_simps meta_hdr frame_intros)
next
  case (snoc b1 x)
  obtain c m g where x: "x = (c, m, g)" by (cases x) auto
  have L: "layout base (b1 @ (c, m, g) # []) a" using assms(2) by (simp add: snoc x)
  note C = layout_mid [OF L]
  have aw: "away (fst ` set bs) a"
    using assms(2) tiled_addr by (fastforce simp: layout_def away_def apart_def)
  have "away (set fl) a" using aw assms(3) by (force simp: away_def)
  then have fl: "clear_of (set fl) a" "clear_of (set fl) c"
    using away_clear clear_subset [OF C(10)] assms(3) by (auto simp: snoc x)
  obtain d k h b2 where bs: "bs = (d, k, h) # b2"
    by (cases bs) (use snoc in auto)
  have hd: "head s = d" "d \<noteq> 0" "d < a" "seg s 0 ((d, k, h) # b2) 0"
    using assms(1,2) tiled_addr [of base bs a d] by (auto simp: bs shape_def layout_def)
  have "block_list_find s a d = Some (last_addr 0 bs)"
    using block_list_find_seg [of s 0 d k h b2 base a a] assms(2) hd by (simp add: bs layout_def)
  then have find: "block_list_find s a d = Some c" "next_block s c = 0"
    using assms(1) by (simp_all add: snoc x shape_def)
  have ap: "apart c a" "apart a c"
    using aw by (auto simp: snoc x apart_sym)
  have eq: "block_list_add a s =
     Some (set_next_block c a ((set_prev_block a c (set_next_block a 0 s))\<lparr>tail := a\<rparr>))"
    using hd find ap by (simp add: block_list_add_def blk_simps Let_def)
  show ?thesis
    using assms(1,4-6) fl ap aw C by (simp add: eq shape_def blk_simps snoc x meta_hdr frame_intros)
qed

lemma field_commute:
  "p = q \<or> apart p q \<Longrightarrow>
   set_next_free p v (set_prev_free q w s) = set_prev_free q w (set_next_free p v s)"
  "set_prev_free p v (s\<lparr>free_head := x\<rparr>) = (set_prev_free p v s)\<lparr>free_head := x\<rparr>"
  by (auto simp: field_defs stn_commute apart_def)

lemma set_free_twice:
  "set_next_free p v (set_next_free p u s) = set_next_free p v s"
  "set_prev_free p v (set_prev_free p u s) = set_prev_free p v s"
  by (simp_all add: field_defs stn_stn)

lemma free_list_remove_twice:
  assumes "shape s bs (f1 @ b # f2)" "layout base bs e"
    and "set (f1 @ b # f2) \<subseteq> fst ` set bs" "distinct (f1 @ b # f2)"
  shows "free_list_remove b (free_list_remove b s) = free_list_remove b s"
proof -
  note S = free_sorted [OF assms(2-4)]
  have "apart (last f1) (hd f2)" if "f1 \<noteq> []" "f2 \<noteq> []"
    using S(1) that by (auto simp: sorted_wrt_append)
  then show ?thesis
    using assms(1) S
    by (cases f1 rule: rev_cases; cases f2)
      (auto simp: free_list_remove_def shape_def Let_def blk_simps apart_sym sorted_wrt_append
        field_commute set_free_twice)
qed

lemma free_list_remove_frame:
  assumes "shape s bs (f1 @ b # f2)" "layout base bs e"
    and "set (f1 @ b # f2) \<subseteq> fst ` set bs" "distinct (f1 @ b # f2)"
  shows "frame (meta bs' (f1 @ b # f2)) s (free_list_remove b s)"
  using assms(1) free_sorted [OF assms(2-4)]
  by (cases f1 rule: rev_cases; cases f2)
    (auto simp: free_list_remove_def shape_def Let_def blk_simps apart_sym sorted_wrt_append
        intro!: frame_intros meta_node)

lemma free_list_add_frame:
  assumes "shape s bs fl" "\<forall>x\<in>set fl. 0 < x" "free_list_add b s = Some s'" "b \<notin> set fl" "sorted_wrt apart (fl @ [b])"
  shows "frame (meta bs' (fl @ [b])) s s'"
proof (cases fl rule: rev_cases)
  case Nil
  then show ?thesis
    using assms by (auto simp: free_list_add_def shape_def Let_def blk_simps intro!: frame_intros meta_node)
next
  case (snoc f1 x)
  define s1 where "s1 = set_prev_free b 0 (set_next_free b 0 s)"
  have "fseg s1 0 fl 0" "free_head s1 = first_free 0 fl" "first_free 0 fl \<noteq> 0"
    using assms(1,2,5) by (cases f1; simp add: shape_def s1_def blk_simps sorted_wrt_append away_def snoc)+
  then have "s' = set_prev_free b x (set_next_free x b s1)"
    using assms(2,3) free_list_tail_seg [of s1 0 f1 x]
    by (simp add: free_list_add_def s1_def [symmetric] Let_def snoc)
  then show ?thesis
    by (auto simp: s1_def snoc intro!: frame_intros meta_node)
qed

lemma merge_with_next_frame:
  assumes "shape s (b1 @ (a, n, f) # (c, m, True) # b2) (f1 @ c # f2)"
    and "layout base (b1 @ (a, n, f) # (c, m, True) # b2) e"
    and "set (f1 @ c # f2) \<subseteq> fst ` set (b1 @ (a, n, f) # (c, m, True) # b2)" "distinct (f1 @ c # f2)"
  shows "frame (meta (b1 @ (a, n, f) # (c, m, True) # b2) (f1 @ c # f2)) s (merge_with_next a s)"
proof -
  let ?bs = "b1 @ (a, n, f) # (c, m, True) # b2"
  let ?X = "meta ?bs (f1 @ c # f2)"
  have h: "hdr a \<subseteq> ?X" "hdr c \<subseteq> ?X" "b2 \<noteq> [] \<Longrightarrow> hdr (first_addr 0 b2) \<subseteq> ?X"
    by (auto intro!: meta_hdr) (cases b2; force simp: meta_def)
  have nc: "next_block s a = c" using assms(1) by (simp add: shape_def)
  have fr: "frame ?X s (free_list_remove c s)"
    by (rule free_list_remove_frame [OF assms])
  have "shape (free_list_remove c s) ?bs (f1 @ f2)"
    by (rule free_list_remove_shape [OF assms])
  then have "next_block (free_list_remove c s) c = first_addr 0 b2" by (simp add: shape_def)
  moreover have "apart c a" using layout_mid(9) [OF assms(2)] by simp
  ultimately show ?thesis
    using h fr by (cases b2) (auto simp: merge_with_next_def nc Let_def blk_simps set_size_def set_free_def intro!: frame_intros)
qed

lemma split_frame:
  assumes "shape s (b1 @ (a, n, f) # b2) fl" "split a k s = (c, s')" "c \<noteq> 0" "apart a c"
  shows "frame (meta (b1 @ (a, n', f') # (c, m', g') # b2) fl') s s'"
proof -
  let ?X = "meta (b1 @ (a, n', f') # (c, m', g') # b2) fl'"
  have h: "hdr a \<subseteq> ?X" "hdr c \<subseteq> ?X" "b2 \<noteq> [] \<Longrightarrow> hdr (first_addr 0 b2) \<subseteq> ?X"
    by (auto intro!: meta_hdr) (cases b2; force simp: meta_def)
  have "next_block s a = first_addr 0 b2" using assms(1) by (simp add: shape_def)
  then show ?thesis
    using assms(2-4) h
    by (cases b2) (auto simp: split_def Let_def blk_simps set_size_def set_free_def
        intro!: frame_intros split: if_splits)
qed

lemma block_list_remove_frame:
  assumes "shape s (b1 @ [(a, n, f)]) fl" "layout base (b1 @ [(a, n, f)]) e"
  shows "frame (meta (b1 @ [(a, n, f)]) fl) s (block_list_remove a s)"
  using assms(1) layout_mid(8) [OF assms(2)]
  by (cases b1 rule: rev_cases) (auto simp: block_list_remove_def shape_def Let_def blk_simps apart_sym
      intro!: frame_intros meta_hdr)

end
