(* ===== verification/Umalloc_Inv.thy ===== *)
theory Umalloc_Inv
  imports Umalloc_Rep
begin

text \<open>
  The heap invariant and its preservation: splitting, merging, extending with \<open>sbrk\<close>, releasing the
  end of the heap, and from them \<open>malloc\<close>, \<open>free\<close> and \<open>realloc\<close> on every branch.
\<close>

section \<open>The heap invariant\<close>

definition free_addrs :: "ablock list \<Rightarrow> nat list" where
  "free_addrs bs = map fst (filter (\<lambda>b. snd (snd b)) bs)"

lemma free_addrs_simps [simp]:
  "free_addrs [] = []"
  "free_addrs ((a, n, f) # bs) = (if f then [a] else []) @ free_addrs bs"
  "free_addrs (xs @ ys) = free_addrs xs @ free_addrs ys"
  by (simp_all add: free_addrs_def)

lemma free_addrs_subset: "set (free_addrs bs) \<subseteq> fst ` set bs"
  by (auto simp: free_addrs_def)

lemma free_addrs_fresh: "a \<notin> fst ` set bs \<Longrightarrow> a \<notin> set (free_addrs bs)"
  using free_addrs_subset by blast

definition heap_wf :: "heap \<Rightarrow> nat \<Rightarrow> ablock list \<Rightarrow> nat list \<Rightarrow> nat \<Rightarrow> bool" where
  "heap_wf s base bs fl e \<longleftrightarrow> shape s bs fl \<and> layout base bs e \<and> distinct fl
     \<and> set fl = set (free_addrs bs)"

lemma wf_subset: "heap_wf s base bs fl e \<Longrightarrow> set fl \<subseteq> fst ` set bs"
  using free_addrs_subset by (auto simp: heap_wf_def)

lemma layout_distinct: "layout base bs e \<Longrightarrow> distinct (map fst bs)"
proof -
  assume "layout base bs e"
  then have "sorted_wrt apart (map fst bs)" by (auto simp: layout_def tiled_sorted)
  moreover have "\<not> apart x x" for x by (simp add: apart_def)
  ultimately show ?thesis by (metis distinct_conv_nth linorder_neqE_nat sorted_wrt_nth_less)
qed

lemma free_addrs_distinct: "layout base bs e \<Longrightarrow> distinct (free_addrs bs)"
  unfolding free_addrs_def by (rule distinct_map_filter) (rule layout_distinct)

lemma free_addrs_iff:
  "layout base bs e \<Longrightarrow> (a, n, f) \<in> set bs \<Longrightarrow> a \<in> set (free_addrs bs) \<longleftrightarrow> f"
  using eq_key_imp_eq_value [OF layout_distinct, of base bs e a] by (force simp: free_addrs_def)

lemma remove_free:
  "distinct (f1 @ a # f2) \<Longrightarrow> set (f1 @ a # f2) = insert a B \<Longrightarrow> a \<notin> B \<Longrightarrow> set (f1 @ f2) = B"
  by (simp add: set_eq_iff) metis

lemma layout_change: "layout base (b1 @ (a, n, f) # b2) e \<Longrightarrow> layout base (b1 @ (a, n, g) # b2) e"
  by (auto simp: layout_def)

lemma layout_split:
  "layout base (b1 @ (a, n, f) # b2) e \<Longrightarrow> 16 dvd k \<Longrightarrow> 48 \<le> k \<Longrightarrow> k + 48 \<le> n \<Longrightarrow>
   layout base (b1 @ (a, k, f) # (a + k, n - k, g) # b2) e"
  by (auto simp: layout_def dvd_diff_nat)

lemma layout_merge:
  "layout base (b1 @ (a, n, f) # (c, m, g) # b2) e \<Longrightarrow> layout base (b1 @ (a, n + m, f) # b2) e"
  by (auto simp: layout_def add.assoc)

lemma fresh_addr:
  assumes "layout base (b1 @ (a, n, f) # b2) e"
  shows "a \<notin> fst ` set b1" "a \<notin> fst ` set b2"
  using layout_distinct [OF assms] by auto

text \<open>Payload bytes of the allocated blocks.\<close>

definition payload :: "ablock list \<Rightarrow> nat set" where
  "payload bs = {x. \<exists>a n. (a, n, False) \<in> set bs \<and> a + 32 \<le> x \<and> x < a + n}"

lemma extent_apart:
  assumes "layout base bs e" "(a, n, f) \<in> set bs" "(b, m, g) \<in> set bs" "b \<noteq> a"
  shows "b + 48 \<le> a \<or> a + n \<le> b"
proof -
  obtain b1 b2 where bs: "bs = b1 @ (a, n, f) # b2"
    using assms(2) by (meson split_list)
  then have t: "tiled base b1 a" "tiled (a + n) b2 e"
    using assms(1) by (auto simp: layout_def)
  have "(b, m, g) \<in> set b1 \<or> (b, m, g) \<in> set b2" using assms(3,4) by (auto simp: bs)
  then show ?thesis using tiled_bounds [OF t(1)] tiled_bounds [OF t(2)] by fastforce
qed

lemma extents_disjoint:
  assumes "layout base bs e" "(a, n, f) \<in> set bs" "(b, m, g) \<in> set bs" "b \<noteq> a"
  shows "a + n \<le> b \<or> b + m \<le> a"
  using extent_apart [OF assms] extent_apart [OF assms(1,3,2)] assms(4) by auto

lemma payload_meta:
  assumes "layout base bs e" "set fl \<subseteq> set (free_addrs bs)"
  shows "payload bs \<inter> meta bs fl = {}"
proof -
  { fix x a n assume *: "(a, n, False) \<in> set bs" "a + 32 \<le> x" "x < a + n"
    have "a \<notin> set fl"
      using assms(2) free_addrs_iff [OF assms(1) *(1)] by auto
    moreover have "x \<notin> hdr b" if "(b, m, g) \<in> set bs" for b m g
      using extent_apart [OF assms(1) *(1) that] * by (auto simp: hdr_def)
    moreover have "x \<notin> node b" if "(b, m, g) \<in> set bs" "b \<in> set fl" for b m g
      using extent_apart [OF assms(1) *(1) that(1)] * that(2) calculation(1)
      by (cases "b = a") (auto simp: node_def)
    ultimately have "x \<notin> meta bs fl"
      using assms(2) free_addrs_subset [of bs] by (fastforce simp: meta_def) }
  then show ?thesis by (auto simp: payload_def)
qed

text \<open>Splitting off the tail of an allocated block and putting it on the free list.\<close>

definition carve_blocks where
  "carve_blocks a n k b2 = (if n < k + 48 then (a, n, False) # b2
      else (a, k, False) # (a + k, n - k, True) # b2)"

lemma carve:
  assumes "heap_wf s base (b1 @ (a, n, False) # b2) fl e" "16 dvd k" "48 \<le> k" "k \<le> n"
  shows "\<exists>c s' s'' fl'. split a (of_nat k) s = (c, s')
     \<and> (if c \<noteq> 0 then free_list_add c s' else Some s') = Some s''
     \<and> heap_wf s'' base (b1 @ carve_blocks a n k b2) fl' e
     \<and> frame (meta (b1 @ carve_blocks a n k b2) fl') s s''"
proof -
  let ?bs = "b1 @ (a, n, False) # b2"
  have W: "shape s ?bs fl" "layout base ?bs e" "distinct fl" "set fl = set (free_addrs ?bs)"
    using assms(1) by (auto simp: heap_wf_def)
  note A = layout_mid [OF W(2)] and sub = wf_subset [OF assms(1)]
  have "a \<notin> set fl"
    using W(4) fresh_addr [OF W(2)] free_addrs_subset by fastforce
  show ?thesis
  proof (cases "n < k + 48")
    case True
    have "split a (of_nat k) s = (0, s)"
      using W(1) A True assms(4) by (intro split_small) (auto simp: shape_def)
    with True assms(1) show ?thesis by (auto simp: carve_blocks_def frame_refl)
  next
    case False
    let ?bs' = "b1 @ (a, k, False) # (a + k, n - k, True) # b2"
    have L: "layout base ?bs' e"
      using layout_split [OF W(2) assms(2,3)] False by simp
    have L2: "layout base ((b1 @ [(a, k, False)]) @ (a + k, n - k, True) # b2) e"
      using L by simp
    obtain s' where s': "split a (of_nat k) s = (a + k, s')" "shape s' ?bs' fl"
      using split_shape [OF W(1,2) sub \<open>a \<notin> set fl\<close> assms(2,3)] False by auto
    have fr: "frame (meta ?bs' (fl @ [a + k])) s s'"
      using split_frame [OF W(1) s'(1)] A(5) layout_mid(9) [OF L] by (auto simp: apart_sym)
    have new: "a + k \<notin> set fl" "set fl \<subseteq> fst ` set ?bs'"
      using W(4) fresh_addr [OF L2] free_addrs_subset [of b1] free_addrs_subset [of b2] by auto
    obtain s'' where s'': "free_list_add (a + k) s' = Some s''" "shape s'' ?bs' (fl @ [a + k])"
      using free_list_add_shape [OF s'(2) L new(2) W(3) _ new(1)] by auto
    have srt: "sorted_wrt apart (fl @ [a + k])" "\<forall>x\<in>set (fl @ [a + k]). 0 < x \<and> x < 2 ^ 64"
      using free_sorted [OF L, of "fl @ [a + k]"] new W(3) by auto
    have "frame (meta ?bs' (fl @ [a + k])) s' s''"
      using free_list_add_frame [OF s'(2) _ s''(1) new(1) srt(1)] srt(2) by simp
    with fr have "frame (meta ?bs' (fl @ [a + k])) s s''"
      by (rule frame_trans) auto
    moreover have "heap_wf s'' base ?bs' (fl @ [a + k]) e"
      using s''(2) L W(3,4) new by (auto simp: heap_wf_def)
    ultimately show ?thesis
      using s' s'' False A(5) by (auto simp: carve_blocks_def)
  qed
qed

lemma wf_take:
  assumes "heap_wf s base (b1 @ (a, n, True) # b2) (f1 @ a # f2) e"
  shows "heap_wf (free_list_remove a (set_used a s)) base (b1 @ (a, n, False) # b2) (f1 @ f2) e"
    and "frame (meta (b1 @ (a, n, True) # b2) (f1 @ a # f2)) s (free_list_remove a (set_used a s))"
proof -
  let ?bs = "b1 @ (a, n, True) # b2" and ?bs' = "b1 @ (a, n, False) # b2"
  let ?fl = "f1 @ a # f2"
  have W: "shape s ?bs ?fl" "layout base ?bs e" "distinct ?fl" "set ?fl = set (free_addrs ?bs)"
    using assms(1) by (auto simp: heap_wf_def)
  note A = layout_mid [OF W(2)] and sub = wf_subset [OF assms(1)]
  have eq: "set_used a s = set_blk_size a (enc n False) s"
    using W(1) A by (intro set_used_eq) (auto simp: shape_def)
  have cl: "clear_of (set ?fl) a" using free_clear [OF W(2) sub] .
  have S: "shape (set_used a s) ?bs' ?fl"
    using W(1) A cl by (simp add: eq shape_def blk_simps)
  have L: "layout base ?bs' e" using layout_change W(2) by blast
  have sub': "set ?fl \<subseteq> fst ` set ?bs'" using sub by simp
  have "set (f1 @ f2) = set (free_addrs b1) \<union> set (free_addrs b2)"
    using W(4) fresh_addr [OF W(2)]
    by (intro remove_free [OF W(3)]) (auto simp: free_addrs_fresh)
  then show "heap_wf (free_list_remove a (set_used a s)) base ?bs' (f1 @ f2) e"
    using free_list_remove_shape [OF S L sub' W(3)] L W(3) by (simp add: heap_wf_def)
  have "frame (meta ?bs ?fl) s (set_used a s)"
    by (auto intro!: frame_intros meta_hdr)
  then show "frame (meta ?bs ?fl) s (free_list_remove a (set_used a s))"
    by (rule frame_trans [OF _ free_list_remove_frame [OF S L sub' W(3)]]) auto
qed

lemma wf_release:
  assumes "heap_wf s base (b1 @ (a, n, False) # b2) fl e"
  shows "\<exists>s'. free_list_add a (set_free a s) = Some s'
     \<and> heap_wf s' base (b1 @ (a, n, True) # b2) (fl @ [a]) e
     \<and> frame (meta (b1 @ (a, n, True) # b2) (fl @ [a])) s s'"
proof -
  let ?bs = "b1 @ (a, n, False) # b2" and ?bs' = "b1 @ (a, n, True) # b2"
  have W: "shape s ?bs fl" "layout base ?bs e" "distinct fl" "set fl = set (free_addrs ?bs)"
    using assms(1) by (auto simp: heap_wf_def)
  note A = layout_mid [OF W(2)] and sub = wf_subset [OF assms(1)]
  have eq: "set_free a s = set_blk_size a (enc n True) s"
    using W(1) A by (intro set_free_eq) (auto simp: shape_def)
  have S: "shape (set_free a s) ?bs' fl"
    using W(1) A free_clear [OF W(2) sub] by (simp add: eq shape_def blk_simps)
  have L: "layout base ?bs' e" using layout_change W(2) by blast
  have sub': "set fl \<subseteq> fst ` set ?bs'" using sub by simp
  have new: "a \<notin> set fl"
    using W(4) fresh_addr [OF W(2)] free_addrs_subset by fastforce
  obtain s' where s': "free_list_add a (set_free a s) = Some s'" "shape s' ?bs' (fl @ [a])"
    using free_list_add_shape [OF S L sub' W(3) _ new] by auto
  have srt: "sorted_wrt apart (fl @ [a])" "\<forall>x\<in>set (fl @ [a]). 0 < x \<and> x < 2 ^ 64"
    using free_sorted [OF L, of "fl @ [a]"] new W(3) sub' by auto
  have "frame (meta ?bs' (fl @ [a])) s (set_free a s)"
    by (auto intro!: frame_intros meta_hdr)
  moreover have "frame (meta ?bs' (fl @ [a])) (set_free a s) s'"
    using free_list_add_frame [OF S _ s'(1) new srt(1)] srt(2) by simp
  ultimately have "frame (meta ?bs' (fl @ [a])) s s'"
    by (rule frame_trans) auto
  then show ?thesis
    using s' L W(3,4) new by (auto simp: heap_wf_def)
qed

text \<open>Merging with a free right neighbour.\<close>

fun merge_r :: "ablock \<Rightarrow> ablock list \<Rightarrow> ablock list" where
  "merge_r (a, n, f) ((c, m, True) # bs) = (a, n + m, f) # bs"
| "merge_r b bs = b # bs"

lemma wf_merge_next:
  assumes "heap_wf s base (b1 @ (a, n, f) # b2) fl e"
  shows "\<exists>fl'. heap_wf (merge_with_next a s) base (b1 @ merge_r (a, n, f) b2) fl' e
    \<and> frame (meta (b1 @ (a, n, f) # b2) fl) s (merge_with_next a s)"
proof (cases "\<exists>c m b3. b2 = (c, m, True) # b3")
  case True
  then obtain c m b3 where b2: "b2 = (c, m, True) # b3" by blast
  let ?bs = "b1 @ (a, n, f) # (c, m, True) # b3"
  have W: "shape s ?bs fl" "layout base ?bs e" "distinct fl" "set fl = set (free_addrs ?bs)"
    using assms(1) by (auto simp: heap_wf_def b2)
  obtain f1 f2 where fl: "fl = f1 @ c # f2"
    using W(4) split_list [of c fl] by auto
  note sub = wf_subset [OF assms(1)]
  have c: "c \<notin> fst ` set b1" "c \<noteq> a" "c \<notin> fst ` set b3" "a \<notin> fst ` set b1" "a \<notin> fst ` set b3"
    using layout_distinct [OF W(2)] by auto
  have "set (f1 @ f2) = set (free_addrs (b1 @ (a, n + m, f) # b3))"
  proof (rule remove_free)
    show "distinct (f1 @ c # f2)" using W(3) fl by simp
    show "set (f1 @ c # f2) = insert c (set (free_addrs (b1 @ (a, n + m, f) # b3)))"
      using W(4) unfolding fl by (cases f) (simp_all add: insert_commute)
    show "c \<notin> set (free_addrs (b1 @ (a, n + m, f) # b3))"
      using c by (simp add: free_addrs_fresh)
  qed
  moreover note sub' = sub [unfolded fl b2] and D = W(3) [unfolded fl]
  moreover have "shape (merge_with_next a s) (b1 @ (a, n + m, f) # b3) (f1 @ f2)"
    using merge_with_next_shape [OF W(1)[unfolded fl] W(2) sub' D] .
  moreover have "frame (meta ?bs fl) s (merge_with_next a s)"
    using merge_with_next_frame [OF W(1)[unfolded fl] W(2) sub' D] by (simp add: fl)
  ultimately have "heap_wf (merge_with_next a s) base (b1 @ (a, n + m, f) # b3) (f1 @ f2) e"
    "frame (meta ?bs fl) s (merge_with_next a s)"
    using layout_merge [OF W(2)] by (simp_all add: heap_wf_def)
  then show ?thesis by (auto simp: b2)
next
  case False
  have "b2 = [] \<or> (\<exists>c m b3. b2 = (c, m, False) # b3)"
    using False by (cases b2) auto
  moreover from this have "merge_with_next a s = s"
    using assms by (intro merge_with_next_none) (auto simp: heap_wf_def)
  moreover have "merge_r (a, n, f) b2 = (a, n, f) # b2" using calculation by auto
  ultimately show ?thesis using assms by (auto simp: frame_refl)
qed

definition rep :: "heap \<Rightarrow> nat \<Rightarrow> ablock list \<Rightarrow> nat list \<Rightarrow> bool" where
  "rep s base bs fl \<longleftrightarrow> heap_wf s base bs fl (brk s) \<and> brk s \<le> brk_max s \<and> brk_max s < 2 ^ 31"

definition live :: "ablock list \<Rightarrow> (nat \<times> nat) set" where
  "live bs = {(a + 32, n - 32) | a n. (a, n, False) \<in> set bs}"

definition coalesced :: "ablock list \<Rightarrow> bool" where
  "coalesced bs = successively (\<lambda>x y. \<not> (snd (snd x) \<and> snd (snd y))) bs"

lemma live_simps [simp]:
  "live [] = {}"
  "live ((a, n, f) # bs) = (if f then {} else {(a + 32, n - 32)}) \<union> live bs"
  "live (xs @ ys) = live xs \<union> live ys"
  by (auto simp: live_def)

lemma payload_simps [simp]:
  "payload [] = {}"
  "payload ((a, n, f) # bs) = (if f then {} else {a + 32..<a + n}) \<union> payload bs"
  "payload (xs @ ys) = payload xs \<union> payload ys"
proof -
  show "payload ((a, n, f) # bs) = (if f then {} else {a + 32..<a + n}) \<union> payload bs"
    by (cases f) (force simp: payload_def)+
qed (auto simp: payload_def)

definition bsize :: "ablock list \<Rightarrow> nat \<Rightarrow> nat" where
  "bsize bs a = (case map_of bs a of Some (n, f) \<Rightarrow> n | None \<Rightarrow> 0)"

lemma seg_mem: "seg s p bs nx \<Longrightarrow> (a, n, f) \<in> set bs \<Longrightarrow> blk_size s a = enc n f"
  by (induction s p bs nx rule: seg.induct) auto

lemma wf_block:
  assumes "heap_wf s base bs fl e" "(a, n, f) \<in> set bs"
  shows "blk_size s a = enc n f" "get_size s a = of_nat n" "is_free s a = f" "bsize bs a = n"
    "48 \<le> n" "n < 2 ^ 31" "0 < a" "a + n \<le> e" "16 dvd n" "e < 2 ^ 31"
proof -
  obtain b1 b2 where bs: "bs = b1 @ (a, n, f) # b2"
    using assms(2) by (meson split_list)
  have L: "layout base (b1 @ (a, n, f) # b2) e" and S: "shape s bs fl"
    using assms(1) by (auto simp: heap_wf_def bs)
  note A = layout_mid [OF L]
  show b: "blk_size s a = enc n f"
    using S assms(2) by (auto simp: shape_def intro: seg_mem)
  show "get_size s a = of_nat n" "is_free s a = f"
    using get_size_eq [OF b] is_free_eq [OF b] A by auto
  show "bsize bs a = n"
    using map_of_is_SomeI [OF layout_distinct assms(2)] L by (simp add: bsize_def bs)
  show "48 \<le> n" "n < 2 ^ 31" "0 < a" "a + n \<le> e" "16 dvd n" "e < 2 ^ 31"
    using A L by (auto simp: layout_def)
qed

lemma wf_free_mem:
  assumes "heap_wf s base bs fl e" "a \<in> set fl"
  obtains n where "(a, n, True) \<in> set bs" "bsize bs a = n"
proof -
  obtain n where "(a, n, True) \<in> set bs"
    using assms by (auto simp: heap_wf_def free_addrs_def)
  then show ?thesis using wf_block(4) [OF assms(1)] that by blast
qed

lemma wf_free_size:
  assumes "heap_wf s base bs fl e" "a \<in> set fl"
  shows "get_size s a = of_nat (bsize bs a)" "bsize bs a < 2 ^ 31" "0 < a" "48 \<le> bsize bs a"
  using wf_free_mem [OF assms] wf_block [OF assms(1)] by metis+

text \<open>The three searches, as functions of the free list.\<close>

lemma first_fit_seg:
  assumes "fseg s p fl 0" "\<forall>a\<in>set fl. get_size s a = of_nat (z a) \<and> z a < 2 ^ 31 \<and> 0 < a" "k < 2 ^ 32"
  shows "first_fit_loop s (of_nat k) (first_free 0 fl) =
    Some (case find (\<lambda>a. k \<le> z a) fl of None \<Rightarrow> 0 | Some a \<Rightarrow> a)"
  using assms
proof (induction fl arbitrary: p)
  case Nil
  then show ?case by (simp add: first_fit_loop.simps)
next
  case (Cons a fl)
  then show ?case
    using word32_less_of_nat(2) [of k "z a"] by (auto simp: first_fit_loop.simps [of s "of_nat k" a])
qed

lemma best_fit_seg:
  assumes "fseg s p fl 0" "\<forall>a\<in>set fl. get_size s a = of_nat (z a) \<and> z a < 2 ^ 31 \<and> 0 < a" "k < 2 ^ 32" "bz < 2 ^ 32"
  shows "best_fit_loop s (of_nat k) (first_free 0 fl) b (of_nat bz) =
    Some (fst (foldl (\<lambda>(b, bz) a. if k \<le> z a \<and> z a < bz then (a, z a) else (b, bz)) (b, bz) fl))"
  using assms
proof (induction fl arbitrary: p b bz)
  case Nil
  then show ?case by (simp add: best_fit_loop.simps)
next
  case (Cons a fl)
  then show ?case
    using word32_less_of_nat(2) [of k "z a"] word32_less_of_nat(1) [of "z a" bz]
    by (auto simp: best_fit_loop.simps [of s "of_nat k" a])
qed

lemma worst_fit_seg:
  assumes "fseg s p fl 0" "\<forall>a\<in>set fl. get_size s a = of_nat (z a) \<and> z a < 2 ^ 31 \<and> 0 < a" "k < 2 ^ 32" "wz < 2 ^ 32"
  shows "worst_fit_loop s (of_nat k) (first_free 0 fl) b (of_nat wz) =
    Some (fst (foldl (\<lambda>(b, wz) a. if k \<le> z a \<and> wz < z a then (a, z a) else (b, wz)) (b, wz) fl))"
  using assms
proof (induction fl arbitrary: p b wz)
  case Nil
  then show ?case by (simp add: worst_fit_loop.simps)
next
  case (Cons a fl)
  then show ?case
    using word32_less_of_nat(2) [of k "z a"] word32_less_of_nat(1) [of wz "z a"]
    by (auto simp: worst_fit_loop.simps [of s "of_nat k" a])
qed

lemma best_fold:
  fixes z :: "nat \<Rightarrow> nat"
  assumes "foldl (\<lambda>(b, bz) a. if k \<le> z a \<and> z a < bz then (a, z a) else (b, bz)) (b0, z0) fl = (b, bz)"
  shows "(b, bz) = (b0, z0) \<and> (\<forall>a\<in>set fl. k \<le> z a \<longrightarrow> z0 \<le> z a)
    \<or> b \<in> set fl \<and> bz = z b \<and> k \<le> z b \<and> z b < z0 \<and> (\<forall>a\<in>set fl. k \<le> z a \<longrightarrow> z b \<le> z a)"
  using assms
proof (induction fl arbitrary: b bz rule: rev_induct)
  case (snoc a fl)
  obtain b' bz' where st: "foldl (\<lambda>(b, bz) a. if k \<le> z a \<and> z a < bz then (a, z a) else (b, bz)) (b0, z0) fl = (b', bz')"
    by fastforce
  show ?case using snoc.prems snoc.IH [OF st] st by (auto split: if_splits)
qed simp

lemma worst_fold:
  fixes z :: "nat \<Rightarrow> nat"
  assumes "foldl (\<lambda>(b, wz) a. if k \<le> z a \<and> wz < z a then (a, z a) else (b, wz)) (b0, z0) fl = (b, wz)"
  shows "(b, wz) = (b0, z0) \<and> (\<forall>a\<in>set fl. k \<le> z a \<longrightarrow> z a \<le> z0)
    \<or> b \<in> set fl \<and> wz = z b \<and> k \<le> z b \<and> z0 < z b \<and> (\<forall>a\<in>set fl. z a \<le> z b)"
  using assms
proof (induction fl arbitrary: b wz rule: rev_induct)
  case (snoc a fl)
  obtain b' wz' where st: "foldl (\<lambda>(b, wz) a. if k \<le> z a \<and> wz < z a then (a, z a) else (b, wz)) (b0, z0) fl = (b', wz')"
    by fastforce
  show ?case using snoc.prems snoc.IH [OF st] st by (auto split: if_splits)
qed simp

lemma reuse_block_spec:
  assumes "heap_wf s base bs fl e" "k < 2 ^ 32"
  shows "\<exists>b. reuse_block (of_nat k) s = Some b
    \<and> (b = 0 \<and> (current_fsm s \<in> {FIRST_FIT, BEST_FIT, WORST_FIT} \<longrightarrow> (\<forall>a\<in>set fl. bsize bs a < k))
       \<or> b \<in> set fl \<and> k \<le> bsize bs b
         \<and> (current_fsm s = FIRST_FIT \<longrightarrow> find (\<lambda>a. k \<le> bsize bs a) fl = Some b)
         \<and> (current_fsm s = BEST_FIT \<longrightarrow> (\<forall>a\<in>set fl. k \<le> bsize bs a \<longrightarrow> bsize bs b \<le> bsize bs a))
         \<and> (current_fsm s = WORST_FIT \<longrightarrow> (\<forall>a\<in>set fl. bsize bs a \<le> bsize bs b)))"
proof -
  let ?z = "bsize bs"
  have fl: "\<forall>a\<in>set fl. get_size s a = of_nat (?z a) \<and> ?z a < 2 ^ 31 \<and> 0 < a \<and> 48 \<le> ?z a"
    using wf_free_size [OF assms(1)] by blast
  then have fl': "\<forall>a\<in>set fl. get_size s a = of_nat (?z a) \<and> ?z a < 2 ^ 31 \<and> 0 < a" by blast
  have S: "fseg s 0 fl 0" "free_head s = first_free 0 fl"
    using assms(1) by (auto simp: heap_wf_def shape_def)
  consider (first) "current_fsm s = FIRST_FIT" | (best) "current_fsm s = BEST_FIT"
    | (worst) "current_fsm s = WORST_FIT"
    | (other) "current_fsm s \<notin> {FIRST_FIT, BEST_FIT, WORST_FIT}" by blast
  then show ?thesis
  proof cases
    case first
    have "reuse_block (of_nat k) s = Some (case find (\<lambda>a. k \<le> ?z a) fl of None \<Rightarrow> 0 | Some a \<Rightarrow> a)"
      using first first_fit_seg [OF S(1) fl' assms(2)] S(2)
      by (simp add: reuse_block_def find_free_block_first_fit_def)
    moreover have "a \<in> set fl \<and> k \<le> ?z a" if "find (\<lambda>a. k \<le> ?z a) fl = Some a" for a
      using that by (auto simp: find_Some_iff)
    moreover have "\<forall>a\<in>set fl. ?z a < k" if "find (\<lambda>a. k \<le> ?z a) fl = None"
      using that by (auto simp: find_None_iff not_le)
    ultimately show ?thesis using first
      by (cases "find (\<lambda>a. k \<le> ?z a) fl") (auto simp: FIRST_FIT_def BEST_FIT_def WORST_FIT_def)
  next
    case best
    obtain b bz where st: "foldl (\<lambda>(b, bz) a. if k \<le> ?z a \<and> ?z a < bz then (a, ?z a) else (b, bz)) (0, 4294967295) fl = (b, bz)"
      by fastforce
    have "reuse_block (of_nat k) s = Some b"
      using best best_fit_seg [OF S(1) fl' assms(2), of 4294967295 0] S(2) st
      by (simp add: reuse_block_def find_free_block_best_fit_def FIRST_FIT_def BEST_FIT_def)
    moreover have "\<forall>a\<in>set fl. ?z a < k" if "\<forall>a\<in>set fl. k \<le> ?z a \<longrightarrow> 4294967295 \<le> ?z a"
      using that fl by force
    ultimately show ?thesis using best best_fold [OF st] fl
      by (auto simp: FIRST_FIT_def BEST_FIT_def WORST_FIT_def)
  next
    case worst
    obtain b bz where st: "foldl (\<lambda>(b, bz) a. if k \<le> ?z a \<and> bz < ?z a then (a, ?z a) else (b, bz)) (0, 0) fl = (b, bz)"
      by fastforce
    have "reuse_block (of_nat k) s = Some b"
      using worst worst_fit_seg [OF S(1) fl' assms(2), of 0 0] S(2) st
      by (simp add: reuse_block_def find_free_block_worst_fit_def FIRST_FIT_def BEST_FIT_def WORST_FIT_def)
    moreover have "\<forall>a\<in>set fl. ?z a < k" if "\<forall>a\<in>set fl. k \<le> ?z a \<longrightarrow> ?z a \<le> 0"
      using that fl by force
    ultimately show ?thesis using worst worst_fold [OF st] fl
      by (auto simp: FIRST_FIT_def BEST_FIT_def WORST_FIT_def)
  next
    case other
    then show ?thesis by (simp add: reuse_block_def)
  qed
qed

text \<open>Alignment on natural numbers.\<close>

definition align :: "nat \<Rightarrow> nat \<Rightarrow> nat" where
  "align d n = (if n mod d = 0 then n else n + (d - n mod d))"

lemma align_props: "0 < d \<Longrightarrow> d dvd align d n \<and> n \<le> align d n \<and> align d n < n + d"
proof -
  assume d: "0 < d"
  then have "n mod d < d" "n = d * (n div d) + n mod d" by auto
  then have "n + (d - n mod d) = d * (n div d + 1)"
    by (simp only: distrib_left mult_1_right)
  then have "d dvd n + (d - n mod d)" by simp
  moreover have "0 < n mod d" if "n mod d \<noteq> 0" using that by simp
  ultimately show ?thesis using d \<open>n mod d < d\<close> unfolding align_def by auto
qed

lemma align_size_of_nat:
  assumes "n + 16 < 2 ^ 32" shows "align_size (of_nat n) = of_nat (align 16 n)"
proof -
  have m: "(of_nat n :: 32 word) mod 16 = of_nat (n mod 16)"
    using assms by (simp add: word_arith_nat_mod unsigned_of_nat take_bit_nat_eq_self)
  have "(of_nat (n mod 16) = (0 :: 32 word)) = (n mod 16 = 0)"
    using word_of_nat_eq_0_iff [where ?'a = 32, of "n mod 16"] nat_dvd_not_less [of "n mod 16" "2 ^ 32"] by auto
  moreover have "(16 :: 32 word) - of_nat (n mod 16) = of_nat (16 - n mod 16)"
    using of_nat_diff32 [of "n mod 16" 16] by simp
  ultimately show ?thesis by (simp add: align_size_def align_def m)
qed

lemma align_to_page_of_nat:
  assumes "n + 4096 < 2 ^ 32" shows "align_to_page (of_nat n) = of_nat (align 4096 n)"
proof -
  have m: "(of_nat n :: 32 word) mod 4096 = of_nat (n mod 4096)"
    using assms by (simp add: word_arith_nat_mod unsigned_of_nat take_bit_nat_eq_self)
  have "(of_nat (n mod 4096) = (0 :: 32 word)) = (n mod 4096 = 0)"
    using word_of_nat_eq_0_iff [where ?'a = 32, of "n mod 4096"] nat_dvd_not_less [of "n mod 4096" "2 ^ 32"] by auto
  moreover have "(4096 :: 32 word) - of_nat (n mod 4096) = of_nat (4096 - n mod 4096)"
    using of_nat_diff32 [of "n mod 4096" 4096] by simp
  ultimately show ?thesis by (simp add: align_to_page_def align_def m)
qed

lemma coalesced_simps [simp]:
  "coalesced []" "coalesced [x]"
  "coalesced (x # y # zs) \<longleftrightarrow> \<not> (snd (snd x) \<and> snd (snd y)) \<and> coalesced (y # zs)"
  "coalesced (xs @ ys) \<longleftrightarrow> coalesced xs \<and> coalesced ys
     \<and> (xs = [] \<or> ys = [] \<or> \<not> (snd (snd (last xs)) \<and> snd (snd (hd ys))))"
  by (auto simp: coalesced_def successively_append_iff)

lemma layout_end: "layout base bs e \<Longrightarrow> 16 dvd e"
proof -
  have "16 dvd x \<Longrightarrow> tiled x bs y \<Longrightarrow> 16 dvd y" for x bs y
    by (induction x bs y rule: tiled.induct) auto
  then show "layout base bs e \<Longrightarrow> 16 dvd e" by (auto simp: layout_def)
qed

lemma layout_dvd: "layout base (b1 @ (a, n, f) # b2) e \<Longrightarrow> 16 dvd a"
  using layout_end [of base b1 a] by (auto simp: layout_def dest: tiled_le)

lemma frame_keep:
  "frame X s t \<Longrightarrow> B \<inter> X = {} \<Longrightarrow> A \<subseteq> B \<Longrightarrow> x \<in> A \<Longrightarrow> hmem t x = hmem s x"
  unfolding frame_def by blast

lemma wf_payload: "heap_wf s base bs fl e \<Longrightarrow> payload bs \<inter> meta bs fl = {}"
  unfolding heap_wf_def by (metis payload_meta order_refl)

text \<open>The result of a successful allocation.\<close>

definition allocated :: "heap \<Rightarrow> nat \<Rightarrow> ablock list \<Rightarrow> nat \<Rightarrow> nat \<Rightarrow> heap \<Rightarrow> bool" where
  "allocated s base bs n p s' \<longleftrightarrow> (\<exists>bs' fl' k. rep s' base bs' fl'
     \<and> live bs' = insert (p, k) (live bs) \<and> p \<notin> fst ` live bs \<and> n \<le> k \<and> 0 < p \<and> 16 dvd p
     \<and> (coalesced bs \<longrightarrow> coalesced bs')
     \<and> (\<forall>x\<in>payload bs. hmem s' x = hmem s x))"

lemma live_fresh:
  assumes "layout base (b1 @ (a, n, f) # b2) e"
  shows "a + 32 \<notin> fst ` live b1" "a + 32 \<notin> fst ` live b2"
  using fresh_addr [OF assms] by (force simp: live_def)+

lemma carve_live:
  "live (carve_blocks a n k b2) =
     insert (a + 32, if n < k + 48 then n - 32 else k - 32) (live b2)"
  "payload b2 \<subseteq> payload (carve_blocks a n k b2)"
  by (auto simp: carve_blocks_def)

lemma carve_coalesced:
  "coalesced (b1 @ (a, n, True) # b2) \<Longrightarrow> coalesced (b1 @ carve_blocks a n k b2)"
  by (cases b2) (auto simp: carve_blocks_def)

lemma malloc_reuse:
  assumes "rep s base bs fl" "b \<in> set fl" "k \<le> bsize bs b" "16 dvd k" "48 \<le> k"
  shows "\<exists>c s' s''. split b (of_nat k) (free_list_remove b (set_used b s)) = (c, s')
    \<and> (if c \<noteq> 0 then free_list_add c s' else Some s') = Some s''
    \<and> allocated s base bs (k - 32) (b + 32) s''"
proof -
  have W: "heap_wf s base bs fl (brk s)" using assms(1) by (simp add: rep_def)
  obtain n where n: "(b, n, True) \<in> set bs" "bsize bs b = n"
    using wf_free_mem [OF W assms(2)] by blast
  obtain b1 b2 where bs: "bs = b1 @ (b, n, True) # b2" using n(1) by (meson split_list)
  obtain f1 f2 where fl: "fl = f1 @ b # f2" using assms(2) by (meson split_list)
  define t where "t = free_list_remove b (set_used b s)"
  have T: "heap_wf t base (b1 @ (b, n, False) # b2) (f1 @ f2) (brk s)" "frame (meta bs fl) s t"
    using wf_take [OF W[unfolded bs fl]] by (auto simp: t_def bs fl)
  let ?bs' = "b1 @ carve_blocks b n k b2"
  obtain c s' s'' fl' where C: "split b (of_nat k) t = (c, s')"
     "(if c \<noteq> 0 then free_list_add c s' else Some s') = Some s''"
     "heap_wf s'' base ?bs' fl' (brk s)" "frame (meta ?bs' fl') t s''"
    using carve [OF T(1) assms(4,5)] assms(3) n(2) by auto
  have L: "layout base (b1 @ (b, n, True) # b2) (brk s)" using W by (simp add: heap_wf_def bs)
  have "payload bs \<subseteq> payload ?bs'"
    using carve_live(2) [of b2 b n k] by (auto simp: bs)
  then have pres: "\<forall>x\<in>payload bs. hmem s'' x = hmem s x"
    using frame_keep [OF C(4) wf_payload [OF C(3)]] frame_keep [OF T(2) wf_payload [OF W] order_refl]
    by simp
  have "rep s'' base ?bs' fl'"
    using assms(1) C(3,4) T(2) by (simp add: rep_def frame_def)
  moreover have "live ?bs' = insert (b + 32, if n < k + 48 then n - 32 else k - 32) (live bs)"
    by (auto simp: carve_live bs)
  moreover have "b + 32 \<notin> fst ` live bs" using live_fresh [OF L] by (auto simp: bs)
  moreover have "16 dvd b + 32" using layout_dvd [OF L] by (simp add: dvd_add)
  moreover have "coalesced bs \<longrightarrow> coalesced ?bs'"
    using carve_coalesced [of b1 b n b2 k] unfolding bs by blast
  ultimately have "allocated s base bs (k - 32) (b + 32) s''"
    unfolding allocated_def using pres assms(3) n(2)
    by (intro exI [of _ ?bs'] exI [of _ fl'] exI conjI) (auto intro: diff_le_mono)
  then show ?thesis using C(1,2) unfolding t_def by blast
qed

lemma sbrk_grow:
  assumes "0 < n" "n < 2 ^ 31"
  shows "sbrk (of_nat n) s = (if brk s + n \<le> brk_max s
     then (Some (brk s), s\<lparr>hmem := (\<lambda>x. if PGROUNDUP (brk s) \<le> x \<and> x < PGROUNDUP (brk s + n) then 0
                             else hmem s x), brk := brk s + n\<rparr>)
     else (None, s))"
  using assms by (simp add: sbrk_def sint_of_nat32)

text \<open>Only the bytes of the headers and nodes matter.\<close>

lemma fields_cong:
  assumes "\<And>x. a \<le> x \<Longrightarrow> x < a + 48 \<Longrightarrow> hmem t x = hmem s x"
  shows "blk_size t a = blk_size s a" "next_block t a = next_block s a" "prev_block t a = prev_block s a"
    "next_free t a = next_free s a" "prev_free t a = prev_free s a"
  using assms by (auto simp: field_defs intro!: ldn_cong arg_cong [of _ _ of_nat])

lemma shape_low:
  assumes "shape s bs fl" "\<forall>x\<in>fst ` set bs. x + 48 \<le> e" "set fl \<subseteq> fst ` set bs"
    and "\<forall>x. x < e \<longrightarrow> hmem t x = hmem s x" "head t = head s" "tail t = tail s" "free_head t = free_head s"
  shows "shape t bs fl"
proof -
  have "hmem t x = hmem s x" if "a \<in> fst ` set bs" "a \<le> x" "x < a + 48" for a x
    using that assms(2,4) by fastforce
  note F = fields_cong [OF this]
  have "seg t 0 bs 0 = seg s 0 bs 0" "fseg t 0 fl 0 = fseg s 0 fl 0"
    using assms(3) by (auto intro!: seg_cong fseg_cong F)
  then show ?thesis using assms by (simp add: shape_def)
qed

lemma malloc_fresh:
  assumes "rep s base bs fl" "16 dvd k" "48 \<le> k" "k \<le> P" "P < 2 ^ 31" "16 dvd P"
    and "brk s + P \<le> brk_max s"
  shows "\<exists>t u c s' s''. sbrk (of_nat P) s = (Some (brk s), t)
    \<and> block_list_add (brk s) (set_prev_block (brk s) 0 (set_next_block (brk s) 0
         (set_used (brk s) (set_size (brk s) (of_nat P) (t\<lparr>hmem := memset (hmem t) (brk s) 0 8\<rparr>))))) = Some u
    \<and> split (brk s) (of_nat k) u = (c, s')
    \<and> (if c \<noteq> 0 then free_list_add c s' else Some s') = Some s''
    \<and> allocated s base bs (k - 32) (brk s + 32) s''"
proof -
  let ?a = "brk s"
  have W: "heap_wf s base bs fl ?a" using assms(1) by (simp add: rep_def)
  have lim: "?a + P < 2 ^ 31" using assms(1,7) by (auto simp: rep_def)
  obtain t where t: "sbrk (of_nat P) s = (Some ?a, t)" "brk t = ?a + P" "brk_max t = brk_max s" "current_fsm t = current_fsm s"
    "\<forall>x. x < ?a \<longrightarrow> hmem t x = hmem s x" "head t = head s" "tail t = tail s" "free_head t = free_head s"
    using sbrk_grow [of P s] assms(3,4,5,7) PGROUNDUP_props(2) [of ?a] by auto
  have L: "layout base bs ?a" and sub: "set fl \<subseteq> fst ` set bs" using W wf_subset by (auto simp: heap_wf_def)
  have below: "\<forall>x\<in>fst ` set bs. x + 48 \<le> ?a"
    using L tiled_addr by (fastforce simp: layout_def)
  then have aw: "away (fst ` set bs) ?a" "away (set fl) ?a"
    using sub by (auto simp: away_def apart_def)
  have a0: "0 < ?a" "16 dvd ?a" 
    using L layout_end by (auto simp: layout_def dest: tiled_le)
  have S0: "shape t bs fl"
    using W t(5-8) below sub by (intro shape_low [of s bs fl ?a t]) (auto simp: heap_wf_def)
  define t1 where "t1 = t\<lparr>hmem := memset (hmem t) ?a 0 8\<rparr>"
  define t3 where "t3 = set_prev_block ?a 0 (set_next_block ?a 0 (set_used ?a (set_size ?a (of_nat P) t1)))"
  have eq: "set_used ?a (set_size ?a (of_nat P) t1) = set_blk_size ?a (enc P False) t1"
    using assms(5,6) by (intro set_size_used_eq) auto
  have t3: "shape t3 bs fl" "blk_size t3 ?a = enc P False"
    unfolding t3_def eq using S0 aw by (simp_all add: t1_def shape_def blk_simps away_clear)
  obtain u where u: "block_list_add ?a t3 = Some u" "shape u (bs @ [(?a, P, False)]) fl"
    "frame (meta (bs @ [(?a, P, False)]) fl) t3 u"
    using block_list_add_shape [OF t3(1) L sub t3(2) a0(1)] lim by auto
  have "frame (meta (bs @ [(?a, P, False)]) fl) t t3"
    unfolding t3_def eq by (simp add: t1_def frame_intros meta_hdr)
  then have fu: "frame (meta (bs @ [(?a, P, False)]) fl) t u"
    using u(3) by (rule frame_trans) auto
  have Wu: "heap_wf u base (bs @ (?a, P, False) # []) fl (?a + P)"
    using u(2) W lim assms(3,4,6) by (auto simp: heap_wf_def layout_def)
  let ?bs' = "bs @ carve_blocks ?a P k []"
  obtain c s' s'' fl' where C: "split ?a (of_nat k) u = (c, s')"
     "(if c \<noteq> 0 then free_list_add c s' else Some s') = Some s''"
     "heap_wf s'' base ?bs' fl' (?a + P)" "frame (meta ?bs' fl') u s''"
    using carve [OF Wu assms(2-4)] by blast
  have "payload bs \<subseteq> payload ?bs'" "payload bs \<subseteq> payload (bs @ [(?a, P, False)])" by auto
  moreover have "\<forall>x\<in>payload bs. x < ?a"
    using L tiled_bounds by (fastforce simp: layout_def payload_def)
  ultimately have pres: "\<forall>x\<in>payload bs. hmem s'' x = hmem s x"
    using frame_keep [where A = "payload bs", OF C(4) wf_payload [OF C(3)]]
      frame_keep [where A = "payload bs", OF fu wf_payload [OF Wu]] t(5)
    by simp
  have "rep s'' base ?bs' fl'"
    using assms(1,7) C(3,4) fu t by (simp add: rep_def frame_def)
  moreover have "live ?bs' = insert (?a + 32, if P < k + 48 then P - 32 else k - 32) (live bs)"
    by (auto simp: carve_live)
  moreover have "?a + 32 \<notin> fst ` live bs" using below by (fastforce simp: live_def)
  moreover have "coalesced bs \<longrightarrow> coalesced ?bs'"
    by (auto simp: carve_blocks_def)
  ultimately have "allocated s base bs (k - 32) (?a + 32) s''"
    unfolding allocated_def using pres assms(3,4) a0
    by (intro exI [of _ ?bs'] exI [of _ fl'] exI conjI) (auto intro: diff_le_mono)
  then show ?thesis using C(1,2) t(1) u(1) unfolding t3_def t1_def by blast
qed

definition block_need :: "nat \<Rightarrow> nat" where
  "block_need n = 32 + align 16 n"

lemma block_need: "16 dvd block_need n" "n + 32 \<le> block_need n" "block_need n < n + 48"
  "0 < n \<Longrightarrow> 48 \<le> block_need n"
proof -
  show "16 dvd block_need n" "n + 32 \<le> block_need n" "block_need n < n + 48"
    using align_props [of 16 n] by (auto simp: block_need_def dvd_add)
  assume "0 < n"
  then have "0 < align 16 n" "16 dvd align 16 n" using align_props [of 16 n] by auto
  then have "16 \<le> align 16 n" by (auto dest: dvd_imp_le)
  then show "48 \<le> block_need n" by (simp add: block_need_def)
qed

lemma malloc_result:
  assumes "rep s base bs fl" "0 < n" "n + 4144 \<le> 2 ^ 31"
  shows "\<exists>p s'. malloc (of_nat n) s = Some (p, s') \<and>
    (p = 0 \<and> s' = s \<and> brk_max s < brk s + align 4096 (block_need n)
       \<and> (current_fsm s \<in> {FIRST_FIT, BEST_FIT, WORST_FIT} \<longrightarrow> (\<forall>a\<in>set fl. bsize bs a < block_need n))
     \<or> allocated s base bs n p s')"
proof -
  let ?k = "block_need n" and ?P = "align 4096 (block_need n)"
  note K = block_need [of n]
  have n0: "(of_nat n :: 32 word) \<noteq> 0"
    using assms(2,3) word32_less_of_nat(1) [of 0 n] by auto
  have al: "(32 :: 32 word) + align_size (of_nat n) = of_nat ?k"
    using align_size_of_nat [of n] assms(3) by (simp add: block_need_def)
  have P: "align_to_page (of_nat ?k) = of_nat ?P" "?k \<le> ?P" "4096 dvd ?P" "?P < 2 ^ 31" "0 < ?P"
    using align_to_page_of_nat [of ?k] align_props [of 4096 ?k] K assms(2,3) by auto
  have P16: "16 dvd ?P" using P(3) by (rule dvd_trans [rotated]) simp
  have W: "heap_wf s base bs fl (brk s)" using assms(1) by (simp add: rep_def)
  have weaken: "allocated s base bs (?k - 32) p s' \<Longrightarrow> allocated s base bs n p s'" for p s'
    using K(2) unfolding allocated_def by (meson add_le_imp_le_diff order_trans)
  obtain b where b: "reuse_block (of_nat ?k) s = Some b"
    "b = 0 \<and> (current_fsm s \<in> {FIRST_FIT, BEST_FIT, WORST_FIT} \<longrightarrow> (\<forall>a\<in>set fl. bsize bs a < ?k))
     \<or> b \<in> set fl \<and> ?k \<le> bsize bs b"
    using reuse_block_spec [OF W, of ?k] K(3) assms(3) by fastforce
  show ?thesis
  proof (cases "b = 0")
    case False
    with b have "b \<in> set fl" "?k \<le> bsize bs b" by auto
    from malloc_reuse [OF assms(1) this K(1) K(4) [OF assms(2)]] show ?thesis
      using n0 al b(1) False weaken
      by (auto simp: malloc_def sizeof_mem_block_def simp del: align_size_def)
  next
    case True
    show ?thesis
    proof (cases "brk s + ?P \<le> brk_max s")
      case fits: True
      from malloc_fresh [OF assms(1) K(1) K(4) [OF assms(2)] P(2,4) P16 fits] show ?thesis
        using n0 al b(1) True weaken P(1)
        by (auto simp: malloc_def sizeof_mem_block_def Let_def)
    next
      case nofit: False
      have "sbrk (of_nat ?P) s = (None, s)" using sbrk_grow [OF P(5,4), of s] nofit by simp
      then have "malloc (of_nat n) s = Some (0, s)"
        using n0 al b(1) True P(1) by (simp add: malloc_def sizeof_mem_block_def Let_def)
      moreover have "b \<notin> set fl" using True wf_free_size(3) [OF W, of 0] by auto
      ultimately show ?thesis using b(2) nofit by auto
    qed
  qed
qed

lemma shape_brk: "shape (s\<lparr>brk := x\<rparr>) bs fl = shape s bs fl"
proof -
  have "seg (s\<lparr>brk := x\<rparr>) 0 bs 0 = seg s 0 bs 0" "fseg (s\<lparr>brk := x\<rparr>) 0 fl 0 = fseg s 0 fl 0"
    by (auto intro!: seg_cong fseg_cong fields_cong)
  then show ?thesis by (simp add: shape_def)
qed

definition trimmed :: "ablock list \<Rightarrow> bool" where
  "trimmed bs \<longleftrightarrow> bs = [] \<or> \<not> (snd (snd (last bs)) \<and> 4096 \<le> fst (snd (last bs)))"

lemma sbrk_shrink: "n < 2 ^ 31 \<Longrightarrow> n \<le> brk s \<Longrightarrow> sbrk (- of_nat n) s = (Some (brk s), s\<lparr>brk := brk s - n\<rparr>)"
  by (simp add: sbrk_def sint_minus_of_nat32)

lemma trim_step:
  assumes "rep s base (b1 @ [(a, n, True)]) fl" "4096 \<le> n"
  shows "\<exists>t fl'. release_loop s = release_loop t \<and> rep t base b1 fl'
    \<and> (\<forall>x\<in>payload b1. hmem t x = hmem s x) \<and> current_fsm t = current_fsm s \<and> brk_max t = brk_max s"
proof -
  let ?bs = "b1 @ [(a, n, True)]"
  have W: "heap_wf s base ?bs fl (brk s)" using assms(1) by (simp add: rep_def)
  then have S: "shape s ?bs fl" "layout base ?bs (brk s)" "distinct fl" "set fl = set (free_addrs ?bs)"
    by (auto simp: heap_wf_def)
  obtain f1 f2 where fl: "fl = f1 @ a # f2" using S(4) split_list [of a fl] by auto
  have sub: "set (f1 @ a # f2) \<subseteq> fst ` set ?bs" using wf_subset [OF W] fl by simp
  note B = wf_block [OF W, of a n True, simplified]
  define t1 where "t1 = free_list_remove a s"
  define t2 where "t2 = block_list_remove a t1"
  have t1: "shape t1 ?bs (f1 @ f2)" "frame (meta ?bs fl) s t1"
    using free_list_remove_shape [OF S(1)[unfolded fl] S(2) sub] S(3)
      free_list_remove_frame [OF S(1)[unfolded fl] S(2) sub] fl by (auto simp: t1_def)
  have fa: "set (f1 @ f2) = set (free_addrs b1)"
    using S(4) [unfolded fl] fresh_addr(1) [OF S(2)]
    by (intro remove_free [OF S(3) [unfolded fl]]) (simp_all add: free_addrs_fresh)
  then have "set (f1 @ f2) \<subseteq> fst ` set b1" using free_addrs_subset by simp
  then have t2: "shape t2 b1 (f1 @ f2)" "frame (meta ?bs (f1 @ f2)) t1 t2"
    using block_list_remove_tail [OF t1(1) S(2)] block_list_remove_frame [OF t1(1) S(2)] by (auto simp: t2_def)
  have fr: "frame (meta ?bs fl) s t2"
    using t1(2) t2(2) order_refl meta_mono by (rule frame_trans) (auto simp: fl)
  have brk: "brk s = a + n" "tail s = a" using S(1,2) by (auto simp: layout_def shape_def)
  have sb: "snd (sbrk (- of_nat n) t2) = t2\<lparr>brk := a\<rparr>"
    using sbrk_shrink [of n t2] B fr brk by (simp add: frame_def)
  have "(4096 :: 32 word) \<le> of_nat n" using word32_less_of_nat(2) [of 4096 n] assms(2) B by simp
  then have "release_loop s = release_loop (t2\<lparr>brk := a\<rparr>)"
    using brk B sb by (subst release_loop.simps) (simp add: t2_def t1_def Let_def)
  moreover have "layout base b1 a" using S(2) brk by (auto simp: layout_def)
  then have "rep (t2\<lparr>brk := a\<rparr>) base b1 (f1 @ f2)"
    using t2(1) fa S(3) assms(1) fr brk by (auto simp: rep_def heap_wf_def shape_brk fl frame_def)
  moreover have "\<forall>x\<in>payload b1. hmem (t2\<lparr>brk := a\<rparr>) x = hmem s x"
    using frame_keep [OF fr wf_payload [OF W], of "payload b1"] by simp
  ultimately show ?thesis using fr by (auto simp: frame_def)
qed

lemma release_result:
  assumes "rep s base bs fl"
  shows "\<exists>t bs' rest fl'. release_loop s = Some t \<and> rep t base bs' fl' \<and> trimmed bs' \<and> bs = bs' @ rest
    \<and> live bs' = live bs \<and> payload bs' = payload bs \<and> (\<forall>x\<in>payload bs. hmem t x = hmem s x)"
  using assms
proof (induction bs arbitrary: s fl rule: rev_induct)
  case Nil
  then have "release_loop s = Some s"
    by (subst release_loop.simps) (simp add: rep_def heap_wf_def shape_def)
  then show ?case using Nil by (auto simp: trimmed_def)
next
  case (snoc b b1)
  obtain a n f where b: "b = (a, n, f)" by (cases b) auto
  show ?case
  proof (cases "f \<and> 4096 \<le> n")
    case True
    then obtain t fl' where t: "release_loop s = release_loop t" "rep t base b1 fl'"
      "\<forall>x\<in>payload b1. hmem t x = hmem s x"
      using trim_step [of s base b1 a n fl] snoc.prems by (auto simp: b)
    from snoc.IH [OF t(2)] obtain u bs' rest fl'' where R:
      "release_loop t = Some u" "rep u base bs' fl''" "trimmed bs'" "b1 = bs' @ rest"
      "live bs' = live b1" "payload bs' = payload b1" "\<forall>x\<in>payload b1. hmem u x = hmem t x" by blast
    have "live bs' = live (b1 @ [b])" "payload bs' = payload (b1 @ [b])"
      "\<forall>x\<in>payload (b1 @ [b]). hmem u x = hmem s x"
      using R(5-7) t(3) True by (simp_all add: b)
    moreover have "b1 @ [b] = bs' @ (rest @ [b])" using R(4) by simp
    ultimately show ?thesis using R(1-3) t(1) by metis
  next
    case False
    have W: "heap_wf s base (b1 @ [(a, n, f)]) fl (brk s)" using snoc.prems by (simp add: rep_def b)
    note B = wf_block [OF W, of a n f, simplified]
    have tl: "tail s = a" using W by (simp add: heap_wf_def shape_def)
    have "((4096 :: 32 word) \<le> of_nat n) = (4096 \<le> n)" using word32_less_of_nat(2) [of 4096 n] B by simp
    then have "release_loop s = Some s"
      using False B tl by (subst release_loop.simps) auto
    then show ?thesis using snoc.prems False by (auto simp: trimmed_def b)
  qed
qed

lemma merge_r_free:
  "live (merge_r (a, n, True) bs) = live bs" "payload (merge_r (a, n, True) bs) = payload bs"
  "\<exists>m bs'. merge_r (a, n, True) bs = (a, m, True) # bs'"
  by (cases "((a, n, True), bs)" rule: merge_r.cases; force)+

lemma coalesced_cons: "coalesced (b # bs) \<longleftrightarrow> coalesced bs \<and> (bs = [] \<or> \<not> (snd (snd b) \<and> snd (snd (hd bs))))"
  by (cases bs) auto

lemma merge_r_coalesced: "coalesced bs \<Longrightarrow> coalesced (merge_r (a, n, True) bs)"
  by (cases "((a, n, True), bs)" rule: merge_r.cases) (auto simp: coalesced_cons)

lemma wf_merge_prev:
  assumes "heap_wf s base (b1 @ (a, n, True) # b2) fl e"
  shows "\<exists>fl' bs'. heap_wf (merge_with_prev a s) base bs' fl' e
    \<and> frame (meta (b1 @ (a, n, True) # b2) fl) s (merge_with_prev a s)
    \<and> live bs' = live (b1 @ b2) \<and> payload bs' = payload (b1 @ b2)
    \<and> (coalesced b1 \<and> coalesced ((a, n, True) # b2) \<longrightarrow> coalesced bs')"
proof (cases "\<exists>b0 p m. b1 = b0 @ [(p, m, True)]")
  case True
  then obtain b0 p m where b1: "b1 = b0 @ [(p, m, True)]" by blast
  have W: "heap_wf s base (b0 @ (p, m, True) # (a, n, True) # b2) fl e" using assms by (simp add: b1)
  then have "merge_with_prev a s = merge_with_next p s"
    using merge_with_prev_next by (auto simp: heap_wf_def)
  moreover obtain fl' where "heap_wf (merge_with_next p s) base (b0 @ (p, m + n, True) # b2) fl' e"
    "frame (meta (b1 @ (a, n, True) # b2) fl) s (merge_with_next p s)"
    using wf_merge_next [OF W] by (auto simp: b1)
  moreover have "coalesced (b0 @ (p, m + n, True) # b2)" if "coalesced b1" "coalesced ((a, n, True) # b2)"
    using that by (auto simp: b1 coalesced_cons)
  moreover have "live (b0 @ (p, m + n, True) # b2) = live (b1 @ b2)"
    "payload (b0 @ (p, m + n, True) # b2) = payload (b1 @ b2)" by (simp_all add: b1)
  ultimately show ?thesis by metis
next
  case False
  then have b1: "b1 = [] \<or> (\<exists>c m b3. b1 = b3 @ [(c, m, False)])"
    by (cases b1 rule: rev_cases) auto
  then have "merge_with_prev a s = s"
    using assms by (intro merge_with_prev_none) (auto simp: heap_wf_def)
  moreover have "coalesced (b1 @ (a, n, True) # b2)"
    if "coalesced b1" "coalesced ((a, n, True) # b2)"
    using that b1 by auto
  moreover have "live (b1 @ (a, n, True) # b2) = live (b1 @ b2)"
    "payload (b1 @ (a, n, True) # b2) = payload (b1 @ b2)" by simp_all
  ultimately show ?thesis using assms frame_refl by metis
qed

lemma payload_others:
  assumes "layout base (b1 @ (a, n, f) # b2) e"
  shows "x \<in> payload (b1 @ b2) \<Longrightarrow> x < a \<or> a + n \<le> x"
proof -
  assume "x \<in> payload (b1 @ b2)"
  then obtain b m where b: "(b, m, False) \<in> set (b1 @ b2)" "b + 32 \<le> x" "x < b + m"
    unfolding payload_def by blast
  moreover have "b \<noteq> a" using b(1) fresh_addr [OF assms] by force
  ultimately show ?thesis
    using extents_disjoint [OF assms, of a n f b m False] by auto
qed

lemma free_result:
  assumes "rep s base bs fl" "(p, c) \<in> live bs"
  shows "\<exists>s' bs' fl'. free p s = Some s' \<and> rep s' base bs' fl' \<and> live bs' = live bs - {(p, c)}
    \<and> (coalesced bs \<longrightarrow> coalesced bs') \<and> trimmed bs' \<and> payload bs' \<subseteq> payload bs - {p..<p + c}
    \<and> (\<forall>x\<in>payload bs'. hmem s' x = hmem s x)"
proof -
  obtain a n where a: "p = a + 32" "c = n - 32" "(a, n, False) \<in> set bs"
    using assms(2) by (auto simp: live_def)
  then obtain b1 b2 where bs: "bs = b1 @ (a, n, False) # b2" by (meson split_list)
  have W: "heap_wf s base (b1 @ (a, n, False) # b2) fl (brk s)" using assms(1) by (simp add: rep_def bs)
  have L: "layout base (b1 @ (a, n, False) # b2) (brk s)" using W by (simp add: heap_wf_def)
  obtain s1 where s1: "free_list_add a (set_free a s) = Some s1"
      "heap_wf s1 base (b1 @ (a, n, True) # b2) (fl @ [a]) (brk s)"
      "frame (meta (b1 @ (a, n, True) # b2) (fl @ [a])) s s1"
    using wf_release [OF W] by blast
  define s2 where "s2 = merge_with_next a s1"
  obtain f2 where s2: "heap_wf s2 base (b1 @ merge_r (a, n, True) b2) f2 (brk s)"
      "frame (meta (b1 @ (a, n, True) # b2) (fl @ [a])) s1 s2"
    using wf_merge_next [OF s1(2)] by (auto simp: s2_def)
  obtain m b3 where m: "merge_r (a, n, True) b2 = (a, m, True) # b3" using merge_r_free(3) by blast
  define s3 where "s3 = merge_with_prev a s2"
  have W2: "heap_wf s2 base (b1 @ (a, m, True) # b3) f2 (brk s)" using s2(1) m by simp
  have b3: "live b3 = live b2" "payload b3 = payload b2" "coalesced b2 \<Longrightarrow> coalesced ((a, m, True) # b3)"
    using merge_r_free(1,2) [of a n b2] merge_r_coalesced [of b2 a n] m by auto
  obtain f3 bs3 where s3: "heap_wf s3 base bs3 f3 (brk s)"
      "frame (meta (b1 @ (a, m, True) # b3) f2) s2 s3" "live bs3 = live (b1 @ b2)"
      "payload bs3 = payload (b1 @ b2)" "coalesced bs \<longrightarrow> coalesced bs3"
    using wf_merge_prev [OF W2] b3 coalesced_cons [of "(a, n, False)" b2] by (auto simp: s3_def bs)
  have "rep s3 base bs3 f3"
    using assms(1) s3(1,2) s2(2) s1(3) by (simp add: rep_def frame_def)
  from release_result [OF this] obtain t bs' rest fl' where t: "release_loop s3 = Some t"
      "rep t base bs' fl'" "trimmed bs'" "bs3 = bs' @ rest" "live bs' = live bs3"
      "payload bs' = payload bs3" "\<forall>x\<in>payload bs3. hmem t x = hmem s3 x" by blast
  have "free p s = Some t"
    using s1(1) t(1) by (simp add: free_def a sizeof_mem_block_def s2_def s3_def Let_def)
  moreover have "(p, c) \<notin> live b1" "(p, c) \<notin> live b2"
    using live_fresh [OF L] by (force simp: a)+
  then have "live bs' = live bs - {(p, c)}" using t(5) s3(3) by (auto simp: bs a)
  moreover have "coalesced bs \<longrightarrow> coalesced bs'" using s3(5) t(4) by auto
  moreover have P: "payload bs' = payload b1 \<union> payload b2" using t(6) s3(4) by simp
  have "payload bs' \<subseteq> payload bs - {p..<p + c}"
    using payload_others [OF L] layout_mid(2) [OF L] unfolding P by (force simp: bs a)
  moreover have "\<forall>x\<in>payload bs'. hmem t x = hmem s x"
    using t(7) s3(4) P frame_keep [where A = "payload bs'", OF s1(3) wf_payload [OF s1(2)]]
      frame_keep [where A = "payload bs'", OF s2(2) wf_payload [OF s1(2)]]
      frame_keep [where A = "payload bs'", OF s3(2) wf_payload [OF W2]] b3(2) by simp
  ultimately show ?thesis using t(2,3) by blast
qed

lemma header_cong:
  "(\<And>x. x \<in> hdr a \<Longrightarrow> hmem t x = hmem s x) \<Longrightarrow>
   blk_size t a = blk_size s a \<and> next_block t a = next_block s a \<and> prev_block t a = prev_block s a"
  by (auto simp: field_defs hdr_def intro!: ldn_cong arg_cong [of _ _ of_nat])

lemma node_cong:
  "(\<And>x. x \<in> node a \<Longrightarrow> hmem t x = hmem s x) \<Longrightarrow>
   next_free t a = next_free s a \<and> prev_free t a = prev_free s a"
  by (auto simp: field_defs node_def intro!: ldn_cong)

lemma shape_meta:
  assumes "\<And>x. x \<in> meta bs fl \<Longrightarrow> m x = hmem s x"
  shows "shape (s\<lparr>hmem := m\<rparr>) bs fl = shape s bs fl"
proof -
  have "seg (s\<lparr>hmem := m\<rparr>) 0 bs 0 = seg s 0 bs 0"
  proof (rule seg_cong)
    fix a assume "a \<in> fst ` set bs"
    then show "prev_block (s\<lparr>hmem := m\<rparr>) a = prev_block s a \<and> blk_size (s\<lparr>hmem := m\<rparr>) a = blk_size s a
       \<and> next_block (s\<lparr>hmem := m\<rparr>) a = next_block s a"
      using header_cong [of a "s\<lparr>hmem := m\<rparr>" s] assms meta_hdr [of a bs fl] by auto
  qed
  moreover have "fseg (s\<lparr>hmem := m\<rparr>) 0 fl 0 = fseg s 0 fl 0"
  proof (rule fseg_cong)
    fix a assume "a \<in> set fl"
    then show "prev_free (s\<lparr>hmem := m\<rparr>) a = prev_free s a \<and> next_free (s\<lparr>hmem := m\<rparr>) a = next_free s a"
      using node_cong [of a "s\<lparr>hmem := m\<rparr>" s] assms meta_node [of a fl bs] by auto
  qed
  ultimately show ?thesis by (simp add: shape_def)
qed

text \<open>A client that writes only into its blocks cannot break the allocator.\<close>

lemma rep_write:
  assumes "rep s base bs fl" "\<And>x. x \<notin> payload bs \<Longrightarrow> m x = hmem s x"
  shows "rep (s\<lparr>hmem := m\<rparr>) base bs fl"
proof -
  have W: "heap_wf s base bs fl (brk s)" using assms(1) by (simp add: rep_def)
  have "shape (s\<lparr>hmem := m\<rparr>) bs fl = shape s bs fl"
    using wf_payload [OF W] assms(2) by (intro shape_meta) blast
  then show ?thesis using assms(1) by (simp add: rep_def heap_wf_def)
qed

lemma payload_live:
  assumes "layout base bs e"
  shows "payload bs = (\<Union>(p, c)\<in>live bs. {p..<p + c})"
proof -
  have "48 \<le> n" if "(a, n, f) \<in> set bs" for a n f
    using assms that tiled_bounds by (fastforce simp: layout_def)
  then show ?thesis
    by (fastforce simp: payload_def live_def)
qed

lemma live_disjoint:
  assumes "layout base bs e" "(p, c) \<in> live bs" "(q, d) \<in> live bs" "p \<noteq> q"
  shows "p + c + 32 \<le> q \<or> q + d + 32 \<le> p"
proof -
  obtain a n b m where *: "p = a + 32" "c = n - 32" "(a, n, False) \<in> set bs"
    "q = b + 32" "d = m - 32" "(b, m, False) \<in> set bs"
    using assms(2,3) by (auto simp: live_def)
  have "48 \<le> n" "48 \<le> m" using * assms(1) tiled_bounds by (fastforce simp: layout_def)+
  moreover have "a + n \<le> b \<or> b + m \<le> a"
    using extents_disjoint [OF assms(1) *(3,6)] * assms(4) by auto
  ultimately show ?thesis using * by auto
qed

text \<open>What a successful \<open>realloc\<close> of the block \<open>(p, c)\<close> to \<open>n\<close> bytes at \<open>q\<close> has done.\<close>

definition reallocated :: "heap \<Rightarrow> nat \<Rightarrow> ablock list \<Rightarrow> nat \<Rightarrow> nat \<Rightarrow> nat \<Rightarrow> nat \<Rightarrow> heap \<Rightarrow> bool" where
  "reallocated s base bs p c n q s' \<longleftrightarrow> (\<exists>bs' fl' k. rep s' base bs' fl'
     \<and> live bs' = insert (q, k) (live bs - {(p, c)}) \<and> q \<notin> fst ` (live bs - {(p, c)})
     \<and> n \<le> k \<and> 0 < q \<and> 16 dvd q \<and> (coalesced bs \<longrightarrow> coalesced bs')
     \<and> (\<forall>i<min n c. hmem s' (q + i) = hmem s (p + i))
     \<and> (\<forall>x\<in>payload bs - {p..<p + c}. hmem s' x = hmem s x))"

lemma frame_heap:
  "heap_wf u base bs fl e \<Longrightarrow> frame (meta bs fl) s t \<Longrightarrow> x \<in> payload bs \<Longrightarrow> hmem t x = hmem s x"
  using frame_keep [OF _ wf_payload order_refl] .

lemma carve_coalesced':
  "coalesced (b1 @ (a, n, False) # b2) \<Longrightarrow> b2 = [] \<or> \<not> snd (snd (hd b2)) \<Longrightarrow>
   coalesced (b1 @ carve_blocks a n k b2)"
  by (cases b2) (auto simp: carve_blocks_def)

text \<open>The common end of the in-place cases: from a heap whose block \<open>a\<close> has grown or kept its size.\<close>

lemma reallocated_in_place:
  assumes "rep s base (b1 @ (a, n, False) # b2) fl" "rep s' base (b1 @ (a, m, False) # b3) fl'"
    and "live b3 = live b2" "payload b3 = payload b2" "k + 32 \<le> m"
    and "coalesced (b1 @ (a, n, False) # b2) \<longrightarrow> coalesced (b1 @ (a, m, False) # b3)"
    and "\<forall>x\<in>payload (b1 @ b2) \<union> {a + 32..<min (a + 32 + k) (a + n)}. hmem s' x = hmem s x"
  shows "reallocated s base (b1 @ (a, n, False) # b2) (a + 32) (n - 32) k (a + 32) s'"
proof -
  have L: "layout base (b1 @ (a, n, False) # b2) (brk s)" using assms(1) by (simp add: rep_def heap_wf_def)
  have fresh: "(a + 32, n - 32) \<notin> live b1" "(a + 32, n - 32) \<notin> live b2"
    using live_fresh [OF L] by force+
  have 1: "live (b1 @ (a, m, False) # b3) =
      insert (a + 32, m - 32) (live (b1 @ (a, n, False) # b2) - {(a + 32, n - 32)})"
    using fresh assms(3) by auto
  have 2: "a + 32 \<notin> fst ` (live (b1 @ (a, n, False) # b2) - {(a + 32, n - 32)})"
    using live_fresh [OF L] by auto
  have 3: "16 dvd a + 32" using layout_dvd [OF L] by (simp add: dvd_add)
  have n: "48 \<le> n" using layout_mid(2) [OF L] .
  have 4: "\<forall>i<min k (n - 32). hmem s' (a + 32 + i) = hmem s (a + 32 + i)"
    using assms(7) n by auto
  have 5: "\<forall>x\<in>payload (b1 @ (a, n, False) # b2) - {a + 32..<a + 32 + (n - 32)}. hmem s' x = hmem s x"
    using assms(7) n by auto
  show ?thesis
    unfolding reallocated_def
    by (intro exI [of _ "b1 @ (a, m, False) # b3"] exI [of _ fl'] exI [of _ "m - 32"])
      (use 1 2 3 4 5 assms(2,5,6) in auto)
qed

lemma realloc_shrink:
  assumes "rep s base (b1 @ (a, m, False) # b2) fl" "0 < n" "block_need n \<le> m" "n + 4144 \<le> 2 ^ 31"
  shows "\<exists>c s1 s'. split a (of_nat (block_need n)) s = (c, s1)
    \<and> (if c \<noteq> 0 then map_option (merge_with_next c) (free_list_add c s1) else Some s1) = Some s'
    \<and> reallocated s base (b1 @ (a, m, False) # b2) (a + 32) (m - 32) n (a + 32) s'"
proof -
  let ?k = "block_need n" and ?bs = "b1 @ (a, m, False) # b2"
  note K = block_need [of n]
  have W: "heap_wf s base ?bs fl (brk s)" using assms(1) by (simp add: rep_def)
  obtain c s1 s2 f2 where C: "split a (of_nat ?k) s = (c, s1)"
     "(if c \<noteq> 0 then free_list_add c s1 else Some s1) = Some s2"
     "heap_wf s2 base (b1 @ carve_blocks a m ?k b2) f2 (brk s)"
     "frame (meta (b1 @ carve_blocks a m ?k b2) f2) s s2"
    using carve [OF W K(1) K(4) [OF assms(2)] assms(3)] by blast
  show ?thesis
  proof (cases "m < ?k + 48")
    case True
    have "split a (of_nat ?k) s = (0, s)"
      using wf_block [OF W, of a m False, simplified] True assms(3) by (intro split_small) auto
    moreover have "reallocated s base ?bs (a + 32) (m - 32) n (a + 32) s"
      using K(2) assms(1,3) by (intro reallocated_in_place [OF assms(1) assms(1)]) auto
    ultimately show ?thesis by auto
  next
    case False
    let ?b3 = "merge_r (a + ?k, m - ?k, True) b2"
    have W2: "heap_wf s2 base ((b1 @ [(a, ?k, False)]) @ (a + ?k, m - ?k, True) # b2) f2 (brk s)"
      using C(3) False by (simp add: carve_blocks_def)
    obtain f3 where M: "heap_wf (merge_with_next (a + ?k) s2) base (b1 @ (a, ?k, False) # ?b3) f3 (brk s)"
      "frame (meta (b1 @ carve_blocks a m ?k b2) f2) s2 (merge_with_next (a + ?k) s2)"
      using wf_merge_next [OF W2] False by (auto simp: carve_blocks_def)
    have c: "c = a + ?k"
    proof -
      have S: "shape s ?bs fl" "layout base ?bs (brk s)" "a \<notin> set fl" "set fl \<subseteq> fst ` set ?bs"
        using W wf_subset [OF W] free_addrs_iff [of base ?bs "brk s" a m False] by (auto simp: heap_wf_def)
      show ?thesis using split_shape [OF S(1,2,4,3) K(1) K(4) [OF assms(2)]] False C(1) by auto
    qed
    have "0 < a" using wf_block(7) [OF W, of a m False] by simp
    have step: "(if c \<noteq> 0 then map_option (merge_with_next c) (free_list_add c s1) else Some s1)
        = Some (merge_with_next (a + ?k) s2)"
      using C(2) c \<open>0 < a\<close> by simp
    have fr: "\<forall>x\<in>payload (b1 @ b2) \<union> {a + 32..<a + ?k}. hmem (merge_with_next (a + ?k) s2) x = hmem s x"
      using frame_heap [OF C(3,4)] frame_heap [OF C(3) M(2)] False
      by (auto simp: carve_blocks_def)
    have R: "rep (merge_with_next (a + ?k) s2) base (b1 @ (a, ?k, False) # ?b3) f3"
      using assms(1) M C(4) by (simp add: rep_def frame_def)
    have "reallocated s base ?bs (a + 32) (m - 32) n (a + 32) (merge_with_next (a + ?k) s2)"
      using fr K(2) assms(3) merge_r_free merge_r_coalesced
      by (intro reallocated_in_place [OF assms(1) R]) (auto simp: coalesced_cons)
    then show ?thesis using C(1) step by blast
  qed
qed

lemma realloc_expand:
  assumes "rep s base (b1 @ (a, m, False) # (d, l, True) # b2) fl" "0 < n" "block_need n \<le> m + l"
    and "m < block_need n" "n + 4144 \<le> 2 ^ 31"
  shows "\<exists>c s1 s'. split a (of_nat (block_need n)) (merge_with_next a (free_list_remove d s)) = (c, s1)
    \<and> (if c \<noteq> 0 then free_list_add c s1 else Some s1) = Some s'
    \<and> reallocated s base (b1 @ (a, m, False) # (d, l, True) # b2) (a + 32) (m - 32) n (a + 32) s'"
proof -
  let ?k = "block_need n" and ?bs = "b1 @ (a, m, False) # (d, l, True) # b2"
  note K = block_need [of n]
  have W: "heap_wf s base ?bs fl (brk s)" using assms(1) by (simp add: rep_def)
  then have S: "shape s ?bs fl" "layout base ?bs (brk s)" "distinct fl" "set fl = set (free_addrs ?bs)"
    by (auto simp: heap_wf_def)
  obtain f1 f2 where fl: "fl = f1 @ d # f2" using S(4) split_list [of d fl] by auto
  have sub: "set (f1 @ d # f2) \<subseteq> fst ` set ?bs" using wf_subset [OF W] by (simp add: fl)
  have twice: "free_list_remove d (free_list_remove d s) = free_list_remove d s"
    using free_list_remove_twice [OF S(1) [unfolded fl] S(2) sub] S(3) by (simp add: fl)
  have S': "shape (free_list_remove d s) ?bs (f1 @ f2)"
    using free_list_remove_shape [OF S(1) [unfolded fl] S(2) sub] S(3) by (simp add: fl)
  then have "next_block (free_list_remove d s) a = next_block s a"
    "is_free (free_list_remove d s) d = is_free s d" "next_block s a = d"
    using S(1) by (auto simp: shape_def is_free_def)
  then have eq: "merge_with_next a (free_list_remove d s) = merge_with_next a s"
    using twice layout_mid(5) [of base "b1 @ [(a, m, False)]" d l True b2 "brk s"] S(2)
      is_free_eq [of s d l True] wf_block(3) [OF W, of d l True]
    by (simp add: merge_with_next_def)
  define t where "t = merge_with_next a s"
  obtain f3 where M: "heap_wf t base (b1 @ (a, m + l, False) # b2) f3 (brk s)" "frame (meta ?bs fl) s t"
    using wf_merge_next [OF W] by (auto simp: t_def)
  let ?bs' = "b1 @ carve_blocks a (m + l) ?k b2"
  obtain c s1 s' fl' where C: "split a (of_nat ?k) t = (c, s1)"
     "(if c \<noteq> 0 then free_list_add c s1 else Some s1) = Some s'"
     "heap_wf s' base ?bs' fl' (brk s)" "frame (meta ?bs' fl') t s'"
    using carve [OF M(1) K(1) K(4) [OF assms(2)] assms(3)] by blast
  obtain k' b3 where B: "carve_blocks a (m + l) ?k b2 = (a, k', False) # b3" "?k \<le> k'"
      "live b3 = live b2" "payload b3 = payload b2"
    using assms(3) by (cases "m + l < ?k + 48") (auto simp: carve_blocks_def)
  have fr: "\<forall>x\<in>payload (b1 @ (d, l, True) # b2) \<union> {a + 32..<min (a + 32 + n) (a + m)}. hmem s' x = hmem s x"
    using frame_heap [OF C(3,4)] frame_heap [OF W M(2)] B K(2) assms(4) by auto
  have "rep s' base (b1 @ (a, k', False) # b3) fl'"
    using assms(1) M(2) C(3,4) B(1) by (simp add: rep_def frame_def)
  moreover have "coalesced ?bs \<longrightarrow> coalesced (b1 @ (a, k', False) # b3)"
    using carve_coalesced' [of b1 a m b2 ?k] unfolding B(1) [symmetric]
    by (auto simp: coalesced_cons carve_blocks_def)
  ultimately have "reallocated s base ?bs (a + 32) (m - 32) n (a + 32) s'"
    using fr B K(2) by (intro reallocated_in_place [OF assms(1)]) auto
  then show ?thesis using C(1,2) eq unfolding t_def by metis
qed

lemma live_block:
  assumes "rep s base bs fl" "(p, c) \<in> live bs"
  shows "get_size s (p - 32) = of_nat (c + 32)" "32 < p" "p + c \<le> brk s" "16 \<le> c" "c < 2 ^ 31 - 32" "brk s < 2 ^ 31"
proof -
  obtain a n where a: "p = a + 32" "c = n - 32" "(a, n, False) \<in> set bs"
    using assms(2) by (auto simp: live_def)
  have W: "heap_wf s base bs fl (brk s)" using assms(1) by (simp add: rep_def)
  note B = wf_block [OF W a(3)]
  show "get_size s (p - 32) = of_nat (c + 32)" "32 < p" "p + c \<le> brk s" "16 \<le> c" "c < 2 ^ 31 - 32" "brk s < 2 ^ 31"
    using B a by auto
qed

text \<open>Moving a block: allocate, copy, release.\<close>

lemma realloc_move:
  assumes "rep s base bs fl" "(p, c) \<in> live bs" "allocated s base bs n q s1" "l = min n c" "l < 2 ^ 31"
  shows "\<exists>s'. free p (s1\<lparr>hmem := memcpy (hmem s1) q p (of_nat l)\<rparr>) = Some s'
    \<and> reallocated s base bs p c n q s'"
proof -
  obtain bs1 fl1 k where A: "rep s1 base bs1 fl1" "live bs1 = insert (q, k) (live bs)" "q \<notin> fst ` live bs"
     "n \<le> k" "0 < q" "16 dvd q" "coalesced bs \<longrightarrow> coalesced bs1" "\<forall>x\<in>payload bs. hmem s1 x = hmem s x"
    using assms(3) unfolding allocated_def by blast
  define s2 where "s2 = s1\<lparr>hmem := memcpy (hmem s1) q p (of_nat l)\<rparr>"
  have cpy: "memcpy m q p (of_nat l) x = (if q \<le> x \<and> x < q + l then m (p + (x - q)) else m x)" for m x
    using memcpy_apply [of "of_nat l"] assms(5) by (simp add: unat_of_nat32)
  have L: "layout base bs (brk s)" "layout base bs1 (brk s1)"
    using assms(1) A(1) by (auto simp: rep_def heap_wf_def)
  note P = payload_live [OF L(1)] payload_live [OF L(2)]
  have q: "{q..<q + k} \<subseteq> payload bs1" using A(2) P(2) by auto
  have pq: "p \<noteq> q" using A(3) assms(2) by force
  have s2: "hmem s2 x = (if q \<le> x \<and> x < q + l then hmem s1 (p + (x - q)) else hmem s1 x)" for x
    by (simp add: s2_def cpy)
  have R2: "rep s2 base bs1 fl1"
    unfolding s2_def using q A(4) assms(4)
    by (intro rep_write [OF A(1)], subst cpy) (auto simp: subset_iff)
  have live1: "(p, c) \<in> live bs1" using A(2) assms(2) by simp
  obtain s' bs' fl' where F: "free p s2 = Some s'" "rep s' base bs' fl'"
     "live bs' = live bs1 - {(p, c)}" "coalesced bs1 \<longrightarrow> coalesced bs'"
     "\<forall>x\<in>payload bs'. hmem s' x = hmem s2 x"
    using free_result [OF R2 live1] by blast
  have lv: "live bs' = insert (q, k) (live bs - {(p, c)})" using F(3) A(2) pq by auto
  have "layout base bs' (brk s')" using F(2) by (simp add: rep_def heap_wf_def)
  note P' = payload_live [OF this]
  have "\<forall>i<min n c. hmem s' (q + i) = hmem s (p + i)"
  proof (intro allI impI)
    fix i assume i: "i < min n c"
    have "q + i \<in> payload bs'" unfolding P' lv using i A(4) by simp
    moreover have "p + i \<in> payload bs"
      unfolding P using i by (intro UN_I [OF assms(2)]) simp
    ultimately show "hmem s' (q + i) = hmem s (p + i)" using F(5) s2 A(8) i assms(4) by simp
  qed
  moreover have "\<forall>x\<in>payload bs - {p..<p + c}. hmem s' x = hmem s x"
  proof
    fix x assume x: "x \<in> payload bs - {p..<p + c}"
    then obtain r d where r: "(r, d) \<in> live bs" "r \<le> x" "x < r + d" unfolding P by auto
    have "(r, d) \<noteq> (p, c)" using r x by auto
    then have "(r, d) \<in> live bs'" using r(1) lv by blast
    then have "x \<in> payload bs'" unfolding P' using r(2,3) by (intro UN_I) auto
    moreover have "r \<noteq> q" using A(3) r by force
    then have "r + d + 32 \<le> q \<or> q + k + 32 \<le> r"
      using live_disjoint [OF L(2), of r d q k] A(2) r(1) by auto
    then have "\<not> (q \<le> x \<and> x < q + l)" using r A(4) assms(4) by auto
    ultimately show "hmem s' x = hmem s x" using F(5) s2 A(8) x by auto
  qed
  moreover have "q \<notin> fst ` (live bs - {(p, c)})" using A(3) by auto
  moreover have "coalesced bs \<longrightarrow> coalesced bs'" using A(7) F(4) by blast
  ultimately have "reallocated s base bs p c n q s'"
    unfolding reallocated_def using F(2) lv A(4-6) by blast
  then show ?thesis using F(1) unfolding s2_def by blast
qed

lemma realloc_result:
  assumes "rep s base bs fl" "(p, c) \<in> live bs" "0 < n" "n + 4144 \<le> 2 ^ 31"
  shows "\<exists>q s'. realloc p (of_nat n) s = Some (q, s') \<and> (q = 0 \<and> s' = s \<or> reallocated s base bs p c n q s')"
proof -
  obtain a m where a: "p = a + 32" "c = m - 32" "(a, m, False) \<in> set bs"
    using assms(2) by (auto simp: live_def)
  then obtain b1 b2 where bs: "bs = b1 @ (a, m, False) # b2" by (meson split_list)
  let ?k = "block_need n"
  note K = block_need [of n]
  have W: "heap_wf s base bs fl (brk s)" using assms(1) by (simp add: rep_def)
  note B = wf_block [OF W a(3)]
  have n0: "(of_nat n :: 32 word) \<noteq> 0" using assms(3,4) word32_less_of_nat(1) [of 0 n] by auto
  have al: "(32 :: 32 word) + align_size (of_nat n) = of_nat ?k"
    using align_size_of_nat [of n] assms(4) by (simp add: block_need_def)
  have cmp: "((of_nat ?k :: 32 word) \<le> of_nat m) = (?k \<le> m)"
    using word32_less_of_nat(2) [of ?k m] B K assms(4) by simp
  have nxt: "next_block s a = first_addr 0 b2" using W by (simp add: heap_wf_def shape_def bs)
  consider (shrink) "?k \<le> m" | (expand) d l b3 where "m < ?k" "b2 = (d, l, True) # b3" "?k \<le> m + l"
    | (move) "m < ?k" "\<not> (\<exists>d l b3. b2 = (d, l, True) # b3 \<and> ?k \<le> m + l)" by fastforce
  then show ?thesis
  proof cases
    case shrink
    from realloc_shrink [OF assms(1)[unfolded bs] assms(3) shrink assms(4)]
    show ?thesis using n0 al cmp shrink B
      by (auto simp: realloc_def a bs sizeof_mem_block_def Let_def split: if_splits)
  next
    case (expand d l b3)
    have "(d, l, True) \<in> set bs" by (simp add: bs expand)
    note D = wf_block [OF W this]
    have add: "(of_nat m :: 32 word) + of_nat l = of_nat (m + l)" by simp
    have ext: "m + l < 2 ^ 32" using B(6) D(6) by simp
    have cmp2: "((of_nat ?k :: 32 word) \<le> of_nat m + of_nat l) = (?k \<le> m + l)"
      unfolding add using word32_less_of_nat(2) [of ?k "m + l"] ext K assms(4) by simp
    from realloc_expand [OF assms(1)[unfolded bs expand(2)] assms(3) expand(3,1) assms(4)]
    show ?thesis using n0 al cmp cmp2 expand B D nxt
      by (auto simp: realloc_def a bs sizeof_mem_block_def Let_def split: if_splits)
  next
    case move
    have no: "\<not> (next_block s a \<noteq> 0 \<and> is_free s (next_block s a)
       \<and> of_nat ?k \<le> get_size s a + get_size s (next_block s a))"
    proof (cases b2)
      case Nil then show ?thesis using nxt by simp
    next
      case (Cons x b3)
      obtain d l g where x: "x = (d, l, g)" by (cases x) auto
      have "(d, l, g) \<in> set bs" by (simp add: bs Cons x)
      note D = wf_block [OF W this]
      have "((of_nat ?k :: 32 word) \<le> of_nat (m + l)) = (?k \<le> m + l)"
        using word32_less_of_nat(2) [of ?k "m + l"] B(6) D(6) K assms(4) by simp
      then show ?thesis using move(2) nxt B(2) D(2,3) by (cases g) (auto simp: Cons x)
    qed
    obtain q s1 where M: "malloc (of_nat n) s = Some (q, s1)" "q = 0 \<and> s1 = s \<or> allocated s base bs n q s1"
      using malloc_result [OF assms(1,3,4)] by blast
    have cs: "(if (of_nat n :: 32 word) < of_nat m - 32 then of_nat n else of_nat m - 32 :: 32 word)
        = of_nat (min n c)"
    proof -
      have "(of_nat m :: 32 word) - 32 = of_nat c" using of_nat_diff32 [of 32 m] B(5) a(2) by simp
      then show ?thesis
        using word32_less_of_nat(1) [of n c] assms(4) B(6) a(2) by (simp add: min_def)
    qed
    have small: "min n c < 2 ^ 31" using assms(4) by simp
    show ?thesis
    proof (cases "q = 0")
      case True
      then have "realloc p (of_nat n) s = Some (0, s1)"
        using M(1) n0 al cmp move(1) B(2,7) no
        by (auto simp: realloc_def a sizeof_mem_block_def Let_def)
      then show ?thesis using M(2) True by (auto simp: allocated_def)
    next
      case False
      then have "allocated s base bs n q s1" using M(2) by blast
      from realloc_move [OF assms(1,2) this refl small] obtain s' where
        F: "free p (s1\<lparr>hmem := memcpy (hmem s1) q p (of_nat (min n c))\<rparr>) = Some s'" "reallocated s base bs p c n q s'"
        by blast
      have "realloc p (of_nat n) s = Some (q, s')"
        using M(1) n0 al cmp move(1) B(2,7) no False F(1) [folded cs]
        by (auto simp: realloc_def a sizeof_mem_block_def Let_def)
      then show ?thesis using F(2) by blast
    qed
  qed
qed

lemma calloc_result:
  assumes "rep s base bs fl" "0 < k * n" "k * n + 4144 \<le> 2 ^ 31"
  shows "\<exists>p s'. calloc (of_nat k) (of_nat n) s = Some (p, s')
    \<and> (p = 0 \<and> s' = s \<or> allocated s base bs (k * n) p s' \<and> (\<forall>i<k * n. hmem s' (p + i) = 0))"
proof -
  have mul: "(of_nat k * of_nat n :: 32 word) = of_nat (k * n)" by simp
  have un: "unat (of_nat (k * n) :: 32 word) = k * n"
    using assms(3) by (simp add: unsigned_of_nat take_bit_nat_eq_self del: of_nat_mult)
  obtain p s1 where M: "malloc (of_nat (k * n)) s = Some (p, s1)"
    "p = 0 \<and> s1 = s \<or> allocated s base bs (k * n) p s1"
    using malloc_result [OF assms] by blast
  show ?thesis
  proof (cases "p = 0")
    case True
    then show ?thesis using M mul by (auto simp: calloc_def allocated_def simp del: of_nat_mult)
  next
    case False
    then obtain bs1 fl1 c where A: "rep s1 base bs1 fl1" "live bs1 = insert (p, c) (live bs)" "p \<notin> fst ` live bs"
     "k * n \<le> c" "0 < p" "16 dvd p" "coalesced bs \<longrightarrow> coalesced bs1" "\<forall>x\<in>payload bs. hmem s1 x = hmem s x"
      using M(2) unfolding allocated_def by blast
    let ?s = "s1\<lparr>hmem := memset (hmem s1) p 0 (k * n)\<rparr>"
    have L: "layout base bs (brk s)" "layout base bs1 (brk s1)"
      using assms(1) A(1) by (auto simp: rep_def heap_wf_def)
    have sub: "{p..<p + c} \<subseteq> payload bs1" unfolding payload_live [OF L(2)] A(2) by auto
    have R: "rep ?s base bs1 fl1"
      using sub A(4) by (intro rep_write [OF A(1)]) (auto simp: memset_apply subset_iff)
    have "hmem ?s x = hmem s x" if x: "x \<in> payload bs" for x
    proof -
      obtain r d where r: "(r, d) \<in> live bs" "r \<le> x" "x < r + d"
        using x unfolding payload_live [OF L(1)] by auto
      have "r \<noteq> p" using A(3) r by force
      then have "r + d + 32 \<le> p \<or> p + c + 32 \<le> r"
        using live_disjoint [OF L(2), of r d p c] A(2) r(1) by auto
      then show ?thesis using A(8) x r A(4) by (auto simp: memset_apply)
    qed
    then have "allocated s base bs (k * n) p ?s"
      unfolding allocated_def using R A(2-7) by blast
    moreover have "calloc (of_nat k) (of_nat n) s = Some (p, ?s)"
      unfolding calloc_def mul un using M(1) False by simp
    ultimately show ?thesis by (auto simp: memset_apply)
  qed
qed

end
