(* ===== verification/Allocator.thy ===== *)
theory Allocator
  imports Prelude
begin

text \<open>
  The contract between \<^verbatim>\<open>user/umalloc.c\<close> and the programs that call it, as a locale: what a
  client may rely on when it allocates, releases and writes into its own blocks. A client
  knows a block by its pointer and by the size it asked for; \<open>client_run\<close> is such a client, a
  sequence of requests, of which it skips a release or a write of a block it does not own.
  The client's theorem is proved once, from the laws alone: no request gets stuck, the blocks
  it holds never overlap, and a block it neither releases nor writes keeps its contents.
\<close>

datatype request = Alloc nat | Release nat | Write nat nat byte

type_synonym blocks = "nat \<rightharpoonup> nat"

fun client_step ::
  "(nat \<Rightarrow> 's \<Rightarrow> (nat \<times> 's) option) \<Rightarrow> (nat \<Rightarrow> 's \<Rightarrow> 's option) \<Rightarrow> (nat \<Rightarrow> byte \<Rightarrow> 's \<Rightarrow> 's)
   \<Rightarrow> request \<Rightarrow> 's \<times> blocks \<Rightarrow> ('s \<times> blocks) option" where
  "client_step al rl wr (Alloc n) (s, R) =
     map_option (\<lambda>(p, s'). (s', if p = 0 then R else R(p \<mapsto> n))) (al n s)"
| "client_step al rl wr (Release p) (s, R) =
     (if R p = None then Some (s, R) else map_option (\<lambda>s'. (s', R(p := None))) (rl p s))"
| "client_step al rl wr (Write p i v) (s, R) =
     Some (case R p of None \<Rightarrow> s | Some n \<Rightarrow> if i < n then wr (p + i) v s else s, R)"

fun client_run ::
  "(nat \<Rightarrow> 's \<Rightarrow> (nat \<times> 's) option) \<Rightarrow> (nat \<Rightarrow> 's \<Rightarrow> 's option) \<Rightarrow> (nat \<Rightarrow> byte \<Rightarrow> 's \<Rightarrow> 's)
   \<Rightarrow> request list \<Rightarrow> 's \<times> blocks \<Rightarrow> ('s \<times> blocks) option" where
  "client_run al rl wr [] c = Some c"
| "client_run al rl wr (r # rs) c = Option.bind (client_step al rl wr r c) (client_run al rl wr rs)"

definition touches :: "request \<Rightarrow> nat \<Rightarrow> bool" where
  "touches r p \<longleftrightarrow> r = Release p \<or> (\<exists>i v. r = Write p i v)"

definition disjoint_blocks :: "(nat \<rightharpoonup> nat) \<Rightarrow> bool" where
  "disjoint_blocks R \<longleftrightarrow>
     (\<forall>p q n m. R p = Some n \<longrightarrow> R q = Some m \<longrightarrow> p \<noteq> q \<longrightarrow> p + n \<le> q \<or> q + m \<le> p)"

locale allocator =
  fixes inv :: "'s \<Rightarrow> (nat \<times> nat) set \<Rightarrow> bool"
    and alloc :: "nat \<Rightarrow> 's \<Rightarrow> (nat \<times> 's) option"
    and release :: "nat \<Rightarrow> 's \<Rightarrow> 's option"
    and poke :: "nat \<Rightarrow> byte \<Rightarrow> 's \<Rightarrow> 's"
    and peek :: "'s \<Rightarrow> nat \<Rightarrow> byte"
    and served :: "nat \<Rightarrow> bool"
  assumes disjoint: "inv s L \<Longrightarrow> (p, c) \<in> L \<Longrightarrow> (q, d) \<in> L \<Longrightarrow> p \<noteq> q \<Longrightarrow> p + c \<le> q \<or> q + d \<le> p"
    and alloc_law: "inv s L \<Longrightarrow> served n \<Longrightarrow> \<exists>p s'. alloc n s = Some (p, s')
      \<and> (p = 0 \<and> s' = s
         \<or> p \<noteq> 0 \<and> p \<notin> fst ` L \<and> (\<exists>k\<ge>n. inv s' (insert (p, k) L))
           \<and> (\<forall>(q, c)\<in>L. \<forall>i<c. peek s' (q + i) = peek s (q + i)))"
    and release_law: "inv s L \<Longrightarrow> (p, c) \<in> L \<Longrightarrow> \<exists>s'. release p s = Some s' \<and> inv s' (L - {(p, c)})
      \<and> (\<forall>(q, d)\<in>L - {(p, c)}. \<forall>i<d. peek s' (q + i) = peek s (q + i))"
    and poke_law: "inv s L \<Longrightarrow> (p, c) \<in> L \<Longrightarrow> i < c \<Longrightarrow> inv (poke (p + i) v s) L
      \<and> peek (poke (p + i) v s) = (peek s)(p + i := v)"
begin

text \<open>What the client believes holds of the allocator's live blocks.\<close>

definition owns :: "'s \<Rightarrow> (nat \<rightharpoonup> nat) \<Rightarrow> bool" where
  "owns s R \<longleftrightarrow> (\<exists>L. inv s L \<and> (\<forall>p n. R p = Some n \<longrightarrow> (\<exists>c\<ge>n. (p, c) \<in> L)))"

definition keeps :: "'s \<Rightarrow> 's \<Rightarrow> (nat \<rightharpoonup> nat) \<Rightarrow> bool" where
  "keeps s s' R \<longleftrightarrow> (\<forall>p n i. R p = Some n \<longrightarrow> i < n \<longrightarrow> peek s' (p + i) = peek s (p + i))"

lemma owns_disjoint: "owns s R \<Longrightarrow> disjoint_blocks R"
proof (unfold disjoint_blocks_def, intro allI impI)
  fix p q n m
  assume *: "owns s R" "R p = Some n" "R q = Some m" "p \<noteq> q"
  obtain L c d where "inv s L" "n \<le> c" "(p, c) \<in> L" "m \<le> d" "(q, d) \<in> L"
    using *(1-3) unfolding owns_def by blast
  with disjoint [of s L p c q d] *(4) show "p + n \<le> q \<or> q + m \<le> p" by auto
qed

lemma alloc_step:
  assumes "owns s R" "served n"
  shows "\<exists>p s'. alloc n s = Some (p, s') \<and> owns s' (if p = 0 then R else R(p \<mapsto> n)) \<and> keeps s s' R
    \<and> (p \<noteq> 0 \<longrightarrow> R p = None)"
proof -
  obtain L where L: "inv s L" "\<And>p n. R p = Some n \<Longrightarrow> \<exists>c\<ge>n. (p, c) \<in> L"
    using assms(1) unfolding owns_def by blast
  from alloc_law [OF L(1) assms(2)] obtain p s' where al: "alloc n s = Some (p, s')"
    "p = 0 \<and> s' = s \<or> p \<noteq> 0 \<and> p \<notin> fst ` L \<and> (\<exists>k\<ge>n. inv s' (insert (p, k) L))
           \<and> (\<forall>(q, c)\<in>L. \<forall>i<c. peek s' (q + i) = peek s (q + i))" by blast
  show ?thesis
  proof (cases "p = 0")
    case True
    then show ?thesis using al assms(1) by (auto simp: keeps_def)
  next
    case False
    then obtain k where k: "n \<le> k" "inv s' (insert (p, k) L)" "p \<notin> fst ` L"
      "\<And>q c i. (q, c) \<in> L \<Longrightarrow> i < c \<Longrightarrow> peek s' (q + i) = peek s (q + i)" using al(2) by fast
    have "\<exists>c\<ge>m. (q, c) \<in> insert (p, k) L" if "(R(p \<mapsto> n)) q = Some m" for q m
      using that L(2) [of q m] k(1) by (auto split: if_splits)
    then have "owns s' (R(p \<mapsto> n))" using k(2) unfolding owns_def by blast
    moreover have "keeps s s' R"
      unfolding keeps_def by (meson L(2) k(4) less_le_trans)
    moreover have "R p = None" using L(2) [of p] k(3) by (cases "R p") force+
    ultimately show ?thesis using al(1) False by auto
  qed
qed

lemma release_step:
  assumes "owns s R" "R p = Some n"
  shows "\<exists>s'. release p s = Some s' \<and> owns s' (R(p := None)) \<and> keeps s s' (R(p := None))"
proof -
  obtain L where L: "inv s L" "\<And>p n. R p = Some n \<Longrightarrow> \<exists>c\<ge>n. (p, c) \<in> L"
    using assms(1) unfolding owns_def by blast
  obtain c where c: "(p, c) \<in> L" using L(2) [OF assms(2)] by blast
  from release_law [OF L(1) c] obtain s' where s': "release p s = Some s'" "inv s' (L - {(p, c)})"
      "\<And>q d i. (q, d) \<in> L - {(p, c)} \<Longrightarrow> i < d \<Longrightarrow> peek s' (q + i) = peek s (q + i)" by fast
  have R': "\<exists>d\<ge>m. (q, d) \<in> L - {(p, c)}" if "(R(p := None)) q = Some m" for q m
    using that L(2) [of q m] by (auto split: if_splits)
  then have "owns s' (R(p := None))" using s'(2) unfolding owns_def by blast
  moreover have "keeps s s' (R(p := None))"
    unfolding keeps_def by (meson R' s'(3) less_le_trans)
  ultimately show ?thesis using s'(1) by blast
qed

lemma write_step:
  assumes "owns s R" "R p = Some n" "i < n"
  shows "owns (poke (p + i) v s) R \<and> keeps s (poke (p + i) v s) (R(p := None))"
proof -
  obtain L where L: "inv s L" "\<And>p n. R p = Some n \<Longrightarrow> \<exists>c\<ge>n. (p, c) \<in> L"
    using assms(1) unfolding owns_def by blast
  obtain c where c: "(p, c) \<in> L" "n \<le> c" using L(2) [OF assms(2)] by blast
  from poke_law [OF L(1) c(1), of i v] assms(3) c(2)
  have pk: "inv (poke (p + i) v s) L" "peek (poke (p + i) v s) = (peek s)(p + i := v)" by auto
  have "q + j \<noteq> p + i" if "R q = Some m" "q \<noteq> p" "j < m" for q m j
    using owns_disjoint [OF assms(1)] that assms(2,3) unfolding disjoint_blocks_def by fastforce
  then have "keeps s (poke (p + i) v s) (R(p := None))"
    by (auto simp: keeps_def pk(2))
  moreover have "owns (poke (p + i) v s) R" using pk(1) L(2) unfolding owns_def by blast
  ultimately show ?thesis by blast
qed

lemma step_safe:
  assumes "owns s R" "\<And>n. r = Alloc n \<Longrightarrow> served n"
  shows "\<exists>s' R'. client_step alloc release poke r (s, R) = Some (s', R') \<and> owns s' R'
    \<and> (\<forall>p n. R p = Some n \<longrightarrow> \<not> touches r p \<longrightarrow>
         R' p = Some n \<and> (\<forall>i<n. peek s' (p + i) = peek s (p + i)))"
proof (cases r)
  case (Alloc n)
  then show ?thesis
    using alloc_step [OF assms(1) assms(2) [OF Alloc]] by (fastforce simp: keeps_def)
next
  case (Release p)
  show ?thesis
  proof (cases "R p")
    case None
    then show ?thesis using assms(1) by (simp add: Release)
  next
    case (Some n)
    then show ?thesis
      using release_step [OF assms(1) Some] by (fastforce simp: Release keeps_def touches_def)
  qed
next
  case (Write p i v)
  show ?thesis
  proof (cases "\<exists>n. R p = Some n \<and> i < n")
    case True
    then obtain n where n: "R p = Some n" "i < n" by blast
    then show ?thesis
      using write_step [OF assms(1) n, of v] by (auto simp: Write keeps_def touches_def)
  next
    case False
    then show ?thesis using assms(1) by (cases "R p") (auto simp: Write)
  qed
qed

text \<open>The client's theorem.\<close>

lemma client_safe:
  assumes "owns s R" "\<And>n. Alloc n \<in> set rs \<Longrightarrow> served n"
  shows "\<exists>s' R'. client_run alloc release poke rs (s, R) = Some (s', R') \<and> owns s' R'
    \<and> disjoint_blocks R'
    \<and> (\<forall>p n. R p = Some n \<longrightarrow> (\<forall>r\<in>set rs. \<not> touches r p) \<longrightarrow>
         R' p = Some n \<and> (\<forall>i<n. peek s' (p + i) = peek s (p + i)))"
  using assms
proof (induction rs arbitrary: s R)
  case Nil
  then show ?case using owns_disjoint by simp
next
  case (Cons r rs)
  obtain s1 R1 where 1: "client_step alloc release poke r (s, R) = Some (s1, R1)" "owns s1 R1"
    "\<And>p n. R p = Some n \<Longrightarrow> \<not> touches r p \<Longrightarrow>
         R1 p = Some n \<and> (\<forall>i<n. peek s1 (p + i) = peek s (p + i))"
    using step_safe [OF Cons.prems(1), of r] Cons.prems(2) by (metis list.set_intros(1))
  obtain s' R' where 2: "client_run alloc release poke rs (s1, R1) = Some (s', R')" "owns s' R'"
    "disjoint_blocks R'"
    "\<And>p n. R1 p = Some n \<Longrightarrow> \<forall>r\<in>set rs. \<not> touches r p \<Longrightarrow>
         R' p = Some n \<and> (\<forall>i<n. peek s' (p + i) = peek s1 (p + i))"
    using Cons.IH [OF 1(2)] Cons.prems(2) by (metis list.set_intros(2))
  have "R' p = Some n \<and> (\<forall>i<n. peek s' (p + i) = peek s (p + i))"
    if "R p = Some n" "\<forall>r\<in>set (r # rs). \<not> touches r p" for p n
    using that 1(3) [of p n] 2(4) [of p n] by auto
  then show ?case using 1(1) 2(1-3) by auto
qed

end

end
