(* ===== verification/Umalloc_Props.thy ===== *)
theory Umalloc_Props
  imports Umalloc_Inv Allocator
begin

text \<open>
  The properties of \<^verbatim>\<open>user/umalloc.c\<close>. \<open>rep s base bs fl\<close> says that the heap \<open>s\<close> holds the blocks
  \<open>bs\<close> (address, size, free bit) from \<open>base\<close> to the break, doubly linked in address order, and
  the free list \<open>fl\<close>, which holds exactly the free blocks; \<open>live bs\<close> are the blocks handed out,
  each a pointer and a usable size. Requests up to \<open>2^31 - 4144\<close> bytes are covered; above
  that the 32-bit size arithmetic of the source wraps, which \<open>malloc_wraps\<close> shows. The
  contract of \<open>Allocator\<close> is interpreted on the model's \<open>malloc\<close> and \<open>free\<close>.
\<close>

definition heap_inv :: "heap \<Rightarrow> (nat \<times> nat) set \<Rightarrow> bool" where
  "heap_inv s L \<longleftrightarrow> (\<exists>base bs fl. rep s base bs fl \<and> live bs = L)"

definition poke :: "nat \<Rightarrow> byte \<Rightarrow> heap \<Rightarrow> heap" where
  "poke a v s = s\<lparr>hmem := (hmem s)(a := v)\<rparr>"

definition served :: "nat \<Rightarrow> bool" where
  "served n \<longleftrightarrow> 0 < n \<and> n + 4144 \<le> 2 ^ 31"

lemma rep_layout: "rep s base bs fl \<Longrightarrow> layout base bs (brk s)"
  by (simp add: rep_def heap_wf_def)

lemma live_payload:
  assumes "(q, c) \<in> live bs" "i < c" shows "q + i \<in> payload bs"
proof -
  obtain a n where "(a, n, False) \<in> set bs" "q = a + 32" "c = n - 32"
    using assms(1) by (auto simp: live_def)
  with assms(2) show ?thesis
    unfolding payload_def by (intro CollectI exI [of _ a] exI [of _ n]) auto
qed

interpretation ua: allocator heap_inv "\<lambda>n. malloc (of_nat n)" free poke hmem served
proof
  fix s L p c q d
  assume "heap_inv s L" "(p, c) \<in> L" "(q, d) \<in> L" "p \<noteq> q"
  then show "p + c \<le> q \<or> q + d \<le> p"
    using live_disjoint [OF rep_layout] unfolding heap_inv_def by fastforce
next
  fix s L n
  assume "heap_inv s L" "served n"
  then obtain base bs fl where R: "rep s base bs fl" "live bs = L" "0 < n" "n + 4144 \<le> 2 ^ 31"
    unfolding heap_inv_def served_def by blast
  obtain p s' where M: "malloc (of_nat n) s = Some (p, s')"
    "p = 0 \<and> s' = s \<or> allocated s base bs n p s'"
    using malloc_result [OF R(1,3,4)] by blast
  have "p \<notin> fst ` L \<and> p \<noteq> 0 \<and> (\<exists>k\<ge>n. heap_inv s' (insert (p, k) L))
      \<and> (\<forall>(q, c)\<in>L. \<forall>i<c. hmem s' (q + i) = hmem s (q + i))" if A: "allocated s base bs n p s'"
    using A live_payload [of _ _ bs] unfolding allocated_def heap_inv_def R(2) by fastforce
  then show "\<exists>p s'. malloc (of_nat n) s = Some (p, s') \<and> (p = 0 \<and> s' = s
      \<or> p \<noteq> 0 \<and> p \<notin> fst ` L \<and> (\<exists>k\<ge>n. heap_inv s' (insert (p, k) L))
        \<and> (\<forall>(q, c)\<in>L. \<forall>i<c. hmem s' (q + i) = hmem s (q + i)))"
    using M by blast
next
  fix s L p c
  assume "heap_inv s L" "(p, c) \<in> L"
  then obtain base bs fl where R: "rep s base bs fl" "live bs = L" "(p, c) \<in> live bs"
    unfolding heap_inv_def by blast
  obtain s' bs' fl' where F: "free p s = Some s'" "rep s' base bs' fl'" "live bs' = live bs - {(p, c)}"
    "\<forall>x\<in>payload bs'. hmem s' x = hmem s x"
    using free_result [OF R(1,3)] by blast
  then have "heap_inv s' (L - {(p, c)})" unfolding heap_inv_def R(2) by blast
  moreover have "\<forall>(q, d)\<in>L - {(p, c)}. \<forall>i<d. hmem s' (q + i) = hmem s (q + i)"
    using F(4) live_payload [of _ _ bs'] unfolding F(3) R(2) by fastforce
  ultimately show "\<exists>s'. free p s = Some s' \<and> heap_inv s' (L - {(p, c)})
      \<and> (\<forall>(q, d)\<in>L - {(p, c)}. \<forall>i<d. hmem s' (q + i) = hmem s (q + i))"
    using F(1) by blast
next
  fix s L p c i v
  assume "heap_inv s L" "(p, c) \<in> L" "i < c"
  then obtain base bs fl where R: "rep s base bs fl" "live bs = L" "(p, c) \<in> live bs"
    unfolding heap_inv_def by blast
  have "rep (poke (p + i) v s) base bs fl"
    unfolding poke_def using live_payload [OF R(3) \<open>i < c\<close>] by (intro rep_write [OF R(1)]) auto
  then show "heap_inv (poke (p + i) v s) L \<and> hmem (poke (p + i) v s) = (hmem s)(p + i := v)"
    using R(2) unfolding heap_inv_def by (auto simp: poke_def)
qed

section \<open>Two concrete heaps\<close>

text \<open>A process that has not allocated yet, and one with a 32-byte block handed out and the rest
  of its page free.\<close>

definition heap0 :: heap where
  "heap0 = \<lparr>hmem = (\<lambda>_. 0), head = 0, tail = 0, free_head = 0, current_fsm = 0,
            brk = 20480, brk_max = 65536\<rparr>"

definition heap1 :: heap where
  "heap1 = set_prev_block 20544 20480 (set_next_block 20480 20544
     (set_blk_size 20480 (enc 64 False) (set_blk_size 20544 (enc 4032 True)
       (heap0\<lparr>head := 20480, tail := 20544, free_head := 20544, brk := 24576\<rparr>))))"

lemma heap0_rep: "rep heap0 20480 [] []"
  by (simp add: rep_def heap_wf_def heap0_def shape_def layout_def)

lemma heap0_fields: "blk_size heap0 a = 0" "next_block heap0 a = 0" "prev_block heap0 a = 0"
  "next_free heap0 a = 0" "prev_free heap0 a = 0"
proof -
  have "ldn n (\<lambda>_. 0) x = 0" for n x by (induction n arbitrary: x) auto
  then show "blk_size heap0 a = 0" "next_block heap0 a = 0" "prev_block heap0 a = 0"
    "next_free heap0 a = 0" "prev_free heap0 a = 0" by (simp_all add: field_defs heap0_def)
qed

lemma heap1_rep: "rep heap1 20480 [(20480, 64, False), (20544, 4032, True)] [20544]"
proof -
  have [simp]: "blk_size (s\<lparr>brk := x\<rparr>) a = blk_size s a" "next_block (s\<lparr>brk := x\<rparr>) a = next_block s a"
    "prev_block (s\<lparr>brk := x\<rparr>) a = prev_block s a" "next_free (s\<lparr>brk := x\<rparr>) a = next_free s a"
    "prev_free (s\<lparr>brk := x\<rparr>) a = prev_free s a" for s x a by (simp_all add: field_defs)
  have "shape heap1 [(20480, 64, False), (20544, 4032, True)] [20544]"
    by (simp add: shape_def heap1_def blk_simps apart_def heap0_fields)
  moreover have "brk heap1 = 24576" "brk_max heap1 = 65536"
    by (simp_all add: heap1_def field_defs heap0_def)
  ultimately show ?thesis
    by (simp add: rep_def heap_wf_def layout_def)
qed

section \<open>malloc\<close>

text \<open>C1. On a well-formed heap \<open>malloc\<close> returns. It gives NULL, and changes nothing, only when no
  free block is big enough and the break cannot grow by the pages the request needs; otherwise
  the result is a fresh 16-byte aligned block of at least the requested size, the heap is well-formed
  again with exactly this block added to those handed out, no two free blocks become
  adjacent, and every byte of every other block handed out is unchanged.\<close>

theorem malloc_correct:
  assumes "rep s base bs fl" "0 < n" "n + 4144 \<le> 2 ^ 31"
  shows "\<exists>p s'. malloc (of_nat n) s = Some (p, s') \<and>
    (p = 0 \<and> s' = s \<and> brk_max s < brk s + align 4096 (32 + align 16 n)
       \<and> (current_fsm s \<in> {FIRST_FIT, BEST_FIT, WORST_FIT} \<longrightarrow>
           (\<forall>a\<in>set fl. bsize bs a < 32 + align 16 n))
     \<or> (\<exists>bs' fl' k. rep s' base bs' fl'
         \<and> live bs' = insert (p, k) (live bs) \<and> p \<notin> fst ` live bs \<and> n \<le> k \<and> 0 < p \<and> 16 dvd p
         \<and> (coalesced bs \<longrightarrow> coalesced bs')
         \<and> (\<forall>x\<in>payload bs. hmem s' x = hmem s x)))"
  using malloc_result [OF assms] unfolding allocated_def block_need_def .

theorem malloc_correct_witness:
  "\<exists>p s'. malloc 100 heap1 = Some (p, s') \<and>
    (p = 0 \<and> s' = heap1 \<and> brk_max heap1 < brk heap1 + align 4096 (32 + align 16 100)
       \<and> (current_fsm heap1 \<in> {FIRST_FIT, BEST_FIT, WORST_FIT} \<longrightarrow>
           (\<forall>a\<in>set [20544]. bsize [(20480, 64, False), (20544, 4032, True)] a < 32 + align 16 100))
     \<or> (\<exists>bs' fl' k. rep s' 20480 bs' fl'
         \<and> live bs' = insert (p, k) (live [(20480, 64, False), (20544, 4032, True)])
         \<and> p \<notin> fst ` live [(20480, 64, False), (20544, 4032, True)]
         \<and> 100 \<le> k \<and> 0 < p \<and> 16 dvd p
         \<and> (coalesced [(20480, 64, False), (20544, 4032, True)] \<longrightarrow> coalesced bs')
         \<and> (\<forall>x\<in>payload [(20480, 64, False), (20544, 4032, True)]. hmem s' x = hmem heap1 x)))"
  using malloc_correct [OF heap1_rep, of 100] by simp

section \<open>free\<close>

text \<open>C2. \<open>free\<close> of a block handed out returns, whatever the heap looked like before: the loops over
  the free list and over the tail end. The block is no longer handed out and all others are,
  with their bytes unchanged; free neighbours have been merged, and no free block of a page
  or more is left at the break, where it would have been given back to the kernel.\<close>

theorem free_correct:
  assumes "rep s base bs fl" "(p, c) \<in> live bs" "coalesced bs"
  shows "\<exists>s' bs' fl'. free p s = Some s' \<and> rep s' base bs' fl'
    \<and> live bs' = live bs - {(p, c)} \<and> coalesced bs' \<and> trimmed bs'
    \<and> (\<forall>x\<in>payload bs'. hmem s' x = hmem s x)"
  using free_result [OF assms(1,2)] assms(3) by blast

theorem free_correct_witness:
  "\<exists>s' bs' fl'. free 20512 heap1 = Some s' \<and> rep s' 20480 bs' fl'
    \<and> live bs' = live [(20480, 64, False), (20544, 4032, True)] - {(20512, 32)}
    \<and> coalesced bs' \<and> trimmed bs' \<and> (\<forall>x\<in>payload bs'. hmem s' x = hmem heap1 x)"
  using free_correct [OF heap1_rep, of 20512 32] by simp

section \<open>realloc and calloc\<close>

text \<open>C3. \<open>realloc\<close> of a block handed out, to a size in range, returns. Either it gives NULL and the heap
  is untouched, or the result is a block of at least the new size that replaces the old one,
  at the old address or elsewhere; its first bytes, up to the smaller of both sizes, are those
  of the old block, and every other block keeps its bytes. This covers shrinking in
  place, growing into a free neighbour (where the source removes the neighbour from the free list
  twice) and moving.\<close>

theorem realloc_correct:
  assumes "rep s base bs fl" "(p, c) \<in> live bs" "0 < n" "n + 4144 \<le> 2 ^ 31"
  shows "\<exists>q s'. realloc p (of_nat n) s = Some (q, s') \<and>
    (q = 0 \<and> s' = s \<or> (\<exists>bs' fl' k. rep s' base bs' fl'
       \<and> live bs' = insert (q, k) (live bs - {(p, c)}) \<and> q \<notin> fst ` (live bs - {(p, c)})
       \<and> n \<le> k \<and> 0 < q \<and> 16 dvd q \<and> (coalesced bs \<longrightarrow> coalesced bs')
       \<and> (\<forall>i<min n c. hmem s' (q + i) = hmem s (p + i))
       \<and> (\<forall>x\<in>payload bs - {p..<p + c}. hmem s' x = hmem s x)))"
  using realloc_result [OF assms] unfolding reallocated_def .

theorem realloc_correct_witness:
  "\<exists>q s'. realloc 20512 1000 heap1 = Some (q, s') \<and>
    (q = 0 \<and> s' = heap1 \<or> (\<exists>bs' fl' k. rep s' 20480 bs' fl'
       \<and> live bs' = insert (q, k) (live [(20480, 64, False), (20544, 4032, True)] - {(20512, 32)})
       \<and> q \<notin> fst ` (live [(20480, 64, False), (20544, 4032, True)] - {(20512, 32)})
       \<and> 1000 \<le> k \<and> 0 < q \<and> 16 dvd q
       \<and> (coalesced [(20480, 64, False), (20544, 4032, True)] \<longrightarrow> coalesced bs')
       \<and> (\<forall>i<min 1000 32. hmem s' (q + i) = hmem heap1 (20512 + i))
       \<and> (\<forall>x\<in>payload [(20480, 64, False), (20544, 4032, True)] - {20512..<20512 + 32}.
             hmem s' x = hmem heap1 x)))"
  using realloc_correct [OF heap1_rep, of 20512 32 1000] by simp

text \<open>\<open>calloc\<close> of \<open>k\<close> objects of \<open>n\<close> bytes, when the product is in range, returns NULL and changes
  nothing, or a block of at least \<open>k * n\<close> bytes, all zero, added to those handed out without
  changing a byte of the others.\<close>

theorem calloc_correct:
  assumes "rep s base bs fl" "0 < k * n" "k * n + 4144 \<le> 2 ^ 31"
  shows "\<exists>p s'. calloc (of_nat k) (of_nat n) s = Some (p, s') \<and> (p = 0 \<and> s' = s
    \<or> (\<exists>bs' fl' c. rep s' base bs' fl' \<and> live bs' = insert (p, c) (live bs) \<and> p \<notin> fst ` live bs
        \<and> k * n \<le> c \<and> 0 < p \<and> (\<forall>x\<in>payload bs. hmem s' x = hmem s x))
      \<and> (\<forall>i<k * n. hmem s' (p + i) = 0))"
  using calloc_result [OF assms] unfolding allocated_def by blast

theorem calloc_correct_witness:
  "\<exists>p s'. calloc (of_nat 10) (of_nat 8) heap0 = Some (p, s') \<and> (p = 0 \<and> s' = heap0
    \<or> (\<exists>bs' fl' c. rep s' 20480 bs' fl' \<and> live bs' = insert (p, c) (live []) \<and> p \<notin> fst ` live []
        \<and> 10 * 8 \<le> c \<and> 0 < p \<and> (\<forall>x\<in>payload []. hmem s' x = hmem heap0 x))
      \<and> (\<forall>i<10 * 8. hmem s' (p + i) = 0))"
  by (rule calloc_correct [OF heap0_rep]) simp_all

section \<open>Placement policy\<close>

text \<open>C5. The search of the free list ends and chooses as the selected policy promises: first fit the
  first block in list order that is big enough, best fit one no other fitting block is
  smaller than, worst fit one no block is larger than; it finds nothing only if no free
  block is big enough.\<close>

theorem placement_policy:
  assumes "rep s base bs fl" "k < 2 ^ 32" "current_fsm s \<in> {FIRST_FIT, BEST_FIT, WORST_FIT}"
  shows "\<exists>b. reuse_block (of_nat k) s = Some b
    \<and> (if \<forall>a\<in>set fl. bsize bs a < k then b = 0
       else b \<in> set fl \<and> k \<le> bsize bs b
         \<and> (current_fsm s = FIRST_FIT \<longrightarrow> find (\<lambda>a. k \<le> bsize bs a) fl = Some b)
         \<and> (current_fsm s = BEST_FIT \<longrightarrow> (\<forall>a\<in>set fl. k \<le> bsize bs a \<longrightarrow> bsize bs b \<le> bsize bs a))
         \<and> (current_fsm s = WORST_FIT \<longrightarrow> (\<forall>a\<in>set fl. bsize bs a \<le> bsize bs b)))"
proof -
  have W: "heap_wf s base bs fl (brk s)" using assms(1) by (simp add: rep_def)
  then have z: "0 \<notin> set fl" using wf_free_size(3) by blast
  obtain b where b: "reuse_block (of_nat k) s = Some b"
    "b = 0 \<and> (\<forall>a\<in>set fl. bsize bs a < k) \<or> b \<in> set fl \<and> k \<le> bsize bs b
       \<and> (current_fsm s = FIRST_FIT \<longrightarrow> find (\<lambda>a. k \<le> bsize bs a) fl = Some b)
       \<and> (current_fsm s = BEST_FIT \<longrightarrow> (\<forall>a\<in>set fl. k \<le> bsize bs a \<longrightarrow> bsize bs b \<le> bsize bs a))
       \<and> (current_fsm s = WORST_FIT \<longrightarrow> (\<forall>a\<in>set fl. bsize bs a \<le> bsize bs b))"
    using reuse_block_spec [OF W assms(2)] assms(3) by blast
  show ?thesis
  proof (cases "\<forall>a\<in>set fl. bsize bs a < k")
    case True
    then have "b = 0" using b(2) by force
    then show ?thesis using b(1) True by simp
  next
    case False
    then show ?thesis using b by auto
  qed
qed

theorem placement_policy_witness:
  "\<exists>b. reuse_block (of_nat 100) heap1 = Some b
    \<and> (if \<forall>a\<in>set [20544]. bsize [(20480, 64, False), (20544, 4032, True)] a < 100 then b = 0
       else b \<in> set [20544] \<and> 100 \<le> bsize [(20480, 64, False), (20544, 4032, True)] b
         \<and> (current_fsm heap1 = FIRST_FIT \<longrightarrow>
              find (\<lambda>a. 100 \<le> bsize [(20480, 64, False), (20544, 4032, True)] a) [20544] = Some b)
         \<and> (current_fsm heap1 = BEST_FIT \<longrightarrow> (\<forall>a\<in>set [20544].
              100 \<le> bsize [(20480, 64, False), (20544, 4032, True)] a \<longrightarrow>
              bsize [(20480, 64, False), (20544, 4032, True)] b
                \<le> bsize [(20480, 64, False), (20544, 4032, True)] a))
         \<and> (current_fsm heap1 = WORST_FIT \<longrightarrow> (\<forall>a\<in>set [20544].
              bsize [(20480, 64, False), (20544, 4032, True)] a
                \<le> bsize [(20480, 64, False), (20544, 4032, True)] b)))"
proof -
  have "current_fsm heap1 = FIRST_FIT" by (simp add: heap1_def field_defs heap0_def FIRST_FIT_def)
  then show ?thesis by (intro placement_policy [OF heap1_rep]) simp_all
qed

section \<open>Programs that use the allocator\<close>

text \<open>C4. Any sequence of allocations in range, releases and writes of a client that releases and writes only
  blocks it holds runs to its end; the blocks it holds at the end do not overlap, and
  a block it held at the start and neither released nor wrote still holds its bytes.\<close>

theorem allocator_isolates_blocks:
  assumes "rep s base bs fl" "\<And>p n. R p = Some n \<Longrightarrow> \<exists>c\<ge>n. (p, c) \<in> live bs"
    and "\<And>n. Alloc n \<in> set rs \<Longrightarrow> served n"
  shows "\<exists>s' R'. client_run (\<lambda>n. malloc (of_nat n)) free poke rs (s, R) = Some (s', R')
    \<and> disjoint_blocks R'
    \<and> (\<forall>p n. R p = Some n \<longrightarrow> (\<forall>r\<in>set rs. \<not> touches r p) \<longrightarrow>
         R' p = Some n \<and> (\<forall>i<n. hmem s' (p + i) = hmem s (p + i)))"
proof -
  have "ua.owns s R" unfolding ua.owns_def heap_inv_def using assms(1,2) by blast
  from ua.client_safe [OF this assms(3)] show ?thesis by blast
qed

theorem allocator_isolates_blocks_witness:
  "\<exists>s' R'. client_run (\<lambda>n. malloc (of_nat n)) free poke [Alloc 5000, Write 20512 3 7, Alloc 24]
       (heap1, [20512 \<mapsto> 32]) = Some (s', R')
    \<and> disjoint_blocks R'
    \<and> (\<forall>p n. [20512 \<mapsto> 32] p = Some n \<longrightarrow>
         (\<forall>r\<in>set [Alloc 5000, Write 20512 3 7, Alloc 24]. \<not> touches r p) \<longrightarrow>
         R' p = Some n \<and> (\<forall>i<n. hmem s' (p + i) = hmem heap1 (p + i)))"
  by (rule allocator_isolates_blocks [OF heap1_rep]) (auto simp: served_def split: if_splits)

section \<open>Requests out of range\<close>

lemma align_size_wraps: assumes "sz > 0xFFFFFFF0" shows "align_size sz = 0"
proof -
  define n where "n = unat sz"
  have n: "0xFFFFFFF0 < n" "n < 2 ^ 32" "sz = of_nat n"
    using assms unsigned_less [of sz, where ?'a = nat] by (auto simp: n_def word_less_nat_alt)
  have m: "sz mod 16 = of_nat (n mod 16)" "n mod 16 = n - 0xFFFFFFF0"
    using n by (simp_all add: word_arith_nat_mod unsigned_of_nat take_bit_nat_eq_self mod_nat_eqI)
  have d: "(16 :: 32 word) - of_nat (n - 0xFFFFFFF0) = of_nat (16 - (n - 0xFFFFFFF0))"
    using of_nat_diff32 [of "n - 0xFFFFFFF0" 16] n by simp
  have "sz mod 16 \<noteq> 0"
  proof -
    have "0 < n - 0xFFFFFFF0" "n - 0xFFFFFFF0 < 2 ^ 32" using n by linarith+
    then have "(0 :: 32 word) < of_nat (n - 0xFFFFFFF0)"
      using word32_less_of_nat(1) [of 0 "n - 0xFFFFFFF0"] by (simp del: of_nat_diff)
    then show ?thesis unfolding m by auto
  qed
  then have "align_size sz = sz + (16 - sz mod 16)" by (simp add: align_size_def)
  also have "\<dots> = of_nat n + of_nat (16 - (n - 0xFFFFFFF0))" unfolding m(1) m(2) d unfolding n(3) ..
  also have "\<dots> = of_nat (2 ^ 32)"
    using n by (simp flip: of_nat_add)
  also have "(of_nat (2 ^ 32) :: 32 word) = 0" by simp
  finally show ?thesis .
qed

lemma page_of_header: "align_to_page 32 = 4096"
  by (simp add: align_to_page_def)

text \<open>Writes at or above the end of a header leave its size and link alone.\<close>

lemma hdr_below:
  assumes "a + 32 \<le> b"
  shows "blk_size (set_blk_size b w s) a = blk_size s a" "blk_size (set_next_block b v s) a = blk_size s a"
    "blk_size (set_prev_block b v s) a = blk_size s a" "blk_size (set_next_free b v s) a = blk_size s a"
    "blk_size (set_prev_free b v s) a = blk_size s a"
    "next_block (set_blk_size b w s) a = next_block s a" "next_block (set_next_block b v s) a = next_block s a"
    "next_block (set_prev_block b v s) a = next_block s a"
    "blk_size (s\<lparr>hmem := memset (hmem s) b c 8\<rparr>) a = blk_size s a"
    "next_block (s\<lparr>hmem := memset (hmem s) b c 8\<rparr>) a = next_block s a"
  using assms by (auto simp: field_defs mem_simps memset_apply intro!: ldn_cong arg_cong [of _ _ of_nat])

definition heap0_grown :: heap where
  "heap0_grown = heap0\<lparr>brk := 24576\<rparr>"

lemma heap0_sbrk: "sbrk 4096 heap0 = (Some 20480, heap0_grown)"
proof -
  have "hmem heap0 = (\<lambda>x. 0)" by (simp add: heap0_def)
  then show ?thesis
    using sbrk_grow [of 4096 heap0] by (simp add: heap0_def heap0_grown_def cong: if_cong)
qed

lemma heap0_reuse: "reuse_block 32 heap0 = Some 0"
  by (simp add: reuse_block_def FIRST_FIT_def find_free_block_first_fit_def heap0_def
      first_fit_loop.simps [of _ _ 0])

lemma malloc_max: "map_option (\<lambda>(p, s). (p, get_size s (p - 32))) (malloc 0xFFFFFFFF heap0) = Some (20512, 32)"
proof -
  have hf: "free_head heap0_grown = 0" "head heap0_grown = 0"
    by (simp_all add: heap0_grown_def heap0_def)
  let ?u = "set_prev_block 20480 0 (set_next_block 20480 0 (set_blk_size 20480 (enc 4096 False) (heap0_grown\<lparr>hmem := memset (hmem heap0_grown) 20480 0 8\<rparr>)))"
  let ?v = "set_prev_block 20480 0 (set_next_block 20480 0 (?u\<lparr>head := 20480, tail := 20480\<rparr>))"
  have u: "set_used 20480 (set_size 20480 4096 s) = set_blk_size 20480 (enc 4096 False) s" for s
    using set_size_used_eq [of 4096 20480 s] by simp
  have v: "block_list_add 20480 ?u = Some ?v"
    by (simp add: block_list_add_def blk_simps hf)
  have m: "malloc 0xFFFFFFFF heap0 = Option.bind ((let (sb, s) = split 20480 32 ?v in if sb \<noteq> 0 then free_list_add sb s else Some s)) (\<lambda>s. Some (20512, s))"
    by (simp add: malloc_def align_size_wraps heap0_reuse page_of_header heap0_sbrk sizeof_mem_block_def u v prod.case_distrib [of "\<lambda>x. Option.bind x _"])
  have b: "blk_size ?v 20480 = enc 4096 False" by (simp add: blk_simps)
  have sz: "set_size 20480 32 ?v = set_blk_size 20480 (enc 32 False) ?v"
    using set_size_eq [OF b, of 32] by simp
  have "get_size ?v 20480 = 4096" using get_size_eq [OF b] by simp
  moreover have sf: "set_free 20512 (set_size 20512 4064 s) = set_blk_size 20512 (enc 4064 True) s" for s
    using set_size_free_eq [of 4064 20512 s] by simp
  ultimately have "\<exists>w. split 20480 32 ?v = (20512, w) \<and> free_head w = 0 \<and> blk_size w 20480 = enc 32 False"
    by (simp add: split_def Let_def sz sizeof_mem_block_def blk_simps hdr_below hf)
  then obtain w where w: "split 20480 32 ?v = (20512, w)" "free_head w = 0" "blk_size w 20480 = enc 32 False"
    by blast
  have "get_size (set_prev_free 20512 0 (set_next_free 20512 0 w)) 20480 = 32"
    using get_size_eq [of _ 20480 32 False] w(3) by (simp add: hdr_below)
  then show ?thesis
    unfolding m using w by (simp add: free_list_add_def blk_simps get_size_def)
qed
text \<open>The size arithmetic wraps for the largest requests: for every request above \<open>2^32 - 16\<close> bytes
  the rounded size is 0, so that \<open>malloc\<close> goes on as if a bare header had been asked for. On a fresh
  process \<open>malloc(0xFFFFFFFF)\<close> succeeds with a block of 32 bytes, all of it header.\<close>

theorem malloc_wraps:
  "(sz > 0xFFFFFFF0 \<longrightarrow> align_size sz = 0 \<and> of_nat sizeof_mem_block + align_size sz = 32)
   \<and> map_option (\<lambda>(p, s). (p, get_size s (p - 32))) (malloc 0xFFFFFFFF heap0) = Some (20512, 32)"
  using align_size_wraps malloc_max by (simp add: sizeof_mem_block_def)

theorem malloc_wraps_witness:
  "(0xFFFFFFFF :: 32 word) > 0xFFFFFFF0 \<and> align_size 0xFFFFFFFF = 0
   \<and> of_nat sizeof_mem_block + align_size 0xFFFFFFFF = 32
   \<and> map_option (\<lambda>(p, s). (p, get_size s (p - 32))) (malloc 0xFFFFFFFF heap0) = Some (20512, 32)"
  using malloc_wraps [of "0xFFFFFFFF"] by (simp add: sizeof_mem_block_def)

text \<open>\<open>calloc\<close> multiplies in 32 bits: a request for 65536 objects of 65537 bytes is served exactly
  as one for 65536 objects of one byte.\<close>

theorem calloc_wraps: "calloc 65536 65537 s = calloc 65536 1 s"
proof -
  have "(65536 * 65537 :: 32 word) = 65536 * 1" by simp
  then show ?thesis unfolding calloc_def by (rule ssubst) (rule refl)
qed

end
