(* ===== verification/Bio.thy ===== *)
theory Bio
  imports Prelude
begin

text \<open>
  The buffer cache, \<^verbatim>\<open>kernel/bio.c\<close>, with the sleep lock of each buffer (\<^verbatim>\<open>kernel/sleeplock.c\<close>) and the
  disk behind it. Buffers are numbered, \<open>NBUF\<close> standing for the list head; \<open>prev\<close> and \<open>next\<close> are the
  links of the least-recently-used list. A section under \<open>bcache.lock\<close> is one step. \<open>acquiresleep\<close> on a lock
  another process holds is the outcome \<open>Sleep\<close>. \<open>virtio_disk_rw\<close> is the effect of the completed transfer,
  one block at a time; the driver's queues are not modelled. \<open>dtrace\<close> records the writes that reached
  the disk, in order: what survives a power failure is a prefix of them.

  The lemmas abstract the cache to \<open>view\<close>, the contents of a block as a process sees them: in the cache if it is
  there, else on disk. Reading never changes it and a recycled buffer never loses data.
\<close>

definition NBUF :: nat where "NBUF = 30"

type_synonym block = "nat \<Rightarrow> byte"

record sleeplock =
  locked :: bool
  lpid :: int

record buf =
  valid :: bool
  dev :: nat
  blockno :: nat
  block_lock :: sleeplock
  refcnt :: nat
  prev :: nat
  nxt :: nat
  data :: block

record bio =
  bufs :: "nat \<Rightarrow> buf"
  disk :: "nat \<Rightarrow> block"
  dtrace :: "(nat \<times> block) list"
  mypid :: int

definition upd_buf :: "nat \<Rightarrow> (buf \<Rightarrow> buf) \<Rightarrow> bio \<Rightarrow> bio" where
  "upd_buf b f s = s\<lparr>bufs := (bufs s)(b := f (bufs s b))\<rparr>"

section \<open>Sleep locks of buffers\<close>

definition initsleeplock :: "nat \<Rightarrow> bio \<Rightarrow> bio" where
  "initsleeplock b = upd_buf b (\<lambda>x. x\<lparr>block_lock := \<lparr>locked = False, lpid = 0\<rparr>\<rparr>)"

definition acquiresleep :: "nat \<Rightarrow> bio \<Rightarrow> (bio, unit) outcome" where
  "acquiresleep b s =
     (if locked (block_lock (bufs s b)) then Sleep b s
      else Ret () (upd_buf b (\<lambda>x. x\<lparr>block_lock := \<lparr>locked = True, lpid = mypid s\<rparr>\<rparr>) s))"

definition releasesleep :: "nat \<Rightarrow> bio \<Rightarrow> bio" where
  "releasesleep b = upd_buf b (\<lambda>x. x\<lparr>block_lock := \<lparr>locked = False, lpid = 0\<rparr>\<rparr>)"

definition holdingsleep :: "nat \<Rightarrow> bio \<Rightarrow> bool" where
  "holdingsleep b s \<longleftrightarrow> locked (block_lock (bufs s b)) \<and> lpid (block_lock (bufs s b)) = mypid s"

section \<open>The cache\<close>

definition set_next :: "nat \<Rightarrow> nat \<Rightarrow> bio \<Rightarrow> bio" where
  "set_next b v = upd_buf b (\<lambda>x. x\<lparr>nxt := v\<rparr>)"

definition set_prev :: "nat \<Rightarrow> nat \<Rightarrow> bio \<Rightarrow> bio" where
  "set_prev b v = upd_buf b (\<lambda>x. x\<lparr>prev := v\<rparr>)"

definition next_of :: "bio \<Rightarrow> nat \<Rightarrow> nat" where "next_of s b = nxt (bufs s b)"
definition prev_of :: "bio \<Rightarrow> nat \<Rightarrow> nat" where "prev_of s b = prev (bufs s b)"

text \<open>Insertion at the head of the list, which \<open>binit\<close> and \<open>brelse\<close> share.\<close>

definition link_front :: "nat \<Rightarrow> bio \<Rightarrow> bio" where
  "link_front b s =
     (let s = set_next b (next_of s NBUF) s;
          s = set_prev b NBUF s;
          s = set_prev (next_of s NBUF) b s
      in set_next NBUF b s)"

fun binit_loop :: "nat \<Rightarrow> bio \<Rightarrow> bio" where
  "binit_loop 0 s = s"
| "binit_loop (Suc n) s = (let b = NBUF - Suc n in binit_loop n (link_front b (initsleeplock b s)))"

definition binit :: "bio \<Rightarrow> bio" where
  "binit s = binit_loop NBUF (set_next NBUF NBUF (set_prev NBUF NBUF s))"

partial_function (option) find_cached :: "bio \<Rightarrow> nat \<Rightarrow> nat \<Rightarrow> nat \<Rightarrow> nat option" where
  "find_cached s d n b =
     (if b = NBUF then Some NBUF
      else if dev (bufs s b) = d \<and> blockno (bufs s b) = n then Some b
      else find_cached s d n (next_of s b))"

partial_function (option) find_unused :: "bio \<Rightarrow> nat \<Rightarrow> nat option" where
  "find_unused s b =
     (if b = NBUF then Some NBUF
      else if refcnt (bufs s b) = 0 then Some b
      else find_unused s (prev_of s b))"

definition bget :: "nat \<Rightarrow> nat \<Rightarrow> bio \<Rightarrow> (bio, nat) outcome" where
  "bget d n s =
     oloop (find_cached s d n (next_of s NBUF)) (\<lambda>b.
       if b \<noteq> NBUF then
         (let s = upd_buf b (\<lambda>x. x\<lparr>refcnt := refcnt x + 1\<rparr>) s
          in obind (acquiresleep b s) (\<lambda>_ s. Ret b s))
       else oloop (find_unused s (prev_of s NBUF)) (\<lambda>b.
         if b \<noteq> NBUF then
           (let s = upd_buf b (\<lambda>x. x\<lparr>dev := d, blockno := n, valid := False, refcnt := 1\<rparr>) s
            in obind (acquiresleep b s) (\<lambda>_ s. Ret b s))
         else Panic ''bget: no buffers''))"

definition virtio_disk_rw :: "nat \<Rightarrow> bool \<Rightarrow> bio \<Rightarrow> bio" where
  "virtio_disk_rw b write s =
     (let n = blockno (bufs s b)
      in if write
         then s\<lparr>disk := (disk s)(n := data (bufs s b)), dtrace := dtrace s @ [(n, data (bufs s b))]\<rparr>
         else upd_buf b (\<lambda>x. x\<lparr>data := disk s n\<rparr>) s)"

definition bread :: "nat \<Rightarrow> nat \<Rightarrow> bio \<Rightarrow> (bio, nat) outcome" where
  "bread d n s =
     obind (bget d n s) (\<lambda>b s.
       if \<not> valid (bufs s b)
       then Ret b (upd_buf b (\<lambda>x. x\<lparr>valid := True\<rparr>) (virtio_disk_rw b False s))
       else Ret b s)"

definition bwrite :: "nat \<Rightarrow> bio \<Rightarrow> (bio, unit) outcome" where
  "bwrite b s =
     (if \<not> holdingsleep b s then Panic ''bwrite'' else Ret () (virtio_disk_rw b True s))"

definition brelse :: "nat \<Rightarrow> bio \<Rightarrow> (bio, unit) outcome" where
  "brelse b s =
     (if \<not> holdingsleep b s then Panic ''brelse''
      else
        let s = releasesleep b s;
            s = upd_buf b (\<lambda>x. x\<lparr>refcnt := refcnt x - 1\<rparr>) s
        in if refcnt (bufs s b) = 0
           then let s = set_prev (next_of s b) (prev_of s b) s;
                    s = set_next (prev_of s b) (next_of s b) s
                in Ret () (link_front b s)
           else Ret () s)"

definition bpin :: "nat \<Rightarrow> bio \<Rightarrow> bio" where
  "bpin b = upd_buf b (\<lambda>x. x\<lparr>refcnt := refcnt x + 1\<rparr>)"

definition bunpin :: "nat \<Rightarrow> bio \<Rightarrow> bio" where
  "bunpin b = upd_buf b (\<lambda>x. x\<lparr>refcnt := refcnt x - 1\<rparr>)"

section \<open>The list\<close>

definition links :: "bio \<Rightarrow> nat list \<Rightarrow> bool" where
  "links s = successively (\<lambda>x y. next_of s x = y \<and> prev_of s y = x)"

text \<open>\<open>ring s ord\<close>: the buffers in the order \<open>ord\<close>, most recently used first, closed into a ring by the head.\<close>

definition ring :: "bio \<Rightarrow> nat list \<Rightarrow> bool" where
  "ring s ord \<longleftrightarrow> links s (NBUF # ord @ [NBUF]) \<and> distinct ord \<and> NBUF \<notin> set ord"

named_theorems bio_simps

lemma link_fields [bio_simps]:
  "next_of (set_next b v s) x = (if x = b then v else next_of s x)"
  "next_of (set_prev b v s) x = next_of s x"
  "prev_of (set_prev b v s) x = (if x = b then v else prev_of s x)"
  "prev_of (set_next b v s) x = prev_of s x"
  by (simp_all add: next_of_def prev_of_def set_next_def set_prev_def upd_buf_def)

lemma links_simps [simp]:
  "links s []" "links s [x]"
  "links s (x # y # zs) \<longleftrightarrow> next_of s x = y \<and> prev_of s y = x \<and> links s (y # zs)"
  by (simp_all add: links_def)

lemma links_append:
  "links s (xs @ ys) \<longleftrightarrow> links s xs \<and> links s ys
     \<and> (xs = [] \<or> ys = [] \<or> next_of s (last xs) = hd ys \<and> prev_of s (hd ys) = last xs)"
  by (auto simp: links_def successively_append_iff)

lemma links_cong:
  "(\<And>x. x \<in> set (butlast xs) \<Longrightarrow> next_of t x = next_of s x) \<Longrightarrow>
   (\<And>x. x \<in> set (tl xs) \<Longrightarrow> prev_of t x = prev_of s x) \<Longrightarrow> links t xs = links s xs"
  by (induction xs rule: induct_list012) auto

lemma link_front_ring:
  assumes "ring s ord" "b \<notin> set ord" "b \<noteq> NBUF"
  shows "ring (link_front b s) (b # ord)"
proof (cases ord)
  case Nil
  then show ?thesis
    using assms by (simp add: ring_def link_front_def Let_def bio_simps)
next
  case (Cons x xs)
  have "links (link_front b s) (x # xs @ [NBUF]) = links s (x # xs @ [NBUF])"
    using assms by (intro links_cong) (auto simp: link_front_def Let_def bio_simps ring_def Cons butlast_append)
  then show ?thesis
    using assms by (simp add: ring_def link_front_def Let_def bio_simps Cons)
qed

lemma unlink_ring:
  assumes "ring s (xs @ b # ys)"
  shows "ring (set_next (prev_of s b) (next_of s b) (set_prev (next_of s b) (prev_of s b) s)) (xs @ ys)"
proof -
  let ?t = "set_next (prev_of s b) (next_of s b) (set_prev (next_of s b) (prev_of s b) s)"
  have p: "prev_of s b = last (NBUF # xs)" "next_of s b = hd (ys @ [NBUF])"
    and l: "links s (NBUF # xs)" "links s (ys @ [NBUF])" and d: "distinct (NBUF # xs @ b # ys)"
    using assms links_append [of s "NBUF # xs" "b # ys @ [NBUF]"] links_append [of s "[b]" "ys @ [NBUF]"]
    by (simp_all add: ring_def)
  have "last (NBUF # xs) \<notin> set (butlast (NBUF # xs))" "last (NBUF # xs) \<notin> set (butlast (ys @ [NBUF]))"
    "hd (ys @ [NBUF]) \<notin> set (tl (NBUF # xs))" "hd (ys @ [NBUF]) \<notin> set (tl (ys @ [NBUF]))"
    using d by (cases xs rule: rev_cases; cases ys; auto)+
  then have "links ?t (NBUF # xs) = links s (NBUF # xs)" "links ?t (ys @ [NBUF]) = links s (ys @ [NBUF])"
    unfolding p by (auto intro!: links_cong simp only: bio_simps split: if_splits)
  moreover have "next_of ?t (last (NBUF # xs)) = hd (ys @ [NBUF])" "prev_of ?t (hd (ys @ [NBUF])) = last (NBUF # xs)"
    by (simp_all add: p bio_simps)
  ultimately have "links ?t ((NBUF # xs) @ (ys @ [NBUF]))"
    using l unfolding links_append by simp
  then show ?thesis using d by (simp add: ring_def)
qed

lemma find_cached_ring:
  assumes "links s (xs @ [NBUF])" "NBUF \<notin> set xs"
  shows "find_cached s d n (hd (xs @ [NBUF])) =
    Some (case find (\<lambda>b. dev (bufs s b) = d \<and> blockno (bufs s b) = n) xs of None \<Rightarrow> NBUF | Some b \<Rightarrow> b)"
  using assms
proof (induction xs)
  case Nil
  then show ?case by (simp add: find_cached.simps)
next
  case (Cons x xs)
  have "next_of s x = hd (xs @ [NBUF])" "links s (xs @ [NBUF])"
    using Cons.prems links_append [of s "[x]" "xs @ [NBUF]"] by auto
  then show ?case using Cons.IH Cons.prems(2) by (subst find_cached.simps) simp
qed

lemma find_unused_ring:
  assumes "links s (NBUF # xs)" "NBUF \<notin> set xs"
  shows "find_unused s (last (NBUF # xs)) =
    Some (case find (\<lambda>b. refcnt (bufs s b) = 0) (rev xs) of None \<Rightarrow> NBUF | Some b \<Rightarrow> b)"
  using assms
proof (induction xs rule: rev_induct)
  case Nil
  then show ?case by (simp add: find_unused.simps)
next
  case (snoc x xs)
  have "prev_of s x = last (NBUF # xs)" "links s (NBUF # xs)"
    using snoc.prems links_append [of s "NBUF # xs" "[x]"] by auto
  then show ?case using snoc.IH snoc.prems(2) by (subst find_unused.simps) simp
qed

section \<open>Abstraction\<close>

text \<open>The buffer that caches a block of the root device, and the four things a client can observe
  of a block: its contents, the contents on disk, its reference count and whether it is locked.\<close>

definition ROOTDEV :: nat where "ROOTDEV = 1"

definition slot :: "bio \<Rightarrow> nat \<Rightarrow> nat option" where
  "slot s n = find (\<lambda>i. dev (bufs s i) = ROOTDEV \<and> blockno (bufs s i) = n) [0..<NBUF]"

definition view :: "bio \<Rightarrow> nat \<Rightarrow> block" where
  "view s n = (case slot s n of
     Some i \<Rightarrow> if valid (bufs s i) then data (bufs s i) else disk s n | None \<Rightarrow> disk s n)"

definition pins :: "bio \<Rightarrow> nat \<Rightarrow> nat" where
  "pins s n = (case slot s n of Some i \<Rightarrow> refcnt (bufs s i) | None \<Rightarrow> 0)"

definition held :: "bio \<Rightarrow> nat \<Rightarrow> bool" where
  "held s n = (case slot s n of Some i \<Rightarrow> locked (block_lock (bufs s i)) | None \<Rightarrow> False)"

text \<open>What a locked buffer in the hands of the current process is.\<close>

definition handle :: "bio \<Rightarrow> nat \<Rightarrow> nat \<Rightarrow> bool" where
  "handle s b n \<longleftrightarrow> b < NBUF \<and> dev (bufs s b) = ROOTDEV \<and> blockno (bufs s b) = n
     \<and> valid (bufs s b) \<and> holdingsleep b s"

definition buf_ok :: "bio \<Rightarrow> nat \<Rightarrow> bool" where
  "buf_ok s i \<longleftrightarrow>
     (if refcnt (bufs s i) = 0
      then \<not> locked (block_lock (bufs s i))
        \<and> (valid (bufs s i) \<longrightarrow> dev (bufs s i) = ROOTDEV \<and> data (bufs s i) = disk s (blockno (bufs s i)))
      else dev (bufs s i) = ROOTDEV)"

definition bio_ok :: "bio \<Rightarrow> bool" where
  "bio_ok s \<longleftrightarrow> (\<exists>ord. ring s ord \<and> set ord = {..<NBUF}) \<and> (\<forall>i<NBUF. buf_ok s i)
     \<and> (\<forall>i<NBUF. \<forall>j<NBUF. dev (bufs s i) = ROOTDEV \<longrightarrow> dev (bufs s j) = ROOTDEV \<longrightarrow>
          blockno (bufs s i) = blockno (bufs s j) \<longrightarrow> i = j)"

lemma slot_Some:
  assumes "bio_ok s"
  shows "slot s n = Some i \<longleftrightarrow> i < NBUF \<and> dev (bufs s i) = ROOTDEV \<and> blockno (bufs s i) = n"
proof
  assume "slot s n = Some i"
  then show "i < NBUF \<and> dev (bufs s i) = ROOTDEV \<and> blockno (bufs s i) = n"
    by (auto simp: slot_def find_Some_iff)
next
  assume i: "i < NBUF \<and> dev (bufs s i) = ROOTDEV \<and> blockno (bufs s i) = n"
  then obtain j where j: "slot s n = Some j"
    by (cases "slot s n") (auto simp: slot_def find_None_iff)
  then have "j < NBUF \<and> dev (bufs s j) = ROOTDEV \<and> blockno (bufs s j) = n"
    by (auto simp: slot_def find_Some_iff)
  then have "j = i" using i assms by (auto simp: bio_ok_def)
  then show "slot s n = Some i" using j by simp
qed

lemma slot_None:
  "slot s n = None \<longleftrightarrow> (\<forall>i<NBUF. \<not> (dev (bufs s i) = ROOTDEV \<and> blockno (bufs s i) = n))"
  by (auto simp: slot_def find_None_iff)

lemma slot_cong:
  "(\<And>i. i < NBUF \<Longrightarrow> dev (bufs t i) = dev (bufs s i) \<and> blockno (bufs t i) = blockno (bufs s i)) \<Longrightarrow>
   slot t n = slot s n"
  unfolding slot_def by (rule find_cong) auto

text \<open>Operations that change one buffer, keeping its block and its links.\<close>

lemma upd_same:
  assumes "bio_ok s" "\<And>x. dev (f x) = dev x \<and> blockno (f x) = blockno x \<and> prev (f x) = prev x \<and> nxt (f x) = nxt x"
    and "i < NBUF" "buf_ok (upd_buf i f s) i"
  shows "bio_ok (upd_buf i f s)" "slot (upd_buf i f s) n = slot s n"
proof -
  have lk: "next_of (upd_buf i f s) b = next_of s b" "prev_of (upd_buf i f s) b = prev_of s b" for b
    using assms(2) by (simp_all add: next_of_def prev_of_def upd_buf_def)
  have "links (upd_buf i f s) xs = links s xs" for xs
    by (rule links_cong) (simp_all add: lk)
  then have "ring (upd_buf i f s) ord = ring s ord" for ord
    by (simp add: ring_def)
  moreover have "buf_ok (upd_buf i f s) j" if "j < NBUF" for j
    using assms that by (cases "j = i") (auto simp: bio_ok_def buf_ok_def upd_buf_def)
  ultimately show "bio_ok (upd_buf i f s)"
    using assms(1,2) unfolding bio_ok_def by (auto simp: upd_buf_def)
  show "slot (upd_buf i f s) n = slot s n"
    by (rule slot_cong) (simp add: upd_buf_def assms(2))
qed

lemma upd_recycle:
  assumes "bio_ok s" "slot s n = None" "i < NBUF"
    and "\<And>x. dev (f x) = ROOTDEV \<and> blockno (f x) = n \<and> prev (f x) = prev x \<and> nxt (f x) = nxt x"
    and "buf_ok (upd_buf i f s) i"
  shows "bio_ok (upd_buf i f s)"
    "slot (upd_buf i f s) m = (if m = n then Some i else if slot s m = Some i then None else slot s m)"
proof -
  let ?t = "upd_buf i f s"
  have lk: "next_of ?t b = next_of s b" "prev_of ?t b = prev_of s b" for b
    using assms(4) by (simp_all add: next_of_def prev_of_def upd_buf_def)
  have "links ?t xs = links s xs" for xs
    by (rule links_cong) (simp_all add: lk)
  then have "ring ?t ord = ring s ord" for ord
    by (simp add: ring_def)
  moreover have "buf_ok ?t j" if "j < NBUF" for j
    using assms that by (cases "j = i") (auto simp: bio_ok_def buf_ok_def upd_buf_def)
  ultimately show ok: "bio_ok ?t"
    using assms unfolding bio_ok_def slot_None by (auto simp: upd_buf_def)
  have iff: "slot ?t m = Some j \<longleftrightarrow> (if j = i then m = n else slot s m = Some j)" for j
    using assms(3,4) slot_Some [OF ok, of m j] slot_Some [OF assms(1), of m j]
    by (auto simp: upd_buf_def)
  show "slot ?t m = (if m = n then Some i else if slot s m = Some i then None else slot s m)"
  proof (cases "slot ?t m")
    case None
    show ?thesis
    proof (cases "slot s m")
      case (Some a)
      then show ?thesis using None iff [of a] iff [of i] by (auto split: if_splits)
    qed (use None iff [of i] in auto)
  next
    case (Some j)
    then show ?thesis using iff [of j] assms(2) by (auto split: if_splits)
  qed
qed

lemma upd_fields [bio_simps]:
  "bufs (upd_buf i f s) j = (if j = i then f (bufs s i) else bufs s j)"
  "disk (upd_buf i f s) = disk s" "dtrace (upd_buf i f s) = dtrace s" "mypid (upd_buf i f s) = mypid s"
  by (simp_all add: upd_buf_def)

text \<open>What is observed after a change of one buffer that does not move it to another block.\<close>

lemma obs_same:
  assumes "\<And>m. slot (upd_buf i f s) m = slot s m"
  shows "view (upd_buf i f s) m = (if slot s m = Some i
      then (if valid (f (bufs s i)) then data (f (bufs s i)) else disk s m) else view s m)"
    "pins (upd_buf i f s) m = (if slot s m = Some i then refcnt (f (bufs s i)) else pins s m)"
    "held (upd_buf i f s) m = (if slot s m = Some i then locked (block_lock (f (bufs s i))) else held s m)"
  using assms by (cases "slot s m"; simp add: view_def pins_def held_def bio_simps)+

lemma upd_upd: "upd_buf i f (upd_buf i g s) = upd_buf i (\<lambda>x. f (g x)) s"
  by (simp add: upd_buf_def)

text \<open>The state in which \<open>bread\<close> returns.\<close>

definition got :: "bio \<Rightarrow> nat \<Rightarrow> nat \<Rightarrow> bio \<Rightarrow> bool" where
  "got s n b s' \<longleftrightarrow> bio_ok s' \<and> handle s' b n \<and> view s' = view s \<and> disk s' = disk s \<and> dtrace s' = dtrace s
     \<and> mypid s' = mypid s \<and> pins s' = (pins s)(n := pins s n + 1) \<and> held s' = (held s)(n := True)
     \<and> (\<forall>c m. handle s c m \<longrightarrow> c \<noteq> b \<and> handle s' c m)"

lemma find_cached_slot:
  assumes "bio_ok s"
  shows "find_cached s ROOTDEV n (next_of s NBUF) = Some (case slot s n of None \<Rightarrow> NBUF | Some i \<Rightarrow> i)"
proof -
  obtain ord where ord: "ring s ord" "set ord = {..<NBUF}" using assms by (auto simp: bio_ok_def)
  then have l: "links s (ord @ [NBUF])" "next_of s NBUF = hd (ord @ [NBUF])" "NBUF \<notin> set ord"
    using links_append [of s "[NBUF]" "ord @ [NBUF]"] by (auto simp: ring_def)
  let ?P = "\<lambda>b. dev (bufs s b) = ROOTDEV \<and> blockno (bufs s b) = n"
  have "find ?P ord = slot s n"
  proof (cases "find ?P ord")
    case None
    then have "slot s n = None" using ord(2) by (auto simp: find_None_iff slot_None)
    then show ?thesis using None by simp
  next
    case (Some i)
    then have "i < NBUF \<and> ?P i" using ord(2) find_SomeD by fastforce
    then show ?thesis using Some slot_Some [OF assms, of n i] by simp
  qed
  then show ?thesis using find_cached_ring [OF l(1,3)] l(2) by simp
qed

lemma find_unused_free:
  assumes "bio_ok s" "i < NBUF" "refcnt (bufs s i) = 0"
  shows "\<exists>b. find_unused s (prev_of s NBUF) = Some b \<and> b < NBUF \<and> refcnt (bufs s b) = 0"
proof -
  obtain ord where ord: "ring s ord" "set ord = {..<NBUF}" using assms by (auto simp: bio_ok_def)
  then have l: "links s (NBUF # ord)" "prev_of s NBUF = last (NBUF # ord)" "NBUF \<notin> set ord"
    using links_append [of s "NBUF # ord" "[NBUF]"] by (auto simp: ring_def)
  obtain b where b: "find (\<lambda>b. refcnt (bufs s b) = 0) (rev ord) = Some b"
    using ord(2) assms(2,3) by (cases "find (\<lambda>b. refcnt (bufs s b) = 0) (rev ord)") (auto simp: find_None_iff)
  then have "b \<in> set (rev ord) \<and> refcnt (bufs s b) = 0"
    by (rule find_SomeD)
  then show ?thesis using find_unused_ring [OF l(1,3)] l(2) b ord(2) by auto
qed

lemma bread_cached:
  assumes "bio_ok s" "slot s n = Some b" "\<not> held s n"
  shows "\<exists>s'. bread ROOTDEV n s = Ret b s' \<and> got s n b s'"
proof -
  have b: "b < NBUF" "dev (bufs s b) = ROOTDEV" "blockno (bufs s b) = n" "\<not> locked (block_lock (bufs s b))"
    using assms(2,3) slot_Some [OF assms(1), of n b] by (simp_all add: held_def)
  define F where "F = (\<lambda>x :: buf. x\<lparr>refcnt := refcnt x + 1, block_lock := \<lparr>locked = True, lpid = mypid s\<rparr>,
      valid := True, data := (if valid x then data x else disk s n)\<rparr>)"
  have ok: "buf_ok (upd_buf b F s) b" using b by (simp add: buf_ok_def upd_buf_def F_def)
  have F: "dev (F x) = dev x \<and> blockno (F x) = blockno x \<and> prev (F x) = prev x \<and> nxt (F x) = nxt x" for x
    by (simp add: F_def)
  note U = upd_same [OF assms(1) F b(1) ok]
  have run: "bread ROOTDEV n s = Ret b (upd_buf b F s)"
    using b find_cached_slot [OF assms(1), of n] assms(2)
    by (auto simp: bread_def bget_def acquiresleep_def Let_def upd_buf_def virtio_disk_rw_def F_def
        intro!: arg_cong [of _ _ "\<lambda>f. s\<lparr>bufs := f\<rparr>"] ext)
  have sl: "slot s m = Some b \<longleftrightarrow> m = n" for m using b slot_Some [OF assms(1), of m b] by auto
  have obs: "view (upd_buf b F s) m = view s m \<and> pins (upd_buf b F s) m = ((pins s)(n := pins s n + 1)) m
      \<and> held (upd_buf b F s) m = ((held s)(n := True)) m" for m
  proof (cases "m = n")
    case True
    then show ?thesis
      unfolding obs_same [OF U(2)] using assms(2) True by (simp add: F_def view_def pins_def)
  next
    case False
    then have "slot s m \<noteq> Some b" using sl by blast
    then show ?thesis
      unfolding obs_same [OF U(2)] using False by simp
  qed
  have "view (upd_buf b F s) = view s" "pins (upd_buf b F s) = (pins s)(n := pins s n + 1)"
    "held (upd_buf b F s) = (held s)(n := True)" by (rule ext, use obs in blast)+
  then show ?thesis
    using run U(1) b by (auto simp: got_def handle_def holdingsleep_def upd_buf_def F_def)
qed

lemma bread_miss:
  assumes "bio_ok s" "slot s n = None" "i < NBUF" "refcnt (bufs s i) = 0"
  shows "\<exists>b s'. bread ROOTDEV n s = Ret b s' \<and> got s n b s'"
proof -
  obtain b where b: "find_unused s (prev_of s NBUF) = Some b" "b < NBUF" "refcnt (bufs s b) = 0"
    using find_unused_free [OF assms(1,3,4)] by blast
  have ul: "\<not> locked (block_lock (bufs s b))" "valid (bufs s b) \<longrightarrow> data (bufs s b) = disk s (blockno (bufs s b))"
    using assms(1) b by (auto simp: bio_ok_def buf_ok_def split: if_splits)
  define F where "F = (\<lambda>x :: buf. x\<lparr>dev := ROOTDEV, blockno := n, refcnt := 1,
      block_lock := \<lparr>locked = True, lpid = mypid s\<rparr>, data := disk s n, valid := True\<rparr>)"
  have ok: "buf_ok (upd_buf b F s) b" by (simp add: buf_ok_def upd_buf_def F_def)
  have F: "dev (F x) = ROOTDEV \<and> blockno (F x) = n \<and> prev (F x) = prev x \<and> nxt (F x) = nxt x" for x
    by (simp add: F_def)
  note U = upd_recycle [OF assms(1,2) b(2) F ok]
  have run: "bread ROOTDEV n s = Ret b (upd_buf b F s)"
    using b ul find_cached_slot [OF assms(1), of n] assms(2)
    by (auto simp: bread_def bget_def acquiresleep_def Let_def upd_buf_def virtio_disk_rw_def F_def)
  have old: "slot s m = Some b \<Longrightarrow> view s m = disk s m \<and> pins s m = 0 \<and> \<not> held s m" for m
    using ul b(3) slot_Some [OF assms(1), of m b] by (simp add: view_def pins_def held_def)
  have obs: "view (upd_buf b F s) m = view s m \<and> pins (upd_buf b F s) m = ((pins s)(n := pins s n + 1)) m
      \<and> held (upd_buf b F s) m = ((held s)(n := True)) m" for m
  proof -
    have Ff: "valid (F x)" "data (F x) = disk s n" "refcnt (F x) = 1" "locked (block_lock (F x))" for x
      by (simp_all add: F_def)
    show ?thesis
      using assms(2) old [of m]
      by (cases "slot s m") (auto simp: view_def pins_def held_def U(2) bio_simps Ff)
  qed
  have "view (upd_buf b F s) = view s" "pins (upd_buf b F s) = (pins s)(n := pins s n + 1)"
    "held (upd_buf b F s) = (held s)(n := True)" by (rule ext, use obs in blast)+
  then show ?thesis
    using run U(1) b ul(1) by (auto simp: got_def handle_def holdingsleep_def upd_buf_def F_def)
qed

lemma free_buffer:
  assumes "bio_ok s" "card {m. 0 < pins s m} < NBUF"
  shows "\<exists>i<NBUF. refcnt (bufs s i) = 0"
proof (rule ccontr)
  assume "\<not> (\<exists>i<NBUF. refcnt (bufs s i) = 0)"
  then have rc: "\<And>i. i < NBUF \<Longrightarrow> 0 < refcnt (bufs s i)" by auto
  then have dv: "\<And>i. i < NBUF \<Longrightarrow> dev (bufs s i) = ROOTDEV"
    using assms(1) by (auto simp: bio_ok_def buf_ok_def split: if_splits)
  let ?f = "\<lambda>i. blockno (bufs s i)"
  have inj: "inj_on ?f {..<NBUF}"
    using assms(1) dv unfolding bio_ok_def by (intro inj_onI) (metis lessThan_iff)
  have "{m. 0 < pins s m} = ?f ` {..<NBUF}"
  proof
    show "{m. 0 < pins s m} \<subseteq> ?f ` {..<NBUF}"
    proof
      fix m assume "m \<in> {m. 0 < pins s m}"
      then obtain i where "slot s m = Some i" by (auto simp: pins_def split: option.splits)
      then show "m \<in> ?f ` {..<NBUF}" using slot_Some [OF assms(1), of m i] by auto
    qed
    show "?f ` {..<NBUF} \<subseteq> {m. 0 < pins s m}"
    proof
      fix m assume "m \<in> ?f ` {..<NBUF}"
      then obtain i where "i < NBUF" "m = ?f i" by auto
      then have "slot s m = Some i" using slot_Some [OF assms(1), of m i] dv by simp
      then show "m \<in> {m. 0 < pins s m}" using rc \<open>i < NBUF\<close> by (simp add: pins_def)
    qed
  qed
  then have "card {m. 0 < pins s m} = NBUF" using card_image [OF inj] by simp
  then show False using assms(2) by simp
qed

lemma bread_law:
  assumes "bio_ok s" "\<not> held s n" "card {m. 0 < pins s m} < NBUF \<or> 0 < pins s n"
  shows "\<exists>b s'. bread ROOTDEV n s = Ret b s' \<and> got s n b s'"
proof (cases "slot s n")
  case None
  then have "card {m. 0 < pins s m} < NBUF" using assms(3) by (simp add: pins_def)
  then show ?thesis using free_buffer [OF assms(1)] bread_miss [OF assms(1) None] by blast
next
  case (Some i)
  then show ?thesis using bread_cached [OF assms(1) Some assms(2)] by blast
qed

lemma handle_slot: "bio_ok s \<Longrightarrow> handle s b n \<Longrightarrow> slot s m = Some b \<longleftrightarrow> m = n"
  using slot_Some [of s m b] by (auto simp: handle_def)

lemma handle_ref: "bio_ok s \<Longrightarrow> handle s b n \<Longrightarrow> 0 < refcnt (bufs s b)"
  by (auto simp: bio_ok_def handle_def holdingsleep_def buf_ok_def split: if_splits)

lemma handle_view: "bio_ok s \<Longrightarrow> handle s b n \<Longrightarrow> view s n = data (bufs s b) \<and> pins s n = refcnt (bufs s b) \<and> held s n"
  using handle_slot [of s b n n] by (simp add: view_def pins_def held_def handle_def holdingsleep_def)

lemma set_data_law:
  assumes "bio_ok s" "handle s b n" "s' = upd_buf b (\<lambda>x. x\<lparr>data := v\<rparr>) s"
  shows "bio_ok s' \<and> view s' = (view s)(n := v) \<and> pins s' = pins s \<and> held s' = held s
    \<and> disk s' = disk s \<and> dtrace s' = dtrace s \<and> mypid s' = mypid s \<and> (\<forall>c m. handle s c m \<longrightarrow> handle s' c m)"
proof -
  have b: "b < NBUF" "0 < refcnt (bufs s b)" using assms handle_ref by (auto simp: handle_def)
  have ok: "buf_ok s' b" using assms b by (auto simp: bio_ok_def buf_ok_def bio_simps split: if_splits)
  note U = upd_same [OF assms(1) _ b(1) ok [unfolded assms(3)]]
  have obs: "view s' m = ((view s)(n := v)) m \<and> pins s' m = pins s m \<and> held s' m = held s m" for m
    unfolding assms(3)
    using handle_slot [OF assms(1,2), of m] handle_view [OF assms(1,2)] assms(2)
    by (subst obs_same, simp add: U(2))+ (auto simp: handle_def holdingsleep_def)
  have "view s' = (view s)(n := v)" "pins s' = pins s" "held s' = held s"
    by (rule ext, use obs in blast)+
  then show ?thesis
    using U(1) by (auto simp: assms(3) bio_simps handle_def holdingsleep_def)
qed

lemma bwrite_law:
  assumes "bio_ok s" "handle s b n"
  shows "\<exists>s'. bwrite b s = Ret () s' \<and> bio_ok s' \<and> view s' = view s \<and> pins s' = pins s \<and> held s' = held s
    \<and> disk s' = (disk s)(n := view s n) \<and> dtrace s' = dtrace s @ [(n, view s n)] \<and> mypid s' = mypid s
    \<and> (\<forall>c m. handle s c m \<longrightarrow> handle s' c m)"
proof -
  note hv = handle_view [OF assms] and hs = handle_slot [OF assms]
  define s' where "s' = s\<lparr>disk := (disk s)(n := view s n), dtrace := dtrace s @ [(n, view s n)]\<rparr>"
  have run: "bwrite b s = Ret () s'"
    using assms(2) hv by (simp add: bwrite_def handle_def virtio_disk_rw_def Let_def s'_def)
  have sl: "slot s' m = slot s m" for m by (rule slot_cong) (simp add: s'_def)
  have "links s' xs = links s xs" for xs
    by (rule links_cong) (simp_all add: next_of_def prev_of_def s'_def)
  then have rg: "ring s' ord = ring s ord" for ord by (simp add: ring_def)
  have "buf_ok s' i" if i: "i < NBUF" for i
  proof -
    have "buf_ok s i" using assms(1) i by (simp add: bio_ok_def)
    moreover have "slot s n = Some i" if "dev (bufs s i) = ROOTDEV" "blockno (bufs s i) = n"
      using slot_Some [OF assms(1), of n i] that i by simp
    then have "i = b" if "dev (bufs s i) = ROOTDEV" "blockno (bufs s i) = n"
      using that hs [of n] by simp
    ultimately show ?thesis using handle_ref [OF assms] by (auto simp: buf_ok_def s'_def)
  qed
  moreover have bsf: "bufs s' = bufs s" "disk s' = (disk s)(n := view s n)" by (simp_all add: s'_def)
  ultimately have ok: "bio_ok s'" using assms(1) by (simp add: bio_ok_def rg)
  have obs: "view s' m = view s m \<and> pins s' m = pins s m \<and> held s' m = held s m" for m
  proof (cases "m = n")
    case True
    then show ?thesis using hs [of n] assms(2) by (simp add: view_def pins_def held_def sl bsf handle_def)
  next
    case False
    then show ?thesis by (cases "slot s m") (simp_all add: view_def pins_def held_def sl bsf(1) bsf(2))
  qed
  have "view s' = view s" "pins s' = pins s" "held s' = held s"
    by (rule ext, use obs in blast)+
  then show ?thesis using run ok by (auto simp: s'_def handle_def holdingsleep_def)
qed

text \<open>Relinking changes nothing else.\<close>

definition relinked :: "bio \<Rightarrow> bio \<Rightarrow> bool" where
  "relinked s t \<longleftrightarrow> disk t = disk s \<and> dtrace t = dtrace s \<and> mypid t = mypid s
     \<and> (\<forall>i. dev (bufs t i) = dev (bufs s i) \<and> blockno (bufs t i) = blockno (bufs s i)
          \<and> valid (bufs t i) = valid (bufs s i) \<and> data (bufs t i) = data (bufs s i)
          \<and> refcnt (bufs t i) = refcnt (bufs s i) \<and> block_lock (bufs t i) = block_lock (bufs s i))"

lemma relinked_steps: "relinked s t \<Longrightarrow> relinked s (set_next b v t)" "relinked s t \<Longrightarrow> relinked s (set_prev b v t)"
  "relinked s s"
  by (auto simp: relinked_def set_next_def set_prev_def bio_simps)

lemma relinked_front: "relinked s t \<Longrightarrow> relinked s (link_front b t)"
  by (simp add: link_front_def Let_def relinked_steps)

lemma relinked_obs:
  assumes "relinked s t"
  shows "slot t n = slot s n" "view t = view s" "pins t = pins s" "held t = held s" "buf_ok t i = buf_ok s i"
    "handle t c m = handle s c m"
proof -
  show sl: "slot t n = slot s n" for n using assms by (intro slot_cong) (simp add: relinked_def)
  show "view t = view s" "pins t = pins s" "held t = held s"
    using assms by (auto simp: relinked_def view_def pins_def held_def sl intro!: ext split: option.splits)
  show "buf_ok t i = buf_ok s i" "handle t c m = handle s c m"
    using assms by (simp_all add: relinked_def buf_ok_def handle_def holdingsleep_def)
qed

lemma relinked_ok:
  assumes "relinked s t" "bio_ok s" "ring t ord" "set ord = {..<NBUF}"
  shows "bio_ok t"
  using assms relinked_obs(5) [OF assms(1)] unfolding bio_ok_def relinked_def by auto

lemma brelse_law:
  assumes "bio_ok s" "handle s b n" "pins s n = 1 \<longrightarrow> view s n = disk s n"
  shows "\<exists>s'. brelse b s = Ret () s' \<and> bio_ok s' \<and> view s' = view s \<and> pins s' = (pins s)(n := pins s n - 1)
    \<and> held s' = (held s)(n := False) \<and> disk s' = disk s \<and> dtrace s' = dtrace s \<and> mypid s' = mypid s
    \<and> (\<forall>c m. c \<noteq> b \<longrightarrow> handle s c m \<longrightarrow> handle s' c m)"
proof -
  note hv = handle_view [OF assms(1,2)] and hs = handle_slot [OF assms(1,2)] and hr = handle_ref [OF assms(1,2)]
  have b: "b < NBUF" "holdingsleep b s" "valid (bufs s b)" "dev (bufs s b) = ROOTDEV" "blockno (bufs s b) = n"
    using assms(2) by (auto simp: handle_def)
  define F where "F = (\<lambda>x :: buf. x\<lparr>block_lock := \<lparr>locked = False, lpid = 0\<rparr>, refcnt := refcnt x - 1\<rparr>)"
  define u where "u = upd_buf b F s"
  have Ff: "dev (F x) = dev x \<and> blockno (F x) = blockno x \<and> prev (F x) = prev x \<and> nxt (F x) = nxt x" for x
    by (simp add: F_def)
  have ok: "buf_ok u b" using assms(3) hv hr b by (auto simp: u_def buf_ok_def bio_simps F_def)
  note U = upd_same [OF assms(1) Ff b(1) ok [unfolded u_def]]
  have obs: "view u m = view s m \<and> pins u m = ((pins s)(n := pins s n - 1)) m
      \<and> held u m = ((held s)(n := False)) m" for m
    unfolding u_def obs_same [OF U(2)] using hs [of m] hv b by (auto simp: F_def)
  have "view u = view s" "pins u = (pins s)(n := pins s n - 1)" "held u = (held s)(n := False)"
    by (rule ext, use obs in blast)+
  moreover have "handle u c m" if "c \<noteq> b" "handle s c m" for c m
    using that by (simp add: u_def handle_def holdingsleep_def bio_simps)
  moreover obtain s' where R: "brelse b s = Ret () s'" "bio_ok s'" "relinked u s'"
  proof (cases "refcnt (bufs u b) = 0")
    case False
    then have "brelse b s = Ret () u"
      using b(2) by (simp add: brelse_def releasesleep_def upd_upd Let_def u_def F_def)
    then show ?thesis using that U(1) relinked_steps(3) by (auto simp: u_def)
  next
    case True
    define v where "v = set_next (prev_of u b) (next_of u b) (set_prev (next_of u b) (prev_of u b) u)"
    obtain ord where ord: "ring u ord" "set ord = {..<NBUF}" using U(1) by (auto simp: bio_ok_def u_def)
    then obtain xs ys where xy: "ord = xs @ b # ys" using b(1) by (metis lessThan_iff split_list)
    have d: "b \<notin> set (xs @ ys)" "b \<noteq> NBUF" using ord(1) b(1) by (auto simp: ring_def xy)
    have "ring (link_front b v) (b # xs @ ys)"
      using unlink_ring ord(1) d by (intro link_front_ring) (auto simp: v_def xy)
    moreover have "relinked u (link_front b v)"
      unfolding v_def by (intro relinked_front relinked_steps)
    moreover have "set (b # xs @ ys) = {..<NBUF}" using ord(2) by (auto simp: xy)
    ultimately have "bio_ok (link_front b v)" using relinked_ok U(1) u_def by metis
    moreover have "brelse b s = Ret () (link_front b v)"
    proof -
      have "prev_of (set_prev (next_of u b) (prev_of u b) u) b = prev_of u b"
        "next_of (set_prev (next_of u b) (prev_of u b) u) b = next_of u b"
        using ord(1) by (simp_all add: bio_simps)
      then show ?thesis
        using True b(2) by (simp add: brelse_def releasesleep_def upd_upd Let_def u_def F_def v_def)
    qed
    ultimately show ?thesis using that \<open>relinked u (link_front b v)\<close> by blast
  qed
  moreover have "disk s' = disk s" "dtrace s' = dtrace s" "mypid s' = mypid s"
    using R(3) by (simp_all add: relinked_def u_def bio_simps)
  ultimately show ?thesis using relinked_obs [OF R(3)] by metis
qed

lemma bpin_law:
  assumes "bio_ok s" "handle s b n"
  shows "bio_ok (bpin b s) \<and> view (bpin b s) = view s \<and> pins (bpin b s) = (pins s)(n := pins s n + 1)
    \<and> held (bpin b s) = held s \<and> disk (bpin b s) = disk s \<and> dtrace (bpin b s) = dtrace s
    \<and> mypid (bpin b s) = mypid s \<and> (\<forall>c m. handle s c m \<longrightarrow> handle (bpin b s) c m)"
proof -
  note hv = handle_view [OF assms] and hs = handle_slot [OF assms]
  have b: "b < NBUF" "dev (bufs s b) = ROOTDEV" using assms(2) by (auto simp: handle_def)
  have ok: "buf_ok (bpin b s) b" using b by (simp add: bpin_def buf_ok_def bio_simps)
  note U = upd_same [OF assms(1) _ b(1) ok [unfolded bpin_def]]
  have obs: "view (bpin b s) m = view s m \<and> pins (bpin b s) m = ((pins s)(n := pins s n + 1)) m
      \<and> held (bpin b s) m = held s m" for m
  proof -
    have sl: "slot (upd_buf b (\<lambda>x. x\<lparr>refcnt := refcnt x + 1\<rparr>) s) k = slot s k" for k
      by (rule U(2)) simp
    show ?thesis
      unfolding bpin_def obs_same [OF sl] using hs [of m] hv assms(2)
      by (auto simp: handle_def holdingsleep_def)
  qed
  have "view (bpin b s) = view s" "pins (bpin b s) = (pins s)(n := pins s n + 1)" "held (bpin b s) = held s"
    by (rule ext, use obs in blast)+
  then show ?thesis using U(1) by (auto simp: bpin_def bio_simps handle_def holdingsleep_def)
qed

lemma bunpin_law:
  assumes "bio_ok s" "handle s b n" "1 < pins s n"
  shows "bio_ok (bunpin b s) \<and> view (bunpin b s) = view s \<and> pins (bunpin b s) = (pins s)(n := pins s n - 1)
    \<and> held (bunpin b s) = held s \<and> disk (bunpin b s) = disk s \<and> dtrace (bunpin b s) = dtrace s
    \<and> mypid (bunpin b s) = mypid s \<and> (\<forall>c m. handle s c m \<longrightarrow> handle (bunpin b s) c m)"
proof -
  note hv = handle_view [OF assms(1,2)] and hs = handle_slot [OF assms(1,2)]
  have b: "b < NBUF" "dev (bufs s b) = ROOTDEV" using assms(2) by (auto simp: handle_def)
  have ok: "buf_ok (bunpin b s) b" using b hv assms(3) by (simp add: bunpin_def buf_ok_def bio_simps)
  note U = upd_same [OF assms(1) _ b(1) ok [unfolded bunpin_def]]
  have obs: "view (bunpin b s) m = view s m \<and> pins (bunpin b s) m = ((pins s)(n := pins s n - 1)) m
      \<and> held (bunpin b s) m = held s m" for m
  proof -
    have sl: "slot (upd_buf b (\<lambda>x. x\<lparr>refcnt := refcnt x - 1\<rparr>) s) k = slot s k" for k
      by (rule U(2)) simp
    show ?thesis
      unfolding bunpin_def obs_same [OF sl] using hs [of m] hv assms(2)
      by (auto simp: handle_def holdingsleep_def)
  qed
  have "view (bunpin b s) = view s" "pins (bunpin b s) = (pins s)(n := pins s n - 1)" "held (bunpin b s) = held s"
    by (rule ext, use obs in blast)+
  then show ?thesis using U(1) by (auto simp: bunpin_def bio_simps handle_def holdingsleep_def)
qed

end
