(* ===== verification/Log.thy ===== *)
theory Log
  imports Bio
begin

text \<open>
  The redo log, \<^verbatim>\<open>kernel/log.c\<close>, over the buffer cache. \<open>begin_op\<close> and \<open>end_op\<close> bracket a file system
  call; \<open>log_write\<close> records a modified block; the last \<open>end_op\<close> commits: copy the modified blocks to the
  log, write the header, install the blocks at home, clear the header. The in-memory header is
  \<open>lh_n\<close> and \<open>lh_block\<close>; on disk it is the first block of the log, 32-bit integers little-endian. A process
  that has to wait in \<open>begin_op\<close> is the outcome \<open>Sleep\<close>.

  The lemmas compute the exact sequence of disk writes of a commit and of a recovery; the properties
  are about a power failure between any two of them.
\<close>

section \<open>State and operations\<close>

definition MAXOPBLOCKS :: int where "MAXOPBLOCKS = 10"
definition LOGBLOCKS :: int where "LOGBLOCKS = MAXOPBLOCKS * 3"
definition BSIZE :: nat where "BSIZE = 1024"

record fsys =
  cache :: bio
  lstart :: nat
  outstanding :: int
  committing :: bool
  ldev :: nat
  lh_n :: int
  lh_block :: "nat \<Rightarrow> int"

text \<open>A block number held in an \<open>int\<close>, passed as \<open>uint\<close>.\<close>

definition to_uint :: "int \<Rightarrow> nat" where
  "to_uint i = nat (i mod 2 ^ 32)"

text \<open>Cache operations inside the file system state.\<close>

fun on_cache :: "(bio \<Rightarrow> (bio, 'a) outcome) \<Rightarrow> fsys \<Rightarrow> (fsys, 'a) outcome" where
  "on_cache f s = (case f (cache s) of
      Ret a c \<Rightarrow> Ret a (s\<lparr>cache := c\<rparr>) | Panic e \<Rightarrow> Panic e
    | Sleep ch c \<Rightarrow> Sleep ch (s\<lparr>cache := c\<rparr>) | Diverge \<Rightarrow> Diverge)"

declare on_cache.simps [simp del]

definition copy_data :: "nat \<Rightarrow> nat \<Rightarrow> bio \<Rightarrow> (bio, unit) outcome" where
  "copy_data dst src c = Ret () (upd_buf dst (\<lambda>x. x\<lparr>data := data (bufs c src)\<rparr>) c)"

fun install_loop :: "bool \<Rightarrow> nat \<Rightarrow> nat \<Rightarrow> fsys \<Rightarrow> (fsys, unit) outcome" where
  "install_loop recovering tail 0 s = Ret () s"
| "install_loop recovering tail (Suc k) s =
     obind (on_cache (bread (ldev s) (lstart s + tail + 1)) s) (\<lambda>lbuf s.
     obind (on_cache (bread (ldev s) (to_uint (lh_block s tail))) s) (\<lambda>dbuf s.
     obind (on_cache (copy_data dbuf lbuf) s) (\<lambda>_ s.
     obind (on_cache (bwrite dbuf) s) (\<lambda>_ s.
     obind (on_cache (\<lambda>c. Ret () (if recovering then c else bunpin dbuf c)) s) (\<lambda>_ s.
     obind (on_cache (brelse lbuf) s) (\<lambda>_ s.
     obind (on_cache (brelse dbuf) s) (\<lambda>_ s.
       install_loop recovering (tail + 1) k s)))))))"

definition install_trans :: "bool \<Rightarrow> fsys \<Rightarrow> (fsys, unit) outcome" where
  "install_trans recovering s = install_loop recovering 0 (nat (lh_n s)) s"

definition hdr_n :: "block \<Rightarrow> int" where
  "hdr_n d = sint (load32 d 0)"

definition hdr_block :: "block \<Rightarrow> nat \<Rightarrow> int" where
  "hdr_block d i = sint (load32 d (4 + 4 * i))"

definition read_head :: "fsys \<Rightarrow> (fsys, unit) outcome" where
  "read_head s =
     obind (on_cache (bread (ldev s) (lstart s)) s) (\<lambda>b s.
       (let d = data (bufs (cache s) b);
            s = s\<lparr>lh_n := hdr_n d\<rparr>;
            s = s\<lparr>lh_block := (\<lambda>i. if int i < lh_n s then hdr_block d i else lh_block s i)\<rparr>
        in on_cache (brelse b) s))"

fun put_blocks :: "(nat \<Rightarrow> int) \<Rightarrow> nat \<Rightarrow> block \<Rightarrow> block" where
  "put_blocks blk 0 d = d"
| "put_blocks blk (Suc k) d = store32 (put_blocks blk k d) (4 + 4 * k) (of_int (blk k))"

definition put_head :: "int \<Rightarrow> (nat \<Rightarrow> int) \<Rightarrow> block \<Rightarrow> block" where
  "put_head n blk d = put_blocks blk (nat n) (store32 d 0 (of_int n))"

definition write_head :: "fsys \<Rightarrow> (fsys, unit) outcome" where
  "write_head s =
     obind (on_cache (bread (ldev s) (lstart s)) s) (\<lambda>b s.
     obind (on_cache (\<lambda>c. Ret () (upd_buf b (\<lambda>x. x\<lparr>data := put_head (lh_n s) (lh_block s) (data x)\<rparr>) c)) s) (\<lambda>_ s.
     obind (on_cache (bwrite b) s) (\<lambda>_ s.
       on_cache (brelse b) s)))"

definition recover_from_log :: "fsys \<Rightarrow> (fsys, unit) outcome" where
  "recover_from_log s =
     obind (read_head s) (\<lambda>_ s.
     obind (install_trans True s) (\<lambda>_ s.
       write_head (s\<lparr>lh_n := 0\<rparr>)))"

definition initlog :: "nat \<Rightarrow> nat \<Rightarrow> fsys \<Rightarrow> (fsys, unit) outcome" where
  "initlog d logstart s = recover_from_log (s\<lparr>lstart := logstart, ldev := d\<rparr>)"

text \<open>The log's address is its sleep channel; \<open>LOGCHAN\<close> stands for it.\<close>

definition LOGCHAN :: nat where "LOGCHAN = 1000"

definition begin_op :: "fsys \<Rightarrow> (fsys, unit) outcome" where
  "begin_op s =
     (if committing s then Sleep LOGCHAN s
      else if lh_n s + (outstanding s + 1) * MAXOPBLOCKS > LOGBLOCKS then Sleep LOGCHAN s
      else Ret () (s\<lparr>outstanding := outstanding s + 1\<rparr>))"

fun write_log_loop :: "nat \<Rightarrow> nat \<Rightarrow> fsys \<Rightarrow> (fsys, unit) outcome" where
  "write_log_loop tail 0 s = Ret () s"
| "write_log_loop tail (Suc k) s =
     obind (on_cache (bread (ldev s) (lstart s + tail + 1)) s) (\<lambda>to s.
     obind (on_cache (bread (ldev s) (to_uint (lh_block s tail))) s) (\<lambda>from s.
     obind (on_cache (copy_data to from) s) (\<lambda>_ s.
     obind (on_cache (bwrite to) s) (\<lambda>_ s.
     obind (on_cache (brelse from) s) (\<lambda>_ s.
     obind (on_cache (brelse to) s) (\<lambda>_ s.
       write_log_loop (tail + 1) k s))))))"

definition write_log :: "fsys \<Rightarrow> (fsys, unit) outcome" where
  "write_log s = write_log_loop 0 (nat (lh_n s)) s"

definition commit :: "fsys \<Rightarrow> (fsys, unit) outcome" where
  "commit s =
     (if lh_n s > 0 then
        obind (write_log s) (\<lambda>_ s.
        obind (write_head s) (\<lambda>_ s.
        obind (install_trans False s) (\<lambda>_ s.
          write_head (s\<lparr>lh_n := 0\<rparr>))))
      else Ret () s)"

definition end_op :: "fsys \<Rightarrow> (fsys, unit) outcome" where
  "end_op s =
     (let s = s\<lparr>outstanding := outstanding s - 1\<rparr>
      in if committing s then Panic ''log.committing''
         else if outstanding s = 0
         then obind (commit (s\<lparr>committing := True\<rparr>)) (\<lambda>_ s. Ret () (s\<lparr>committing := False\<rparr>))
         else Ret () s)"

fun find_logged :: "(nat \<Rightarrow> int) \<Rightarrow> nat \<Rightarrow> nat \<Rightarrow> nat \<Rightarrow> nat" where
  "find_logged blk bno i 0 = i"
| "find_logged blk bno i (Suc k) = (if to_uint (blk i) = bno then i else find_logged blk bno (i + 1) k)"

definition log_write :: "nat \<Rightarrow> fsys \<Rightarrow> (fsys, unit) outcome" where
  "log_write b s =
     (if lh_n s \<ge> LOGBLOCKS then Panic ''too big a transaction''
      else if outstanding s < 1 then Panic ''log_write outside of trans''
      else
        let bno = blockno (bufs (cache s) b);
            i = find_logged (lh_block s) bno 0 (nat (lh_n s));
            s = s\<lparr>lh_block := (lh_block s)(i := int bno)\<rparr>
        in if int i = lh_n s
           then Ret () (s\<lparr>cache := bpin b (cache s), lh_n := lh_n s + 1\<rparr>)
           else Ret () s)"

section \<open>The header block\<close>

lemma put_blocks_other: "x < 4 \<or> 4 + 4 * k \<le> x \<Longrightarrow> put_blocks blk k d x = d x"
  by (induction k) (auto simp: mem_simps)

lemma load32_cong: "(\<And>x. a \<le> x \<Longrightarrow> x < a + 4 \<Longrightarrow> d x = e x) \<Longrightarrow> load32 d a = load32 e a"
  unfolding load32_def by (rule arg_cong [of _ _ of_nat], rule ldn_cong) auto

lemma put_blocks_get: "i < k \<Longrightarrow> load32 (put_blocks blk k d) (4 + 4 * i) = of_int (blk i)"
proof (induction k)
  case (Suc k)
  then show ?case by (cases "i = k") (auto simp: mem_simps)
qed simp

lemma sint_of_int32: "- (2 ^ 31) \<le> i \<Longrightarrow> i < 2 ^ 31 \<Longrightarrow> sint (of_int i :: 32 word) = i"
  by (simp add: signed_of_int signed_take_bit_int_eq_self)

lemma put_head_n: "0 \<le> n \<Longrightarrow> n < 2 ^ 31 \<Longrightarrow> hdr_n (put_head n blk d) = n"
proof -
  assume n: "0 \<le> n" "n < 2 ^ 31"
  have "load32 (put_head n blk d) 0 = load32 (store32 d 0 (of_int n)) 0"
    unfolding put_head_def by (rule load32_cong) (simp add: put_blocks_other)
  then show ?thesis using n by (simp add: hdr_n_def mem_simps sint_of_int32)
qed

lemma put_head_block:
  "int i < n \<Longrightarrow> 0 \<le> blk i \<Longrightarrow> blk i < 2 ^ 31 \<Longrightarrow> hdr_block (put_head n blk d) i = blk i"
  by (simp add: hdr_block_def put_head_def put_blocks_get sint_of_int32)

end
