(* ===== verification/Redo_Log.thy ===== *)
theory Redo_Log
  imports Prelude
begin

text \<open>
  Crash safety of a physical redo log, independent of how blocks and headers are encoded. A disk is a
  function from block numbers to blocks; a program's effect on it is the list of its writes, and a power failure
  keeps a prefix of that list. The locale \<open>header_format\<close> fixes what the log needs of the header block: the list of
  home blocks written into it can be read back. Inside it, \<open>logical\<close> is the disk that recovery would produce;
  every prefix of a commit leaves it either as before or fully updated, and every prefix of a recovery keeps it.
\<close>

section \<open>Writes\<close>

fun apply_writes :: "(nat \<times> 'b) list \<Rightarrow> (nat \<Rightarrow> 'b) \<Rightarrow> (nat \<Rightarrow> 'b)" where
  "apply_writes [] d = d"
| "apply_writes ((n, v) # ws) d = apply_writes ws (d(n := v))"

lemma apply_writes_append: "apply_writes (xs @ ys) d = apply_writes ys (apply_writes xs d)"
  by (induction xs arbitrary: d) auto

lemma apply_writes_other: "n \<notin> fst ` set ws \<Longrightarrow> apply_writes ws d n = d n"
  by (induction ws arbitrary: d) auto

lemma apply_writes_in:
  "distinct (map fst ws) \<Longrightarrow> (n, v) \<in> set ws \<Longrightarrow> apply_writes ws d n = v"
proof (induction ws arbitrary: d)
  case (Cons w ws)
  show ?case
  proof (cases "w = (n, v)")
    case True
    then show ?thesis using Cons.prems(1) apply_writes_other [of n ws] by simp
  next
    case False
    then show ?thesis using Cons by (cases w) auto
  qed
qed simp

lemma zip_range_in: "i < length vs \<Longrightarrow> (a + i, vs ! i) \<in> set (zip [a..<a + length vs] vs)"
  unfolding set_zip by (auto intro!: exI [of _ i])

lemma apply_range: "i < length vs \<Longrightarrow> apply_writes (zip [a..<a + length vs] vs) d (a + i) = vs ! i"
  by (rule apply_writes_in) (simp_all add: zip_range_in)

lemma fst_set_zip: "fst ` set (zip xs ys) \<subseteq> set xs"
  by (auto dest: set_zip_leftD)

lemma fst_take_zip: "fst ` set (take k (zip xs ys)) \<subseteq> set xs"
  by (meson fst_set_zip image_mono order_trans set_take_subset)

section \<open>The log\<close>

text \<open>The writes of a commit of the blocks \<open>bl\<close> with contents \<open>vs\<close>, the log starting at block \<open>S\<close> with header \<open>h\<close>;
  and those of a recovery from the disk \<open>d\<close>.\<close>

definition commit_writes :: "(nat list \<Rightarrow> 'b \<Rightarrow> 'b) \<Rightarrow> nat \<Rightarrow> nat list \<Rightarrow> 'b list \<Rightarrow> 'b \<Rightarrow> (nat \<times> 'b) list" where
  "commit_writes put S bl vs h =
     zip [S + 1..<S + 1 + length bl] vs @ [(S, put bl h)] @ zip bl vs @ [(S, put [] (put bl h))]"

definition logged :: "('b \<Rightarrow> nat list) \<Rightarrow> nat \<Rightarrow> (nat \<Rightarrow> 'b) \<Rightarrow> (nat \<times> 'b) list" where
  "logged homes S d = zip (homes (d S)) (map (\<lambda>i. d (S + 1 + i)) [0..<length (homes (d S))])"

definition recovery_writes ::
  "('b \<Rightarrow> nat list) \<Rightarrow> (nat list \<Rightarrow> 'b \<Rightarrow> 'b) \<Rightarrow> nat \<Rightarrow> (nat \<Rightarrow> 'b) \<Rightarrow> (nat \<times> 'b) list" where
  "recovery_writes homes put S d = logged homes S d @ [(S, put [] (d S))]"

definition in_log :: "nat \<Rightarrow> nat \<Rightarrow> nat \<Rightarrow> bool" where
  "in_log S L n \<longleftrightarrow> S \<le> n \<and> n \<le> S + L"

text \<open>A list of home blocks a transaction may have: no block twice, none in the log, no more than fit.\<close>

definition transaction :: "nat \<Rightarrow> nat \<Rightarrow> nat list \<Rightarrow> bool" where
  "transaction S L bl \<longleftrightarrow> distinct bl \<and> length bl \<le> L \<and> (\<forall>n\<in>set bl. \<not> in_log S L n)"

definition logical :: "('b \<Rightarrow> nat list) \<Rightarrow> nat \<Rightarrow> (nat \<Rightarrow> 'b) \<Rightarrow> nat \<Rightarrow> 'b" where
  "logical homes S d = apply_writes (logged homes S d) d"

text \<open>A disk after any number of recoveries that were themselves cut off.\<close>

inductive cut_recoveries ::
  "('b \<Rightarrow> nat list) \<Rightarrow> (nat list \<Rightarrow> 'b \<Rightarrow> 'b) \<Rightarrow> nat \<Rightarrow> (nat \<Rightarrow> 'b) \<Rightarrow> (nat \<Rightarrow> 'b) \<Rightarrow> bool"
  for homes put S d where
  no_cut: "cut_recoveries homes put S d d"
| cut: "cut_recoveries homes put S d e \<Longrightarrow>
    cut_recoveries homes put S d (apply_writes (take k (recovery_writes homes put S e)) e)"

locale header_format =
  fixes homes :: "'b \<Rightarrow> nat list" and put :: "nat list \<Rightarrow> 'b \<Rightarrow> 'b" and fits :: "nat list \<Rightarrow> bool"
  assumes homes_put: "fits bl \<Longrightarrow> homes (put bl h) = bl"
    and fits_Nil: "fits []"
begin

lemma homes_empty: "homes (put [] h) = []"
  using homes_put fits_Nil by simp

text \<open>Equal on all blocks outside the log.\<close>

lemma logged_same:
  assumes "d S = e S" "\<And>i. i < length (homes (d S)) \<Longrightarrow> d (S + 1 + i) = e (S + 1 + i)"
  shows "logged homes S d = logged homes S e"
  unfolding logged_def using assms by (intro arg_cong2 [where f = zip]) (auto simp del: add_Suc)

lemma fst_logged: "fst ` set (logged homes S d) \<subseteq> set (homes (d S))"
  unfolding logged_def by (rule fst_set_zip)

lemma distinct_logged: "distinct (homes (d S)) \<Longrightarrow> distinct (map fst (logged homes S d))"
  by (simp add: logged_def)

text \<open>A write of a value the logical disk already has leaves the logical disk and the log alone.\<close>

lemma install_prefix:
  assumes "transaction S L (homes (d S))"
  shows "logical homes S (apply_writes (take k (logged homes S d)) d) = logical homes S d"
    and "apply_writes (take k (logged homes S d)) d S = d S"
    and "logged homes S (apply_writes (take k (logged homes S d)) d) = logged homes S d"
proof -
  let ?ws = "take k (logged homes S d)" and ?e = "apply_writes (take k (logged homes S d)) d"
  have sub: "fst ` set ?ws \<subseteq> set (homes (d S))"
    unfolding logged_def by (rule fst_take_zip)
  have keep: "?e n = d n" if "in_log S L n" for n
    using that sub assms by (intro apply_writes_other) (auto simp: transaction_def)
  show S: "?e S = d S" by (rule keep) (simp add: in_log_def)
  show lg: "logged homes S ?e = logged homes S d"
  proof (rule logged_same)
    show "?e S = d S" by (rule S)
    fix i assume "i < length (homes (?e S))"
    then show "?e (S + 1 + i) = d (S + 1 + i)"
      using assms S by (intro keep) (auto simp: in_log_def transaction_def)
  qed
  have d: "distinct (map fst (logged homes S d))"
    using assms by (simp add: distinct_logged transaction_def)
  show "logical homes S ?e = logical homes S d"
  proof
    fix n show "logical homes S ?e n = logical homes S d n"
    proof (cases "n \<in> fst ` set (logged homes S d)")
      case True
      then obtain v where "(n, v) \<in> set (logged homes S d)" by auto
      then show ?thesis using apply_writes_in [OF d] by (simp add: logical_def lg)
    next
      case False
      moreover have "n \<notin> fst ` set ?ws" using False set_take_subset by fastforce
      ultimately show ?thesis by (simp add: logical_def lg apply_writes_other)
    qed
  qed
qed

lemma logical_empty: "homes (d S) = [] \<Longrightarrow> logical homes S d = d"
  by (simp add: logical_def logged_def)

text \<open>A whole recovery makes the disk the logical disk and empties the log.\<close>

lemma recovery_done:
  assumes "transaction S L (homes (d S))"
  shows "homes (apply_writes (recovery_writes homes put S d) d S) = []"
    and "n \<noteq> S \<Longrightarrow> apply_writes (recovery_writes homes put S d) d n = logical homes S d n"
  by (simp_all add: recovery_writes_def apply_writes_append homes_empty logical_def)

lemma recovery_prefix:
  fixes k :: nat
  assumes "transaction S L (homes (d S))"
  defines "e \<equiv> apply_writes (take k (recovery_writes homes put S d)) d"
  shows "transaction S L (homes (e S))"
    and "n \<noteq> S \<Longrightarrow> logical homes S e n = logical homes S d n"
proof -
  have "transaction S L (homes (e S)) \<and> (n \<noteq> S \<longrightarrow> logical homes S e n = logical homes S d n)"
  proof (cases "k \<le> length (logged homes S d)")
    case True
    then have "e = apply_writes (take k (logged homes S d)) d"
      by (simp add: e_def recovery_writes_def)
    then show ?thesis using install_prefix [of S L d k] assms(1) by simp
  next
    case False
    then have e: "e = apply_writes (recovery_writes homes put S d) d"
      by (simp add: e_def recovery_writes_def)
    have h: "homes (e S) = []" unfolding e using assms(1) by (rule recovery_done(1))
    have "n \<noteq> S \<longrightarrow> logical homes S e n = logical homes S d n"
      using recovery_done(2) [of S L d n] assms(1) logical_empty [of e S] h by (simp add: e)
    then show ?thesis using h by (simp add: transaction_def)
  qed
  then show "transaction S L (homes (e S))" "n \<noteq> S \<Longrightarrow> logical homes S e n = logical homes S d n" by auto
qed

text \<open>Every prefix of a commit.\<close>

lemma commit_prefix:
  fixes k :: nat
  assumes empty: "homes (d S) = []" and bl: "fits bl" "transaction S L bl" "length vs = length bl"
  defines "e \<equiv> apply_writes (take k (commit_writes put S bl vs (d S))) d"
  shows "transaction S L (homes (e S))"
    and "\<not> in_log S L n \<Longrightarrow> logical homes S e n = (if k \<le> length bl then d n else apply_writes (zip bl vs) d n)"
proof -
  let ?lg = "zip [S + 1..<S + 1 + length bl] vs" and ?h = "put bl (d S)"
  let ?m = "length bl"
  have sub: "fst ` set (take j ?lg) \<subseteq> {S + 1..<S + 1 + ?m}" for j
    unfolding set_upt [symmetric] by (rule fst_take_zip)
  have area: "apply_writes (take j ?lg) d n = d n" if "\<not> in_log S L n" for j n
  proof (rule apply_writes_other)
    have "n \<notin> {S + 1..<S + 1 + ?m}" using that bl(2) by (auto simp: in_log_def transaction_def)
    then show "n \<notin> fst ` set (take j ?lg)" using sub [of j] by blast
  qed
  have hdr: "apply_writes (take j ?lg) d S = d S" for j
  proof (rule apply_writes_other)
    have "S \<notin> {S + 1..<S + 1 + ?m}" by simp
    then show "S \<notin> fst ` set (take j ?lg)" using sub [of j] by blast
  qed
  have "transaction S L (homes (e S)) \<and> (\<not> in_log S L n \<longrightarrow>
      logical homes S e n = (if k \<le> ?m then d n else apply_writes (zip bl vs) d n))"
  proof (cases "k \<le> ?m")
    case True
    then have e: "e = apply_writes (take k ?lg) d"
      using bl(3) by (simp add: e_def commit_writes_def del: upt_Suc)
    then have "homes (e S) = []" using hdr empty by simp
    then show ?thesis using True area by (simp add: logical_empty transaction_def e)
  next
    case False
    define f where "f = apply_writes ?lg d"
    define g where "g = f(S := ?h)"
    have lgs: "logged homes S g = zip bl vs"
    proof -
      have "g (S + 1 + i) = vs ! i" if "i < ?m" for i
        using apply_range [of i vs "S + 1" d] that bl(3) by (simp add: g_def f_def)
      then have "map (\<lambda>i. g (S + 1 + i)) [0..<?m] = vs"
        by (intro nth_equalityI) (simp_all add: bl(3))
      then show ?thesis by (simp add: logged_def g_def homes_put bl(1))
    qed
    have gt: "transaction S L (homes (g S))" by (simp add: g_def homes_put bl)
    have gl: "logical homes S g n = apply_writes (zip bl vs) d n" if "\<not> in_log S L n"
    proof -
      have "g m = d m" if "\<not> in_log S L m" for m
        using area [OF that, of ?m] that bl(3) by (auto simp: g_def f_def in_log_def)
      then have gn: "g n = d n" using that by blast
      show ?thesis
      proof (cases "n \<in> set bl")
        case True
        then obtain i where i: "i < ?m" "bl ! i = n" by (auto simp: in_set_conv_nth)
        then have "(n, vs ! i) \<in> set (zip bl vs)" using bl(3) by (auto simp: set_zip)
        then show ?thesis
          using apply_writes_in [of "zip bl vs"] bl(2,3) by (simp add: logical_def lgs transaction_def)
      next
        case False
        then have "n \<notin> fst ` set (zip bl vs)" using fst_set_zip by fastforce
        then show ?thesis by (simp add: logical_def lgs apply_writes_other gn)
      qed
    qed
    obtain j where k: "k = Suc (?m + j)" using False by (metis add_Suc_right less_iff_Suc_add not_le)
    have gS: "g S = ?h" by (simp add: g_def)
    have "e = apply_writes (take j (recovery_writes homes put S g)) g"
      unfolding recovery_writes_def lgs gS
      using bl(3) by (simp add: e_def k commit_writes_def apply_writes_append g_def f_def del: upt_Suc)
    then show ?thesis using recovery_prefix(1) [of S L g j] recovery_prefix(2) [of S L g n j] gt gl False by (auto simp: in_log_def)
  qed
  then show "transaction S L (homes (e S))" "\<not> in_log S L n \<Longrightarrow>
      logical homes S e n = (if k \<le> ?m then d n else apply_writes (zip bl vs) d n)" by auto
qed

lemma cut_recoveries_keep:
  "cut_recoveries homes put S d e \<Longrightarrow> transaction S L (homes (d S)) \<Longrightarrow>
   transaction S L (homes (e S)) \<and> (\<forall>n. n \<noteq> S \<longrightarrow> logical homes S e n = logical homes S d n)"
proof (induction rule: cut_recoveries.induct)
  case (cut e k)
  then show ?case using recovery_prefix [of S L e] by simp
qed simp

text \<open>Power failure during a commit, any number of power failures during recovery, then a recovery that runs to its end.\<close>

theorem crash_atomic:
  assumes "homes (d S) = []" "fits bl" "transaction S L bl" "length vs = length bl"
    and "e = apply_writes (take k (commit_writes put S bl vs (d S))) d"
    and "cut_recoveries homes put S e f" and "\<not> in_log S L n"
  shows "apply_writes (recovery_writes homes put S f) f n = (if k \<le> length bl then d n else apply_writes (zip bl vs) d n)"
    and "homes (apply_writes (recovery_writes homes put S f) f S) = []"
proof -
  have c: "transaction S L (homes (e S))"
    "logical homes S e n = (if k \<le> length bl then d n else apply_writes (zip bl vs) d n)"
    unfolding assms(5) using commit_prefix(1) [of d S bl L vs k] commit_prefix(2) [of d S bl L vs n k] assms(1-4,7) by blast+
  note f = cut_recoveries_keep [of S e f L, OF assms(6) c(1)]
  show "homes (apply_writes (recovery_writes homes put S f) f S) = []"
    using f recovery_done(1) by blast
  show "apply_writes (recovery_writes homes put S f) f n = (if k \<le> length bl then d n else apply_writes (zip bl vs) d n)"
    using recovery_done(2) [of S L f n] f c(2) assms(7) by (auto simp: in_log_def)
qed

end

end
