(* ===== verification/Log_Crash.thy ===== *)
theory Log_Crash
  imports Log Redo_Log
begin

text \<open>
  The disk writes of the log's operations, computed from the laws of the buffer cache, and crash safety of
  commit and recovery by interpreting \<open>header_format\<close> of \<open>Redo_Log\<close> on the header block of \<^verbatim>\<open>kernel/log.c\<close>.
\<close>

section \<open>Runs on a cache at rest\<close>

text \<open>No buffer locked, and the blocks pinned by the current transaction are those of \<open>P\<close>.\<close>

definition quiet :: "bio \<Rightarrow> nat set \<Rightarrow> bool" where
  "quiet c P \<longleftrightarrow> bio_ok c \<and> held c = (\<lambda>_. False) \<and> pins c = (\<lambda>m. if m \<in> P then 1 else 0)"

definition wrote :: "bio \<Rightarrow> (nat \<times> block) list \<Rightarrow> bio \<Rightarrow> bool" where
  "wrote c ws c' \<longleftrightarrow> disk c' = apply_writes ws (disk c) \<and> view c' = apply_writes ws (view c)
     \<and> dtrace c' = dtrace c @ ws \<and> mypid c' = mypid c"

lemma wrote_trans: "wrote c ws d \<Longrightarrow> wrote d vs e \<Longrightarrow> wrote c (ws @ vs) e"
  by (simp add: wrote_def apply_writes_append)

lemma wrote_refl: "wrote c [] c"
  by (simp add: wrote_def)

lemma clean: "bio_ok c \<Longrightarrow> pins c n = 0 \<Longrightarrow> view c n = disk c n"
proof (cases "slot c n")
  case (Some i)
  assume *: "bio_ok c" "pins c n = 0"
  then have "i < NBUF" "refcnt (bufs c i) = 0" "blockno (bufs c i) = n"
    using Some slot_Some [OF *(1), of n i] by (simp_all add: pins_def)
  then show ?thesis using * Some by (auto simp: view_def bio_ok_def buf_ok_def split: if_splits)
qed (simp add: view_def)

lemma finite_pinned: "bio_ok c \<Longrightarrow> finite {m. 0 < pins c m}"
proof -
  assume c: "bio_ok c"
  have "{m. 0 < pins c m} \<subseteq> (\<lambda>i. blockno (bufs c i)) ` {..<NBUF}"
  proof
    fix m assume "m \<in> {m. 0 < pins c m}"
    then obtain i where "slot c m = Some i" by (auto simp: pins_def split: option.splits)
    then show "m \<in> (\<lambda>i. blockno (bufs c i)) ` {..<NBUF}" using slot_Some [OF c, of m i] by auto
  qed
  then show ?thesis by (rule finite_subset) simp
qed

text \<open>Two blocks read one after the other.\<close>

definition two :: "bio \<Rightarrow> nat \<Rightarrow> nat \<Rightarrow> nat \<Rightarrow> nat \<Rightarrow> bio \<Rightarrow> bool" where
  "two c b1 n1 b2 n2 c2 \<longleftrightarrow> bio_ok c2 \<and> handle c2 b1 n1 \<and> handle c2 b2 n2 \<and> b1 \<noteq> b2
    \<and> view c2 = view c \<and> disk c2 = disk c \<and> dtrace c2 = dtrace c \<and> mypid c2 = mypid c
    \<and> pins c2 = (pins c)(n1 := pins c n1 + 1, n2 := pins c n2 + 1)
    \<and> held c2 = (\<lambda>m. m = n1 \<or> m = n2)"

lemma two_sym: "n1 \<noteq> n2 \<Longrightarrow> two c b1 n1 b2 n2 c2 \<Longrightarrow> two c b2 n2 b1 n1 c2"
  by (auto simp: two_def fun_upd_twist)

lemma read_two:
  assumes q: "quiet c P" and n: "n1 \<noteq> n2" and room: "card (insert n1 (insert n2 P)) \<le> NBUF"
  shows "\<exists>b1 c1 b2 c2. bread ROOTDEV n1 c = Ret b1 c1 \<and> bread ROOTDEV n2 c1 = Ret b2 c2
    \<and> two c b1 n1 b2 n2 c2"
proof -
  let ?A = "{m. 0 < pins c m}"
  have A: "?A = P" "bio_ok c" using q by (auto simp: quiet_def)
  then have "finite P" using finite_pinned by metis
  have "card ?A < NBUF \<or> 0 < pins c n1"
    using room A \<open>finite P\<close> card_mono [of "insert n1 (insert n2 P)" P] n by (auto simp: card_insert_if q [unfolded quiet_def] split: if_splits)
  then obtain b1 c1 where r1: "bread ROOTDEV n1 c = Ret b1 c1" "got c n1 b1 c1"
    using bread_law [OF A(2), of n1] q by (auto simp: quiet_def)
  have "{m. 0 < pins c1 m} = insert n1 P" using r1(2) q by (auto simp: got_def quiet_def)
  then have "card {m. 0 < pins c1 m} < NBUF \<or> 0 < pins c1 n2"
    using room \<open>finite P\<close> n r1(2) q by (auto simp: card_insert_if got_def quiet_def split: if_splits)
  then obtain b2 c2 where r2: "bread ROOTDEV n2 c1 = Ret b2 c2" "got c1 n2 b2 c2"
    using bread_law [of c1 n2] r1(2) q n by (auto simp: got_def quiet_def)
  have "handle c2 b1 n1 \<and> b1 \<noteq> b2" using r1(2) r2(2) by (auto simp: got_def)
  moreover have "held c2 = (\<lambda>m. m = n1 \<or> m = n2)" using r1(2) r2(2) q by (auto simp: got_def quiet_def fun_eq_iff)
  ultimately have "two c b1 n1 b2 n2 c2" using r1(2) r2(2) n by (simp add: two_def got_def)
  then show ?thesis using r1(1) r2(1) by blast
qed

text \<open>One block copied to another and written; \<open>unpin\<close> as \<open>install_trans\<close> does at commit.\<close>

lemma copy_write:
  assumes "bio_ok c" "handle c bs ns" "handle c bd nd"
  shows "\<exists>c'. bwrite bd (upd_buf bd (\<lambda>x. x\<lparr>data := data (bufs c bs)\<rparr>) c) = Ret () c' \<and> bio_ok c'
    \<and> handle c' bs ns \<and> handle c' bd nd \<and> view c' = (view c)(nd := view c ns)
    \<and> disk c' = (disk c)(nd := view c ns) \<and> dtrace c' = dtrace c @ [(nd, view c ns)] \<and> mypid c' = mypid c
    \<and> pins c' = pins c \<and> held c' = held c"
proof -
  define e where "e = upd_buf bd (\<lambda>x. x\<lparr>data := data (bufs c bs)\<rparr>) c"
  have e: "bio_ok e \<and> view e = (view c)(nd := view c ns) \<and> pins e = pins c \<and> held e = held c
    \<and> disk e = disk c \<and> dtrace e = dtrace c \<and> mypid e = mypid c \<and> (\<forall>b m. handle c b m \<longrightarrow> handle e b m)"
    using set_data_law [OF assms(1,3) e_def] handle_view [OF assms(1,2)] by simp
  then have he: "bio_ok e" "handle e bd nd" using assms(3) by auto
  show ?thesis using bwrite_law [OF he] e assms(2,3) unfolding e_def [symmetric] by fastforce
qed

lemma release_two:
  assumes "bio_ok c" "handle c b1 n1" "handle c b2 n2" "b1 \<noteq> b2" "n1 \<noteq> n2"
    and "pins c n1 = 1 \<longrightarrow> view c n1 = disk c n1" "pins c n2 = 1 \<longrightarrow> view c n2 = disk c n2"
  shows "\<exists>c1 c2. brelse b1 c = Ret () c1 \<and> brelse b2 c1 = Ret () c2 \<and> bio_ok c2 \<and> view c2 = view c
    \<and> disk c2 = disk c \<and> dtrace c2 = dtrace c \<and> mypid c2 = mypid c
    \<and> pins c2 = (pins c)(n1 := pins c n1 - 1, n2 := pins c n2 - 1) \<and> held c2 = (held c)(n1 := False, n2 := False)"
proof -
  obtain c1 where c1: "brelse b1 c = Ret () c1" "bio_ok c1" "view c1 = view c" "pins c1 = (pins c)(n1 := pins c n1 - 1)"
    "held c1 = (held c)(n1 := False)" "disk c1 = disk c" "dtrace c1 = dtrace c" "mypid c1 = mypid c" "handle c1 b2 n2"
    using brelse_law [OF assms(1,2,6)] assms(3,4) by auto
  have "pins c1 n2 = 1 \<longrightarrow> view c1 n2 = disk c1 n2" using assms(5,7) c1 by simp
  from brelse_law [OF c1(2,9) this] show ?thesis using c1 assms(5) by auto
qed

lemma copy_block:
  assumes q: "quiet c P" and t: "two c bs ns bd nd e" and n: "ns \<noteq> nd" and u: "unpin \<longrightarrow> nd \<in> P"
  shows "\<exists>c1 c2 c3. bwrite bd (upd_buf bd (\<lambda>x. x\<lparr>data := data (bufs e bs)\<rparr>) e) = Ret () c1
    \<and> brelse bs (if unpin then bunpin bd c1 else c1) = Ret () c2 \<and> brelse bd c2 = Ret () c3
    \<and> quiet c3 (if unpin then P - {nd} else P) \<and> wrote c [(nd, view c ns)] c3"
proof -
  obtain c1 where c1: "bwrite bd (upd_buf bd (\<lambda>x. x\<lparr>data := data (bufs e bs)\<rparr>) e) = Ret () c1" "bio_ok c1"
      "handle c1 bs ns" "handle c1 bd nd" "view c1 = (view c)(nd := view c ns)"
      "disk c1 = (disk c)(nd := view c ns)" "dtrace c1 = dtrace c @ [(nd, view c ns)]" "mypid c1 = mypid c"
      "pins c1 = (pins c)(ns := pins c ns + 1, nd := pins c nd + 1)" "held c1 = (\<lambda>m. m = ns \<or> m = nd)"
    using copy_write [of e bs ns bd nd] t by (auto simp: two_def)
  define d where "d = (if unpin then bunpin bd c1 else c1)"
  have P: "pins c = (\<lambda>m. if m \<in> P then 1 else 0)" "bio_ok c" using q by (auto simp: quiet_def)
  have d: "bio_ok d" "handle d bs ns" "handle d bd nd" "view d = view c1" "disk d = disk c1" "dtrace d = dtrace c1"
    "mypid d = mypid c1" "held d = held c1"
    "pins d = (pins c)(ns := pins c ns + 1, nd := (if unpin then 1 else pins c nd + 1))"
    using c1 bunpin_law [OF c1(2,4)] u P(1) by (auto simp: d_def)
  have cl: "pins d ns = 1 \<longrightarrow> view d ns = disk d ns" "pins d nd = 1 \<longrightarrow> view d nd = disk d nd"
    using clean [OF P(2), of ns] d c1 n by auto
  obtain c2 c3 where r: "brelse bs d = Ret () c2" "brelse bd c2 = Ret () c3" "bio_ok c3" "view c3 = view d"
    "disk c3 = disk d" "dtrace c3 = dtrace d" "mypid c3 = mypid d" "held c3 = (held d)(ns := False, nd := False)"
    "pins c3 = (pins d)(ns := pins d ns - 1, nd := pins d nd - 1)"
    using release_two [OF d(1-3) _ n cl] t by (auto simp: two_def)
  have "quiet c3 (if unpin then P - {nd} else P)"
    unfolding quiet_def using r(3) by (auto simp: r(8,9) d(8,9) c1(10) P(1) n fun_eq_iff)
  moreover have "wrote c [(nd, view c ns)] c3"
    using r(4-7) d(4-7) c1(5-8) by (simp add: wrote_def)
  ultimately show ?thesis using c1(1) r(1,2) unfolding d_def by blast
qed

section \<open>The loops\<close>

text \<open>The home block number in entry \<open>i\<close> of the in-memory header.\<close>

definition home :: "fsys \<Rightarrow> nat \<Rightarrow> nat" where
  "home s i = to_uint (lh_block s i)"

lemma room_one: "finite P \<Longrightarrow> card P < NBUF \<Longrightarrow> b \<in> P \<Longrightarrow> card (insert a (insert b P)) \<le> NBUF"
  by (simp add: insert_absorb card_insert_if)

lemma quiet_finite: "quiet c P \<Longrightarrow> finite P"
  using finite_pinned [of c] by (auto simp: quiet_def if_distrib split: if_splits elim: rev_finite_subset)

lemma write_log_loop_run:
  assumes "quiet (cache s) P" "card P < NBUF" "ldev s = ROOTDEV"
    and "\<forall>i\<in>{tail..<tail + k}. home s i \<in> P \<and> (\<forall>j<tail + k. home s i \<noteq> lstart s + j + 1)"
  shows "\<exists>c. write_log_loop tail k s = Ret () (s\<lparr>cache := c\<rparr>) \<and> quiet c P
    \<and> wrote (cache s) (map (\<lambda>i. (lstart s + i + 1, view (cache s) (home s i))) [tail..<tail + k]) c"
  using assms
proof (induction k arbitrary: tail s)
  case 0
  then show ?case by (intro exI [of _ "cache s"]) (simp add: wrote_refl)
next
  case (Suc k)
  let ?n = "lstart s + tail + 1" and ?m = "home s tail"
  have m: "?m \<in> P" "?n \<noteq> ?m" using bspec [OF Suc.prems(4), of tail] by (simp_all add: not_sym)
  have rm: "card (insert ?n (insert ?m P)) \<le> NBUF"
    by (rule room_one [OF quiet_finite [OF Suc.prems(1)] Suc.prems(2) m(1)])
  obtain b1 c1 b2 c2 where r: "bread ROOTDEV ?n (cache s) = Ret b1 c1" "bread ROOTDEV ?m c1 = Ret b2 c2"
      "two (cache s) b1 ?n b2 ?m c2"
    using read_two [OF Suc.prems(1) m(2) rm] by blast
  obtain c3 c4 c5 where w: "bwrite b1 (upd_buf b1 (\<lambda>x. x\<lparr>data := data (bufs c2 b2)\<rparr>) c2) = Ret () c3"
      "brelse b2 c3 = Ret () c4" "brelse b1 c4 = Ret () c5" "quiet c5 P" "wrote (cache s) [(?n, view (cache s) ?m)] c5"
    using copy_block [OF Suc.prems(1) two_sym [OF m(2) r(3)] m(2) [symmetric], of False] by auto
  let ?s = "s\<lparr>cache := c5\<rparr>"
  have step: "write_log_loop tail (Suc k) s = write_log_loop (tail + 1) k ?s"
    using r(1,2) w(1-3) Suc.prems(3) by (simp add: on_cache.simps copy_data_def home_def)
  have hm: "home ?s = home s" by (simp add: home_def fun_eq_iff)
  have "\<forall>i\<in>{tail + 1..<tail + 1 + k}. home ?s i \<in> P \<and> (\<forall>j<tail + 1 + k. home ?s i \<noteq> lstart ?s + j + 1)"
    unfolding hm using Suc.prems(4) by simp
  from Suc.IH [OF _ Suc.prems(2) _ this] w(4) Suc.prems(3)
  obtain c where c: "write_log_loop (tail + 1) k ?s = Ret () (s\<lparr>cache := c\<rparr>)" "quiet c P"
    "wrote c5 (map (\<lambda>i. (lstart s + i + 1, view c5 (home s i))) [tail + 1..<tail + 1 + k]) c"
    unfolding hm by auto
  have "view c5 (home s i) = view (cache s) (home s i)" if "i \<in> {tail + 1..<tail + 1 + k}" for i
    using w(5) that Suc.prems(4) by (auto simp: wrote_def)
  then have eq: "map (\<lambda>i. (lstart s + i + 1, view c5 (home s i))) [tail + 1..<tail + 1 + k]
      = map (\<lambda>i. (lstart s + i + 1, view (cache s) (home s i))) [tail + 1..<tail + 1 + k]" by (simp del: upt_Suc)
  have "wrote (cache s) (map (\<lambda>i. (lstart s + i + 1, view (cache s) (home s i))) [tail..<tail + Suc k]) c"
    using wrote_trans [OF w(5) c(3)] unfolding eq by (simp add: upt_conv_Cons del: upt_Suc)
  then show ?case unfolding step using c(1,2) by blast
qed

lemma install_loop_run:
  assumes "quiet (cache s) P" "ldev s = ROOTDEV" "card P < NBUF" "rec \<longrightarrow> P = {}"
    and "\<forall>i\<in>{tail..<tail + k}. (rec \<or> home s i \<in> P) \<and> (\<forall>j<tail + k. home s i \<noteq> lstart s + j + 1)"
    and "rec \<or> inj_on (home s) {tail..<tail + k}"
  shows "\<exists>c. install_loop rec tail k s = Ret () (s\<lparr>cache := c\<rparr>)
    \<and> quiet c (if rec then {} else P - home s ` {tail..<tail + k})
    \<and> wrote (cache s) (map (\<lambda>i. (home s i, view (cache s) (lstart s + i + 1))) [tail..<tail + k]) c"
  using assms
proof (induction k arbitrary: tail s P)
  case 0
  then show ?case by (intro exI [of _ "cache s"]) (auto simp: wrote_refl)
next
  case (Suc k)
  let ?n = "lstart s + tail + 1" and ?m = "home s tail"
  have m: "rec \<or> ?m \<in> P" "?n \<noteq> ?m" using bspec [OF Suc.prems(5), of tail] by (simp_all add: not_sym)
  have rm: "card (insert ?n (insert ?m P)) \<le> NBUF"
    using room_one [of P ?m ?n] quiet_finite [OF Suc.prems(1)] Suc.prems(3,4) m(1)
    by (cases rec) (auto simp: card_insert_if NBUF_def)
  obtain b1 c1 b2 c2 where r: "bread ROOTDEV ?n (cache s) = Ret b1 c1" "bread ROOTDEV ?m c1 = Ret b2 c2"
      "two (cache s) b1 ?n b2 ?m c2"
    using read_two [OF Suc.prems(1) m(2) rm] by blast
  define Q where "Q = (if \<not> rec then P - {?m} else P)"
  obtain c3 c4 c5 where w: "bwrite b2 (upd_buf b2 (\<lambda>x. x\<lparr>data := data (bufs c2 b1)\<rparr>) c2) = Ret () c3"
      "brelse b1 (if \<not> rec then bunpin b2 c3 else c3) = Ret () c4" "brelse b2 c4 = Ret () c5"
      "quiet c5 Q" "wrote (cache s) [(?m, view (cache s) ?n)] c5"
    using copy_block [OF Suc.prems(1) r(3) m(2), of "\<not> rec"] m(1) unfolding Q_def by blast
  let ?s = "s\<lparr>cache := c5\<rparr>"
  have step: "install_loop rec tail (Suc k) s = install_loop rec (tail + 1) k ?s"
    using r(1,2) w(1-3) Suc.prems(2) by (cases rec) (simp_all add: on_cache.simps copy_data_def home_def)
  have hm: "home ?s = home s" by (simp add: home_def fun_eq_iff)
  have inj: "rec \<or> (\<forall>i\<in>{tail + 1..<tail + 1 + k}. home s i \<noteq> ?m)"
    using Suc.prems(6) by (auto dest: inj_onD [of "home s" _ _ tail])
  have "card Q < NBUF" using Suc.prems(3) card_Diff1_le [of P ?m] by (auto simp: Q_def)
  moreover have "rec \<longrightarrow> Q = {}" using Suc.prems(4) by (simp add: Q_def)
  moreover have "\<forall>i\<in>{tail + 1..<tail + 1 + k}. (rec \<or> home ?s i \<in> Q) \<and> (\<forall>j<tail + 1 + k. home ?s i \<noteq> lstart ?s + j + 1)"
    unfolding hm using Suc.prems(5) inj by (auto simp: Q_def)
  moreover have "rec \<or> inj_on (home ?s) {tail + 1..<tail + 1 + k}"
    unfolding hm using Suc.prems(6) inj_on_subset [of "home s" "{tail..<tail + Suc k}" "{tail + 1..<tail + 1 + k}"] by auto
  ultimately obtain c where c: "install_loop rec (tail + 1) k ?s = Ret () (s\<lparr>cache := c\<rparr>)"
    "quiet c (if rec then {} else Q - home s ` {tail + 1..<tail + 1 + k})"
    "wrote c5 (map (\<lambda>i. (home s i, view c5 (lstart s + i + 1))) [tail + 1..<tail + 1 + k]) c"
    using Suc.IH [of ?s Q "tail + 1"] w(4) Suc.prems(2) unfolding hm by auto
  have "view c5 (lstart s + i + 1) = view (cache s) (lstart s + i + 1)" if "i \<in> {tail + 1..<tail + 1 + k}" for i
    using w(5) that Suc.prems(5) by (fastforce simp: wrote_def)
  then have eq: "map (\<lambda>i. (home s i, view c5 (lstart s + i + 1))) [tail + 1..<tail + 1 + k]
      = map (\<lambda>i. (home s i, view (cache s) (lstart s + i + 1))) [tail + 1..<tail + 1 + k]" by (simp del: upt_Suc)
  have "Q - home s ` {tail + 1..<tail + 1 + k} = P - home s ` {tail..<tail + Suc k}" if "\<not> rec"
  proof -
    have "{tail..<tail + Suc k} = insert tail {tail + 1..<tail + 1 + k}" by auto
    then show ?thesis using that by (auto simp: Q_def)
  qed
  then have "quiet c (if rec then {} else P - home s ` {tail..<tail + Suc k})" using c(2) by (cases rec) auto
  moreover have "wrote (cache s) (map (\<lambda>i. (home s i, view (cache s) (lstart s + i + 1))) [tail..<tail + Suc k]) c"
    using wrote_trans [OF w(5) c(3)] unfolding eq by (simp add: upt_conv_Cons del: upt_Suc)
  ultimately show ?case unfolding step using c(1) by blast
qed

lemma read_one:
  assumes "quiet c P" "card P < NBUF" "n \<notin> P"
  shows "\<exists>b c'. bread ROOTDEV n c = Ret b c' \<and> got c n b c' \<and> pins c' n = 1"
proof -
  have "{m. 0 < pins c m} = P" using assms(1) by (auto simp: quiet_def)
  then show ?thesis using bread_law [of c n] assms by (fastforce simp: quiet_def got_def)
qed

lemma write_head_run:
  assumes q: "quiet (cache s) P" "card P < NBUF" "lstart s \<notin> P" "ldev s = ROOTDEV"
  shows "\<exists>c. write_head s = Ret () (s\<lparr>cache := c\<rparr>) \<and> quiet c P
    \<and> wrote (cache s) [(lstart s, put_head (lh_n s) (lh_block s) (view (cache s) (lstart s)))] c"
proof -
  let ?S = "lstart s" and ?v = "put_head (lh_n s) (lh_block s) (view (cache s) (lstart s))"
  obtain b c1 where r: "bread ROOTDEV ?S (cache s) = Ret b c1" "got (cache s) ?S b c1" "pins c1 ?S = 1"
    using read_one [OF q(1-3)] by blast
  have h1: "bio_ok c1" "handle c1 b ?S" "data (bufs c1 b) = view (cache s) ?S"
    using r(2) handle_view [of c1 b ?S] by (auto simp: got_def)
  define c2 where "c2 = upd_buf b (\<lambda>x. x\<lparr>data := ?v\<rparr>) c1"
  have c2: "upd_buf b (\<lambda>x. x\<lparr>data := put_head (lh_n s) (lh_block s) (data x)\<rparr>) c1 = c2"
    by (simp add: c2_def upd_buf_def h1(3))
  note l2 = set_data_law [OF h1(1,2) c2_def]
  have h2: "bio_ok c2" "handle c2 b ?S" using l2 h1(2) by auto
  obtain c3 where c3: "bwrite b c2 = Ret () c3" "bio_ok c3" "view c3 = view c2" "pins c3 = pins c2" "held c3 = held c2"
    "disk c3 = (disk c2)(?S := view c2 ?S)" "dtrace c3 = dtrace c2 @ [(?S, view c2 ?S)]" "mypid c3 = mypid c2" "handle c3 b ?S"
    using bwrite_law [OF h2] h2(2) by blast
  have "pins c3 ?S = 1 \<longrightarrow> view c3 ?S = disk c3 ?S" using c3 by simp
  from brelse_law [OF c3(2,9) this] obtain c4 where c4: "brelse b c3 = Ret () c4" "bio_ok c4" "view c4 = view c3"
    "pins c4 = (pins c3)(?S := pins c3 ?S - 1)" "held c4 = (held c3)(?S := False)" "disk c4 = disk c3"
    "dtrace c4 = dtrace c3" "mypid c4 = mypid c3" by blast
  have "quiet c4 P" unfolding quiet_def
    using c4(2,4,5) c3(4,5) l2 r(2) q(1,3) by (auto simp: got_def quiet_def fun_eq_iff)
  moreover have "wrote (cache s) [(?S, ?v)] c4"
    using c4(3,6-8) c3(3,6-8) l2 r(2) by (auto simp: wrote_def got_def)
  moreover have "write_head s = Ret () (s\<lparr>cache := c4\<rparr>)"
    using r(1) c3(1) c4(1) c2 q(4) by (simp add: write_head_def on_cache.simps)
  ultimately show ?thesis by blast
qed

lemma read_head_run:
  assumes q: "quiet (cache s) {}" "ldev s = ROOTDEV"
  defines "d \<equiv> view (cache s) (lstart s)"
  shows "\<exists>c. read_head s = Ret () (s\<lparr>cache := c, lh_n := hdr_n d,
      lh_block := (\<lambda>i. if int i < hdr_n d then hdr_block d i else lh_block s i)\<rparr>)
    \<and> quiet c {} \<and> wrote (cache s) [] c"
proof -
  let ?S = "lstart s"
  obtain b c1 where r: "bread ROOTDEV ?S (cache s) = Ret b c1" "got (cache s) ?S b c1" "pins c1 ?S = 1"
    using read_one [OF q(1), of ?S] by (auto simp: NBUF_def)
  have h1: "bio_ok c1" "handle c1 b ?S" "data (bufs c1 b) = d"
    using r(2) handle_view [of c1 b ?S] by (auto simp: got_def d_def)
  have "view c1 ?S = disk c1 ?S"
    using clean [of "cache s" ?S] q(1) r(2) by (auto simp: quiet_def got_def)
  then obtain c2 where c2: "brelse b c1 = Ret () c2" "bio_ok c2" "view c2 = view c1"
    "pins c2 = (pins c1)(?S := pins c1 ?S - 1)" "held c2 = (held c1)(?S := False)" "disk c2 = disk c1"
    "dtrace c2 = dtrace c1" "mypid c2 = mypid c1" using brelse_law [OF h1(1,2)] by blast
  have "quiet c2 {}" unfolding quiet_def
    using c2(2,4,5) r(2) q(1) by (auto simp: got_def quiet_def fun_eq_iff)
  moreover have "wrote (cache s) [] c2" using c2(3,6-8) r(2) by (auto simp: wrote_def got_def)
  moreover have "read_head s = Ret () (s\<lparr>cache := c2, lh_n := hdr_n d,
      lh_block := (\<lambda>i. if int i < hdr_n d then hdr_block d i else lh_block s i)\<rparr>)"
    using r(1) c2(1) q(2) h1(3) by (simp add: read_head_def on_cache.simps Let_def cong: if_cong)
  ultimately show ?thesis by blast
qed

section \<open>Commit and recovery as lists of writes\<close>

definition head_homes :: "block \<Rightarrow> nat list" where
  "head_homes d = map (\<lambda>i. to_uint (hdr_block d i)) [0..<nat (hdr_n d)]"

definition head_put :: "nat list \<Rightarrow> block \<Rightarrow> block" where
  "head_put bl d = put_head (int (length bl)) (\<lambda>i. int (bl ! i)) d"

definition head_fits :: "nat list \<Rightarrow> bool" where
  "head_fits bl \<longleftrightarrow> length bl < 2 ^ 31 \<and> (\<forall>n\<in>set bl. n < 2 ^ 31)"

lemma to_uint_id: "n < 2 ^ 31 \<Longrightarrow> to_uint (int n) = n"
  by (simp add: to_uint_def)

interpretation hdr: header_format head_homes head_put head_fits
proof
  fix bl h assume *: "head_fits bl"
  have "hdr_n (head_put bl h) = int (length bl)"
    using * unfolding head_put_def by (intro put_head_n) (simp_all add: head_fits_def)
  moreover have "hdr_block (head_put bl h) i = int (bl ! i)" if "i < length bl" for i
    using * that nth_mem [OF that] unfolding head_put_def by (intro put_head_block) (auto simp: head_fits_def)
  ultimately show "head_homes (head_put bl h) = bl"
    using * by (intro nth_equalityI) (auto simp: head_homes_def head_fits_def to_uint_id)
qed (simp add: head_fits_def)

lemma put_blocks_cong: "(\<And>i. i < k \<Longrightarrow> f i = g i) \<Longrightarrow> put_blocks f k d = put_blocks g k d"
  by (induction k) auto

text \<open>The state in which a transaction on the blocks \<open>bl\<close> is ready to commit.\<close>

definition LOGSIZE :: nat where "LOGSIZE = 30"

definition open_tx :: "fsys \<Rightarrow> nat list \<Rightarrow> bool" where
  "open_tx s bl \<longleftrightarrow> ldev s = ROOTDEV \<and> lh_n s = int (length bl) \<and> (\<forall>i<length bl. lh_block s i = int (bl ! i))
     \<and> (\<forall>n\<in>set bl. n < 2 ^ 31) \<and> transaction (lstart s) LOGSIZE bl \<and> quiet (cache s) (set bl)"

lemma head_clear: "put_head 0 blk d = head_put [] d"
  by (simp add: put_head_def head_put_def)

lemma commit_run:
  assumes tx: "open_tx s bl" "bl \<noteq> []" "length bl < NBUF"
  shows "\<exists>c. commit s = Ret () (s\<lparr>cache := c, lh_n := 0\<rparr>) \<and> quiet c {}
    \<and> wrote (cache s) (commit_writes head_put (lstart s) bl (map (view (cache s)) bl) (disk (cache s) (lstart s))) c"
proof -
  let ?S = "lstart s" and ?n = "length bl" and ?v = "view (cache s)"
  have T: "distinct bl" "\<forall>n\<in>set bl. \<not> in_log ?S LOGSIZE n" "?n \<le> LOGSIZE" and q: "quiet (cache s) (set bl)"
    and dv: "ldev s = ROOTDEV" and ln: "lh_n s = int ?n"
    using tx(1) by (auto simp: open_tx_def transaction_def)
  have hm: "home s i = bl ! i" if "i < ?n" for i
    using tx(1) that nth_mem [OF that] by (auto simp: open_tx_def home_def to_uint_id)
  have cP: "card (set bl) < NBUF" using tx(3) T(1) by (simp add: distinct_card)
  have nS: "?S \<notin> set bl" using T(2) by (auto simp: in_log_def)
  have off: "n \<in> set bl \<Longrightarrow> j < ?n \<Longrightarrow> n \<noteq> ?S + j + 1" for n j
    using T(2,3) by (fastforce simp: in_log_def)
  let ?vs = "map ?v bl" and ?d = "disk (cache s) ?S"
  have ok: "bio_ok (cache s)" and pS: "pins (cache s) ?S = 0" using q nS by (auto simp: quiet_def)
  note vS = clean [OF ok pS]
  have H: "\<forall>i\<in>{0..<0 + ?n}. home s i \<in> set bl \<and> (\<forall>j<0 + ?n. home s i \<noteq> ?S + j + 1)"
    using hm off by simp
  have Z: "map (\<lambda>i. (?S + i + 1, f (bl ! i))) [0..<?n] = zip [?S + 1..<?S + 1 + ?n] (map f bl)"
    "map (\<lambda>i. (bl ! i, f (bl ! i))) [0..<?n] = zip bl (map f bl)" for f :: "nat \<Rightarrow> block"
    by (intro nth_equalityI; simp del: upt_Suc)+
  obtain c1 where c1: "write_log s = Ret () (s\<lparr>cache := c1\<rparr>)" "quiet c1 (set bl)"
      "wrote (cache s) (zip [?S + 1..<?S + 1 + ?n] ?vs) c1"
  proof -
    have "map (\<lambda>i. (?S + i + 1, ?v (home s i))) [0..<0 + ?n] = zip [?S + 1..<?S + 1 + ?n] ?vs"
      unfolding Z(1) [symmetric] using hm by simp
    then show ?thesis using write_log_loop_run [OF q cP dv H] that ln by (auto simp: write_log_def)
  qed
  have v1: "view c1 ?S = ?d" "view c1 (?S + i + 1) = ?v (bl ! i)" if "i < ?n" for i
  proof -
    have "?S \<notin> fst ` set (zip [?S + 1..<?S + 1 + ?n] ?vs)" using fst_set_zip by fastforce
    then show "view c1 ?S = ?d" using c1(3) vS by (simp add: wrote_def apply_writes_other)
    show "view c1 (?S + i + 1) = ?v (bl ! i)"
      using c1(3) apply_range [of i ?vs "?S + 1" ?v] that by (simp add: wrote_def add_ac)
  qed
  have hp: "put_head (int ?n) (lh_block s) d = head_put bl d" for d
    using tx(1) by (auto simp: put_head_def head_put_def open_tx_def intro: put_blocks_cong)
  obtain c2 where c2: "write_head (s\<lparr>cache := c1\<rparr>) = Ret () (s\<lparr>cache := c2\<rparr>)" "quiet c2 (set bl)"
      "wrote c1 [(?S, head_put bl ?d)] c2"
    using write_head_run [of "s\<lparr>cache := c1\<rparr>" "set bl"] c1(2) cP nS dv v1(1) [of 0] tx(2) ln hp by auto
  have v2: "view c2 (?S + i + 1) = ?v (bl ! i)" if "i < ?n" for i
    using c2(3) v1(2) [OF that] by (simp add: wrote_def)
  let ?s = "s\<lparr>cache := c2\<rparr>"
  have hs: "home ?s = home s" by (simp add: home_def fun_eq_iff)
  have im: "home s ` {0..<?n} = set bl" using hm by (force simp: in_set_conv_nth image_def)
  obtain c3 where c3: "install_trans False ?s = Ret () (s\<lparr>cache := c3\<rparr>)" "quiet c3 {}" "wrote c2 (zip bl ?vs) c3"
  proof -
    have "inj_on (home s) {0..<0 + ?n}" using hm T(1) by (auto simp: inj_on_def nth_eq_iff_index_eq)
    then have "\<exists>c. install_loop False 0 ?n ?s = Ret () (?s\<lparr>cache := c\<rparr>)
      \<and> quiet c (if False then {} else set bl - home ?s ` {0..<0 + ?n})
      \<and> wrote (cache ?s) (map (\<lambda>i. (home ?s i, view (cache ?s) (lstart ?s + i + 1))) [0..<0 + ?n]) c"
      using c2(2) dv cP H by (intro install_loop_run) (auto simp: hs)
    moreover have "map (\<lambda>i. (home s i, view c2 (?S + i + 1))) [0..<?n] = zip bl ?vs"
      unfolding Z(2) [symmetric] using hm v2 by simp
    ultimately show ?thesis using that ln im hs by (auto simp: install_trans_def)
  qed
  have v3: "view c3 ?S = head_put bl ?d"
  proof -
    have "?S \<notin> fst ` set (zip bl ?vs)" using nS fst_set_zip by fastforce
    then show ?thesis using c3(3) c2(3) by (simp add: wrote_def apply_writes_other)
  qed
  obtain c4 where c4: "write_head (s\<lparr>cache := c3, lh_n := 0\<rparr>) = Ret () (s\<lparr>lh_n := 0, cache := c4\<rparr>)" "quiet c4 {}"
      "wrote c3 [(?S, head_put [] (head_put bl ?d))] c4"
    using write_head_run [of "s\<lparr>cache := c3, lh_n := 0\<rparr>" "{}"] c3(2) dv v3 head_clear by (auto simp: NBUF_def)
  have "commit s = Ret () (s\<lparr>cache := c4, lh_n := 0\<rparr>)"
    using c1(1) c2(1) c3(1) c4(1) tx(2) ln by (simp add: commit_def)
  moreover have "wrote (cache s) (commit_writes head_put ?S bl ?vs ?d) c4"
    using wrote_trans [OF c1(3) wrote_trans [OF c2(3) wrote_trans [OF c3(3) c4(3)]]] by (simp add: commit_writes_def del: upt_Suc)
  ultimately show ?thesis using c4(2) by blast
qed

lemma recover_run:
  assumes q: "quiet (cache s) {}" "ldev s = ROOTDEV" and T: "transaction (lstart s) LOGSIZE (head_homes (disk (cache s) (lstart s)))"
  shows "\<exists>c blk. recover_from_log s = Ret () (s\<lparr>cache := c, lh_n := 0, lh_block := blk\<rparr>) \<and> quiet c {}
    \<and> wrote (cache s) (recovery_writes head_homes head_put (lstart s) (disk (cache s))) c"
proof -
  let ?S = "lstart s" and ?d = "disk (cache s)"
  define h where "h = ?d ?S"
  have vd: "view (cache s) = ?d" using clean q(1) by (auto simp: quiet_def)
  define blk where "blk = (\<lambda>i. if int i < hdr_n h then hdr_block h i else lh_block s i)"
  obtain c1 where c1: "read_head s = Ret () (s\<lparr>cache := c1, lh_n := hdr_n h, lh_block := blk\<rparr>)" "quiet c1 {}"
      "wrote (cache s) [] c1"
    using read_head_run [OF q] unfolding vd h_def blk_def by blast
  let ?s = "s\<lparr>cache := c1, lh_n := hdr_n h, lh_block := blk\<rparr>" and ?n = "nat (hdr_n h)" and ?bl = "head_homes h"
  have len: "length ?bl = ?n" by (simp add: head_homes_def)
  have hm: "home ?s i = ?bl ! i" if "i < ?n" for i using that by (auto simp: home_def head_homes_def blk_def)
  have v1: "view c1 = ?d" using c1(3) vd by (simp add: wrote_def)
  have off: "\<forall>i\<in>{0..<0 + ?n}. (True \<or> home ?s i \<in> {}) \<and> (\<forall>j<0 + ?n. home ?s i \<noteq> lstart ?s + j + 1)"
    using T len nth_mem [of _ ?bl] hm by (fastforce simp: transaction_def in_log_def h_def)
  have "\<exists>c. install_loop True 0 ?n ?s = Ret () (?s\<lparr>cache := c\<rparr>)
      \<and> quiet c (if True then {} else {} - home ?s ` {0..<0 + ?n})
      \<and> wrote (cache ?s) (map (\<lambda>i. (home ?s i, view (cache ?s) (lstart ?s + i + 1))) [0..<0 + ?n]) c"
    using c1(2) q(2) off by (intro install_loop_run) (auto simp: NBUF_def)
  moreover have "map (\<lambda>i. (home ?s i, ?d (?S + i + 1))) [0..<?n] = logged head_homes ?S ?d"
    using hm len by (intro nth_equalityI) (simp_all add: logged_def h_def)
  ultimately obtain c2 where c2: "install_trans True ?s = Ret () (?s\<lparr>cache := c2\<rparr>)" "quiet c2 {}"
      "wrote c1 (logged head_homes ?S ?d) c2"
    by (auto simp: install_trans_def v1)
  have v2: "view c2 ?S = h"
  proof -
    have "?S \<notin> set (head_homes h)" using T by (auto simp: transaction_def in_log_def h_def)
    then have "?S \<notin> fst ` set (logged head_homes ?S ?d)"
      using hdr.fst_logged [of ?S ?d] by (auto simp: h_def)
    then show ?thesis using c2(3) v1 by (simp add: wrote_def apply_writes_other h_def)
  qed
  obtain c3 where c3: "write_head (?s\<lparr>cache := c2, lh_n := 0\<rparr>) = Ret () (?s\<lparr>lh_n := 0, cache := c3\<rparr>)" "quiet c3 {}"
      "wrote c2 [(?S, head_put [] h)] c3"
    using write_head_run [of "?s\<lparr>cache := c2, lh_n := 0\<rparr>" "{}"] c2(2) q(2) v2 head_clear by (auto simp: NBUF_def)
  have "recover_from_log s = Ret () (s\<lparr>cache := c3, lh_n := 0, lh_block := blk\<rparr>)"
    using c1(1) c2(1) c3(1) by (simp add: recover_from_log_def)
  moreover have "wrote (cache s) (recovery_writes head_homes head_put ?S ?d) c3"
    using wrote_trans [OF c1(3) wrote_trans [OF c2(3) c3(3)]] by (simp add: recovery_writes_def h_def)
  ultimately show ?thesis using c3(2) by blast
qed

section \<open>Booting\<close>

text \<open>Memory after a power failure: zeroed by the loader, then \<open>binit\<close>.\<close>

definition boot_cache :: "int \<Rightarrow> (nat \<Rightarrow> block) \<Rightarrow> bio" where
  "boot_cache p d = binit \<lparr>bufs = (\<lambda>_. \<lparr>valid = False, dev = 0, blockno = 0, block_lock = \<lparr>locked = False, lpid = 0\<rparr>,
      refcnt = 0, prev = 0, nxt = 0, data = (\<lambda>_. 0)\<rparr>), disk = d, dtrace = [], mypid = p\<rparr>"

definition boot :: "int \<Rightarrow> (nat \<Rightarrow> block) \<Rightarrow> fsys" where
  "boot p d = \<lparr>cache = boot_cache p d, lstart = 0, outstanding = 0, committing = False, ldev = 0, lh_n = 0, lh_block = (\<lambda>_. 0)\<rparr>"

definition fresh :: "int \<Rightarrow> (nat \<Rightarrow> block) \<Rightarrow> bio \<Rightarrow> bool" where
  "fresh p d s \<longleftrightarrow> (\<forall>i. \<not> valid (bufs s i) \<and> dev (bufs s i) = 0 \<and> refcnt (bufs s i) = 0 \<and> \<not> locked (block_lock (bufs s i)))
     \<and> disk s = d \<and> dtrace s = [] \<and> mypid s = p"

lemma fresh_relinked: "fresh p d s \<Longrightarrow> relinked s t \<Longrightarrow> fresh p d t"
  by (auto simp: fresh_def relinked_def)

lemma initsleeplock_same:
  "fresh p d s \<Longrightarrow> fresh p d (initsleeplock b s)" "ring s ord \<Longrightarrow> ring (initsleeplock b s) ord"
proof -
  show "fresh p d s \<Longrightarrow> fresh p d (initsleeplock b s)" by (auto simp: fresh_def initsleeplock_def bio_simps)
  have "links (initsleeplock b s) xs = links s xs" for xs
    by (rule links_cong) (simp_all add: next_of_def prev_of_def initsleeplock_def bio_simps)
  then show "ring s ord \<Longrightarrow> ring (initsleeplock b s) ord" by (simp add: ring_def)
qed

lemma binit_loop_ring:
  "n \<le> NBUF \<Longrightarrow> ring s ord \<Longrightarrow> set ord = {..<NBUF - n} \<Longrightarrow> fresh p d s \<Longrightarrow>
   \<exists>ord'. ring (binit_loop n s) ord' \<and> set ord' = {..<NBUF} \<and> fresh p d (binit_loop n s)"
proof (induction n arbitrary: s ord)
  case (Suc n)
  let ?b = "NBUF - Suc n" let ?t = "link_front ?b (initsleeplock ?b s)"
  have "ring ?t (?b # ord)"
    using Suc.prems by (intro link_front_ring initsleeplock_same) auto
  moreover have "NBUF - n = Suc ?b" using Suc.prems(1) by linarith
  then have "set (?b # ord) = {..<NBUF - n}" using Suc.prems(3) by (simp only: lessThan_Suc list.set)
  moreover have "fresh p d ?t"
    by (rule fresh_relinked [OF initsleeplock_same(1) [OF Suc.prems(4)] relinked_front [OF relinked_steps(3)]])
  ultimately show ?case
    using Suc.IH [of ?t "?b # ord"] Suc.prems(1) by (simp only: binit_loop.simps Let_def Suc_leD)
qed auto

lemma boot_cache_quiet: "quiet (boot_cache p d) {}" "fresh p d (boot_cache p d)"
proof -
  define z :: bio where "z = \<lparr>bufs = (\<lambda>_. \<lparr>valid = False, dev = 0, blockno = 0, block_lock = \<lparr>locked = False, lpid = 0\<rparr>,
      refcnt = 0, prev = 0, nxt = 0, data = (\<lambda>_. 0)\<rparr>), disk = d, dtrace = [], mypid = p\<rparr>"
  define t where "t = set_next NBUF NBUF (set_prev NBUF NBUF z)"
  have "ring t []" by (simp add: ring_def t_def bio_simps)
  moreover have "fresh p d t" by (rule fresh_relinked [of _ _ z]) (auto simp: fresh_def z_def t_def relinked_steps)
  ultimately obtain ord where ord: "ring (boot_cache p d) ord" "set ord = {..<NBUF}" and f: "fresh p d (boot_cache p d)"
    using binit_loop_ring [of NBUF t "[]" p d] by (auto simp: boot_cache_def binit_def t_def z_def)
  show "fresh p d (boot_cache p d)" by (rule f)
  have sl: "slot (boot_cache p d) n = None" for n using f by (simp add: slot_None fresh_def ROOTDEV_def)
  show "quiet (boot_cache p d) {}"
    using ord f sl by (auto simp: quiet_def bio_ok_def buf_ok_def fresh_def ROOTDEV_def held_def pins_def fun_eq_iff)
qed

lemma initlog_run:
  assumes "transaction S LOGSIZE (head_homes (d S))"
  shows "\<exists>s. initlog ROOTDEV S (boot p d) = Ret () s \<and> dtrace (cache s) = recovery_writes head_homes head_put S d
    \<and> disk (cache s) = apply_writes (recovery_writes head_homes head_put S d) d \<and> quiet (cache s) {} \<and> lh_n s = 0
    \<and> outstanding s = 0 \<and> \<not> committing s \<and> lstart s = S \<and> ldev s = ROOTDEV"
proof -
  let ?s = "(boot p d)\<lparr>lstart := S, ldev := ROOTDEV\<rparr>"
  have d: "disk (cache ?s) = d" "dtrace (cache ?s) = []" using boot_cache_quiet(2) [of p d] by (simp_all add: boot_def fresh_def)
  have "quiet (cache ?s) {}" using boot_cache_quiet(1) by (simp add: boot_def)
  from recover_run [OF this] assms d show ?thesis by (auto simp: initlog_def wrote_def boot_def)
qed

text \<open>Disks reached by booting and losing power again, any number of times, during recovery.\<close>

inductive reboots :: "int \<Rightarrow> nat \<Rightarrow> (nat \<Rightarrow> block) \<Rightarrow> (nat \<Rightarrow> block) \<Rightarrow> bool" for p S d where
  powered: "reboots p S d d"
| reboot: "reboots p S d e \<Longrightarrow> initlog ROOTDEV S (boot p e) = Ret () s \<Longrightarrow>
    reboots p S d (apply_writes (take k (dtrace (cache s))) e)"

lemma reboots_cut:
  assumes "reboots p S d e" "transaction S LOGSIZE (head_homes (d S))"
  shows "cut_recoveries head_homes head_put S d e"
  using assms
proof (induction rule: reboots.induct)
  case (reboot e s k)
  then have c: "cut_recoveries head_homes head_put S d e" by simp
  then have "transaction S LOGSIZE (head_homes (e S))" using hdr.cut_recoveries_keep reboot.prems by blast
  then have "dtrace (cache s) = recovery_writes head_homes head_put S e"
    using initlog_run [of S e p] reboot.hyps(2) by auto
  then show ?case using c by (simp add: cut_recoveries.cut)
qed (rule cut_recoveries.no_cut)

end
