(* ===== verification/Crash.thy ===== *)
theory Crash
  imports Umalloc
begin

text \<open>
  The shell, \<^verbatim>\<open>user/crash.c\<close>: its tokenizer, its history of commands, the built-in commands and the main
  loop. The line buffer is byte memory at \<open>BUF\<close>; the history entries are blocks of the process heap, taken
  from and given back to the allocator of \<open>Umalloc\<close>. System calls are the parameter \<open>sysenv\<close>: what \<open>chdir\<close>, \<open>fork\<close> and
  the executed program answer. The input is the list of the bytes that \<open>read\<close> will deliver, its end being end of
  file. Messages are left out, except the list that \<open>history\<close> prints. A store through the NULL pointer and a store past the
  end of \<open>tokens\<close> are panics.
\<close>

section \<open>Tokenizer\<close>

text \<open>A string constant is the list of its bytes, the terminating NUL implied.\<close>

fun in_chars :: "byte list \<Rightarrow> byte \<Rightarrow> bool" where
  "in_chars [] c = (c = 0)"
| "in_chars (x # chars) c = (x = c \<or> in_chars chars c)"

partial_function (option) strspn_loop :: "mem \<Rightarrow> nat \<Rightarrow> byte list \<Rightarrow> nat \<Rightarrow> nat option" where
  "strspn_loop m str chars i =
     (if m (str + i) \<noteq> 0
      then (if in_chars chars (m (str + i)) then strspn_loop m str chars (i + 1) else Some i)
      else Some i)"

definition strspn :: "mem \<Rightarrow> nat \<Rightarrow> byte list \<Rightarrow> nat option" where
  "strspn m str chars = strspn_loop m str chars 0"

partial_function (option) strcspn_loop :: "mem \<Rightarrow> nat \<Rightarrow> byte list \<Rightarrow> nat \<Rightarrow> nat option" where
  "strcspn_loop m str chars p =
     (if in_chars chars (m p) then Some (p - str) else strcspn_loop m str chars (p + 1))"

definition strcspn :: "mem \<Rightarrow> nat \<Rightarrow> byte list \<Rightarrow> nat option" where
  "strcspn m str chars = strcspn_loop m str chars str"

text \<open>The token, the new \<open>*str_ptr\<close> and memory.\<close>

definition next_token :: "mem \<Rightarrow> nat \<Rightarrow> byte list \<Rightarrow> (nat \<times> nat \<times> mem) option" where
  "next_token m str_ptr delim =
     (if str_ptr = 0 then Some (0, str_ptr, m)
      else Option.bind (strspn m str_ptr delim) (\<lambda>tok_start.
           Option.bind (strcspn m (str_ptr + tok_start) delim) (\<lambda>tok_end.
             if tok_end = 0 then Some (0, 0, m)
             else let current_ptr = str_ptr + tok_start;
                      str_ptr = str_ptr + (tok_start + tok_end)
                  in if m str_ptr = 0 then Some (current_ptr, 0, m)
                     else Some (current_ptr, str_ptr + 1, m(str_ptr := 0)))))"

definition DELIM :: "byte list" where "DELIM = [32, 9, 10]"

partial_function (option) token_loop :: "mem \<Rightarrow> nat \<Rightarrow> nat list \<Rightarrow> (nat list \<times> mem) option" where
  "token_loop m next_tok tokens =
     Option.bind (next_token m next_tok DELIM) (\<lambda>(curr_tok, next_tok, m).
       if curr_tok \<noteq> 0 then token_loop m next_tok (tokens @ [curr_tok]) else Some (tokens, m))"

section \<open>History\<close>

definition MAX_HISTORY :: nat where "MAX_HISTORY = 100"

datatype event = Chdir "byte list" | Run "byte list list" | ForkFailed | Listing "(nat \<times> byte list) list"

record shell =
  sheap :: heap
  history :: "nat \<Rightarrow> nat"
  history_count :: nat
  cmd_num :: nat
  exit_status :: int
  events :: "event list"

text \<open>\<open>strcpy\<close> between two objects of the process, the line buffer or another block and a new block.\<close>

partial_function (option) strcpy_to :: "mem \<Rightarrow> nat \<Rightarrow> mem \<Rightarrow> nat \<Rightarrow> mem option" where
  "strcpy_to ms t m s =
     (let m' = m(s := ms t) in if ms t \<noteq> 0 then strcpy_to ms (t + 1) m' (s + 1) else Some m')"

text \<open>\<open>p = malloc(strlen(cmd) + 1); strcpy(p, cmd)\<close>: the pointer and the heap. A store through NULL faults.\<close>

definition new_string :: "mem \<Rightarrow> nat \<Rightarrow> heap \<Rightarrow> (heap, nat) outcome" where
  "new_string m cmd h =
     oloop (strlen m cmd) (\<lambda>n. oloop (malloc (of_nat (n + 1)) h) (\<lambda>(p, h).
       if p = 0 then Panic ''store through NULL''
       else oloop (strcpy_to m cmd (hmem h) p) (\<lambda>hm. Ret p (h\<lparr>hmem := hm\<rparr>))))"

definition hist_index :: "nat \<Rightarrow> nat" where
  "hist_index num = (num - 1) mod MAX_HISTORY"

definition add_to_history :: "mem \<Rightarrow> nat \<Rightarrow> nat \<Rightarrow> shell \<Rightarrow> (shell, unit) outcome" where
  "add_to_history m cmd num s =
     (let index = hist_index num
      in oloop (if history s index \<noteq> 0 then free (history s index) (sheap s) else Some (sheap s)) (\<lambda>h.
         (case new_string m cmd h of
            Ret p h \<Rightarrow> Ret () (s\<lparr>sheap := h, history := (history s)(index := p)\<rparr>)
          | Panic e \<Rightarrow> Panic e | Sleep c _ \<Rightarrow> Sleep c s | Diverge \<Rightarrow> Diverge)))"

text \<open>A copy of an entry, on the heap.\<close>

definition copy_entry :: "nat \<Rightarrow> shell \<Rightarrow> (shell, nat) outcome" where
  "copy_entry p s =
     (case new_string (hmem (sheap s)) p (sheap s) of
        Ret q h \<Rightarrow> Ret q (s\<lparr>sheap := h\<rparr>) | Panic e \<Rightarrow> Panic e | Sleep c _ \<Rightarrow> Sleep c s | Diverge \<Rightarrow> Diverge)"

definition get_history_by_num :: "int \<Rightarrow> shell \<Rightarrow> (shell, nat) outcome" where
  "get_history_by_num num s =
     (if num \<le> 0 \<or> num > int (history_count s) then Ret 0 s
      else let index = hist_index (nat num)
           in if history s index = 0 then Ret 0 s else copy_entry (history s index) s)"

definition get_last_history :: "shell \<Rightarrow> (shell, nat) outcome" where
  "get_last_history s =
     (if history_count s = 0 then Ret 0 s else get_history_by_num (int (history_count s)) s)"

text \<open>Whether the string at \<open>q\<close> starts with the one at \<open>prefix\<close>.\<close>

partial_function (option) prefix_match :: "mem \<Rightarrow> nat \<Rightarrow> mem \<Rightarrow> nat \<Rightarrow> bool option" where
  "prefix_match pm prefix m q =
     (if pm prefix \<noteq> 0
      then (if m q \<noteq> pm prefix then Some False else prefix_match pm (prefix + 1) m (q + 1))
      else Some True)"

fun by_prefix_loop :: "mem \<Rightarrow> nat \<Rightarrow> nat \<Rightarrow> shell \<Rightarrow> (shell, nat) outcome" where
  "by_prefix_loop pm prefix 0 s = Ret 0 s"
| "by_prefix_loop pm prefix (Suc i) s =
     (let p = history s (hist_index (Suc i))
      in if p = 0 then by_prefix_loop pm prefix i s
         else oloop (prefix_match pm prefix (hmem (sheap s)) p) (\<lambda>b.
           if b then copy_entry p s else by_prefix_loop pm prefix i s))"

definition get_history_by_prefix :: "mem \<Rightarrow> nat \<Rightarrow> shell \<Rightarrow> (shell, nat) outcome" where
  "get_history_by_prefix pm prefix s = by_prefix_loop pm prefix (history_count s) s"

text \<open>The bytes \<open>printf\<close> prints for a \<open>%s\<close>.\<close>

partial_function (option) string_at :: "mem \<Rightarrow> nat \<Rightarrow> byte list option" where
  "string_at m p = (if m p \<noteq> 0 then Option.bind (string_at m (p + 1)) (\<lambda>cs. Some (m p # cs)) else Some [])"

fun print_loop :: "nat \<Rightarrow> nat \<Rightarrow> shell \<Rightarrow> (nat \<times> byte list) list option" where
  "print_loop i 0 s = Some []"
| "print_loop i (Suc k) s =
     (let p = history s (hist_index i)
      in if p \<noteq> 0
         then Option.bind (string_at (hmem (sheap s)) p) (\<lambda>cs. map_option (Cons (i, cs)) (print_loop (i + 1) k s))
         else print_loop (i + 1) k s)"

definition print_history :: "shell \<Rightarrow> (nat \<times> byte list) list option" where
  "print_history s =
     (let start = (if history_count s > MAX_HISTORY then history_count s - MAX_HISTORY + 1 else 1)
      in print_loop start (history_count s + 1 - start) s)"

section \<open>Built-in commands\<close>

text \<open>What the system calls answer: \<open>chdir\<close> its result, \<open>fork\<close> whether it succeeded, a program its exit
  status or, when \<open>exec\<close> fails, nothing. They may depend on what the shell did before.\<close>

record sysenv =
  sys_chdir :: "event list \<Rightarrow> byte list \<Rightarrow> int"
  sys_fork :: "event list \<Rightarrow> bool"
  sys_exec :: "event list \<Rightarrow> byte list list \<Rightarrow> int option"

definition EXIT :: "byte list" where "EXIT = [101, 120, 105, 116]"
definition CD :: "byte list" where "CD = [99, 100]"
definition HISTORY :: "byte list" where "HISTORY = [104, 105, 115, 116, 111, 114, 121]"

definition builtin_cd :: "sysenv \<Rightarrow> byte list list \<Rightarrow> shell \<Rightarrow> int \<times> shell" where
  "builtin_cd env args s =
     (if length args < 2 then (1, s)
      else let r = sys_chdir env (events s) (args ! 1);
               s = s\<lparr>events := events s @ [Chdir (args ! 1)]\<rparr>
           in if r \<noteq> 0 then (1, s) else (0, s))"

datatype builtin = Exits int | Done int | NotBuiltin

definition execute_builtin :: "sysenv \<Rightarrow> byte list list \<Rightarrow> shell \<Rightarrow> (shell, builtin) outcome" where
  "execute_builtin env args s =
     (case args of [] \<Rightarrow> Ret NotBuiltin s
      | arg # _ \<Rightarrow>
        if arg = EXIT then Ret (Exits 0) s
        else if arg = CD then (let (r, s) = builtin_cd env args s in Ret (Done r) s)
        else if arg = HISTORY
        then oloop (print_history s) (\<lambda>l. Ret (Done 0) (s\<lparr>events := events s @ [Listing l]\<rparr>))
        else Ret NotBuiltin s)"

section \<open>Main loop\<close>

text \<open>The address of \<open>buf\<close> on the stack, and its size.\<close>

definition BUF :: nat where "BUF = 12288"
definition BUFSIZE :: nat where "BUFSIZE = 256"
definition NTOKENS :: nat where "NTOKENS = 128"

text \<open>\<open>gets\<close> of \<^verbatim>\<open>user/ulib.c\<close>, with \<open>k\<close> more characters to fit: memory and the input left.\<close>

fun gets :: "nat \<Rightarrow> nat \<Rightarrow> mem \<Rightarrow> byte list \<Rightarrow> mem \<times> byte list" where
  "gets a 0 m inp = (m(a := 0), inp)"
| "gets a (Suc k) m [] = (m(a := 0), [])"
| "gets a (Suc k) m (c # inp) =
     (let m = m(a := c) in if c = 10 \<or> c = 13 then (m(a + 1 := 0), inp) else gets (a + 1) k m inp)"

text \<open>A line of the script; nothing at its end.\<close>

fun file_line :: "nat \<Rightarrow> nat \<Rightarrow> mem \<Rightarrow> byte list \<Rightarrow> (mem \<times> nat \<times> byte list) option" where
  "file_line i 0 m inp = Some (m(BUF + i := 0), i, inp)"
| "file_line i (Suc k) m [] = (if i = 0 then None else Some (m(BUF + i := 0), i, []))"
| "file_line i (Suc k) m (c # inp) =
     (let m = m(BUF + i := c)
      in if c = 10 then Some (m(BUF + i := 0), i, inp) else file_line (i + 1) k m inp)"

definition stdin_line :: "mem \<Rightarrow> byte list \<Rightarrow> (mem \<times> nat \<times> byte list) option" where
  "stdin_line m inp =
     (let (m, inp) = gets BUF (BUFSIZE - 1) m inp
      in map_option (\<lambda>len.
           if len > 0 \<and> m (BUF + len - 1) = 10 then (m(BUF + len - 1 := 0), len - 1, inp)
           else (m, len, inp)) (strlen m BUF))"

fun cut_comment :: "nat \<Rightarrow> nat \<Rightarrow> mem \<Rightarrow> nat \<Rightarrow> mem \<times> nat" where
  "cut_comment i 0 m len = (m, len)"
| "cut_comment i (Suc k) m len =
     (if m (BUF + i) = 35 then (m(BUF + i := 0), i) else cut_comment (i + 1) k m len)"

fun trim :: "nat \<Rightarrow> mem \<Rightarrow> mem \<times> nat" where
  "trim 0 m = (m, 0)"
| "trim (Suc l) m =
     (if m (BUF + l) = 32 \<or> m (BUF + l) = 9 then trim l (m(BUF + l := 0)) else (m, Suc l))"

definition run_program :: "sysenv \<Rightarrow> byte list list \<Rightarrow> shell \<Rightarrow> shell" where
  "run_program env args s =
     (if \<not> sys_fork env (events s) then s\<lparr>exit_status := 1, events := events s @ [ForkFailed]\<rparr>
      else let status = (case sys_exec env (events s) args of Some st \<Rightarrow> st | None \<Rightarrow> 1)
           in s\<lparr>exit_status := status, events := events s @ [Run args]\<rparr>)"

text \<open>The body of the loop after the tokens are known: \<open>Some\<close> status when the shell exits.\<close>

definition run_tokens :: "sysenv \<Rightarrow> mem \<Rightarrow> nat list \<Rightarrow> shell \<Rightarrow> (shell, int option) outcome" where
  "run_tokens env m tokens s =
     obind (add_to_history m BUF (cmd_num s) s) (\<lambda>_ s.
     (let s = s\<lparr>history_count := cmd_num s, cmd_num := cmd_num s + 1\<rparr>
      in oloop (those (map (string_at m) tokens)) (\<lambda>args.
         obind (execute_builtin env args s) (\<lambda>b s.
           case b of Exits st \<Rightarrow> Ret (Some st) s
           | Done r \<Rightarrow> Ret None (s\<lparr>exit_status := r\<rparr>)
           | NotBuiltin \<Rightarrow> Ret None (run_program env args s)))))"

definition process_line :: "sysenv \<Rightarrow> mem \<Rightarrow> nat \<Rightarrow> shell \<Rightarrow> (shell, int option) outcome" where
  "process_line env m len s =
     (if len = 0 \<or> m BUF = 0 then Ret None s
      else if m BUF = 35 then Ret None s
      else let (m, len) = cut_comment 0 len m len;
               (m, len) = trim len m
           in if len = 0 \<or> m BUF = 0 then Ret None s
              else oloop (token_loop m BUF []) (\<lambda>(tokens, m).
                if length tokens \<ge> NTOKENS then Panic ''store past the end of tokens''
                else if tokens = [] then Ret None s
                else run_tokens env m tokens s))"

text \<open>The whole loop: the status the shell ends with, 0 at the end of a script. \<open>None\<close> is a shell that runs on.\<close>

partial_function (option) main_loop ::
  "sysenv \<Rightarrow> bool \<Rightarrow> mem \<Rightarrow> byte list \<Rightarrow> shell \<Rightarrow> (shell, int) outcome option" where
  "main_loop env input_from_file m inp s =
     (case (if input_from_file then Some (file_line 0 (BUFSIZE - 1) m inp) else map_option Some (stdin_line m inp)) of
        None \<Rightarrow> None
      | Some None \<Rightarrow> Some (Ret 0 s)
      | Some (Some (m, len, inp)) \<Rightarrow>
        (case process_line env m len s of
           Ret None s \<Rightarrow> main_loop env input_from_file m inp s
         | Ret (Some st) s \<Rightarrow> Some (Ret st s)
         | Panic e \<Rightarrow> Some (Panic e) | Sleep c s \<Rightarrow> Some (Sleep c s) | Diverge \<Rightarrow> None))"

end
