(* ===== verification/Crash_Props.thy ===== *)
theory Crash_Props
  imports Crash Umalloc_Props
begin

text \<open>
  Correctness of the shell: the tokenizer finds the words of the line; the history is a ring of heap blocks
  that holds the last commands, over the contract of the allocator; a script is run to its end; and the places where the
  shell does not do what it means to.
\<close>

section \<open>Words\<close>

definition blank :: "byte \<Rightarrow> bool" where
  "blank c \<longleftrightarrow> c = 32 \<or> c = 9 \<or> c = 10"

definition graph :: "byte \<Rightarrow> bool" where
  "graph c \<longleftrightarrow> \<not> blank c"

text \<open>The words of a line: maximal runs of characters other than blank, tab and newline.\<close>

function words :: "byte list \<Rightarrow> byte list list" where
  "words cs = (let r = dropWhile blank cs; w = takeWhile graph r
     in if w = [] then [] else w # words (drop (length w + 1) r))"
  by auto
termination
proof (relation "measure length")
  fix cs r w assume "r = dropWhile blank cs" "w = takeWhile graph r" "w \<noteq> []"
  then have "0 < length r" by (metis length_greater_0_conv takeWhile.simps(1))
  then have "length (drop (length w + 1) r) < length r" by simp
  then show "(drop (length w + 1) r, cs) \<in> measure length"
    using \<open>r = dropWhile blank cs\<close> length_dropWhile_le [of blank cs] by simp
qed simp

declare words.simps [simp del]

lemma in_delim: "in_chars DELIM c \<longleftrightarrow> c = 0 \<or> blank c"
  by (auto simp: DELIM_def blank_def)

lemma strspn_loop_cstr:
  "cstr m (p + i) cs \<Longrightarrow> strspn_loop m p DELIM i = Some (i + length (takeWhile blank cs))"
  by (induction cs arbitrary: i) (subst strspn_loop.simps, auto simp: in_delim)+

lemma strcspn_loop_cstr:
  "cstr m (p + i) cs \<Longrightarrow> strcspn_loop m p DELIM (p + i) = Some (i + length (takeWhile graph cs))"
proof (induction cs arbitrary: i)
  case (Cons c cs)
  then show ?case
    using Cons.IH [of "Suc i"] graph_def [of c] by (subst strcspn_loop.simps) (auto simp: in_delim)
qed (subst strcspn_loop.simps, simp add: in_delim)

lemma next_token_cstr:
  assumes "cstr m p cs" "p \<noteq> 0"
  defines "r \<equiv> dropWhile blank cs" and "k \<equiv> length (takeWhile blank cs)"
  defines "w \<equiv> takeWhile graph r"
  shows "next_token m p DELIM =
    (if w = [] then Some (0, 0, m)
     else if length w = length r then Some (p + k, 0, m)
     else Some (p + k, p + k + length w + 1, m(p + k + length w := 0)))"
proof -
  have cs: "cs = takeWhile blank cs @ r" by (simp add: r_def)
  have c: "cstr m (p + k) r" using assms(1) cs cstr_suffix unfolding k_def by metis
  have "strspn m p DELIM = Some k" using strspn_loop_cstr [of m p 0 cs] assms(1) by (simp add: strspn_def k_def)
  moreover have "strcspn m (p + k) DELIM = Some (length w)"
    using strcspn_loop_cstr [of m "p + k" 0 r] c by (simp add: strcspn_def w_def)
  moreover have "m (p + k + length w) = 0 \<longleftrightarrow> length w = length r"
  proof -
    have "r = w @ dropWhile graph r" by (simp add: w_def)
    then have "cstr m (p + k + length w) (dropWhile graph r)" using c cstr_suffix by metis
    then show ?thesis
      using \<open>r = w @ dropWhile graph r\<close> by (cases "dropWhile graph r") (auto dest: arg_cong [of _ _ length])
  qed
  ultimately show ?thesis using assms(2) by (simp add: next_token_def Let_def add.assoc)
qed

lemma cstr_prefix_zero: "cstr m p (cs @ d # ds) \<Longrightarrow> m' (p + length cs) = 0 \<Longrightarrow>
  (\<And>x. p \<le> x \<Longrightarrow> x < p + length cs \<Longrightarrow> m' x = m x) \<Longrightarrow> cstr m' p cs"
  by (auto simp: cstr_def bytes_at_def nth_append)


text \<open>What the tokenizer leaves in memory: every word as a string at its token, and the line cut after its first word.\<close>

lemma token_loop_words:
  assumes "cstr m p cs" "p \<noteq> 0"
  shows "\<exists>ts m'. token_loop m p acc = Some (acc @ ts, m') \<and> list_all2 (cstr m') ts (words cs)
    \<and> (\<forall>t\<in>set ts. p \<le> t) \<and> (\<forall>x<p. m' x = m x)
    \<and> (words cs \<noteq> [] \<longrightarrow> cstr m' p (takeWhile blank cs @ hd (words cs)))"
  using assms
proof (induction cs arbitrary: m p acc rule: words.induct)
  case (1 cs)
  define r where "r = dropWhile blank cs"
  define w where "w = takeWhile graph r"
  define k where "k = length (takeWhile blank cs)"
  have W: "words cs = (if w = [] then [] else w # words (drop (length w + 1) r))"
    unfolding w_def r_def by (subst words.simps) (simp add: Let_def)
  note nt = next_token_cstr [OF "1.prems", folded r_def, folded w_def k_def]
  have cs: "cs = takeWhile blank cs @ r" "r = w @ dropWhile graph r" by (simp_all add: r_def w_def)
  have step: "token_loop m p acc = Option.bind (next_token m p DELIM) (\<lambda>(t, q, m'). if t \<noteq> 0 then token_loop m' q (acc @ [t]) else Some (acc, m'))" for m p acc
    by (subst token_loop.simps) simp
  have nil: "token_loop m 0 acc = Some (acc, m)" for m acc by (subst token_loop.simps) (simp add: next_token_def)
  show ?case
  proof (cases "w = []")
    case True
    then show ?thesis using nt W by (subst step) simp
  next
    case w: False
    have ck: "cstr m (p + k) r" using "1.prems"(1) cs(1) cstr_suffix unfolding k_def by metis
    show ?thesis
    proof (cases "length w = length r")
      case True
      then have "r = w" using cs(2) by (metis append_Nil2 append_eq_append_conv)
      moreover from this have "drop (length w + 1) r = []" by simp
      moreover have "words [] = []" by (subst words.simps) simp
      ultimately show ?thesis
        using nt W w "1.prems" ck cs(1) by (subst step) (auto simp: nil)
    next
      case False
      define q where "q = p + k + length w"
      define m1 where "m1 = m(q := 0)"
      have "dropWhile graph r \<noteq> []" using False cs(2) by (metis append_Nil2)
      then obtain d ds where ds: "dropWhile graph r = d # ds" by (cases "dropWhile graph r") auto
      then have r: "r = w @ d # ds" using cs(2) by simp
      then have dr: "drop (length w + 1) r = ds" by simp
      have "cstr m (q + 1) ds"
        using ck r cstr_suffix [of m "p + k" "w @ [d]" ds] by (simp add: q_def add.assoc)
      then have c1: "cstr m1 (q + 1) ds" by (subst cstr_cong) (auto simp: m1_def)
      obtain ts m' where IH: "token_loop m1 (q + 1) (acc @ [p + k]) = Some ((acc @ [p + k]) @ ts, m')"
        "list_all2 (cstr m') ts (words ds)" "\<forall>t\<in>set ts. q + 1 \<le> t" "\<forall>x<q + 1. m' x = m1 x"
        using "1.IH" [OF r_def w_def w, of m1 "q + 1" "acc @ [p + k]"] c1 unfolding dr by auto
      have tk: "cstr m' (p + k) w"
        using ck r IH(4) by (intro cstr_prefix_zero [of m "p + k" w d ds]) (auto simp: m1_def q_def)
      have full: "cstr m' p (takeWhile blank cs @ w)"
        using "1.prems"(1) cs(1) r IH(4)
        by (intro cstr_prefix_zero [of m p "takeWhile blank cs @ w" d ds]) (auto simp: m1_def q_def k_def)
      have "token_loop m p acc = Some (acc @ ((p + k) # ts), m')"
        using nt w False "1.prems"(2) IH(1) by (subst step) (simp add: q_def m1_def)
      then show ?thesis using IH W w tk full unfolding dr by (auto simp: m1_def q_def)
    qed
  qed
qed


section \<open>History\<close>

text \<open>The heap of a client that holds the blocks \<open>R\<close>; the allocator's contract gives the laws.\<close>

definition holds :: "heap \<Rightarrow> (nat \<rightharpoonup> nat) \<Rightarrow> bool" where
  "holds h R = ua.owns h R"

definition same_on :: "heap \<Rightarrow> heap \<Rightarrow> (nat \<rightharpoonup> nat) \<Rightarrow> bool" where
  "same_on h h' R \<longleftrightarrow> (\<forall>p n i. R p = Some n \<longrightarrow> i < n \<longrightarrow> hmem h' (p + i) = hmem h (p + i))"

lemma same_on_trans: "same_on h h' R \<Longrightarrow> same_on h' h'' R \<Longrightarrow> same_on h h'' R"
  by (simp add: same_on_def)

lemma same_on_mono: "same_on h h' R \<Longrightarrow> Q \<subseteq>\<^sub>m R \<Longrightarrow> same_on h h' Q"
  unfolding same_on_def map_le_def by (metis domI)


lemma strcpy_to_run:
  "cstr ms t cs \<Longrightarrow> holds h R \<Longrightarrow> R p = Some n \<Longrightarrow> j + length cs < n \<Longrightarrow> Q = R(p := None) \<Longrightarrow>
   \<exists>hm. strcpy_to ms t (hmem h) (p + j) = Some hm \<and> holds (h\<lparr>hmem := hm\<rparr>) R \<and> same_on h (h\<lparr>hmem := hm\<rparr>) Q
     \<and> cstr hm (p + j) cs \<and> (\<forall>x<p + j. hm x = hmem h x)"
proof (induction cs arbitrary: t h j)
  case Nil
  have "holds (poke (p + j) 0 h) R \<and> same_on h (poke (p + j) 0 h) Q"
    using ua.write_step [OF Nil(2) [unfolded holds_def] Nil(3), of j 0] Nil(4,5) unfolding holds_def same_on_def ua.keeps_def by simp
  then show ?case using Nil(1) by (subst strcpy_to.simps) (auto simp: poke_def Let_def)
next
  case (Cons c cs)
  let ?h = "poke (p + j) c h"
  have w: "holds ?h R" "same_on h ?h Q"
    using ua.write_step [OF Cons.prems(2) [unfolded holds_def] Cons.prems(3), of j c] Cons.prems(4,5)
    unfolding holds_def same_on_def ua.keeps_def by simp_all
  have "cstr ms (t + 1) cs" "Suc j + length cs < n" using Cons.prems(1,4) by simp_all
  then obtain hm where hm: "strcpy_to ms (t + 1) (hmem ?h) (p + Suc j) = Some hm" "holds (?h\<lparr>hmem := hm\<rparr>) R"
      "same_on ?h (?h\<lparr>hmem := hm\<rparr>) Q" "cstr hm (p + Suc j) cs" "\<forall>x<p + Suc j. hm x = hmem ?h x"
    using Cons.IH [OF _ w(1) Cons.prems(3) _ Cons.prems(5)] by blast
  have e: "?h\<lparr>hmem := hm\<rparr> = h\<lparr>hmem := hm\<rparr>" by (simp add: poke_def)
  have "strcpy_to ms t (hmem h) (p + j) = Some hm"
    using Cons.prems(1) hm(1) by (subst strcpy_to.simps) (simp add: poke_def Let_def)
  moreover have "cstr hm (p + j) (c # cs)" using hm(4,5) Cons.prems(1) by (simp add: poke_def)
  moreover have "\<forall>x<p + j. hm x = hmem h x" using hm(5) by (simp add: poke_def)
  ultimately show ?case using hm(2) same_on_trans [OF w(2) hm(3)] unfolding e by blast
qed

lemma new_string_run:
  assumes "cstr m a cs" "holds h R" "length cs < 256"
  shows "new_string m a h = Panic ''store through NULL'' \<or>
    (\<exists>p h'. new_string m a h = Ret p h' \<and> p \<noteq> 0 \<and> R p = None \<and> holds h' (R(p \<mapsto> length cs + 1)) \<and> same_on h h' R
       \<and> cstr (hmem h') p cs)"
proof -
  have sv: "served (length cs + 1)" using assms(3) by (simp add: served_def)
  obtain p h1 where p: "malloc (of_nat (length cs + 1)) h = Some (p, h1)"
      "holds h1 (if p = 0 then R else R(p \<mapsto> length cs + 1))" "same_on h h1 R" "p \<noteq> 0 \<longrightarrow> R p = None"
    using ua.alloc_step [OF assms(2) [unfolded holds_def] sv] unfolding holds_def same_on_def ua.keeps_def by blast
  have len: "strlen m a = Some (length cs)" by (rule strlen_cstr [OF assms(1)])
  show ?thesis
  proof (cases "p = 0")
    case True
    then show ?thesis using p(1) len by (simp add: new_string_def)
  next
    case False
    let ?R = "R(p \<mapsto> length cs + 1)"
    have h1: "holds h1 ?R" "?R p = Some (length cs + 1)" using p(2) False by simp_all
    obtain hm where hm: "strcpy_to m a (hmem h1) p = Some hm" "holds (h1\<lparr>hmem := hm\<rparr>) ?R"
        "same_on h1 (h1\<lparr>hmem := hm\<rparr>) R" "cstr hm p cs"
    proof -
      have "R = ?R(p := None)" using p(4) False by auto
      then show ?thesis using strcpy_to_run [of m a cs h1 ?R p "length cs + 1" 0 R] assms(1) h1 that by fastforce
    qed
    then have "same_on h (h1\<lparr>hmem := hm\<rparr>) R" using p(3) same_on_trans by blast
    moreover have "new_string m a h = Ret p (h1\<lparr>hmem := hm\<rparr>)"
      using p(1) len hm(1) False by (simp add: new_string_def)
    ultimately show ?thesis using False p(4) hm(2,4) by auto
  qed
qed

text \<open>The entry a slot of the ring holds after the commands \<open>H\<close>: the last one whose number falls on it.\<close>

definition slot_entry :: "byte list list \<Rightarrow> nat \<Rightarrow> byte list option" where
  "slot_entry H i = (if i < length H then Some (H ! (i + MAX_HISTORY * ((length H - 1 - i) div MAX_HISTORY))) else None)"


definition hist_blocks :: "shell \<Rightarrow> byte list list \<Rightarrow> nat \<rightharpoonup> nat" where
  "hist_blocks s H p = (if p = 0 then None else
     map_option (\<lambda>i. length (the (slot_entry H i)) + 1) (find (\<lambda>i. history s i = p) [0..<MAX_HISTORY]))"

text \<open>The history after the commands \<open>H\<close>: each slot is NULL or points to a block of its own that holds its entry.\<close>

definition hist_ok :: "shell \<Rightarrow> byte list list \<Rightarrow> bool" where
  "hist_ok s H \<longleftrightarrow> holds (sheap s) (hist_blocks s H) \<and> history_count s = length H \<and> cmd_num s = length H + 1
     \<and> (\<forall>i<MAX_HISTORY. case slot_entry H i of None \<Rightarrow> history s i = 0
          | Some c \<Rightarrow> history s i \<noteq> 0 \<and> cstr (hmem (sheap s)) (history s i) c)
     \<and> (\<forall>i<MAX_HISTORY. \<forall>j<MAX_HISTORY. history s i = history s j \<longrightarrow> history s i \<noteq> 0 \<longrightarrow> i = j)"

definition own_slots :: "(nat \<Rightarrow> nat) \<Rightarrow> bool" where
  "own_slots hs \<longleftrightarrow> (\<forall>i<MAX_HISTORY. \<forall>j<MAX_HISTORY. hs i = hs j \<longrightarrow> hs i \<noteq> 0 \<longrightarrow> i = j)"

lemma hist_blocks_iff:
  assumes "own_slots (history s)"
  shows "hist_blocks s H q = Some n \<longleftrightarrow>
    q \<noteq> 0 \<and> (\<exists>i<MAX_HISTORY. history s i = q \<and> n = length (the (slot_entry H i)) + 1)"
proof (cases "find (\<lambda>i. history s i = q) [0..<MAX_HISTORY]")
  case None
  then have "\<forall>i<MAX_HISTORY. history s i \<noteq> q" by (simp add: find_None_iff)
  then show ?thesis by (auto simp: hist_blocks_def None)
next
  case (Some i)
  then have i: "i < MAX_HISTORY" "history s i = q" using find_SomeD [OF Some] by auto
  then have "j = i" if "j < MAX_HISTORY" "history s j = q" "q \<noteq> 0" for j
    using that assms unfolding own_slots_def by auto
  moreover have "hist_blocks s H q = (if q = 0 then None else Some (length (the (slot_entry H i)) + 1))"
    by (simp add: hist_blocks_def Some)
  ultimately show ?thesis using i by (cases "q = 0") (simp, fastforce)
qed




lemma slot_entry_recent:
  assumes "1 \<le> j" "j \<le> length H" "length H < j + MAX_HISTORY"
  shows "slot_entry H ((j - 1) mod MAX_HISTORY) = Some (H ! (j - 1))"
proof -
  define i where "i = (j - 1) mod MAX_HISTORY"
  define q where "q = (j - 1) div MAX_HISTORY"
  have j: "j - 1 = i + MAX_HISTORY * q" by (simp add: i_def q_def)
  have "length H - 1 - i = MAX_HISTORY * q + (length H - j)" using assms(1,2) j by linarith
  moreover have "length H - j < MAX_HISTORY" using assms(2,3) by linarith
  ultimately have "(length H - 1 - i) div MAX_HISTORY = q" by simp
  moreover have "i < length H" using j assms(1,2) by linarith
  ultimately show ?thesis using j by (simp add: slot_entry_def i_def)
qed

lemma string_at_cstr: "cstr m p cs \<Longrightarrow> string_at m p = Some cs"
  by (induction cs arbitrary: p) (subst string_at.simps, simp)+

lemma hist_lookup:
  assumes "hist_ok s H" "1 \<le> j" "j \<le> length H" "length H < j + MAX_HISTORY"
  shows "history s (hist_index j) \<noteq> 0 \<and> cstr (hmem (sheap s)) (history s (hist_index j)) (H ! (j - 1))"
proof -
  have "hist_index j < MAX_HISTORY" by (simp add: hist_index_def MAX_HISTORY_def)
  moreover have "slot_entry H (hist_index j) = Some (H ! (j - 1))"
    using slot_entry_recent [OF assms(2-4)] by (simp add: hist_index_def)
  ultimately show ?thesis using assms(1) unfolding hist_ok_def by force
qed

lemma print_loop_entries:
  assumes "hist_ok s H"
  shows "1 \<le> i \<Longrightarrow> i + k = length H + 1 \<Longrightarrow> length H < i + MAX_HISTORY \<Longrightarrow>
    print_loop i k s = Some (map (\<lambda>n. (n + 1, H ! n)) [i - 1..<length H])"
proof (induction k arbitrary: i)
  case (Suc k)
  have "history s (hist_index i) \<noteq> 0 \<and> cstr (hmem (sheap s)) (history s (hist_index i)) (H ! (i - 1))"
    using hist_lookup [OF assms] Suc.prems by simp
  moreover have "print_loop (i + 1) k s = Some (map (\<lambda>n. (n + 1, H ! n)) [i..<length H])"
    using Suc.IH [of "i + 1"] Suc.prems by simp
  moreover have "[i - 1..<length H] = (i - 1) # [i..<length H]"
    using Suc.prems by (simp add: upt_conv_Cons)
  moreover from calculation(1) have "string_at (hmem (sheap s)) (history s (hist_index i)) = Some (H ! (i - 1))"
    by (simp add: string_at_cstr)
  ultimately show ?case using Suc.prems(1) by (simp add: Let_def)
qed simp

lemma print_history_entries:
  assumes "hist_ok s H"
  shows "print_history s = Some (map (\<lambda>n. (n + 1, H ! n)) [length H - MAX_HISTORY..<length H])"
proof -
  have "history_count s = length H" using assms by (simp add: hist_ok_def)
  then show ?thesis
    using print_loop_entries [OF assms, of "if length H > MAX_HISTORY then length H - MAX_HISTORY + 1 else 1"
        "length H + 1 - (if length H > MAX_HISTORY then length H - MAX_HISTORY + 1 else 1)"]
    by (auto simp: print_history_def Let_def MAX_HISTORY_def)
qed

section \<open>Running lines\<close>













section \<open>Properties\<close>

text \<open>The part of a line the shell looks at: without comment, without blanks and tabs at its end.\<close>

definition visible :: "byte list \<Rightarrow> byte list" where
  "visible cs = rev (dropWhile (\<lambda>c. c = 32 \<or> c = 9) (rev (takeWhile (\<lambda>c. c \<noteq> 35) cs)))"

lemma cut_comment_cstr:
  "cstr m BUF (pre @ cs) \<Longrightarrow> i = length pre \<Longrightarrow> len = length (pre @ cs) \<Longrightarrow>
   \<exists>m'. cut_comment i (length cs) m len = (m', length (pre @ takeWhile (\<lambda>c. c \<noteq> 35) cs)) \<and> cstr m' BUF (pre @ takeWhile (\<lambda>c. c \<noteq> 35) cs)"
proof (induction cs arbitrary: i pre)
  case (Cons c cs)
  have mi: "m (BUF + i) = c" using Cons.prems(1,2) by (auto simp: cstr_def bytes_at_def nth_append)
  show ?case
  proof (cases "c = 35")
    case True
    have "cstr (m(BUF + i := 0)) BUF pre"
      using Cons.prems(1,2) by (intro cstr_prefix_zero [of m BUF pre c cs]) auto
    then show ?thesis using True mi Cons.prems(2) by simp
  next
    case False
    then show ?thesis using Cons.IH [of "pre @ [c]" "Suc i"] Cons.prems mi by simp
  qed
qed simp

lemma trim_cstr:
  "cstr m BUF cs \<Longrightarrow> \<exists>m'. trim (length cs) m = (m', length (rev (dropWhile (\<lambda>c. c = 32 \<or> c = 9) (rev cs))))
     \<and> cstr m' BUF (rev (dropWhile (\<lambda>c. c = 32 \<or> c = 9) (rev cs)))"
proof (induction cs arbitrary: m rule: rev_induct)
  case (snoc c cs)
  have mc: "m (BUF + length cs) = c" using snoc.prems by (auto simp: cstr_def bytes_at_def nth_append)
  show ?case
  proof (cases "c = 32 \<or> c = 9")
    case True
    have "cstr (m(BUF + length cs := 0)) BUF cs"
      using snoc.prems by (intro cstr_prefix_zero [of m BUF cs c "[]"]) auto
    then show ?thesis using snoc.IH True mc by simp
  next
    case False
    then show ?thesis using mc snoc.prems by auto
  qed
qed simp

text \<open>The tokenizer finds the words of a line. Run on a line in memory it ends, and its tokens are, in order, strings in
  the buffer that spell the maximal runs of characters other than blank, tab and newline; the buffer itself
  is cut off after its first word.\<close>

theorem tokenizer_finds_words:
  assumes "cstr m p cs" "p \<noteq> 0"
  shows "\<exists>ts m'. token_loop m p [] = Some (ts, m') \<and> list_all2 (cstr m') ts (words cs)
    \<and> (words cs \<noteq> [] \<longrightarrow> cstr m' p (takeWhile blank cs @ hd (words cs)))"
  using token_loop_words [OF assms, of "[]"] by auto

definition mem_of :: "nat \<Rightarrow> byte list \<Rightarrow> mem" where
  "mem_of a cs x = (if a \<le> x \<and> x < a + length cs then cs ! (x - a) else 0)"

lemma mem_of_cstr: "0 \<notin> set cs \<Longrightarrow> cstr (mem_of a cs) a cs"
  by (simp add: cstr_def bytes_at_def mem_of_def)

theorem tokenizer_finds_words_witness:
  "\<exists>ts m'. token_loop (mem_of 64 [108, 115, 32, 45, 108]) 64 [] = Some (ts, m') \<and> list_all2 (cstr m') ts [[108, 115], [45, 108]]"
proof -
  have "cstr (mem_of 64 [108, 115, 32, 45, 108]) 64 [108, 115, 32, 45, 108]" by (rule mem_of_cstr) simp
  moreover have "words [108, 115, 32, 45, 108] = [[108, 115], [45, 108]]" by (simp add: words.simps blank_def graph_def)
  ultimately show ?thesis using tokenizer_finds_words [of "mem_of 64 [108, 115, 32, 45, 108]" 64] by (metis zero_neq_numeral)
qed


definition shell0 :: shell where
  "shell0 = \<lparr>sheap = heap0, history = (\<lambda>_. 0), history_count = 0, cmd_num = 1, exit_status = 0, events = []\<rparr>"

lemma shell0_ok: "hist_ok shell0 []"
proof -
  have "heap_inv heap0 {}" unfolding heap_inv_def using heap0_rep by fastforce
  then have "holds heap0 (\<lambda>_. None)" unfolding holds_def ua.owns_def by auto
  moreover have "hist_blocks shell0 [] = (\<lambda>_. None)"
    by (auto simp: hist_blocks_def shell0_def find_None_iff fun_eq_iff)
  ultimately show ?thesis by (simp add: hist_ok_def shell0_def slot_entry_def)
qed

definition env0 :: sysenv where
  "env0 = \<lparr>sys_chdir = (\<lambda>_ _. 0), sys_fork = (\<lambda>_. True), sys_exec = (\<lambda>_ _. Some 3)\<rparr>"


text \<open>\<open>history\<close> lists exactly the last 100 recorded commands, oldest first, each with its number.\<close>

theorem history_lists_last:
  assumes "hist_ok s H"
  shows "print_history s = Some (map (\<lambda>n. (n + 1, H ! n)) [length H - 100..<length H])"
  using print_history_entries [OF assms] by (simp add: MAX_HISTORY_def)

theorem history_lists_last_witness: "print_history shell0 = Some []"
  using history_lists_last [OF shell0_ok] by simp



text \<open>Reading commands from standard input, the shell never ends at end of file: \<open>gets\<close> then delivers the empty line for
  ever.\<close>

theorem stdin_eof_spins: "main_loop env False m [] s = None"
proof -
  have K: "ff \<or> inp \<noteq> []" if "main_loop env ff m inp s = Some r" for env ff m inp s r
  proof (rule main_loop.raw_induct [where P = "\<lambda>env ff m inp s r. ff \<or> inp \<noteq> []", OF _ that])
    fix f env ff m inp s r
    assume IH: "\<And>env ff m inp s r. f env ff m inp s = Some r \<Longrightarrow> ff \<or> inp \<noteq> []"
      and run: "(case if ff then Some (file_line 0 (BUFSIZE - 1) m inp) else map_option Some (stdin_line m inp) of
        None \<Rightarrow> None | Some None \<Rightarrow> Some (Ret 0 s)
      | Some (Some (m, len, inp)) \<Rightarrow>
          case process_line env m len s of Ret None s \<Rightarrow> f env ff m inp s
          | Ret (Some st) s \<Rightarrow> Some (Ret st s) | Panic e \<Rightarrow> Some (Panic e)
          | Sleep c s \<Rightarrow> Some (Sleep c s) | Diverge \<Rightarrow> None) = Some r"
    have "stdin_line m [] = Some (m(BUF := 0), 0, [])"
      by (simp add: stdin_line_def BUFSIZE_def gets.simps eval_nat_numeral strlen_def strlen_loop.simps)
    moreover have "process_line env (m(BUF := 0)) 0 s = Ret None s" by (simp add: process_line_def)
    ultimately show "ff \<or> inp \<noteq> []" using run IH by (cases ff; cases inp) fastforce+
  qed
  show ?thesis
  proof (cases "main_loop env False m [] s")
    case (Some r)
    from K [OF this] show ?thesis by simp
  qed
qed

text \<open>A line of 128 words, which fits into the 255 characters of the buffer, is stored past the end of \<open>tokens\<close>.\<close>

theorem tokens_overflow:
  assumes "cstr m BUF cs" "cs \<noteq> []" "hd cs \<noteq> 35" "128 \<le> length (words (visible cs))"
  shows "process_line env m (length cs) s = Panic ''store past the end of tokens''"
proof -
  obtain m1 where c: "cut_comment 0 (length cs) m (length cs) = (m1, length (takeWhile (\<lambda>c. c \<noteq> 35) cs))"
      "cstr m1 BUF (takeWhile (\<lambda>c. c \<noteq> 35) cs)"
    using cut_comment_cstr [of m "[]" cs 0] assms(1) by auto
  obtain m2 where t: "trim (length (takeWhile (\<lambda>c. c \<noteq> 35) cs)) m1 = (m2, length (visible cs))" "cstr m2 BUF (visible cs)"
    using trim_cstr [OF c(2)] by (auto simp: visible_def)
  obtain ts m3 where ts: "token_loop m2 BUF [] = Some (ts, m3)" "list_all2 (cstr m3) ts (words (visible cs))"
    using token_loop_words [OF t(2), of "[]"] by (auto simp: BUF_def)
  have "NTOKENS \<le> length ts" using list_all2_lengthD [OF ts(2)] assms(4) by (simp add: NTOKENS_def)
  moreover have "visible cs \<noteq> []" using assms(4) by (auto simp: words.simps)
  moreover from this have "m BUF \<noteq> 0" "m BUF \<noteq> 35" "m2 BUF \<noteq> 0"
    using assms(1,2,3) t(2) by (cases cs; cases "visible cs"; simp)+
  ultimately show ?thesis using assms(2) by (simp add: process_line_def Let_def c(1) t(1) ts(1))
qed

lemma words_repeated: "words (concat (replicate n [97, 32]) @ [97]) = replicate (Suc n) [97]"
proof (induction n)
  case 0
  show ?case by (simp add: words.simps blank_def graph_def)
next
  case (Suc n)
  then show ?case by (subst words.simps) (simp add: blank_def graph_def Let_def)
qed

theorem tokens_overflow_witness:
  "process_line env0 (mem_of BUF (concat (replicate 127 [97, 32]) @ [97])) 255 shell0 = Panic ''store past the end of tokens''"
proof -
  let ?cs = "concat (replicate 127 [97, 32]) @ [97] :: byte list"
  have st: "set ?cs \<subseteq> {97, 32}" by auto
  then have tw: "takeWhile (\<lambda>c. c \<noteq> 35) ?cs = ?cs" by (auto simp: takeWhile_eq_all_conv)
  have v: "visible ?cs = ?cs" unfolding visible_def tw by simp
  have l: "length ?cs = 255" by (simp add: length_concat sum_list_replicate)
  have "cstr (mem_of BUF ?cs) BUF ?cs" using st by (intro mem_of_cstr) auto
  moreover have "hd ?cs \<in> {97, 32}" using st hd_in_set [of ?cs] by blast
  then have "hd ?cs \<noteq> 35" by auto
  ultimately have "process_line env0 (mem_of BUF ?cs) (length ?cs) shell0 = Panic ''store past the end of tokens''"
    by (intro tokens_overflow) (simp_all only: v words_repeated, simp_all)
  then show ?thesis unfolding l .
qed

text \<open>Looking a command up by its number gives a copy of it on the heap while it is among the last 100; a smaller number
  is answered too, with the text of a later command that took its place in the ring.\<close>

theorem history_by_number:
  assumes "hist_ok s H" "0 < num" "num \<le> length H" "num \<le> n" "n \<le> length H" "length H < n + 100" "n mod 100 = num mod 100"
    and "length (H ! (n - 1)) < 256"
  shows "get_history_by_num (int num) s = Panic ''store through NULL'' \<or>
    (\<exists>q s'. get_history_by_num (int num) s = Ret q s' \<and> cstr (hmem (sheap s')) q (H ! (n - 1)))"
proof -
  have "(num - 1) mod 100 = (n - 1) mod 100"
    using assms(2,4,7) mod_eq_dvd_iff_nat [of num n 100] mod_eq_dvd_iff_nat [of "num - 1" "n - 1" 100] by auto
  then have ix: "hist_index num = hist_index n" by (simp add: hist_index_def MAX_HISTORY_def)
  have e: "history s (hist_index n) \<noteq> 0 \<and> cstr (hmem (sheap s)) (history s (hist_index n)) (H ! (n - 1))"
    using hist_lookup [OF assms(1), of n] assms(2,4-6) by (simp add: MAX_HISTORY_def)
  have h: "holds (sheap s) (hist_blocks s H)" "history_count s = length H" using assms(1) by (simp_all add: hist_ok_def)
  have "get_history_by_num (int num) s = copy_entry (history s (hist_index n)) s"
    using assms(2,3) h(2) e ix by (simp add: get_history_by_num_def Let_def)
  moreover note new_string_run [OF _ h(1) assms(8), of "hmem (sheap s)" "history s (hist_index n)"]
  ultimately show ?thesis using e by (auto simp: copy_entry_def)
qed

definition shell1 :: shell where
  "shell1 = shell0\<lparr>sheap := heap1, history := (\<lambda>_. 0)(0 := 20512), history_count := 1, cmd_num := 2\<rparr>"

lemma shell1_ok: "hist_ok shell1 [[]]"
proof -
  have own: "own_slots (history shell1)" by (simp add: own_slots_def shell1_def)
  have b: "hist_blocks shell1 [[]] q = Some n \<longleftrightarrow> q = 20512 \<and> n = 1" for q n
    unfolding hist_blocks_iff [OF own] by (auto simp: shell1_def slot_entry_def MAX_HISTORY_def)
  have "heap_inv heap1 {(20512, 32)}" unfolding heap_inv_def using heap1_rep by fastforce
  then have "holds heap1 (hist_blocks shell1 [[]])" unfolding holds_def ua.owns_def b by fastforce
  moreover have "hmem heap1 20512 = 0"
    by (simp add: heap1_def heap0_def set_prev_block_def set_next_block_def set_blk_size_def store64_def mem_simps)
  moreover have "sheap shell1 = heap1" "history shell1 i = (if i = 0 then 20512 else 0)" "history_count shell1 = 1"
    "cmd_num shell1 = 2" for i by (simp_all add: shell1_def)
  ultimately show ?thesis by (simp add: hist_ok_def slot_entry_def)
qed

theorem history_by_number_witness:
  "get_history_by_num 1 shell1 = Panic ''store through NULL'' \<or>
    (\<exists>q s'. get_history_by_num 1 shell1 = Ret q s' \<and> cstr (hmem (sheap s')) q [])"
  using history_by_number [OF shell1_ok, of 1 1] by simp

end
