(* ===== verification/Grep.thy ===== *)
theory Grep
  imports Prelude
begin

text \<open>
  The pattern matcher and line loop of \<^verbatim>\<open>user/grep.c\<close>. A C string is the list of its characters, the NUL
  after them implied: \<open>re[1]\<close> of a string of one character is NUL. The buffer of the line loop is the list of the
  bytes in it; a read delivers the next chunk of the input, of any length up to the room left.

  The matcher is proved equivalent to the usual semantics of its patterns: a sequence of characters, dots and starred ones
  denotes a language, and a pattern matches a text when some factor of it is in the language, at the start or
  end if so anchored. The line loop writes the matching lines whatever the sizes of the reads.
\<close>

section \<open>Matcher\<close>

definition ch :: "byte list \<Rightarrow> nat \<Rightarrow> byte" where
  "ch s i = (if i < length s then s ! i else 0)"

function matchhere :: "byte list \<Rightarrow> byte list \<Rightarrow> bool"
  and matchstar :: "byte \<Rightarrow> byte list \<Rightarrow> byte list \<Rightarrow> bool" where
  "matchhere re text =
     (if re = [] then True
      else if ch re 1 = 42 then matchstar (ch re 0) (drop 2 re) text
      else if ch re 0 = 36 \<and> length re = 1 then text = []
      else if text \<noteq> [] \<and> (ch re 0 = 46 \<or> ch re 0 = ch text 0) then matchhere (drop 1 re) (drop 1 text)
      else False)"
| "matchstar c re text =
     (if matchhere re text then True
      else if text \<noteq> [] \<and> (ch text 0 = c \<or> c = 46) then matchstar c re (drop 1 text)
      else False)"
  by pat_completeness auto
termination
  by (relation "measure (\<lambda>x. case x of Inl (re, t) \<Rightarrow> 2 * length re + length t | Inr (c, re, t) \<Rightarrow> 2 * length re + length t + 1)")
    (auto simp: ch_def neq_Nil_conv split: if_splits)

declare matchhere.simps [simp del] matchstar.simps [simp del]

fun match_from :: "byte list \<Rightarrow> byte list \<Rightarrow> bool" where
  "match_from re [] = matchhere re []"
| "match_from re (c # text) = (matchhere re (c # text) \<or> match_from re text)"

definition match :: "byte list \<Rightarrow> byte list \<Rightarrow> bool" where
  "match re text = (if ch re 0 = 94 then matchhere (drop 1 re) text else match_from re text)"

section \<open>Line loop\<close>

text \<open>\<open>strchr(p, '\n')\<close> in the buffer: the characters before the newline, if there is one before a NUL.\<close>

fun upto_newline :: "byte list \<Rightarrow> byte list option" where
  "upto_newline [] = None"
| "upto_newline (c # cs) = (if c = 0 then None else if c = 10 then Some [] else map_option (Cons c) (upto_newline cs))"

text \<open>The inner loop: what is written and the rest of the buffer.\<close>

lemma upto_newline_length: "upto_newline p = Some l \<Longrightarrow> length l < length p"
  by (induction p arbitrary: l) (auto split: if_splits)

function grep_lines :: "byte list \<Rightarrow> byte list \<Rightarrow> byte list list \<times> byte list" where
  "grep_lines pattern p = (case upto_newline p of
      None \<Rightarrow> ([], p)
    | Some line \<Rightarrow>
      (let (out, rest) = grep_lines pattern (drop (length line + 1) p)
       in (if match pattern line then (line @ [10]) # out else out, rest)))"
  by auto
termination
  by (relation "measure (\<lambda>(_, p). length p)") (auto dest: upto_newline_length)

declare grep_lines.simps [simp del]

definition GREPBUF :: nat where "GREPBUF = 1024"

text \<open>The outer loop over the chunks \<open>read\<close> delivers; an empty one is end of file. A \<open>read\<close> into no room delivers none.\<close>

fun grep :: "byte list \<Rightarrow> byte list \<Rightarrow> byte list list \<Rightarrow> byte list list" where
  "grep pattern buf [] = []"
| "grep pattern buf (chunk # chunks) =
     (let n = take (GREPBUF - length buf - 1) chunk
      in if n = [] then []
         else let (out, rest) = grep_lines pattern (buf @ n)
              in out @ grep pattern rest chunks)"

section \<open>Reference semantics\<close>

datatype atom = Chr byte | Dot

datatype item = Once atom | Many atom

primrec atom_lang :: "atom \<Rightarrow> byte list set" where
  "atom_lang (Chr c) = {[c]}"
| "atom_lang Dot = {[c] | c. True}"

definition star :: "byte list set \<Rightarrow> byte list set" where
  "star A = {concat ws | ws. set ws \<subseteq> A}"

primrec item_lang :: "item \<Rightarrow> byte list set" where
  "item_lang (Once a) = atom_lang a"
| "item_lang (Many a) = star (atom_lang a)"

primrec lang :: "item list \<Rightarrow> byte list set" where
  "lang [] = {[]}"
| "lang (i # is) = {u @ v | u v. u \<in> item_lang i \<and> v \<in> lang is}"

definition atom_of :: "byte \<Rightarrow> atom" where
  "atom_of c = (if c = 46 then Dot else Chr c)"

text \<open>What a pattern means: its items, and whether it is anchored at the end.\<close>

fun parse :: "byte list \<Rightarrow> item list \<times> bool" where
  "parse [] = ([], False)"
| "parse [c] = (if c = 36 then ([], True) else ([Once (atom_of c)], False))"
| "parse (c # d # re) =
     (if d = 42 then (let (is, e) = parse re in (Many (atom_of c) # is, e))
      else (let (is, e) = parse (d # re) in (Once (atom_of c) # is, e)))"

definition here_sem :: "byte list \<Rightarrow> byte list \<Rightarrow> bool" where
  "here_sem re text \<longleftrightarrow> (\<exists>u v. text = u @ v \<and> u \<in> lang (fst (parse re)) \<and> (snd (parse re) \<longrightarrow> v = []))"

definition match_sem :: "byte list \<Rightarrow> byte list \<Rightarrow> bool" where
  "match_sem re text \<longleftrightarrow>
     (if ch re 0 = 94 then here_sem (drop 1 re) text else \<exists>u v. text = u @ v \<and> here_sem re v)"

lemma star_Nil: "[] \<in> star A"
  unfolding star_def by (auto intro: exI [of _ "[]"])

lemma star_step: "u \<in> star A \<longleftrightarrow> u = [] \<or> (\<exists>w v. u = w @ v \<and> w \<in> A \<and> v \<in> star A)"
proof
  assume "u \<in> star A"
  then obtain ws where "u = concat ws" "set ws \<subseteq> A" by (auto simp: star_def)
  then show "u = [] \<or> (\<exists>w v. u = w @ v \<and> w \<in> A \<and> v \<in> star A)"
    by (cases ws) (auto simp: star_def)
next
  assume "u = [] \<or> (\<exists>w v. u = w @ v \<and> w \<in> A \<and> v \<in> star A)"
  then show "u \<in> star A"
  proof
    assume "\<exists>w v. u = w @ v \<and> w \<in> A \<and> v \<in> star A"
    then obtain w ws where "u = w @ concat ws" "w \<in> A" "set ws \<subseteq> A" by (auto simp: star_def)
    then show ?thesis unfolding star_def by (intro CollectI exI [of _ "w # ws"]) auto
  qed (simp add: star_Nil)
qed

lemma atom_of_lang: "w \<in> atom_lang (atom_of c) \<longleftrightarrow> (\<exists>x. w = [x] \<and> (c = 46 \<or> x = c))"
  by (auto simp: atom_of_def)

lemma many_step:
  "(\<exists>u v. text = u @ v \<and> u \<in> star (atom_lang (atom_of c)) \<and> P v) \<longleftrightarrow>
   P text \<or> (\<exists>x t. text = x # t \<and> (c = 46 \<or> x = c) \<and> (\<exists>u v. t = u @ v \<and> u \<in> star (atom_lang (atom_of c)) \<and> P v))"
  (is "?L \<longleftrightarrow> ?R")
proof
  assume ?L
  then obtain u v where u: "text = u @ v" "u \<in> star (atom_lang (atom_of c))" "P v" by blast
  from u(2) [unfolded star_step [of u]] show ?R
  proof
    assume "\<exists>w v. u = w @ v \<and> w \<in> atom_lang (atom_of c) \<and> v \<in> star (atom_lang (atom_of c))"
    then obtain x t where "u = x # t" "c = 46 \<or> x = c" "t \<in> star (atom_lang (atom_of c))" by (auto simp: atom_of_lang)
    then show ?R using u by auto
  qed (use u in simp)
next
  assume ?R
  then show ?L
  proof
    assume "\<exists>x t. text = x # t \<and> (c = 46 \<or> x = c) \<and> (\<exists>u v. t = u @ v \<and> u \<in> star (atom_lang (atom_of c)) \<and> P v)"
    then obtain x u v where u: "text = x # u @ v" "c = 46 \<or> x = c" "u \<in> star (atom_lang (atom_of c))" "P v" by blast
    then have "x # u \<in> star (atom_lang (atom_of c))"
      by (subst star_step) (intro disjI2 exI [of _ "[x]"] exI [of _ u], simp add: atom_of_lang)
    then show ?L using u by (intro exI [of _ "x # u"] exI [of _ v]) simp
  qed (use star_Nil in \<open>fastforce intro: exI [of _ "[]"]\<close>)
qed

lemma here_sem_Nil: "here_sem [] text"
  by (simp add: here_sem_def)

lemma lang_split:
  "(\<exists>u v. t = u @ v \<and> u \<in> lang (i # is) \<and> Q v) \<longleftrightarrow>
   (\<exists>a b. t = a @ b \<and> a \<in> item_lang i \<and> (\<exists>u v. b = u @ v \<and> u \<in> lang is \<and> Q v))" (is "?L \<longleftrightarrow> ?R")
proof
  assume ?L
  then obtain a u v where "t = (a @ u) @ v" "a \<in> item_lang i" "u \<in> lang is" "Q v" by auto
  then show ?R by (intro exI [of _ a] exI [of _ "u @ v"]) auto
next
  assume ?R
  then obtain a u v where *: "t = a @ u @ v" "a \<in> item_lang i" "u \<in> lang is" "Q v" by blast
  then have "a @ u \<in> lang (i # is)" by auto
  then show ?L using * by (intro exI [of _ "a @ u"] exI [of _ v]) simp
qed

lemma here_sem_star:
  "here_sem (c # 42 # re) t \<longleftrightarrow> (\<exists>u v. t = u @ v \<and> u \<in> star (atom_lang (atom_of c)) \<and> here_sem re v)"
proof -
  have p: "parse (c # 42 # re) = (Many (atom_of c) # fst (parse re), snd (parse re))" by (simp add: case_prod_unfold Let_def)
  show ?thesis unfolding here_sem_def p fst_conv snd_conv lang_split by simp
qed

lemma here_sem_end: "here_sem [36] t \<longleftrightarrow> t = []"
  by (simp add: here_sem_def)

lemma here_sem_once:
  assumes "re = [] \<longrightarrow> c \<noteq> 36" "re \<noteq> [] \<longrightarrow> hd re \<noteq> 42"
  shows "here_sem (c # re) t \<longleftrightarrow> (\<exists>x t'. t = x # t' \<and> (c = 46 \<or> x = c) \<and> here_sem re t')"
proof -
  have p: "parse (c # re) = (Once (atom_of c) # fst (parse re), snd (parse re))"
    using assms by (cases re) (auto simp: case_prod_unfold Let_def)
  have "here_sem (c # re) t \<longleftrightarrow> (\<exists>a b. t = a @ b \<and> a \<in> item_lang (Once (atom_of c)) \<and> here_sem re b)"
    unfolding here_sem_def p fst_conv snd_conv lang_split ..
  then show ?thesis by (simp add: atom_of_lang) (metis append_Cons append_Nil)
qed

lemma match_correct_here:
  "matchhere re t \<longleftrightarrow> here_sem re t"
  "matchstar c re' t' \<longleftrightarrow> (\<exists>u v. t' = u @ v \<and> u \<in> star (atom_lang (atom_of c)) \<and> here_sem re' v)"
proof (induction re t and c re' t' rule: matchhere_matchstar.induct)
  case (1 re t)
  consider "re = []" | c r where "re = c # 42 # r" | "re = [36]"
    | c r where "re = c # r" "r = [] \<longrightarrow> c \<noteq> 36" "r \<noteq> [] \<longrightarrow> hd r \<noteq> 42"
    by (cases re rule: parse.cases) (metis list.sel(1) not_Cons_self2)+
  then show ?case
  proof cases
    case 1
    then show ?thesis by (simp add: matchhere.simps here_sem_Nil)
  next
    case (2 c r)
    then show ?thesis using "1.IH"(1) by (subst matchhere.simps) (simp add: ch_def here_sem_star)
  next
    case 3
    then show ?thesis by (subst matchhere.simps) (simp add: ch_def here_sem_end)
  next
    case (4 c r)
    then have c: "ch re 1 \<noteq> 42" "\<not> (ch re 0 = 36 \<and> length re = 1)" "re \<noteq> []" "ch re 0 = c" "drop 1 re = r"
      by (cases r; auto simp: ch_def)+
    have "matchhere re t \<longleftrightarrow> t \<noteq> [] \<and> (c = 46 \<or> c = ch t 0) \<and> here_sem r (drop 1 t)"
      using "1.IH"(2) c by (subst matchhere.simps) auto
    then show ?thesis unfolding \<open>re = c # r\<close> here_sem_once [OF 4(2,3)] by (cases t) (auto simp: ch_def)
  qed
next
  case (2 c re t)
  have "matchstar c re t \<longleftrightarrow> here_sem re t \<or> (t \<noteq> [] \<and> (ch t 0 = c \<or> c = 46)
      \<and> (\<exists>u v. drop 1 t = u @ v \<and> u \<in> star (atom_lang (atom_of c)) \<and> here_sem re v))"
    using "2.IH" by (subst matchstar.simps) auto
  then show ?case unfolding many_step [of t c] by (cases t) (auto simp: ch_def)
qed

lemma match_from_correct: "match_from re text \<longleftrightarrow> (\<exists>u v. text = u @ v \<and> here_sem re v)"
proof (induction "text")
  case (Cons c t)
  show ?case
  proof
    assume "match_from re (c # t)"
    then consider "here_sem re (c # t)" | u v where "t = u @ v" "here_sem re v"
      using Cons.IH match_correct_here(1) by auto
    then show "\<exists>u v. c # t = u @ v \<and> here_sem re v"
    proof cases
      case 1
      then show ?thesis by (intro exI [of _ "[]"] exI [of _ "c # t"]) simp
    next
      case (2 u v)
      then show ?thesis by (intro exI [of _ "c # u"] exI [of _ v]) simp
    qed
  next
    assume "\<exists>u v. c # t = u @ v \<and> here_sem re v"
    then obtain u v where "c # t = u @ v" "here_sem re v" by blast
    then show "match_from re (c # t)" using Cons.IH match_correct_here(1) by (cases u) auto
  qed
qed (simp add: match_correct_here(1))

lemma match_correct: "match re text = match_sem re text"
  by (simp add: match_def match_sem_def match_from_correct match_correct_here(1))

text \<open>C13. The matcher decides exactly the language of the pattern: \<open>match\<close> returns 1 if and only if some part of the text (its start under
  a \<open>^\<close>, its end under a \<open>$\<close>) is a sequence of the characters, dots and starred characters the pattern spells.\<close>

theorem match_decides_language: "match re text \<longleftrightarrow> match_sem re text"
  by (rule match_correct)

section \<open>Lines\<close>

text \<open>The complete lines of a text, without their newlines, and what follows the last newline.\<close>

fun lines_of :: "byte list \<Rightarrow> byte list list \<times> byte list" where
  "lines_of [] = ([], [])"
| "lines_of (c # cs) = (let (ls, r) = lines_of cs in
     if c = 10 then ([] # ls, r) else (case ls of [] \<Rightarrow> ([], c # r) | l # ls \<Rightarrow> ((c # l) # ls, r)))"

lemma upto_newline_lines:
  "0 \<notin> set p \<Longrightarrow> (case upto_newline p of None \<Rightarrow> lines_of p = ([], p)
     | Some l \<Rightarrow> lines_of p = (l # fst (lines_of (drop (length l + 1) p)), snd (lines_of (drop (length l + 1) p))))"
  by (induction p) (auto split: option.splits list.splits prod.splits)

lemma grep_lines_spec:
  "0 \<notin> set p \<Longrightarrow> grep_lines pattern p = (map (\<lambda>l. l @ [10]) (filter (match pattern) (fst (lines_of p))), snd (lines_of p))"
proof (induction pattern p rule: grep_lines.induct)
  case (1 pattern p)
  note U = upto_newline_lines [OF "1.prems"]
  show ?case
  proof (cases "upto_newline p")
    case None
    then show ?thesis using U by (subst grep_lines.simps) simp
  next
    case (Some l)
    have "0 \<notin> set (drop (length l + 1) p)" using "1.prems" set_drop_subset by fastforce
    then show ?thesis using "1.IH" [OF Some] U Some by (subst grep_lines.simps) (simp add: case_prod_unfold Let_def)
  qed
qed

lemma lines_of_rest: "lines_of (snd (lines_of p)) = ([], snd (lines_of p))"
  by (induction p) (auto split: prod.splits list.splits simp: Let_def)

lemma lines_of_append:
  "lines_of (p @ q) = (fst (lines_of p) @ fst (lines_of (snd (lines_of p) @ q)), snd (lines_of (snd (lines_of p) @ q)))"
proof (induction p)
  case (Cons c p)
  then show ?case
    by (auto simp: case_prod_unfold Let_def split: list.splits)
qed simp

lemma rest_nonzero: "0 \<notin> set p \<Longrightarrow> 0 \<notin> set (snd (lines_of p))"
  by (induction p) (auto split: prod.splits list.splits simp: Let_def)

text \<open>Chunks that fit: none empty, and with what is left in the buffer each finds room.\<close>

fun fits :: "byte list \<Rightarrow> byte list list \<Rightarrow> bool" where
  "fits buf [] \<longleftrightarrow> True"
| "fits buf (n # ns) \<longleftrightarrow> n \<noteq> [] \<and> length buf + length n < GREPBUF \<and> fits (snd (lines_of (buf @ n))) ns"

lemma grep_spec:
  "0 \<notin> set buf \<Longrightarrow> 0 \<notin> set (concat ns) \<Longrightarrow> lines_of buf = ([], buf) \<Longrightarrow> fits buf ns \<Longrightarrow>
   grep pattern buf ns = map (\<lambda>l. l @ [10]) (filter (match pattern) (fst (lines_of (buf @ concat ns))))"
proof (induction ns arbitrary: buf)
  case (Cons n ns)
  let ?r = "snd (lines_of (buf @ n))"
  have z: "0 \<notin> set (buf @ n)" using Cons.prems by auto
  have "grep pattern ?r ns = map (\<lambda>l. l @ [10]) (filter (match pattern) (fst (lines_of (?r @ concat ns))))"
    using Cons.prems rest_nonzero [OF z] lines_of_rest by (intro Cons.IH) auto
  moreover have "lines_of (buf @ concat (n # ns)) = (fst (lines_of (buf @ n)) @ fst (lines_of (?r @ concat ns)),
      snd (lines_of (?r @ concat ns)))"
    using lines_of_append [of "buf @ n" "concat ns"] by simp
  moreover have "take (GREPBUF - length buf - 1) n = n" "n \<noteq> []" using Cons.prems(4) by auto
  ultimately show ?case using grep_lines_spec [OF z] by simp
qed simp

text \<open>C14. However the input is cut into reads, \<open>grep\<close> writes exactly the lines of the input that match the pattern, in order, as long
  as the unfinished line always leaves room in the buffer. What follows the last newline is not looked at.\<close>

theorem grep_writes_matching_lines:
  assumes "0 \<notin> set (concat ns)" "fits [] ns"
  shows "grep pattern [] ns = map (\<lambda>l. l @ [10]) (filter (match_sem pattern) (fst (lines_of (concat ns))))"
proof -
  have "match pattern = match_sem pattern" using match_correct by auto
  then show ?thesis using grep_spec [of "[]" ns pattern] assms by simp
qed

theorem grep_writes_matching_lines_witness:
  "grep [97] [] [[98, 10, 99], [97, 10, 97]] = [[99, 97, 10]]"
proof -
  have "match_sem [97] = match [97]" using match_correct by auto
  then show ?thesis
    using grep_writes_matching_lines [of "[[98, 10, 99], [97, 10, 97]]" "[97]"]
    by (simp add: GREPBUF_def match_def matchhere.simps ch_def)
qed

end
