(* ===== verification/Page_Pool.thy ===== *)
theory Page_Pool
  imports Prelude
begin

text \<open>
  What the rest of the kernel relies on when it takes, shares and gives back physical pages
  (\<^verbatim>\<open>kernel/kalloc.c\<close>), as a locale. \<open>refs p\<close> counts the owners of page \<open>p\<close>. \<open>pool_run\<close> is a client: a
  sequence of requests, of which it skips those for pages nobody owns. The client's theorem: a
  page keeps its bytes as long as it is given back fewer times than it has owners, however many
  pages are taken and shared meanwhile.
\<close>

datatype page_request = Take | Share nat | Drop nat

type_synonym owners = "nat \<Rightarrow> nat"

fun pool_step ::
  "('s \<Rightarrow> nat \<times> 's) \<Rightarrow> (nat \<Rightarrow> 's \<Rightarrow> 's) \<Rightarrow> (nat \<Rightarrow> 's \<Rightarrow> 's) \<Rightarrow> page_request
   \<Rightarrow> 's \<times> owners \<Rightarrow> 's \<times> owners" where
  "pool_step al rf fr Take (s, refs) =
     (let (p, s') = al s in (s', if p = 0 then refs else refs(p := 1)))"
| "pool_step al rf fr (Share p) (s, refs) =
     (if refs p = 0 then (s, refs) else (rf p s, refs(p := refs p + 1)))"
| "pool_step al rf fr (Drop p) (s, refs) =
     (if refs p = 0 then (s, refs) else (fr p s, refs(p := refs p - 1)))"

definition pool_run ::
  "('s \<Rightarrow> nat \<times> 's) \<Rightarrow> (nat \<Rightarrow> 's \<Rightarrow> 's) \<Rightarrow> (nat \<Rightarrow> 's \<Rightarrow> 's) \<Rightarrow> page_request list
   \<Rightarrow> 's \<times> owners \<Rightarrow> 's \<times> owners" where
  "pool_run al rf fr rs c = foldl (\<lambda>c r. pool_step al rf fr r c) c rs"

locale page_pool =
  fixes pages :: "nat set"
    and ok :: "'s \<Rightarrow> owners \<Rightarrow> bool"
    and take :: "'s \<Rightarrow> nat \<times> 's"
    and share :: "nat \<Rightarrow> 's \<Rightarrow> 's"
    and drop :: "nat \<Rightarrow> 's \<Rightarrow> 's"
    and contents :: "'s \<Rightarrow> nat \<Rightarrow> nat \<Rightarrow> byte"
  assumes take_law: "ok s refs \<Longrightarrow> \<exists>p s'. take s = (p, s')
      \<and> (p = 0 \<and> s' = s \<and> (\<forall>q\<in>pages. 0 < refs q)
         \<or> p \<noteq> 0 \<and> p \<in> pages \<and> refs p = 0 \<and> ok s' (refs(p := 1))
           \<and> (\<forall>q\<in>pages. q \<noteq> p \<longrightarrow> contents s' q = contents s q))"
    and share_law: "ok s refs \<Longrightarrow> p \<in> pages \<Longrightarrow> 0 < refs p \<Longrightarrow> ok (share p s) (refs(p := refs p + 1))
      \<and> (\<forall>q\<in>pages. contents (share p s) q = contents s q)"
    and drop_law: "ok s refs \<Longrightarrow> p \<in> pages \<Longrightarrow> 0 < refs p \<Longrightarrow> ok (drop p s) (refs(p := refs p - 1))
      \<and> (\<forall>q\<in>pages. q \<noteq> p \<or> 1 < refs p \<longrightarrow> contents (drop p s) q = contents s q)"
    and owned: "ok s refs \<Longrightarrow> 0 < refs p \<Longrightarrow> p \<in> pages"
begin

lemma step_safe:
  assumes "ok s refs" "pool_step take share drop r (s, refs) = (s', refs')"
  shows "ok s' refs' \<and> (\<forall>q. (if r = Drop q then 1 else 0) < refs q \<longrightarrow>
     refs q \<le> refs' q + (if r = Drop q then 1 else 0) \<and> contents s' q = contents s q)"
proof (cases r)
  case Take
  obtain p t where t: "take s = (p, t)" "p = 0 \<and> t = s \<or> p \<noteq> 0 \<and> p \<in> pages \<and> refs p = 0 \<and> ok t (refs(p := 1))
           \<and> (\<forall>q\<in>pages. q \<noteq> p \<longrightarrow> contents t q = contents s q)"
    using take_law [OF assms(1)] by blast
  have "q \<noteq> p" if "p \<noteq> 0" "0 < refs q" for q
    using t(2) that by auto
  then show ?thesis using t assms owned [OF assms(1)] by (auto simp: Take split: if_splits)
next
  case (Share p)
  then show ?thesis
    using assms share_law [OF assms(1), of p] owned [OF assms(1)] by (auto split: if_splits)
next
  case (Drop p)
  then show ?thesis
    using assms drop_law [OF assms(1), of p] owned [OF assms(1)] by (auto split: if_splits)
qed

lemma run_safe:
  assumes "ok s refs" "pool_run take share drop rs (s, refs) = (s', refs')"
  shows "ok s' refs' \<and> (\<forall>q. count_list rs (Drop q) < refs q \<longrightarrow> 0 < refs' q \<and> contents s' q = contents s q)"
  using assms
proof (induction rs arbitrary: s refs)
  case Nil
  then show ?case by (simp add: pool_run_def)
next
  case (Cons r rs)
  obtain t refs1 where t: "pool_step take share drop r (s, refs) = (t, refs1)" by fastforce
  note S = step_safe [OF Cons.prems(1) t]
  have "pool_run take share drop rs (t, refs1) = (s', refs')"
    using Cons.prems(2) t by (simp add: pool_run_def)
  with Cons.IH [of t refs1] S have IH: "ok s' refs'"
    "\<And>q. count_list rs (Drop q) < refs1 q \<Longrightarrow> 0 < refs' q \<and> contents s' q = contents t q" by auto
  have "0 < refs' q \<and> contents s' q = contents s q" if q: "count_list (r # rs) (Drop q) < refs q" for q
  proof -
    have "(if r = Drop q then 1 else 0) < refs q" using q by (auto split: if_splits)
    then have "refs q \<le> refs1 q + (if r = Drop q then 1 else 0)" "contents t q = contents s q"
      using S by blast+
    then show ?thesis using IH(2) [of q] q by (auto split: if_splits)
  qed
  then show ?case using IH(1) by blast
qed

end

end
