(* ===== verification/Kalloc.thy ===== *)
theory Kalloc
  imports CString Memlayout Page_Pool
begin

text \<open>
  The physical page allocator, \<^verbatim>\<open>kernel/kalloc.c\<close>: a free list threaded through the free pages
  themselves, and a reference count per page so that processes can share pages. Each operation
  is one critical section under \<open>kmem.lock\<close>, so it is one atomic step here. Physical memory is
  \<open>pmem\<close>; the counts are a function of the array index, so that an index outside the array
  shows as such. The lemmas say that the free list and the counts agree: a page is on the list
  exactly when nobody refers to it.
\<close>

section \<open>State and operations\<close>

record kmem =
  pmem :: mem
  freelist :: nat
  ref_count :: "int \<Rightarrow> int"

definition pa2idx :: "nat \<Rightarrow> int" where
  "pa2idx pa = sint (ucast ((of_nat pa - of_nat KERNBASE :: 64 word) div of_nat PGSIZE) :: 32 word)"

definition run_next :: "kmem \<Rightarrow> nat \<Rightarrow> nat" where
  "run_next s r = ldn 8 (pmem s) r"

definition kfree :: "nat \<Rightarrow> kmem \<Rightarrow> kmem" where
  "kfree pa s =
     (let idx = pa2idx pa;
          s = s\<lparr>ref_count := (ref_count s)(idx := ref_count s idx - 1)\<rparr>
      in if ref_count s idx > 0 then s
         else let s = s\<lparr>pmem := memset (pmem s) pa 1 PGSIZE\<rparr>;
                  s = s\<lparr>pmem := stn 8 (pmem s) pa (freelist s)\<rparr>
              in s\<lparr>freelist := pa\<rparr>)"

definition kalloc :: "kmem \<Rightarrow> nat \<times> kmem" where
  "kalloc s =
     (let r = freelist s;
          s = (if r \<noteq> 0 then s\<lparr>freelist := run_next s r\<rparr> else s)
      in if r \<noteq> 0
         then let s = s\<lparr>pmem := memset (pmem s) r 5 PGSIZE\<rparr>;
                  idx = pa2idx r;
                  s = (if idx \<ge> 0 \<and> idx < int ((PHYSTOP - KERNBASE) div PGSIZE)
                       then s\<lparr>ref_count := (ref_count s)(idx := 1)\<rparr> else s)
              in (r, s)
         else (r, s))"

function freerange_loop :: "nat \<Rightarrow> nat \<Rightarrow> kmem \<Rightarrow> kmem" where
  "freerange_loop p pa_end s =
     (if p + PGSIZE \<le> pa_end then freerange_loop (p + PGSIZE) pa_end (kfree p s) else s)"
  by pat_completeness auto
termination
  by (relation "measure (\<lambda>(p, pa_end, s). pa_end - p)") (auto simp: PGSIZE_def)

declare freerange_loop.simps [simp del]

definition freerange :: "nat \<Rightarrow> nat \<Rightarrow> kmem \<Rightarrow> kmem" where
  "freerange pa_start pa_end s = freerange_loop (PGROUNDUP pa_start) pa_end s"

text \<open>\<open>end\<close>, the first address after the kernel, is set by the linker: a parameter.\<close>

definition kinit :: "nat \<Rightarrow> kmem \<Rightarrow> kmem" where
  "kinit kend s =
     freerange kend PHYSTOP
       (s\<lparr>ref_count := (\<lambda>i. if 0 \<le> i \<and> i < int ((PHYSTOP - KERNBASE) div PGSIZE) then 0
                           else ref_count s i)\<rparr>)"

partial_function (option) free_count :: "kmem \<Rightarrow> nat \<Rightarrow> 64 word \<Rightarrow> 64 word option" where
  "free_count s r n = (if r \<noteq> 0 then free_count s (run_next s r) (n + 1) else Some n)"

definition Kfreepages :: "kmem \<Rightarrow> 64 word option" where
  "Kfreepages s = free_count s (freelist s) 0"

definition freemem :: "kmem \<Rightarrow> 64 word option" where
  "freemem s = map_option (\<lambda>n. n * of_nat PGSIZE div 1024) (Kfreepages s)"

definition krefpage :: "nat \<Rightarrow> kmem \<Rightarrow> kmem" where
  "krefpage pa s =
     s\<lparr>ref_count := (ref_count s)(pa2idx pa := ref_count s (pa2idx pa) + 1)\<rparr>"

section \<open>Pages\<close>

definition is_page :: "nat \<Rightarrow> bool" where
  "is_page p \<longleftrightarrow> KERNBASE \<le> p \<and> p + PGSIZE \<le> PHYSTOP \<and> PGSIZE dvd p"

lemma is_page_bounds: "is_page p \<Longrightarrow> 0 < p \<and> p < 2 ^ 32"
  by (auto simp: is_page_def page_consts)

lemma multiples_apart: "PGSIZE dvd p \<Longrightarrow> PGSIZE dvd q \<Longrightarrow> p < q \<Longrightarrow> p + PGSIZE \<le> q"
  by (auto simp: PGSIZE_def elim!: dvdE)

lemma pages_apart: "is_page p \<Longrightarrow> is_page q \<Longrightarrow> p \<noteq> q \<Longrightarrow> p + PGSIZE \<le> q \<or> q + PGSIZE \<le> p"
  using multiples_apart [of p q] multiples_apart [of q p]
  by (cases "p < q") (auto simp: is_page_def)

lemma pa2idx_page:
  assumes "is_page p"
  shows "pa2idx p = int ((p - KERNBASE) div PGSIZE)"
    "0 \<le> pa2idx p" "pa2idx p < int ((PHYSTOP - KERNBASE) div PGSIZE)"
proof -
  let ?n = "(p - KERNBASE) div PGSIZE"
  have b: "KERNBASE \<le> p" "p < 2 ^ 32" "p - KERNBASE < 2 ^ 32" "?n < 32768"
    using assms by (auto simp: is_page_def page_consts)
  have e: "(of_nat p - of_nat KERNBASE :: 64 word) = of_nat (p - KERNBASE)"
    using b(1) by (simp add: of_nat_diff)
  have "unat (of_nat p - of_nat KERNBASE :: 64 word) = p - KERNBASE"
    unfolding e using b(3) by (simp add: unsigned_of_nat take_bit_nat_eq_self del: of_nat_diff)
  then have "(of_nat p - of_nat KERNBASE :: 64 word) div of_nat PGSIZE = of_nat ?n"
    using b by (simp add: word_arith_nat_div unsigned_of_nat take_bit_nat_eq_self PGSIZE_def)
  moreover have "(ucast (of_nat ?n :: 64 word) :: 32 word) = of_nat ?n"
    using b(4) by (simp add: unsigned_of_nat take_bit_nat_eq_self)
  moreover have "sint (of_nat ?n :: 32 word) = int ?n"
    using b(4) by (intro sint_of_nat32) simp
  ultimately show "pa2idx p = int ?n" by (simp add: pa2idx_def)
  then show "0 \<le> pa2idx p" "pa2idx p < int ((PHYSTOP - KERNBASE) div PGSIZE)"
    using b(4) by (simp_all add: page_consts)
qed

lemma pa2idx_inj: "is_page p \<Longrightarrow> is_page q \<Longrightarrow> pa2idx p = pa2idx q \<Longrightarrow> p = q"
proof -
  assume pq: "is_page p" "is_page q" "pa2idx p = pa2idx q"
  have "(p - KERNBASE) div PGSIZE = (q - KERNBASE) div PGSIZE"
    using pq by (simp add: pa2idx_page)
  moreover have "PGSIZE dvd p - KERNBASE" "PGSIZE dvd q - KERNBASE"
    using pq by (auto simp: is_page_def page_consts intro!: dvd_diff_nat)
  ultimately have "p - KERNBASE = q - KERNBASE" by (metis dvd_div_mult_self)
  then show "p = q" using pq by (auto simp: is_page_def)
qed

section \<open>The free list and the counts agree\<close>

fun chain :: "mem \<Rightarrow> nat \<Rightarrow> nat list \<Rightarrow> bool" where
  "chain m p [] \<longleftrightarrow> p = 0"
| "chain m p (x # xs) \<longleftrightarrow> p = x \<and> x \<noteq> 0 \<and> chain m (ldn 8 m x) xs"

text \<open>\<open>P\<close> is the set of pages the allocator manages, \<open>fl\<close> its free list and \<open>refs p\<close> the number of
  owners of the page \<open>p\<close>.\<close>

definition kmem_ok :: "nat set \<Rightarrow> kmem \<Rightarrow> nat list \<Rightarrow> (nat \<Rightarrow> nat) \<Rightarrow> bool" where
  "kmem_ok P s fl refs \<longleftrightarrow> chain (pmem s) (freelist s) fl \<and> distinct fl \<and> set fl \<subseteq> P
     \<and> (\<forall>p\<in>P. is_page p) \<and> (\<forall>p\<in>P. p \<in> set fl \<longleftrightarrow> refs p = 0)
     \<and> (\<forall>p\<in>P. refs p = 0 \<longrightarrow> ref_count s (pa2idx p) \<le> 0)
     \<and> (\<forall>p\<in>P. 0 < refs p \<longrightarrow> ref_count s (pa2idx p) = int (refs p))"

lemma chain_cong:
  "(\<And>x y. x \<in> set xs \<Longrightarrow> x \<le> y \<Longrightarrow> y < x + 8 \<Longrightarrow> m' y = m y) \<Longrightarrow> chain m' p xs = chain m p xs"
proof (induction xs arbitrary: p)
  case (Cons x xs)
  have "ldn 8 m' x = ldn 8 m x" by (rule ldn_cong) (use Cons.prems in auto)
  moreover have "chain m' q xs = chain m q xs" for q
    by (rule Cons.IH) (use Cons.prems in auto)
  ultimately show ?case by simp
qed simp

text \<open>Taking a page off the list.\<close>

lemma kalloc_some:
  assumes "kmem_ok P s (p # fl) refs"
  shows "\<exists>s'. kalloc s = (p, s') \<and> kmem_ok P s' fl (refs(p := 1))
    \<and> (\<forall>x. pmem s' x = (if p \<le> x \<and> x < p + PGSIZE then 5 else pmem s x))"
proof -
  have p: "is_page p" "p \<in> P" "freelist s = p" "p \<noteq> 0" "p \<notin> set fl" "refs p = 0"
    using assms by (auto simp: kmem_ok_def)
  define s' where "s' = s\<lparr>pmem := memset (pmem s) p 5 PGSIZE, freelist := run_next s p,
      ref_count := (ref_count s)(pa2idx p := 1)\<rparr>"
  have ka: "kalloc s = (p, s')"
    using p pa2idx_page [OF p(1)] by (simp add: kalloc_def Let_def s'_def)
  have "chain (pmem s') (run_next s p) fl = chain (pmem s) (run_next s p) fl"
  proof (rule chain_cong)
    fix x y assume x: "x \<in> set fl" "x \<le> y" "y < x + 8"
    then have "is_page x" "x \<noteq> p" using assms p by (auto simp: kmem_ok_def)
    then have "\<not> (p \<le> y \<and> y < p + PGSIZE)"
      using pages_apart [of x p] p(1) x by (auto simp: PGSIZE_def)
    then show "pmem s' y = pmem s y" by (auto simp: s'_def memset_apply)
  qed
  then have "chain (pmem s') (freelist s') fl"
    using assms p by (simp add: kmem_ok_def run_next_def s'_def)
  moreover have "ref_count s' (pa2idx q) = (if q = p then 1 else ref_count s (pa2idx q))" if "q \<in> P" for q
    using that assms p pa2idx_inj by (auto simp: s'_def kmem_ok_def)
  ultimately have "kmem_ok P s' fl (refs(p := 1))"
    using assms p(5) by (auto simp: kmem_ok_def)
  then show ?thesis using ka by (auto simp: s'_def memset_apply)
qed

lemma kalloc_none: "kmem_ok P s [] refs \<Longrightarrow> kalloc s = (0, s)"
  by (simp add: kmem_ok_def kalloc_def)

text \<open>Giving up one of several references, and the last one.\<close>

lemma kfree_shared:
  assumes "kmem_ok P s fl refs" "p \<in> P" "1 < refs p"
  shows "kmem_ok P (kfree p s) fl (refs(p := refs p - 1)) \<and> pmem (kfree p s) = pmem s"
proof -
  have "ref_count s (pa2idx p) = int (refs p)" "is_page p" using assms by (auto simp: kmem_ok_def)
  then have k: "kfree p s = s\<lparr>ref_count := (ref_count s)(pa2idx p := int (refs p) - 1)\<rparr>"
    using assms(3) by (simp add: kfree_def Let_def)
  have "ref_count (kfree p s) (pa2idx q) = (if q = p then int (refs p) - 1 else ref_count s (pa2idx q))"
    if "q \<in> P" for q
    using that assms pa2idx_inj by (auto simp: k kmem_ok_def)
  then show ?thesis using assms by (auto simp: kmem_ok_def k)
qed

text \<open>The code treats a count of 0 like a count of 1, which is how \<open>kinit\<close> fills the list.\<close>

lemma kfree_push:
  assumes "chain (pmem s) (freelist s) fl" "distinct fl" "\<forall>q\<in>set fl. is_page q"
    and "is_page p" "p \<notin> set fl" "ref_count s (pa2idx p) \<le> 1"
  shows "chain (pmem (kfree p s)) (freelist (kfree p s)) (p # fl)"
    "ref_count (kfree p s) = (ref_count s)(pa2idx p := ref_count s (pa2idx p) - 1)"
    "\<And>x. x < p \<or> p + PGSIZE \<le> x \<Longrightarrow> pmem (kfree p s) x = pmem s x"
proof -
  have k: "kfree p s = s\<lparr>ref_count := (ref_count s)(pa2idx p := ref_count s (pa2idx p) - 1),
      pmem := stn 8 (memset (pmem s) p 1 PGSIZE) p (freelist s), freelist := p\<rparr>"
    using assms(6) by (simp add: kfree_def Let_def)
  show "ref_count (kfree p s) = (ref_count s)(pa2idx p := ref_count s (pa2idx p) - 1)"
    by (simp add: k)
  show mem: "\<And>x. x < p \<or> p + PGSIZE \<le> x \<Longrightarrow> pmem (kfree p s) x = pmem s x"
    by (auto simp: k memset_apply stn_apply PGSIZE_def)
  have "freelist s < 2 ^ 64"
    using assms(1,3) is_page_bounds by (cases fl) fastforce+
  then have "ldn 8 (pmem (kfree p s)) p = freelist s"
    by (simp add: k ldn_stn_same)
  moreover have "chain (pmem (kfree p s)) (freelist s) fl = chain (pmem s) (freelist s) fl"
  proof (rule chain_cong)
    fix x y assume x: "x \<in> set fl" "x \<le> y" "y < x + 8"
    then have "x + PGSIZE \<le> p \<or> p + PGSIZE \<le> x"
      using pages_apart [of x p] assms(3-5) by auto
    then show "pmem (kfree p s) y = pmem s y" using x mem by (auto simp: PGSIZE_def)
  qed
  ultimately show "chain (pmem (kfree p s)) (freelist (kfree p s)) (p # fl)"
    using assms(1) is_page_bounds [OF assms(4)] by (simp add: k)
qed

lemma kfree_last:
  assumes "kmem_ok P s fl refs" "p \<in> P" "refs p = 1"
  shows "kmem_ok P (kfree p s) (p # fl) (refs(p := 0))
    \<and> (\<forall>x. x < p \<or> p + PGSIZE \<le> x \<longrightarrow> pmem (kfree p s) x = pmem s x)"
proof -
  have pre: "chain (pmem s) (freelist s) fl" "distinct fl" "\<forall>q\<in>set fl. is_page q" "is_page p" "p \<notin> set fl"
    "ref_count s (pa2idx p) \<le> 1" "ref_count s (pa2idx p) = 1"
    using assms by (auto simp: kmem_ok_def)
  note K = kfree_push [OF pre(1-6)]
  have "ref_count (kfree p s) (pa2idx q) = (if q = p then 0 else ref_count s (pa2idx q))" if "q \<in> P" for q
    using that assms pa2idx_inj pre(7) by (auto simp: K(2) kmem_ok_def)
  then show ?thesis using assms K(1,3) by (auto simp: kmem_ok_def)
qed

lemma krefpage_ok:
  assumes "kmem_ok P s fl refs" "p \<in> P" "0 < refs p"
  shows "kmem_ok P (krefpage p s) fl (refs(p := refs p + 1)) \<and> pmem (krefpage p s) = pmem s"
proof -
  have "ref_count (krefpage p s) (pa2idx q) = (if q = p then int (refs p) + 1 else ref_count s (pa2idx q))"
    if "q \<in> P" for q
    using that assms pa2idx_inj by (auto simp: krefpage_def kmem_ok_def)
  moreover have "pmem (krefpage p s) = pmem s" "freelist (krefpage p s) = freelist s"
    by (simp_all add: krefpage_def)
  ultimately show ?thesis using assms by (auto simp: kmem_ok_def)
qed

text \<open>\<open>kinit\<close> puts every page between the kernel and \<open>PHYSTOP\<close> on the list, last page first.\<close>

definition pages_from :: "nat \<Rightarrow> nat set" where
  "pages_from a = {p. a \<le> p \<and> is_page p}"

lemma freerange_loop_ok:
  assumes "PGSIZE dvd p" "KERNBASE \<le> p"
    and "chain (pmem s) (freelist s) fl" "distinct fl" "\<forall>q\<in>set fl. is_page q \<and> q < p"
    and "\<forall>q. is_page q \<longrightarrow> p \<le> q \<longrightarrow> ref_count s (pa2idx q) = 0"
  shows "\<exists>fl' s'. freerange_loop p PHYSTOP s = s' \<and> chain (pmem s') (freelist s') fl' \<and> distinct fl'
    \<and> set fl' = set fl \<union> pages_from p
    \<and> (\<forall>q. is_page q \<longrightarrow> ref_count s' (pa2idx q) = (if p \<le> q then - 1 else ref_count s (pa2idx q)))"
  using assms
proof (induction p PHYSTOP s arbitrary: fl rule: freerange_loop.induct)
  case (1 p s)
  show ?case
  proof (cases "p + PGSIZE \<le> PHYSTOP")
    case False
    then have "pages_from p = {}" by (auto simp: pages_from_def is_page_def)
    moreover have "\<not> p \<le> q" if "is_page q" for q using that False by (auto simp: is_page_def)
    ultimately show ?thesis using False 1(4-7) by (auto simp: freerange_loop.simps [of p])
  next
    case True
    have pg: "is_page p" "p \<notin> set fl" using True 1 by (auto simp: is_page_def)
    have fl: "\<forall>q\<in>set fl. is_page q" using 1(6) by blast
    have le1: "ref_count s (pa2idx p) \<le> 1" using 1(7) pg by simp
    note K = kfree_push [OF 1(4,5) fl pg le1]
    have rc: "ref_count (kfree p s) (pa2idx q) = (if q = p then - 1 else ref_count s (pa2idx q))"
      if "is_page q" for q
      using that pa2idx_inj [of p q] pg 1(7) by (auto simp: K(2))
    have pf: "pages_from p = insert p (pages_from (p + PGSIZE))"
      using pg(1) pages_apart [of p] by (fastforce simp: pages_from_def)
    have "\<exists>fl' s'. freerange_loop (p + PGSIZE) PHYSTOP (kfree p s) = s' \<and> chain (pmem s') (freelist s') fl'
        \<and> distinct fl' \<and> set fl' = set (p # fl) \<union> pages_from (p + PGSIZE)
        \<and> (\<forall>q. is_page q \<longrightarrow> ref_count s' (pa2idx q)
             = (if p + PGSIZE \<le> q then - 1 else ref_count (kfree p s) (pa2idx q)))"
      using True 1(2-7) K(1) pg fl rc
      by (intro 1(1)) (auto simp: PGSIZE_def)
    then obtain fl' s' where R: "freerange_loop (p + PGSIZE) PHYSTOP (kfree p s) = s'"
      "chain (pmem s') (freelist s') fl'" "distinct fl'" "set fl' = set (p # fl) \<union> pages_from (p + PGSIZE)"
      "\<And>q. is_page q \<Longrightarrow> ref_count s' (pa2idx q)
             = (if p + PGSIZE \<le> q then - 1 else ref_count (kfree p s) (pa2idx q))" by blast
    have "ref_count s' (pa2idx q) = (if p \<le> q then - 1 else ref_count s (pa2idx q))" if "is_page q" for q
      using R(5) [OF that] rc [OF that] pages_apart [OF pg(1) that] by (auto simp: PGSIZE_def)
    moreover have "freerange_loop p PHYSTOP s = s'" using R(1) True by (subst freerange_loop.simps) simp
    moreover have "set fl' = set fl \<union> pages_from p" using R(4) pf by auto
    ultimately show ?thesis using R(2,3) by blast
  qed
qed

lemma kinit_ok:
  assumes "KERNBASE \<le> kend" "freelist s = 0"
  shows "\<exists>fl. kmem_ok (pages_from kend) (kinit kend s) fl (\<lambda>_. 0)"
proof -
  have up: "KERNBASE \<le> PGROUNDUP kend" using assms(1) PGROUNDUP_props(2) order_trans by blast
  have "PGROUNDUP kend \<le> q" if "is_page q" "kend \<le> q" for q
    using multiples_apart [of q "PGROUNDUP kend"] PGROUNDUP_props [of kend] that
    by (auto simp: is_page_def not_less [symmetric])
  then have pf: "pages_from kend = pages_from (PGROUNDUP kend)"
    using PGROUNDUP_props(2) [of kend] by (auto simp: pages_from_def)
  define t where "t = s\<lparr>ref_count := (\<lambda>i. if 0 \<le> i \<and> i < int ((PHYSTOP - KERNBASE) div PGSIZE) then 0
                           else ref_count s i)\<rparr>"
  have "\<forall>q. is_page q \<longrightarrow> ref_count t (pa2idx q) = 0" by (simp add: t_def pa2idx_page(2,3))
  then obtain fl' where R: "chain (pmem (kinit kend s)) (freelist (kinit kend s)) fl'" "distinct fl'"
    "set fl' = pages_from kend"
    "\<And>q. is_page q \<Longrightarrow> ref_count (kinit kend s) (pa2idx q) = (if PGROUNDUP kend \<le> q then - 1 else 0)"
    using freerange_loop_ok [OF PGROUNDUP_props(1) up, of t "[]"] assms(2) pf
    by (auto simp: t_def kinit_def freerange_def)
  have "ref_count (kinit kend s) (pa2idx q) \<le> 0" if "q \<in> pages_from kend" for q
    using R(4) [of q] that by (auto simp: pages_from_def)
  then show ?thesis using R(1-3) by (auto simp: kmem_ok_def pages_from_def)
qed

lemma free_count_chain: "chain (pmem s) r xs \<Longrightarrow> free_count s r n = Some (n + of_nat (length xs))"
proof (induction xs arbitrary: r n)
  case Nil
  then show ?case by (simp add: free_count.simps)
next
  case (Cons x xs)
  then show ?case by (subst free_count.simps) (simp add: run_next_def algebra_simps)
qed

section \<open>The page pool contract\<close>

definition page_bytes :: "kmem \<Rightarrow> nat \<Rightarrow> nat \<Rightarrow> byte" where
  "page_bytes s p i = (if i < PGSIZE then pmem s (p + i) else 0)"

definition pool_ok :: "nat set \<Rightarrow> kmem \<Rightarrow> owners \<Rightarrow> bool" where
  "pool_ok P s refs \<longleftrightarrow> (\<exists>fl. kmem_ok P s fl refs) \<and> (\<forall>p. 0 < refs p \<longrightarrow> p \<in> P)"

lemma page_bytes_other:
  assumes "is_page p" "is_page q" "q \<noteq> p" "\<And>x. x < p \<or> p + PGSIZE \<le> x \<Longrightarrow> pmem s' x = pmem s x"
  shows "page_bytes s' q = page_bytes s q"
  using pages_apart [OF assms(1,2)] assms(3,4) by (auto simp: page_bytes_def)

interpretation kp: page_pool P "pool_ok P" kalloc krefpage kfree page_bytes
  for P
proof
  fix s refs
  assume "pool_ok P s refs"
  then obtain fl where K: "kmem_ok P s fl refs" and own: "\<forall>p. 0 < refs p \<longrightarrow> p \<in> P"
    by (auto simp: pool_ok_def)
  show "\<exists>p s'. kalloc s = (p, s') \<and> (p = 0 \<and> s' = s \<and> (\<forall>q\<in>P. 0 < refs q)
         \<or> p \<noteq> 0 \<and> p \<in> P \<and> refs p = 0 \<and> pool_ok P s' (refs(p := 1))
           \<and> (\<forall>q\<in>P. q \<noteq> p \<longrightarrow> page_bytes s' q = page_bytes s q))"
  proof (cases fl)
    case Nil
    then have "kalloc s = (0, s)" using K kalloc_none by blast
    moreover have "\<forall>q\<in>P. 0 < refs q" using K by (auto simp: kmem_ok_def Nil)
    ultimately show ?thesis by blast
  next
    case (Cons p fl')
    have p: "p \<in> P" "is_page p" "p \<noteq> 0" "refs p = 0" "\<forall>q\<in>P. is_page q"
      using K by (auto simp: kmem_ok_def Cons)
    obtain s' where s': "kalloc s = (p, s')" "kmem_ok P s' fl' (refs(p := 1))"
      "\<And>x. pmem s' x = (if p \<le> x \<and> x < p + PGSIZE then 5 else pmem s x)"
      using kalloc_some K Cons by blast
    have "page_bytes s' q = page_bytes s q" if "q \<in> P" "q \<noteq> p" for q
      using that p(5) s'(3) by (intro page_bytes_other [OF p(2)]) auto
    moreover have "pool_ok P s' (refs(p := 1))" using s'(2) own p(1) by (auto simp: pool_ok_def)
    ultimately show ?thesis using s'(1) p by blast
  qed
next
  fix s refs p
  assume "pool_ok P s refs" "p \<in> P" "0 < refs p"
  then obtain fl where K: "kmem_ok P s fl refs" and own: "\<forall>p. 0 < refs p \<longrightarrow> p \<in> P"
    by (auto simp: pool_ok_def)
  have "pool_ok P (krefpage p s) (refs(p := refs p + 1))"
    using krefpage_ok [OF K \<open>p \<in> P\<close> \<open>0 < refs p\<close>] own \<open>p \<in> P\<close> by (auto simp: pool_ok_def)
  then show "pool_ok P (krefpage p s) (refs(p := refs p + 1))
      \<and> (\<forall>q\<in>P. page_bytes (krefpage p s) q = page_bytes s q)"
    by (simp add: page_bytes_def fun_eq_iff krefpage_def)
next
  fix s refs p
  assume a: "pool_ok P s refs" "p \<in> P" "0 < refs p"
  then obtain fl where K: "kmem_ok P s fl refs" and own: "\<forall>p. 0 < refs p \<longrightarrow> p \<in> P"
    by (auto simp: pool_ok_def)
  have pg: "\<forall>q\<in>P. is_page q" using K by (simp add: kmem_ok_def)
  have own': "\<forall>q. 0 < (refs(p := k)) q \<longrightarrow> q \<in> P" for k using own a(2) by auto
  show "pool_ok P (kfree p s) (refs(p := refs p - 1))
      \<and> (\<forall>q\<in>P. q \<noteq> p \<or> 1 < refs p \<longrightarrow> page_bytes (kfree p s) q = page_bytes s q)"
  proof (cases "1 < refs p")
    case True
    then show ?thesis
      using kfree_shared [OF K a(2)] own' by (auto simp: pool_ok_def page_bytes_def)
  next
    case False
    then have one: "refs p = 1" using a(3) by simp
    note F = kfree_last [OF K a(2) one]
    have "page_bytes (kfree p s) q = page_bytes s q" if "q \<in> P" "q \<noteq> p" for q
      using page_bytes_other [of p q "kfree p s" s] F pg a(2) that by blast
    then show ?thesis using F own' [of 0] one by (auto simp: pool_ok_def)
  qed
next
  fix s refs p
  assume "pool_ok P s refs" "0 < refs p"
  then show "p \<in> P" by (simp add: pool_ok_def)
qed

section \<open>Properties\<close>

text \<open>A concrete pool: page 0 has two owners, page 1 is free.\<close>

definition pool2 :: kmem where
  "pool2 = \<lparr>pmem = (\<lambda>_. 0), freelist = KERNBASE + PGSIZE, ref_count = (\<lambda>_. 0)(0 := 2)\<rparr>"

definition pages2 :: "nat set" where
  "pages2 = {KERNBASE, KERNBASE + PGSIZE}"

definition owners2 :: owners where
  "owners2 p = (if p = KERNBASE then 2 else 0)"

lemma pool2_ok: "kmem_ok pages2 pool2 [KERNBASE + PGSIZE] owners2"
proof -
  have pg: "is_page KERNBASE" "is_page (KERNBASE + PGSIZE)" by (auto simp: is_page_def page_consts)
  have idx: "pa2idx KERNBASE = 0" "pa2idx (KERNBASE + PGSIZE) = 1"
    using pg by (simp_all add: pa2idx_page(1)) (simp_all add: page_consts)
  have "ldn n (\<lambda>_. 0) x = 0" for n x by (induction n arbitrary: x) auto
  then have "chain (pmem pool2) (freelist pool2) [KERNBASE + PGSIZE]"
    by (simp add: pool2_def page_consts)
  then show ?thesis
    using pg idx by (auto simp: kmem_ok_def pool2_def pages2_def owners2_def PGSIZE_def)
qed

text \<open>C10. Sharing is safe: in any sequence of page allocations, shares and frees in which only owned
  pages are shared and freed, a page that is freed fewer times than it has owners at the
  start still has an owner at the end and all its 4096 bytes are unchanged; the free list
  and the reference counts agree at the end.\<close>

theorem shared_pages_survive:
  assumes "kmem_ok P s fl refs" "\<forall>p. 0 < refs p \<longrightarrow> p \<in> P"
    and "pool_run kalloc krefpage kfree rs (s, refs) = (s', refs')"
  shows "(\<exists>fl'. kmem_ok P s' fl' refs')
    \<and> (\<forall>q. count_list rs (Drop q) < refs q \<longrightarrow> 0 < refs' q
         \<and> (\<forall>i<PGSIZE. pmem s' (q + i) = pmem s (q + i)))"
proof -
  have "pool_ok P s refs" using assms(1,2) by (auto simp: pool_ok_def)
  from kp.run_safe [OF this assms(3)] have R: "pool_ok P s' refs'"
    "\<And>q. count_list rs (Drop q) < refs q \<Longrightarrow> 0 < refs' q \<and> page_bytes s' q = page_bytes s q" by auto
  have "pmem s' (q + i) = pmem s (q + i)" if "count_list rs (Drop q) < refs q" "i < PGSIZE" for q i
  proof -
    have "page_bytes s' q i = page_bytes s q i" using R(2) [OF that(1)] by simp
    then show ?thesis using that(2) by (simp add: page_bytes_def)
  qed
  then show ?thesis using R by (auto simp: pool_ok_def)
qed

theorem shared_pages_survive_witness:
  "\<exists>s' refs'. pool_run kalloc krefpage kfree [Take, Drop KERNBASE] (pool2, owners2) = (s', refs')
    \<and> (\<exists>fl'. kmem_ok pages2 s' fl' refs')
    \<and> 0 < refs' KERNBASE \<and> (\<forall>i<PGSIZE. pmem s' (KERNBASE + i) = pmem pool2 (KERNBASE + i))"
proof -
  obtain s' refs' where r: "pool_run kalloc krefpage kfree [Take, Drop KERNBASE] (pool2, owners2) = (s', refs')"
    by fastforce
  have "\<forall>p. 0 < owners2 p \<longrightarrow> p \<in> pages2" by (simp add: owners2_def pages2_def)
  from shared_pages_survive [OF pool2_ok this r] show ?thesis
    using r by (auto simp: owners2_def)
qed

text \<open>\<open>kalloc\<close> and the last \<open>kfree\<close>: allocation fails exactly when the free list is empty, else it hands
  out the page at the head of the list, which had no owner, with count 1 and its bytes all 5; freeing a page
  with one owner puts it back at the head, and freeing a page with more only lowers its count.\<close>

theorem page_alloc_free:
  assumes "kmem_ok P s fl refs"
  shows "(fl = [] \<longrightarrow> kalloc s = (0, s))
    \<and> (\<forall>p fl'. fl = p # fl' \<longrightarrow> (\<exists>s'. kalloc s = (p, s') \<and> kmem_ok P s' fl' (refs(p := 1))
         \<and> (\<forall>i<PGSIZE. pmem s' (p + i) = 5)))
    \<and> (\<forall>p\<in>P. refs p = 1 \<longrightarrow> kmem_ok P (kfree p s) (p # fl) (refs(p := 0)))
    \<and> (\<forall>p\<in>P. 1 < refs p \<longrightarrow> kmem_ok P (kfree p s) fl (refs(p := refs p - 1)) \<and> pmem (kfree p s) = pmem s)"
proof (intro conjI)
  show "fl = [] \<longrightarrow> kalloc s = (0, s)" using assms kalloc_none by blast
  show "\<forall>p fl'. fl = p # fl' \<longrightarrow> (\<exists>s'. kalloc s = (p, s') \<and> kmem_ok P s' fl' (refs(p := 1))
         \<and> (\<forall>i<PGSIZE. pmem s' (p + i) = 5))"
  proof (intro allI impI)
    fix p fl' assume "fl = p # fl'"
    then have "kmem_ok P s (p # fl') refs" using assms by simp
    from kalloc_some [OF this] show "\<exists>s'. kalloc s = (p, s') \<and> kmem_ok P s' fl' (refs(p := 1))
         \<and> (\<forall>i<PGSIZE. pmem s' (p + i) = 5)" by auto
  qed
qed (use kfree_last [OF assms] kfree_shared [OF assms] in blast)+

theorem page_alloc_free_witness:
  "(\<exists>s'. kalloc pool2 = (KERNBASE + PGSIZE, s') \<and> kmem_ok pages2 s' [] (owners2(KERNBASE + PGSIZE := 1)))
    \<and> kmem_ok pages2 (kfree KERNBASE pool2) [KERNBASE + PGSIZE] (owners2(KERNBASE := 1))"
proof -
  have "owners2 KERNBASE = 2" "KERNBASE \<in> pages2" by (simp_all add: owners2_def pages2_def)
  then show ?thesis using page_alloc_free [OF pool2_ok] by fastforce
qed

text \<open>\<open>kinit\<close> ends with exactly the whole pages between the kernel's end and \<open>PHYSTOP\<close> on the free list,
  none of them owned, and \<open>Kfreepages\<close> then counts them; \<open>freemem\<close> reports four kilobytes for each.\<close>

theorem kinit_frees_all:
  assumes "KERNBASE \<le> kend" "freelist s = 0"
  shows "\<exists>fl. kmem_ok {p. kend \<le> p \<and> is_page p} (kinit kend s) fl (\<lambda>_. 0)
    \<and> set fl = {p. kend \<le> p \<and> is_page p}
    \<and> Kfreepages (kinit kend s) = Some (of_nat (length fl))
    \<and> freemem (kinit kend s) = Some (of_nat (4 * length fl))"
proof -
  obtain fl where K: "kmem_ok (pages_from kend) (kinit kend s) fl (\<lambda>_. 0)"
    using kinit_ok [OF assms] by blast
  then have fl: "set fl = pages_from kend" "distinct fl" "chain (pmem (kinit kend s)) (freelist (kinit kend s)) fl"
    by (auto simp: kmem_ok_def)
  have kf: "Kfreepages (kinit kend s) = Some (of_nat (length fl))"
    using free_count_chain [OF fl(3)] by (simp add: Kfreepages_def)
  have "set fl \<subseteq> {..<PHYSTOP}" unfolding fl(1) by (auto simp: pages_from_def is_page_def PGSIZE_def)
  then have "card (set fl) \<le> card {..<PHYSTOP}" by (rule card_mono [rotated]) simp
  then have "length fl \<le> card {..<PHYSTOP}" using distinct_card [OF fl(2)] by simp
  then have len: "length fl < 2 ^ 32" by (simp add: page_consts)
  then have "(of_nat (length fl) :: 64 word) * of_nat PGSIZE div 1024 = of_nat (4 * length fl)"
  proof -
    have "(of_nat (length fl) :: 64 word) * of_nat PGSIZE = of_nat (length fl * 4096)" by (simp add: PGSIZE_def)
    moreover have "(of_nat (length fl * 4096) :: 64 word) div 1024 = of_nat (length fl * 4096 div 1024)"
      using len by (simp add: word_arith_nat_div unsigned_of_nat take_bit_nat_eq_self del: of_nat_mult)
    ultimately show ?thesis by simp
  qed
  then show ?thesis using K fl(1) kf by (auto simp: freemem_def pages_from_def)
qed

theorem kinit_frees_all_witness:
  "\<exists>fl. kmem_ok {p. 0x80020000 \<le> p \<and> is_page p} (kinit 0x80020000 (pool2\<lparr>freelist := 0\<rparr>)) fl (\<lambda>_. 0)
    \<and> set fl = {p. 0x80020000 \<le> p \<and> is_page p}
    \<and> Kfreepages (kinit 0x80020000 (pool2\<lparr>freelist := 0\<rparr>)) = Some (of_nat (length fl))
    \<and> freemem (kinit 0x80020000 (pool2\<lparr>freelist := 0\<rparr>)) = Some (of_nat (4 * length fl))"
  by (rule kinit_frees_all) (simp_all add: KERNBASE_def)

end
