(* ===== verification/Vm.thy ===== *)
theory Vm
  imports Kalloc
begin

text \<open>
  Virtual memory, \<^verbatim>\<open>kernel/vm.c\<close>: three-level Sv39 page tables that live in physical memory, in pages of the
  allocator of \<open>Kalloc\<close>. An address is a natural number; a page table entry is the 64-bit little-endian number stored in
  its table. \<open>copyout\<close>, \<open>copyin\<close> and \<open>vmfault\<close> use the size and the page table of the current process, which are
  arguments here, and \<open>copyin\<close> and \<open>copyinstr\<close> return the bytes they store at \<open>dst\<close>. A loop whose number of rounds is known when it starts
  recurses on that number. \<open>freewalk\<close> recurses to a given depth; a table of three levels needs three.
\<close>

unbundle bit_operations_syntax

section \<open>Entries\<close>

definition MAXVA :: nat where "MAXVA = 2 ^ (9 + 9 + 9 + 12 - 1)"
definition TRAMPOLINE :: nat where "TRAMPOLINE = MAXVA - PGSIZE"
definition TRAPFRAME :: nat where "TRAPFRAME = TRAMPOLINE - PGSIZE"

definition PTE_V :: nat where "PTE_V = 1"
definition PTE_R :: nat where "PTE_R = 2"
definition PTE_W :: nat where "PTE_W = 4"
definition PTE_X :: nat where "PTE_X = 8"
definition PTE_U :: nat where "PTE_U = 16"

definition PA2PTE :: "nat \<Rightarrow> nat" where
  "PA2PTE pa = pa div 2 ^ 12 * 2 ^ 10 mod 2 ^ 64"

definition PTE2PA :: "nat \<Rightarrow> nat" where
  "PTE2PA pte = pte div 2 ^ 10 * 2 ^ 12 mod 2 ^ 64"

definition PTE_FLAGS :: "nat \<Rightarrow> nat" where
  "PTE_FLAGS pte = pte AND 0x3FF"

definition PX :: "nat \<Rightarrow> nat \<Rightarrow> nat" where
  "PX level va = va div 2 ^ (12 + 9 * level) mod 512"

definition PGROUNDDOWN :: "nat \<Rightarrow> nat" where
  "PGROUNDDOWN a = a div PGSIZE * PGSIZE"

definition get_pte :: "kmem \<Rightarrow> nat \<Rightarrow> nat" where
  "get_pte s a = ldn 8 (pmem s) a"

definition set_pte :: "nat \<Rightarrow> nat \<Rightarrow> kmem \<Rightarrow> kmem" where
  "set_pte a v s = s\<lparr>pmem := stn 8 (pmem s) a v\<rparr>"

definition has :: "nat \<Rightarrow> nat \<Rightarrow> bool" where
  "has f pte \<longleftrightarrow> pte AND f \<noteq> 0"

definition zero_page :: "nat \<Rightarrow> kmem \<Rightarrow> kmem" where
  "zero_page p s = s\<lparr>pmem := memset (pmem s) p 0 PGSIZE\<rparr>"

section \<open>Tables\<close>

fun walk_loop :: "nat \<Rightarrow> nat \<Rightarrow> nat \<Rightarrow> bool \<Rightarrow> kmem \<Rightarrow> (kmem, nat) outcome" where
  "walk_loop 0 pagetable va alloc s = Ret (pagetable + 8 * PX 0 va) s"
| "walk_loop (Suc l) pagetable va alloc s =
     (let pte = pagetable + 8 * PX (Suc l) va
      in if has PTE_V (get_pte s pte) then walk_loop l (PTE2PA (get_pte s pte)) va alloc s
         else if \<not> alloc then Ret 0 s
         else let (pagetable, s) = kalloc s
              in if pagetable = 0 then Ret 0 s
                 else walk_loop l pagetable va alloc (set_pte pte (PA2PTE pagetable OR PTE_V) (zero_page pagetable s)))"

definition walk :: "nat \<Rightarrow> nat \<Rightarrow> bool \<Rightarrow> kmem \<Rightarrow> (kmem, nat) outcome" where
  "walk pagetable va alloc s = (if va \<ge> MAXVA then Panic ''walk'' else walk_loop 2 pagetable va alloc s)"

definition walkaddr :: "nat \<Rightarrow> nat \<Rightarrow> kmem \<Rightarrow> (kmem, nat) outcome" where
  "walkaddr pagetable va s =
     (if va \<ge> MAXVA then Ret 0 s
      else obind (walk pagetable va False s) (\<lambda>pte s.
        if pte = 0 then Ret 0 s
        else if \<not> has PTE_V (get_pte s pte) then Ret 0 s
        else if \<not> has PTE_U (get_pte s pte) then Ret 0 s
        else Ret (PTE2PA (get_pte s pte)) s))"

text \<open>Round \<open>k\<close> from the last of \<open>mappages\<close>: \<open>a\<close> is \<open>last\<close> in round 0.\<close>

fun map_loop :: "nat \<Rightarrow> nat \<Rightarrow> nat \<Rightarrow> nat \<Rightarrow> nat \<Rightarrow> kmem \<Rightarrow> (kmem, int) outcome" where
  "map_loop 0 pagetable a pa perm s = Ret 0 s"
| "map_loop (Suc k) pagetable a pa perm s =
     obind (walk pagetable a True s) (\<lambda>pte s.
       if pte = 0 then Ret (-1) s
       else if has PTE_V (get_pte s pte) then Panic ''mappages: remap''
       else map_loop k pagetable (a + PGSIZE) (pa + PGSIZE) perm (set_pte pte (PA2PTE pa OR perm OR PTE_V) s))"

definition mappages :: "nat \<Rightarrow> nat \<Rightarrow> nat \<Rightarrow> nat \<Rightarrow> nat \<Rightarrow> kmem \<Rightarrow> (kmem, int) outcome" where
  "mappages pagetable va sz pa perm s =
     (if va mod PGSIZE \<noteq> 0 then Panic ''mappages: va not aligned''
      else if sz mod PGSIZE \<noteq> 0 then Panic ''mappages: size not aligned''
      else if sz = 0 then Panic ''mappages: size''
      else map_loop (sz div PGSIZE) pagetable va pa perm s)"

definition uvmcreate :: "kmem \<Rightarrow> nat \<times> kmem" where
  "uvmcreate s = (let (pagetable, s) = kalloc s
     in if pagetable = 0 then (0, s) else (pagetable, zero_page pagetable s))"

fun unmap_loop :: "nat \<Rightarrow> nat \<Rightarrow> nat \<Rightarrow> bool \<Rightarrow> kmem \<Rightarrow> (kmem, unit) outcome" where
  "unmap_loop 0 pagetable a do_free s = Ret () s"
| "unmap_loop (Suc k) pagetable a do_free s =
     obind (walk pagetable a False s) (\<lambda>pte s.
       if pte = 0 then unmap_loop k pagetable (a + PGSIZE) do_free s
       else if \<not> has PTE_V (get_pte s pte) then unmap_loop k pagetable (a + PGSIZE) do_free s
       else let s = (if do_free then kfree (PTE2PA (get_pte s pte)) s else s)
            in unmap_loop k pagetable (a + PGSIZE) do_free (set_pte pte 0 s))"

definition uvmunmap :: "nat \<Rightarrow> nat \<Rightarrow> nat \<Rightarrow> bool \<Rightarrow> kmem \<Rightarrow> (kmem, unit) outcome" where
  "uvmunmap pagetable va npages do_free s =
     (if va mod PGSIZE \<noteq> 0 then Panic ''uvmunmap: not aligned''
      else unmap_loop npages pagetable va do_free s)"

definition uvmdealloc :: "nat \<Rightarrow> nat \<Rightarrow> nat \<Rightarrow> kmem \<Rightarrow> (kmem, nat) outcome" where
  "uvmdealloc pagetable oldsz newsz s =
     (if newsz \<ge> oldsz then Ret oldsz s
      else if PGROUNDUP newsz < PGROUNDUP oldsz
      then obind (uvmunmap pagetable (PGROUNDUP newsz) ((PGROUNDUP oldsz - PGROUNDUP newsz) div PGSIZE) True s)
             (\<lambda>_ s. Ret newsz s)
      else Ret newsz s)"

fun alloc_loop :: "nat \<Rightarrow> nat \<Rightarrow> nat \<Rightarrow> nat \<Rightarrow> nat \<Rightarrow> nat \<Rightarrow> kmem \<Rightarrow> (kmem, nat) outcome" where
  "alloc_loop 0 pagetable a oldsz newsz xperm s = Ret newsz s"
| "alloc_loop (Suc k) pagetable a oldsz newsz xperm s =
     (let (mem, s) = kalloc s
      in if mem = 0 then obind (uvmdealloc pagetable a oldsz s) (\<lambda>_ s. Ret 0 s)
         else obind (mappages pagetable a PGSIZE mem (PTE_R OR PTE_U OR xperm) (zero_page mem s)) (\<lambda>r s.
           if r \<noteq> 0 then obind (uvmdealloc pagetable a oldsz (kfree mem s)) (\<lambda>_ s. Ret 0 s)
           else alloc_loop k pagetable (a + PGSIZE) oldsz newsz xperm s))"

definition uvmalloc :: "nat \<Rightarrow> nat \<Rightarrow> nat \<Rightarrow> nat \<Rightarrow> kmem \<Rightarrow> (kmem, nat) outcome" where
  "uvmalloc pagetable oldsz newsz xperm s =
     (if newsz < oldsz then Ret oldsz s
      else let oldsz = PGROUNDUP oldsz
           in alloc_loop ((newsz - oldsz + PGSIZE - 1) div PGSIZE) pagetable oldsz oldsz newsz xperm s)"

text \<open>\<open>freewalk\<close>: \<open>rounds\<close> entries are left to look at in this table.\<close>

function freewalk_loop :: "nat \<Rightarrow> nat \<Rightarrow> nat \<Rightarrow> kmem \<Rightarrow> (kmem, unit) outcome" where
  "freewalk_loop depth rounds pagetable s =
     (if depth = 0 then Diverge
      else if rounds = 0 then Ret () (kfree pagetable s)
      else let i = 512 - rounds; pte = get_pte s (pagetable + 8 * i)
           in if has PTE_V pte \<and> \<not> has (PTE_R OR PTE_W OR PTE_X) pte
              then obind (freewalk_loop (depth - 1) 512 (PTE2PA pte) s) (\<lambda>_ s.
                freewalk_loop depth (rounds - 1) pagetable (set_pte (pagetable + 8 * i) 0 s))
              else if has PTE_V pte then Panic ''freewalk: leaf''
              else freewalk_loop depth (rounds - 1) pagetable s)"
  by auto
termination
  by (relation "measures [\<lambda>(d, r, _). d, \<lambda>(d, r, _). r]") auto

declare freewalk_loop.simps [simp del]

definition freewalk :: "nat \<Rightarrow> kmem \<Rightarrow> (kmem, unit) outcome" where
  "freewalk pagetable s = freewalk_loop 3 512 pagetable s"

definition uvmfree :: "nat \<Rightarrow> nat \<Rightarrow> kmem \<Rightarrow> (kmem, unit) outcome" where
  "uvmfree pagetable sz s =
     obind (if sz > 0 then uvmunmap pagetable 0 (PGROUNDUP sz div PGSIZE) True s else Ret () s) (\<lambda>_ s.
       freewalk pagetable s)"

fun copy_loop :: "nat \<Rightarrow> nat \<Rightarrow> nat \<Rightarrow> nat \<Rightarrow> kmem \<Rightarrow> (kmem, int) outcome" where
  "copy_loop 0 old new i s = Ret 0 s"
| "copy_loop (Suc k) old new i s =
     obind (walk old i False s) (\<lambda>pte s.
       if pte = 0 then copy_loop k old new (i + PGSIZE) s
       else if \<not> has PTE_V (get_pte s pte) then copy_loop k old new (i + PGSIZE) s
       else let pa = PTE2PA (get_pte s pte); flags = PTE_FLAGS (get_pte s pte); (mem, s) = kalloc s
            in if mem = 0 then obind (uvmunmap new 0 (i div PGSIZE) True s) (\<lambda>_ s. Ret (-1) s)
               else let s = s\<lparr>pmem := kmemmove (pmem s) mem pa PGSIZE\<rparr>
                    in obind (mappages new i PGSIZE mem flags s) (\<lambda>r s.
                      if r \<noteq> 0 then obind (uvmunmap new 0 (i div PGSIZE) True (kfree mem s)) (\<lambda>_ s. Ret (-1) s)
                      else copy_loop k old new (i + PGSIZE) s))"

definition uvmcopy :: "nat \<Rightarrow> nat \<Rightarrow> nat \<Rightarrow> kmem \<Rightarrow> (kmem, int) outcome" where
  "uvmcopy old new sz s = copy_loop ((sz + PGSIZE - 1) div PGSIZE) old new 0 s"

definition uvmclear :: "nat \<Rightarrow> nat \<Rightarrow> kmem \<Rightarrow> (kmem, unit) outcome" where
  "uvmclear pagetable va s =
     obind (walk pagetable va False s) (\<lambda>pte s.
       if pte = 0 then Panic ''uvmclear''
       else Ret () (set_pte pte (get_pte s pte - (get_pte s pte AND PTE_U)) s))"

section \<open>Page faults and copying\<close>

definition ismapped :: "nat \<Rightarrow> nat \<Rightarrow> kmem \<Rightarrow> (kmem, bool) outcome" where
  "ismapped pagetable va s =
     obind (walk pagetable va False s) (\<lambda>pte s.
       if pte = 0 then Ret False s else if has PTE_V (get_pte s pte) then Ret True s else Ret False s)"

record uproc =
  psz :: nat
  ppagetable :: nat

definition vmfault :: "uproc \<Rightarrow> nat \<Rightarrow> nat \<Rightarrow> kmem \<Rightarrow> (kmem, nat) outcome" where
  "vmfault p pagetable va s =
     (if va \<ge> psz p then Ret 0 s
      else let va = PGROUNDDOWN va
           in obind (ismapped pagetable va s) (\<lambda>m s.
             if m then Ret 0 s
             else let (mem, s) = kalloc s
                  in if mem = 0 then Ret 0 s
                     else obind (mappages (ppagetable p) va PGSIZE mem (PTE_W OR PTE_U OR PTE_R) (zero_page mem s)) (\<lambda>r s.
                       if r \<noteq> 0 then Ret 0 (kfree mem s) else Ret mem s)))"

fun put_bytes :: "nat \<Rightarrow> byte list \<Rightarrow> mem \<Rightarrow> mem" where
  "put_bytes a [] m = m"
| "put_bytes a (c # cs) m = put_bytes (a + 1) cs (m(a := c))"

text \<open>The bytes left to copy are \<open>src\<close>; a chunk ends with its page.\<close>

function copyout :: "uproc \<Rightarrow> nat \<Rightarrow> nat \<Rightarrow> byte list \<Rightarrow> kmem \<Rightarrow> (kmem, int) outcome" where
  "copyout p pagetable dstva src s =
     (if src = [] then Ret 0 s
      else let va0 = PGROUNDDOWN dstva
           in if va0 \<ge> MAXVA then Ret (-1) s
              else obind (walkaddr pagetable va0 s) (\<lambda>pa0 s.
                   obind (if pa0 = 0 then vmfault p pagetable va0 s else Ret pa0 s) (\<lambda>pa0 s.
                     if pa0 = 0 then Ret (-1) s
                     else obind (walk pagetable va0 False s) (\<lambda>pte s.
                       if \<not> has PTE_W (get_pte s pte) then Ret (-1) s
                       else let n = min (PGSIZE - (dstva - va0)) (length src)
                            in copyout p pagetable (va0 + PGSIZE) (drop n src)
                                 (s\<lparr>pmem := put_bytes (pa0 + (dstva - va0)) (take n src) (pmem s)\<rparr>)))))"
  by auto
termination
proof (relation "measure (\<lambda>(p, pt, d, src, s). length src)")
  fix p pt d and src :: "byte list" and s va0 pa0 t pa1 u pte v n
  assume "src \<noteq> []" "va0 = PGROUNDDOWN d" "n = min (PGSIZE - (d - va0)) (length src)"
  moreover have "d - PGROUNDDOWN d < PGSIZE"
    by (simp add: PGROUNDDOWN_def minus_div_mult_eq_mod PGSIZE_def)
  ultimately have "0 < n" by simp
  then show "((p, pt, va0 + PGSIZE, drop n src, v\<lparr>pmem := put_bytes (pa1 + (d - va0)) (take n src) (pmem v)\<rparr>), p, pt, d, src, s)
      \<in> measure (\<lambda>(p, pt, d, src, s). length src)"
    using \<open>src \<noteq> []\<close> by simp
qed simp

declare copyout.simps [simp del]

fun get_bytes :: "mem \<Rightarrow> nat \<Rightarrow> nat \<Rightarrow> byte list" where
  "get_bytes m a 0 = []"
| "get_bytes m a (Suc n) = m a # get_bytes m (a + 1) n"

lemma page_room: "0 < PGSIZE - (a - PGROUNDDOWN a)"
  by (simp add: PGROUNDDOWN_def minus_div_mult_eq_mod PGSIZE_def)

text \<open>The result and the bytes stored at \<open>dst\<close>, after those of \<open>acc\<close>.\<close>

function copyin :: "uproc \<Rightarrow> nat \<Rightarrow> nat \<Rightarrow> nat \<Rightarrow> byte list \<Rightarrow> kmem \<Rightarrow> (kmem, int \<times> byte list) outcome" where
  "copyin p pagetable srcva len acc s =
     (if len = 0 then Ret (0, acc) s
      else let va0 = PGROUNDDOWN srcva
           in obind (walkaddr pagetable va0 s) (\<lambda>pa0 s.
              obind (if pa0 = 0 then vmfault p pagetable va0 s else Ret pa0 s) (\<lambda>pa0 s.
                if pa0 = 0 then Ret (-1, acc) s
                else let n = min (PGSIZE - (srcva - va0)) len
                     in copyin p pagetable (va0 + PGSIZE) (len - n) (acc @ get_bytes (pmem s) (pa0 + (srcva - va0)) n) s)))"
  by auto
termination
  by (relation "measure (\<lambda>(p, pt, a, len, acc, s). len)") (use page_room in auto)

declare copyin.simps [simp del]

text \<open>The inner loop of \<open>copyinstr\<close>: the bytes up to a NUL or to \<open>n\<close> of them, and whether a NUL was found.\<close>

fun copy_str :: "nat \<Rightarrow> mem \<Rightarrow> nat \<Rightarrow> byte list \<times> bool" where
  "copy_str 0 m p = ([], False)"
| "copy_str (Suc n) m p =
     (if m p = 0 then ([0], True) else (let (cs, z) = copy_str n m (p + 1) in (m p # cs, z)))"

function copyinstr :: "nat \<Rightarrow> nat \<Rightarrow> nat \<Rightarrow> byte list \<Rightarrow> kmem \<Rightarrow> (kmem, int \<times> byte list) outcome" where
  "copyinstr pagetable srcva mx acc s =
     (if mx = 0 then Ret (-1, acc) s
      else let va0 = PGROUNDDOWN srcva
           in obind (walkaddr pagetable va0 s) (\<lambda>pa0 s.
              if pa0 = 0 then Ret (-1, acc) s
              else let n = min (PGSIZE - (srcva - va0)) mx; (cs, got_null) = copy_str n (pmem s) (pa0 + (srcva - va0))
                   in if got_null then Ret (0, acc @ cs) s
                      else copyinstr pagetable (va0 + PGSIZE) (mx - n) (acc @ cs) s))"
  by auto
termination
  by (relation "measure (\<lambda>(pt, a, mx, acc, s). mx)") (use page_room in auto)

declare copyinstr.simps [simp del]

section \<open>The kernel's table\<close>

definition UART0 :: nat where "UART0 = 0x10000000"
definition VIRTIO0 :: nat where "VIRTIO0 = 0x10001000"
definition PLIC :: nat where "PLIC = 0x0c000000"
definition VIRT_TEST :: nat where "VIRT_TEST = 0x100000"
definition GOLDFISH_RTC :: nat where "GOLDFISH_RTC = 0x101000"
definition NPROC :: nat where "NPROC = 64"

definition KSTACK :: "nat \<Rightarrow> nat" where
  "KSTACK p = TRAMPOLINE - (p + 1) * 2 * PGSIZE"

definition kvmmap :: "nat \<Rightarrow> nat \<Rightarrow> nat \<Rightarrow> nat \<Rightarrow> nat \<Rightarrow> kmem \<Rightarrow> (kmem, unit) outcome" where
  "kvmmap kpgtbl va pa sz perm s =
     obind (mappages kpgtbl va sz pa perm s) (\<lambda>r s. if r \<noteq> 0 then Panic ''kvmmap'' else Ret () s)"

text \<open>\<open>proc_mapstacks\<close> of \<^verbatim>\<open>kernel/proc.c\<close>, from process \<open>i\<close> on.\<close>

fun mapstacks_loop :: "nat \<Rightarrow> nat \<Rightarrow> nat \<Rightarrow> kmem \<Rightarrow> (kmem, unit) outcome" where
  "mapstacks_loop 0 i kpgtbl s = Ret () s"
| "mapstacks_loop (Suc k) i kpgtbl s =
     (let (pa, s) = kalloc s
      in if pa = 0 then Panic ''kalloc''
         else obind (kvmmap kpgtbl (KSTACK i) pa PGSIZE (PTE_R OR PTE_W) s) (\<lambda>_ s. mapstacks_loop k (i + 1) kpgtbl s))"

definition proc_mapstacks :: "nat \<Rightarrow> kmem \<Rightarrow> (kmem, unit) outcome" where
  "proc_mapstacks kpgtbl s = mapstacks_loop NPROC 0 kpgtbl s"

text \<open>The end of the kernel's text and the trampoline page are addresses the linker chooses.\<close>

definition kvmmake :: "nat \<Rightarrow> nat \<Rightarrow> kmem \<Rightarrow> (kmem, nat) outcome" where
  "kvmmake etext trampoline s =
     (let (kpgtbl, s) = kalloc s; s = zero_page kpgtbl s
      in obind (kvmmap kpgtbl UART0 UART0 PGSIZE (PTE_R OR PTE_W) s) (\<lambda>_ s.
         obind (kvmmap kpgtbl VIRTIO0 VIRTIO0 PGSIZE (PTE_R OR PTE_W) s) (\<lambda>_ s.
         obind (kvmmap kpgtbl PLIC PLIC 0x4000000 (PTE_R OR PTE_W) s) (\<lambda>_ s.
         obind (kvmmap kpgtbl KERNBASE KERNBASE (etext - KERNBASE) (PTE_R OR PTE_X) s) (\<lambda>_ s.
         obind (kvmmap kpgtbl etext etext (PHYSTOP - etext) (PTE_R OR PTE_W) s) (\<lambda>_ s.
         obind (kvmmap kpgtbl TRAMPOLINE trampoline PGSIZE (PTE_R OR PTE_X) s) (\<lambda>_ s.
         obind (proc_mapstacks kpgtbl s) (\<lambda>_ s.
         obind (kvmmap kpgtbl VIRT_TEST VIRT_TEST PGSIZE (PTE_R OR PTE_W) s) (\<lambda>_ s.
         obind (kvmmap kpgtbl GOLDFISH_RTC GOLDFISH_RTC PGSIZE (PTE_R OR PTE_W) s) (\<lambda>_ s.
           Ret kpgtbl s))))))))))"

end
