(* ===== verification/Pipe.thy ===== *)
theory Pipe
  imports Vm
begin

text \<open>
  Pipes, \<^verbatim>\<open>kernel/pipe.c\<close>: a ring of 512 bytes with counters that wrap at \<open>2 ^ 32\<close>. The state is the pipe, the physical memory that user
  addresses are copied from and to, and the channels that were woken. A process that has to wait is left in \<open>PWait\<close>, with the number of bytes it has
  moved: when it is woken it goes on from there. Whether it has been killed is asked anew in every round: \<open>kl\<close>. The kernel page the
  pipe lives in is given back by \<open>pipeclose\<close>. \<open>pipealloc\<close> belongs to the file table.
\<close>

definition PIPESIZE :: nat where "PIPESIZE = 512"

record pipe =
  pdata :: "nat \<Rightarrow> byte"
  nread :: "32 word"
  nwrite :: "32 word"
  readopen :: bool
  writeopen :: bool

datatype chan = NRead | NWrite

record psys =
  pk :: kmem
  ppipe :: pipe
  wakes :: "chan list"

datatype pres = PDone int | PWait nat

definition wake :: "chan \<Rightarrow> psys \<Rightarrow> psys" where
  "wake c s = s\<lparr>wakes := wakes s @ [c]\<rparr>"

definition in_kmem :: "(kmem, 'a) outcome \<Rightarrow> psys \<Rightarrow> (psys, 'a) outcome" where
  "in_kmem r s = (case r of Ret a k \<Rightarrow> Ret a (s\<lparr>pk := k\<rparr>) | Panic e \<Rightarrow> Panic e | Sleep c k \<Rightarrow> Sleep c (s\<lparr>pk := k\<rparr>) | Diverge \<Rightarrow> Diverge)"

definition pipeclose :: "nat \<Rightarrow> bool \<Rightarrow> psys \<Rightarrow> psys" where
  "pipeclose pi writable s =
     (let s = (if writable then wake NRead (s\<lparr>ppipe := (ppipe s)\<lparr>writeopen := False\<rparr>\<rparr>)
               else wake NWrite (s\<lparr>ppipe := (ppipe s)\<lparr>readopen := False\<rparr>\<rparr>))
      in if \<not> readopen (ppipe s) \<and> \<not> writeopen (ppipe s) then s\<lparr>pk := kfree pi (pk s)\<rparr> else s)"

definition put_byte :: "byte \<Rightarrow> pipe \<Rightarrow> pipe" where
  "put_byte ch q = q\<lparr>pdata := (pdata q)(unat (nwrite q) mod PIPESIZE := ch), nwrite := nwrite q + 1\<rparr>"

definition next_byte :: "pipe \<Rightarrow> byte" where
  "next_byte q = pdata q (unat (nread q) mod PIPESIZE)"

function pipewrite :: "(nat \<Rightarrow> bool) \<Rightarrow> uproc \<Rightarrow> nat \<Rightarrow> nat \<Rightarrow> int \<Rightarrow> nat \<Rightarrow> psys \<Rightarrow> (psys, pres) outcome" where
  "pipewrite kl pr pagetable addr n i s =
     (if int i < n
      then if \<not> readopen (ppipe s) \<or> kl i then Ret (PDone (-1)) s
           else if nwrite (ppipe s) = nread (ppipe s) + of_nat PIPESIZE then Ret (PWait i) (wake NRead s)
           else obind (in_kmem (copyin pr pagetable (addr + i) 1 [] (pk s)) s) (\<lambda>(r, cs) s.
             if r = -1 then Ret (PDone (int i)) (wake NRead s)
             else pipewrite kl pr pagetable addr n (i + 1) (s\<lparr>ppipe := put_byte (hd cs) (ppipe s)\<rparr>))
      else Ret (PDone (int i)) (wake NRead s))"
  by auto
termination
  by (relation "measure (\<lambda>(kl, pr, pt, addr, n, i, s). nat (n - int i))") auto

declare pipewrite.simps [simp del]

fun read_loop :: "uproc \<Rightarrow> nat \<Rightarrow> nat \<Rightarrow> nat \<Rightarrow> nat \<Rightarrow> psys \<Rightarrow> (psys, pres) outcome" where
  "read_loop pr pagetable addr 0 i s = Ret (PDone (int i)) (wake NWrite s)"
| "read_loop pr pagetable addr (Suc k) i s =
     (if nread (ppipe s) = nwrite (ppipe s) then Ret (PDone (int i)) (wake NWrite s)
      else let ch = next_byte (ppipe s);
               s = s\<lparr>ppipe := (ppipe s)\<lparr>nread := nread (ppipe s) + 1\<rparr>\<rparr>
           in obind (in_kmem (copyout pr pagetable (addr + i) [ch] (pk s)) s) (\<lambda>r s.
                if r = -1 then Ret (PDone (int i)) (wake NWrite s)
                else read_loop pr pagetable addr k (i + 1) s))"

definition piperead :: "bool \<Rightarrow> uproc \<Rightarrow> nat \<Rightarrow> nat \<Rightarrow> int \<Rightarrow> psys \<Rightarrow> (psys, pres) outcome" where
  "piperead kl pr pagetable addr n s =
     (if nread (ppipe s) = nwrite (ppipe s) \<and> writeopen (ppipe s)
      then if kl then Ret (PDone (-1)) s else Ret (PWait 0) s
      else read_loop pr pagetable addr (nat n) 0 s)"

end
