(* ===== verification/Vm_Inv.thy ===== *)
theory Vm_Inv
  imports Vm
begin

text \<open>
  What page tables in memory represent. \<open>pt_rep s r d1 d0\<close>: the tree of tables under the root \<open>r\<close>, \<open>d1\<close> and \<open>d0\<close> giving the
  pages of the middle and leaf tables, all distinct. \<open>pte_of\<close> is the entry the hardware finds for an address. The
  lemmas say what \<open>walk\<close>, with and without allocation, and the operations over it do to the entry of every address.
\<close>

section \<open>Entries\<close>

lemma has_bits: "has PTE_V e = bit e 0" "has PTE_R e = bit e 1" "has PTE_W e = bit e 2" "has PTE_X e = bit e 3" "has PTE_U e = bit e 4"
  by (simp_all add: has_def PTE_V_def PTE_R_def PTE_W_def PTE_X_def PTE_U_def bit_iff_and_push_bit_not_eq_0 push_bit_eq_mult)

lemma page_aligned: "is_page p \<Longrightarrow> 4096 dvd p \<and> p < 2 ^ 56"
  by (auto simp: is_page_def page_consts)

lemma PA2PTE_page: "p < 2 ^ 56 \<Longrightarrow> PA2PTE p = p div 4096 * 1024"
  by (simp add: PA2PTE_def)

lemma leaf_entry:
  assumes "4096 dvd p" "p < 2 ^ 56" "f < 1024"
  defines "e \<equiv> PA2PTE p OR f OR PTE_V"
  shows "PTE2PA e = p" "n < 10 \<Longrightarrow> bit e n = (bit f n \<or> n = 0)" "e < 2 ^ 64" "e \<noteq> 0" "PTE_FLAGS e = f OR PTE_V"
proof -
  let ?k = "p div 4096"
  have k: "p = 4096 * ?k" "?k < 2 ^ 44" using assms(1,2) by auto
  have e: "e = push_bit 10 ?k OR f OR 1"
    unfolding e_def PA2PTE_page [OF assms(2)] by (simp add: push_bit_eq_mult PTE_V_def)
  have f: "drop_bit 10 f = 0" using assms(3) by (simp add: drop_bit_eq_div)
  have d: "e div 2 ^ 10 = ?k"
  proof -
    have "drop_bit 10 (push_bit 10 ?k) = ?k" by (simp add: drop_bit_eq_div push_bit_eq_mult)
    moreover have "drop_bit 10 (1 :: nat) = 0" by (simp add: drop_bit_eq_div)
    ultimately show ?thesis unfolding drop_bit_eq_div [symmetric] e by (simp only: drop_bit_or f or.right_neutral)
  qed
  then show "PTE2PA e = p" using k by (simp add: PTE2PA_def)
  show b: "bit e n = (bit f n \<or> n = 0)" if "n < 10" for n
    using that unfolding e by (auto simp: bit_or_iff bit_push_bit_iff bit_1_iff bit_Suc_0_iff)
  have "e < 2 ^ 10 * (?k + 1)" using d dividend_less_times_div [of "2 ^ 10" e] by simp
  then show "e < 2 ^ 64" using k(2) by simp
  have "bit e 0" using b [of 0] by simp
  then show "e \<noteq> 0" by (cases "e = 0") (simp_all add: bit_iff_odd)
  have m: "(0x3FF :: nat) = mask 10" by (simp add: mask_eq_exp_minus_1)
  have "take_bit 10 f = f" using assms(3) by (simp add: take_bit_nat_eq_self)
  then show "PTE_FLAGS e = f OR PTE_V"
    unfolding PTE_FLAGS_def m take_bit_eq_mask [symmetric] e PTE_V_def by (simp add: take_bit_or take_bit_push_bit)
qed

lemma PX_less: "PX l va < 512"
  by (simp add: PX_def)

definition pte :: "kmem \<Rightarrow> nat \<Rightarrow> nat \<Rightarrow> nat" where
  "pte s t i = get_pte s (t + 8 * i)"

lemma pte_less: "pte s t i < 2 ^ 64"
  using ldn_less [of 8 "pmem s" "t + 8 * i"] by (simp add: pte_def get_pte_def)

lemma pte_page_cong:
  assumes "page_bytes s' t = page_bytes s t" "i < 512"
  shows "pte s' t i = pte s t i"
  unfolding pte_def get_pte_def
proof (rule ldn_cong)
  fix x assume x: "t + 8 * i \<le> x" "x < t + 8 * i + 8"
  then have "x - t < PGSIZE" using assms(2) by (simp add: PGSIZE_def)
  then show "pmem s' x = pmem s x"
    using fun_cong [OF assms(1), of "x - t"] x by (simp add: page_bytes_def)
qed

lemma pte_set:
  assumes "is_page t" "is_page t'" "i < 512" "j < 512"
  shows "pte (set_pte (t + 8 * i) v s) t' j = (if t' = t \<and> j = i then v mod 2 ^ 64 else pte s t' j)"
proof (cases "t' = t \<and> j = i")
  case True
  then show ?thesis by (simp add: pte_def get_pte_def set_pte_def ldn_stn_same)
next
  case False
  have "t + 8 * i + 8 \<le> t' + 8 * j \<or> t' + 8 * j + 8 \<le> t + 8 * i"
  proof (cases "t' = t")
    case True
    then show ?thesis using False by auto
  next
    case ne: False
    have "8 * i + 8 \<le> PGSIZE" "8 * j + 8 \<le> PGSIZE" using assms(3,4) by (simp_all add: PGSIZE_def)
    then show ?thesis using pages_apart [OF assms(1,2)] ne by auto
  qed
  then show ?thesis using False by (auto simp: pte_def get_pte_def set_pte_def intro!: ldn_stn_apart)
qed

lemma set_pte_page:
  assumes "is_page t" "is_page q" "q \<noteq> t" "i < 512"
  shows "page_bytes (set_pte (t + 8 * i) v s) q = page_bytes s q"
proof (rule page_bytes_other [OF assms(1-3)])
  fix x assume "x < t \<or> t + PGSIZE \<le> x"
  then show "pmem (set_pte (t + 8 * i) v s) x = pmem s x"
    using assms(4) by (auto simp: set_pte_def stn_outside PGSIZE_def)
qed

lemma zero_page_bytes:
  assumes "is_page p" "is_page q"
  shows "page_bytes (zero_page p s) q = (if q = p then (\<lambda>_. 0) else page_bytes s q)"
proof (cases "q = p")
  case False
  moreover have "page_bytes (zero_page p s) q = page_bytes s q"
    by (rule page_bytes_other [OF assms False]) (auto simp: zero_page_def memset_apply)
  ultimately show ?thesis by simp
qed (auto simp: page_bytes_def zero_page_def memset_apply)

lemma pte_zero: "is_page p \<Longrightarrow> i < 512 \<Longrightarrow> pte (zero_page p s) p i = 0"
proof -
  assume p: "is_page p" "i < 512"
  have "pte (zero_page p s) p i = ldn 8 (\<lambda>_. 0) (p + 8 * i)"
    unfolding pte_def get_pte_def using p(2) by (intro ldn_cong) (simp add: zero_page_def memset_apply PGSIZE_def)
  then show ?thesis by (simp add: ldn_zero)
qed

section \<open>Trees of tables\<close>

definition child :: "kmem \<Rightarrow> nat \<Rightarrow> nat \<Rightarrow> nat option" where
  "child s t i = (if has PTE_V (pte s t i) then Some (PTE2PA (pte s t i)) else None)"

definition pte_of :: "kmem \<Rightarrow> nat \<Rightarrow> nat \<Rightarrow> nat" where
  "pte_of s r va = (case child s r (PX 2 va) of None \<Rightarrow> 0
     | Some t1 \<Rightarrow> (case child s t1 (PX 1 va) of None \<Rightarrow> 0 | Some t0 \<Rightarrow> pte s t0 (PX 0 va)))"

definition tables :: "nat \<Rightarrow> (nat \<rightharpoonup> nat) \<Rightarrow> (nat \<times> nat \<rightharpoonup> nat) \<Rightarrow> nat set" where
  "tables r d1 d0 = insert r (ran d1 \<union> ran d0)"

definition pt_rep :: "kmem \<Rightarrow> nat \<Rightarrow> (nat \<rightharpoonup> nat) \<Rightarrow> (nat \<times> nat \<rightharpoonup> nat) \<Rightarrow> bool" where
  "pt_rep s r d1 d0 \<longleftrightarrow> (\<forall>i<512. child s r i = d1 i) \<and> (\<forall>i t. d1 i = Some t \<longrightarrow> i < 512 \<and> (\<forall>j<512. child s t j = d0 (i, j)))
     \<and> (\<forall>i j t. d0 (i, j) = Some t \<longrightarrow> d1 i \<noteq> None \<and> j < 512)
     \<and> r \<notin> ran d1 \<and> r \<notin> ran d0 \<and> ran d1 \<inter> ran d0 = {} \<and> inj_on d1 (dom d1) \<and> inj_on d0 (dom d0)
     \<and> (\<forall>t\<in>tables r d1 d0. is_page t)"

lemma pt_rep_cong:
  assumes "pt_rep s r d1 d0" "\<And>t. t \<in> insert r (ran d1) \<Longrightarrow> page_bytes s' t = page_bytes s t"
  shows "pt_rep s' r d1 d0"
proof -
  have c: "child s' t i = child s t i" if "t \<in> insert r (ran d1)" "i < 512" for t i
    using pte_page_cong [OF assms(2) [OF that(1)] that(2)] by (simp add: child_def)
  have c1: "child s' r i = child s r i" if "i < 512" for i using c that by simp
  have c2: "child s' t j = child s t j" if "d1 i = Some t" "j < 512" for i t j using c that by (simp add: ranI)
  show ?thesis using assms(1) unfolding pt_rep_def by (simp add: c1) (metis c2)
qed

lemma pte_of_rep:
  assumes "pt_rep s r d1 d0"
  shows "pte_of s r va = (case d0 (PX 2 va, PX 1 va) of None \<Rightarrow> 0 | Some t \<Rightarrow> pte s t (PX 0 va))"
proof -
  have c1: "child s r (PX 2 va) = d1 (PX 2 va)" using assms PX_less by (auto simp: pt_rep_def)
  show ?thesis
  proof (cases "d1 (PX 2 va)")
    case None
    then have "d0 (PX 2 va, PX 1 va) = None" using assms unfolding pt_rep_def by (metis not_None_eq)
    then show ?thesis using c1 None by (simp add: pte_of_def)
  next
    case (Some t)
    then have "child s t (PX 1 va) = d0 (PX 2 va, PX 1 va)" using assms PX_less by (auto simp: pt_rep_def)
    then show ?thesis using c1 Some by (simp add: pte_of_def)
  qed
qed

lemma walk_found:
  assumes "pt_rep s r d1 d0" "va < MAXVA"
  shows "walk r va False s = Ret (case d0 (PX 2 va, PX 1 va) of None \<Rightarrow> 0 | Some t \<Rightarrow> t + 8 * PX 0 va) s"
proof -
  have c1: "child s r (PX 2 va) = d1 (PX 2 va)" using assms PX_less by (auto simp: pt_rep_def)
  have w: "walk r va False s = (if has PTE_V (pte s r (PX 2 va)) then
      walk_loop 1 (PTE2PA (pte s r (PX 2 va))) va False s else Ret 0 s)"
    using assms(2) by (simp add: walk_def eval_nat_numeral pte_def Let_def)
  show ?thesis
  proof (cases "d1 (PX 2 va)")
    case None
    then have "d0 (PX 2 va, PX 1 va) = None" using assms unfolding pt_rep_def by (metis not_None_eq)
    then show ?thesis using c1 None w by (simp add: child_def split: if_splits)
  next
    case (Some t)
    then have "child s t (PX 1 va) = d0 (PX 2 va, PX 1 va)" using assms PX_less by (auto simp: pt_rep_def)
    moreover have "walk r va False s = walk_loop 1 t va False s" using c1 Some w by (simp add: child_def split: if_splits)
    moreover have "walk_loop 1 t va False s = (if has PTE_V (pte s t (PX 1 va)) then
        Ret (PTE2PA (pte s t (PX 1 va)) + 8 * PX 0 va) s else Ret 0 s)"
      by (simp add: pte_def Let_def)
    ultimately show ?thesis by (cases "d0 (PX 2 va, PX 1 va)") (simp_all add: child_def split: if_splits)
  qed
qed

section \<open>Allocation of tables\<close>

lemma pool_ok_write:
  assumes "pool_ok P s refs" "freelist s' = freelist s" "ref_count s' = ref_count s"
    and "\<And>q. q \<in> P \<Longrightarrow> refs q = 0 \<Longrightarrow> page_bytes s' q = page_bytes s q"
  shows "pool_ok P s' refs"
proof -
  obtain fl where K: "kmem_ok P s fl refs" and own: "\<forall>p. 0 < refs p \<longrightarrow> p \<in> P" using assms(1) by (auto simp: pool_ok_def)
  have "chain (pmem s') (freelist s) fl = chain (pmem s) (freelist s) fl"
  proof (rule chain_cong)
    fix x y assume x: "x \<in> set fl" "x \<le> y" "y < x + 8"
    then have "page_bytes s' x = page_bytes s x" using K assms(4) by (auto simp: kmem_ok_def)
    then have "page_bytes s' x (y - x) = page_bytes s x (y - x)" by simp
    moreover have "y - x < PGSIZE" "x + (y - x) = y" using x by (auto simp: PGSIZE_def)
    ultimately show "pmem s' y = pmem s y" by (simp add: page_bytes_def)
  qed
  then have "kmem_ok P s' fl refs" using K assms(2,3) by (simp add: kmem_ok_def)
  then show ?thesis using own by (auto simp: pool_ok_def)
qed

lemma pool_page: "pool_ok P s refs \<Longrightarrow> q \<in> P \<Longrightarrow> is_page q"
  by (auto simp: pool_ok_def kmem_ok_def)

lemma pool_owned: "pool_ok P s refs \<Longrightarrow> 0 < refs q \<Longrightarrow> q \<in> P \<and> is_page q"
  by (auto simp: pool_ok_def kmem_ok_def)

lemma set_pte_pool:
  assumes "pool_ok P s refs" "0 < refs t" "i < 512"
  shows "pool_ok P (set_pte (t + 8 * i) v s) refs"
proof (rule pool_ok_write [OF assms(1)])
  fix q assume "q \<in> P" "refs q = 0"
  then show "page_bytes (set_pte (t + 8 * i) v s) q = page_bytes s q"
    using assms pool_owned [OF assms(1,2)] pool_page [OF assms(1)] by (intro set_pte_page) auto
qed (simp_all add: set_pte_def)

lemma zero_page_pool:
  assumes "pool_ok P s refs" "0 < refs p"
  shows "pool_ok P (zero_page p s) refs"
proof (rule pool_ok_write [OF assms(1)])
  fix q assume "q \<in> P" "refs q = 0"
  then show "page_bytes (zero_page p s) q = page_bytes s q"
    using assms pool_owned [OF assms] pool_page [OF assms(1)] by (auto simp: zero_page_bytes)
qed (simp_all add: zero_page_def)

definition as_ok :: "nat set \<Rightarrow> kmem \<Rightarrow> owners \<Rightarrow> nat \<Rightarrow> (nat \<rightharpoonup> nat) \<Rightarrow> (nat \<times> nat \<rightharpoonup> nat) \<Rightarrow> bool" where
  "as_ok P s refs r d1 d0 \<longleftrightarrow> pool_ok P s refs \<and> pt_rep s r d1 d0 \<and> (\<forall>t\<in>tables r d1 d0. refs t = 1)"

text \<open>What an operation that may add tables leaves alone: pages that had owners keep them and, unless they are tables, their
  bytes; new owners are those of new tables.\<close>

definition grows :: "kmem \<Rightarrow> owners \<Rightarrow> nat set \<Rightarrow> kmem \<Rightarrow> owners \<Rightarrow> nat set \<Rightarrow> bool" where
  "grows s refs T s' refs' T' \<longleftrightarrow> T \<subseteq> T' \<and> (\<forall>q. 0 < refs q \<longrightarrow> refs' q = refs q) \<and> (\<forall>q. refs q = 0 \<longrightarrow> 0 < refs' q \<longrightarrow> q \<in> T')
     \<and> (\<forall>t\<in>T' - T. refs t = 0) \<and> (\<forall>q. 0 < refs q \<longrightarrow> q \<notin> T \<longrightarrow> page_bytes s' q = page_bytes s q)"

lemma grows_refl: "grows s refs T s refs T"
  by (auto simp: grows_def)

lemma grows_trans:
  assumes "grows s refs T s' refs' T'" "grows s' refs' T' s'' refs'' T''"
  shows "grows s refs T s'' refs'' T''"
proof -
  note G = assms [unfolded grows_def]
  have keep: "refs' q = refs q" if "0 < refs q" for q using G(1) that by blast
  have keep': "refs'' q = refs' q" if "0 < refs' q" for q using G(2) that by blast
  have new: "refs t = 0" if "t \<in> T'' - T" for t
  proof (cases "t \<in> T'")
    case True
    then show ?thesis using G(1) that by blast
  next
    case False
    then have "refs' t = 0" using G(2) that by blast
    then show ?thesis using keep [of t] by (cases "refs t") auto
  qed
  have bytes: "page_bytes s'' q = page_bytes s q" if q: "0 < refs q" "q \<notin> T" for q
  proof -
    have "\<forall>t\<in>T' - T. refs t = 0" using G(1) by simp
    then have "q \<notin> T'" using q by auto
    then have "page_bytes s'' q = page_bytes s' q" using G(2) keep [OF q(1)] q(1) by simp
    also have "\<dots> = page_bytes s q" using G(1) q by blast
    finally show ?thesis .
  qed
  have own: "q \<in> T''" if q: "refs q = 0" "0 < refs'' q" for q
  proof (cases "refs' q = 0")
    case True
    then show ?thesis using G(2) q by blast
  next
    case False
    then have "q \<in> T'" using G(1) q by simp
    then show ?thesis using G(2) by blast
  qed
  have same: "refs'' q = refs q" if "0 < refs q" for q using keep [OF that] keep' [of q] that by simp
  have "T \<subseteq> T'" "T' \<subseteq> T''" using G(1,2) by simp_all
  then have "T \<subseteq> T''" by (rule subset_trans)
  then show ?thesis unfolding grows_def by (intro conjI allI impI ballI) (assumption | erule same new bytes | erule (1) own bytes)+
qed

text \<open>A new table hung into entry \<open>i\<close> of table \<open>t\<close>.\<close>

definition hang :: "nat \<Rightarrow> nat \<Rightarrow> nat \<Rightarrow> kmem \<Rightarrow> kmem" where
  "hang t i p s = set_pte (t + 8 * i) (PA2PTE p OR PTE_V) (zero_page p s)"

lemma hang_fields:
  assumes "is_page t" "is_page p" "p \<noteq> t" "i < 512"
  shows "j < 512 \<Longrightarrow> child (hang t i p s) t j = (if j = i then Some p else child s t j)"
    "j < 512 \<Longrightarrow> pte (hang t i p s) p j = 0"
    "is_page q \<Longrightarrow> q \<noteq> t \<Longrightarrow> q \<noteq> p \<Longrightarrow> page_bytes (hang t i p s) q = page_bytes s q"
proof -
  have e: "PA2PTE p OR PTE_V = PA2PTE p OR 0 OR PTE_V" by simp
  have f: "PTE2PA (PA2PTE p OR PTE_V) = p" "has PTE_V (PA2PTE p OR PTE_V)" "PA2PTE p OR PTE_V < 2 ^ 64"
    using leaf_entry [of p 0] page_aligned [OF assms(2)] unfolding has_bits e by simp_all
  have z: "pte (zero_page p s) t j = pte s t j" if "j < 512" for j
    using pte_page_cong [OF _ that, of "zero_page p s" t s] zero_page_bytes [OF assms(2,1)] assms(3) by simp
  show "j < 512 \<Longrightarrow> child (hang t i p s) t j = (if j = i then Some p else child s t j)"
    unfolding child_def hang_def using f z by (simp add: pte_set [OF assms(1,1,4)])
  show "j < 512 \<Longrightarrow> pte (hang t i p s) p j = 0"
    unfolding hang_def using assms(3) by (simp add: pte_set [OF assms(1,2,4)] pte_zero [OF assms(2)])
  show "is_page q \<Longrightarrow> q \<noteq> t \<Longrightarrow> q \<noteq> p \<Longrightarrow> page_bytes (hang t i p s) q = page_bytes s q"
    unfolding hang_def by (simp add: set_pte_page [OF assms(1) _ _ assms(4)] zero_page_bytes [OF assms(2)])
qed

lemma zero_child: "pte s t i = 0 \<Longrightarrow> child s t i = None"
  by (simp add: child_def has_bits)

lemma add_middle:
  assumes rep: "pt_rep s r d1 d0" and i: "i < 512" "d1 i = None" and p: "is_page p" "p \<notin> tables r d1 d0"
  shows "pt_rep (hang r i p s) r (d1(i \<mapsto> p)) d0" "pte_of (hang r i p s) r va = pte_of s r va"
proof -
  let ?s = "hang r i p s"
  have r: "is_page r" "p \<noteq> r" using rep p by (auto simp: pt_rep_def tables_def)
  note H = hang_fields [OF r(1) p(1) r(2) i(1), of _ s]
  have none: "d0 (i, j) = None" for j using rep i(2) unfolding pt_rep_def by (metis not_None_eq)
  have other: "child ?s t j = child s t j" "pte ?s t j = pte s t j" if "is_page t" "t \<noteq> r" "t \<noteq> p" "j < 512" for t j
    using pte_page_cong [OF H(3) [OF that(1-3)] that(4)] by (simp_all add: child_def)
  have pg: "is_page t \<and> t \<noteq> r \<and> t \<noteq> p" if "d1 k = Some t" for k t
    using rep p(2) that unfolding pt_rep_def tables_def by (auto simp: ran_def)
  have pg0: "is_page t \<and> t \<noteq> r \<and> t \<noteq> p" if "d0 k = Some t" for k t
    using rep p(2) that unfolding pt_rep_def tables_def by (cases k) (auto simp: ran_def)
  have ranp: "p \<notin> ran d1" "p \<notin> ran d0" using p(2) by (auto simp: tables_def)
  have rn: "ran (d1(i \<mapsto> p)) = insert p (ran d1)" using i(2) by (simp add: ran_map_upd)
  have inj: "inj_on (d1(i \<mapsto> p)) (dom (d1(i \<mapsto> p)))"
    using rep ranp(1) i(2) unfolding pt_rep_def inj_on_def by (auto simp: ran_def)
  show rep': "pt_rep ?s r (d1(i \<mapsto> p)) d0"
    unfolding pt_rep_def
  proof (intro conjI allI impI)
    show "child ?s r j = (d1(i \<mapsto> p)) j" if "j < 512" for j using H(1) that rep by (auto simp: pt_rep_def)
    show "k < 512" if "(d1(i \<mapsto> p)) k = Some t" for k t using that rep i(1) by (auto simp: pt_rep_def split: if_splits)
    show "child ?s t j = d0 (k, j)" if "(d1(i \<mapsto> p)) k = Some t" "j < 512" for k t j
    proof (cases "k = i")
      case True
      then show ?thesis using that H(2) none by (simp add: zero_child)
    next
      case False
      then have "d1 k = Some t" using that by simp
      then show ?thesis using other [of t j] pg that(2) rep unfolding pt_rep_def by auto
    qed
    show "(d1(i \<mapsto> p)) k \<noteq> None" if "d0 (k, j) = Some t" for k j t
    proof -
      have "d1 k \<noteq> None" using that rep unfolding pt_rep_def by blast
      then show ?thesis by simp
    qed
    show "j < 512" if "d0 (k, j) = Some t" for k j t using that rep unfolding pt_rep_def by blast
    show "r \<notin> ran (d1(i \<mapsto> p))" "ran (d1(i \<mapsto> p)) \<inter> ran d0 = {}" using rep rn r(2) ranp(2) by (auto simp: pt_rep_def)
  qed (use rep inj rn p(1) in \<open>auto simp: pt_rep_def tables_def\<close>)
  show "pte_of ?s r va = pte_of s r va"
    unfolding pte_of_rep [OF rep'] pte_of_rep [OF rep] using pg0 other(2) PX_less by (auto split: option.splits)
qed

lemma add_leaf:
  assumes rep: "pt_rep s r d1 d0" and t: "d1 i = Some t" and j: "j < 512" "d0 (i, j) = None" and p: "is_page p" "p \<notin> tables r d1 d0"
  shows "pt_rep (hang t j p s) r d1 (d0((i, j) \<mapsto> p))" "pte_of (hang t j p s) r va = pte_of s r va"
proof -
  let ?s = "hang t j p s" and ?d = "d0((i, j) \<mapsto> p)"
  have "t \<in> ran d1" using t by (rule ranI)
  then have tt: "is_page t" "p \<noteq> t" "t \<noteq> r" "t \<notin> ran d0" using rep p by (auto simp: pt_rep_def tables_def)
  note H = hang_fields [OF tt(1) p(1) tt(2) j(1), of _ s]
  have other: "child ?s q k = child s q k" "pte ?s q k = pte s q k" if "is_page q" "q \<noteq> t" "q \<noteq> p" "k < 512" for q k
    using pte_page_cong [OF H(3) [OF that(1-3)] that(4)] by (simp_all add: child_def)
  have r: "is_page r" "r \<noteq> t" "r \<noteq> p" using rep p(2) tt(3) by (auto simp: pt_rep_def tables_def)
  have pg: "is_page q \<and> q \<noteq> p" if "d1 k = Some q" for k q
    using rep p(2) that unfolding pt_rep_def tables_def by (auto simp: ran_def)
  have pg0: "is_page q \<and> q \<noteq> p \<and> q \<noteq> t" if "d0 k = Some q" for k q
    using rep p(2) that tt(4) unfolding pt_rep_def tables_def by (cases k) (auto simp: ran_def)
  have ranp: "p \<notin> ran d1" "p \<notin> ran d0" using p(2) by (auto simp: tables_def)
  have rn: "ran ?d = insert p (ran d0)" using j(2) by (simp add: ran_map_upd)
  have inj: "inj_on ?d (dom ?d)"
    using rep ranp(2) j(2) unfolding pt_rep_def inj_on_def by (auto simp: ran_def)
  have inj1: "k = i" if "d1 k = Some t" for k using rep t that unfolding pt_rep_def inj_on_def by (metis domI)
  show rep': "pt_rep ?s r d1 ?d"
    unfolding pt_rep_def
  proof (intro conjI allI impI)
    show "child ?s r k = d1 k" if "k < 512" for k using other(1) [OF r that] that rep by (auto simp: pt_rep_def)
    show "k < 512" if "d1 k = Some q" for k q using that rep by (auto simp: pt_rep_def)
    show "child ?s q l = ?d (k, l)" if "d1 k = Some q" "l < 512" for k q l
    proof (cases "q = t")
      case True
      then have "k = i" using inj1 that(1) by simp
      moreover have "child s t l = d0 (i, l)" using rep t that(2) by (auto simp: pt_rep_def)
      ultimately show ?thesis using True H(1) [OF that(2)] by simp
    next
      case False
      then have "k \<noteq> i" using that(1) t by auto
      then show ?thesis using other(1) [of q l] False pg [OF that(1)] that rep unfolding pt_rep_def by auto
    qed
    show "d1 k \<noteq> None" if "?d (k, l) = Some q" for k l q
    proof (cases "(k, l) = (i, j)")
      case False
      then have "d0 (k, l) = Some q" using that by auto
      then show ?thesis using rep unfolding pt_rep_def by blast
    qed (use t in simp)
    show "l < 512" if "?d (k, l) = Some q" for k l q
    proof (cases "(k, l) = (i, j)")
      case False
      then have "d0 (k, l) = Some q" using that by auto
      then show ?thesis using rep unfolding pt_rep_def by blast
    qed (use j in simp)
    show "r \<notin> ran ?d" "ran d1 \<inter> ran ?d = {}" using rep rn r(3) ranp(1) by (auto simp: pt_rep_def)
  qed (use rep inj rn p(1) in \<open>auto simp: pt_rep_def tables_def\<close>)
  show "pte_of ?s r va = pte_of s r va"
  proof (cases "(PX 2 va, PX 1 va) = (i, j)")
    case True
    then show ?thesis
      unfolding pte_of_rep [OF rep'] pte_of_rep [OF rep] using H(2) [OF PX_less] j(2) by simp
  next
    case False
    then show ?thesis
      unfolding pte_of_rep [OF rep'] pte_of_rep [OF rep] using pg0 other(2) PX_less by (auto split: option.splits)
  qed
qed

section \<open>Walking with allocation\<close>

lemma take_page:
  assumes "as_ok P s refs r d1 d0" "kalloc s = (p, s1)" "p \<noteq> 0"
  shows "pool_ok P s1 (refs(p := 1))" "refs p = 0" "p \<in> P" "is_page p" "p \<notin> tables r d1 d0" "pt_rep s1 r d1 d0"
    "\<And>q. q \<in> P \<Longrightarrow> q \<noteq> p \<Longrightarrow> page_bytes s1 q = page_bytes s q" "pte_of s1 r va = pte_of s r va"
proof -
  have ok: "pool_ok P s refs" and rep: "pt_rep s r d1 d0" and T: "\<And>t. t \<in> tables r d1 d0 \<Longrightarrow> refs t = 1"
    using assms(1) by (auto simp: as_ok_def)
  show p: "pool_ok P s1 (refs(p := 1))" "refs p = 0" "p \<in> P" and
    b: "\<And>q. q \<in> P \<Longrightarrow> q \<noteq> p \<Longrightarrow> page_bytes s1 q = page_bytes s q"
    using kp.take_law [OF ok] assms(2,3) by auto
  show "is_page p" using pool_page [OF p(1,3)] .
  show nt: "p \<notin> tables r d1 d0" using T [of p] p(2) by auto
  have keep: "page_bytes s1 t = page_bytes s t" if "t \<in> tables r d1 d0" for t
    using b [of t] T [OF that] pool_owned [OF ok, of t] that nt by auto
  show rep1: "pt_rep s1 r d1 d0"
    by (rule pt_rep_cong [OF rep]) (use keep in \<open>auto simp: tables_def\<close>)
  have "pte s1 t (PX 0 va) = pte s t (PX 0 va)" if "d0 k = Some t" for t k
    using keep [of t] that PX_less by (intro pte_page_cong) (auto simp: tables_def ranI)
  then show "pte_of s1 r va = pte_of s r va"
    unfolding pte_of_rep [OF rep1] pte_of_rep [OF rep] by (auto split: option.splits)
qed

lemma take_hang:
  assumes "as_ok P s refs r d1 d0" "kalloc s = (p, s1)" "p \<noteq> 0" "t \<in> tables r d1 d0" "i < 512"
  shows "pool_ok P (hang t i p s1) (refs(p := 1))"
    "grows s refs (tables r d1 d0) (hang t i p s1) (refs(p := 1)) (insert p (tables r d1 d0))"
proof -
  note K = take_page [OF assms(1-3)]
  have T: "\<And>t. t \<in> tables r d1 d0 \<Longrightarrow> refs t = 1" using assms(1) by (auto simp: as_ok_def)
  have t: "t \<noteq> p" "0 < (refs(p := 1)) t" "is_page t" "0 < (refs(p := 1)) p"
    using K(5) assms(4) T [OF assms(4)] pool_owned [of P s refs t] assms(1) by (auto simp: as_ok_def)
  show "pool_ok P (hang t i p s1) (refs(p := 1))"
    unfolding hang_def by (rule set_pte_pool [OF zero_page_pool [OF K(1) t(4)] t(2) assms(5)])
  have "page_bytes (hang t i p s1) q = page_bytes s q" if "0 < refs q" "q \<notin> tables r d1 d0" for q
  proof -
    have q: "q \<noteq> p" "q \<in> P" "is_page q" "q \<noteq> t"
      using that K(2) assms(1,4) pool_owned [of P s refs q] by (auto simp: as_ok_def)
    show ?thesis using hang_fields(3) [OF t(3) K(4) t(1) [symmetric] assms(5) q(3,4,1)] K(7) [OF q(2,1)] by simp
  qed
  then show "grows s refs (tables r d1 d0) (hang t i p s1) (refs(p := 1)) (insert p (tables r d1 d0))"
    using K(2) by (auto simp: grows_def)
qed

lemma kalloc_fails:
  assumes "pool_ok P s refs" "kalloc s = (0, s1)"
  shows "s1 = s" "\<forall>q\<in>P. 0 < refs q"
  using kp.take_law [OF assms(1)] assms(2) by auto

text \<open>What \<open>walk\<close> with allocation returns: the address of the entry, or 0 when no page is left. Either way the entry of every
  address reads as before.\<close>

definition walked :: "nat set \<Rightarrow> kmem \<Rightarrow> owners \<Rightarrow> nat \<Rightarrow> nat set \<Rightarrow> nat \<Rightarrow> nat \<Rightarrow> kmem \<Rightarrow> owners \<Rightarrow> (nat \<rightharpoonup> nat) \<Rightarrow> (nat \<times> nat \<rightharpoonup> nat) \<Rightarrow> bool" where
  "walked P s refs r T va a s' refs' d1' d0' \<longleftrightarrow> as_ok P s' refs' r d1' d0' \<and> (\<forall>x. pte_of s' r x = pte_of s r x)
     \<and> grows s refs T s' refs' (tables r d1' d0')
     \<and> (if a = 0 then \<forall>q\<in>P. 0 < refs' q else \<exists>t. d0' (PX 2 va, PX 1 va) = Some t \<and> a = t + 8 * PX 0 va)"

lemma walk_step:
  "walk_loop (Suc l) t va alloc s = (if has PTE_V (pte s t (PX (Suc l) va)) then walk_loop l (PTE2PA (pte s t (PX (Suc l) va))) va alloc s
     else if \<not> alloc then Ret 0 s
     else let (p, s1) = kalloc s in if p = 0 then Ret 0 s1 else walk_loop l p va alloc (hang t (PX (Suc l) va) p s1))"
  by (cases "kalloc s") (simp add: pte_def Let_def hang_def)

lemma walk_leaf:
  assumes "as_ok P s refs r d1 d0" "d1 (PX 2 va) = Some t1"
  shows "\<exists>a s' refs' d0'. walk_loop 1 t1 va True s = Ret a s' \<and> walked P s refs r (tables r d1 d0) va a s' refs' d1 d0'"
proof -
  have rep: "pt_rep s r d1 d0" and ok: "pool_ok P s refs" using assms(1) by (simp_all add: as_ok_def)
  have c: "child s t1 (PX 1 va) = d0 (PX 2 va, PX 1 va)" using rep assms(2) PX_less by (auto simp: pt_rep_def)
  have w: "walk_loop 1 t1 va True s = (if has PTE_V (pte s t1 (PX 1 va)) then
        Ret (PTE2PA (pte s t1 (PX 1 va)) + 8 * PX 0 va) s
      else let (p, s1) = kalloc s in if p = 0 then Ret 0 s1 else Ret (p + 8 * PX 0 va) (hang t1 (PX 1 va) p s1))"
    using walk_step [of 0 t1 va True s] by (cases "kalloc s") (simp del: walk_loop.simps(2))
  have t1: "t1 \<in> tables r d1 d0" using assms(2) by (auto simp: tables_def ranI)
  show ?thesis
  proof (cases "d0 (PX 2 va, PX 1 va)")
    case (Some t)
    then have "walk_loop 1 t1 va True s = Ret (t + 8 * PX 0 va) s" using c w by (auto simp: child_def split: if_splits)
    moreover have "is_page t" using rep ranI [of d0 "(PX 2 va, PX 1 va)" t] Some by (simp add: pt_rep_def tables_def)
    then have "t \<noteq> 0" by (auto simp: is_page_def KERNBASE_def)
    ultimately show ?thesis using Some assms(1) grows_refl by (fastforce simp: walked_def)
  next
    case None
    then have w: "walk_loop 1 t1 va True s =
        (let (p, s1) = kalloc s in if p = 0 then Ret 0 s1 else Ret (p + 8 * PX 0 va) (hang t1 (PX 1 va) p s1))"
      using c w by (auto simp: child_def split: if_splits)
    obtain p s1 where k: "kalloc s = (p, s1)" by fastforce
    show ?thesis
    proof (cases "p = 0")
      case True
      then show ?thesis using w k kalloc_fails [OF ok] assms(1) grows_refl by (fastforce simp: walked_def)
    next
      case False
      note K = take_page [OF assms(1) k False] and H = take_hang [OF assms(1) k False t1, of "PX 1 va"]
      define d where "d = d0((PX 2 va, PX 1 va) \<mapsto> p)"
      note A = add_leaf [OF K(6) assms(2) PX_less None K(4,5), folded d_def]
      have T: "tables r d1 d = insert p (tables r d1 d0)" using None by (auto simp: tables_def d_def ran_map_upd)
      have "as_ok P (hang t1 (PX 1 va) p s1) (refs(p := 1)) r d1 d"
        using A(1) H(1) [OF PX_less] T assms(1) by (auto simp: as_ok_def)
      then have "walked P s refs r (tables r d1 d0) va (p + 8 * PX 0 va) (hang t1 (PX 1 va) p s1) (refs(p := 1)) d1 d"
        using A(2) K(8) H(2) [OF PX_less] False T by (auto simp: walked_def d_def)
      then show ?thesis using w k False by auto
    qed
  qed
qed

lemma walk_alloc:
  assumes "as_ok P s refs r d1 d0" "va < MAXVA"
  shows "\<exists>a s' refs' d1' d0'. walk r va True s = Ret a s' \<and> walked P s refs r (tables r d1 d0) va a s' refs' d1' d0'"
proof -
  have rep: "pt_rep s r d1 d0" and ok: "pool_ok P s refs" using assms(1) by (simp_all add: as_ok_def)
  have c: "child s r (PX 2 va) = d1 (PX 2 va)" using rep PX_less by (auto simp: pt_rep_def)
  have w: "walk r va True s = (if has PTE_V (pte s r (PX 2 va)) then walk_loop 1 (PTE2PA (pte s r (PX 2 va))) va True s
      else let (p, s1) = kalloc s in if p = 0 then Ret 0 s1 else walk_loop 1 p va True (hang r (PX 2 va) p s1))"
    using assms(2) walk_step [of 1 r va True s] by (cases "kalloc s") (simp add: walk_def numeral_2_eq_2 del: walk_loop.simps)
  show ?thesis
  proof (cases "d1 (PX 2 va)")
    case (Some t)
    then have "walk r va True s = walk_loop 1 t va True s" using c w by (auto simp: child_def split: if_splits)
    then show ?thesis using walk_leaf [OF assms(1) Some] by metis
  next
    case None
    then have w: "walk r va True s = (let (p, s1) = kalloc s in if p = 0 then Ret 0 s1 else walk_loop 1 p va True (hang r (PX 2 va) p s1))"
      using c w by (auto simp: child_def split: if_splits)
    obtain p s1 where k: "kalloc s = (p, s1)" by fastforce
    show ?thesis
    proof (cases "p = 0")
      case True
      then show ?thesis using w k kalloc_fails [OF ok] assms(1) grows_refl by (fastforce simp: walked_def)
    next
      case False
      have r: "r \<in> tables r d1 d0" by (simp add: tables_def)
      note K = take_page [OF assms(1) k False] and H = take_hang [OF assms(1) k False r, of "PX 2 va"]
      define d where "d = d1(PX 2 va \<mapsto> p)"
      note A = add_middle [OF K(6) PX_less None K(4,5), folded d_def]
      have T: "tables r d d0 = insert p (tables r d1 d0)" using None by (auto simp: tables_def d_def ran_map_upd)
      have M: "as_ok P (hang r (PX 2 va) p s1) (refs(p := 1)) r d d0"
        using A(1) H(1) [OF PX_less] T assms(1) by (auto simp: as_ok_def)
      obtain a s' refs' d0' where L: "walk_loop 1 p va True (hang r (PX 2 va) p s1) = Ret a s'"
          "walked P (hang r (PX 2 va) p s1) (refs(p := 1)) r (tables r d d0) va a s' refs' d d0'"
        using walk_leaf [OF M, of va p] by (auto simp: d_def)
      have "walked P s refs r (tables r d1 d0) va a s' refs' d d0'"
        using L(2) A(2) K(8) grows_trans [OF H(2) [OF PX_less]] unfolding walked_def T by auto
      then show ?thesis using w k False L(1) by auto
    qed
  qed
qed

end
