(* ===== verification/Vm_Map.thy ===== *)
theory Vm_Map
  imports Vm_Inv
begin

text \<open>
  Mapping and unmapping. An entry that \<open>walk\<close> found is written without disturbing any other; from this, what \<open>mappages\<close>
  leaves in the entry of every address below \<open>MAXVA\<close>.
\<close>

lemma vpn_split: "va < MAXVA \<Longrightarrow> va div PGSIZE = PX 2 va * 2 ^ 18 + PX 1 va * 2 ^ 9 + PX 0 va"
proof -
  assume va: "va < MAXVA"
  define n where "n = va div 4096"
  have n: "n < 2 ^ 27" using va by (simp add: n_def MAXVA_def)
  have "PX 2 va = n div 2 ^ 18" "PX 1 va = n div 2 ^ 9 mod 2 ^ 9" "PX 0 va = n mod 2 ^ 9"
    using n by (simp_all add: PX_def n_def div_mult2_eq [symmetric])
  moreover have "n = n div 2 ^ 18 * 2 ^ 18 + n div 2 ^ 9 mod 2 ^ 9 * 2 ^ 9 + n mod 2 ^ 9"
  proof -
    have "n div 512 = n div 262144 * 512 + n div 512 mod 512"
      using div_mult_mod_eq [of "n div 512" 512] by (simp add: div_mult2_eq [symmetric])
    moreover have "n = n div 512 * 512 + n mod 512" by (rule div_mult_mod_eq [symmetric])
    ultimately have "n = (n div 262144 * 512 + n div 512 mod 512) * 512 + n mod 512" by metis
    then show ?thesis by (simp add: add_mult_distrib mult.assoc)
  qed
  ultimately show ?thesis by (simp add: PGSIZE_def n_def)
qed

lemma same_entry:
  assumes "x < MAXVA" "y < MAXVA"
  shows "(PX 2 x = PX 2 y \<and> PX 1 x = PX 1 y \<and> PX 0 x = PX 0 y) = (x div PGSIZE = y div PGSIZE)"
proof
  assume e: "x div PGSIZE = y div PGSIZE"
  have "PX l x = x div PGSIZE div 2 ^ (9 * l) mod 512" for l x by (simp add: PX_def PGSIZE_def div_mult2_eq [symmetric] power_add)
  then show "PX 2 x = PX 2 y \<and> PX 1 x = PX 1 y \<and> PX 0 x = PX 0 y" using e by simp
qed (simp add: vpn_split assms)

lemma pte_of_page: "x div PGSIZE = y div PGSIZE \<Longrightarrow> x < MAXVA \<Longrightarrow> y < MAXVA \<Longrightarrow> pte_of s r x = pte_of s r y"
  using same_entry [of x y] unfolding pte_of_def by presburger

lemma set_entry:
  fixes v :: nat
  assumes "as_ok P s refs r d1 d0" "d0 (PX 2 va, PX 1 va) = Some t" "va < MAXVA"
    and s'_def: "s' = set_pte (t + 8 * PX 0 va) v s"
  shows "as_ok P s' refs r d1 d0"
    "x < MAXVA \<Longrightarrow> pte_of s' r x = (if x div PGSIZE = va div PGSIZE then v mod 2 ^ 64 else pte_of s r x)"
    "grows s refs (tables r d1 d0) s' refs (tables r d1 d0)"
    "get_pte s (t + 8 * PX 0 va) = pte_of s r va"
proof -
  have ok: "pool_ok P s refs" and rep: "pt_rep s r d1 d0" and T: "\<And>t. t \<in> tables r d1 d0 \<Longrightarrow> refs t = 1"
    using assms(1) by (auto simp: as_ok_def)
  have tr: "t \<in> ran d0" using assms(2) by (auto simp: ran_def)
  then have t: "t \<in> tables r d1 d0" "is_page t" "t \<notin> insert r (ran d1)" using rep by (auto simp: pt_rep_def tables_def)
  have pg: "is_page q" if "q \<in> tables r d1 d0" for q using rep that by (simp add: pt_rep_def)
  have other: "page_bytes s' q = page_bytes s q" if "is_page q" "q \<noteq> t" for q
    unfolding s'_def using that by (intro set_pte_page [OF t(2)] PX_less)
  have rep': "pt_rep s' r d1 d0"
    by (rule pt_rep_cong [OF rep]) (use other pg t(3) in \<open>auto simp: tables_def\<close>)
  have "pool_ok P s' refs" unfolding s'_def using T [OF t(1)] by (intro set_pte_pool [OF ok] PX_less) simp
  then show "as_ok P s' refs r d1 d0" using rep' T by (simp add: as_ok_def)
  show "grows s refs (tables r d1 d0) s' refs (tables r d1 d0)"
    using other t(1) pool_owned [OF ok] by (auto simp: grows_def)
  show "get_pte s (t + 8 * PX 0 va) = pte_of s r va" using pte_of_rep [OF rep, of va] assms(2) by (simp add: pte_def)
  assume x: "x < MAXVA"
  show "pte_of s' r x = (if x div PGSIZE = va div PGSIZE then v mod 2 ^ 64 else pte_of s r x)"
  proof (cases "d0 (PX 2 x, PX 1 x)")
    case None
    then have "x div PGSIZE \<noteq> va div PGSIZE" using same_entry [OF x assms(3)] assms(2) by auto
    then show ?thesis using None by (simp add: pte_of_rep [OF rep'] pte_of_rep [OF rep])
  next
    case (Some u)
    have inj: "u = t \<longleftrightarrow> (PX 2 x, PX 1 x) = (PX 2 va, PX 1 va)"
      using Some assms(2) rep unfolding pt_rep_def inj_on_def by (metis domI option.inject)
    have u: "is_page u" using Some pg [of u] by (auto simp: tables_def ran_def)
    have "pte s' u (PX 0 x) = (if u = t \<and> PX 0 x = PX 0 va then v mod 2 ^ 64 else pte s u (PX 0 x))"
      unfolding s'_def by (rule pte_set [OF t(2) u PX_less PX_less])
    then show ?thesis
      using Some inj same_entry [OF x assms(3)] by (auto simp: pte_of_rep [OF rep'] pte_of_rep [OF rep])
  qed
qed

text \<open>The entry of address \<open>x\<close> when \<open>n\<close> pages from \<open>pa\<close> are mapped at \<open>a\<close>, \<open>old\<close> being the entries before.\<close>

definition mapped_at :: "nat \<Rightarrow> nat \<Rightarrow> nat \<Rightarrow> nat \<Rightarrow> (nat \<Rightarrow> nat) \<Rightarrow> nat \<Rightarrow> nat" where
  "mapped_at n a pa perm old x =
     (if a \<le> x \<and> x < a + n * PGSIZE then PA2PTE (pa + (x - a) div PGSIZE * PGSIZE) OR perm OR PTE_V else old x)"

lemma mapped_at_0 [simp]: "mapped_at 0 a pa perm old = old"
  by (auto simp: mapped_at_def)

lemma page_step:
  assumes "PGSIZE dvd a" "x div PGSIZE \<noteq> a div PGSIZE"
  shows "(a \<le> x \<and> x < a + Suc n * PGSIZE) = (a + PGSIZE \<le> x \<and> x < a + PGSIZE + n * PGSIZE)"
    "a + PGSIZE \<le> x \<Longrightarrow> pa + (x - a) div PGSIZE * PGSIZE = pa + PGSIZE + (x - (a + PGSIZE)) div PGSIZE * PGSIZE"
proof -
  obtain k where k: "a = PGSIZE * k" using assms(1) by (auto simp: dvd_def)
  have "\<not> (PGSIZE * k \<le> x \<and> x < PGSIZE * Suc k)"
  proof
    assume "PGSIZE * k \<le> x \<and> x < PGSIZE * Suc k"
    then have "x div PGSIZE = k" by (intro div_nat_eqI) (auto simp: PGSIZE_def)
    then show False using assms(2) k by (simp add: PGSIZE_def)
  qed
  then have "\<not> (a \<le> x \<and> x < a + PGSIZE)" using k by (simp add: add.commute)
  then show "(a \<le> x \<and> x < a + Suc n * PGSIZE) = (a + PGSIZE \<le> x \<and> x < a + PGSIZE + n * PGSIZE)"
    by simp linarith
  assume x: "a + PGSIZE \<le> x"
  define y where "y = x - (a + PGSIZE)"
  have y: "x - a = y + PGSIZE" using x by (simp add: y_def)
  have "(x - a) div PGSIZE = (x - (a + PGSIZE)) div PGSIZE + 1" unfolding y_def [symmetric] y by (simp add: PGSIZE_def)
  then show "pa + (x - a) div PGSIZE * PGSIZE = pa + PGSIZE + (x - (a + PGSIZE)) div PGSIZE * PGSIZE" by simp
qed

lemma mapped_at_Suc:
  assumes "PGSIZE dvd a" "x < MAXVA" "a < MAXVA" "PA2PTE pa OR perm OR PTE_V < 2 ^ 64"
    and "\<And>x. x < MAXVA \<Longrightarrow> f x = (if x div PGSIZE = a div PGSIZE then (PA2PTE pa OR perm OR PTE_V) mod 2 ^ 64 else old x)"
  shows "mapped_at n (a + PGSIZE) (pa + PGSIZE) perm f x = mapped_at (Suc n) a pa perm old x"
proof (cases "x div PGSIZE = a div PGSIZE")
  case True
  obtain k where k: "a = PGSIZE * k" using assms(1) by (auto simp: dvd_def)
  have "a \<le> x \<and> x < a + PGSIZE"
    using True k dividend_less_times_div [of PGSIZE x] times_div_less_eq_dividend [of PGSIZE x] by (auto simp: PGSIZE_def)
  then have "(x - a) div PGSIZE = 0" "a \<le> x" "x < a + Suc n * PGSIZE" "\<not> a + PGSIZE \<le> x" by auto
  then show ?thesis using True assms(4) assms(5) [OF assms(2)] by (simp add: mapped_at_def)
next
  case False
  then show ?thesis
    using page_step [OF assms(1) False] assms(5) [OF assms(2)] unfolding mapped_at_def by (simp add: add.assoc)
qed

definition result_ok :: "nat set \<Rightarrow> owners \<Rightarrow> nat \<Rightarrow> nat \<Rightarrow> int \<Rightarrow> bool" where
  "result_ok P refs n k res \<longleftrightarrow> (if n = k then res = 0 else n < k \<and> res = -1 \<and> (\<forall>q\<in>P. 0 < refs q))"

lemma map_loop_ok:
  assumes "as_ok P s refs r d1 d0" "PGSIZE dvd a" "a + k * PGSIZE \<le> MAXVA" "PGSIZE dvd pa" "pa + k * PGSIZE \<le> 2 ^ 56" "perm < 1024"
    and "\<And>x. a \<le> x \<Longrightarrow> x < a + k * PGSIZE \<Longrightarrow> \<not> has PTE_V (pte_of s r x)"
  shows "\<exists>res s' refs' d1' d0' n. map_loop k r a pa perm s = Ret res s' \<and> as_ok P s' refs' r d1' d0'
    \<and> grows s refs (tables r d1 d0) s' refs' (tables r d1' d0')
    \<and> (\<forall>x<MAXVA. pte_of s' r x = mapped_at n a pa perm (pte_of s r) x) \<and> result_ok P refs' n k res"
  using assms
proof (induction k arbitrary: s refs d1 d0 a pa)
  case 0
  have "result_ok P refs 0 0 0" by (simp add: result_ok_def)
  then show ?case using 0(1) grows_refl by (metis mapped_at_0 map_loop.simps(1))
next
  case (Suc k)
  have a: "a < MAXVA" using Suc.prems(3) by (simp add: PGSIZE_def)
  obtain b s1 refs1 e1 e0 where w: "walk r a True s = Ret b s1" "walked P s refs r (tables r d1 d0) a b s1 refs1 e1 e0"
    using walk_alloc [OF Suc.prems(1) a] by blast
  then have W: "as_ok P s1 refs1 r e1 e0" "\<And>x. pte_of s1 r x = pte_of s r x" "grows s refs (tables r d1 d0) s1 refs1 (tables r e1 e0)"
    by (simp_all add: walked_def)
  show ?case
  proof (cases "b = 0")
    case True
    then have "result_ok P refs1 0 (Suc k) (-1)" using w(2) by (simp add: walked_def result_ok_def)
    moreover have "map_loop (Suc k) r a pa perm s = Ret (-1) s1" using w(1) True by simp
    ultimately show ?thesis using W by (metis mapped_at_0)
  next
    case False
    then obtain t where t: "e0 (PX 2 a, PX 1 a) = Some t" "b = t + 8 * PX 0 a" using w(2) by (auto simp: walked_def)
    define s2 where "s2 = set_pte (t + 8 * PX 0 a) (PA2PTE pa OR perm OR PTE_V) s1"
    note S = set_entry [OF W(1) t(1) a s2_def]
    have "a + 0 < a + Suc k * PGSIZE" by (simp add: PGSIZE_def)
    then have "\<not> has PTE_V (get_pte s1 b)" using Suc.prems(7) [of a] W(2) S(4) t(2) by simp
    then have "map_loop (Suc k) r a pa perm s =
        map_loop k r (a + PGSIZE) (pa + PGSIZE) perm (set_pte b (PA2PTE pa OR perm OR PTE_V) s1)"
      using w(1) False by simp
    then have run: "map_loop (Suc k) r a pa perm s = map_loop k r (a + PGSIZE) (pa + PGSIZE) perm s2"
      by (simp add: s2_def t(2))
    have e: "PA2PTE pa OR perm OR PTE_V < 2 ^ 64"
      using leaf_entry(3) [of pa perm] Suc.prems(4-6) by (simp add: PGSIZE_def)
    have fx: "pte_of s2 r x = (if x div PGSIZE = a div PGSIZE then (PA2PTE pa OR perm OR PTE_V) mod 2 ^ 64 else pte_of s r x)" if "x < MAXVA" for x
      using S(2) [OF that] W(2) by simp
    have "\<not> has PTE_V (pte_of s2 r x)" if x: "a + PGSIZE \<le> x" "x < a + PGSIZE + k * PGSIZE" for x
    proof -
      have "x < MAXVA" using x Suc.prems(3) by simp
      moreover have "x div PGSIZE \<noteq> a div PGSIZE"
        using x(1) div_le_mono [of "a + PGSIZE" x PGSIZE] by (simp add: PGSIZE_def)
      ultimately show ?thesis using fx [of x] Suc.prems(7) [of x] x by simp
    qed
    then obtain res s' refs' d1' d0' n where IH: "map_loop k r (a + PGSIZE) (pa + PGSIZE) perm s2 = Ret res s'"
        "as_ok P s' refs' r d1' d0'" "grows s2 refs1 (tables r e1 e0) s' refs' (tables r d1' d0')"
        "\<forall>x<MAXVA. pte_of s' r x = mapped_at n (a + PGSIZE) (pa + PGSIZE) perm (pte_of s2 r) x" "result_ok P refs' n k res"
      using Suc.IH [OF S(1), of "a + PGSIZE" "pa + PGSIZE"] Suc.prems(2-6) by (simp add: dvd_add ac_simps) blast
    have "\<forall>x<MAXVA. pte_of s' r x = mapped_at (Suc n) a pa perm (pte_of s r) x"
      using IH(4) mapped_at_Suc [where f = "pte_of s2 r", OF Suc.prems(2) _ a e fx] by simp
    moreover have "result_ok P refs' (Suc n) (Suc k) res" using IH(5) by (auto simp: result_ok_def)
    ultimately show ?thesis using run IH(1,2) grows_trans [OF W(3) grows_trans [OF S(3) IH(3)]] by metis
  qed
qed

lemma mappages_ok:
  assumes "as_ok P s refs r d1 d0" "va mod PGSIZE = 0" "sz mod PGSIZE = 0" "0 < sz" "va + sz \<le> MAXVA"
    and "pa mod PGSIZE = 0" "pa + sz \<le> 2 ^ 56" "perm < 1024" "\<And>x. va \<le> x \<Longrightarrow> x < va + sz \<Longrightarrow> \<not> has PTE_V (pte_of s r x)"
  shows "\<exists>res s' refs' d1' d0' n. mappages r va sz pa perm s = Ret res s' \<and> as_ok P s' refs' r d1' d0'
    \<and> grows s refs (tables r d1 d0) s' refs' (tables r d1' d0')
    \<and> (\<forall>x<MAXVA. pte_of s' r x = mapped_at n va pa perm (pte_of s r) x) \<and> result_ok P refs' n (sz div PGSIZE) res"
proof -
  have sz: "sz div PGSIZE * PGSIZE = sz" using assms(3) by (auto simp: mod_0_imp_dvd)
  have "mappages r va sz pa perm s = map_loop (sz div PGSIZE) r va pa perm s" using assms by (simp add: mappages_def)
  then show ?thesis
    using map_loop_ok [OF assms(1), of va "sz div PGSIZE" pa perm] assms unfolding sz by (simp add: mod_0_imp_dvd)
qed

end
