(* ===== verification/Vm_User.thy ===== *)
theory Vm_User
  imports Vm_Map
begin

text \<open>
  User memory as the process sees it. \<open>umem p s r x\<close> is the byte at the virtual address \<open>x\<close>: that of the mapped page, or 0
  in a page below the process size that has not been touched yet. Lazy allocation by \<open>vmfault\<close> does not
  change \<open>umem\<close>; \<open>copyout\<close> writes it and \<open>copyin\<close> reads it.
\<close>

definition uentry :: "nat \<Rightarrow> bool" where
  "uentry e \<longleftrightarrow> has PTE_V e \<and> has PTE_U e"

definition upages :: "kmem \<Rightarrow> nat \<Rightarrow> nat set" where
  "upages s r = {PTE2PA (pte_of s r x) | x. x < MAXVA \<and> uentry (pte_of s r x)}"

text \<open>The user pages of a page table are its own: one owner each, none of them a table, none mapped twice.\<close>

definition uspace :: "nat set \<Rightarrow> kmem \<Rightarrow> owners \<Rightarrow> nat \<Rightarrow> (nat \<rightharpoonup> nat) \<Rightarrow> (nat \<times> nat \<rightharpoonup> nat) \<Rightarrow> bool" where
  "uspace P s refs r d1 d0 \<longleftrightarrow> as_ok P s refs r d1 d0 \<and> (\<forall>q\<in>upages s r. refs q = 1 \<and> q \<notin> tables r d1 d0)
     \<and> (\<forall>x<MAXVA. \<forall>y<MAXVA. uentry (pte_of s r x) \<longrightarrow> uentry (pte_of s r y)
          \<longrightarrow> PTE2PA (pte_of s r x) = PTE2PA (pte_of s r y) \<longrightarrow> x div PGSIZE = y div PGSIZE)"

lemma uspace_as_ok: "uspace P s refs r d1 d0 \<Longrightarrow> as_ok P s refs r d1 d0"
  unfolding uspace_def by blast

definition umem :: "uproc \<Rightarrow> kmem \<Rightarrow> nat \<Rightarrow> nat \<Rightarrow> byte option" where
  "umem p s r x =
     (let e = pte_of s r x
      in if MAXVA \<le> x then None
         else if has PTE_V e then (if has PTE_U e then Some (pmem s (PTE2PA e + x mod PGSIZE)) else None)
         else if PGROUNDDOWN x < psz p then Some 0 else None)"

lemma umem_high: "MAXVA \<le> x \<Longrightarrow> umem p s r x = None"
  by (simp add: umem_def)

definition writable :: "uproc \<Rightarrow> kmem \<Rightarrow> nat \<Rightarrow> nat \<Rightarrow> bool" where
  "writable p s r x \<longleftrightarrow> x < MAXVA \<and> (if has PTE_V (pte_of s r x) then has PTE_U (pte_of s r x) \<and> has PTE_W (pte_of s r x)
     else PGROUNDDOWN x < psz p)"

definition exhausted :: "nat set \<Rightarrow> owners \<Rightarrow> bool" where
  "exhausted P refs \<longleftrightarrow> (\<exists>m. \<forall>q\<in>P. q = m \<or> 0 < refs q)"

text \<open>Pages outside \<open>W\<close> that have owners keep them and their bytes.\<close>

definition kept :: "kmem \<Rightarrow> owners \<Rightarrow> nat set \<Rightarrow> kmem \<Rightarrow> owners \<Rightarrow> bool" where
  "kept s refs W s' refs' \<longleftrightarrow> (\<forall>q. 0 < refs q \<longrightarrow> q \<notin> W \<longrightarrow> refs' q = refs q \<and> page_bytes s' q = page_bytes s q)"

lemma kept_trans:
  assumes "kept s refs W s1 refs1" "kept s1 refs1 W1 s2 refs2" "\<And>q. q \<in> W1 \<Longrightarrow> q \<in> W \<or> refs q = 0"
  shows "kept s refs W s2 refs2"
  unfolding kept_def
proof (intro allI impI)
  fix q assume q: "0 < refs q" "q \<notin> W"
  then have "q \<notin> W1" using assms(3) [of q] by auto
  moreover have "refs1 q = refs q" "page_bytes s1 q = page_bytes s q" using assms(1) q by (auto simp: kept_def)
  ultimately show "refs2 q = refs q \<and> page_bytes s2 q = page_bytes s q" using assms(2) q by (auto simp: kept_def)
qed

lemma kept_refl: "kept s refs W s refs"
  by (simp add: kept_def)

section \<open>Writing pages that are not tables\<close>

lemma as_ok_write:
  assumes "as_ok P s refs r d1 d0" "freelist s' = freelist s" "ref_count s' = ref_count s"
    and "\<And>q. q \<in> P \<Longrightarrow> refs q = 0 \<or> q \<in> tables r d1 d0 \<Longrightarrow> page_bytes s' q = page_bytes s q"
  shows "as_ok P s' refs r d1 d0" "pte_of s' r x = pte_of s r x"
proof -
  have ok: "pool_ok P s refs" and rep: "pt_rep s r d1 d0" and T: "\<And>t. t \<in> tables r d1 d0 \<Longrightarrow> refs t = 1"
    using assms(1) by (auto simp: as_ok_def)
  have keep: "page_bytes s' t = page_bytes s t" if "t \<in> tables r d1 d0" for t
    using assms(4) [of t] that T [OF that] pool_owned [OF ok, of t] by auto
  have rep': "pt_rep s' r d1 d0" by (rule pt_rep_cong [OF rep]) (use keep in \<open>auto simp: tables_def\<close>)
  moreover have "pool_ok P s' refs" using assms(4) by (intro pool_ok_write [OF ok assms(2,3)]) auto
  ultimately show "as_ok P s' refs r d1 d0" using T by (simp add: as_ok_def)
  have "pte s' t (PX 0 x) = pte s t (PX 0 x)" if "d0 k = Some t" for t k
  proof -
    have "t \<in> ran d0" using that by (rule ranI)
    then show ?thesis using keep [of t] PX_less by (intro pte_page_cong) (auto simp: tables_def)
  qed
  then show "pte_of s' r x = pte_of s r x"
    unfolding pte_of_rep [OF rep'] pte_of_rep [OF rep] by (auto split: option.splits)
qed

lemma fresh_page:
  assumes "as_ok P s refs r d1 d0" "kalloc s = (p, s1)" "p \<noteq> 0"
  shows "as_ok P (zero_page p s1) (refs(p := 1)) r d1 d0" "pte_of (zero_page p s1) r x = pte_of s r x"
    "q \<in> P \<Longrightarrow> page_bytes (zero_page p s1) q = (if q = p then (\<lambda>_. 0) else page_bytes s q)"
proof -
  note K = take_page [OF assms]
  have "as_ok P s1 (refs(p := 1)) r d1 d0" using K(1,5,6) assms(1) by (auto simp: as_ok_def)
  note W = as_ok_write [OF this, of "zero_page p s1"]
  have b: "page_bytes (zero_page p s1) q = (if q = p then (\<lambda>_. 0) else page_bytes s1 q)" if "q \<in> P" for q
    using zero_page_bytes [OF K(4) pool_page [OF K(1) that]] .
  have z: "page_bytes (zero_page p s1) q = page_bytes s1 q" if "q \<in> P" "(refs(p := 1)) q = 0 \<or> q \<in> tables r d1 d0" for q
    using b [OF that(1)] that(2) K(5) by (auto split: if_splits)
  show "as_ok P (zero_page p s1) (refs(p := 1)) r d1 d0" by (rule W(1)) (use z in \<open>simp_all add: zero_page_def\<close>)
  show "pte_of (zero_page p s1) r x = pte_of s r x"
    using W(2) [of x] z K(8) by (simp add: zero_page_def)
  show "q \<in> P \<Longrightarrow> page_bytes (zero_page p s1) q = (if q = p then (\<lambda>_. 0) else page_bytes s q)"
    using b K(7) by simp
qed

lemma as_ok_free:
  assumes "as_ok P s refs r d1 d0" "0 < refs p" "p \<notin> tables r d1 d0"
  shows "as_ok P (kfree p s) (refs(p := refs p - 1)) r d1 d0" "pte_of (kfree p s) r x = pte_of s r x"
    "q \<in> P \<Longrightarrow> q \<noteq> p \<Longrightarrow> page_bytes (kfree p s) q = page_bytes s q"
proof -
  have ok: "pool_ok P s refs" and rep: "pt_rep s r d1 d0" and T: "\<And>t. t \<in> tables r d1 d0 \<Longrightarrow> refs t = 1"
    using assms(1) by (auto simp: as_ok_def)
  have p: "p \<in> P" using pool_owned [OF ok assms(2)] by simp
  note D = kp.drop_law [OF ok p assms(2)]
  show b: "page_bytes (kfree p s) q = page_bytes s q" if "q \<in> P" "q \<noteq> p" for q using D that by blast
  have keep: "page_bytes (kfree p s) t = page_bytes s t" if "t \<in> tables r d1 d0" for t
    using b [of t] that T [OF that] pool_owned [OF ok, of t] assms(3) by auto
  have rep': "pt_rep (kfree p s) r d1 d0" by (rule pt_rep_cong [OF rep]) (use keep in \<open>auto simp: tables_def\<close>)
  then show "as_ok P (kfree p s) (refs(p := refs p - 1)) r d1 d0" using D T assms(3) by (auto simp: as_ok_def)
  have "pte (kfree p s) t (PX 0 x) = pte s t (PX 0 x)" if "d0 k = Some t" for t k
  proof -
    have "t \<in> ran d0" using that by (rule ranI)
    then show ?thesis using keep [of t] PX_less by (intro pte_page_cong) (auto simp: tables_def)
  qed
  then show "pte_of (kfree p s) r x = pte_of s r x"
    unfolding pte_of_rep [OF rep'] pte_of_rep [OF rep] by (auto split: option.splits)
qed

section \<open>Looking up\<close>

lemma walk_entry:
  assumes "as_ok P s refs r d1 d0" "va < MAXVA"
  shows "\<exists>a. walk r va False s = Ret a s \<and> (a = 0 \<and> pte_of s r va = 0 \<or> a \<noteq> 0 \<and> get_pte s a = pte_of s r va)"
proof -
  have rep: "pt_rep s r d1 d0" using assms(1) by (simp add: as_ok_def)
  show ?thesis
  proof (cases "d0 (PX 2 va, PX 1 va)")
    case None
    then show ?thesis using walk_found [OF rep assms(2)] pte_of_rep [OF rep, of va] by simp
  next
    case (Some t)
    then have "t \<in> ran d0" by (auto simp: ran_def)
    then have "is_page t" using rep by (auto simp: pt_rep_def tables_def)
    then have "t \<noteq> 0" by (auto simp: is_page_def KERNBASE_def)
    then show ?thesis using Some walk_found [OF rep assms(2)] pte_of_rep [OF rep, of va] by (simp add: pte_def)
  qed
qed

lemma has_0 [simp]: "\<not> has f 0"
  by (simp add: has_def)

lemma walkaddr_entry:
  assumes "as_ok P s refs r d1 d0" "va < MAXVA"
  shows "walkaddr r va s = Ret (if uentry (pte_of s r va) then PTE2PA (pte_of s r va) else 0) s"
  using walk_entry [OF assms] assms(2) by (auto simp: walkaddr_def uentry_def)

lemma ismapped_entry:
  assumes "as_ok P s refs r d1 d0" "va < MAXVA"
  shows "ismapped r va s = Ret (has PTE_V (pte_of s r va)) s"
  using walk_entry [OF assms] by (auto simp: ismapped_def)

lemma uspace_page:
  assumes "uspace P s refs r d1 d0" "x < MAXVA" "uentry (pte_of s r x)"
  shows "refs (PTE2PA (pte_of s r x)) = 1" "PTE2PA (pte_of s r x) \<notin> tables r d1 d0" "is_page (PTE2PA (pte_of s r x))"
    "PTE2PA (pte_of s r x) \<in> P" "PTE2PA (pte_of s r x) \<noteq> 0" "PTE2PA (pte_of s r x) \<in> upages s r"
proof -
  let ?q = "PTE2PA (pte_of s r x)"
  show q: "?q \<in> upages s r" using assms by (auto simp: upages_def)
  show r: "refs ?q = 1" "?q \<notin> tables r d1 d0" using assms(1) q by (auto simp: uspace_def)
  have "pool_ok P s refs" using assms(1) by (simp add: uspace_def as_ok_def)
  then show "is_page ?q" "?q \<in> P" using pool_owned [of P s refs ?q] r(1) by auto
  then show "?q \<noteq> 0" by (auto simp: is_page_def KERNBASE_def)
qed

lemma PGROUNDDOWN_props:
  "PGROUNDDOWN x \<le> x" "x < PGROUNDDOWN x + PGSIZE" "PGROUNDDOWN x mod PGSIZE = 0" "PGROUNDDOWN x div PGSIZE = x div PGSIZE"
  "x - PGROUNDDOWN x = x mod PGSIZE" "PGROUNDDOWN (PGROUNDDOWN x) = PGROUNDDOWN x"
  by (simp_all add: PGROUNDDOWN_def minus_div_mult_eq_mod PGSIZE_def)

lemma PGROUNDDOWN_MAXVA: "PGROUNDDOWN x < MAXVA \<longleftrightarrow> x < MAXVA"
proof
  assume "PGROUNDDOWN x < MAXVA"
  then have "x div 4096 * 4096 < 2 ^ 26 * 4096" by (simp add: PGROUNDDOWN_def PGSIZE_def MAXVA_def)
  then have "x div 4096 < 2 ^ 26" by (simp only: mult_less_cancel2)
  then have "x < 2 ^ 26 * 4096" by (simp add: div_less_iff_less_mult)
  then show "x < MAXVA" by (simp add: MAXVA_def)
qed (use PGROUNDDOWN_props(1) [of x] in simp)

lemma pte_of_down: "x < MAXVA \<Longrightarrow> pte_of s r (PGROUNDDOWN x) = pte_of s r x"
  by (rule pte_of_page) (simp_all add: PGROUNDDOWN_props PGROUNDDOWN_MAXVA)

section \<open>Lazy allocation\<close>

definition own :: "kmem \<Rightarrow> nat \<Rightarrow> (nat \<rightharpoonup> nat) \<Rightarrow> (nat \<times> nat \<rightharpoonup> nat) \<Rightarrow> nat set" where
  "own s r d1 d0 = tables r d1 d0 \<union> upages s r"

lemma page_byte:
  assumes "page_bytes s' q = page_bytes s q" "i < PGSIZE"
  shows "pmem s' (q + i) = pmem s (q + i)"
  using fun_cong [OF assms(1), of i] assms(2) by (simp add: page_bytes_def)

lemma mod_page [simp]: "x mod PGSIZE < PGSIZE"
  by (simp add: PGSIZE_def)

lemma kept_byte:
  assumes "uspace P s refs r d1 d0" "kept s refs (tables r d1 d0) s' refs'" "x < MAXVA" "uentry (pte_of s r x)"
  shows "pmem s' (PTE2PA (pte_of s r x) + x mod PGSIZE) = pmem s (PTE2PA (pte_of s r x) + x mod PGSIZE)"
  using uspace_page [OF assms(1,3,4)] assms(2) by (intro page_byte) (auto simp: kept_def)

lemma upages_cong: "(\<And>x. x < MAXVA \<Longrightarrow> pte_of s' r x = pte_of s r x) \<Longrightarrow> upages s' r = upages s r"
  by (auto simp: upages_def) metis+

lemma uspace_same:
  assumes "uspace P s refs r d1 d0" "as_ok P s' refs' r d1' d0'" "\<And>x. x < MAXVA \<Longrightarrow> pte_of s' r x = pte_of s r x"
    and "kept s refs (tables r d1 d0) s' refs'" "\<And>t. t \<in> tables r d1' d0' \<Longrightarrow> t \<in> tables r d1 d0 \<or> refs t = 0"
  shows "uspace P s' refs' r d1' d0'"
proof -
  have u: "upages s' r = upages s r" by (rule upages_cong [OF assms(3)])
  have "refs' q = 1 \<and> q \<notin> tables r d1' d0'" if "q \<in> upages s r" for q
  proof -
    have q: "refs q = 1" "q \<notin> tables r d1 d0" using assms(1) that by (auto simp: uspace_def)
    then show ?thesis using assms(4) assms(5) [of q] by (auto simp: kept_def)
  qed
  moreover have "\<forall>x<MAXVA. \<forall>y<MAXVA. uentry (pte_of s' r x) \<longrightarrow> uentry (pte_of s' r y)
      \<longrightarrow> PTE2PA (pte_of s' r x) = PTE2PA (pte_of s' r y) \<longrightarrow> x div PGSIZE = y div PGSIZE"
  proof (intro allI impI)
    fix x y assume "x < MAXVA" "y < MAXVA" "uentry (pte_of s' r x)" "uentry (pte_of s' r y)" "PTE2PA (pte_of s' r x) = PTE2PA (pte_of s' r y)"
    moreover from this have "pte_of s' r x = pte_of s r x" "pte_of s' r y = pte_of s r y" using assms(3) by simp_all
    ultimately show "x div PGSIZE = y div PGSIZE" using assms(1) unfolding uspace_def by metis
  qed
  ultimately show ?thesis unfolding uspace_def u using assms(2) by blast
qed

definition faulted :: "nat set \<Rightarrow> uproc \<Rightarrow> kmem \<Rightarrow> owners \<Rightarrow> nat \<Rightarrow> (nat \<rightharpoonup> nat) \<Rightarrow> (nat \<times> nat \<rightharpoonup> nat) \<Rightarrow> kmem \<Rightarrow> owners \<Rightarrow> (nat \<rightharpoonup> nat) \<Rightarrow> (nat \<times> nat \<rightharpoonup> nat) \<Rightarrow> bool" where
  "faulted P p s refs r d1 d0 s' refs' d1' d0' \<longleftrightarrow> uspace P s' refs' r d1' d0' \<and> kept s refs (tables r d1 d0) s' refs'
     \<and> (\<forall>q\<in>own s' r d1' d0'. q \<in> own s r d1 d0 \<or> refs q = 0)
     \<and> (\<forall>x. umem p s' r x = umem p s r x) \<and> (\<forall>x. writable p s' r x = writable p s r x)
     \<and> (\<forall>x<MAXVA. has PTE_V (pte_of s r x) \<longrightarrow> has PTE_V (pte_of s' r x))"

lemma grows_kept: "grows s refs T s' refs' T' \<Longrightarrow> kept s refs T s' refs'"
  by (auto simp: grows_def kept_def)

text \<open>A new page, zeroed, mapped for the user at \<open>va\<close>.\<close>

lemma map_fresh:
  assumes U: "uspace P s refs r d1 d0" and k: "kalloc s = (m, s1)" "m \<noteq> 0" and va: "va mod PGSIZE = 0" "va < MAXVA"
    and new: "\<not> has PTE_V (pte_of s r va)" and perm: "perm < 1024"
  shows "\<exists>res s' refs' d1' d0'. mappages r va PGSIZE m perm (zero_page m s1) = Ret res s' \<and> as_ok P s' refs' r d1' d0'
    \<and> refs m = 0 \<and> refs' m = 1 \<and> m \<notin> tables r d1' d0' \<and> page_bytes s' m = (\<lambda>_. 0) \<and> is_page m
    \<and> kept s refs (tables r d1 d0) s' refs' \<and> (\<forall>t\<in>tables r d1' d0'. t \<in> tables r d1 d0 \<or> refs t = 0)
    \<and> (res = 0 \<and> (\<forall>x<MAXVA. pte_of s' r x = (if x div PGSIZE = va div PGSIZE then PA2PTE m OR perm OR PTE_V else pte_of s r x))
       \<or> res = -1 \<and> (\<forall>x<MAXVA. pte_of s' r x = pte_of s r x) \<and> (\<forall>q\<in>P. 0 < refs' q))"
proof -
  have A: "as_ok P s refs r d1 d0" using U by (rule uspace_as_ok)
  note K = take_page [OF A k] and F = fresh_page [OF A k]
  let ?s = "zero_page m s1"
  have page: "(x div PGSIZE = va div PGSIZE) = (va \<le> x \<and> x < va + PGSIZE)" for x
  proof -
    have v: "va = PGSIZE * (va div PGSIZE)" using va(1) by (auto simp: mod_0_imp_dvd)
    have "(x div PGSIZE = va div PGSIZE) = (PGSIZE * (va div PGSIZE) \<le> x \<and> x < PGSIZE * Suc (va div PGSIZE))"
      using times_div_less_eq_dividend [of PGSIZE x] dividend_less_times_div [of PGSIZE x] div_nat_eqI [of PGSIZE "va div PGSIZE" x]
      by (auto simp: PGSIZE_def)
    then show ?thesis using v by (simp add: add.commute)
  qed
  have top: "va + PGSIZE \<le> MAXVA"
  proof -
    have "va div 4096 < 2 ^ 26" using va(2) by (simp add: MAXVA_def div_less_iff_less_mult)
    moreover have "va = 4096 * (va div 4096)" using va(1) by (auto simp: PGSIZE_def)
    ultimately show ?thesis by (simp add: MAXVA_def PGSIZE_def)
  qed
  have "\<not> has PTE_V (pte_of ?s r x)" if "va \<le> x" "x < va + PGSIZE" for x
    using F(2) [of x] new pte_of_page [of x va s r] page [of x] that top va(2) by simp
  then obtain res s' refs' d1' d0' n where M: "mappages r va PGSIZE m perm ?s = Ret res s'" "as_ok P s' refs' r d1' d0'"
      "grows ?s (refs(m := 1)) (tables r d1 d0) s' refs' (tables r d1' d0')"
      "\<forall>x<MAXVA. pte_of s' r x = mapped_at n va m perm (pte_of ?s r) x" "result_ok P refs' n 1 res"
    using mappages_ok [OF F(1), of va PGSIZE m perm] va top perm page_aligned [OF K(4)] K(4)
    by (fastforce simp: PGSIZE_def is_page_def PHYSTOP_def)
  have N: "(refs(m := 1)) t = 0" if "t \<in> tables r d1' d0'" "t \<notin> tables r d1 d0" for t
    using M(3) that unfolding grows_def by blast
  have T: "m \<notin> tables r d1' d0'" using N [of m] K(5) by auto
  have T2: "\<forall>t\<in>tables r d1' d0'. t \<in> tables r d1 d0 \<or> refs t = 0"
  proof (intro ballI)
    fix t assume "t \<in> tables r d1' d0'"
    then show "t \<in> tables r d1 d0 \<or> refs t = 0" using N [of t] T by (cases "t \<in> tables r d1 d0"; cases "t = m") simp_all
  qed
  have m: "refs' m = 1" "page_bytes s' m = (\<lambda>_. 0)"
    using M(3) K(3,5) F(3) [of m] by (auto simp: grows_def)
  have kept: "kept s refs (tables r d1 d0) s' refs'"
    unfolding kept_def
  proof (intro allI impI)
    fix q assume q: "0 < refs q" "q \<notin> tables r d1 d0"
    then have qm: "q \<noteq> m" "q \<in> P" using K(2) A pool_owned [of P s refs q] by (auto simp: as_ok_def)
    then show "refs' q = refs q \<and> page_bytes s' q = page_bytes s q" using grows_kept [OF M(3)] q F(3) [of q] by (simp add: kept_def)
  qed
  have "n = 0 \<and> res = -1 \<and> (\<forall>q\<in>P. 0 < refs' q) \<or> n = 1 \<and> res = 0" using M(5) by (auto simp: result_ok_def split: if_splits)
  then have "res = 0 \<and> (\<forall>x<MAXVA. pte_of s' r x = (if x div PGSIZE = va div PGSIZE then PA2PTE m OR perm OR PTE_V else pte_of s r x))
       \<or> res = -1 \<and> (\<forall>x<MAXVA. pte_of s' r x = pte_of s r x) \<and> (\<forall>q\<in>P. 0 < refs' q)"
    using M(4) F(2) page by (auto simp: mapped_at_def)
  then show ?thesis using M(1,2) K(2,4) m T T2 kept by blast
qed

lemma user_perm:
  assumes "is_page m"
  defines "e \<equiv> PA2PTE m OR (PTE_W OR PTE_U OR PTE_R) OR PTE_V"
  shows "PTE2PA e = m" "uentry e" "has PTE_V e" "has PTE_W e"
proof -
  have f: "PTE_W OR PTE_U OR PTE_R = (22 :: nat)" by (simp add: PTE_W_def PTE_U_def PTE_R_def)
  have e: "e = PA2PTE m OR 22 OR PTE_V" by (simp add: e_def f)
  note L = leaf_entry [of m 22, folded e]
  show "PTE2PA e = m" using L(1) page_aligned [OF assms(1)] by simp
  have "bit e n = (bit (22 :: nat) n \<or> n = 0)" if "n < 10" for n using L(2) [of n] page_aligned [OF assms(1)] that by simp
  from this [of 0] this [of 2] this [of 4] show "uentry e" "has PTE_V e" "has PTE_W e"
    by (simp_all add: uentry_def has_bits) (simp_all add: bit_iff_odd)
qed

lemma exhausted_all: "\<forall>q\<in>P. 0 < refs q \<Longrightarrow> exhausted P refs"
  by (auto simp: exhausted_def)

lemma uspace_add:
  assumes U: "uspace P s refs r d1 d0" and A: "as_ok P s' refs' r d1' d0'" and kept: "kept s refs (tables r d1 d0) s' refs'"
    and T: "\<And>t. t \<in> tables r d1' d0' \<Longrightarrow> t \<in> tables r d1 d0 \<or> refs t = 0"
    and m: "refs m = 0" "refs' m = 1" "m \<notin> tables r d1' d0'" "PTE2PA e = m" "uentry e"
    and pt: "\<And>x. x < MAXVA \<Longrightarrow> pte_of s' r x = (if x div PGSIZE = va div PGSIZE then e else pte_of s r x)"
  shows "uspace P s' refs' r d1' d0'" "\<And>q. q \<in> own s' r d1' d0' \<Longrightarrow> q \<in> own s r d1 d0 \<or> refs q = 0"
proof -
  have up: "q \<in> upages s r \<or> q = m" if "q \<in> upages s' r" for q
    using that pt m(4) unfolding upages_def by (auto split: if_splits)
  have old: "refs' q = 1 \<and> q \<notin> tables r d1' d0' \<and> q \<noteq> m" if "q \<in> upages s r" for q
  proof -
    have "refs q = 1" "q \<notin> tables r d1 d0" using U that by (auto simp: uspace_def)
    then show ?thesis using kept T [of q] m(1) by (auto simp: kept_def)
  qed
  show "q \<in> own s r d1 d0 \<or> refs q = 0" if "q \<in> own s' r d1' d0'" for q
    using that up [of q] T [of q] m(1) by (auto simp: own_def)
  have dist: "x div PGSIZE = y div PGSIZE" if "x < MAXVA" "y < MAXVA" "uentry (pte_of s' r x)" "uentry (pte_of s' r y)"
    "PTE2PA (pte_of s' r x) = PTE2PA (pte_of s' r y)" for x y
  proof -
    have o: "PTE2PA (pte_of s r z) \<noteq> m" if "z < MAXVA" "uentry (pte_of s r z)" for z
      using old [of "PTE2PA (pte_of s r z)"] that by (auto simp: upages_def)
    have key: "PTE2PA (pte_of s' r z) = m \<longleftrightarrow> z div PGSIZE = va div PGSIZE" if "z < MAXVA" "uentry (pte_of s' r z)" for z
      using pt [OF that(1)] o [of z] m(4) that by (cases "z div PGSIZE = va div PGSIZE") simp_all
    show ?thesis
    proof (cases "x div PGSIZE = va div PGSIZE \<or> y div PGSIZE = va div PGSIZE")
      case True
      then show ?thesis using key [OF that(1,3)] key [OF that(2,4)] that(5) by metis
    next
      case False
      then have "pte_of s' r x = pte_of s r x" "pte_of s' r y = pte_of s r y" using pt that(1,2) by auto
      then show ?thesis using that U unfolding uspace_def by metis
    qed
  qed
  have "refs' q = 1 \<and> q \<notin> tables r d1' d0'" if "q \<in> upages s' r" for q using up [OF that] old [of q] m(2,3) by auto
  then show "uspace P s' refs' r d1' d0'" unfolding uspace_def using A dist by blast
qed

lemma faulted_same:
  assumes "uspace P s refs r d1 d0" "as_ok P s' refs' r d1' d0'" "\<And>x. x < MAXVA \<Longrightarrow> pte_of s' r x = pte_of s r x"
    and "kept s refs (tables r d1 d0) s' refs'" "\<And>t. t \<in> tables r d1' d0' \<Longrightarrow> t \<in> tables r d1 d0 \<or> refs t = 0"
  shows "faulted P p s refs r d1 d0 s' refs' d1' d0'"
proof -
  have um: "umem p s' r x = umem p s r x" for x
  proof (cases "x < MAXVA")
    case True
    then show ?thesis
      unfolding umem_def assms(3) [OF True] using kept_byte [OF assms(1,4) True] by (simp add: uentry_def Let_def)
  qed (simp add: umem_def)
  have wr: "writable p s' r x = writable p s r x" for x
    using assms(3) [of x] by (cases "x < MAXVA") (simp_all add: writable_def)
  have u: "upages s' r = upages s r" by (rule upages_cong [OF assms(3)])
  have ow: "q \<in> own s r d1 d0 \<or> refs q = 0" if "q \<in> own s' r d1' d0'" for q
  proof -
    have "\<forall>t\<in>tables r d1' d0'. t \<in> tables r d1 d0 \<or> refs t = 0" using assms(5) by simp
    then show ?thesis using that by (auto simp: own_def u)
  qed
  have us: "uspace P s' refs' r d1' d0'" by (rule uspace_same) (fact assms)+
  have v: "has PTE_V (pte_of s' r x)" if "x < MAXVA" "has PTE_V (pte_of s r x)" for x using assms(3) [OF that(1)] that(2) by simp
  show ?thesis unfolding faulted_def by (intro conjI allI ballI impI us assms(4) um wr ow v)
qed

lemma faulted_refl: "uspace P s refs r d1 d0 \<Longrightarrow> faulted P p s refs r d1 d0 s refs d1 d0"
  by (rule faulted_same [OF _ _ _ kept_refl]) (assumption | erule uspace_as_ok | rule refl | erule disjI1)+

lemma vmfault_ok:
  assumes U: "uspace P s refs r d1 d0" and p: "psz p \<le> MAXVA" "ppagetable p = r"
  shows "\<exists>a s' refs' d1' d0'. vmfault p r va s = Ret a s' \<and> faulted P p s refs r d1 d0 s' refs' d1' d0'
    \<and> (if a = 0 then psz p \<le> va \<or> has PTE_V (pte_of s r va) \<or> exhausted P refs'
       else va < psz p \<and> \<not> has PTE_V (pte_of s r va) \<and> uentry (pte_of s' r va) \<and> has PTE_W (pte_of s' r va) \<and> a = PTE2PA (pte_of s' r va))"
proof (cases "va < psz p \<and> \<not> has PTE_V (pte_of s r va)")
  case False
  have A: "as_ok P s refs r d1 d0" using U by (rule uspace_as_ok)
  have "vmfault p r va s = Ret 0 s"
  proof (cases "va < psz p")
    case True
    then have v: "va < MAXVA" using p(1) by simp
    then have "ismapped r (PGROUNDDOWN va) s = Ret True s"
      using ismapped_entry [OF A, of "PGROUNDDOWN va"] False True by (simp add: PGROUNDDOWN_MAXVA pte_of_down)
    then show ?thesis by (simp add: vmfault_def)
  qed (simp add: vmfault_def)
  then show ?thesis using faulted_refl [OF U, of p] False by fastforce
next
  case True
  then have va: "va < MAXVA" "PGROUNDDOWN va < MAXVA" using p(1) by (simp_all add: PGROUNDDOWN_MAXVA)
  have A: "as_ok P s refs r d1 d0" using U by (rule uspace_as_ok)
  have i: "ismapped r (PGROUNDDOWN va) s = Ret False s"
    using ismapped_entry [OF A va(2)] True va(1) by (simp add: pte_of_down)
  obtain m s1 where k: "kalloc s = (m, s1)" by fastforce
  let ?perm = "PTE_W OR PTE_U OR PTE_R"
  show ?thesis
  proof (cases "m = 0")
    case True
    then have "vmfault p r va s = Ret 0 s1" "s1 = s" "exhausted P refs"
      using i k \<open>va < psz p \<and> _\<close> kalloc_fails [of P s refs] A by (auto simp: vmfault_def Let_def as_ok_def exhausted_all)
    then show ?thesis using faulted_refl [OF U, of p] by fastforce
  next
    case False
    have "?perm < 1024" by (simp add: PTE_W_def PTE_U_def PTE_R_def)
    from map_fresh [OF U k False PGROUNDDOWN_props(3) va(2) _ this] True va(1)
    obtain res s' refs' d1' d0' where M: "mappages r (PGROUNDDOWN va) PGSIZE m ?perm (zero_page m s1) = Ret res s'"
        "as_ok P s' refs' r d1' d0'" "refs m = 0" "refs' m = 1" "m \<notin> tables r d1' d0'" "page_bytes s' m = (\<lambda>_. 0)" "is_page m"
        "kept s refs (tables r d1 d0) s' refs'" "\<forall>t\<in>tables r d1' d0'. t \<in> tables r d1 d0 \<or> refs t = 0"
        "res = 0 \<and> (\<forall>x<MAXVA. pte_of s' r x = (if x div PGSIZE = va div PGSIZE then PA2PTE m OR ?perm OR PTE_V else pte_of s r x))
         \<or> res = -1 \<and> (\<forall>x<MAXVA. pte_of s' r x = pte_of s r x) \<and> (\<forall>q\<in>P. 0 < refs' q)"
      by (auto simp: pte_of_down PGROUNDDOWN_props(4))
    have run: "vmfault p r va s = (if res \<noteq> 0 then Ret 0 (kfree m s') else Ret m s')"
      using i k True False M(1) p(2) by (simp add: vmfault_def Let_def)
    show ?thesis
    proof (cases "res = 0")
      case False
      then have R: "res = -1" "\<And>x. x < MAXVA \<Longrightarrow> pte_of s' r x = pte_of s r x" "\<forall>q\<in>P. 0 < refs' q" using M(10) by auto
      note F = as_ok_free [OF M(2), of m, simplified M(4), simplified, OF M(5)]
      have "kept s refs (tables r d1 d0) (kfree m s') (refs'(m := 0))"
      proof -
        have "q \<noteq> m \<and> q \<in> P" if "0 < refs q" for q using that M(3) A pool_owned [of P s refs q] by (auto simp: as_ok_def)
        then show ?thesis using M(8) F(3) by (simp add: kept_def)
      qed
      then have "faulted P p s refs r d1 d0 (kfree m s') (refs'(m := 0)) d1' d0'"
        using F(1,2) R(2) M(9) by (intro faulted_same [OF U]) auto
      moreover have "exhausted P (refs'(m := 0))" unfolding exhausted_def using R(3) by (intro exI [of _ m]) auto
      ultimately show ?thesis using run False by fastforce
    next
      case rz: True
      then have E: "\<And>x. x < MAXVA \<Longrightarrow> pte_of s' r x = (if x div PGSIZE = va div PGSIZE then PA2PTE m OR ?perm OR PTE_V else pte_of s r x)"
        using M(10) by auto
      note G = user_perm [OF M(7)]
      note S = uspace_add [OF U M(2,8) bspec [OF M(9)] M(3,4,5) G(1,2) E]
      have low: "PGROUNDDOWN x < psz p" "\<not> has PTE_V (pte_of s r x)" if "x div PGSIZE = va div PGSIZE" "x < MAXVA" for x
        using that True le_less_trans [OF PGROUNDDOWN_props(1) [of va]] pte_of_page [OF that(1,2) va(1)] by (simp_all add: PGROUNDDOWN_def)
      have zero: "pmem s' (m + i) = 0" if "i < PGSIZE" for i using fun_cong [OF M(6), of i] that by (simp add: page_bytes_def)
      have "umem p s' r x = umem p s r x" for x
      proof (cases "x < MAXVA")
        case True
        then show ?thesis
          using E [OF True] low [of x] G zero [of "x mod PGSIZE"] kept_byte [OF U M(8) True]
          by (cases "x div PGSIZE = va div PGSIZE") (simp_all add: umem_def uentry_def Let_def)
      qed (simp add: umem_def)
      moreover have "writable p s' r x = writable p s r x" for x
        using E [of x] low [of x] G by (cases "x < MAXVA"; cases "x div PGSIZE = va div PGSIZE") (simp_all add: writable_def uentry_def)
      moreover have "\<forall>x<MAXVA. has PTE_V (pte_of s r x) \<longrightarrow> has PTE_V (pte_of s' r x)" using E G(3) by simp
      ultimately have "faulted P p s refs r d1 d0 s' refs' d1' d0'" using S M(8) by (simp add: faulted_def)
      moreover have "pte_of s' r va = PA2PTE m OR ?perm OR PTE_V" using E [OF va(1)] by simp
      ultimately show ?thesis using run rz False True G by fastforce
    qed
  qed
qed

end
