(* ===== verification/Vm_Copy.thy ===== *)
theory Vm_Copy
  imports Vm_User
begin

text \<open>
  Copying between the kernel and user memory: \<open>copyout\<close> writes a prefix of its bytes into \<open>umem\<close>, all of them when it returns 0,
  and \<open>copyin\<close> returns the bytes of \<open>umem\<close>. Both leave every page that is not the process's own alone.
\<close>

lemma put_bytes_apply: "put_bytes a cs m x = (if a \<le> x \<and> x < a + length cs then cs ! (x - a) else m x)"
  by (induction cs arbitrary: a m) (auto simp: nth_Cons' Suc_diff_Suc [symmetric] less_Suc_eq_le)

lemma get_bytes_nth: "length (get_bytes m a n) = n \<and> (\<forall>i<n. get_bytes m a n ! i = m (a + i))"
  by (induction n arbitrary: a) (auto simp: nth_Cons split: nat.splits)

lemma same_page_offset:
  assumes "x mod PGSIZE + n \<le> PGSIZE"
  shows "(x \<le> y \<and> y < x + n) = (y div PGSIZE = x div PGSIZE \<and> x mod PGSIZE \<le> y mod PGSIZE \<and> y mod PGSIZE < x mod PGSIZE + n)"
    "y div PGSIZE = x div PGSIZE \<Longrightarrow> y - x = y mod PGSIZE - x mod PGSIZE"
proof -
  have x: "x = PGSIZE * (x div PGSIZE) + x mod PGSIZE" and y: "y = PGSIZE * (y div PGSIZE) + y mod PGSIZE" by simp_all
  show "y div PGSIZE = x div PGSIZE \<Longrightarrow> y - x = y mod PGSIZE - x mod PGSIZE"
    using x y by (metis diff_cancel2 add.commute)
  show "(x \<le> y \<and> y < x + n) = (y div PGSIZE = x div PGSIZE \<and> x mod PGSIZE \<le> y mod PGSIZE \<and> y mod PGSIZE < x mod PGSIZE + n)"
  proof
    assume a: "x \<le> y \<and> y < x + n"
    have "PGSIZE * Suc (x div PGSIZE) = PGSIZE * (x div PGSIZE) + PGSIZE" by simp
    then have "PGSIZE * (x div PGSIZE) \<le> y" "y < PGSIZE * Suc (x div PGSIZE)" using a assms x by linarith+
    then have "y div PGSIZE = x div PGSIZE" by (intro div_nat_eqI) simp_all
    then show "y div PGSIZE = x div PGSIZE \<and> x mod PGSIZE \<le> y mod PGSIZE \<and> y mod PGSIZE < x mod PGSIZE + n"
      using a x y by (metis add_le_cancel_left add_less_cancel_left add.assoc)
  next
    assume "y div PGSIZE = x div PGSIZE \<and> x mod PGSIZE \<le> y mod PGSIZE \<and> y mod PGSIZE < x mod PGSIZE + n"
    then show "x \<le> y \<and> y < x + n" using x y by (metis add_le_cancel_left add_less_cancel_left add.assoc)
  qed
qed

definition uwrite :: "nat \<Rightarrow> byte list \<Rightarrow> (nat \<Rightarrow> byte option) \<Rightarrow> nat \<Rightarrow> byte option" where
  "uwrite a cs M x = (if a \<le> x \<and> x < a + length cs then Some (cs ! (x - a)) else M x)"

lemma uwrite_append: "uwrite (a + length cs) ds (uwrite a cs M) = uwrite a (cs @ ds) M"
  by (auto simp: uwrite_def nth_append fun_eq_iff)

lemma uwrite_Nil [simp]: "uwrite a [] M = M"
  by (auto simp: uwrite_def fun_eq_iff)

definition stored :: "nat set \<Rightarrow> uproc \<Rightarrow> kmem \<Rightarrow> owners \<Rightarrow> nat \<Rightarrow> (nat \<rightharpoonup> nat) \<Rightarrow> (nat \<times> nat \<rightharpoonup> nat) \<Rightarrow> nat \<Rightarrow> byte list
    \<Rightarrow> kmem \<Rightarrow> owners \<Rightarrow> (nat \<rightharpoonup> nat) \<Rightarrow> (nat \<times> nat \<rightharpoonup> nat) \<Rightarrow> bool" where
  "stored P p s refs r d1 d0 dst cs s' refs' d1' d0' \<longleftrightarrow> uspace P s' refs' r d1' d0' \<and> kept s refs (own s r d1 d0) s' refs'
     \<and> (\<forall>q\<in>own s' r d1' d0'. q \<in> own s r d1 d0 \<or> refs q = 0)
     \<and> umem p s' r = uwrite dst cs (umem p s r) \<and> (\<forall>x. writable p s' r x = writable p s r x)
     \<and> (\<forall>x<MAXVA. has PTE_V (pte_of s r x) \<or> dst \<le> x \<and> x < dst + length cs \<longrightarrow> has PTE_V (pte_of s' r x))"

lemma kept_mono: "kept s refs W s' refs' \<Longrightarrow> W \<subseteq> W' \<Longrightarrow> kept s refs W' s' refs'"
  by (auto simp: kept_def)

lemma faulted_stored: "faulted P p s refs r d1 d0 s' refs' d1' d0' \<Longrightarrow> stored P p s refs r d1 d0 dst [] s' refs' d1' d0'"
  unfolding faulted_def stored_def by (auto simp: own_def intro: kept_mono)

lemma stored_trans:
  assumes "stored P p s refs r d1 d0 dst cs s1 refs1 e1 e0" "stored P p s1 refs1 r e1 e0 (dst + length cs) ds s2 refs2 f1 f0"
  shows "stored P p s refs r d1 d0 dst (cs @ ds) s2 refs2 f1 f0"
proof -
  note A = assms(1) [unfolded stored_def] and B = assms(2) [unfolded stored_def]
  have o1: "q \<in> own s r d1 d0 \<or> refs q = 0" if "q \<in> own s1 r e1 e0" for q using A that by simp
  have "q \<in> own s r d1 d0 \<or> refs q = 0" if q: "q \<in> own s2 r f1 f0" for q
  proof (cases "q \<in> own s1 r e1 e0")
    case False
    then have z: "refs1 q = 0" using B q by blast
    have "refs1 q = refs q" if "0 < refs q" "q \<notin> own s r d1 d0" using A that by (simp add: kept_def)
    then show ?thesis using z by (cases "refs q = 0") auto
  qed (rule o1)
  moreover have "kept s refs (own s r d1 d0) s2 refs2"
    by (rule kept_trans [of s refs _ s1 refs1 "own s1 r e1 e0"]) (use A B in simp, use A B in simp, rule o1)
  moreover have "has PTE_V (pte_of s2 r x)" if "x < MAXVA" "has PTE_V (pte_of s r x) \<or> dst \<le> x \<and> x < dst + length (cs @ ds)" for x
  proof -
    have "has PTE_V (pte_of s1 r x) \<or> dst + length cs \<le> x \<and> x < dst + length cs + length ds"
      using A that by (cases "x < dst + length cs") auto
    then show ?thesis using B that(1) by blast
  qed
  ultimately show ?thesis unfolding stored_def using A B by (simp add: uwrite_append)
qed

lemma copy_page:
  assumes U: "uspace P s refs r d1 d0" and x: "x < MAXVA" "uentry (pte_of s r x)" and n: "x mod PGSIZE + length cs \<le> PGSIZE"
  shows "stored P p s refs r d1 d0 x cs (s\<lparr>pmem := put_bytes (PTE2PA (pte_of s r x) + x mod PGSIZE) cs (pmem s)\<rparr>) refs d1 d0"
proof -
  let ?q = "PTE2PA (pte_of s r x)"
  let ?s = "s\<lparr>pmem := put_bytes (?q + x mod PGSIZE) cs (pmem s)\<rparr>"
  note Q = uspace_page [OF U x] and A = uspace_as_ok [OF U]
  have ok: "pool_ok P s refs" using A by (simp add: as_ok_def)
  have other: "page_bytes ?s q = page_bytes s q" if "is_page q" "q \<noteq> ?q" for q
    using n by (intro page_bytes_other [OF Q(3) that]) (auto simp: put_bytes_apply)
  have W: "page_bytes ?s q = page_bytes s q" if "q \<in> P" "refs q = 0 \<or> q \<in> tables r d1 d0" for q
  proof -
    have "q \<noteq> ?q" using that(2) Q(1,2) by auto
    then show ?thesis using other [OF pool_page [OF ok that(1)]] by simp
  qed
  have A': "as_ok P ?s refs r d1 d0" by (rule as_ok_write(1) [OF A _ _ W]) simp_all
  have pt: "pte_of ?s r y = pte_of s r y" for y by (rule as_ok_write(2) [OF A _ _ W]) simp_all
  have up: "upages ?s r = upages s r" by (rule upages_cong) (rule pt)
  have us: "uspace P ?s refs r d1 d0" using U A' unfolding uspace_def up pt by blast
  have um: "umem p ?s r y = uwrite x cs (umem p s r) y" for y
  proof (cases "y < MAXVA \<and> uentry (pte_of s r y)")
    case True
    let ?u = "PTE2PA (pte_of s r y)"
    have y: "umem p ?s r y = Some (pmem ?s (?u + y mod PGSIZE))" "umem p s r y = Some (pmem s (?u + y mod PGSIZE))"
      using True by (simp_all add: umem_def pt uentry_def)
    have same: "y div PGSIZE = x div PGSIZE \<longleftrightarrow> ?u = ?q"
      using True x U pte_of_page [of y x s r] unfolding uspace_def by metis
    show ?thesis
    proof (cases "y div PGSIZE = x div PGSIZE")
      case True
      then have "?u = ?q" using same by simp
      then show ?thesis
        using y same_page_offset [OF n, of y] True by (auto simp: uwrite_def put_bytes_apply)
    next
      case False
      then have "?u \<noteq> ?q" "is_page ?u" using same uspace_page [OF U, of y] \<open>y < MAXVA \<and> _\<close> by auto
      then show ?thesis
        using y same_page_offset(1) [OF n, of y] False page_byte [OF other, of ?u "y mod PGSIZE"] by (auto simp: uwrite_def)
    qed
  next
    case False
    then have "y div PGSIZE \<noteq> x div PGSIZE \<or> MAXVA \<le> y" using x pte_of_page [of y x s r] by (metis not_le)
    moreover have "y div PGSIZE = x div PGSIZE" "y < MAXVA" if "x \<le> y" "y < x + length cs"
    proof -
      show e: "y div PGSIZE = x div PGSIZE" using that same_page_offset(1) [OF n, of y] by simp
      then have "PGROUNDDOWN y = PGROUNDDOWN x" by (simp add: PGROUNDDOWN_def)
      then show "y < MAXVA" using x(1) PGROUNDDOWN_MAXVA by metis
    qed
    ultimately have "uwrite x cs (umem p s r) y = umem p s r y" by (auto simp: uwrite_def)
    then show ?thesis using False by (auto simp: umem_def pt uentry_def Let_def)
  qed
  have "kept s refs (own s r d1 d0) ?s refs"
    unfolding kept_def
  proof (intro allI impI)
    fix q assume "0 < refs q" "q \<notin> own s r d1 d0"
    then show "refs q = refs q \<and> page_bytes ?s q = page_bytes s q"
      using other [of q] pool_owned [OF ok, of q] Q(6) by (auto simp: own_def)
  qed
  moreover have "own ?s r d1 d0 = own s r d1 d0" by (simp add: own_def up)
  moreover have "has PTE_V (pte_of s r y)" if "y < MAXVA" "x \<le> y \<and> y < x + length cs" for y
    using that same_page_offset(1) [OF n, of y] pte_of_page [of y x s r] x by (simp add: uentry_def)
  ultimately show ?thesis unfolding stored_def using us um by (auto simp: writable_def pt fun_eq_iff)
qed

section \<open>Copying out\<close>

text \<open>The page that \<open>copyout\<close> and \<open>copyin\<close> use: mapped already, or allocated by the fault handler.\<close>

lemma touch_page:
  assumes U: "uspace P s refs r d1 d0" and p: "psz p \<le> MAXVA" "ppagetable p = r" and a: "a < MAXVA"
  shows "\<exists>q s' refs' d1' d0'. obind (walkaddr r (PGROUNDDOWN a) s) (\<lambda>pa0 s. if pa0 = 0 then vmfault p r (PGROUNDDOWN a) s else Ret pa0 s) = Ret q s'
    \<and> faulted P p s refs r d1 d0 s' refs' d1' d0'
    \<and> (if q = 0 then umem p s r a = None \<or> \<not> has PTE_V (pte_of s r a) \<and> exhausted P refs' else uentry (pte_of s' r a) \<and> q = PTE2PA (pte_of s' r a))"
proof -
  note A = uspace_as_ok [OF U]
  have w: "walkaddr r (PGROUNDDOWN a) s = Ret (if uentry (pte_of s r a) then PTE2PA (pte_of s r a) else 0) s"
    using walkaddr_entry [OF A, of "PGROUNDDOWN a"] a by (simp add: PGROUNDDOWN_MAXVA pte_of_down)
  show ?thesis
  proof (cases "uentry (pte_of s r a)")
    case True
    then show ?thesis using w uspace_page(5) [OF U a True] faulted_refl [OF U, of p] by fastforce
  next
    case False
    obtain q s' refs' d1' d0' where V: "vmfault p r (PGROUNDDOWN a) s = Ret q s'" "faulted P p s refs r d1 d0 s' refs' d1' d0'"
      "if q = 0 then psz p \<le> PGROUNDDOWN a \<or> has PTE_V (pte_of s r (PGROUNDDOWN a)) \<or> exhausted P refs'
       else uentry (pte_of s' r (PGROUNDDOWN a)) \<and> q = PTE2PA (pte_of s' r (PGROUNDDOWN a))"
      using vmfault_ok [OF U p, of "PGROUNDDOWN a"] by (auto split: if_splits)
    have "if q = 0 then umem p s r a = None \<or> \<not> has PTE_V (pte_of s r a) \<and> exhausted P refs' else uentry (pte_of s' r a) \<and> q = PTE2PA (pte_of s' r a)"
      using V(3) a False by (auto simp: pte_of_down umem_def uentry_def Let_def split: if_splits)
    moreover have "obind (walkaddr r (PGROUNDDOWN a) s) (\<lambda>pa0 s. if pa0 = 0 then vmfault p r (PGROUNDDOWN a) s else Ret pa0 s) = Ret q s'"
      using w V(1) False by simp
    ultimately show ?thesis using V(2) by blast
  qed
qed

lemma copyout_unfold:
  assumes "src \<noteq> []" "dst < MAXVA"
  shows "copyout p r dst src s =
    obind (obind (walkaddr r (PGROUNDDOWN dst) s) (\<lambda>pa0 s. if pa0 = 0 then vmfault p r (PGROUNDDOWN dst) s else Ret pa0 s)) (\<lambda>pa0 s.
      if pa0 = 0 then Ret (-1) s
      else obind (walk r (PGROUNDDOWN dst) False s) (\<lambda>pte s.
        if \<not> has PTE_W (get_pte s pte) then Ret (-1) s
        else let n = min (PGSIZE - dst mod PGSIZE) (length src)
             in copyout p r (PGROUNDDOWN dst + PGSIZE) (drop n src)
                  (s\<lparr>pmem := put_bytes (pa0 + dst mod PGSIZE) (take n src) (pmem s)\<rparr>)))"
  using assms PGROUNDDOWN_MAXVA [of dst]
  by (subst copyout.simps) (simp add: obind_assoc PGROUNDDOWN_props(5) not_le Let_def cong: if_cong)

lemma page_end: "PGROUNDDOWN x + PGSIZE = x + (PGSIZE - x mod PGSIZE)"
  using PGROUNDDOWN_props(1,2,5) [of x] by linarith

definition copied_out :: "nat set \<Rightarrow> uproc \<Rightarrow> kmem \<Rightarrow> owners \<Rightarrow> nat \<Rightarrow> (nat \<rightharpoonup> nat) \<Rightarrow> (nat \<times> nat \<rightharpoonup> nat) \<Rightarrow> nat \<Rightarrow> byte list \<Rightarrow> int \<Rightarrow> kmem \<Rightarrow> bool" where
  "copied_out P p s refs r d1 d0 dst src res s' \<longleftrightarrow> (\<exists>refs' d1' d0' n. stored P p s refs r d1 d0 dst (take n src) s' refs' d1' d0' \<and> n \<le> length src
     \<and> (if res = 0 then n = length src else res = -1 \<and> n < length src \<and> ((\<exists>i<length src. \<not> writable p s r (dst + i)) \<or> exhausted P refs')))"

lemma writable_umem: "umem p s r x = None \<Longrightarrow> \<not> writable p s r x"
  by (auto simp: umem_def writable_def Let_def split: if_splits)

lemma copied_out_append:
  assumes "stored P p s refs r d1 d0 dst (take n src) s1 refs1 e1 e0" "n \<le> length src"
    and "copied_out P p s1 refs1 r e1 e0 (dst + n) (drop n src) res s'"
  shows "copied_out P p s refs r d1 d0 dst src res s'"
proof -
  obtain refs' d1' d0' k where C: "stored P p s1 refs1 r e1 e0 (dst + n) (take k (drop n src)) s' refs' d1' d0'" "k \<le> length src - n"
      "if res = 0 then k = length src - n else res = -1 \<and> k < length src - n \<and> ((\<exists>i<length src - n. \<not> writable p s1 r (dst + n + i)) \<or> exhausted P refs')"
    using assms(3) unfolding copied_out_def length_drop by blast
  have w: "writable p s1 r x = writable p s r x" for x using assms(1) by (simp add: stored_def)
  have "stored P p s refs r d1 d0 dst (take n src @ take k (drop n src)) s' refs' d1' d0'"
    using stored_trans [OF assms(1)] C(1) assms(2) by simp
  then have S: "stored P p s refs r d1 d0 dst (take (n + k) src) s' refs' d1' d0'" by (simp add: take_add)
  have "\<exists>i<length src. \<not> writable p s r (dst + i)" if h: "\<exists>i<length src - n. \<not> writable p s1 r (dst + n + i)"
  proof -
    obtain i where "i < length src - n" "\<not> writable p s r (dst + (n + i))" using h by (auto simp: w add.assoc)
    then show ?thesis by (intro exI [of _ "n + i"]) simp
  qed
  then show ?thesis unfolding copied_out_def using S C(2,3) assms(2)
    by (intro exI [of _ refs'] exI [of _ d1'] exI [of _ d0'] exI [of _ "n + k"]) auto
qed

lemma copied_out_none:
  assumes "stored P p s refs r d1 d0 dst [] s' refs' d1' d0'" "\<not> writable p s r dst \<or> exhausted P refs'" "src \<noteq> []"
  shows "copied_out P p s refs r d1 d0 dst src (-1) s'"
proof -
  have "(\<exists>i<length src. \<not> writable p s r (dst + i)) \<or> exhausted P refs'"
    using assms(2,3) by (auto intro!: exI [of _ 0])
  then show ?thesis unfolding copied_out_def using assms(1,3)
    by (intro exI [of _ refs'] exI [of _ d1'] exI [of _ d0'] exI [of _ 0]) simp
qed

lemma copyout_ok:
  assumes "uspace P s refs r d1 d0" "psz p \<le> MAXVA" "ppagetable p = r"
  shows "\<exists>res s'. copyout p r dst src s = Ret res s' \<and> copied_out P p s refs r d1 d0 dst src res s'"
  using assms(1)
proof (induction "length src" arbitrary: dst src s refs d1 d0 rule: less_induct)
  case less
  note U = less.prems
  consider (nil) "src = []" | (high) "src \<noteq> []" "MAXVA \<le> dst" | (step) "src \<noteq> []" "dst < MAXVA" by linarith
  then show ?case
  proof cases
    case nil
    have "stored P p s refs r d1 d0 dst [] s refs d1 d0" using faulted_stored [OF faulted_refl [OF U]] .
    then have "copied_out P p s refs r d1 d0 dst src 0 s" unfolding copied_out_def nil by fastforce
    then show ?thesis using nil by (simp add: copyout.simps)
  next
    case high
    then have "copyout p r dst src s = Ret (-1) s" using PGROUNDDOWN_MAXVA [of dst] by (simp add: copyout.simps not_less)
    moreover have "\<not> writable p s r dst" using high(2) by (simp add: writable_def)
    ultimately show ?thesis using copied_out_none [OF faulted_stored [OF faulted_refl [OF U]]] high(1) by blast
  next
    case step
    let ?n = "min (PGSIZE - dst mod PGSIZE) (length src)"
    obtain q s1 refs1 e1 e0 where t: "obind (walkaddr r (PGROUNDDOWN dst) s) (\<lambda>pa0 s. if pa0 = 0 then vmfault p r (PGROUNDDOWN dst) s else Ret pa0 s) = Ret q s1"
      and F: "faulted P p s refs r d1 d0 s1 refs1 e1 e0"
      and q: "if q = 0 then umem p s r dst = None \<or> \<not> has PTE_V (pte_of s r dst) \<and> exhausted P refs1 else uentry (pte_of s1 r dst) \<and> q = PTE2PA (pte_of s1 r dst)"
      using touch_page [OF U assms(2,3) step(2)] by blast
    note S = faulted_stored [OF F, of dst]
    have U1: "uspace P s1 refs1 r e1 e0" and w: "writable p s1 r dst = writable p s r dst" using F by (simp_all add: faulted_def)
    show ?thesis
    proof (cases "q = 0")
      case True
      then have "copyout p r dst src s = Ret (-1) s1" using copyout_unfold [OF step] t by simp
      moreover have "\<not> writable p s r dst \<or> exhausted P refs1" using q True writable_umem [of p s r dst] by auto
      ultimately show ?thesis using copied_out_none [OF S _ step(1)] by blast
    next
      case False
      then have e: "uentry (pte_of s1 r dst)" "q = PTE2PA (pte_of s1 r dst)" using q by auto
      obtain b where b: "walk r (PGROUNDDOWN dst) False s1 = Ret b s1" "get_pte s1 b = pte_of s1 r dst"
        using walk_entry [OF uspace_as_ok [OF U1], of "PGROUNDDOWN dst"] step(2) e(1)
        by (auto simp: PGROUNDDOWN_MAXVA pte_of_down uentry_def)
      show ?thesis
      proof (cases "has PTE_W (pte_of s1 r dst)")
        case False
        then have "copyout p r dst src s = Ret (-1) s1" using copyout_unfold [OF step] t \<open>q \<noteq> 0\<close> b by simp
        moreover have "\<not> writable p s r dst" using w False e(1) by (simp add: writable_def uentry_def)
        ultimately show ?thesis using copied_out_none [OF S _ step(1)] by blast
      next
        case True
        let ?s = "s1\<lparr>pmem := put_bytes (q + dst mod PGSIZE) (take ?n src) (pmem s1)\<rparr>"
        have run: "copyout p r dst src s = copyout p r (PGROUNDDOWN dst + PGSIZE) (drop ?n src) ?s"
          using copyout_unfold [OF step] t \<open>q \<noteq> 0\<close> b True by (simp add: Let_def)
        have m: "dst mod PGSIZE < PGSIZE" by simp
        have n: "0 < ?n" "dst mod PGSIZE + length (take ?n src) \<le> PGSIZE"
          using step(1) m unfolding length_take length_greater_0_conv [symmetric] by linarith+
        have C: "stored P p s refs r d1 d0 dst (take ?n src) ?s refs1 e1 e0"
          using stored_trans [OF S, of "take ?n src"] copy_page [OF U1 step(2) e(1) n(2), of p] by (simp add: e(2))
        then have U2: "uspace P ?s refs1 r e1 e0" by (simp add: stored_def)
        have "PGROUNDDOWN dst + PGSIZE = dst + ?n \<or> drop ?n src = []" using page_end [of dst] by auto
        then have "copyout p r (PGROUNDDOWN dst + PGSIZE) (drop ?n src) ?s = copyout p r (dst + ?n) (drop ?n src) ?s"
          by (auto simp: copyout.simps [of p r _ "[]"])
        then show ?thesis
          using less.hyps [of "drop ?n src", OF _ U2, of "dst + ?n"] n(1) step(1) run copied_out_append [OF C] by fastforce
      qed
    qed
  qed
qed

section \<open>Copying in\<close>

lemma copyin_unfold:
  assumes "len \<noteq> 0"
  shows "copyin p r src len acc s =
    obind (obind (walkaddr r (PGROUNDDOWN src) s) (\<lambda>pa0 s. if pa0 = 0 then vmfault p r (PGROUNDDOWN src) s else Ret pa0 s)) (\<lambda>pa0 s.
      if pa0 = 0 then Ret (-1, acc) s
      else let n = min (PGSIZE - src mod PGSIZE) len
           in copyin p r (PGROUNDDOWN src + PGSIZE) (len - n) (acc @ get_bytes (pmem s) (pa0 + src mod PGSIZE) n) s)"
  using assms by (subst copyin.simps) (simp add: obind_assoc PGROUNDDOWN_props(5) Let_def cong: if_cong)

lemma stored_Nil_trans:
  assumes "stored P p s refs r d1 d0 a [] s1 refs1 e1 e0" "stored P p s1 refs1 r e1 e0 b [] s2 refs2 f1 f0"
  shows "stored P p s refs r d1 d0 c [] s2 refs2 f1 f0"
proof -
  have "stored P p s refs r d1 d0 c [] s1 refs1 e1 e0" "stored P p s1 refs1 r e1 e0 c [] s2 refs2 f1 f0"
    using assms by (simp_all add: stored_def)
  then show ?thesis using stored_trans [of P p s refs r d1 d0 c "[]" s1 refs1 e1 e0 "[]"] by simp
qed

definition copied_in :: "nat set \<Rightarrow> uproc \<Rightarrow> kmem \<Rightarrow> owners \<Rightarrow> nat \<Rightarrow> (nat \<rightharpoonup> nat) \<Rightarrow> (nat \<times> nat \<rightharpoonup> nat) \<Rightarrow> nat \<Rightarrow> nat \<Rightarrow> int \<Rightarrow> byte list \<Rightarrow> kmem \<Rightarrow> bool" where
  "copied_in P p s refs r d1 d0 src len res cs s' \<longleftrightarrow> (\<exists>refs' d1' d0'. stored P p s refs r d1 d0 src [] s' refs' d1' d0'
     \<and> (\<forall>i<length cs. umem p s r (src + i) = Some (cs ! i))
     \<and> (if res = 0 then length cs = len else res = -1 \<and> (\<exists>i<len. umem p s r (src + i) = None \<or> \<not> has PTE_V (pte_of s r (src + i)) \<and> exhausted P refs')))"

lemma copied_in_append:
  assumes "stored P p s refs r d1 d0 src [] s1 refs1 e1 e0" "length bs = n" "n \<le> len" "\<And>i. i < n \<Longrightarrow> umem p s r (src + i) = Some (bs ! i)"
    and "copied_in P p s1 refs1 r e1 e0 (src + n) (len - n) res cs s'"
  shows "copied_in P p s refs r d1 d0 src len res (bs @ cs) s'"
proof -
  have u: "umem p s1 r x = umem p s r x" for x using assms(1) by (simp add: stored_def)
  obtain refs' d1' d0' where C: "stored P p s1 refs1 r e1 e0 (src + n) [] s' refs' d1' d0'" "\<forall>i<length cs. umem p s r (src + n + i) = Some (cs ! i)"
      "if res = 0 then length cs = len - n else res = -1 \<and> (\<exists>i<len - n. umem p s r (src + n + i) = None \<or> \<not> has PTE_V (pte_of s1 r (src + n + i)) \<and> exhausted P refs')"
    using assms(5) unfolding copied_in_def u by blast
  have "umem p s r (src + i) = Some ((bs @ cs) ! i)" if "i < length (bs @ cs)" for i
    using that assms(2,4) C(2) [rule_format, of "i - n"] by (cases "i < n") (auto simp: nth_append)
  moreover have "\<exists>i<len. umem p s r (src + i) = None \<or> \<not> has PTE_V (pte_of s r (src + i)) \<and> exhausted P refs'"
    if h: "\<exists>i<len - n. umem p s r (src + n + i) = None \<or> \<not> has PTE_V (pte_of s1 r (src + n + i)) \<and> exhausted P refs'"
  proof -
    obtain i where i: "i < len - n" "umem p s r (src + (n + i)) = None \<or> \<not> has PTE_V (pte_of s1 r (src + (n + i))) \<and> exhausted P refs'"
      using h by (auto simp: add.assoc)
    have "has PTE_V (pte_of s1 r x)" if "has PTE_V (pte_of s r x)" "x < MAXVA" for x using assms(1) that by (simp add: stored_def)
    then have "umem p s r (src + (n + i)) = None \<or> \<not> has PTE_V (pte_of s r (src + (n + i))) \<and> exhausted P refs'"
      using i(2) umem_high [of "src + (n + i)"] by (cases "src + (n + i) < MAXVA") auto
    then show ?thesis using i(1) by (intro exI [of _ "n + i"]) simp
  qed
  ultimately show ?thesis unfolding copied_in_def using stored_Nil_trans [OF assms(1) C(1), of src] C(3) assms(2,3)
    by (intro exI [of _ refs'] exI [of _ d1'] exI [of _ d0']) (auto split: if_splits)
qed

lemma read_page:
  assumes "uspace P s refs r d1 d0" "x < MAXVA" "uentry (pte_of s r x)" "x mod PGSIZE + n \<le> PGSIZE" "i < n"
  shows "umem p s r (x + i) = Some (get_bytes (pmem s) (PTE2PA (pte_of s r x) + x mod PGSIZE) n ! i)"
proof -
  have y: "(x + i) div PGSIZE = x div PGSIZE" "x + i - x = (x + i) mod PGSIZE - x mod PGSIZE" "x mod PGSIZE \<le> (x + i) mod PGSIZE"
    using same_page_offset [OF assms(4), of "x + i"] assms(5) by auto
  then have "PGROUNDDOWN (x + i) = PGROUNDDOWN x" by (simp add: PGROUNDDOWN_def)
  then have m: "x + i < MAXVA" using assms(2) PGROUNDDOWN_MAXVA by metis
  have "(x + i) mod PGSIZE = x mod PGSIZE + i" using y(2,3) by simp
  then show ?thesis
    using assms(3,5) m pte_of_page [OF y(1) m assms(2), of s r] get_bytes_nth [of "pmem s" "PTE2PA (pte_of s r x) + x mod PGSIZE" n]
    by (simp add: umem_def uentry_def Let_def add.assoc)
qed

lemma copyin_ok:
  assumes "uspace P s refs r d1 d0" "psz p \<le> MAXVA" "ppagetable p = r"
  shows "\<exists>res cs s'. copyin p r src len acc s = Ret (res, acc @ cs) s' \<and> copied_in P p s refs r d1 d0 src len res cs s'"
  using assms(1)
proof (induction len arbitrary: src acc s refs d1 d0 rule: less_induct)
  case (less len)
  note U = less.prems
  have S0: "stored P p s refs r d1 d0 src [] s refs d1 d0" using faulted_stored [OF faulted_refl [OF U]] .
  consider (nil) "len = 0" | (high) "len \<noteq> 0" "MAXVA \<le> src" | (step) "len \<noteq> 0" "src < MAXVA" by linarith
  then show ?case
  proof cases
    case nil
    then have "copied_in P p s refs r d1 d0 src len 0 [] s" unfolding copied_in_def using S0 by fastforce
    then show ?thesis using nil by (auto simp: copyin.simps)
  next
    case high
    then have h: "\<not> PGROUNDDOWN src < MAXVA" using PGROUNDDOWN_MAXVA [of src] by simp
    then have "copyin p r src len acc s = Ret (-1, acc @ []) s"
      using high(1) assms(2) by (simp add: copyin_unfold walkaddr_def vmfault_def)
    moreover have "umem p s r (src + 0) = None" using high(2) by (simp add: umem_def)
    then have "copied_in P p s refs r d1 d0 src len (-1) [] s" unfolding copied_in_def using S0 high(1) by fastforce
    ultimately show ?thesis by blast
  next
    case step
    let ?n = "min (PGSIZE - src mod PGSIZE) len"
    obtain q s1 refs1 e1 e0 where t: "obind (walkaddr r (PGROUNDDOWN src) s) (\<lambda>pa0 s. if pa0 = 0 then vmfault p r (PGROUNDDOWN src) s else Ret pa0 s) = Ret q s1"
      and F: "faulted P p s refs r d1 d0 s1 refs1 e1 e0"
      and q: "if q = 0 then umem p s r src = None \<or> \<not> has PTE_V (pte_of s r src) \<and> exhausted P refs1 else uentry (pte_of s1 r src) \<and> q = PTE2PA (pte_of s1 r src)"
      using touch_page [OF U assms(2,3) step(2)] by blast
    note S = faulted_stored [OF F, of src]
    have U1: "uspace P s1 refs1 r e1 e0" and u: "\<And>x. umem p s1 r x = umem p s r x" using F by (simp_all add: faulted_def)
    show ?thesis
    proof (cases "q = 0")
      case True
      then have "copyin p r src len acc s = Ret (-1, acc @ []) s1" using copyin_unfold [OF step(1)] t by simp
      moreover have "\<exists>i<len. umem p s r (src + i) = None \<or> \<not> has PTE_V (pte_of s r (src + i)) \<and> exhausted P refs1"
        using q True step(1) by (auto intro!: exI [of _ 0])
      then have "copied_in P p s refs r d1 d0 src len (-1) [] s1" unfolding copied_in_def using S by fastforce
      ultimately show ?thesis by blast
    next
      case False
      let ?bs = "get_bytes (pmem s1) (q + src mod PGSIZE) ?n"
      have e: "uentry (pte_of s1 r src)" "q = PTE2PA (pte_of s1 r src)" using q False by auto
      have m: "src mod PGSIZE < PGSIZE" by simp
      have n: "0 < ?n" "src mod PGSIZE + ?n \<le> PGSIZE" using step(1) m by linarith+
      have B: "umem p s r (src + i) = Some (?bs ! i)" if "i < ?n" for i
        using read_page [OF U1 step(2) e(1) n(2) that, of p] u e(2) by simp
      have "PGROUNDDOWN src + PGSIZE = src + ?n \<or> len - ?n = 0" using page_end [of src] by auto
      then have "copyin p r src len acc s = copyin p r (src + ?n) (len - ?n) (acc @ ?bs) s1"
        using copyin_unfold [OF step(1)] t False by (auto simp: Let_def copyin.simps [of p r _ 0])
      moreover obtain res cs s' where IH: "copyin p r (src + ?n) (len - ?n) (acc @ ?bs) s1 = Ret (res, (acc @ ?bs) @ cs) s'"
          "copied_in P p s1 refs1 r e1 e0 (src + ?n) (len - ?n) res cs s'"
        using less.IH [OF _ U1, of "len - ?n" "src + ?n" "acc @ ?bs"] n(1) step(1) by (metis diff_less neq0_conv)
      moreover have "copied_in P p s refs r d1 d0 src len res (?bs @ cs) s'"
        by (rule copied_in_append [OF S _ _ B IH(2)]) (use get_bytes_nth in auto)
      ultimately show ?thesis by auto
    qed
  qed
qed

end
