(* ===== verification/Vm_Props.thy ===== *)
theory Vm_Props
  imports Vm_Copy
begin

text \<open>
  The properties of virtual memory: mapping, lazy allocation, copying to and from user memory, and isolation of
  address spaces from each other.
\<close>

section \<open>Two address spaces\<close>

lemma own_page:
  assumes "uspace P s refs r d1 d0" "q \<in> own s r d1 d0"
  shows "refs q = 1"
  using assms unfolding own_def uspace_def as_ok_def by blast

lemma uspace_frame:
  assumes U: "uspace P s refs r d1 d0" and ok: "pool_ok P s' refs'" and K: "kept s refs W s' refs'" and W: "own s r d1 d0 \<inter> W = {}"
  shows "uspace P s' refs' r d1 d0" "umem p s' r x = umem p s r x" "own s' r d1 d0 = own s r d1 d0"
proof -
  have rep: "pt_rep s r d1 d0" using uspace_as_ok [OF U] by (simp add: as_ok_def)
  have k: "refs' q = 1 \<and> page_bytes s' q = page_bytes s q" if "q \<in> own s r d1 d0" for q
  proof -
    have "0 < refs q" "q \<notin> W" using own_page [OF U that] W that by auto
    then show ?thesis using K own_page [OF U that] by (simp add: kept_def)
  qed
  have keep: "page_bytes s' t = page_bytes s t" "refs' t = 1" if "t \<in> tables r d1 d0" for t using k [of t] that by (auto simp: own_def)
  have rep': "pt_rep s' r d1 d0" by (rule pt_rep_cong [OF rep]) (use keep in \<open>auto simp: tables_def\<close>)
  have "pte s' t (PX 0 y) = pte s t (PX 0 y)" if "d0 k = Some t" for t k y
  proof -
    have "t \<in> ran d0" using that by (rule ranI)
    then show ?thesis using keep(1) [of t] PX_less by (intro pte_page_cong) (auto simp: tables_def)
  qed
  then have pt: "pte_of s' r y = pte_of s r y" for y
    unfolding pte_of_rep [OF rep'] pte_of_rep [OF rep] by (auto split: option.splits)
  have up: "upages s' r = upages s r" by (rule upages_cong) (rule pt)
  then show "own s' r d1 d0 = own s r d1 d0" by (simp add: own_def)
  have "as_ok P s' refs' r d1 d0" using ok rep' keep(2) by (auto simp: as_ok_def)
  moreover have "refs' q = 1 \<and> q \<notin> tables r d1 d0" if "q \<in> upages s r" for q
    using k [of q] that U unfolding uspace_def own_def by blast
  ultimately show "uspace P s' refs' r d1 d0" using U unfolding uspace_def up pt by blast
  show "umem p s' r x = umem p s r x"
  proof (cases "x < MAXVA \<and> uentry (pte_of s r x)")
    case True
    then have "PTE2PA (pte_of s r x) \<in> own s r d1 d0" using uspace_page(6) [OF U, of x] by (simp add: own_def)
    then have "pmem s' (PTE2PA (pte_of s r x) + x mod PGSIZE) = pmem s (PTE2PA (pte_of s r x) + x mod PGSIZE)"
      using k by (intro page_byte) auto
    then show ?thesis by (simp add: umem_def pt Let_def)
  qed (auto simp: umem_def pt uentry_def Let_def)
qed

section \<open>A small address space\<close>

text \<open>One user page at address 0, writable; its root, middle and leaf table; one more page that is free, and the root of a
  second, empty address space.\<close>

definition vmR :: nat where "vmR = KERNBASE"
definition vmM :: nat where "vmM = KERNBASE + 4096"
definition vmL :: nat where "vmL = KERNBASE + 2 * 4096"
definition vmU :: nat where "vmU = KERNBASE + 3 * 4096"
definition vmF :: nat where "vmF = KERNBASE + 4 * 4096"
definition vmB :: nat where "vmB = KERNBASE + 5 * 4096"

lemmas vm_pages = vmR_def vmM_def vmL_def vmU_def vmF_def vmB_def

definition vm0 :: kmem where
  "vm0 = set_pte (vmL + 8 * 0) (PA2PTE vmU OR (PTE_W OR PTE_U OR PTE_R) OR PTE_V)
     (set_pte (vmM + 8 * 0) (PA2PTE vmL OR 0 OR PTE_V) (set_pte (vmR + 8 * 0) (PA2PTE vmM OR 0 OR PTE_V)
       \<lparr>pmem = (\<lambda>_. 0), freelist = vmF, ref_count = (\<lambda>i. if i = 4 then 0 else 1)\<rparr>))"

definition vm_owners :: owners where
  "vm_owners q = (if q \<in> {vmR, vmM, vmL, vmU, vmB} then 1 else 0)"

definition vmP :: "nat set" where "vmP = {vmR, vmM, vmL, vmU, vmF, vmB}"

definition vm_d1 :: "nat \<rightharpoonup> nat" where "vm_d1 = [0 \<mapsto> vmM]"
definition vm_d0 :: "nat \<times> nat \<rightharpoonup> nat" where "vm_d0 = [(0, 0) \<mapsto> vmL]"

definition vm_proc :: uproc where "vm_proc = \<lparr>psz = 8192, ppagetable = vmR\<rparr>"

lemma vm_is_page: "q \<in> vmP \<Longrightarrow> is_page q"
  by (auto simp: vmP_def vm_pages is_page_def page_consts)

lemma vm_distinct: "distinct [vmR, vmM, vmL, vmU, vmF, vmB]"
  by (simp add: vm_pages)

lemma vm0_pte:
  assumes "q \<in> vmP" "j < 512"
  shows "pte vm0 q j = (if j \<noteq> 0 then 0 else if q = vmR then PA2PTE vmM OR 0 OR PTE_V else if q = vmM then PA2PTE vmL OR 0 OR PTE_V
    else if q = vmL then PA2PTE vmU OR (PTE_W OR PTE_U OR PTE_R) OR PTE_V else 0)"
proof -
  have pg: "is_page vmR" "is_page vmM" "is_page vmL" "is_page vmU" "is_page q"
    using vm_is_page assms(1) by (auto simp: vmP_def)
  have z: "pte \<lparr>pmem = (\<lambda>_. 0), freelist = vmF, ref_count = (\<lambda>i. if i = 4 then 0 else 1)\<rparr> q j = 0"
    by (simp add: pte_def get_pte_def ldn_zero)
  have l: "(PA2PTE x OR f OR PTE_V) mod 2 ^ 64 = PA2PTE x OR f OR PTE_V" if "is_page x" "f < 1024" for x f
    using leaf_entry(3) [of x f] page_aligned [OF that(1)] that(2) by simp
  have z5: "(0 :: nat) < 512" by simp
  have p: "PTE_W OR PTE_U OR PTE_R < (1024 :: nat)" by (simp add: PTE_W_def PTE_U_def PTE_R_def)
  show ?thesis
    unfolding vm0_def pte_set [OF pg(3,5) z5 assms(2)] pte_set [OF pg(2,5) z5 assms(2)] pte_set [OF pg(1,5) z5 assms(2)]
    using vm_distinct z l [OF pg(4) p] l [OF pg(3), of 0] l [OF pg(2), of 0] by auto
qed

lemma vm0_pool: "pool_ok vmP vm0 vm_owners"
proof -
  have d: "q \<in> vmP \<Longrightarrow> is_page q" for q by (rule vm_is_page)
  have idx: "pa2idx (KERNBASE + n * 4096) = int n" if "n < 6" for n
  proof -
    have "is_page (KERNBASE + n * 4096)" using that by (auto simp: is_page_def page_consts)
    then show ?thesis by (simp add: pa2idx_page(1)) (simp add: page_consts)
  qed
  have i: "pa2idx vmR = 0" "pa2idx vmM = 1" "pa2idx vmL = 2" "pa2idx vmU = 3" "pa2idx vmF = 4" "pa2idx vmB = 5"
    using idx [of 0] idx [of 1] idx [of 2] idx [of 3] idx [of 4] idx [of 5] by (simp_all add: vm_pages)
  have "pte vm0 vmF 0 = 0" using vm0_pte [of vmF 0] vm_distinct by (auto simp: vmP_def)
  then have "ldn 8 (pmem vm0) vmF = 0" by (simp add: pte_def get_pte_def)
  moreover have "freelist vm0 = vmF" "vmF \<noteq> 0" by (simp_all add: vm0_def set_pte_def vm_pages page_consts)
  ultimately have c: "chain (pmem vm0) (freelist vm0) [vmF]" by simp
  have rc: "ref_count vm0 = (\<lambda>i. if i = 4 then 0 else 1)" by (simp add: vm0_def set_pte_def)
  have "kmem_ok vmP vm0 [vmF] vm_owners"
    unfolding kmem_ok_def
  proof (intro conjI)
    show "\<forall>q\<in>vmP. q \<in> set [vmF] \<longleftrightarrow> vm_owners q = 0" using vm_distinct by (auto simp: vmP_def vm_owners_def)
    show "\<forall>q\<in>vmP. vm_owners q = 0 \<longrightarrow> ref_count vm0 (pa2idx q) \<le> 0" by (simp add: vmP_def vm_owners_def rc i)
    show "\<forall>q\<in>vmP. 0 < vm_owners q \<longrightarrow> ref_count vm0 (pa2idx q) = int (vm_owners q)"
      using vm_distinct by (auto simp: vmP_def vm_owners_def rc i)
  qed (use c d in \<open>simp_all add: vmP_def\<close>)
  moreover have "\<forall>q. 0 < vm_owners q \<longrightarrow> q \<in> vmP" by (auto simp: vm_owners_def vmP_def)
  ultimately show ?thesis by (auto simp: pool_ok_def)
qed

lemma vm0_child:
  assumes "q \<in> vmP" "j < 512"
  shows "child vm0 q j = (if j \<noteq> 0 then None else if q = vmR then Some vmM else if q = vmM then Some vmL else if q = vmL then Some vmU else None)"
proof -
  have pg: "is_page vmM" "is_page vmL" "is_page vmU" using vm_is_page by (auto simp: vmP_def)
  have l: "PTE2PA (PA2PTE x OR 0 OR PTE_V) = x \<and> has PTE_V (PA2PTE x OR 0 OR PTE_V)" if "is_page x" for x
    using leaf_entry(1,2) [of x 0] page_aligned [OF that] unfolding has_bits by simp
  show ?thesis
    unfolding child_def vm0_pte [OF assms] using vm_distinct l [OF pg(1)] l [OF pg(2)] user_perm [OF pg(3)] by auto
qed

lemma vm0_rep: "pt_rep vm0 vmR vm_d1 vm_d0" "pt_rep vm0 vmB Map.empty Map.empty"
proof -
  have in_P: "vmR \<in> vmP" "vmM \<in> vmP" "vmL \<in> vmP" "vmB \<in> vmP" by (simp_all add: vmP_def)
  have ran: "ran vm_d1 = {vmM}" "ran vm_d0 = {vmL}" by (simp_all add: vm_d1_def vm_d0_def)
  have pg: "is_page vmR" "is_page vmM" "is_page vmL" "is_page vmB" using in_P by (blast intro: vm_is_page)+
  show "pt_rep vm0 vmB Map.empty Map.empty"
    using vm0_child [OF in_P(4)] vm_distinct pg(4) by (auto simp: pt_rep_def tables_def)
  have d: "dom vm_d1 = {0}" "dom vm_d0 = {(0, 0)}" by (simp_all add: vm_d1_def vm_d0_def)
  show "pt_rep vm0 vmR vm_d1 vm_d0"
    unfolding pt_rep_def tables_def ran d
  proof (intro conjI allI impI ballI)
    show "child vm0 vmR i = vm_d1 i" if "i < 512" for i using vm0_child [OF in_P(1) that] by (simp add: vm_d1_def)
    show "i < 512" if "vm_d1 i = Some t" for i t using that by (simp add: vm_d1_def split: if_splits)
    show "child vm0 t j = vm_d0 (i, j)" if "vm_d1 i = Some t" "j < 512" for i t j
      using that vm0_child [OF in_P(2) that(2)] vm_distinct by (auto simp: vm_d1_def vm_d0_def split: if_splits)
    show "vm_d1 i \<noteq> None" "j < 512" if "vm_d0 (i, j) = Some t" for i j t using that by (auto simp: vm_d1_def vm_d0_def split: if_splits)
    show "is_page t" if "t \<in> insert vmR ({vmM} \<union> {vmL})" for t using that pg by auto
  qed (use vm_distinct in auto)
qed

lemma vm0_as_ok: "as_ok vmP vm0 vm_owners vmR vm_d1 vm_d0" "as_ok vmP vm0 vm_owners vmB Map.empty Map.empty"
  using vm0_pool vm0_rep by (auto simp: as_ok_def tables_def vm_owners_def vm_d1_def vm_d0_def)

lemma vm0_pte_of:
  "pte_of vm0 vmB x = 0"
  "x < MAXVA \<Longrightarrow> pte_of vm0 vmR x = (if x < PGSIZE then PA2PTE vmU OR (PTE_W OR PTE_U OR PTE_R) OR PTE_V else 0)"
proof -
  show "pte_of vm0 vmB x = 0" by (simp add: pte_of_rep [OF vm0_rep(2)])
  assume x: "x < MAXVA"
  have "x < PGSIZE \<longleftrightarrow> PX 2 x = 0 \<and> PX 1 x = 0 \<and> PX 0 x = 0"
    using same_entry [OF x, of 0] by (simp add: PX_def MAXVA_def PGSIZE_def div_eq_0_iff)
  then show "pte_of vm0 vmR x = (if x < PGSIZE then PA2PTE vmU OR (PTE_W OR PTE_U OR PTE_R) OR PTE_V else 0)"
    using vm0_pte [of vmL "PX 0 x"] PX_less [of 0 x] vm_distinct by (auto simp: pte_of_rep [OF vm0_rep(1)] vm_d0_def vmP_def)
qed

lemma vm0_uspace: "uspace vmP vm0 vm_owners vmR vm_d1 vm_d0" "uspace vmP vm0 vm_owners vmB Map.empty Map.empty"
proof -
  have pg: "is_page vmU" using vm_is_page by (auto simp: vmP_def)
  have n0: "\<not> uentry 0" by (simp add: uentry_def)
  have upB: "upages vm0 vmB = {}" using n0 by (simp add: upages_def vm0_pte_of(1))
  show "uspace vmP vm0 vm_owners vmB Map.empty Map.empty"
    unfolding uspace_def upB using vm0_as_ok(2) n0 by (simp add: vm0_pte_of(1))
  have e: "x < PGSIZE \<and> PTE2PA (pte_of vm0 vmR x) = vmU" if "x < MAXVA" "uentry (pte_of vm0 vmR x)" for x
    using that n0 user_perm(1) [OF pg] vm0_pte_of(2) [OF that(1)] by (auto split: if_splits)
  then have up: "q = vmU" if "q \<in> upages vm0 vmR" for q using that by (auto simp: upages_def)
  have "vm_owners vmU = 1" "vmU \<notin> tables vmR vm_d1 vm_d0"
    using vm_distinct by (auto simp: vm_owners_def tables_def vm_d1_def vm_d0_def)
  then have "\<forall>q\<in>upages vm0 vmR. vm_owners q = 1 \<and> q \<notin> tables vmR vm_d1 vm_d0" using up by blast
  moreover have "\<forall>x<MAXVA. \<forall>y<MAXVA. uentry (pte_of vm0 vmR x) \<longrightarrow> uentry (pte_of vm0 vmR y)
      \<longrightarrow> PTE2PA (pte_of vm0 vmR x) = PTE2PA (pte_of vm0 vmR y) \<longrightarrow> x div PGSIZE = y div PGSIZE"
    using e by simp
  ultimately show "uspace vmP vm0 vm_owners vmR vm_d1 vm_d0" unfolding uspace_def using vm0_as_ok(1) by blast
qed

lemma vm0_disjoint: "own vm0 vmR vm_d1 vm_d0 \<inter> own vm0 vmB Map.empty Map.empty = {}"
proof -
  have pg: "is_page vmU" using vm_is_page by (auto simp: vmP_def)
  have n0: "\<not> uentry 0" by (simp add: uentry_def)
  have up: "q = vmU" if "q \<in> upages vm0 vmR" for q
    using that n0 user_perm(1) [OF pg] vm0_pte_of(2) by (auto simp: upages_def split: if_splits)
  have "vmB \<notin> upages vm0 vmR" using up [of vmB] vm_distinct by auto
  then show ?thesis
    using n0 vm_distinct by (auto simp: own_def upages_def vm0_pte_of(1) tables_def vm_d1_def vm_d0_def)
qed

lemma vm0_copyout: "\<exists>s'. copyout vm_proc vmR 0 [1, 2] vm0 = Ret 0 s'"
proof -
  have pg: "is_page vmU" using vm_is_page by (auto simp: vmP_def)
  have z: "(0 :: nat) < MAXVA" "PGROUNDDOWN 0 = 0" by (simp_all add: MAXVA_def PGROUNDDOWN_def)
  have e: "pte_of vm0 vmR 0 = PA2PTE vmU OR (PTE_W OR PTE_U OR PTE_R) OR PTE_V" using vm0_pte_of(2) [OF z(1)] by (simp add: PGSIZE_def)
  note G = user_perm [OF pg, folded e]
  have w: "walkaddr vmR 0 vm0 = Ret vmU vm0" "vmU \<noteq> 0" using walkaddr_entry [OF vm0_as_ok(1) z(1)] G by (simp_all add: vm_pages KERNBASE_def)
  obtain b where b: "walk vmR 0 False vm0 = Ret b vm0" "get_pte vm0 b = pte_of vm0 vmR 0"
    using walk_entry [OF vm0_as_ok(1) z(1)] G(3) by auto
  show ?thesis
    using copyout_unfold [of "[1, 2]" 0 vm_proc vmR vm0] z w b G(4) by (simp add: Let_def PGSIZE_def copyout.simps [of vm_proc vmR _ "[]"])
qed

section \<open>Properties\<close>

text \<open>C15. Isolation: \<open>copyout\<close> into one address space, whatever the address and the bytes, never fails to return, and leaves
  every byte of another address space that shares no page with it as it was; both are in order afterwards and still share no page.\<close>

theorem copyout_isolated:
  assumes "uspace P s refs ra a1 a0" "uspace P s refs rb b1 b0" "own s ra a1 a0 \<inter> own s rb b1 b0 = {}"
    and "psz pa \<le> MAXVA" "ppagetable pa = ra"
  shows "\<exists>res s' refs' a1' a0'. copyout pa ra dst src s = Ret res s' \<and> umem pb s' rb = umem pb s rb
    \<and> uspace P s' refs' ra a1' a0' \<and> uspace P s' refs' rb b1 b0 \<and> own s' ra a1' a0' \<inter> own s' rb b1 b0 = {}"
proof -
  obtain res s' where c: "copyout pa ra dst src s = Ret res s'" "copied_out P pa s refs ra a1 a0 dst src res s'"
    using copyout_ok [OF assms(1,4,5)] by blast
  then obtain refs' a1' a0' n where S: "stored P pa s refs ra a1 a0 dst (take n src) s' refs' a1' a0'" unfolding copied_out_def by blast
  have A: "uspace P s' refs' ra a1' a0'" "kept s refs (own s ra a1 a0) s' refs'"
      "\<forall>q\<in>own s' ra a1' a0'. q \<in> own s ra a1 a0 \<or> refs q = 0" using S by (simp_all add: stored_def)
  have "pool_ok P s' refs'" using uspace_as_ok [OF A(1)] by (simp add: as_ok_def)
  note F = uspace_frame [OF assms(2) this A(2)]
  have dis: "own s rb b1 b0 \<inter> own s ra a1 a0 = {}" using assms(3) by auto
  have "q \<notin> own s' rb b1 b0" if "q \<in> own s' ra a1' a0'" for q
    using that A(3) F(3) [OF dis] dis own_page [OF assms(2), of q] by auto
  then have "own s' ra a1' a0' \<inter> own s' rb b1 b0 = {}" by auto
  then show ?thesis using c(1) A(1) F(1) [OF dis] F(2) [OF dis] by (metis ext)
qed

theorem copyout_isolated_witness:
  "\<exists>res s' refs' a1' a0'. copyout vm_proc vmR 4095 [1, 2] vm0 = Ret res s' \<and> umem vm_proc s' vmB = umem vm_proc vm0 vmB
    \<and> uspace vmP s' refs' vmR a1' a0' \<and> uspace vmP s' refs' vmB Map.empty Map.empty
    \<and> own s' vmR a1' a0' \<inter> own s' vmB Map.empty Map.empty = {}"
  by (rule copyout_isolated [OF vm0_uspace vm0_disjoint]) (simp_all add: vm_proc_def MAXVA_def)

text \<open>C16. \<open>copyout\<close> refines a write to the process's memory: it stores a prefix of the bytes at the address and changes no
  other byte the process can see, allocating untouched pages on the way; it returns 0 when it stored all of them,
  and fails only when an address in the range is not writable for the process or the physical pages are used up.\<close>

theorem copyout_refines_write:
  assumes "uspace P s refs r d1 d0" "psz p \<le> MAXVA" "ppagetable p = r"
  shows "\<exists>res s' refs' d1' d0' n. copyout p r dst src s = Ret res s' \<and> uspace P s' refs' r d1' d0'
    \<and> umem p s' r = uwrite dst (take n src) (umem p s r) \<and> n \<le> length src
    \<and> (if res = 0 then n = length src
       else res = -1 \<and> n < length src \<and> ((\<exists>i<length src. \<not> writable p s r (dst + i)) \<or> exhausted P refs'))"
  using copyout_ok [OF assms, of dst src] unfolding copied_out_def stored_def by blast

theorem copyout_refines_write_witness:
  "\<exists>res s' refs' d1' d0' n. copyout vm_proc vmR 4095 [1, 2] vm0 = Ret res s' \<and> uspace vmP s' refs' vmR d1' d0'
    \<and> umem vm_proc s' vmR = uwrite 4095 (take n [1, 2]) (umem vm_proc vm0 vmR) \<and> n \<le> length [1, 2 :: byte]
    \<and> (if res = 0 then n = length [1, 2 :: byte]
       else res = -1 \<and> n < length [1, 2 :: byte] \<and> ((\<exists>i<length [1, 2 :: byte]. \<not> writable vm_proc vm0 vmR (4095 + i)) \<or> exhausted vmP refs'))"
  by (rule copyout_refines_write [OF vm0_uspace(1)]) (simp_all add: vm_proc_def MAXVA_def)

text \<open>Round trip: what \<open>copyout\<close> has stored, \<open>copyin\<close> from the same address returns, byte for byte, and without
  changing the process's memory.\<close>

theorem copy_round_trip:
  assumes "uspace P s refs r d1 d0" "psz p \<le> MAXVA" "ppagetable p = r" "copyout p r a src s = Ret 0 s'"
  shows "\<exists>s''. copyin p r a (length src) [] s' = Ret (0, src) s'' \<and> umem p s'' r = umem p s' r"
proof -
  obtain refs' d1' d0' where S: "stored P p s refs r d1 d0 a src s' refs' d1' d0'"
    using copyout_ok [OF assms(1-3), of a src] assms(4) unfolding copied_out_def by (auto split: if_splits)
  then have U: "uspace P s' refs' r d1' d0'" and M: "umem p s' r = uwrite a src (umem p s r)"
    and V: "\<And>x. x < MAXVA \<Longrightarrow> a \<le> x \<and> x < a + length src \<Longrightarrow> has PTE_V (pte_of s' r x)" by (simp_all add: stored_def)
  have u: "umem p s' r (a + i) = Some (src ! i)" if "i < length src" for i using that by (simp add: M uwrite_def)
  have m: "a + i < MAXVA" if "i < length src" for i using u [OF that] umem_high [of "a + i" p s' r] by (cases "a + i < MAXVA") auto
  obtain res cs s'' where C: "copyin p r a (length src) [] s' = Ret (res, cs) s''" "copied_in P p s' refs' r d1' d0' a (length src) res cs s''"
    using copyin_ok [OF U assms(2,3), of a "length src" "[]"] by auto
  have "res = 0" using C(2) u V m unfolding copied_in_def by (auto split: if_splits)
  then have "length cs = length src" "\<forall>i<length cs. umem p s' r (a + i) = Some (cs ! i)" "umem p s'' r = umem p s' r"
    using C(2) unfolding copied_in_def stored_def by auto
  then have "cs = src" "umem p s'' r = umem p s' r" using u by (auto intro: nth_equalityI)
  then show ?thesis using C(1) \<open>res = 0\<close> by auto
qed

theorem copy_round_trip_witness:
  "\<exists>s' s''. copyout vm_proc vmR 0 [1, 2] vm0 = Ret 0 s' \<and> copyin vm_proc vmR 0 2 [] s' = Ret (0, [1, 2]) s''"
proof -
  obtain s' where c: "copyout vm_proc vmR 0 [1, 2] vm0 = Ret 0 s'" using vm0_copyout by blast
  have "psz vm_proc \<le> MAXVA" "ppagetable vm_proc = vmR" by (simp_all add: vm_proc_def MAXVA_def)
  from copy_round_trip [OF vm0_uspace(1) this c] show ?thesis using c by (auto simp: numeral_2_eq_2)
qed

text \<open>A page fault at an address of the process is answered with a fresh page of zeros, mapped readable and writable at that
  address; the memory the process sees does not change, and no page of anybody else is touched. The fault is
  refused only beyond the process size, on a page that is mapped already, or when the physical pages are used up.\<close>

theorem lazy_allocation_invisible:
  assumes "uspace P s refs r d1 d0" "psz p \<le> MAXVA" "ppagetable p = r"
  shows "\<exists>a s' refs' d1' d0'. vmfault p r va s = Ret a s' \<and> uspace P s' refs' r d1' d0' \<and> umem p s' r = umem p s r
    \<and> kept s refs (tables r d1 d0) s' refs'
    \<and> (if a = 0 then psz p \<le> va \<or> has PTE_V (pte_of s r va) \<or> exhausted P refs'
       else va < psz p \<and> \<not> has PTE_V (pte_of s r va) \<and> uentry (pte_of s' r va) \<and> has PTE_W (pte_of s' r va) \<and> a = PTE2PA (pte_of s' r va))"
  using vmfault_ok [OF assms, of va] unfolding faulted_def by (metis ext)

theorem lazy_allocation_invisible_witness:
  "\<exists>a s' refs' d1' d0'. vmfault vm_proc vmR 5000 vm0 = Ret a s' \<and> uspace vmP s' refs' vmR d1' d0' \<and> umem vm_proc s' vmR = umem vm_proc vm0 vmR
    \<and> (if a = 0 then exhausted vmP refs' else uentry (pte_of s' vmR 5000) \<and> a = PTE2PA (pte_of s' vmR 5000))"
proof -
  have p: "psz vm_proc \<le> MAXVA" "ppagetable vm_proc = vmR" "\<not> psz vm_proc \<le> 5000" by (simp_all add: vm_proc_def MAXVA_def)
  have "\<not> has PTE_V (pte_of vm0 vmR 5000)" using vm0_pte_of(2) [of 5000] by (simp add: PGSIZE_def MAXVA_def)
  with lazy_allocation_invisible [OF vm0_uspace(1) p(1,2), of 5000] p(3) show ?thesis
    by (metis (no_types, lifting))
qed

text \<open>C17. \<open>mappages\<close> on an aligned range that has no mapping yet writes the entry of each page in turn and no other; it either
  maps the whole range and returns 0, or, when no page is left for a table, maps some first pages of it and returns -1. No page with an owner
  outside the tables changes.\<close>

theorem mappages_maps:
  assumes "as_ok P s refs r d1 d0" "va mod PGSIZE = 0" "sz mod PGSIZE = 0" "0 < sz" "va + sz \<le> MAXVA"
    and "pa mod PGSIZE = 0" "pa + sz \<le> 2 ^ 56" "perm < 1024" "\<And>x. va \<le> x \<Longrightarrow> x < va + sz \<Longrightarrow> \<not> has PTE_V (pte_of s r x)"
  shows "\<exists>res s' refs' d1' d0' n. mappages r va sz pa perm s = Ret res s' \<and> as_ok P s' refs' r d1' d0'
    \<and> kept s refs (tables r d1 d0) s' refs' \<and> n \<le> sz div PGSIZE
    \<and> (\<forall>x<MAXVA. pte_of s' r x = (if va \<le> x \<and> x < va + n * PGSIZE
         then PA2PTE (pa + (x - va) div PGSIZE * PGSIZE) OR perm OR PTE_V else pte_of s r x))
    \<and> (if n = sz div PGSIZE then res = 0 else res = -1 \<and> (\<forall>q\<in>P. 0 < refs' q))"
proof -
  obtain res s' refs' d1' d0' n where M: "mappages r va sz pa perm s = Ret res s'" "as_ok P s' refs' r d1' d0'"
      "grows s refs (tables r d1 d0) s' refs' (tables r d1' d0')"
      "\<forall>x<MAXVA. pte_of s' r x = mapped_at n va pa perm (pte_of s r) x" "result_ok P refs' n (sz div PGSIZE) res"
    using mappages_ok [OF assms] by blast
  then show ?thesis using grows_kept [OF M(3)] M(5) unfolding mapped_at_def result_ok_def
    by (intro exI [of _ res] exI [of _ s'] exI [of _ refs'] exI [of _ d1'] exI [of _ d0'] exI [of _ n]) (auto split: if_splits)
qed

theorem mappages_maps_witness:
  "\<exists>res s' refs' d1' d0' n. mappages vmR PGSIZE PGSIZE vmB (PTE_R OR PTE_W) vm0 = Ret res s' \<and> as_ok vmP s' refs' vmR d1' d0'
    \<and> n \<le> PGSIZE div PGSIZE \<and> (if n = PGSIZE div PGSIZE then res = 0 else res = -1)"
proof -
  have v: "\<not> has PTE_V (pte_of vm0 vmR x)" if "PGSIZE \<le> x" "x < PGSIZE + PGSIZE" for x
    using vm0_pte_of(2) [of x] that by (simp add: PGSIZE_def MAXVA_def)
  have c: "PGSIZE mod PGSIZE = 0" "0 < PGSIZE" "PGSIZE + PGSIZE \<le> MAXVA" "vmB mod PGSIZE = 0" "vmB + PGSIZE \<le> 2 ^ 56" "PTE_R OR PTE_W < (1024 :: nat)"
    by (simp_all add: PGSIZE_def MAXVA_def vmB_def KERNBASE_def PTE_R_def PTE_W_def)
  show ?thesis using mappages_maps [OF vm0_as_ok(1) c(1,1,2,3,4,5,6) v] by (simp only: if_bool_eq_conj) blast
qed

end
