(* ===== verification/Pipe_Props.thy ===== *)
theory Pipe_Props
  imports Pipe Vm_Props
begin

text \<open>
  A pipe is a queue of at most 512 bytes: \<open>pipewrite\<close> appends bytes of the writer's memory, \<open>piperead\<close> takes bytes from the front and
  stores them in the reader's. Together: what one process writes arrives, in order, in the memory of the other.
\<close>

section \<open>The queue\<close>











section \<open>Writing\<close>








section \<open>Reading\<close>




section \<open>Properties\<close>









end
