(* ===== verification/Spinlock.thy ===== *)
theory Spinlock
  imports Prelude
begin

text \<open>
  Spin locks, \<^verbatim>\<open>kernel/spinlock.c\<close>. The state is shared memory: the locks, and for each CPU its \<open>noff\<close>, \<open>intena\<close> and whether it
  takes interrupts. What one CPU does between two accesses to shared memory is one step, so \<open>acquire\<close> is three steps, the middle
  one the atomic swap that is repeated while the lock is taken, and \<open>release\<close> is two. \<open>lock_step\<close> interleaves the steps of all CPUs; where a
  CPU is within its routine is its \<open>pc\<close>. The theorems: no two CPUs are ever in the critical section of one lock,
  \<open>holding\<close> tells the truth, and interrupts are off exactly as long as they should be.
\<close>

section \<open>Locks and CPUs\<close>

record spinlock =
  locked :: bool
  lcpu :: "nat option"

record cpu =
  noff :: int
  intena :: bool
  intr :: bool

datatype pc = Running | Spinning nat | Swapped nat | Clearing nat

record machine =
  locks :: "nat \<Rightarrow> spinlock"
  cpus :: "nat \<Rightarrow> cpu"
  pcs :: "nat \<Rightarrow> pc"

definition set_lock :: "nat \<Rightarrow> spinlock \<Rightarrow> machine \<Rightarrow> machine" where
  "set_lock l k s = s\<lparr>locks := (locks s)(l := k)\<rparr>"

definition set_cpu :: "nat \<Rightarrow> cpu \<Rightarrow> machine \<Rightarrow> machine" where
  "set_cpu c k s = s\<lparr>cpus := (cpus s)(c := k)\<rparr>"

definition set_pc :: "nat \<Rightarrow> pc \<Rightarrow> machine \<Rightarrow> machine" where
  "set_pc c k s = s\<lparr>pcs := (pcs s)(c := k)\<rparr>"

definition initlock :: "nat \<Rightarrow> machine \<Rightarrow> machine" where
  "initlock l s = set_lock l \<lparr>locked = False, lcpu = None\<rparr> s"

definition holding :: "nat \<Rightarrow> nat \<Rightarrow> machine \<Rightarrow> bool" where
  "holding c l s \<longleftrightarrow> locked (locks s l) \<and> lcpu (locks s l) = Some c"

definition push_off :: "nat \<Rightarrow> machine \<Rightarrow> machine" where
  "push_off c s =
     (let old = intr (cpus s c);
          k = (cpus s c)\<lparr>intr := False\<rparr>;
          k = (if noff k = 0 then k\<lparr>intena := old\<rparr> else k)
      in set_cpu c (k\<lparr>noff := noff k + 1\<rparr>) s)"

definition pop_off :: "nat \<Rightarrow> machine \<Rightarrow> (machine, unit) outcome" where
  "pop_off c s =
     (let k = cpus s c
      in if intr k then Panic ''pop_off - interruptible''
         else if noff k < 1 then Panic ''pop_off''
         else let k = k\<lparr>noff := noff k - 1\<rparr>
              in Ret () (set_cpu c (if noff k = 0 \<and> intena k then k\<lparr>intr := True\<rparr> else k) s))"

text \<open>\<open>acquire\<close>: interrupts off and the check, one round of the loop, and the note of the owner.\<close>

definition acquire_enter :: "nat \<Rightarrow> nat \<Rightarrow> machine \<Rightarrow> (machine, unit) outcome" where
  "acquire_enter c l s =
     (let s = push_off c s
      in if holding c l s then Panic ''acquire'' else Ret () (set_pc c (Spinning l) s))"

definition acquire_swap :: "nat \<Rightarrow> nat \<Rightarrow> machine \<Rightarrow> machine" where
  "acquire_swap c l s =
     (let old = locked (locks s l); s = set_lock l ((locks s l)\<lparr>locked := True\<rparr>) s
      in if old then s else set_pc c (Swapped l) s)"

definition acquire_note :: "nat \<Rightarrow> nat \<Rightarrow> machine \<Rightarrow> machine" where
  "acquire_note c l s = set_pc c Running (set_lock l ((locks s l)\<lparr>lcpu := Some c\<rparr>) s)"

text \<open>\<open>release\<close>: the check and the owner, then the lock itself and interrupts.\<close>

definition release_enter :: "nat \<Rightarrow> nat \<Rightarrow> machine \<Rightarrow> (machine, unit) outcome" where
  "release_enter c l s =
     (if \<not> holding c l s then Panic ''release''
      else Ret () (set_pc c (Clearing l) (set_lock l ((locks s l)\<lparr>lcpu := None\<rparr>) s)))"

definition release_leave :: "nat \<Rightarrow> nat \<Rightarrow> machine \<Rightarrow> (machine, unit) outcome" where
  "release_leave c l s = pop_off c (set_pc c Running (set_lock l ((locks s l)\<lparr>locked := False\<rparr>) s))"

text \<open>A step of some CPU. A CPU that runs may call \<open>acquire\<close> or \<open>release\<close> for any lock, and while it has not called \<open>push_off\<close> it may switch interrupts
  on and off; a call that panics is no step.\<close>

inductive lock_step :: "machine \<Rightarrow> machine \<Rightarrow> bool" where
  Enter: "pcs s c = Running \<Longrightarrow> acquire_enter c l s = Ret () s' \<Longrightarrow> lock_step s s'"
| Swap: "pcs s c = Spinning l \<Longrightarrow> lock_step s (acquire_swap c l s)"
| Note: "pcs s c = Swapped l \<Longrightarrow> lock_step s (acquire_note c l s)"
| Give: "pcs s c = Running \<Longrightarrow> release_enter c l s = Ret () s' \<Longrightarrow> lock_step s s'"
| Intr: "pcs s c = Running \<Longrightarrow> noff (cpus s c) = 0 \<Longrightarrow> lock_step s (set_cpu c ((cpus s c)\<lparr>intr := b\<rparr>) s)"
| Leave: "pcs s c = Clearing l \<Longrightarrow> release_leave c l s = Ret () s' \<Longrightarrow> lock_step s s'"

inductive_cases lock_stepE: "lock_step s s'"

section \<open>The invariant\<close>

definition owns :: "nat \<Rightarrow> nat \<Rightarrow> machine \<Rightarrow> bool" where
  "owns c l s \<longleftrightarrow> pcs s c = Swapped l \<or> pcs s c = Clearing l \<or> holding c l s"

definition held :: "nat \<Rightarrow> machine \<Rightarrow> nat set" where
  "held c s = {l. holding c l s}"

definition excl :: "machine \<Rightarrow> bool" where
  "excl s \<longleftrightarrow> (\<forall>c l. owns c l s \<longrightarrow> locked (locks s l)) \<and> (\<forall>c d l. owns c l s \<longrightarrow> owns d l s \<longrightarrow> c = d)
     \<and> (\<forall>l. locked (locks s l) \<longrightarrow> (\<exists>c. owns c l s)) \<and> (\<forall>l c. lcpu (locks s l) = Some c \<longrightarrow> locked (locks s l))
     \<and> (\<forall>c l. pcs s c = Swapped l \<or> pcs s c = Clearing l \<longrightarrow> lcpu (locks s l) = None)"

definition counts :: "machine \<Rightarrow> bool" where
  "counts s \<longleftrightarrow> (\<forall>c. finite (held c s) \<and> noff (cpus s c) = int (card (held c s)) + (if pcs s c = Running then 0 else 1)
     \<and> (intr (cpus s c) \<longrightarrow> noff (cpus s c) = 0))"

lemmas lock_defs = set_lock_def set_cpu_def set_pc_def push_off_def pop_off_def acquire_enter_def acquire_swap_def acquire_note_def
  release_enter_def release_leave_def holding_def owns_def Let_def

lemma enter_fields:
  assumes "acquire_enter c l s = Ret () s'"
  shows "locks s' = locks s" "pcs s' = (pcs s)(c := Spinning l)" "d \<noteq> c \<Longrightarrow> cpus s' d = cpus s d"
    "noff (cpus s' c) = noff (cpus s c) + 1" "\<not> intr (cpus s' c)" "\<not> holding c l s"
  using assms by (auto simp: lock_defs split: if_splits)

lemma give_fields:
  assumes "release_enter c l s = Ret () s'"
  shows "holding c l s" "locks s' = (locks s)(l := (locks s l)\<lparr>lcpu := None\<rparr>)" "pcs s' = (pcs s)(c := Clearing l)" "cpus s' = cpus s"
  using assms by (auto simp: lock_defs split: if_splits)

lemma leave_fields:
  assumes "release_leave c l s = Ret () s'"
  shows "locks s' = (locks s)(l := (locks s l)\<lparr>locked := False\<rparr>)" "pcs s' = (pcs s)(c := Running)" "d \<noteq> c \<Longrightarrow> cpus s' d = cpus s d"
    "noff (cpus s' c) = noff (cpus s c) - 1" "intr (cpus s' c) \<longleftrightarrow> noff (cpus s c) = 1 \<and> intena (cpus s c)" "0 < noff (cpus s c)"
  using assms by (auto simp: lock_defs split: if_splits)

lemma swap_fields:
  "locks (acquire_swap c l s) = (locks s)(l := (locks s l)\<lparr>locked := True\<rparr>)" "cpus (acquire_swap c l s) = cpus s"
  "pcs (acquire_swap c l s) = (if locked (locks s l) then pcs s else (pcs s)(c := Swapped l))"
  by (auto simp: lock_defs)

lemma note_fields:
  "locks (acquire_note c l s) = (locks s)(l := (locks s l)\<lparr>lcpu := Some c\<rparr>)" "cpus (acquire_note c l s) = cpus s"
  "pcs (acquire_note c l s) = (pcs s)(c := Running)"
  by (auto simp: lock_defs)

lemma exclI:
  assumes "\<And>c l. owns c l s \<Longrightarrow> locked (locks s l)" "\<And>c d l. owns c l s \<Longrightarrow> owns d l s \<Longrightarrow> c = d"
    and "\<And>l. locked (locks s l) \<Longrightarrow> \<exists>c. owns c l s" "\<And>l c. lcpu (locks s l) = Some c \<Longrightarrow> locked (locks s l)"
    and "\<And>c l. pcs s c = Swapped l \<or> pcs s c = Clearing l \<Longrightarrow> lcpu (locks s l) = None"
  shows "excl s"
  unfolding excl_def by (intro conjI allI impI) (fact assms)+

lemma exclD:
  assumes "excl s"
  shows "owns c l s \<Longrightarrow> locked (locks s l)" "owns c l s \<Longrightarrow> owns d l s \<Longrightarrow> c = d" "locked (locks s l) \<Longrightarrow> \<exists>c. owns c l s"
    "lcpu (locks s l) = Some c \<Longrightarrow> locked (locks s l)" "pcs s c = Swapped l \<or> pcs s c = Clearing l \<Longrightarrow> lcpu (locks s l) = None"
  using assms unfolding excl_def by blast+

lemma excl_step:
  assumes "lock_step s s'" "excl s"
  shows "excl s'"
  using assms
proof (cases rule: lock_step.cases)
  case (Enter c l)
  have o: "owns d k s' = owns d k s" for d k
    using enter_fields(1,2) [OF Enter(2)] Enter(1) by (simp add: owns_def holding_def)
  show ?thesis using assms(2) enter_fields(1,2) [OF Enter(2)] Enter(1) unfolding excl_def o by (auto split: if_splits)
next
  case (Swap c l)
  show ?thesis
  proof (cases "locked (locks s l)")
    case True
    then have "acquire_swap c l s = s" by (simp add: lock_defs fun_upd_idem_iff)
    then show ?thesis using Swap assms(2) by simp
  next
    case False
    then have n: "lcpu (locks s l) = None" "\<And>d. \<not> owns d l s" using assms(2) unfolding excl_def by (metis not_None_eq, metis)
    have o: "owns d k s' = (if k = l then d = c else owns d k s)" for d k
      using Swap False n(2) [of d] n(1) by (auto simp: owns_def holding_def swap_fields)
    have "lcpu (locks s' k) = lcpu (locks s k)" "locked (locks s' k) = (k = l \<or> locked (locks s k))" for k
      using Swap by (simp_all add: swap_fields)
    then show ?thesis using assms(2) n Swap False unfolding excl_def o by (auto simp: swap_fields split: if_splits)
  qed
next
  case (Note c l)
  have L: "locked (locks s l)" "lcpu (locks s l) = None" using assms(2) Note(2) unfolding excl_def owns_def by blast+
  have u: "d = c" if "owns d l s" for d using assms(2) Note(2) that unfolding excl_def owns_def by blast
  have F: "locks s' = (locks s)(l := (locks s l)\<lparr>lcpu := Some c\<rparr>)" "pcs s' = (pcs s)(c := Running)"
    unfolding Note(1) by (simp_all add: note_fields)
  have o: "owns d k s' = owns d k s" for d k
    using Note(2) L by (cases "k = l"; cases "d = c") (simp_all add: owns_def holding_def F)
  have k: "locked (locks s' k) = locked (locks s k)" for k using F(1) by simp
  have x: "pcs s d \<noteq> Swapped l" "pcs s d \<noteq> Clearing l" if "d \<noteq> c" for d using u [of d] that by (auto simp: owns_def)
  show ?thesis
  proof (rule exclI)
    show "locked (locks s' j)" if "lcpu (locks s' j) = Some d" for j d
      using that exclD(4) [OF assms(2), of j d] L(1) unfolding k by (cases "j = l") (simp_all add: F)
    show "lcpu (locks s' j) = None" if "pcs s' d = Swapped j \<or> pcs s' d = Clearing j" for d j
      using that exclD(5) [OF assms(2), of d j] x [of d] by (cases "d = c"; cases "j = l") (auto simp: F)
  qed ((unfold o k)?, use exclD(1-3) [OF assms(2)] in blast)+
next
  case (Give c l)
  note G = give_fields [OF Give(2)]
  have u: "d = c" if "owns d l s" for d using assms(2) G(1) that unfolding excl_def owns_def by blast
  have o: "owns d k s' = owns d k s" for d k
    using Give(1) G u [of d] by (auto simp: owns_def holding_def split: if_splits)
  show ?thesis using assms(2) G Give(1) unfolding excl_def o by (auto simp: holding_def split: if_splits)
next
  case (Intr c b)
  then have "owns d k s' = owns d k s" "locks s' = locks s" "pcs s' = pcs s" for d k by (simp_all add: lock_defs)
  then show ?thesis using assms(2) unfolding excl_def by simp
next
  case (Leave c l)
  note F = leave_fields(1,2) [OF Leave(2)]
  have n: "lcpu (locks s l) = None" using assms(2) Leave(1) unfolding excl_def by blast
  have u: "d = c" if "owns d l s" for d using assms(2) Leave(1) that unfolding excl_def owns_def by blast
  have x: "pcs s d \<noteq> Swapped l" "pcs s d \<noteq> Clearing l" if "d \<noteq> c" for d using u [of d] that by (auto simp: owns_def)
  have o: "owns d k s' = (owns d k s \<and> k \<noteq> l)" for d k
    using Leave(1) n x [of d] by (cases "k = l"; cases "d = c") (simp_all add: owns_def holding_def F)
  show ?thesis
  proof (rule exclI)
    show "locked (locks s' j)" if "owns d j s'" for d j using that exclD(1) [OF assms(2), of d j] by (simp add: o F(1))
    show "d = e" if "owns d j s'" "owns e j s'" for d e j using that exclD(2) [OF assms(2)] unfolding o by blast
    show "\<exists>d. owns d j s'" if "locked (locks s' j)" for j using that exclD(3) [OF assms(2), of j] by (auto simp: o F(1) split: if_splits)
    show "locked (locks s' j)" if "lcpu (locks s' j) = Some d" for j d
      using that exclD(4) [OF assms(2), of j d] n by (cases "j = l") (simp_all add: F)
    show "lcpu (locks s' j) = None" if "pcs s' d = Swapped j \<or> pcs s' d = Clearing j" for d j
      using that exclD(5) [OF assms(2), of d j] n by (cases "d = c"; cases "j = l") (auto simp: F)
  qed
qed

lemma held_other:
  assumes "\<And>l. lcpu (locks s' l) = Some c \<longleftrightarrow> lcpu (locks s l) = Some c" "\<And>l. lcpu (locks s l) = Some c \<Longrightarrow> locked (locks s' l) = locked (locks s l)"
  shows "held c s' = held c s"
  using assms by (auto simp: held_def holding_def)

lemma countsD:
  "counts s \<Longrightarrow> finite (held c s) \<and> noff (cpus s c) = int (card (held c s)) + (if pcs s c = Running then 0 else 1)
     \<and> (intr (cpus s c) \<longrightarrow> noff (cpus s c) = 0)"
  unfolding counts_def by blast

lemma counts_step:
  assumes "lock_step s s'" "excl s" "counts s"
  shows "counts s'"
  using assms(1)
proof (cases rule: lock_step.cases)
  case (Enter c l)
  note F = enter_fields [OF Enter(2)]
  have h: "held d s' = held d s" for d by (simp add: held_def holding_def F)
  have "finite (held d s) \<and> noff (cpus s' d) = int (card (held d s)) + (if pcs s' d = Running then 0 else 1)
      \<and> (intr (cpus s' d) \<longrightarrow> noff (cpus s' d) = 0)" for d
    using countsD [OF assms(3), of d] Enter(1) F(3-5) by (cases "d = c") (auto simp: F(2) split: if_splits)
  then show ?thesis unfolding counts_def h by blast
next
  case (Swap c l)
  have h: "held d s' = held d s" for d
    by (rule held_other) (use exclD(4) [OF assms(2)] in \<open>auto simp: Swap(1) swap_fields\<close>)
  have p: "(pcs s' d = Running) = (pcs s d = Running)" for d using Swap by (simp add: swap_fields)
  have c: "cpus s' = cpus s" by (simp add: Swap(1) swap_fields)
  show ?thesis using assms(3) unfolding counts_def h p c .
next
  case (Note c l)
  have L: "locked (locks s l)" "lcpu (locks s l) = None" using exclD(5) [OF assms(2)] exclD(1) [OF assms(2), of c l] Note(2) by (auto simp: owns_def)
  have h: "held d s' = (if d = c then insert l (held c s) else held d s)" for d
    using L unfolding Note(1) by (auto simp: held_def holding_def note_fields)
  have "l \<notin> held c s" using L by (simp add: held_def holding_def)
  then have "finite (held d s') \<and> noff (cpus s' d) = int (card (held d s')) + (if pcs s' d = Running then 0 else 1)
      \<and> (intr (cpus s' d) \<longrightarrow> noff (cpus s' d) = 0)" for d
    using countsD [OF assms(3), of d] Note(2) unfolding h by (cases "d = c") (auto simp: Note(1) note_fields split: if_splits)
  then show ?thesis unfolding counts_def by blast
next
  case (Give c l)
  note G = give_fields [OF Give(2)]
  have h: "held d s' = (if d = c then held c s - {l} else held d s)" for d
    using G(1) by (auto simp: held_def holding_def G(2))
  have "l \<in> held c s" using G(1) by (simp add: held_def)
  then have "finite (held c s) \<Longrightarrow> int (card (held c s - {l})) + 1 = int (card (held c s))"
    by (simp add: card_Suc_Diff1 [symmetric] del: card_Diff_insert)
  then have "finite (held d s') \<and> noff (cpus s' d) = int (card (held d s')) + (if pcs s' d = Running then 0 else 1)
      \<and> (intr (cpus s' d) \<longrightarrow> noff (cpus s' d) = 0)" for d
    using countsD [OF assms(3), of d] Give(1) unfolding h by (cases "d = c") (auto simp: G(3,4) split: if_splits)
  then show ?thesis unfolding counts_def by blast
next
  case (Intr c b)
  have "held d s' = held d s" for d by (simp add: Intr(1) held_def lock_defs)
  then show ?thesis using assms(3) Intr(3) unfolding counts_def by (auto simp: Intr(1) set_cpu_def)
next
  case (Leave c l)
  note F = leave_fields [OF Leave(2)]
  have n: "lcpu (locks s l) = None" using exclD(5) [OF assms(2)] Leave(1) by blast
  have h: "held d s' = held d s" for d using n by (auto simp: held_def holding_def F(1))
  have "finite (held d s) \<and> noff (cpus s' d) = int (card (held d s)) + (if pcs s' d = Running then 0 else 1)
      \<and> (intr (cpus s' d) \<longrightarrow> noff (cpus s' d) = 0)" for d
    using countsD [OF assms(3), of d] Leave(1) F(2-6) by (cases "d = c") auto
  then show ?thesis unfolding counts_def h by blast
qed

definition boot_machine :: "machine \<Rightarrow> bool" where
  "boot_machine s \<longleftrightarrow> (\<forall>l. locks s l = \<lparr>locked = False, lcpu = None\<rparr>) \<and> (\<forall>c. noff (cpus s c) = 0 \<and> pcs s c = Running)"

lemma boot_ok: "boot_machine s \<Longrightarrow> excl s \<and> counts s"
  by (auto simp: boot_machine_def excl_def counts_def owns_def holding_def held_def)

lemma reachable_ok: "lock_step\<^sup>*\<^sup>* s s' \<Longrightarrow> boot_machine s \<Longrightarrow> excl s' \<and> counts s'"
proof (induction rule: rtranclp_induct)
  case base
  then show ?case by (rule boot_ok)
next
  case (step t u)
  then show ?case using excl_step counts_step by blast
qed

section \<open>Properties\<close>

text \<open>C18. Mutual exclusion: however the CPUs interleave, from the swap in \<open>acquire\<close> to the clearing in \<open>release\<close> a lock is one CPU's alone,
  and that CPU takes no interrupts meanwhile.\<close>

theorem locks_exclude:
  assumes "boot_machine s" "lock_step\<^sup>*\<^sup>* s s'" "owns c l s'"
  shows "locked (locks s' l) \<and> (\<forall>d. owns d l s' \<longrightarrow> d = c) \<and> \<not> intr (cpus s' c)"
proof -
  have E: "excl s'" "counts s'" using reachable_ok [OF assms(2,1)] by auto
  have "held c s' \<noteq> {} \<or> pcs s' c \<noteq> Running" using assms(3) by (auto simp: owns_def held_def)
  then have "noff (cpus s' c) \<noteq> 0" using countsD [OF E(2), of c] by (auto simp: card_eq_0_iff split: if_splits)
  then show ?thesis using exclD(1,2) [OF E(1)] assms(3) countsD [OF E(2), of c] by blast
qed

definition machine0 :: machine where
  "machine0 = \<lparr>locks = (\<lambda>_. \<lparr>locked = False, lcpu = None\<rparr>), cpus = (\<lambda>_. \<lparr>noff = 0, intena = False, intr = True\<rparr>), pcs = (\<lambda>_. Running)\<rparr>"

definition machine1 :: machine where
  "machine1 = acquire_note 0 7 (acquire_swap 0 7 (set_pc 0 (Spinning 7) (push_off 0 machine0)))"

lemma machine1_reached: "boot_machine machine0" "lock_step\<^sup>*\<^sup>* machine0 machine1" "holding 0 7 machine1" "pcs machine1 0 = Running"
proof -
  let ?a = "set_pc 0 (Spinning 7) (push_off 0 machine0)" and ?b = "acquire_swap 0 7 (set_pc 0 (Spinning 7) (push_off 0 machine0))"
  show "boot_machine machine0" by (simp add: boot_machine_def machine0_def)
  have "lock_step machine0 ?a" by (rule Enter [of _ 0 7]) (simp_all add: machine0_def lock_defs)
  moreover have "lock_step ?a ?b" by (rule Swap) (simp add: lock_defs)
  moreover have "lock_step ?b machine1" unfolding machine1_def by (rule Note) (simp add: machine0_def lock_defs)
  ultimately show "lock_step\<^sup>*\<^sup>* machine0 machine1" by (meson converse_rtranclp_into_rtranclp r_into_rtranclp)
  show "holding 0 7 machine1" "pcs machine1 0 = Running" by (simp_all add: machine1_def machine0_def lock_defs)
qed

theorem locks_exclude_witness: "locked (locks machine1 7) \<and> owns 0 7 machine1 \<and> \<not> owns 1 7 machine1 \<and> \<not> intr (cpus machine1 0)"
proof -
  have "owns 0 7 machine1" using machine1_reached(3) by (simp add: owns_def)
  with locks_exclude [OF machine1_reached(1,2), of 0 7] show ?thesis by auto
qed

text \<open>In every reachable state a CPU that holds a lock can release it: neither \<open>release\<close> nor the \<open>pop_off\<close> in it panics, the
  lock is free afterwards, and interrupts come back exactly when it was the last lock the CPU held and they were on before the first.
  Releasing a lock that another CPU or nobody holds panics, and so does acquiring one again.\<close>

theorem release_restores:
  assumes "boot_machine s" "lock_step\<^sup>*\<^sup>* s s'" "pcs s' c = Running"
  shows "if holding c l s'
    then acquire_enter c l s' = Panic ''acquire''
      \<and> (\<exists>t u. release_enter c l s' = Ret () t \<and> release_leave c l t = Ret () u \<and> \<not> locked (locks u l)
           \<and> (intr (cpus u c) \<longleftrightarrow> held c s' = {l} \<and> intena (cpus s' c)))
    else release_enter c l s' = Panic ''release''"
proof (cases "holding c l s'")
  case True
  have E: "counts s'" using reachable_ok [OF assms(2,1)] by auto
  define t where "t = set_pc c (Clearing l) (set_lock l ((locks s' l)\<lparr>lcpu := None\<rparr>) s')"
  have l: "l \<in> held c s'" "finite (held c s')" using True countsD [OF E, of c] by (auto simp: held_def)
  then have n: "noff (cpus s' c) = int (card (held c s'))" "0 < card (held c s')" "\<not> intr (cpus s' c)"
    using countsD [OF E, of c] assms(3) by (auto simp: card_gt_0_iff)
  have c: "cpus t = cpus s'" by (simp add: t_def lock_defs)
  have r: "release_enter c l s' = Ret () t" using True by (simp add: release_enter_def t_def)
  obtain u where u: "release_leave c l t = Ret () u"
    using n by (cases "release_leave c l t") (auto simp: release_leave_def pop_off_def set_pc_def set_lock_def c Let_def split: if_splits)
  have "card (held c s') = 1 \<longleftrightarrow> held c s' = {l}" using l by (auto simp: card_1_singleton_iff)
  then have "intr (cpus u c) \<longleftrightarrow> held c s' = {l} \<and> intena (cpus s' c)" using leave_fields(5) [OF u] n(1) by (simp add: c)
  moreover have "\<not> locked (locks u l)" using leave_fields(1) [OF u] by simp
  moreover have "acquire_enter c l s' = Panic ''acquire''" using True by (simp add: lock_defs)
  ultimately show ?thesis using True r u by auto
qed (simp add: release_enter_def)

theorem release_restores_witness:
  "acquire_enter 0 7 machine1 = Panic ''acquire'' \<and> release_enter 0 8 machine1 = Panic ''release''
    \<and> (\<exists>t u. release_enter 0 7 machine1 = Ret () t \<and> release_leave 0 7 t = Ret () u \<and> \<not> locked (locks u 7) \<and> intr (cpus u 0))"
proof -
  have "\<not> holding 0 8 machine1" "held 0 machine1 = {7}" "intena (cpus machine1 0)"
    by (auto simp: machine1_def machine0_def lock_defs held_def)
  then show ?thesis
    using release_restores [OF machine1_reached(1,2,4), of 7] release_restores [OF machine1_reached(1,2,4), of 8] machine1_reached(3) by auto
qed

end
