(* ===== verification/Proc.thy ===== *)
theory Proc
  imports Vm
begin

text \<open>
  Processes, \<^verbatim>\<open>kernel/proc.c\<close>. The process table is a function from slots to \<open>proc\<close> records; a pointer to a process is its slot, a
  channel is a process or some other address. A routine that holds the locks of \<^verbatim>\<open>proc.c\<close> is one step. Page tables and trapframes live in
  physical memory, the model of \<open>Vm\<close>. A process that goes to sleep is the outcome \<open>Sleep\<close>. What a process does from the
  switch to it until it comes back to the scheduler is the argument \<open>run\<close>. Of the open files and the current directory only the reference counts are here.
\<close>

section \<open>The process table\<close>

datatype procstate = UNUSED | USED | SLEEPING | RUNNABLE | RUNNING | ZOMBIE

datatype wchan = NoChan | ChProc nat | ChAddr nat

record proc =
  pstate :: procstate
  wchan :: wchan
  pkilled :: bool
  xstate :: "32 word"
  pid :: int
  parent :: "nat option"
  kstack :: nat
  sz :: nat
  pagetable :: nat
  trapframe :: nat
  ctx_ra :: nat
  ctx_sp :: nat
  ofile :: "nat \<Rightarrow> nat option"
  cwd :: "nat option"
  pname :: "byte list"
  stracing :: bool
  countp :: "32 word"
  priority :: int
  nice_lv :: int
  pmmap :: nat
  has_mmap :: bool

record kernel =
  ptab :: "nat \<Rightarrow> proc"
  km :: kmem
  nextpid :: int
  initproc :: "nat option"
  frefs :: "nat \<Rightarrow> int"
  irefs :: "nat \<Rightarrow> int"

definition NOFILE :: nat where "NOFILE = 16"

definition upd :: "nat \<Rightarrow> (proc \<Rightarrow> proc) \<Rightarrow> kernel \<Rightarrow> kernel" where
  "upd i f s = s\<lparr>ptab := (ptab s)(i := f (ptab s i))\<rparr>"

text \<open>Running a routine of the memory on the whole state.\<close>

definition mem_op :: "(kmem \<Rightarrow> (kmem, 'a) outcome) \<Rightarrow> kernel \<Rightarrow> (kernel, 'a) outcome" where
  "mem_op f s = (case f (km s) of Ret a m \<Rightarrow> Ret a (s\<lparr>km := m\<rparr>) | Panic e \<Rightarrow> Panic e | Sleep c m \<Rightarrow> Sleep c (s\<lparr>km := m\<rparr>) | Diverge \<Rightarrow> Diverge)"

definition uproc_of :: "proc \<Rightarrow> uproc" where
  "uproc_of p = \<lparr>psz = sz p, ppagetable = pagetable p\<rparr>"

definition procinit :: "kernel \<Rightarrow> kernel" where
  "procinit s = s\<lparr>ptab := (\<lambda>i. if i < NPROC then (ptab s i)\<lparr>pstate := UNUSED, kstack := KSTACK i\<rparr> else ptab s i)\<rparr>"

definition allocpid :: "kernel \<Rightarrow> int \<times> kernel" where
  "allocpid s = (nextpid s, s\<lparr>nextpid := nextpid s + 1\<rparr>)"

section \<open>Page tables of processes\<close>

definition proc_pagetable :: "nat \<Rightarrow> nat \<Rightarrow> kmem \<Rightarrow> (kmem, nat) outcome" where
  "proc_pagetable trampoline tf s =
     (let (pt, s) = uvmcreate s
      in if pt = 0 then Ret 0 s
         else obind (mappages pt TRAMPOLINE PGSIZE trampoline (PTE_R OR PTE_X) s) (\<lambda>r s.
           if r < 0 then obind (uvmfree pt 0 s) (\<lambda>_ s. Ret 0 s)
           else obind (mappages pt TRAPFRAME PGSIZE tf (PTE_R OR PTE_W) s) (\<lambda>r s.
             if r < 0 then obind (uvmunmap pt TRAMPOLINE 1 False s) (\<lambda>_ s. obind (uvmfree pt 0 s) (\<lambda>_ s. Ret 0 s))
             else Ret pt s)))"

definition proc_freepagetable :: "nat \<Rightarrow> nat \<Rightarrow> kmem \<Rightarrow> (kmem, unit) outcome" where
  "proc_freepagetable pt psize s =
     obind (uvmunmap pt TRAMPOLINE 1 False s) (\<lambda>_ s.
     obind (uvmunmap pt TRAPFRAME 1 False s) (\<lambda>_ s. uvmfree pt psize s))"

text \<open>The pages of the mmap area, from \<open>va\<close> down.\<close>

function free_mmap :: "nat \<Rightarrow> nat \<Rightarrow> nat \<Rightarrow> kmem \<Rightarrow> (kmem, unit) outcome" where
  "free_mmap pt va start s =
     (if va > start
      then obind (walkaddr pt va s) (\<lambda>pa s.
           obind (if pa \<noteq> 0 then uvmunmap pt va 1 True s else Ret () s) (\<lambda>_ s. free_mmap pt (va - PGSIZE) start s))
      else Ret () s)"
  by auto
termination
  by (relation "measure (\<lambda>(pt, va, start, s). va)") (auto simp: PGSIZE_def)

declare free_mmap.simps [simp del]

definition kfree_nonzero :: "nat \<Rightarrow> kernel \<Rightarrow> kernel" where
  "kfree_nonzero pa s = (if pa \<noteq> 0 then s\<lparr>km := kfree pa (km s)\<rparr> else s)"

definition freeproc :: "nat \<Rightarrow> kernel \<Rightarrow> (kernel, unit) outcome" where
  "freeproc i s =
     (let s = upd i (\<lambda>p. p\<lparr>trapframe := 0\<rparr>) (kfree_nonzero (trapframe (ptab s i)) s)
      in obind (if has_mmap (ptab s i)
                then obind (mem_op (free_mmap (pagetable (ptab s i)) (TRAPFRAME - PGSIZE) (pmmap (ptab s i))) s)
                       (\<lambda>_ s. Ret () (upd i (\<lambda>p. p\<lparr>has_mmap := False\<rparr>) s))
                else Ret () s) (\<lambda>_ s.
         obind (if pagetable (ptab s i) \<noteq> 0
                then mem_op (proc_freepagetable (pagetable (ptab s i)) (sz (ptab s i))) s else Ret () s) (\<lambda>_ s.
           Ret () (upd i (\<lambda>p. p\<lparr>pagetable := 0, sz := 0, pid := 0, parent := None, pname := [], wchan := NoChan,
             pkilled := False, xstate := 0, pstate := UNUSED, stracing := False\<rparr>) s))))"

section \<open>Creating processes\<close>

text \<open>The address of \<open>forkret\<close> and of the trampoline page are fixed by the linker.\<close>

definition find_unused :: "kernel \<Rightarrow> nat option" where
  "find_unused s = find (\<lambda>i. pstate (ptab s i) = UNUSED) [0..<NPROC]"

definition allocproc :: "nat \<Rightarrow> nat \<Rightarrow> kernel \<Rightarrow> (kernel, nat option) outcome" where
  "allocproc trampoline forkret s =
     (case find_unused s of None \<Rightarrow> Ret None s
      | Some i \<Rightarrow>
        let (n, s) = allocpid s;
            s = upd i (\<lambda>p. p\<lparr>pid := n, pstate := USED, countp := 0, pmmap := 0, has_mmap := False\<rparr>) s;
            (tf, m) = kalloc (km s);
            s = upd i (\<lambda>p. p\<lparr>trapframe := tf\<rparr>) (s\<lparr>km := m\<rparr>)
        in if tf = 0 then obind (freeproc i s) (\<lambda>_ s. Ret None s)
           else obind (mem_op (proc_pagetable trampoline tf) s) (\<lambda>pt s.
             let s = upd i (\<lambda>p. p\<lparr>pagetable := pt\<rparr>) s
             in if pt = 0 then obind (freeproc i s) (\<lambda>_ s. Ret None s)
                else Ret (Some i) (upd i (\<lambda>p. p\<lparr>ctx_ra := forkret, ctx_sp := kstack p + PGSIZE\<rparr>) s)))"

text \<open>The first process; \<open>root\<close> is what \<open>namei\<close> finds for the root directory. A failed \<open>allocproc\<close> is dereferenced.\<close>

definition userinit :: "nat \<Rightarrow> nat \<Rightarrow> nat option \<Rightarrow> kernel \<Rightarrow> (kernel, unit) outcome" where
  "userinit trampoline forkret root s =
     obind (allocproc trampoline forkret s) (\<lambda>p s.
       case p of None \<Rightarrow> Panic ''kerneltrap''
       | Some i \<Rightarrow> Ret () (upd i (\<lambda>p. p\<lparr>cwd := root, pstate := RUNNABLE\<rparr>) (s\<lparr>initproc := Some i\<rparr>)))"

definition growproc :: "nat \<Rightarrow> int \<Rightarrow> kernel \<Rightarrow> (kernel, int) outcome" where
  "growproc i n s =
     (let p = ptab s i
      in if n > 0
         then obind (mem_op (uvmalloc (pagetable p) (sz p) (sz p + nat n) PTE_W) s) (\<lambda>nsz s.
           if nsz = 0 then Ret (-1) s else Ret 0 (upd i (\<lambda>p. p\<lparr>sz := nsz\<rparr>) s))
         else if n < 0
         then obind (mem_op (uvmdealloc (pagetable p) (sz p) (nat ((int (sz p) + n) mod 2 ^ 64))) s) (\<lambda>nsz s.
           Ret 0 (upd i (\<lambda>p. p\<lparr>sz := nsz\<rparr>) s))
         else Ret 0 s)"

text \<open>The mmap pages of process \<open>p\<close>, from \<open>va\<close> down, mapped into the table \<open>npt\<close> as well and shared; whether all could be mapped.\<close>

function share_mmap :: "nat \<Rightarrow> nat \<Rightarrow> nat \<Rightarrow> nat \<Rightarrow> kmem \<Rightarrow> (kmem, bool) outcome" where
  "share_mmap pt npt va start s =
     (if va > start
      then obind (walkaddr pt va s) (\<lambda>pa s.
           if pa \<noteq> 0
           then obind (mappages npt va PGSIZE pa (PTE_R OR PTE_W OR PTE_U) s) (\<lambda>r s.
             if r \<noteq> 0 then Ret False s else share_mmap pt npt (va - PGSIZE) start (krefpage pa s))
           else share_mmap pt npt (va - PGSIZE) start s)
      else Ret True s)"
  by auto
termination
  by (relation "measure (\<lambda>(pt, npt, va, start, s). va)") (auto simp: PGSIZE_def)

declare share_mmap.simps [simp del]

definition filedup :: "nat \<Rightarrow> kernel \<Rightarrow> (kernel, nat) outcome" where
  "filedup f s = (if frefs s f < 1 then Panic ''filedup'' else Ret f (s\<lparr>frefs := (frefs s)(f := frefs s f + 1)\<rparr>))"

definition idup :: "nat \<Rightarrow> kernel \<Rightarrow> kernel" where
  "idup ip s = s\<lparr>irefs := (irefs s)(ip := irefs s ip + 1)\<rparr>"

fun dup_files :: "nat \<Rightarrow> nat \<Rightarrow> nat list \<Rightarrow> kernel \<Rightarrow> (kernel, unit) outcome" where
  "dup_files i ni [] s = Ret () s"
| "dup_files i ni (fd # fds) s =
     (case ofile (ptab s i) fd of None \<Rightarrow> dup_files i ni fds s
      | Some f \<Rightarrow> obind (filedup f s) (\<lambda>f s. dup_files i ni fds (upd ni (\<lambda>p. p\<lparr>ofile := (ofile p)(fd := Some f)\<rparr>) s)))"

text \<open>The registers of the trapframe, 288 bytes; \<open>a0\<close> is at offset 112.\<close>

definition TRAPFRAME_SIZE :: nat where "TRAPFRAME_SIZE = 288"
definition A0_OFFSET :: nat where "A0_OFFSET = 112"

definition copy_trapframe :: "nat \<Rightarrow> nat \<Rightarrow> kmem \<Rightarrow> kmem" where
  "copy_trapframe tf ntf m =
     m\<lparr>pmem := stn 8 (\<lambda>x. if ntf \<le> x \<and> x < ntf + TRAPFRAME_SIZE then pmem m (tf + (x - ntf)) else pmem m x) (ntf + A0_OFFSET) 0\<rparr>"

text \<open>The last part of \<open>kfork\<close>: files, directory, name and parent of the child, which becomes runnable. \<open>idup\<close> dereferences the directory.\<close>

definition fork_finish :: "nat \<Rightarrow> nat \<Rightarrow> kernel \<Rightarrow> (kernel, int) outcome" where
  "fork_finish i ni s =
     obind (dup_files i ni [0..<NOFILE] s) (\<lambda>_ s.
       case cwd (ptab s i) of None \<Rightarrow> Panic ''kerneltrap''
       | Some ip \<Rightarrow>
         let s = idup ip s;
             s = upd ni (\<lambda>p. p\<lparr>cwd := Some ip, pname := pname (ptab s i)\<rparr>) s;
             s = upd ni (\<lambda>p. p\<lparr>parent := Some i\<rparr>) s;
             s = upd ni (\<lambda>p. p\<lparr>pstate := RUNNABLE\<rparr>) s
         in Ret (pid (ptab s ni)) s)"

text \<open>The middle part: the size, the registers and the mmap area of the child; whether the area could be shared.\<close>

definition fork_image :: "nat \<Rightarrow> nat \<Rightarrow> kernel \<Rightarrow> (kernel, bool) outcome" where
  "fork_image i ni s =
     (let s = upd ni (\<lambda>p. p\<lparr>sz := sz (ptab s i)\<rparr>) s;
          s = s\<lparr>km := copy_trapframe (trapframe (ptab s i)) (trapframe (ptab s ni)) (km s)\<rparr>
      in if has_mmap (ptab s i)
         then let s = upd ni (\<lambda>p. p\<lparr>pmmap := pmmap (ptab s i), has_mmap := True\<rparr>) s
              in mem_op (share_mmap (pagetable (ptab s i)) (pagetable (ptab s ni)) (TRAPFRAME - PGSIZE) (pmmap (ptab s i))) s
         else Ret True s)"

definition kfork :: "nat \<Rightarrow> nat \<Rightarrow> nat \<Rightarrow> kernel \<Rightarrow> (kernel, int) outcome" where
  "kfork trampoline forkret i s =
     obind (allocproc trampoline forkret s) (\<lambda>np s.
       case np of None \<Rightarrow> Ret (-1) s
       | Some ni \<Rightarrow>
         obind (mem_op (uvmcopy (pagetable (ptab s i)) (pagetable (ptab s ni)) (sz (ptab s i))) s) (\<lambda>r s.
           if r < 0 then obind (freeproc ni s) (\<lambda>_ s. Ret (-1) s)
           else obind (fork_image i ni s) (\<lambda>ok s.
             if \<not> ok then obind (freeproc ni s) (\<lambda>_ s. Ret (-1) s) else fork_finish i ni s)))"

section \<open>Sleeping and waking\<close>

definition wakeup :: "nat \<Rightarrow> wchan \<Rightarrow> kernel \<Rightarrow> kernel" where
  "wakeup me c s = s\<lparr>ptab := (\<lambda>i. if i < NPROC \<and> i \<noteq> me \<and> pstate (ptab s i) = SLEEPING \<and> wchan (ptab s i) = c
     then (ptab s i)\<lparr>pstate := RUNNABLE\<rparr> else ptab s i)\<rparr>"

definition sleep :: "nat \<Rightarrow> wchan \<Rightarrow> kernel \<Rightarrow> kernel" where
  "sleep i c s = upd i (\<lambda>p. p\<lparr>wchan := c, pstate := SLEEPING\<rparr>) s"

text \<open>What is left of \<open>sleep\<close> when the process runs again.\<close>

definition wake_up_in_sleep :: "nat \<Rightarrow> kernel \<Rightarrow> kernel" where
  "wake_up_in_sleep i s = upd i (\<lambda>p. p\<lparr>wchan := NoChan\<rparr>) s"

definition yield :: "nat \<Rightarrow> kernel \<Rightarrow> kernel" where
  "yield i s = upd i (\<lambda>p. p\<lparr>pstate := RUNNABLE\<rparr>) s"

definition kkill :: "int \<Rightarrow> kernel \<Rightarrow> int \<times> kernel" where
  "kkill n s =
     (case find (\<lambda>i. pid (ptab s i) = n) [0..<NPROC] of None \<Rightarrow> (-1, s)
      | Some i \<Rightarrow> (0, upd i (\<lambda>p. p\<lparr>pkilled := True, pstate := (if pstate p = SLEEPING then RUNNABLE else pstate p)\<rparr>) s))"

definition setkilled :: "nat \<Rightarrow> kernel \<Rightarrow> kernel" where
  "setkilled i s = upd i (\<lambda>p. p\<lparr>pkilled := True\<rparr>) s"

definition killed :: "nat \<Rightarrow> kernel \<Rightarrow> bool" where
  "killed i s = pkilled (ptab s i)"

section \<open>Exit and wait\<close>

fun reparent :: "nat \<Rightarrow> nat list \<Rightarrow> kernel \<Rightarrow> kernel" where
  "reparent i [] s = s"
| "reparent i (j # js) s =
     (if parent (ptab s j) = Some i
      then let s = upd j (\<lambda>p. p\<lparr>parent := initproc s\<rparr>) s
           in reparent i js (case initproc s of None \<Rightarrow> s | Some n \<Rightarrow> wakeup i (ChProc n) s)
      else reparent i js s)"

text \<open>The part of \<open>kexit\<close> under \<open>wait_lock\<close>, after the files are closed; the process does not run again.\<close>

definition exit_zombie :: "nat \<Rightarrow> 32 word \<Rightarrow> kernel \<Rightarrow> kernel" where
  "exit_zombie i status s =
     (let s = reparent i [0..<NPROC] s;
          s = (case parent (ptab s i) of None \<Rightarrow> s | Some q \<Rightarrow> wakeup i (ChProc q) s)
      in upd i (\<lambda>p. p\<lparr>xstate := status, pstate := ZOMBIE\<rparr>) s)"

definition bytes4 :: "32 word \<Rightarrow> byte list" where
  "bytes4 w = map (\<lambda>k. ucast (drop_bit (8 * k) w)) [0..<4]"

definition copy_int :: "nat \<Rightarrow> nat \<Rightarrow> 32 word \<Rightarrow> kernel \<Rightarrow> (kernel, int) outcome" where
  "copy_int i addr w s =
     (if addr = 0 then Ret 0 s else mem_op (copyout (uproc_of (ptab s i)) (pagetable (ptab s i)) addr (bytes4 w)) s)"

text \<open>The scan of \<open>kwait\<close>: \<open>Inl\<close> what the routine returns, \<open>Inr\<close> whether children were seen.\<close>

fun wait_scan :: "nat \<Rightarrow> nat \<Rightarrow> nat list \<Rightarrow> bool \<Rightarrow> kernel \<Rightarrow> (kernel, int + bool) outcome" where
  "wait_scan i addr [] havekids s = Ret (Inr havekids) s"
| "wait_scan i addr (j # js) havekids s =
     (if parent (ptab s j) = Some i
      then if pstate (ptab s j) = ZOMBIE
           then let n = pid (ptab s j)
                in obind (copy_int i addr (xstate (ptab s j)) s) (\<lambda>r s.
                  if r < 0 then Ret (Inl (-1)) s else obind (freeproc j s) (\<lambda>_ s. Ret (Inl n) s))
           else wait_scan i addr js True s
      else wait_scan i addr js havekids s)"

definition kwait :: "nat \<Rightarrow> nat \<Rightarrow> kernel \<Rightarrow> (kernel, int) outcome" where
  "kwait i addr s =
     obind (wait_scan i addr [0..<NPROC] False s) (\<lambda>r s.
       case r of Inl n \<Rightarrow> Ret n s
       | Inr havekids \<Rightarrow> if \<not> havekids \<or> killed i s then Ret (-1) s else Sleep i (sleep i (ChProc i) s))"

fun wait2_scan :: "nat \<Rightarrow> nat \<Rightarrow> nat \<Rightarrow> nat list \<Rightarrow> bool \<Rightarrow> kernel \<Rightarrow> (kernel, int + bool) outcome" where
  "wait2_scan i status cnt [] havekids s = Ret (Inr havekids) s"
| "wait2_scan i status cnt (j # js) havekids s =
     (if parent (ptab s j) = Some i
      then if pstate (ptab s j) = ZOMBIE
           then let n = pid (ptab s j)
                in obind (copy_int i status (xstate (ptab s j)) s) (\<lambda>r s.
                  if r < 0 then Ret (Inl (-1)) s
                  else obind (copy_int i cnt (countp (ptab s j)) s) (\<lambda>r s.
                    if r < 0 then Ret (Inl (-1)) s else obind (freeproc j s) (\<lambda>_ s. Ret (Inl n) s)))
           else wait2_scan i status cnt js True s
      else wait2_scan i status cnt js havekids s)"

definition kwait2 :: "nat \<Rightarrow> nat \<Rightarrow> nat \<Rightarrow> kernel \<Rightarrow> (kernel, int) outcome" where
  "kwait2 i status cnt s =
     obind (wait2_scan i status cnt [0..<NPROC] False s) (\<lambda>r s.
       case r of Inl n \<Rightarrow> Ret n s
       | Inr havekids \<Rightarrow> if \<not> havekids \<or> killed i s then Ret (-1) s else Sleep i (sleep i (ChProc i) s))"

section \<open>The scheduler\<close>

text \<open>One pass over the table at one level: the processes that ran, in order.\<close>

fun sched_level :: "(nat \<Rightarrow> kernel \<Rightarrow> kernel) \<Rightarrow> int \<Rightarrow> nat list \<Rightarrow> kernel \<Rightarrow> nat list \<times> kernel" where
  "sched_level run current [] s = ([], s)"
| "sched_level run current (i # is) s =
     (if pstate (ptab s i) = RUNNABLE \<and> priority (ptab s i) \<ge> current
      then let s = run i (upd i (\<lambda>p. p\<lparr>pstate := RUNNING\<rparr>) s); (ran, s) = sched_level run current is s in (i # ran, s)
      else sched_level run current is s)"

text \<open>One round of the endless loop of \<open>scheduler\<close>; a round in which nothing ran ends in waiting for an interrupt.\<close>

definition sched_round :: "(nat \<Rightarrow> kernel \<Rightarrow> kernel) \<Rightarrow> kernel \<Rightarrow> nat list \<times> kernel" where
  "sched_round run s =
     (let (r3, s) = sched_level run 3 [0..<NPROC] s;
          (r2, s) = sched_level run 2 [0..<NPROC] s;
          (r1, s) = sched_level run 1 [0..<NPROC] s;
          (r0, s) = sched_level run 0 [0..<NPROC] s
      in (r3 @ r2 @ r1 @ r0, s))"

section \<open>Copying to user or kernel memory\<close>

definition either_copyout :: "nat \<Rightarrow> bool \<Rightarrow> nat \<Rightarrow> byte list \<Rightarrow> kernel \<Rightarrow> (kernel, int) outcome" where
  "either_copyout i user_dst dst src s =
     (if user_dst then mem_op (copyout (uproc_of (ptab s i)) (pagetable (ptab s i)) dst src) s
      else Ret 0 (s\<lparr>km := (km s)\<lparr>pmem := put_bytes dst src (pmem (km s))\<rparr>\<rparr>))"

definition either_copyin :: "nat \<Rightarrow> bool \<Rightarrow> nat \<Rightarrow> nat \<Rightarrow> kernel \<Rightarrow> (kernel, int \<times> byte list) outcome" where
  "either_copyin i user_src src len s =
     (if user_src then mem_op (copyin (uproc_of (ptab s i)) (pagetable (ptab s i)) src len []) s
      else Ret (0, get_bytes (pmem (km s)) src len) s)"

end
