(* ===== verification/Syscall.thy ===== *)
theory Syscall
  imports Proc
begin

text \<open>
  System calls: fetching arguments and dispatching (\<^verbatim>\<open>kernel/syscall.c\<close>), the calls on processes and memory (\<^verbatim>\<open>kernel/sysproc.c\<close>, \<open>sys_mmap\<close> of \<^verbatim>\<open>kernel/sysfile.c\<close>),
  the clock and the trap from user space (\<^verbatim>\<open>kernel/trap.c\<close>). The registers of process \<open>i\<close> are in its trapframe, in physical memory. A call of \<open>kexit\<close>, which does not return, is the
  result \<open>Exits\<close>. The table of handlers is an argument of \<open>syscall\<close>, as it is an array of function pointers in the code. The forwarding wrappers of devices take
  what the device registers hold as an argument. Messages on the console are left out.
\<close>

section \<open>Arguments\<close>

definition reg :: "nat \<Rightarrow> nat \<Rightarrow> kernel \<Rightarrow> nat" where
  "reg off i s = ldn 8 (pmem (km s)) (trapframe (ptab s i) + off)"

definition set_reg :: "nat \<Rightarrow> nat \<Rightarrow> nat \<Rightarrow> kernel \<Rightarrow> kernel" where
  "set_reg off i v s = s\<lparr>km := (km s)\<lparr>pmem := stn 8 (pmem (km s)) (trapframe (ptab s i) + off) v\<rparr>\<rparr>"

definition EPC :: nat where "EPC = 24"
definition A7_OFFSET :: nat where "A7_OFFSET = 168"

definition argraw :: "nat \<Rightarrow> nat \<Rightarrow> kernel \<Rightarrow> (kernel, nat) outcome" where
  "argraw n i s = (if n < 6 then Ret (reg (A0_OFFSET + 8 * n) i s) s else Panic ''argraw'')"

definition to_int :: "nat \<Rightarrow> int" where
  "to_int v = sint (word_of_nat v :: 32 word)"

definition argint :: "nat \<Rightarrow> nat \<Rightarrow> kernel \<Rightarrow> (kernel, int) outcome" where
  "argint n i s = obind (argraw n i s) (\<lambda>v s. Ret (to_int v) s)"

definition argaddr :: "nat \<Rightarrow> nat \<Rightarrow> kernel \<Rightarrow> (kernel, nat) outcome" where
  "argaddr n i s = argraw n i s"

text \<open>\<open>None\<close> is the result -1.\<close>

definition fetchaddr :: "nat \<Rightarrow> nat \<Rightarrow> kernel \<Rightarrow> (kernel, nat option) outcome" where
  "fetchaddr addr i s =
     (if addr \<ge> sz (ptab s i) \<or> (addr + 8) mod 2 ^ 64 > sz (ptab s i) then Ret None s
      else obind (mem_op (copyin (uproc_of (ptab s i)) (pagetable (ptab s i)) addr 8 []) s) (\<lambda>(r, bs) s.
        if r \<noteq> 0 then Ret None s else Ret (Some (ldn 8 (\<lambda>k. if k < 8 then bs ! k else 0) 0)) s))"

definition fetchstr :: "nat \<Rightarrow> nat \<Rightarrow> nat \<Rightarrow> kernel \<Rightarrow> (kernel, byte list option) outcome" where
  "fetchstr addr mx i s =
     obind (mem_op (copyinstr (pagetable (ptab s i)) addr mx []) s) (\<lambda>(r, bs) s.
       if r < 0 then Ret None s else Ret (Some (takeWhile (\<lambda>c. c \<noteq> 0) bs)) s)"

definition argstr :: "nat \<Rightarrow> nat \<Rightarrow> nat \<Rightarrow> kernel \<Rightarrow> (kernel, byte list option) outcome" where
  "argstr n mx i s = obind (argaddr n i s) (\<lambda>addr s. fetchstr addr mx i s)"

section \<open>Calls on processes\<close>

datatype sysret = Value int | Exits int

type_synonym handler = "nat \<Rightarrow> kernel \<Rightarrow> (kernel, sysret) outcome"

definition ret_value :: "(kernel, int) outcome \<Rightarrow> (kernel, sysret) outcome" where
  "ret_value r = obind r (\<lambda>v s. Ret (Value v) s)"

definition sys_exit :: handler where
  "sys_exit i s = obind (argint 0 i s) (\<lambda>n s. Ret (Exits n) s)"

definition sys_getpid :: handler where
  "sys_getpid i s = Ret (Value (pid (ptab s i))) s"

definition sys_fork :: "nat \<Rightarrow> nat \<Rightarrow> handler" where
  "sys_fork trampoline forkret i s = ret_value (kfork trampoline forkret i s)"

definition sys_wait2 :: handler where
  "sys_wait2 i s = obind (argaddr 0 i s) (\<lambda>status s. obind (argaddr 1 i s) (\<lambda>count s. ret_value (kwait2 i status count s)))"

definition sys_wait :: handler where
  "sys_wait i s = obind (argaddr 0 i s) (\<lambda>p s. ret_value (kwait2 i p 0 s))"

definition SBRK_EAGER :: int where "SBRK_EAGER = 1"
definition SBRK_LAZY :: int where "SBRK_LAZY = 2"

definition sys_sbrk :: handler where
  "sys_sbrk i s =
     obind (argint 0 i s) (\<lambda>n s. obind (argint 1 i s) (\<lambda>t s.
       let addr = sz (ptab s i)
       in if t = SBRK_EAGER \<or> n < 0
          then obind (growproc i n s) (\<lambda>r s. if r < 0 then Ret (Value (-1)) s else Ret (Value (int addr)) s)
          else if (addr + nat n) mod 2 ^ 64 < addr then Ret (Value (-1)) s
          else Ret (Value (int addr)) (upd i (\<lambda>p. p\<lparr>sz := (sz p + nat n) mod 2 ^ 64\<rparr>) s)))"

definition sys_kill :: handler where
  "sys_kill i s = obind (argint 0 i s) (\<lambda>n s. let (r, s) = kkill n s in Ret (Value r) s)"

definition sys_stracing :: handler where
  "sys_stracing i s = Ret (Value 0) (upd i (\<lambda>p. p\<lparr>stracing := True\<rparr>) s)"

definition sys_nice :: handler where
  "sys_nice i s =
     obind (argint 0 i s) (\<lambda>n s.
       let n = (if n < 0 then 0 else n); n = (if n > 3 then 3 else n)
       in Ret (Value 0) (upd i (\<lambda>p. p\<lparr>nice_lv := n, priority := 3 - n\<rparr>) s))"

definition sys_freemem :: handler where
  "sys_freemem i s = (case freemem (km s) of None \<Rightarrow> Diverge | Some n \<Rightarrow> Ret (Value (uint n)) s)"

definition sys_rtcrealtime :: "32 word \<Rightarrow> 32 word \<Rightarrow> nat" where
  "sys_rtcrealtime first second = unat (push_bit 32 (ucast second :: 64 word) OR ucast first) div 1000000000"

definition sys_mmap :: handler where
  "sys_mmap i s =
     (let va = pmmap (ptab s i)
      in if va mod PGSIZE \<noteq> 0 then Ret (Value (-1)) s
         else let (pa, m) = kalloc (km s); s = s\<lparr>km := m\<rparr>
              in if pa = 0 then Ret (Value (-1)) s
                 else let s = s\<lparr>km := zero_page pa (km s)\<rparr>
                      in obind (mem_op (mappages (pagetable (ptab s i)) va PGSIZE pa (PTE_R OR PTE_W OR PTE_U)) s) (\<lambda>r s.
                        if r \<noteq> 0 then Ret (Value (-1)) (s\<lparr>km := kfree pa (km s)\<rparr>)
                        else obind (mem_op (walkaddr (pagetable (ptab s i)) va) s) (\<lambda>a s.
                          if a \<noteq> pa then Panic ''invalid mmap''
                          else Ret (Value (int va)) (upd i (\<lambda>p. p\<lparr>pmmap := nat ((int (pmmap p) - int PGSIZE) mod 2 ^ 64), has_mmap := True\<rparr>) s))))"

section \<open>The clock\<close>

record machine =
  kern :: kernel
  ticks :: "32 word"

text \<open>The address of \<open>ticks\<close> is the channel.\<close>

definition TICKS_CHAN :: wchan where "TICKS_CHAN = ChAddr 0"

definition clockintr :: "nat \<Rightarrow> nat \<Rightarrow> machine \<Rightarrow> machine" where
  "clockintr cpu me s = (if cpu = 0 then s\<lparr>ticks := ticks s + 1, kern := wakeup me TICKS_CHAN (kern s)\<rparr> else s)"

definition sys_uptime :: "machine \<Rightarrow> 32 word" where
  "sys_uptime s = ticks s"

text \<open>One round of the loop of \<open>sys_pause\<close>: the result, or the process sleeps until the next tick.\<close>

definition pause_round :: "nat \<Rightarrow> 32 word \<Rightarrow> int \<Rightarrow> machine \<Rightarrow> int option \<times> machine" where
  "pause_round i ticks0 n s =
     (if uint (ticks s - ticks0) < n
      then if killed i (kern s) then (Some (-1), s) else (None, s\<lparr>kern := sleep i TICKS_CHAN (kern s)\<rparr>)
      else (Some 0, s))"

section \<open>Dispatch and traps\<close>

text \<open>Whether the process exits; otherwise the result is in its register \<open>a0\<close>.\<close>

definition syscall :: "(int \<Rightarrow> handler option) \<Rightarrow> nat \<Rightarrow> kernel \<Rightarrow> (kernel, int option) outcome" where
  "syscall syscalls i s =
     (let num = to_int (reg A7_OFFSET i s)
      in case (if num > 0 then syscalls num else None) of
           None \<Rightarrow> Ret None (set_reg A0_OFFSET i (2 ^ 64 - 1) s)
         | Some f \<Rightarrow> obind (f i s) (\<lambda>r s. case r of Exits n \<Rightarrow> Ret (Some n) s
             | Value v \<Rightarrow> Ret None (upd i (\<lambda>p. p\<lparr>countp := countp p + 1\<rparr>) (set_reg A0_OFFSET i (nat (v mod 2 ^ 64)) s))))"

text \<open>\<open>usertrap\<close>, for what \<open>devintr\<close> found: 0 no device, 2 the timer. The result is the status of a call of \<open>kexit\<close>.\<close>

definition usertrap :: "(int \<Rightarrow> handler option) \<Rightarrow> nat \<Rightarrow> nat \<Rightarrow> nat \<Rightarrow> nat \<Rightarrow> nat \<Rightarrow> kernel \<Rightarrow> (kernel, int option) outcome" where
  "usertrap syscalls sepc scause stval which_dev i s =
     (let s = set_reg EPC i sepc s
      in obind (if scause = 8
           then if killed i s then Ret (Some (-1)) s
                else syscall syscalls i (set_reg EPC i (reg EPC i s + 4) s)
           else if which_dev \<noteq> 0 then Ret None s
           else if scause = 15 \<or> scause = 13
           then obind (mem_op (vmfault (uproc_of (ptab s i)) (pagetable (ptab s i)) stval) s) (\<lambda>pa s. Ret None (if pa \<noteq> 0 then s else setkilled i s))
           else Ret None (setkilled i s)) (\<lambda>r s.
         case r of Some n \<Rightarrow> Ret (Some n) s
         | None \<Rightarrow> if killed i s then Ret (Some (-1)) s
                   else Ret None (if scause \<noteq> 8 \<and> which_dev = 2 then yield i s else s)))"

end
