(* ===== verification/Vm_Awake.thy ===== *)
theory Vm_Awake
  imports Proc
begin

text \<open>The routines of virtual memory never put a process to sleep: \<open>kalloc\<close> fails instead of waiting.\<close>

named_theorems awake_intros

definition awake :: "('s, 'a) outcome \<Rightarrow> bool" where
  "awake r \<longleftrightarrow> (case r of Sleep c s \<Rightarrow> False | _ \<Rightarrow> True)"

lemma awake_simps [simp]: "awake (Ret a s)" "awake (Panic e)" "awake Diverge" "\<not> awake (Sleep c s)"
  by (simp_all add: awake_def)

lemma awake_obind [awake_intros]: "awake m \<Longrightarrow> (\<And>a s. awake (f a s)) \<Longrightarrow> awake (obind m f)"
  by (cases m) simp_all

lemma awake_if [awake_intros]: "(c \<Longrightarrow> awake x) \<Longrightarrow> (\<not> c \<Longrightarrow> awake y) \<Longrightarrow> awake (if c then x else y)"
  by simp

lemma awake_mem_op [awake_intros]:
  assumes "\<And>m. awake (f m)"
  shows "awake (mem_op f s)"
  using assms [of "km s"] by (cases "f (km s)") (simp_all add: mem_op_def)

lemma awake_walk_loop [awake_intros]: "awake (walk_loop l pt va alloc s)"
  by (induction l pt va alloc s rule: walk_loop.induct) (auto simp: Let_def split: prod.splits)

lemma awake_walk [awake_intros]: "awake (walk pt va alloc s)"
  unfolding walk_def by (intro awake_intros) simp

lemma awake_walkaddr [awake_intros]: "awake (walkaddr pt va s)"
  unfolding walkaddr_def by (intro awake_intros) simp_all

lemma awake_map_loop [awake_intros]: "awake (map_loop k pt a pa perm s)"
  by (induction k arbitrary: a pa s) (auto intro!: awake_intros)

lemma awake_mappages [awake_intros]: "awake (mappages pt va n pa perm s)"
  unfolding mappages_def by (intro awake_intros) simp_all

lemma awake_unmap_loop [awake_intros]: "awake (unmap_loop k pt a free s)"
  by (induction k arbitrary: a s) (auto simp: Let_def intro!: awake_intros)

lemma awake_uvmunmap [awake_intros]: "awake (uvmunmap pt va n free s)"
  unfolding uvmunmap_def by (intro awake_intros) simp

lemma awake_freewalk_loop [awake_intros]: "awake (freewalk_loop d r pt s)"
  by (induction d r pt s rule: freewalk_loop.induct, subst freewalk_loop.simps) (auto simp: Let_def intro!: awake_intros)

lemma awake_uvmfree [awake_intros]: "awake (uvmfree pt n s)"
  unfolding uvmfree_def freewalk_def by (intro awake_intros) simp

lemma awake_ismapped [awake_intros]: "awake (ismapped pt va s)"
  unfolding ismapped_def by (intro awake_intros) simp_all

lemma awake_vmfault [awake_intros]: "awake (vmfault p pt va s)"
  unfolding vmfault_def by (auto simp: Let_def split: prod.splits intro!: awake_intros)

lemma awake_copyout [awake_intros]: "awake (copyout p pt va src s)"
  by (induction p pt va src s rule: copyout.induct, subst copyout.simps) (auto simp: Let_def intro!: awake_intros)

lemma awake_free_mmap [awake_intros]: "awake (free_mmap pt va start s)"
  by (induction pt va start s rule: free_mmap.induct, subst free_mmap.simps) (auto intro!: awake_intros)

lemma awake_proc_freepagetable [awake_intros]: "awake (proc_freepagetable pt n s)"
  unfolding proc_freepagetable_def by (intro awake_intros)

lemma awake_freeproc [awake_intros]: "awake (freeproc i s)"
  unfolding freeproc_def Let_def by (intro awake_intros) simp_all

lemma awake_copy_int [awake_intros]: "awake (copy_int i a w s)"
  unfolding copy_int_def by (intro awake_intros) simp

end
