(* ===== verification/Proc_Props.thy ===== *)
theory Proc_Props
  imports Vm_Awake
begin

text \<open>
  The process table under its operations: which slots change, that process ids stay unique, what a child inherits from \<open>kfork\<close>, what \<open>kwait2\<close>
  reaps, and how many turns the scheduler gives.
\<close>

section \<open>What the operations change\<close>

lemma proc_upd_fields [simp]:
  "ptab (upd i f s) j = (if j = i then f (ptab s i) else ptab s j)" "km (upd i f s) = km s" "nextpid (upd i f s) = nextpid s"
  "initproc (upd i f s) = initproc s" "frefs (upd i f s) = frefs s" "irefs (upd i f s) = irefs s"
  by (simp_all add: upd_def)

lemma mem_op_Ret: "mem_op f s = Ret a s' \<Longrightarrow> \<exists>m. f (km s) = Ret a m \<and> s' = s\<lparr>km := m\<rparr>"
  by (auto simp: mem_op_def split: outcome.splits)

lemma obind_unit: "obind m f = Ret b t \<longleftrightarrow> (\<exists>s. m = Ret () s \<and> f () s = Ret b t)"
  by (cases m) auto

text \<open>Everything outside memory and the slot \<open>i\<close> is as it was.\<close>

definition only_slot :: "nat \<Rightarrow> kernel \<Rightarrow> kernel \<Rightarrow> bool" where
  "only_slot i s s' \<longleftrightarrow> (\<forall>j. j \<noteq> i \<longrightarrow> ptab s' j = ptab s j) \<and> nextpid s' = nextpid s \<and> initproc s' = initproc s
     \<and> frefs s' = frefs s \<and> irefs s' = irefs s"

lemma freeproc_slot:
  assumes "freeproc i s = Ret () s'"
  shows "only_slot i s s'" "pstate (ptab s' i) = UNUSED" "pid (ptab s' i) = 0" "parent (ptab s' i) = None"
    "\<not> pkilled (ptab s' i)" "priority (ptab s' i) = priority (ptab s i)"
proof -
  define s1 where "s1 = upd i (\<lambda>p. p\<lparr>trapframe := 0\<rparr>) (kfree_nonzero (trapframe (ptab s i)) s)"
  have s1: "only_slot i s s1 \<and> priority (ptab s1 i) = priority (ptab s i)"
    by (auto simp: s1_def only_slot_def kfree_nonzero_def)
  obtain s2 where s2: "(if has_mmap (ptab s1 i)
      then obind (mem_op (free_mmap (pagetable (ptab s1 i)) (TRAPFRAME - PGSIZE) (pmmap (ptab s1 i))) s1) (\<lambda>_ s. Ret () (upd i (\<lambda>p. p\<lparr>has_mmap := False\<rparr>) s))
      else Ret () s1) = Ret () s2" and r2: "obind (if pagetable (ptab s2 i) \<noteq> 0
                then mem_op (proc_freepagetable (pagetable (ptab s2 i)) (sz (ptab s2 i))) s2 else Ret () s2) (\<lambda>_ s.
           Ret () (upd i (\<lambda>p. p\<lparr>pagetable := 0, sz := 0, pid := 0, parent := None, pname := [], wchan := NoChan,
             pkilled := False, xstate := 0, pstate := UNUSED, stracing := False\<rparr>) s)) = Ret () s'"
    using assms unfolding freeproc_def Let_def s1_def [symmetric] obind_unit by blast
  have o2: "only_slot i s1 s2 \<and> priority (ptab s2 i) = priority (ptab s1 i)"
    using s2 by (auto simp: only_slot_def obind_eq_Ret split: if_splits dest!: mem_op_Ret)
  obtain s3 where s3: "(if pagetable (ptab s2 i) \<noteq> 0
      then mem_op (proc_freepagetable (pagetable (ptab s2 i)) (sz (ptab s2 i))) s2 else Ret () s2) = Ret () s3"
      and e: "s' = upd i (\<lambda>p. p\<lparr>pagetable := 0, sz := 0, pid := 0, parent := None, pname := [], wchan := NoChan,
             pkilled := False, xstate := 0, pstate := UNUSED, stracing := False\<rparr>) s3"
    using r2 unfolding obind_unit by auto
  have o3: "only_slot i s2 s3 \<and> priority (ptab s3 i) = priority (ptab s2 i)"
    using s3 by (auto simp: only_slot_def split: if_splits dest!: mem_op_Ret)
  show "only_slot i s s'" "pstate (ptab s' i) = UNUSED" "pid (ptab s' i) = 0" "parent (ptab s' i) = None"
    "\<not> pkilled (ptab s' i)" "priority (ptab s' i) = priority (ptab s i)"
    using s1 o2 o3 unfolding e by (auto simp: only_slot_def)
qed

lemma find_unused_Some: "find_unused s = Some i \<Longrightarrow> i < NPROC \<and> pstate (ptab s i) = UNUSED"
  by (auto simp: find_unused_def dest: find_SomeD)

text \<open>The slot \<open>allocproc\<close> returns, and what it returns it with.\<close>

lemma allocproc_slot:
  assumes "allocproc tr fr s = Ret r s'"
  shows "case r of Some i \<Rightarrow> find_unused s = Some i \<and> pstate (ptab s' i) = USED \<and> pid (ptab s' i) = nextpid s \<and> nextpid s' = nextpid s + 1
        \<and> parent (ptab s' i) = parent (ptab s i) \<and> pkilled (ptab s' i) = pkilled (ptab s i) \<and> priority (ptab s' i) = priority (ptab s i)
        \<and> \<not> has_mmap (ptab s' i) \<and> pmmap (ptab s' i) = 0 \<and> only_slot i (s\<lparr>nextpid := nextpid s + 1\<rparr>) s'
    | None \<Rightarrow> find_unused s = None \<and> s' = s
        \<or> (\<exists>i. find_unused s = Some i \<and> only_slot i (s\<lparr>nextpid := nextpid s + 1\<rparr>) s' \<and> pstate (ptab s' i) = UNUSED \<and> pid (ptab s' i) = 0 \<and> parent (ptab s' i) = None)"
proof (cases "find_unused s")
  case None
  then show ?thesis using assms by (simp add: allocproc_def)
next
  case (Some i)
  define s1 where "s1 = upd i (\<lambda>p. p\<lparr>pid := nextpid s, pstate := USED, countp := 0, pmmap := 0, has_mmap := False\<rparr>) (s\<lparr>nextpid := nextpid s + 1\<rparr>)"
  obtain tf m where k: "kalloc (km s1) = (tf, m)" by fastforce
  define s2 where "s2 = upd i (\<lambda>p. p\<lparr>trapframe := tf\<rparr>) (s1\<lparr>km := m\<rparr>)"
  have o2: "only_slot i (s\<lparr>nextpid := nextpid s + 1\<rparr>) s2" "pstate (ptab s2 i) = USED" "pid (ptab s2 i) = nextpid s" "parent (ptab s2 i) = parent (ptab s i)"
    "pkilled (ptab s2 i) = pkilled (ptab s i)" "priority (ptab s2 i) = priority (ptab s i)" "\<not> has_mmap (ptab s2 i)" "pmmap (ptab s2 i) = 0" "nextpid s2 = nextpid s + 1"
    by (auto simp: s2_def s1_def only_slot_def)
  have run: "allocproc tr fr s = (if tf = 0 then obind (freeproc i s2) (\<lambda>_ s. Ret None s)
      else obind (mem_op (proc_pagetable tr tf) s2) (\<lambda>pt s.
             let s = upd i (\<lambda>p. p\<lparr>pagetable := pt\<rparr>) s
             in if pt = 0 then obind (freeproc i s) (\<lambda>_ s. Ret None s)
                else Ret (Some i) (upd i (\<lambda>p. p\<lparr>ctx_ra := fr, ctx_sp := kstack p + PGSIZE\<rparr>) s)))"
    using Some k by (simp add: allocproc_def allocpid_def Let_def s2_def s1_def)
  have free: "\<exists>i. find_unused s = Some i \<and> only_slot i (s\<lparr>nextpid := nextpid s + 1\<rparr>) s' \<and> pstate (ptab s' i) = UNUSED \<and> pid (ptab s' i) = 0 \<and> parent (ptab s' i) = None"
    if f: "freeproc i t = Ret () s'" and t: "only_slot i s2 t" for t
    using freeproc_slot [OF f] t o2(1) Some by (auto simp: only_slot_def)
  show ?thesis
  proof (cases "tf = 0")
    case True
    then have "freeproc i s2 = Ret () s'" "r = None" using assms run by (auto simp: obind_eq_Ret)
    then show ?thesis using free [of s2] by (simp add: only_slot_def)
  next
    case False
    then obtain pt m' where p: "proc_pagetable tr tf (km s2) = Ret pt m'" and c: "(let s = upd i (\<lambda>p. p\<lparr>pagetable := pt\<rparr>) (s2\<lparr>km := m'\<rparr>)
             in if pt = 0 then obind (freeproc i s) (\<lambda>_ s. Ret None s)
                else Ret (Some i) (upd i (\<lambda>p. p\<lparr>ctx_ra := fr, ctx_sp := kstack p + PGSIZE\<rparr>) s)) = Ret r s'"
      using assms run by (auto simp: obind_eq_Ret dest!: mem_op_Ret)
    have os: "only_slot i s2 (upd i (\<lambda>p. p\<lparr>pagetable := pt\<rparr>) (s2\<lparr>km := m'\<rparr>))" by (simp add: only_slot_def)
    show ?thesis
    proof (cases "pt = 0")
      case True
      then have "freeproc i (upd i (\<lambda>p. p\<lparr>pagetable := pt\<rparr>) (s2\<lparr>km := m'\<rparr>)) = Ret () s'" "r = None" using c by (auto simp: obind_eq_Ret)
      then show ?thesis using free os by simp
    next
      case False
      then have "r = Some i" "s' = upd i (\<lambda>p. p\<lparr>ctx_ra := fr, ctx_sp := kstack p + PGSIZE\<rparr>) (upd i (\<lambda>p. p\<lparr>pagetable := pt\<rparr>) (s2\<lparr>km := m'\<rparr>))"
        using c by auto
      then show ?thesis using Some o2 by (simp add: only_slot_def)
    qed
  qed
qed

section \<open>Fork\<close>

definition times_open :: "(nat \<Rightarrow> nat option) \<Rightarrow> nat list \<Rightarrow> nat \<Rightarrow> nat" where
  "times_open files fds f = length (filter (\<lambda>fd. files fd = Some f) fds)"

definition inherit :: "(nat \<Rightarrow> nat option) \<Rightarrow> nat set \<Rightarrow> (nat \<Rightarrow> nat option) \<Rightarrow> nat \<Rightarrow> nat option" where
  "inherit files fds old k = (if k \<in> fds \<and> files k \<noteq> None then files k else old k)"

lemma dup_files_ok:
  assumes "dup_files i ni fds s = Ret () s'" "i \<noteq> ni"
  shows "(\<forall>j. j \<noteq> ni \<longrightarrow> ptab s' j = ptab s j) \<and> nextpid s' = nextpid s \<and> initproc s' = initproc s \<and> irefs s' = irefs s \<and> km s' = km s
    \<and> ptab s' ni = (ptab s ni)\<lparr>ofile := inherit (ofile (ptab s i)) (set fds) (ofile (ptab s ni))\<rparr>
    \<and> (\<forall>f. frefs s' f = frefs s f + int (times_open (ofile (ptab s i)) fds f))"
  using assms
proof (induction fds arbitrary: s)
  case Nil
  have "inherit (ofile (ptab s i)) {} (ofile (ptab s ni)) = ofile (ptab s ni)" by (simp add: inherit_def fun_eq_iff)
  then show ?case using Nil by (auto simp: times_open_def)
next
  case (Cons fd fds)
  show ?case
  proof (cases "ofile (ptab s i) fd")
    case None
    have "inherit (ofile (ptab s i)) (set (fd # fds)) (ofile (ptab s ni)) = inherit (ofile (ptab s i)) (set fds) (ofile (ptab s ni))"
      using None by (auto simp: inherit_def fun_eq_iff)
    then show ?thesis using Cons None by (auto simp: times_open_def)
  next
    case (Some f)
    define t where "t = upd ni (\<lambda>p. p\<lparr>ofile := (ofile p)(fd := Some f)\<rparr>) (s\<lparr>frefs := (frefs s)(f := frefs s f + 1)\<rparr>)"
    have t: "ptab t i = ptab s i" "nextpid t = nextpid s" "initproc t = initproc s" "irefs t = irefs s" "km t = km s" "\<And>j. j \<noteq> ni \<Longrightarrow> ptab t j = ptab s j"
      using Cons.prems(2) by (simp_all add: t_def)
    have "dup_files i ni fds t = Ret () s'" using Cons.prems(1) Some by (auto simp: filedup_def t_def split: if_splits)
    from Cons.IH [OF this Cons.prems(2), unfolded t(1-5)] have IH: "\<forall>j. j \<noteq> ni \<longrightarrow> ptab s' j = ptab s j" "nextpid s' = nextpid s" "initproc s' = initproc s"
        "irefs s' = irefs s" "km s' = km s" "\<forall>h. frefs s' h = frefs t h + int (times_open (ofile (ptab s i)) fds h)"
        "ptab s' ni = (ptab t ni)\<lparr>ofile := inherit (ofile (ptab s i)) (set fds) (ofile (ptab t ni))\<rparr>"
      using t(6) by auto
    have "inherit (ofile (ptab s i)) (set fds) (ofile (ptab t ni)) = inherit (ofile (ptab s i)) (set (fd # fds)) (ofile (ptab s ni))"
      using Some by (auto simp: inherit_def fun_eq_iff t_def)
    then have "ptab s' ni = (ptab s ni)\<lparr>ofile := inherit (ofile (ptab s i)) (set (fd # fds)) (ofile (ptab s ni))\<rparr>"
      unfolding IH(7) by (simp add: t_def)
    moreover have "frefs s' h = frefs s h + int (times_open (ofile (ptab s i)) (fd # fds) h)" for h
      using IH(6) Some by (auto simp: times_open_def t_def)
    ultimately show ?thesis using IH by blast
  qed
qed

text \<open>What \<open>kfork\<close> leaves in the slot of the child: its own id, its parent, the parent's size, directory, name and files; its mmap area is the parent's, or starts at address 0 when the parent has none; but the flag \<open>killed\<close> and the
  priority are what the slot held before.\<close>

definition child_of :: "nat \<Rightarrow> nat \<Rightarrow> kernel \<Rightarrow> kernel \<Rightarrow> bool" where
  "child_of i ni s s' \<longleftrightarrow> pstate (ptab s' ni) = RUNNABLE \<and> pid (ptab s' ni) = nextpid s \<and> parent (ptab s' ni) = Some i
     \<and> sz (ptab s' ni) = sz (ptab s i) \<and> cwd (ptab s' ni) = cwd (ptab s i) \<and> pname (ptab s' ni) = pname (ptab s i)
     \<and> (\<forall>fd<NOFILE. ofile (ptab s i) fd \<noteq> None \<longrightarrow> ofile (ptab s' ni) fd = ofile (ptab s i) fd)
     \<and> (\<forall>f. frefs s' f = frefs s f + int (times_open (ofile (ptab s i)) [0..<NOFILE] f))
     \<and> (\<forall>ip. irefs s' ip = irefs s ip + (if cwd (ptab s i) = Some ip then 1 else 0))
     \<and> pkilled (ptab s' ni) = pkilled (ptab s ni) \<and> priority (ptab s' ni) = priority (ptab s ni)
     \<and> (if has_mmap (ptab s i) then has_mmap (ptab s' ni) \<and> pmmap (ptab s' ni) = pmmap (ptab s i) else \<not> has_mmap (ptab s' ni) \<and> pmmap (ptab s' ni) = 0)"

text \<open>The three ways \<open>kfork\<close> ends.\<close>

definition forked :: "nat \<Rightarrow> kernel \<Rightarrow> int \<Rightarrow> kernel \<Rightarrow> bool" where
  "forked i s r s' \<longleftrightarrow> (case find_unused s of None \<Rightarrow> r = -1 \<and> s' = s
     | Some ni \<Rightarrow> (\<forall>j. j \<noteq> ni \<longrightarrow> ptab s' j = ptab s j) \<and> nextpid s' = nextpid s + 1 \<and> initproc s' = initproc s
         \<and> (r = -1 \<and> pstate (ptab s' ni) = UNUSED \<and> pid (ptab s' ni) = 0 \<and> parent (ptab s' ni) = None \<and> frefs s' = frefs s \<and> irefs s' = irefs s
            \<or> r = nextpid s \<and> child_of i ni s s'))"

lemma forked_failed:
  assumes "find_unused s = Some ni" "only_slot ni (s\<lparr>nextpid := nextpid s + 1\<rparr>) t" "freeproc ni t = Ret () s'"
  shows "forked i s (-1) s'"
  using assms(1,2) freeproc_slot [OF assms(3)] by (auto simp: forked_def only_slot_def)

lemma fork_image_ok:
  assumes "fork_image i ni s = Ret ok s'" "i \<noteq> ni"
  shows "only_slot ni s s'" "pid (ptab s' ni) = pid (ptab s ni)" "pkilled (ptab s' ni) = pkilled (ptab s ni)" "priority (ptab s' ni) = priority (ptab s ni)"
    "sz (ptab s' ni) = sz (ptab s i)"
    "if has_mmap (ptab s i) then has_mmap (ptab s' ni) \<and> pmmap (ptab s' ni) = pmmap (ptab s i)
     else has_mmap (ptab s' ni) = has_mmap (ptab s ni) \<and> pmmap (ptab s' ni) = pmmap (ptab s ni)"
  using assms by (auto simp: fork_image_def Let_def only_slot_def split: if_splits dest!: mem_op_Ret)

lemma fork_finish_ok:
  assumes f: "fork_finish i ni s = Ret r s'" and ne: "i \<noteq> ni"
  shows "(\<forall>j. j \<noteq> ni \<longrightarrow> ptab s' j = ptab s j) \<and> nextpid s' = nextpid s \<and> initproc s' = initproc s"
    "r = pid (ptab s ni)"
    "(pid (ptab s ni) = nextpid s0 \<and> sz (ptab s ni) = sz (ptab s i) \<and> ptab s i = ptab s0 i \<and> frefs s = frefs s0 \<and> irefs s = irefs s0
      \<and> pkilled (ptab s ni) = pkilled (ptab s0 ni) \<and> priority (ptab s ni) = priority (ptab s0 ni)
      \<and> (if has_mmap (ptab s i) then has_mmap (ptab s ni) \<and> pmmap (ptab s ni) = pmmap (ptab s i) else \<not> has_mmap (ptab s ni) \<and> pmmap (ptab s ni) = 0)) \<longrightarrow> child_of i ni s0 s'"
proof -
  obtain s7 where d: "dup_files i ni [0..<NOFILE] s = Ret () s7" and rest: "(case cwd (ptab s7 i) of None \<Rightarrow> Panic ''kerneltrap''
       | Some ip \<Rightarrow>
         let s = idup ip s7;
             s = upd ni (\<lambda>p. p\<lparr>cwd := Some ip, pname := pname (ptab s i)\<rparr>) s;
             s = upd ni (\<lambda>p. p\<lparr>parent := Some i\<rparr>) s;
             s = upd ni (\<lambda>p. p\<lparr>pstate := RUNNABLE\<rparr>) s
         in (Ret (pid (ptab s ni)) s :: (kernel, int) outcome)) = Ret r s'"
    using f unfolding fork_finish_def obind_unit by blast
  note D = dup_files_ok [OF d ne]
  have i7: "ptab s7 i = ptab s i" using ne D by auto
  obtain ip where ip: "cwd (ptab s i) = Some ip" using rest unfolding i7 by (auto split: option.splits)
  define s8 where "s8 = idup ip s7"
  have s8: "ptab s8 = ptab s7" "nextpid s8 = nextpid s7" "initproc s8 = initproc s7" "frefs s8 = frefs s7"
      "\<And>k. irefs s8 k = irefs s7 k + (if cwd (ptab s i) = Some k then 1 else 0)"
    using ip by (auto simp: s8_def idup_def)
  have e: "s' = upd ni (\<lambda>p. p\<lparr>pstate := RUNNABLE\<rparr>) (upd ni (\<lambda>p. p\<lparr>parent := Some i\<rparr>) (upd ni (\<lambda>p. p\<lparr>cwd := cwd (ptab s i), pname := pname (ptab s i)\<rparr>) s8))"
      "r = pid (ptab s7 ni)"
    using rest ne unfolding i7 ip option.case s8_def [symmetric] by (auto simp: Let_def s8(1) i7)
  have n7: "ptab s7 ni = (ptab s ni)\<lparr>ofile := inherit (ofile (ptab s i)) {0..<NOFILE} (ofile (ptab s ni))\<rparr>" using D by simp
  show "r = pid (ptab s ni)" using e(2) n7 by simp
  show "(\<forall>j. j \<noteq> ni \<longrightarrow> ptab s' j = ptab s j) \<and> nextpid s' = nextpid s \<and> initproc s' = initproc s"
    unfolding e(1) using D by (auto simp: s8)
  show "(pid (ptab s ni) = nextpid s0 \<and> sz (ptab s ni) = sz (ptab s i) \<and> ptab s i = ptab s0 i \<and> frefs s = frefs s0 \<and> irefs s = irefs s0
      \<and> pkilled (ptab s ni) = pkilled (ptab s0 ni) \<and> priority (ptab s ni) = priority (ptab s0 ni)
      \<and> (if has_mmap (ptab s i) then has_mmap (ptab s ni) \<and> pmmap (ptab s ni) = pmmap (ptab s i) else \<not> has_mmap (ptab s ni) \<and> pmmap (ptab s ni) = 0)) \<longrightarrow> child_of i ni s0 s'"
    unfolding child_of_def e(1) using n7 ne D i7 by (auto simp: s8 inherit_def)
qed

lemma kfork_forked:
  assumes "kfork tr fr i s = Ret r s'" "pstate (ptab s i) \<noteq> UNUSED"
  shows "forked i s r s'"
proof -
  obtain np s1 where a: "allocproc tr fr s = Ret np s1" using assms(1) by (auto simp: kfork_def obind_eq_Ret)
  note A = allocproc_slot [OF a]
  show ?thesis
  proof (cases np)
    case None
    then have "r = -1" "s' = s1" using assms(1) a by (auto simp: kfork_def)
    then show ?thesis using A None by (auto simp: forked_def only_slot_def)
  next
    case (Some ni)
    have F: "find_unused s = Some ni" and O: "only_slot ni (s\<lparr>nextpid := nextpid s + 1\<rparr>) s1" and S1: "pid (ptab s1 ni) = nextpid s"
      "pkilled (ptab s1 ni) = pkilled (ptab s ni)" "priority (ptab s1 ni) = priority (ptab s ni)" "\<not> has_mmap (ptab s1 ni)" "pmmap (ptab s1 ni) = 0" using A Some by simp_all
    have ne: "i \<noteq> ni" using find_unused_Some [OF F] assms(2) by auto
    obtain c m where C: "uvmcopy (pagetable (ptab s1 i)) (pagetable (ptab s1 ni)) (sz (ptab s1 i)) (km s1) = Ret c m"
      and K: "(if c < 0 then obind (freeproc ni (s1\<lparr>km := m\<rparr>)) (\<lambda>_ s. Ret (-1) s)
           else obind (fork_image i ni (s1\<lparr>km := m\<rparr>)) (\<lambda>ok s.
             if \<not> ok then obind (freeproc ni s) (\<lambda>_ s. Ret (-1) s) else fork_finish i ni s)) = Ret r s'"
      using assms(1) a Some by (auto simp: kfork_def obind_eq_Ret dest!: mem_op_Ret)
    define s2 where "s2 = s1\<lparr>km := m\<rparr>"
    have O2: "only_slot ni (s\<lparr>nextpid := nextpid s + 1\<rparr>) s2" using O by (simp add: only_slot_def s2_def)
    show ?thesis
    proof (cases "c < 0")
      case True
      then have "freeproc ni s2 = Ret () s'" "r = -1" using K by (auto simp: obind_unit s2_def)
      then show ?thesis using forked_failed [OF F O2] by simp
    next
      case False
      then obtain ok s6 where g: "fork_image i ni s2 = Ret ok s6" and K2: "(if \<not> ok then obind (freeproc ni s6) (\<lambda>_ s. Ret (-1) s) else fork_finish i ni s6) = Ret r s'"
        using K by (auto simp: obind_eq_Ret s2_def)
      note G = fork_image_ok [OF g ne]
      have O6: "only_slot ni (s\<lparr>nextpid := nextpid s + 1\<rparr>) s6" using O2 G(1) by (simp add: only_slot_def)
      show ?thesis
      proof (cases ok)
        case False
        then have "freeproc ni s6 = Ret () s'" "r = -1" using K2 by (auto simp: obind_unit)
        then show ?thesis using forked_failed [OF F O6] by simp
      next
        case True
        then have fin: "fork_finish i ni s6 = Ret r s'" using K2 by simp
        have "ptab s6 i = ptab s i" "ptab s2 i = ptab s i" using O6 O2 ne by (auto simp: only_slot_def)
        then have "child_of i ni s s'" using fork_finish_ok(3) [OF fin ne, of s] G S1 O6 by (simp add: s2_def only_slot_def)
        moreover have "r = nextpid s" using fork_finish_ok(2) [OF fin ne] G(2) S1(1) by (simp add: s2_def)
        ultimately show ?thesis using F fork_finish_ok(1) [OF fin ne] O6 by (simp add: forked_def only_slot_def)
      qed
    qed
  qed
qed

end
