(* ===== verification/Proc_Inv.thy ===== *)
theory Proc_Inv
  imports Proc_Props
begin

text \<open>
  The process table as a state machine: \<open>proc_step\<close> is one operation of one process or of the scheduler, and \<open>table_ok\<close> what holds in every state it reaches.
\<close>

section \<open>The invariant\<close>

definition live :: "proc \<Rightarrow> bool" where "live p \<longleftrightarrow> pstate p \<noteq> UNUSED"
definition active :: "proc \<Rightarrow> bool" where "active p \<longleftrightarrow> pstate p \<noteq> UNUSED \<and> pstate p \<noteq> ZOMBIE"

text \<open>A process that waits in \<open>kwait\<close> sleeps on its own address.\<close>

definition waiting :: "kernel \<Rightarrow> nat \<Rightarrow> bool" where
  "waiting s i \<longleftrightarrow> pstate (ptab s i) = SLEEPING \<and> wchan (ptab s i) = ChProc i"

definition ids_ok :: "kernel \<Rightarrow> bool" where
  "ids_ok s \<longleftrightarrow> 0 < nextpid s \<and> (\<forall>i. if live (ptab s i) then 0 < pid (ptab s i) \<and> pid (ptab s i) < nextpid s else pid (ptab s i) = 0 \<and> parent (ptab s i) = None)
     \<and> (\<forall>i j. live (ptab s i) \<and> live (ptab s j) \<and> pid (ptab s i) = pid (ptab s j) \<longrightarrow> i = j)"

definition parents_ok :: "kernel \<Rightarrow> bool" where
  "parents_ok s \<longleftrightarrow> (\<forall>i q. parent (ptab s i) = Some q \<longrightarrow> active (ptab s q) \<and> q \<noteq> i)
     \<and> (\<forall>n. initproc s = Some n \<longrightarrow> active (ptab s n) \<and> parent (ptab s n) = None)"

definition waits_ok :: "kernel \<Rightarrow> bool" where
  "waits_ok s \<longleftrightarrow> (\<forall>i j. waiting s i \<and> parent (ptab s j) = Some i \<longrightarrow> pstate (ptab s j) \<noteq> ZOMBIE)"

definition slots_ok :: "kernel \<Rightarrow> bool" where
  "slots_ok s \<longleftrightarrow> (\<forall>i. live (ptab s i) \<longrightarrow> i < NPROC)"

definition table_ok :: "kernel \<Rightarrow> bool" where
  "table_ok s \<longleftrightarrow> ids_ok s \<and> parents_ok s \<and> waits_ok s \<and> slots_ok s"

lemmas table_defs = table_ok_def ids_ok_def parents_ok_def waits_ok_def slots_ok_def

section \<open>Steps\<close>

inductive proc_step :: "nat \<Rightarrow> nat \<Rightarrow> kernel \<Rightarrow> kernel \<Rightarrow> bool" for tr fr where
  fork: "pstate (ptab s i) = RUNNING \<Longrightarrow> kfork tr fr i s = Ret r s' \<Longrightarrow> proc_step tr fr s s'"
| kill: "pstate (ptab s i) = RUNNING \<Longrightarrow> proc_step tr fr s (snd (kkill n s))"
| fault: "pstate (ptab s i) = RUNNING \<Longrightarrow> proc_step tr fr s (setkilled i s)"
| sleep: "pstate (ptab s i) = RUNNING \<Longrightarrow> proc_step tr fr s (sleep i (ChAddr c) s)"
| awake: "pstate (ptab s i) = RUNNING \<Longrightarrow> proc_step tr fr s (wake_up_in_sleep i s)"
| wakeup: "proc_step tr fr s (wakeup i (ChAddr c) s)"
| yield: "pstate (ptab s i) = RUNNING \<Longrightarrow> proc_step tr fr s (yield i s)"
| exit: "pstate (ptab s i) = RUNNING \<Longrightarrow> initproc s \<noteq> Some i \<Longrightarrow> proc_step tr fr s (exit_zombie i status s)"
| wait: "pstate (ptab s i) = RUNNING \<Longrightarrow> kwait i addr s = Ret r s' \<Longrightarrow> proc_step tr fr s s'"
| wait_sleep: "pstate (ptab s i) = RUNNING \<Longrightarrow> kwait i addr s = Sleep c s' \<Longrightarrow> proc_step tr fr s s'"
| wait2: "pstate (ptab s i) = RUNNING \<Longrightarrow> kwait2 i addr cnt s = Ret r s' \<Longrightarrow> proc_step tr fr s s'"
| wait2_sleep: "pstate (ptab s i) = RUNNING \<Longrightarrow> kwait2 i addr cnt s = Sleep c s' \<Longrightarrow> proc_step tr fr s s'"
| grow: "pstate (ptab s i) = RUNNING \<Longrightarrow> growproc i d s = Ret r s' \<Longrightarrow> proc_step tr fr s s'"
| schedule: "pstate (ptab s i) = RUNNABLE \<Longrightarrow> proc_step tr fr s (upd i (\<lambda>p. p\<lparr>pstate := RUNNING\<rparr>) s)"

text \<open>The table after \<open>userinit\<close>: the first process and nothing else.\<close>

definition booted :: "kernel \<Rightarrow> bool" where
  "booted s \<longleftrightarrow> nextpid s = 2 \<and> initproc s = Some 0 \<and> pstate (ptab s 0) = RUNNABLE \<and> pid (ptab s 0) = 1 \<and> parent (ptab s 0) = None
     \<and> (\<forall>i. i \<noteq> 0 \<longrightarrow> pstate (ptab s i) = UNUSED \<and> pid (ptab s i) = 0 \<and> parent (ptab s i) = None)"

inductive proc_reach :: "nat \<Rightarrow> nat \<Rightarrow> kernel \<Rightarrow> bool" for tr fr where
  boot: "booted s \<Longrightarrow> proc_reach tr fr s"
| step: "proc_reach tr fr s \<Longrightarrow> proc_step tr fr s s' \<Longrightarrow> proc_reach tr fr s'"

section \<open>Preservation\<close>

text \<open>Operations that neither create nor remove processes, and put none to sleep in \<open>kwait\<close>.\<close>

definition quiet :: "kernel \<Rightarrow> kernel \<Rightarrow> bool" where
  "quiet s s' \<longleftrightarrow> nextpid s' = nextpid s \<and> initproc s' = initproc s
     \<and> (\<forall>i. pid (ptab s' i) = pid (ptab s i) \<and> parent (ptab s' i) = parent (ptab s i) \<and> (pstate (ptab s' i) = UNUSED \<longleftrightarrow> pstate (ptab s i) = UNUSED)
          \<and> (pstate (ptab s' i) = ZOMBIE \<longleftrightarrow> pstate (ptab s i) = ZOMBIE) \<and> (waiting s' i \<longrightarrow> waiting s i))"

lemma quiet_table_ok:
  assumes "table_ok s" "quiet s s'"
  shows "table_ok s'"
proof -
  have q: "nextpid s' = nextpid s" "initproc s' = initproc s" "\<And>i. pid (ptab s' i) = pid (ptab s i)" "\<And>i. parent (ptab s' i) = parent (ptab s i)"
    "\<And>i. live (ptab s' i) = live (ptab s i)" "\<And>i. active (ptab s' i) = active (ptab s i)" "\<And>i. pstate (ptab s' i) = ZOMBIE \<longleftrightarrow> pstate (ptab s i) = ZOMBIE"
    "\<And>i. waiting s' i \<Longrightarrow> waiting s i"
    using assms(2) by (auto simp: quiet_def live_def active_def)
  have "ids_ok s'" "parents_ok s'" "slots_ok s'" using assms(1) by (simp_all add: table_defs q)
  moreover have "waits_ok s'" using assms(1) q(8) by (auto simp: table_ok_def waits_ok_def q(4) q(7))
  ultimately show ?thesis by (simp add: table_ok_def)
qed

lemma quiet_simple:
  "quiet s (snd (kkill n s))" "quiet s (setkilled i s)" "quiet s (wakeup i ch s)"
  "pstate (ptab s i) = RUNNING \<Longrightarrow> quiet s (sleep i (ChAddr c) s)" "pstate (ptab s i) = RUNNING \<Longrightarrow> quiet s (wake_up_in_sleep i s)"
  "pstate (ptab s i) = RUNNING \<Longrightarrow> quiet s (yield i s)" "pstate (ptab s i) = RUNNABLE \<Longrightarrow> quiet s (upd i (\<lambda>p. p\<lparr>pstate := RUNNING\<rparr>) s)"
  by (auto simp: quiet_def kkill_def setkilled_def wakeup_def sleep_def wake_up_in_sleep_def yield_def waiting_def split: option.splits)

lemma quiet_km: "quiet s (s\<lparr>km := m\<rparr>)"
  by (simp add: quiet_def waiting_def)

lemma quiet_growproc: "growproc i d s = Ret r s' \<Longrightarrow> quiet s s'"
  by (auto simp: growproc_def Let_def obind_eq_Ret quiet_def waiting_def split: if_splits dest!: mem_op_Ret)

text \<open>A new process in an unused slot.\<close>

lemma new_process_table_ok:
  assumes "table_ok s" "ni < NPROC" "pstate (ptab s ni) = UNUSED" "\<forall>j. j \<noteq> ni \<longrightarrow> ptab s' j = ptab s j" "nextpid s' = nextpid s + 1"
    "pstate (ptab s' ni) = RUNNABLE" "pid (ptab s' ni) = nextpid s" "parent (ptab s' ni) = None \<or> (\<exists>i. parent (ptab s' ni) = Some i \<and> active (ptab s i))"
    "initproc s' = initproc s \<or> initproc s' = Some ni \<and> parent (ptab s' ni) = None"
  shows "table_ok s'"
proof -
  have ids: "ids_ok s" and par: "parents_ok s" and w: "waits_ok s" and sl: "slots_ok s" using assms(1) by (simp_all add: table_ok_def)
  have o: "ptab s' j = ptab s j" if "j \<noteq> ni" for j using assms(4) that by blast
  have l: "live (ptab s' ni)" "active (ptab s' ni)" "\<not> live (ptab s ni)" "\<not> active (ptab s ni)" using assms(3,6) by (simp_all add: live_def active_def)
  have up: "active (ptab s' j)" if "active (ptab s j)" for j using o [of j] l that by (cases "j = ni") auto
  have new: "pid (ptab s j) < nextpid s" for j using ids by (auto simp: ids_ok_def split: if_splits)
  have "ids_ok s'"
    unfolding ids_ok_def
  proof (intro conjI allI impI)
    show "0 < nextpid s'" using ids assms(5) by (simp add: ids_ok_def)
    show "if live (ptab s' i) then 0 < pid (ptab s' i) \<and> pid (ptab s' i) < nextpid s' else pid (ptab s' i) = 0 \<and> parent (ptab s' i) = None" for i
    proof (cases "i = ni")
      case True then show ?thesis using l assms(5,7) ids by (simp add: ids_ok_def)
    next
      case False
      have "if live (ptab s i) then 0 < pid (ptab s i) \<and> pid (ptab s i) < nextpid s else pid (ptab s i) = 0 \<and> parent (ptab s i) = None"
        using ids unfolding ids_ok_def by blast
      then show ?thesis using o [OF False] assms(5) by (simp split: if_splits)
    qed
    show "i = j" if "live (ptab s' i) \<and> live (ptab s' j) \<and> pid (ptab s' i) = pid (ptab s' j)" for i j
      using that o [of i] o [of j] ids new [of i] new [of j] assms(7) unfolding ids_ok_def by (cases "i = ni"; cases "j = ni") auto
  qed
  moreover have "parents_ok s'"
    unfolding parents_ok_def
  proof (intro conjI allI impI)
    show "active (ptab s' q)" "q \<noteq> i" if "parent (ptab s' i) = Some q" for i q
      using that o [of i] par assms(8) up l(4) by (cases "i = ni"; auto simp: parents_ok_def)+
    show "active (ptab s' n)" "parent (ptab s' n) = None" if "initproc s' = Some n" for n
      using that assms(9) par up l o [of n] by (cases "n = ni"; auto simp: parents_ok_def)+
  qed
  moreover have "waits_ok s'"
    using w o assms(6) unfolding waits_ok_def waiting_def by (metis procstate.distinct)
  moreover have "slots_ok s'"
    using sl o assms(2) unfolding slots_ok_def by (metis)
  ultimately show ?thesis by (simp add: table_ok_def)
qed

text \<open>A zombie leaves, or a slot that was not in use is cleared.\<close>

lemma freed_table_ok:
  assumes "table_ok s" "\<not> active (ptab s k)" "only_slot k s s'" "pstate (ptab s' k) = UNUSED" "pid (ptab s' k) = 0" "parent (ptab s' k) = None"
  shows "table_ok s'"
proof -
  have ids: "ids_ok s" and par: "parents_ok s" and w: "waits_ok s" and sl: "slots_ok s" using assms(1) by (simp_all add: table_ok_def)
  have o: "ptab s' j = ptab s j" if "j \<noteq> k" for j using assms(3) that by (simp add: only_slot_def)
  have n: "nextpid s' = nextpid s" "initproc s' = initproc s" using assms(3) by (simp_all add: only_slot_def)
  have l: "\<not> live (ptab s' k)" using assms(4) by (simp add: live_def)
  have up: "active (ptab s' j)" if "active (ptab s j)" for j using o [of j] assms(2) that by (cases "j = k") auto
  have "ids_ok s'"
    unfolding ids_ok_def
  proof (intro conjI allI impI)
    show "0 < nextpid s'" using ids n by (simp add: ids_ok_def)
    show "if live (ptab s' i) then 0 < pid (ptab s' i) \<and> pid (ptab s' i) < nextpid s' else pid (ptab s' i) = 0 \<and> parent (ptab s' i) = None" for i
      using ids o [of i] l n assms(5,6) unfolding ids_ok_def by (cases "i = k") auto
    show "i = j" if "live (ptab s' i) \<and> live (ptab s' j) \<and> pid (ptab s' i) = pid (ptab s' j)" for i j
      using that o [of i] o [of j] ids l unfolding ids_ok_def by (cases "i = k"; cases "j = k") auto
  qed
  moreover have "parents_ok s'"
    unfolding parents_ok_def
  proof (intro conjI allI impI)
    show "active (ptab s' q)" "q \<noteq> i" if "parent (ptab s' i) = Some q" for i q
      using that o [of i] par assms(6) up by (cases "i = k"; auto simp: parents_ok_def)+
    show "active (ptab s' m)" "parent (ptab s' m) = None" if "initproc s' = Some m" for m
      using that par up n o [of m] assms(6) by (cases "m = k"; auto simp: parents_ok_def)+
  qed
  moreover have "waits_ok s'"
    using w o assms(4,6) unfolding waits_ok_def waiting_def by (metis procstate.distinct option.distinct(1))
  moreover have "slots_ok s'"
    using sl o l unfolding slots_ok_def by metis
  ultimately show ?thesis by (simp add: table_ok_def)
qed

lemma table_ok_nextpid:
  assumes "table_ok s"
  shows "table_ok (s\<lparr>nextpid := nextpid s + 1\<rparr>)"
proof -
  have "ids_ok s" "parents_ok s" "waits_ok s" "slots_ok s" using assms by (simp_all add: table_ok_def)
  moreover have "ids_ok (s\<lparr>nextpid := nextpid s + 1\<rparr>)"
    using \<open>ids_ok s\<close> unfolding ids_ok_def by (simp cong: if_cong) (metis less_imp_le)
  ultimately show ?thesis by (simp add: table_ok_def parents_ok_def waits_ok_def waiting_def slots_ok_def)
qed

lemma forked_table_ok:
  assumes "table_ok s" "forked i s r s'" "active (ptab s i)"
  shows "table_ok s'"
proof (cases "find_unused s")
  case None
  then show ?thesis using assms by (simp add: forked_def)
next
  case (Some ni)
  note f = find_unused_Some [OF Some]
  have F: "\<forall>j. j \<noteq> ni \<longrightarrow> ptab s' j = ptab s j" "nextpid s' = nextpid s + 1" "initproc s' = initproc s"
    using assms(2) Some by (simp_all add: forked_def)
  consider (fail) "pstate (ptab s' ni) = UNUSED" "pid (ptab s' ni) = 0" "parent (ptab s' ni) = None" "frefs s' = frefs s" "irefs s' = irefs s"
    | (ok) "child_of i ni s s'" using assms(2) Some by (auto simp: forked_def)
  then show ?thesis
  proof cases
    case fail
    then show ?thesis using freed_table_ok [OF table_ok_nextpid [OF assms(1)], of ni s'] F f by (simp add: only_slot_def active_def)
  next
    case ok
    then show ?thesis using new_process_table_ok [OF assms(1), of ni s'] F f assms(3) by (simp add: child_of_def)
  qed
qed

section \<open>Exit\<close>

lemma reparent_eq:
  assumes "initproc s \<noteq> Some i"
  shows "nextpid (reparent i js s) = nextpid s \<and> initproc (reparent i js s) = initproc s
    \<and> (\<forall>k. ptab (reparent i js s) k = (ptab s k)\<lparr>parent := (if k \<in> set js \<and> parent (ptab s k) = Some i then initproc s else parent (ptab s k)),
        pstate := (if (\<exists>j\<in>set js. parent (ptab s j) = Some i) \<and> k < NPROC \<and> k \<noteq> i \<and> pstate (ptab s k) = SLEEPING
                      \<and> (\<exists>n. initproc s = Some n \<and> wchan (ptab s k) = ChProc n) then RUNNABLE else pstate (ptab s k))\<rparr>)"
  using assms
proof (induction js arbitrary: s)
  case Nil
  then show ?case by simp
next
  case (Cons j js)
  show ?case
  proof (cases "parent (ptab s j) = Some i")
    case False
    have "reparent i (j # js) s = reparent i js s" using False by simp
    then show ?thesis using Cons.IH [OF Cons.prems] False by (auto)
  next
    case True
    define t where "t = (let s = upd j (\<lambda>p. p\<lparr>parent := initproc s\<rparr>) s in case initproc s of None \<Rightarrow> s | Some n \<Rightarrow> wakeup i (ChProc n) s)"
    have r: "reparent i (j # js) s = reparent i js t" using True by (simp add: t_def Let_def)
    have t: "initproc t = initproc s" "nextpid t = nextpid s"
      "\<And>k. ptab t k = (ptab s k)\<lparr>parent := (if k = j then initproc s else parent (ptab s k)),
        pstate := (if k < NPROC \<and> k \<noteq> i \<and> pstate (ptab s k) = SLEEPING \<and> (\<exists>n. initproc s = Some n \<and> wchan (ptab s k) = ChProc n) then RUNNABLE else pstate (ptab s k))\<rparr>"
      by (auto simp: t_def Let_def wakeup_def split: option.splits)
    have "initproc t \<noteq> Some i" using Cons.prems t by simp
    note IH = Cons.IH [OF this]
    show ?thesis unfolding r using IH Cons.prems True by (auto simp: t)
  qed
qed

lemma exit_zombie_eq:
  assumes "initproc s \<noteq> Some i" "parent (ptab s i) \<noteq> Some i" "\<forall>k. parent (ptab s k) = Some i \<longrightarrow> k < NPROC"
  shows "nextpid (exit_zombie i st s) = nextpid s \<and> initproc (exit_zombie i st s) = initproc s
    \<and> pstate (ptab (exit_zombie i st s) i) = ZOMBIE \<and> xstate (ptab (exit_zombie i st s) i) = st
    \<and> (\<forall>k. pid (ptab (exit_zombie i st s) k) = pid (ptab s k)
        \<and> parent (ptab (exit_zombie i st s) k) = (if parent (ptab s k) = Some i then initproc s else parent (ptab s k))
        \<and> wchan (ptab (exit_zombie i st s) k) = wchan (ptab s k)
        \<and> (k \<noteq> i \<longrightarrow> pstate (ptab (exit_zombie i st s) k) =
            (if k < NPROC \<and> pstate (ptab s k) = SLEEPING
                \<and> ((\<exists>j. parent (ptab s j) = Some i) \<and> (\<exists>n. initproc s = Some n \<and> wchan (ptab s k) = ChProc n)
                  \<or> (\<exists>q. parent (ptab s i) = Some q \<and> wchan (ptab s k) = ChProc q))
             then RUNNABLE else pstate (ptab s k))))"
proof -
  define t where "t = reparent i [0..<NPROC] s"
  have r: "nextpid t = nextpid s" "initproc t = initproc s"
    and rp: "\<And>k. parent (ptab t k) = (if parent (ptab s k) = Some i then initproc s else parent (ptab s k))"
    and rs: "\<And>k. pid (ptab t k) = pid (ptab s k)" "\<And>k. wchan (ptab t k) = wchan (ptab s k)"
    and rt: "\<And>k. pstate (ptab t k) = (if (\<exists>j. parent (ptab s j) = Some i) \<and> k < NPROC \<and> k \<noteq> i \<and> pstate (ptab s k) = SLEEPING
                      \<and> (\<exists>n. initproc s = Some n \<and> wchan (ptab s k) = ChProc n) then RUNNABLE else pstate (ptab s k))"
    using reparent_eq [OF assms(1), of "[0..<NPROC]"] assms(3) unfolding t_def by auto
  define u where "u = (case parent (ptab t i) of None \<Rightarrow> t | Some q \<Rightarrow> wakeup i (ChProc q) t)"
  have u: "nextpid u = nextpid t" "initproc u = initproc t"
    and us: "\<And>k. pid (ptab u k) = pid (ptab t k)" "\<And>k. wchan (ptab u k) = wchan (ptab t k)" "\<And>k. parent (ptab u k) = parent (ptab t k)"
    and ut: "\<And>k. pstate (ptab u k) = (if k < NPROC \<and> k \<noteq> i \<and> pstate (ptab t k) = SLEEPING \<and> (\<exists>q. parent (ptab t i) = Some q \<and> wchan (ptab t k) = ChProc q)
        then RUNNABLE else pstate (ptab t k))"
    by (auto simp: u_def wakeup_def split: option.splits)
  have e: "exit_zombie i st s = upd i (\<lambda>p. p\<lparr>xstate := st, pstate := ZOMBIE\<rparr>) u"
    unfolding exit_zombie_def Let_def u_def t_def by (rule refl)
  have pi: "parent (ptab t i) = parent (ptab s i)" using rp [of i] assms(2) by simp
  have last: "pstate (ptab (upd i (\<lambda>p. p\<lparr>xstate := st, pstate := ZOMBIE\<rparr>) u) k) =
            (if k < NPROC \<and> pstate (ptab s k) = SLEEPING
                \<and> ((\<exists>j. parent (ptab s j) = Some i) \<and> (\<exists>n. initproc s = Some n \<and> wchan (ptab s k) = ChProc n)
                  \<or> (\<exists>q. parent (ptab s i) = Some q \<and> wchan (ptab s k) = ChProc q))
             then RUNNABLE else pstate (ptab s k))" if k: "k \<noteq> i" for k
  proof -
    define a b where "a \<longleftrightarrow> (\<exists>j. parent (ptab s j) = Some i) \<and> (\<exists>n. initproc s = Some n \<and> wchan (ptab s k) = ChProc n)"
      and "b \<longleftrightarrow> (\<exists>q. parent (ptab s i) = Some q \<and> wchan (ptab s k) = ChProc q)"
    have "pstate (ptab t k) = (if k < NPROC \<and> pstate (ptab s k) = SLEEPING \<and> a then RUNNABLE else pstate (ptab s k))"
      using rt [of k] k unfolding a_def by (simp add: conj_ac)
    moreover have "pstate (ptab u k) = (if k < NPROC \<and> pstate (ptab t k) = SLEEPING \<and> b then RUNNABLE else pstate (ptab t k))"
      using ut [of k] k unfolding b_def pi rs by simp
    ultimately show ?thesis unfolding a_def [symmetric] b_def [symmetric] using k by simp
  qed
  show ?thesis unfolding e using last by (simp add: u us r rs rp)
qed

lemma exit_table_ok:
  assumes "table_ok s" "pstate (ptab s i) = RUNNING" "initproc s \<noteq> Some i"
  shows "table_ok (exit_zombie i st s)"
proof -
  have ids: "ids_ok s" and par: "parents_ok s" and w: "waits_ok s" and sl: "slots_ok s" using assms(1) by (simp_all add: table_ok_def)
  have own: "parent (ptab s i) \<noteq> Some i" using par by (auto simp: parents_ok_def)
  have kids: "k < NPROC" if "parent (ptab s k) = Some q" for k q
  proof -
    have "live (ptab s k)" using ids that unfolding ids_ok_def by (metis option.distinct(1))
    then show ?thesis using sl by (simp add: slots_ok_def)
  qed
  define s' where "s' = exit_zombie i st s"
  have E: "nextpid s' = nextpid s" "initproc s' = initproc s" "pstate (ptab s' i) = ZOMBIE" "\<And>k. pid (ptab s' k) = pid (ptab s k)"
    "\<And>k. parent (ptab s' k) = (if parent (ptab s k) = Some i then initproc s else parent (ptab s k))" "\<And>k. wchan (ptab s' k) = wchan (ptab s k)"
    "\<And>k. k \<noteq> i \<Longrightarrow> pstate (ptab s' k) = (if k < NPROC \<and> pstate (ptab s k) = SLEEPING
                \<and> ((\<exists>j. parent (ptab s j) = Some i) \<and> (\<exists>n. initproc s = Some n \<and> wchan (ptab s k) = ChProc n)
                  \<or> (\<exists>q. parent (ptab s i) = Some q \<and> wchan (ptab s k) = ChProc q)) then RUNNABLE else pstate (ptab s k))"
    using exit_zombie_eq [OF assms(3) own, of st] kids unfolding s'_def by auto
  have l: "live (ptab s' k) = live (ptab s k)" for k using E(3) E(7) [of k] assms(2) by (cases "k = i") (auto simp: live_def)
  have a: "active (ptab s' k) = active (ptab s k)" if "k \<noteq> i" for k using E(7) [OF that] by (auto simp: active_def)
  have "ids_ok s'"
  proof -
    have "parent (ptab s' k) = None" if "\<not> live (ptab s k)" for k using ids that E(5) [of k] by (simp add: ids_ok_def)
    then show ?thesis using ids unfolding ids_ok_def by (simp add: E(1,4) l cong: if_cong)
  qed
  moreover have "parents_ok s'"
    unfolding parents_ok_def
  proof (intro conjI allI impI)
    show "active (ptab s' q)" "q \<noteq> k" if "parent (ptab s' k) = Some q" for k q
      using that par assms(3) a [of q] unfolding E(5) parents_ok_def by (auto split: if_splits)
    show "active (ptab s' n)" "parent (ptab s' n) = None" if "initproc s' = Some n" for n
      using that par assms(3) a [of n] E(2) E(5) [of n] unfolding parents_ok_def by auto
  qed
  moreover have "waits_ok s'"
    unfolding waits_ok_def
  proof (intro allI impI notI)
    fix q k assume h: "waiting s' q \<and> parent (ptab s' k) = Some q" and z: "pstate (ptab s' k) = ZOMBIE"
    have qi: "q \<noteq> i" using h E(3) by (auto simp: waiting_def)
    have st: "pstate (ptab s' q) = SLEEPING" "wchan (ptab s q) = ChProc q" using h E(6) by (auto simp: waiting_def)
    have wq: "pstate (ptab s q) = SLEEPING" using st E(7) [OF qi] by (auto split: if_splits)
    have qn: "q < NPROC" using sl wq by (simp add: slots_ok_def live_def)
    have no: "\<not> ((\<exists>j. parent (ptab s j) = Some i) \<and> initproc s = Some q)" "parent (ptab s i) \<noteq> Some q"
      using st E(7) [OF qi] wq qn by (auto split: if_splits)
    show False
    proof (cases "k = i")
      case True
      then show False using h E(5) [of i] own no by simp
    next
      case False
      then have zk: "pstate (ptab s k) = ZOMBIE" using z E(7) [OF False] by (auto split: if_splits)
      have "parent (ptab s k) = Some q" using h E(5) [of k] no by (auto split: if_splits)
      then show False using w wq st zk by (auto simp: waits_ok_def waiting_def)
    qed
  qed
  moreover have "slots_ok s'" using sl by (simp add: slots_ok_def l)
  ultimately show ?thesis unfolding s'_def by (simp add: table_ok_def)
qed

section \<open>Wait\<close>

definition zombie_child :: "nat \<Rightarrow> kernel \<Rightarrow> nat \<Rightarrow> bool" where
  "zombie_child i s j \<longleftrightarrow> parent (ptab s j) = Some i \<and> pstate (ptab s j) = ZOMBIE"

definition reap2 :: "nat \<Rightarrow> nat \<Rightarrow> nat \<Rightarrow> nat \<Rightarrow> kernel \<Rightarrow> (kernel, int) outcome" where
  "reap2 i status cnt j s =
     (let n = pid (ptab s j)
      in obind (copy_int i status (xstate (ptab s j)) s) (\<lambda>r s.
           if r < 0 then Ret (-1) s
           else obind (copy_int i cnt (countp (ptab s j)) s) (\<lambda>r s.
             if r < 0 then Ret (-1) s else obind (freeproc j s) (\<lambda>_ s. Ret n s))))"

text \<open>What \<open>wait\<close> promises: the first child that has exited is reaped; without one, a process with children sleeps unless it was killed.\<close>

definition wait_spec :: "nat \<Rightarrow> nat \<Rightarrow> nat \<Rightarrow> kernel \<Rightarrow> (kernel, int) outcome" where
  "wait_spec i status cnt s =
     (case find (zombie_child i s) [0..<NPROC] of Some j \<Rightarrow> reap2 i status cnt j s
      | None \<Rightarrow> if (\<exists>j<NPROC. parent (ptab s j) = Some i) \<and> \<not> killed i s then Sleep i (sleep i (ChProc i) s) else Ret (-1) s)"

lemma obind_if: "obind (if c then x else y) f = (if c then obind x f else obind y f)"
  by simp

lemma obind_cong_fun: "(\<And>a t. f a t = g a t) \<Longrightarrow> obind m f = obind m g"
  by (cases m) auto

lemma wait2_scan_eq:
  "wait2_scan i status cnt js b s =
     (case find (zombie_child i s) js of Some j \<Rightarrow> obind (reap2 i status cnt j s) (\<lambda>n s. Ret (Inl n) s)
      | None \<Rightarrow> Ret (Inr (b \<or> (\<exists>j\<in>set js. parent (ptab s j) = Some i))) s)"
proof (induction js arbitrary: b)
  case Nil
  then show ?case by simp
next
  case (Cons j js)
  show ?case
  proof (cases "zombie_child i s j")
    case True
    then have "wait2_scan i status cnt (j # js) b s = obind (reap2 i status cnt j s) (\<lambda>n s. Ret (Inl n) s)"
      by (simp add: zombie_child_def reap2_def Let_def obind_assoc obind_if) (auto simp: obind_assoc intro!: obind_cong_fun)
    then show ?thesis using True by simp
  next
    case False
    then have "wait2_scan i status cnt (j # js) b s = wait2_scan i status cnt js (b \<or> parent (ptab s j) = Some i) s"
      by (auto simp: zombie_child_def)
    then show ?thesis using False Cons.IH by (auto split: option.splits)
  qed
qed

lemma copy_int_null: "copy_int i 0 w s = Ret 0 s"
  by (simp add: copy_int_def)

lemma wait_scan_eq: "wait_scan i addr js b s = wait2_scan i addr 0 js b s"
  by (induction js arbitrary: b) (auto simp: copy_int_null Let_def intro!: obind_cong_fun)

lemma kwait2_eq: "kwait2 i status cnt s = wait_spec i status cnt s"
proof (cases "find (zombie_child i s) [0..<NPROC]")
  case None
  then show ?thesis by (auto simp: kwait2_def wait2_scan_eq wait_spec_def)
next
  case (Some j)
  then show ?thesis by (simp add: kwait2_def wait2_scan_eq wait_spec_def obind_assoc obind_Ret_right)
qed

lemma kwait_eq: "kwait i addr s = kwait2 i addr 0 s"
  by (simp add: kwait_def kwait2_def wait_scan_eq)

lemma copy_int_km: "copy_int i a w s = Ret r s' \<Longrightarrow> \<exists>m. s' = s\<lparr>km := m\<rparr>"
  by (auto simp: copy_int_def split: if_splits dest!: mem_op_Ret intro: exI [of _ "km s"])

text \<open>A reaping either stops at a failed copy or frees the slot of the child.\<close>

lemma reap2_cases:
  assumes "reap2 i status cnt j s = Ret r s'"
  shows "\<exists>m. r = -1 \<and> s' = s\<lparr>km := m\<rparr> \<or> r = pid (ptab s j) \<and> freeproc j (s\<lparr>km := m\<rparr>) = Ret () s'"
proof -
  obtain r1 s1 where c1: "copy_int i status (xstate (ptab s j)) s = Ret r1 s1"
    and k: "(if r1 < 0 then Ret (-1) s1 else obind (copy_int i cnt (countp (ptab s1 j)) s1) (\<lambda>r t.
             if r < 0 then Ret (-1) t else obind (freeproc j t) (\<lambda>_ t. Ret (pid (ptab s j)) t))) = Ret r s'"
    using assms by (auto simp: reap2_def Let_def obind_eq_Ret)
  obtain m1 where m1: "s1 = s\<lparr>km := m1\<rparr>" using copy_int_km [OF c1] by blast
  show ?thesis
  proof (cases "r1 < 0")
    case True
    then show ?thesis using k m1 by auto
  next
    case False
    then obtain r2 s2 where c2: "copy_int i cnt (countp (ptab s1 j)) s1 = Ret r2 s2"
      and k2: "(if r2 < 0 then Ret (-1) s2 else obind (freeproc j s2) (\<lambda>_ t. Ret (pid (ptab s j)) t)) = Ret r s'"
      using k by (auto simp: obind_eq_Ret)
    obtain m2 where m2: "s2 = s\<lparr>km := m2\<rparr>" using copy_int_km [OF c2] m1 by auto
    show ?thesis using k2 m2 by (auto simp: obind_unit split: if_splits)
  qed
qed

lemma wait_table_ok:
  assumes "table_ok s" "kwait2 i status cnt s = Ret r s'"
  shows "table_ok s'"
proof (cases "find (zombie_child i s) [0..<NPROC]")
  case None
  then have "s' = s" using assms(2) by (auto simp: kwait2_eq wait_spec_def split: if_splits)
  then show ?thesis using assms(1) by simp
next
  case (Some j)
  then have z: "pstate (ptab s j) = ZOMBIE" by (auto simp: zombie_child_def dest: find_SomeD)
  from Some obtain m where m: "s' = s\<lparr>km := m\<rparr> \<or> freeproc j (s\<lparr>km := m\<rparr>) = Ret () s'"
    using assms(2) reap2_cases [of i status cnt j s r s'] by (auto simp: kwait2_eq wait_spec_def)
  have t: "table_ok (s\<lparr>km := m\<rparr>)" using quiet_table_ok [OF assms(1) quiet_km] .
  from m show ?thesis
  proof
    assume f: "freeproc j (s\<lparr>km := m\<rparr>) = Ret () s'"
    show ?thesis using freed_table_ok [OF t _ freeproc_slot(1-4) [OF f]] z by (simp add: active_def)
  qed (use t in simp)
qed

text \<open>Memory operations never sleep.\<close>

lemma reap2_not_sleep: "reap2 i status cnt j s \<noteq> Sleep c s'"
proof -
  have "awake (reap2 i status cnt j s)" unfolding reap2_def Let_def by (intro awake_intros) simp_all
  then show ?thesis by auto
qed

lemma wait_sleep_table_ok:
  assumes "table_ok s" "kwait2 i status cnt s = Sleep c s'" "pstate (ptab s i) = RUNNING"
  shows "table_ok s'"
proof -
  have n: "find (zombie_child i s) [0..<NPROC] = None \<and> s' = sleep i (ChProc i) s"
  proof (cases "find (zombie_child i s) [0..<NPROC]")
    case None
    then show ?thesis using assms(2) by (auto simp: kwait2_eq wait_spec_def split: if_splits)
  next
    case (Some j)
    then show ?thesis using assms(2) reap2_not_sleep by (simp add: kwait2_eq wait_spec_def)
  qed
  have ids: "ids_ok s" and par: "parents_ok s" and w: "waits_ok s" and sl: "slots_ok s" using assms(1) by (simp_all add: table_ok_def)
  have p: "ptab s' k = (if k = i then (ptab s i)\<lparr>wchan := ChProc i, pstate := SLEEPING\<rparr> else ptab s k)" for k using n by (simp add: sleep_def)
  have a: "live (ptab s' k) = live (ptab s k)" "active (ptab s' k) = active (ptab s k)" "pid (ptab s' k) = pid (ptab s k)" "parent (ptab s' k) = parent (ptab s k)" for k
    using assms(3) by (simp_all add: p live_def active_def)
  have b: "nextpid s' = nextpid s" "initproc s' = initproc s" using n by (simp_all add: sleep_def)
  have kids: "\<not> zombie_child i s k" for k
  proof
    assume z: "zombie_child i s k"
    then have "k < NPROC" using sl by (simp add: slots_ok_def zombie_child_def live_def)
    then show False using n z by (auto simp: find_None_iff)
  qed
  have "waits_ok s'"
    unfolding waits_ok_def
  proof (intro allI impI)
    fix q k assume h: "waiting s' q \<and> parent (ptab s' k) = Some q"
    show "pstate (ptab s' k) \<noteq> ZOMBIE"
    proof (cases "q = i")
      case True
      then show ?thesis using h kids [of k] unfolding a by (auto simp: p zombie_child_def)
    next
      case False
      then have "waiting s q" using h by (simp add: waiting_def p)
      then show ?thesis using w h unfolding a by (auto simp: waits_ok_def p)
    qed
  qed
  moreover have "ids_ok s'" "parents_ok s'" "slots_ok s'" using ids par sl by (simp_all add: ids_ok_def parents_ok_def slots_ok_def a b)
  ultimately show ?thesis by (simp add: table_ok_def)
qed

section \<open>Every reachable table\<close>

lemma proc_step_table_ok:
  assumes "proc_step tr fr s s'" "table_ok s"
  shows "table_ok s'"
  using assms
proof (induction rule: proc_step.induct)
  case (fork s i r s')
  then show ?case using forked_table_ok [OF _ kfork_forked] by (simp add: active_def)
next
  case (exit s i status)
  then show ?case using exit_table_ok by blast
next
  case (wait s i addr r s')
  then show ?case using wait_table_ok by (simp add: kwait_eq)
next
  case (wait_sleep s i addr c s')
  then show ?case using wait_sleep_table_ok by (simp add: kwait_eq)
next
  case (wait2 s i addr cnt r s')
  then show ?case using wait_table_ok by blast
next
  case (wait2_sleep s i addr cnt c s')
  then show ?case using wait_sleep_table_ok by blast
next
  case (grow s i d r s')
  then show ?case using quiet_table_ok quiet_growproc by blast
qed (blast intro: quiet_table_ok quiet_simple)+

lemma find_unused_0: "pstate (ptab s 0) = UNUSED \<Longrightarrow> find_unused s = Some 0"
  unfolding find_unused_def by (subst upt_conv_Cons) (simp_all add: NPROC_def)

lemma userinit_booted:
  assumes z: "\<forall>i. pstate (ptab s i) = UNUSED \<and> pid (ptab s i) = 0 \<and> parent (ptab s i) = None" and n: "nextpid s = 1"
    and u: "userinit tr fr root (procinit s) = Ret () s'"
  shows "booted s'"
proof -
  define t where "t = procinit s"
  have P: "pstate (ptab t i) = UNUSED \<and> pid (ptab t i) = 0 \<and> parent (ptab t i) = None" for i
    using z by (simp add: t_def procinit_def)
  have N: "nextpid t = 1" using n by (simp add: t_def procinit_def)
  obtain i s1 where a: "allocproc tr fr t = Ret (Some i) s1" and e: "s' = upd i (\<lambda>p. p\<lparr>cwd := root, pstate := RUNNABLE\<rparr>) (s1\<lparr>initproc := Some i\<rparr>)"
    using u unfolding userinit_def t_def [symmetric] by (auto simp: obind_eq_Ret split: option.splits)
  have A: "find_unused t = Some i" "pid (ptab s1 i) = nextpid t" "nextpid s1 = nextpid t + 1" "parent (ptab s1 i) = parent (ptab t i)"
    "only_slot i (t\<lparr>nextpid := nextpid t + 1\<rparr>) s1"
    using allocproc_slot [OF a] by simp_all
  have "i = 0" using A(1) find_unused_0 [of t] P [of 0] by simp
  then show ?thesis using A P N unfolding e by (simp add: booted_def only_slot_def)
qed

lemma booted_table_ok:
  assumes "booted s"
  shows "table_ok s"
proof -
  have b: "live (ptab s i) \<longleftrightarrow> i = 0" "active (ptab s i) \<longleftrightarrow> i = 0" "parent (ptab s i) = None" "pid (ptab s i) = (if i = 0 then 1 else 0)" for i
    using assms by (cases "i = 0"; simp add: booted_def live_def active_def)+
  show ?thesis using assms unfolding table_defs waiting_def by (simp add: b NPROC_def booted_def)
qed

lemma proc_reach_table_ok: "proc_reach tr fr s \<Longrightarrow> table_ok s"
  by (induction rule: proc_reach.induct) (blast intro: booted_table_ok proc_step_table_ok)+

end
