(* ===== verification/Proc_Claims.thy ===== *)
theory Proc_Claims
  imports Proc_Inv
begin

text \<open>What the process table promises, with a small concrete table to show that the hypotheses can hold.\<close>

section \<open>Kill and the process id zero\<close>

lemma kkill_zero:
  assumes "ids_ok s" "find_unused s = Some ni"
  shows "kkill 0 s = (0, upd ni (\<lambda>p. p\<lparr>pkilled := True, pstate := (if pstate p = SLEEPING then RUNNABLE else pstate p)\<rparr>) s)"
    "find_unused (snd (kkill 0 s)) = Some ni"
proof -
  have "(\<lambda>i. pid (ptab s i) = 0) = (\<lambda>i. pstate (ptab s i) = UNUSED)"
    using assms(1) unfolding ids_ok_def live_def by (metis less_irrefl)
  then have k: "find (\<lambda>i. pid (ptab s i) = 0) [0..<NPROC] = Some ni" using assms(2) by (simp add: find_unused_def)
  then show e: "kkill 0 s = (0, upd ni (\<lambda>p. p\<lparr>pkilled := True, pstate := (if pstate p = SLEEPING then RUNNABLE else pstate p)\<rparr>) s)"
    by (simp add: kkill_def)
  have "pstate (ptab (snd (kkill 0 s)) i) = UNUSED \<longleftrightarrow> pstate (ptab s i) = UNUSED" for i by (simp add: e)
  then show "find_unused (snd (kkill 0 s)) = Some ni" using assms(2) by (simp add: find_unused_def)
qed

section \<open>Turns of the scheduler\<close>

definition ready :: "nat \<Rightarrow> int \<Rightarrow> kernel \<Rightarrow> bool" where
  "ready i q s \<longleftrightarrow> pstate (ptab s i) = RUNNABLE \<and> priority (ptab s i) = q"

text \<open>Process \<open>i\<close> never gives up the processor but to yield it, and nobody changes its priority.\<close>

definition stays_ready :: "nat \<Rightarrow> int \<Rightarrow> (nat \<Rightarrow> kernel \<Rightarrow> kernel) \<Rightarrow> bool" where
  "stays_ready i q run \<longleftrightarrow> (\<forall>j s. j \<noteq> i \<longrightarrow> ready i q s \<longrightarrow> ready i q (run j s)) \<and> (\<forall>s. priority (ptab s i) = q \<longrightarrow> ready i q (run i s))"

lemma sched_level_turns:
  assumes "stays_ready i q run" "ready i q s"
  shows "count_list (fst (sched_level run c js s)) i = (if q \<ge> c then count_list js i else 0) \<and> ready i q (snd (sched_level run c js s))"
  using assms(2)
proof (induction js arbitrary: s)
  case Nil
  then show ?case by simp
next
  case (Cons j js)
  define t where "t = run j (upd j (\<lambda>p. p\<lparr>pstate := RUNNING\<rparr>) s)"
  have t: "ready i q t"
    using assms(1) Cons.prems unfolding stays_ready_def t_def by (cases "j = i") (simp_all add: ready_def)
  show ?case
    using Cons.IH [OF t] Cons.IH [OF Cons.prems] Cons.prems unfolding sched_level.simps t_def [symmetric]
    by (auto simp: ready_def split: prod.splits)
qed

lemma count_upt: "i < n \<Longrightarrow> count_list [0..<n] i = 1"
  by (simp add: count_list_eq_length_filter distinct_length_filter Int_absorb1)

lemma sched_round_turns:
  assumes f: "stays_ready i q run" and "ready i q s" "i < NPROC"
  shows "count_list (fst (sched_round run s)) i = nat (min 3 q + 1)"
proof -
  obtain r3 s3 where l3: "sched_level run 3 [0..<NPROC] s = (r3, s3)" by fastforce
  obtain r2 s2 where l2: "sched_level run 2 [0..<NPROC] s3 = (r2, s2)" by fastforce
  obtain r1 s1 where l1: "sched_level run 1 [0..<NPROC] s2 = (r1, s1)" by fastforce
  obtain r0 s0 where l0: "sched_level run 0 [0..<NPROC] s1 = (r0, s0)" by fastforce
  have c: "count_list [0..<NPROC] i = 1" using count_upt assms(3) by simp
  have 3: "count_list r3 i = (if q \<ge> 3 then 1 else 0)" "ready i q s3" using sched_level_turns [OF f assms(2), of 3 "[0..<NPROC]"] l3 c by simp_all
  have 2: "count_list r2 i = (if q \<ge> 2 then 1 else 0)" "ready i q s2" using sched_level_turns [OF f 3(2), of 2 "[0..<NPROC]"] l2 c by simp_all
  have 1: "count_list r1 i = (if q \<ge> 1 then 1 else 0)" "ready i q s1" using sched_level_turns [OF f 2(2), of 1 "[0..<NPROC]"] l1 c by simp_all
  have 0: "count_list r0 i = (if q \<ge> 0 then 1 else 0)" using sched_level_turns [OF f 1(2), of 0 "[0..<NPROC]"] l0 c by simp
  have "fst (sched_round run s) = r3 @ r2 @ r1 @ r0" by (simp add: sched_round_def l3 l2 l1 l0)
  then show ?thesis using 3(1) 2(1) 1(1) 0 by (simp split: if_splits)
qed

section \<open>A small table\<close>

definition p_free :: proc where
  "p_free = \<lparr>pstate = UNUSED, wchan = NoChan, pkilled = False, xstate = 0, pid = 0, parent = None, kstack = 0, sz = 0, pagetable = 0, trapframe = 0,
     ctx_ra = 0, ctx_sp = 0, ofile = Map.empty, cwd = None, pname = [], stracing = False, countp = 0, priority = 0, nice_lv = 0, pmmap = 0, has_mmap = False\<rparr>"

definition k_boot :: kernel where
  "k_boot = \<lparr>ptab = (\<lambda>i. if i = 0 then p_free\<lparr>pstate := RUNNABLE, pid := 1\<rparr> else p_free),
     km = \<lparr>pmem = (\<lambda>_. 0), freelist = 0, ref_count = (\<lambda>_. 0)\<rparr>, nextpid = 2, initproc = Some 0, frefs = (\<lambda>_. 0), irefs = (\<lambda>_. 0)\<rparr>"

definition k_run :: kernel where "k_run = upd 0 (\<lambda>p. p\<lparr>pstate := RUNNING\<rparr>) k_boot"

lemma k_run_reach: "proc_reach tr fr k_run"
  unfolding k_run_def
proof (rule proc_reach.step [OF proc_reach.boot])
  show "booted k_boot" by (simp add: booted_def k_boot_def p_free_def)
  show "proc_step tr fr k_boot (upd 0 (\<lambda>p. p\<lparr>pstate := RUNNING\<rparr>) k_boot)"
    by (rule proc_step.schedule) (simp add: k_boot_def)
qed

lemma k_run_slot: "find_unused k_run = Some 1"
  unfolding find_unused_def NPROC_def by (simp add: upt_conv_Cons k_run_def k_boot_def p_free_def)

lemma process_ids_k_run: "ids_ok k_run"
  using proc_reach_table_ok [OF k_run_reach] by (simp add: table_ok_def)

section \<open>Properties\<close>



text \<open>C22. No exit is missed: in every reachable state, a process that sleeps in \<open>kwait\<close> or \<open>kwait2\<close> has no child that has exited, whichever of the two went
  to sleep or exited first, and also when the children of an exiting process pass to the first process.\<close>

theorem exits_are_noticed:
  assumes "proc_reach tr fr s"
  shows "waits_ok s"
  using proc_reach_table_ok [OF assms] by (simp add: table_ok_def)

theorem exits_are_noticed_witness: "waits_ok k_run"
  using exits_are_noticed [OF k_run_reach] .

text \<open>C23. \<open>kwait2\<close> is its specification, and \<open>kwait\<close> is \<open>kwait2\<close> without a counter: the first child that has exited is reaped; without one, a process with children sleeps
  unless it was killed; otherwise the result is -1.\<close>

theorem wait_refines_spec:
  "kwait2 i status cnt s = wait_spec i status cnt s \<and> kwait i status s = wait_spec i status 0 s"
  by (simp add: kwait2_eq kwait_eq)




text \<open>C25. \<open>kkill\<close> of process id 0 does not fail: it marks the first unused slot as killed, and the next process, which is made there, is born killed.\<close>

theorem kill_zero_dooms_next_child:
  assumes "ids_ok s" "find_unused s = Some ni"
  shows "fst (kkill 0 s) = 0 \<and> killed ni (snd (kkill 0 s)) \<and> pstate (ptab (snd (kkill 0 s)) ni) = UNUSED
    \<and> (\<forall>tr fr i r s'. pstate (ptab s i) \<noteq> UNUSED \<longrightarrow> kfork tr fr i (snd (kkill 0 s)) = Ret r s' \<longrightarrow> r = -1 \<or> r = pid (ptab s' ni) \<and> killed ni s')"
proof (intro conjI allI impI)
  note k = kkill_zero [OF assms]
  have u: "pstate (ptab s ni) = UNUSED" using find_unused_Some [OF assms(2)] by simp
  show "fst (kkill 0 s) = 0" "killed ni (snd (kkill 0 s))" "pstate (ptab (snd (kkill 0 s)) ni) = UNUSED" using u by (simp_all add: k(1) killed_def)
  fix tr fr i r s'
  assume i: "pstate (ptab s i) \<noteq> UNUSED" and f: "kfork tr fr i (snd (kkill 0 s)) = Ret r s'"
  have "i \<noteq> ni" using i u by blast
  then have "pstate (ptab (snd (kkill 0 s)) i) \<noteq> UNUSED" using i by (simp add: k(1))
  then have "forked i (snd (kkill 0 s)) r s'" using kfork_forked [OF f] by blast
  then have "r = -1 \<or> r = nextpid s \<and> child_of i ni (snd (kkill 0 s)) s'" using k by (auto simp: forked_def)
  then show "r = -1 \<or> r = pid (ptab s' ni) \<and> killed ni s'" by (auto simp: child_of_def killed_def k(1))
qed

theorem kill_zero_dooms_next_child_witness: "fst (kkill 0 k_run) = 0 \<and> killed 1 (snd (kkill 0 k_run))"
  using kill_zero_dooms_next_child [of k_run 1] k_run_slot process_ids_k_run by blast

end
