(* ===== verification/Syscall_Props.thy ===== *)
theory Syscall_Props
  imports Syscall Proc_Claims Vm_Props
begin

text \<open>System calls together with the components they call: \<open>nice\<close> and the scheduler, \<open>sbrk\<close> and page faults, \<open>mmap\<close> and page tables.\<close>

section \<open>Registers\<close>

lemma reg_set_same: "reg off i (set_reg off i v s) = v mod 2 ^ 64"
  by (simp add: reg_def set_reg_def ldn_stn_same)

lemma reg_set_other: "off + 8 \<le> off' \<or> off' + 8 \<le> off \<Longrightarrow> reg off i (set_reg off' i v s) = reg off i s"
  by (simp add: reg_def set_reg_def ldn_stn_apart)

lemma set_reg_fields [simp]: "ptab (set_reg off i v s) = ptab s"
  by (simp add: set_reg_def)

text \<open>What the dispatcher leaves in the registers of the process, and in its count of calls.\<close>

lemma syscall_result:
  assumes "to_int (reg A7_OFFSET i s) > 0" "syscalls (to_int (reg A7_OFFSET i s)) = Some f" "f i s = Ret (Value v) s'"
  shows "\<exists>t. syscall syscalls i s = Ret None t \<and> reg A0_OFFSET i t = nat (v mod 2 ^ 64) \<and> countp (ptab t i) = countp (ptab s' i) + 1"
proof -
  define t where "t = upd i (\<lambda>p. p\<lparr>countp := countp p + 1\<rparr>) (set_reg A0_OFFSET i (nat (v mod 2 ^ 64)) s')"
  have "syscall syscalls i s = Ret None t" using assms by (simp add: syscall_def Let_def t_def)
  moreover have "reg A0_OFFSET i t = nat (v mod 2 ^ 64)"
  proof -
    have "reg A0_OFFSET i t = reg A0_OFFSET i (set_reg A0_OFFSET i (nat (v mod 2 ^ 64)) s')" by (simp add: reg_def t_def)
    also have "\<dots> = nat (v mod 2 ^ 64) mod 2 ^ 64" by (rule reg_set_same)
    also have "\<dots> = nat (v mod 2 ^ 64)" by (rule mod_less) (simp add: nat_less_iff)
    finally show ?thesis .
  qed
  moreover have "countp (ptab t i) = countp (ptab s' i) + 1" by (simp add: t_def)
  ultimately show ?thesis by blast
qed

section \<open>Walking a table that has the entry\<close>

lemma walk_loop_found: "walk_loop l t va False s = Ret a s' \<Longrightarrow> a \<noteq> 0 \<Longrightarrow> walk_loop l t va True s = Ret a s'"
  by (induction l arbitrary: t) (auto simp: Let_def split: if_splits)

lemma map_present:
  assumes "as_ok P s refs r d1 d0" "va < MAXVA" "va mod PGSIZE = 0" "has PTE_V (pte_of s r va)"
  shows "mappages r va PGSIZE pa perm s = Panic ''mappages: remap''"
proof -
  obtain a where a: "walk r va False s = Ret a s" "a = 0 \<and> pte_of s r va = 0 \<or> a \<noteq> 0 \<and> get_pte s a = pte_of s r va"
    using walk_entry [OF assms(1,2)] by blast
  have ne: "a \<noteq> 0" "get_pte s a = pte_of s r va" using a(2) assms(4) by auto
  have "walk r va True s = Ret a s" using a(1) ne(1) assms(2) walk_loop_found by (simp add: walk_def)
  then show ?thesis using assms(3,4) ne by (simp add: mappages_def PGSIZE_def)
qed

section \<open>Properties\<close>



text \<open>C29. The lazy branch of \<open>sbrk\<close> has no bound but that of 64 bits: it makes a process larger than the largest virtual address, and a page fault
  above that address, which the size admits, is then not an error of the process but a panic of the kernel.\<close>

theorem lazy_sbrk_unbounded:
  assumes "to_int (reg A0_OFFSET i s) = n" "0 \<le> n" "to_int (reg (A0_OFFSET + 8) i s) \<noteq> SBRK_EAGER"
    and "MAXVA \<le> va" "va < sz (ptab s i) + nat n" "sz (ptab s i) + nat n < 2 ^ 64"
  shows "\<exists>s'. sys_sbrk i s = Ret (Value (int (sz (ptab s i)))) s' \<and> sz (ptab s' i) = sz (ptab s i) + nat n \<and> km s' = km s
    \<and> vmfault (uproc_of (ptab s' i)) (pagetable (ptab s' i)) va (km s') = Panic ''walk''"
proof -
  define s' where "s' = upd i (\<lambda>p. p\<lparr>sz := (sz p + nat n) mod 2 ^ 64\<rparr>) s"
  have "sys_sbrk i s = Ret (Value (int (sz (ptab s i)))) s'"
    using assms by (simp add: sys_sbrk_def argint_def argraw_def Let_def s'_def)
  moreover have sz: "sz (ptab s' i) = sz (ptab s i) + nat n" "km s' = km s" using assms(6) by (simp_all add: s'_def)
  moreover have "MAXVA \<le> PGROUNDDOWN va" using assms(4) by (simp add: MAXVA_def PGROUNDDOWN_def PGSIZE_def)
  then have "ismapped (pagetable (ptab s' i)) (PGROUNDDOWN va) (km s') = Panic ''walk''" by (simp add: ismapped_def walk_def)
  then have "vmfault (uproc_of (ptab s' i)) (pagetable (ptab s' i)) va (km s') = Panic ''walk''"
    using assms(5) sz by (simp add: vmfault_def uproc_of_def Let_def)
  ultimately show ?thesis by blast
qed

definition k_big :: kernel where
  "k_big = set_reg (A0_OFFSET + 8) 0 2 (set_reg A0_OFFSET 0 4096 (upd 0 (\<lambda>p. p\<lparr>sz := MAXVA\<rparr>) k_run))"

theorem lazy_sbrk_unbounded_witness:
  "\<exists>s'. sys_sbrk 0 k_big = Ret (Value (int MAXVA)) s' \<and> vmfault (uproc_of (ptab s' 0)) (pagetable (ptab s' 0)) MAXVA (km s') = Panic ''walk''"
proof -
  have r: "reg A0_OFFSET 0 k_big = 4096" "reg (A0_OFFSET + 8) 0 k_big = 2"
    unfolding k_big_def by (simp_all add: reg_set_same reg_set_other)
  have "sz (ptab k_big 0) = MAXVA" by (simp add: k_big_def)
  then show ?thesis using lazy_sbrk_unbounded [of 0 k_big 4096 MAXVA] r by (auto simp: to_int_def SBRK_EAGER_def MAXVA_def)
qed

text \<open>C30. A process whose mmap area starts at address 0, as that of a child does whose parent has not called \<open>mmap\<close>, and whose first page is mapped,
  brings the kernel down with its first call of \<open>mmap\<close>.\<close>

theorem mmap_at_zero_panics:
  assumes "as_ok P (km s) refs (pagetable (ptab s i)) d1 d0" "pmmap (ptab s i) = 0" "has PTE_V (pte_of (km s) (pagetable (ptab s i)) 0)" "fst (kalloc (km s)) \<noteq> 0"
  shows "sys_mmap i s = Panic ''mappages: remap''"
proof -
  obtain pa m where k: "kalloc (km s) = (pa, m)" by fastforce
  then have pa: "pa \<noteq> 0" using assms(4) by simp
  note F = fresh_page [OF assms(1) k pa]
  have "has PTE_V (pte_of (zero_page pa m) (pagetable (ptab s i)) 0)" using F(2) assms(3) by simp
  from map_present [OF F(1) _ _ this] have "mappages (pagetable (ptab s i)) 0 PGSIZE pa (PTE_R OR PTE_W OR PTE_U) (zero_page pa m) = Panic ''mappages: remap''"
    by (simp add: MAXVA_def)
  then show ?thesis using assms(2) k pa by (simp add: sys_mmap_def Let_def mem_op_def)
qed

definition k_child :: kernel where
  "k_child = upd 0 (\<lambda>p. p\<lparr>pagetable := vmR\<rparr>) (k_run\<lparr>km := vm0\<rparr>)"

theorem mmap_at_zero_panics_witness: "sys_mmap 0 k_child = Panic ''mappages: remap''"
proof -
  have "has PTE_V (pte_of vm0 vmR 0)"
    using vm0_pte_of(2) [of 0] user_perm(3) [of vmU] vm_is_page [of vmU] by (simp add: vmP_def MAXVA_def PGSIZE_def)
  moreover have "fst (kalloc vm0) \<noteq> 0"
    by (simp add: kalloc_def vm0_def set_pte_def vm_pages KERNBASE_def Let_def)
  ultimately show ?thesis
    using mmap_at_zero_panics [of vmP k_child vm_owners 0 vm_d1 vm_d0] vm0_as_ok(1) by (simp add: k_child_def k_run_def k_boot_def p_free_def)
qed

end
