(* ===== verification/Sh.thy ===== *)
theory Sh
  imports CString
begin

text \<open>
  The parser of the shell, \<^verbatim>\<open>user/sh.c\<close>. A line is a NUL-terminated string in memory; a token or word is a pair of pointers into it, as in the code.
  A parser reads memory \<open>m\<close> up to \<open>es\<close> and threads the pointer \<open>s\<close> as its state; \<open>panic\<close>, which prints and exits, is the outcome \<open>Panic\<close>.
  The recursive routines carry fuel; \<open>parsecmd\<close> gives them enough, so that \<open>Diverge\<close> never comes out of it. Nodes of the tree are values: \<open>malloc\<close> is taken to find room for them.
  \<open>parseexec\<close> adds arguments to a node that redirections may already wrap, so it keeps arguments and redirections apart until the node is complete.
\<close>

section \<open>Commands\<close>

definition MAXARGS :: nat where "MAXARGS = 16"

definition O_RDONLY :: int where "O_RDONLY = 0x000"
definition O_WRONLY :: int where "O_WRONLY = 0x001"
definition O_CREATE :: int where "O_CREATE = 0x200"
definition O_TRUNC :: int where "O_TRUNC = 0x400"

datatype cmd =
    Execcmd "(nat \<times> nat) list"
  | Redircmd cmd nat nat int int
  | Pipecmd cmd cmd
  | Listcmd cmd cmd
  | Backcmd cmd

section \<open>Tokens\<close>

definition whitespace :: "byte list" where "whitespace = [32, 9, 13, 10, 11]"
definition symbols :: "byte list" where "symbols = [60, 124, 62, 38, 59, 40, 41]"

function skip_space :: "mem \<Rightarrow> nat \<Rightarrow> nat \<Rightarrow> nat" where
  "skip_space m es s = (if s < es \<and> m s \<in> set whitespace then skip_space m es (s + 1) else s)"
  by auto
termination
  by (relation "measure (\<lambda>(m, es, s). es - s)") auto

declare skip_space.simps [simp del]

function skip_word :: "mem \<Rightarrow> nat \<Rightarrow> nat \<Rightarrow> nat" where
  "skip_word m es s = (if s < es \<and> m s \<notin> set whitespace \<and> m s \<notin> set symbols then skip_word m es (s + 1) else s)"
  by auto
termination
  by (relation "measure (\<lambda>(m, es, s). es - s)") auto

declare skip_word.simps [simp del]

text \<open>The kind of the token, its two ends, and where the next one starts. The kinds are characters, \<open>a\<close> for a word and \<open>+\<close> for \<open>>>\<close>.\<close>

definition gettoken :: "mem \<Rightarrow> nat \<Rightarrow> nat \<Rightarrow> byte \<times> nat \<times> nat \<times> nat" where
  "gettoken m es s =
     (let s = skip_space m es s;
          q = s;
          (ret, s) =
            (if m s = 0 then (0, s)
             else if m s = 124 \<or> m s = 40 \<or> m s = 41 \<or> m s = 59 \<or> m s = 38 \<or> m s = 60 then (m s, s + 1)
             else if m s = 62 then (if m (s + 1) = 62 then (43, s + 2) else (62, s + 1))
             else (97, skip_word m es s))
      in (ret, q, s, skip_space m es s))"

definition peek :: "mem \<Rightarrow> nat \<Rightarrow> byte list \<Rightarrow> nat \<Rightarrow> (nat, bool) outcome" where
  "peek m es toks s = (let s = skip_space m es s in Ret (m s \<noteq> 0 \<and> m s \<in> set toks) s)"

text \<open>\<open>gettoken\<close> as a step of the parser.\<close>

definition token :: "mem \<Rightarrow> nat \<Rightarrow> nat \<Rightarrow> (nat, byte \<times> nat \<times> nat) outcome" where
  "token m es s = (let (ret, q, eq, s) = gettoken m es s in Ret (ret, q, eq) s)"

section \<open>Parsing\<close>

definition redir_of :: "byte \<Rightarrow> nat \<Rightarrow> nat \<Rightarrow> nat \<times> nat \<times> int \<times> int" where
  "redir_of tok q eq =
     (if tok = 60 then (q, eq, O_RDONLY, 0)
      else if tok = 62 then (q, eq, O_WRONLY + O_CREATE + O_TRUNC, 1)
      else (q, eq, O_WRONLY + O_CREATE, 1))"

fun redirs :: "(nat \<times> nat \<times> int \<times> int) list \<Rightarrow> cmd \<Rightarrow> cmd" where
  "redirs [] c = c"
| "redirs ((q, eq, mode, fd) # rs) c = redirs rs (Redircmd c q eq mode fd)"

fun parseredirs :: "nat \<Rightarrow> mem \<Rightarrow> nat \<Rightarrow> nat \<Rightarrow> (nat, (nat \<times> nat \<times> int \<times> int) list) outcome" where
  "parseredirs 0 m es s = Diverge"
| "parseredirs (Suc n) m es s =
     obind (peek m es [60, 62] s) (\<lambda>b s.
       if b then
         obind (token m es s) (\<lambda>(tok, _, _) s.
         obind (token m es s) (\<lambda>(w, q, eq) s.
           if w \<noteq> 97 then Panic ''missing file for redirection''
           else obind (parseredirs n m es s) (\<lambda>rs s. Ret (redir_of tok q eq # rs) s)))
       else Ret [] s)"

text \<open>The loop of \<open>parseexec\<close>, with the arguments and redirections found so far.\<close>

fun exec_loop :: "nat \<Rightarrow> mem \<Rightarrow> nat \<Rightarrow> (nat \<times> nat) list \<Rightarrow> (nat \<times> nat \<times> int \<times> int) list \<Rightarrow> nat \<Rightarrow> (nat, cmd) outcome" where
  "exec_loop 0 m es args rs s = Diverge"
| "exec_loop (Suc n) m es args rs s =
     obind (peek m es [124, 41, 38, 59] s) (\<lambda>b s.
       if b then Ret (redirs rs (Execcmd args)) s
       else obind (token m es s) (\<lambda>(tok, q, eq) s.
         if tok = 0 then Ret (redirs rs (Execcmd args)) s
         else if tok \<noteq> 97 then Panic ''syntax''
         else if length args + 1 \<ge> MAXARGS then Panic ''too many args''
         else obind (parseredirs n m es s) (\<lambda>rs' s. exec_loop n m es (args @ [(q, eq)]) (rs @ rs') s)))"

fun back_loop :: "nat \<Rightarrow> mem \<Rightarrow> nat \<Rightarrow> cmd \<Rightarrow> nat \<Rightarrow> (nat, cmd) outcome" where
  "back_loop 0 m es c s = Diverge"
| "back_loop (Suc n) m es c s =
     obind (peek m es [38] s) (\<lambda>b s.
       if b then obind (token m es s) (\<lambda>_ s. back_loop n m es (Backcmd c) s) else Ret c s)"

fun parseline :: "nat \<Rightarrow> mem \<Rightarrow> nat \<Rightarrow> nat \<Rightarrow> (nat, cmd) outcome"
  and parsepipe :: "nat \<Rightarrow> mem \<Rightarrow> nat \<Rightarrow> nat \<Rightarrow> (nat, cmd) outcome"
  and parseblock :: "nat \<Rightarrow> mem \<Rightarrow> nat \<Rightarrow> nat \<Rightarrow> (nat, cmd) outcome"
  and parseexec :: "nat \<Rightarrow> mem \<Rightarrow> nat \<Rightarrow> nat \<Rightarrow> (nat, cmd) outcome" where
  "parseline 0 m es s = Diverge"
| "parseline (Suc n) m es s =
     obind (parsepipe n m es s) (\<lambda>c s.
     obind (back_loop n m es c s) (\<lambda>c s.
     obind (peek m es [59] s) (\<lambda>b s.
       if b then obind (token m es s) (\<lambda>_ s. obind (parseline n m es s) (\<lambda>d s. Ret (Listcmd c d) s))
       else Ret c s)))"
| "parsepipe 0 m es s = Diverge"
| "parsepipe (Suc n) m es s =
     obind (parseexec n m es s) (\<lambda>c s.
     obind (peek m es [124] s) (\<lambda>b s.
       if b then obind (token m es s) (\<lambda>_ s. obind (parsepipe n m es s) (\<lambda>d s. Ret (Pipecmd c d) s))
       else Ret c s))"
| "parseblock 0 m es s = Diverge"
| "parseblock (Suc n) m es s =
     obind (peek m es [40] s) (\<lambda>b s.
       if \<not> b then Panic ''parseblock''
       else obind (token m es s) (\<lambda>_ s.
            obind (parseline n m es s) (\<lambda>c s.
            obind (peek m es [41] s) (\<lambda>b s.
              if \<not> b then Panic ''syntax - missing )''
              else obind (token m es s) (\<lambda>_ s.
                   obind (parseredirs n m es s) (\<lambda>rs s. Ret (redirs rs c) s))))))"
| "parseexec 0 m es s = Diverge"
| "parseexec (Suc n) m es s =
     obind (peek m es [40] s) (\<lambda>b s.
       if b then parseblock n m es s
       else obind (parseredirs n m es s) (\<lambda>rs s. exec_loop n m es [] rs s))"

text \<open>NUL-terminating all strings of the command.\<close>

fun put_nul :: "(nat \<times> nat) list \<Rightarrow> mem \<Rightarrow> mem" where
  "put_nul [] m = m"
| "put_nul ((q, eq) # args) m = put_nul args (m(eq := 0))"

fun nulterminate :: "cmd \<Rightarrow> mem \<Rightarrow> mem" where
  "nulterminate (Execcmd args) m = put_nul args m"
| "nulterminate (Redircmd c q eq mode fd) m = (nulterminate c m)(eq := 0)"
| "nulterminate (Pipecmd l r) m = nulterminate r (nulterminate l m)"
| "nulterminate (Listcmd l r) m = nulterminate r (nulterminate l m)"
| "nulterminate (Backcmd c) m = nulterminate c m"

text \<open>The command, and the memory its strings are in.\<close>

definition parsecmd :: "mem \<Rightarrow> nat \<Rightarrow> (mem, cmd) outcome" where
  "parsecmd m s =
     (case strlen m s of None \<Rightarrow> Diverge
      | Some n \<Rightarrow>
        let es = s + n
        in case obind (parseline (4 * n + 8) m es s) (\<lambda>c s. obind (peek m es [] s) (\<lambda>_ s. if s \<noteq> es then Panic ''syntax'' else Ret c s)) of
             Ret c _ \<Rightarrow> Ret c (nulterminate c m) | Panic e \<Rightarrow> Panic e | Sleep c _ \<Rightarrow> Sleep c m | Diverge \<Rightarrow> Diverge)"

section \<open>One line of the main loop\<close>

text \<open>What the shell does with a line: nothing, change directory to a path, or run what the child parses.\<close>

datatype action = Skip | Chdir nat | Run "(mem, cmd) outcome"

partial_function (option) skip_blanks :: "mem \<Rightarrow> nat \<Rightarrow> nat option" where
  "skip_blanks m cmd = (if m cmd = 32 \<or> m cmd = 9 then skip_blanks m (cmd + 1) else Some cmd)"

definition sh_line :: "mem \<Rightarrow> nat \<Rightarrow> (action \<times> mem) option" where
  "sh_line m buf =
     (case skip_blanks m buf of None \<Rightarrow> None
      | Some cmd \<Rightarrow>
        if m cmd = 10 then Some (Skip, m)
        else if m cmd = 35 then Some (Skip, m)
        else if m cmd = 99 \<and> m (cmd + 1) = 100 \<and> m (cmd + 2) = 32
        then (case strlen m cmd of None \<Rightarrow> None | Some n \<Rightarrow> Some (Chdir (cmd + 3), m(cmd + n - 1 := 0)))
        else Some (Run (parsecmd m cmd), m))"

end
