(* ===== verification/Sh_Props.thy ===== *)
theory Sh_Props
  imports Sh
begin

text \<open>
  The grammar of command lines: a printer of syntax trees, that the parser reads back what it prints, and that the parser stops on every line.
\<close>

section \<open>Token level\<close>

datatype tok = Word "byte list" | Sym byte | Append

fun tbytes :: "tok \<Rightarrow> byte list" where
  "tbytes (Word w) = w"
| "tbytes (Sym c) = [c]"
| "tbytes Append = [62, 62]"

fun tkind :: "tok \<Rightarrow> byte" where
  "tkind (Word w) = 97"
| "tkind (Sym c) = c"
| "tkind Append = 43"

definition word_ok :: "byte list \<Rightarrow> bool" where
  "word_ok w \<longleftrightarrow> w \<noteq> [] \<and> (\<forall>c\<in>set w. c \<noteq> 0 \<and> c \<notin> set whitespace \<and> c \<notin> set symbols)"

fun tok_ok :: "tok \<Rightarrow> bool" where
  "tok_ok (Word w) = word_ok w"
| "tok_ok (Sym c) = (c \<in> set symbols)"
| "tok_ok Append = True"

definition render :: "tok list \<Rightarrow> byte list" where
  "render ts = concat (map (\<lambda>t. tbytes t @ [32]) ts)"

lemma render_simps [simp]: "render [] = []" "render (t # ts) = tbytes t @ 32 # render ts"
  by (simp_all add: render_def)

text \<open>The text from \<open>s\<close> to \<open>es\<close> is that of the tokens.\<close>

definition remains :: "mem \<Rightarrow> nat \<Rightarrow> nat \<Rightarrow> tok list \<Rightarrow> bool" where
  "remains m es s ts \<longleftrightarrow> bytes_at m s (render ts) \<and> es = s + length (render ts) \<and> m es = 0 \<and> (\<forall>t\<in>set ts. tok_ok t)"

lemma bytes_at_append: "bytes_at m a (xs @ ys) \<longleftrightarrow> bytes_at m a xs \<and> bytes_at m (a + length xs) ys"
proof (induction xs arbitrary: a)
  case Nil
  then show ?case by simp
next
  case (Cons x xs)
  then show ?case by (simp add: add.commute)
qed

lemma tok_first:
  assumes "tok_ok t"
  shows "\<exists>c cs. tbytes t = c # cs \<and> c \<noteq> 0 \<and> c \<notin> set whitespace"
  using assms by (cases t) (auto simp: word_ok_def neq_Nil_conv symbols_def whitespace_def)

lemma remains_ConsD:
  assumes "remains m es s (t # ts)"
  shows "bytes_at m s (tbytes t)" "m (s + length (tbytes t)) = 32" "s + length (tbytes t) < es" "remains m es (s + length (tbytes t) + 1) ts"
    "tok_ok t" "m s = hd (tbytes t)" "m s \<noteq> 0" "m s \<notin> set whitespace"
proof -
  show b: "bytes_at m s (tbytes t)" and "m (s + length (tbytes t)) = 32" "s + length (tbytes t) < es" "remains m es (s + length (tbytes t) + 1) ts"
    and k: "tok_ok t"
    using assms by (auto simp: remains_def bytes_at_append)
  show "m s = hd (tbytes t)" "m s \<noteq> 0" "m s \<notin> set whitespace" using tok_first [OF k] b by auto
qed

lemma skip_space_at:
  assumes "remains m es s ts"
  shows "skip_space m es s = s"
proof (cases ts)
  case Nil
  then show ?thesis using assms by (subst skip_space.simps) (simp add: remains_def)
next
  case (Cons t us)
  then show ?thesis using remains_ConsD(8) assms by (subst skip_space.simps) simp
qed

lemma skip_space_after:
  assumes "m s = 32" "s < es" "remains m es (s + 1) ts"
  shows "skip_space m es s = s + 1"
  using assms(1,2) skip_space_at [OF assms(3)] by (subst skip_space.simps) (simp add: whitespace_def)

lemma peek_remains:
  assumes "remains m es s ts"
  shows "peek m es cs s = Ret (case ts of [] \<Rightarrow> False | t # _ \<Rightarrow> hd (tbytes t) \<in> set cs) s"
proof (cases ts)
  case Nil
  then have "m s = 0" using assms by (auto simp: remains_def)
  then show ?thesis using Nil skip_space_at [OF assms] by (simp add: peek_def)
next
  case (Cons t us)
  then show ?thesis using skip_space_at [OF assms] remains_ConsD(6,7) [of m es s t us] assms by (simp add: peek_def)
qed

lemma skip_word_at:
  assumes "\<forall>c\<in>set w. c \<notin> set whitespace \<and> c \<notin> set symbols" "bytes_at m s w" "m (s + length w) = 32" "s + length w < es"
  shows "skip_word m es s = s + length w"
  using assms
proof (induction w arbitrary: s)
  case Nil
  then show ?case by (subst skip_word.simps) (simp add: whitespace_def)
next
  case (Cons c w)
  then show ?case by (subst skip_word.simps) auto
qed

lemma token_remains:
  assumes "remains m es s (t # ts)"
  shows "token m es s = Ret (tkind t, s, s + length (tbytes t)) (s + length (tbytes t) + 1)"
proof -
  note R = remains_ConsD [OF assms]
  have sk: "skip_space m es s = s" using skip_space_at [OF assms] .
  have nx: "skip_space m es (s + length (tbytes t)) = s + length (tbytes t) + 1" using skip_space_after [OF R(2,3,4)] .
  show ?thesis
  proof (cases t)
    case (Word w)
    have ok: "w \<noteq> []" "\<forall>c\<in>set w. c \<notin> set whitespace \<and> c \<notin> set symbols" using R(5) Word by (auto simp: word_ok_def)
    have "m s \<notin> set symbols" "m s \<noteq> 0" using R(6,7) Word ok by (auto simp: neq_Nil_conv)
    moreover have "skip_word m es s = s + length w" using skip_word_at [OF ok(2)] R(1-3) Word by simp
    ultimately show ?thesis using sk nx Word by (simp add: token_def gettoken_def Let_def symbols_def)
  next
    case (Sym c)
    then have "c \<in> set symbols" "m s = c" "m (s + 1) = 32" using R(1,2,5) by simp_all
    then show ?thesis using sk nx Sym by (auto simp: token_def gettoken_def Let_def symbols_def)
  next
    case Append
    then have "m s = 62" "m (s + 1) = 62" using R(1) by simp_all
    then show ?thesis using sk nx Append by (simp add: token_def gettoken_def Let_def)
  qed
qed

lemma token_end:
  assumes "remains m es s []"
  shows "token m es s = Ret (0, s, s) s"
proof -
  have "m s = 0" "skip_space m es s = s" using assms skip_space_at [OF assms] by (auto simp: remains_def)
  then show ?thesis by (simp add: token_def gettoken_def Let_def)
qed

section \<open>Syntax trees and their text\<close>

datatype rkind = In | Out | Add

datatype syn = SExec "byte list list" | SRedir syn rkind "byte list" | SPipe syn syn | SList syn syn | SBack syn

fun rtok :: "rkind \<Rightarrow> tok" where
  "rtok In = Sym 60" | "rtok Out = Sym 62" | "rtok Add = Append"

fun rmode :: "rkind \<Rightarrow> int \<times> int" where
  "rmode In = (O_RDONLY, 0)" | "rmode Out = (O_WRONLY + O_CREATE + O_TRUNC, 1)" | "rmode Add = (O_WRONLY + O_CREATE, 1)"

definition paren :: "bool \<Rightarrow> tok list \<Rightarrow> tok list" where
  "paren b ts = (if b then Sym 40 # ts @ [Sym 41] else ts)"

text \<open>Levels: 0 where the code calls \<open>parseexec\<close>, 1 \<open>parsepipe\<close>, 2 before a \<open>&\<close>, 3 \<open>parseline\<close>.\<close>

fun toks :: "nat \<Rightarrow> syn \<Rightarrow> tok list" where
  "toks lv (SExec ws) = map Word ws"
| "toks lv (SRedir c k f) = toks 0 c @ [rtok k, Word f]"
| "toks lv (SPipe l r) = paren (lv < 1) (toks 0 l @ [Sym 124] @ toks 1 r)"
| "toks lv (SBack c) = paren (lv < 2) (toks 2 c @ [Sym 38])"
| "toks lv (SList l r) = paren (lv < 3) (toks 2 l @ [Sym 59] @ toks 3 r)"

text \<open>Words of the line, and no more arguments than a command can have.\<close>

fun syn_ok :: "syn \<Rightarrow> bool" where
  "syn_ok (SExec ws) = (length ws < MAXARGS \<and> (\<forall>w\<in>set ws. word_ok w))"
| "syn_ok (SRedir c k f) = (syn_ok c \<and> word_ok f)"
| "syn_ok (SPipe l r) = (syn_ok l \<and> syn_ok r)"
| "syn_ok (SBack c) = syn_ok c"
| "syn_ok (SList l r) = (syn_ok l \<and> syn_ok r)"

lemma toks_ok: "syn_ok c \<Longrightarrow> \<forall>t\<in>set (toks lv c). tok_ok t"
proof (induction c arbitrary: lv)
  case (SRedir c k f)
  then show ?case by (cases k) (auto simp: symbols_def)
qed (auto simp: paren_def symbols_def)

section \<open>What a tree of the parser stands for\<close>

definition word_at :: "mem \<Rightarrow> nat \<times> nat \<Rightarrow> byte list \<Rightarrow> bool" where
  "word_at m a w \<longleftrightarrow> (case a of (q, eq) \<Rightarrow> bytes_at m q w \<and> eq = q + length w \<and> m eq = 32 \<and> word_ok w)"

fun redir_at :: "mem \<Rightarrow> nat \<times> nat \<times> int \<times> int \<Rightarrow> rkind \<times> byte list \<Rightarrow> bool" where
  "redir_at m r (k, f) \<longleftrightarrow> word_at m (fst r, fst (snd r)) f \<and> snd (snd r) = rmode k"

fun denotes :: "mem \<Rightarrow> cmd \<Rightarrow> syn \<Rightarrow> bool" where
  "denotes m (Execcmd args) (SExec ws) = list_all2 (word_at m) args ws"
| "denotes m (Redircmd c q eq mode fd) (SRedir d k f) = (denotes m c d \<and> redir_at m (q, eq, mode, fd) (k, f))"
| "denotes m (Pipecmd l r) (SPipe l' r') = (denotes m l l' \<and> denotes m r r')"
| "denotes m (Listcmd l r) (SList l' r') = (denotes m l l' \<and> denotes m r r')"
| "denotes m (Backcmd c) (SBack d) = denotes m c d"
| "denotes m _ _ = False"

fun sredirs :: "(rkind \<times> byte list) list \<Rightarrow> syn \<Rightarrow> syn" where
  "sredirs [] c = c"
| "sredirs ((k, f) # rs) c = sredirs rs (SRedir c k f)"

lemma denotes_redirs:
  "list_all2 (redir_at m) R rs \<Longrightarrow> denotes m t c \<Longrightarrow> denotes m (redirs R t) (sredirs rs c)"
proof (induction R arbitrary: rs t c)
  case (Cons r R)
  then obtain k f rs' where rs: "rs = (k, f) # rs'" by (cases rs) auto
  obtain q eq mode fd where r: "r = (q, eq, mode, fd)" by (cases r)
  have "denotes m (Redircmd t q eq mode fd) (SRedir c k f)" using Cons.prems rs r by simp
  moreover have "list_all2 (redir_at m) R rs'" using Cons.prems(1) rs by simp
  ultimately have "denotes m (redirs R (Redircmd t q eq mode fd)) (sredirs rs' (SRedir c k f))" by (rule Cons.IH [rotated])
  then show ?case unfolding rs r redirs.simps sredirs.simps .
qed simp

definition rtoks :: "(rkind \<times> byte list) list \<Rightarrow> tok list" where
  "rtoks rs = concat (map (\<lambda>(k, f). [rtok k, Word f]) rs)"

lemma rtoks_simps [simp]: "rtoks [] = []" "rtoks ((k, f) # rs) = rtok k # Word f # rtoks rs"
  by (simp_all add: rtoks_def)

definition begins :: "byte list \<Rightarrow> tok list \<Rightarrow> bool" where
  "begins cs ts \<longleftrightarrow> (case ts of [] \<Rightarrow> False | t # _ \<Rightarrow> hd (tbytes t) \<in> set cs)"

lemma peek_begins: "remains m es s ts \<Longrightarrow> peek m es cs s = Ret (begins cs ts) s"
  using peek_remains by (simp add: begins_def)

lemma begins_simps [simp]: "\<not> begins cs []" "begins cs (Sym c # ts) \<longleftrightarrow> c \<in> set cs" "begins cs (Append # ts) \<longleftrightarrow> 62 \<in> set cs"
  "begins cs (rtok k # ts) \<longleftrightarrow> (if k = In then 60 \<in> set cs else 62 \<in> set cs)"
  by (cases k; simp add: begins_def)+

lemma begins_word:
  assumes "remains m es s (Word w # ts)" "set cs \<subseteq> set symbols"
  shows "\<not> begins cs (Word w # ts)"
  using remains_ConsD(5) [OF assms(1)] assms(2) by (auto simp: begins_def word_ok_def neq_Nil_conv)

lemma word_at_token:
  assumes "remains m es s (Word w # ts)"
  shows "word_at m (s, s + length w) w"
  using remains_ConsD [OF assms] by (simp add: word_at_def)

section \<open>Redirections and arguments\<close>

lemma redir_of_rtok: "word_at m (q, eq) f \<Longrightarrow> redir_at m (redir_of (tkind (rtok k)) q eq) (k, f)"
  by (cases k) (simp_all add: redir_of_def)

lemma parseredirs_ok:
  assumes "remains m es s (rtoks rs @ rest)" "\<not> begins [60, 62] rest"
  shows "parseredirs n m es s = Diverge \<or> (\<exists>R s'. parseredirs n m es s = Ret R s' \<and> remains m es s' rest \<and> list_all2 (redir_at m) R rs)"
  using assms(1)
proof (induction n arbitrary: s rs)
  case 0
  then show ?case by simp
next
  case (Suc n)
  show ?case
  proof (cases rs)
    case Nil
    then show ?thesis using peek_begins [OF Suc.prems] assms(2) Suc.prems by simp
  next
    case (Cons r rs')
    obtain k f where r: "r = (k, f)" by (cases r)
    have 1: "remains m es s (rtok k # Word f # rtoks rs' @ rest)" using Suc.prems Cons r by simp
    define s1 where "s1 = s + length (tbytes (rtok k)) + 1"
    have t1: "token m es s = Ret (tkind (rtok k), s, s + length (tbytes (rtok k))) s1" using token_remains [OF 1] by (simp add: s1_def)
    have 2: "remains m es s1 (Word f # rtoks rs' @ rest)" using remains_ConsD(4) [OF 1] by (simp add: s1_def)
    have t2: "token m es s1 = Ret (97, s1, s1 + length f) (s1 + length f + 1)" using token_remains [OF 2] by simp
    have 3: "remains m es (s1 + length f + 1) (rtoks rs' @ rest)" using remains_ConsD(4) [OF 2] by simp
    have p: "peek m es [60, 62] s = Ret True s" using peek_begins [OF 1] by simp
    have run: "parseredirs (Suc n) m es s = obind (parseredirs n m es (s1 + length f + 1)) (\<lambda>R s. Ret (redir_of (tkind (rtok k)) s1 (s1 + length f) # R) s)"
      by (simp add: p t1 t2)
    have "redir_at m (redir_of (tkind (rtok k)) s1 (s1 + length f)) (k, f)" using redir_of_rtok word_at_token [OF 2] by blast
    then show ?thesis using Suc.IH [OF 3] unfolding run Cons r by auto
  qed
qed

lemma stop_next: "begins [124, 41, 38, 59] rest \<or> rest = [] \<Longrightarrow> \<not> begins [60, 62] rest \<and> \<not> begins [40] rest"
  by (cases rest) (auto simp: begins_def)

lemma exec_loop_stop:
  assumes "remains m es s rest" "begins [124, 41, 38, 59] rest \<or> rest = []"
  shows "exec_loop n m es args R s = Diverge \<or> exec_loop n m es args R s = Ret (redirs R (Execcmd args)) s"
proof (cases n)
  case (Suc k)
  then show ?thesis using peek_begins [OF assms(1)] assms token_end by (cases "rest = []") auto
qed simp

lemma exec_loop_ok:
  assumes "remains m es s (map Word ws @ rtoks rs @ rest)" "begins [124, 41, 38, 59] rest \<or> rest = []" "length args + length ws < MAXARGS" "ws = [] \<longrightarrow> rs = []"
  shows "exec_loop n m es args R0 s = Diverge \<or> (\<exists>args' R s'. exec_loop n m es args R0 s = Ret (redirs (R0 @ R) (Execcmd (args @ args'))) s'
    \<and> remains m es s' rest \<and> list_all2 (word_at m) args' ws \<and> list_all2 (redir_at m) R rs)"
  using assms(1,3,4)
proof (induction n arbitrary: s ws args R0)
  case 0
  then show ?case by simp
next
  case (Suc n)
  show ?case
  proof (cases ws)
    case Nil
    then have "remains m es s rest" "rs = []" using Suc.prems by simp_all
    then show ?thesis using exec_loop_stop [OF _ assms(2), of m es s "Suc n" args R0] Nil by auto
  next
    case (Cons w ws')
    have 1: "remains m es s (Word w # map Word ws' @ rtoks rs @ rest)" using Suc.prems(1) Cons by simp
    define s1 where "s1 = s + length w + 1"
    have t1: "token m es s = Ret (97, s, s + length w) s1" using token_remains [OF 1] by (simp add: s1_def)
    have 2: "remains m es s1 (map Word ws' @ rtoks rs @ rest)" using remains_ConsD(4) [OF 1] by (simp add: s1_def)
    have p: "peek m es [124, 41, 38, 59] s = Ret False s" using peek_begins [OF 1] begins_word [OF 1] by (simp add: symbols_def)
    have run: "exec_loop (Suc n) m es args R0 s =
        obind (parseredirs n m es s1) (\<lambda>R s'. exec_loop n m es (args @ [(s, s + length w)]) (R0 @ R) s')"
      using Suc.prems(2) Cons by (simp add: p t1)
    have wa: "word_at m (s, s + length w) w" using word_at_token [OF 1] .
    show ?thesis
    proof (cases "ws' = []")
      case True
      then have "remains m es s1 (rtoks rs @ rest)" using 2 by simp
      from parseredirs_ok [OF this] stop_next [OF assms(2)] consider "parseredirs n m es s1 = Diverge"
        | R s' where "parseredirs n m es s1 = Ret R s'" "remains m es s' rest" "list_all2 (redir_at m) R rs" by blast
      then show ?thesis
      proof cases
        case 1 then show ?thesis unfolding run by simp
      next
        case 2
        then show ?thesis
          unfolding run Cons True using exec_loop_stop [OF 2(2) assms(2), of n "args @ [(s, s + length w)]" "R0 @ R"] wa
          by (auto intro!: exI [of _ "[(s, s + length w)]"] exI [of _ R])
      qed
    next
      case False
      then obtain w' ws'' where w': "ws' = w' # ws''" by (cases ws') auto
      have nb: "\<not> begins [60, 62] (map Word ws' @ rtoks rs @ rest)" using 2 begins_word unfolding w' by (simp add: symbols_def)
      have "remains m es s1 (rtoks [] @ (map Word ws' @ rtoks rs @ rest))" using 2 by simp
      from parseredirs_ok [OF this nb] consider "parseredirs n m es s1 = Diverge"
        | s' where "parseredirs n m es s1 = Ret [] s'" "remains m es s' (map Word ws' @ rtoks rs @ rest)" by auto
      then show ?thesis
      proof cases
        case 1 then show ?thesis unfolding run by simp
      next
        case 2
        have "length (args @ [(s, s + length w)]) + length ws' < MAXARGS" using Suc.prems(2) Cons by simp
        from Suc.IH [OF 2(2) this] False have "exec_loop n m es (args @ [(s, s + length w)]) (R0 @ []) s' = Diverge \<or> (\<exists>args' R' s''. exec_loop n m es (args @ [(s, s + length w)]) (R0 @ []) s' =
            Ret (redirs ((R0 @ []) @ R') (Execcmd ((args @ [(s, s + length w)]) @ args'))) s''
            \<and> remains m es s'' rest \<and> list_all2 (word_at m) args' ws' \<and> list_all2 (redir_at m) R' rs)" by blast
        then show ?thesis unfolding run Cons using 2 wa by auto
      qed
    qed
  qed
qed

section \<open>Levels\<close>

text \<open>The four levels of the grammar: what the parser makes of the text of a tree, unless its fuel ends.\<close>

definition level0 :: "syn \<Rightarrow> bool" where
  "level0 c \<longleftrightarrow> (\<forall>m es s rs rest n. remains m es s (toks 0 c @ rtoks rs @ rest) \<longrightarrow> begins [124, 41, 38, 59] rest \<or> rest = [] \<longrightarrow>
     parseexec n m es s = Diverge \<or> (\<exists>t R s'. parseexec n m es s = Ret (redirs R t) s' \<and> remains m es s' rest \<and> denotes m t c \<and> list_all2 (redir_at m) R rs))"

definition level1 :: "syn \<Rightarrow> bool" where
  "level1 c \<longleftrightarrow> (\<forall>m es s rest n. remains m es s (toks 1 c @ rest) \<longrightarrow> begins [41, 38, 59] rest \<or> rest = [] \<longrightarrow>
     parsepipe n m es s = Diverge \<or> (\<exists>t s'. parsepipe n m es s = Ret t s' \<and> remains m es s' rest \<and> denotes m t c))"

definition level2 :: "syn \<Rightarrow> bool" where
  "level2 c \<longleftrightarrow> (\<forall>m es s k rest n n'. remains m es s (toks 2 c @ replicate k (Sym 38) @ rest) \<longrightarrow> begins [41, 59] rest \<or> rest = [] \<longrightarrow>
     (let r = obind (parsepipe n m es s) (\<lambda>t s. back_loop n' m es t s)
      in r = Diverge \<or> (\<exists>t s'. r = Ret ((Backcmd ^^ k) t) s' \<and> remains m es s' rest \<and> denotes m t c)))"

definition level3 :: "syn \<Rightarrow> bool" where
  "level3 c \<longleftrightarrow> (\<forall>m es s rest n. remains m es s (toks 3 c @ rest) \<longrightarrow> begins [41] rest \<or> rest = [] \<longrightarrow>
     parseline n m es s = Diverge \<or> (\<exists>t s'. parseline n m es s = Ret t s' \<and> remains m es s' rest \<and> denotes m t c))"

lemma begins_mono: "begins cs ts \<Longrightarrow> set cs \<subseteq> set ds \<Longrightarrow> begins ds ts"
  by (auto simp: begins_def split: list.splits)

lemma begins_disjoint: "begins cs ts \<or> ts = [] \<Longrightarrow> set cs \<inter> set ds = {} \<Longrightarrow> \<not> begins ds ts"
  by (auto simp: begins_def split: list.splits)

lemma level1_same:
  assumes "level0 c" "toks 1 c = toks 0 c"
  shows "level1 c"
  unfolding level1_def
proof (intro allI impI)
  fix m es s rest n
  assume r: "remains m es s (toks 1 c @ rest)" and b: "begins [41, 38, 59] rest \<or> rest = []"
  show "parsepipe n m es s = Diverge \<or> (\<exists>t s'. parsepipe n m es s = Ret t s' \<and> remains m es s' rest \<and> denotes m t c)"
  proof (cases n)
    case (Suc k)
    have "remains m es s (toks 0 c @ rtoks [] @ rest)" using r assms(2) by simp
    moreover have "begins [124, 41, 38, 59] rest \<or> rest = []" using b begins_mono by fastforce
    ultimately consider "parseexec k m es s = Diverge" | t s' where "parseexec k m es s = Ret t s'" "remains m es s' rest" "denotes m t c"
      using assms(1) unfolding level0_def by (metis list_all2_Nil2 redirs.simps(1))
    then show ?thesis
    proof cases
      case 2
      have "\<not> begins [124] rest" using begins_disjoint [OF b] by simp
      then show ?thesis using 2 peek_begins [OF 2(2)] Suc by simp
    qed (simp add: Suc)
  qed simp
qed

lemma back_loop_ok:
  assumes "remains m es s (replicate k (Sym 38) @ rest)" "begins [41, 59] rest \<or> rest = []"
  shows "back_loop n m es t s = Diverge \<or> (\<exists>s'. back_loop n m es t s = Ret ((Backcmd ^^ k) t) s' \<and> remains m es s' rest)"
  using assms(1)
proof (induction n arbitrary: s k t)
  case (Suc n)
  show ?case
  proof (cases k)
    case 0
    then show ?thesis using peek_begins [OF Suc.prems] begins_disjoint [OF assms(2), of "[38]"] Suc.prems by simp
  next
    case (Suc j)
    have 1: "remains m es s (Sym 38 # replicate j (Sym 38) @ rest)" using Suc.prems Suc by simp
    have "(Backcmd ^^ k) t = (Backcmd ^^ j) (Backcmd t)" by (simp add: Suc funpow_swap1)
    then show ?thesis using Suc.IH [OF remains_ConsD(4) [OF 1], of "Backcmd t"] peek_begins [OF 1] token_remains [OF 1] by simp
  qed
qed simp

lemma level2_same:
  assumes "level1 c" "toks 2 c = toks 1 c"
  shows "level2 c"
  unfolding level2_def Let_def
proof (intro allI impI)
  fix m es s k rest n n'
  assume r: "remains m es s (toks 2 c @ replicate k (Sym 38) @ rest)" and b: "begins [41, 59] rest \<or> rest = []"
  have "begins [41, 38, 59] (replicate k (Sym 38) @ rest) \<or> replicate k (Sym 38) @ rest = []"
    using b begins_mono [of "[41, 59]" rest "[41, 38, 59]"] by (cases k) auto
  then consider "parsepipe n m es s = Diverge"
    | t s' where "parsepipe n m es s = Ret t s'" "remains m es s' (replicate k (Sym 38) @ rest)" "denotes m t c"
    using assms r unfolding level1_def by metis
  then show "obind (parsepipe n m es s) (back_loop n' m es) = Diverge
      \<or> (\<exists>t s'. obind (parsepipe n m es s) (back_loop n' m es) = Ret ((Backcmd ^^ k) t) s' \<and> remains m es s' rest \<and> denotes m t c)"
  proof cases
    case 2
    then show ?thesis using back_loop_ok [OF 2(2) b, of n' t] by auto
  qed simp
qed

lemma level3_same:
  assumes "level2 c" "toks 3 c = toks 2 c"
  shows "level3 c"
  unfolding level3_def
proof (intro allI impI)
  fix m es s rest n
  assume r: "remains m es s (toks 3 c @ rest)" and b: "begins [41] rest \<or> rest = []"
  show "parseline n m es s = Diverge \<or> (\<exists>t s'. parseline n m es s = Ret t s' \<and> remains m es s' rest \<and> denotes m t c)"
  proof (cases n)
    case (Suc k)
    have "remains m es s (toks 2 c @ replicate 0 (Sym 38) @ rest)" using r assms(2) by simp
    moreover have "begins [41, 59] rest \<or> rest = []" using b begins_mono by fastforce
    ultimately have "obind (parsepipe k m es s) (\<lambda>t s. back_loop k m es t s) = Diverge
        \<or> (\<exists>t s'. obind (parsepipe k m es s) (\<lambda>t s. back_loop k m es t s) = Ret ((Backcmd ^^ 0) t) s' \<and> remains m es s' rest \<and> denotes m t c)"
      using assms(1) unfolding level2_def Let_def by blast
    then consider "obind (parsepipe k m es s) (\<lambda>t s. back_loop k m es t s) = Diverge"
      | t s' where "obind (parsepipe k m es s) (\<lambda>t s. back_loop k m es t s) = Ret t s'" "remains m es s' rest" "denotes m t c" by auto
    then show ?thesis
    proof cases
      case 1
      then show ?thesis unfolding Suc parseline.simps by (simp add: obind_assoc [symmetric])
    next
      case 2
      have "\<not> begins [59] rest" using begins_disjoint [OF b] by simp
      then show ?thesis using 2 peek_begins [OF 2(2)] unfolding Suc parseline.simps by (simp add: obind_assoc [symmetric])
    qed
  qed simp
qed

lemma level0_block:
  assumes "level3 c" "toks 0 c = Sym 40 # toks 3 c @ [Sym 41]"
  shows "level0 c"
  unfolding level0_def
proof (intro allI impI)
  fix m es s rs rest n
  assume r: "remains m es s (toks 0 c @ rtoks rs @ rest)" and b: "begins [124, 41, 38, 59] rest \<or> rest = []"
  have 1: "remains m es s (Sym 40 # toks 3 c @ Sym 41 # rtoks rs @ rest)" using r assms(2) by simp
  have 2: "remains m es (s + 2) (toks 3 c @ Sym 41 # rtoks rs @ rest)" using remains_ConsD(4) [OF 1] by simp
  have p: "peek m es [40] s = Ret True s" using peek_begins [OF 1] by simp
  have t: "token m es s = Ret (40, s, s + 1) (s + 2)" using token_remains [OF 1] by simp
  show "parseexec n m es s = Diverge \<or> (\<exists>t R s'. parseexec n m es s = Ret (redirs R t) s' \<and> remains m es s' rest \<and> denotes m t c \<and> list_all2 (redir_at m) R rs)"
  proof (cases "n < 2")
    case True
    then have "n = 0 \<or> n = 1" by auto
    then show ?thesis by (auto simp: p)
  next
    case False
    then obtain k where k: "n = Suc (Suc k)" by (metis add_2_eq_Suc' le_add_diff_inverse2 not_less)
    have run: "parseexec n m es s = obind (parseline k m es (s + 2)) (\<lambda>c s. obind (peek m es [41] s) (\<lambda>b s.
              if \<not> b then Panic ''syntax - missing )''
              else obind (token m es s) (\<lambda>_ s. obind (parseredirs k m es s) (\<lambda>rs s. Ret (redirs rs c) s))))"
      by (simp add: k p t)
    consider "parseline k m es (s + 2) = Diverge" | c' s' where "parseline k m es (s + 2) = Ret c' s'" "remains m es s' (Sym 41 # rtoks rs @ rest)" "denotes m c' c"
      using assms(1) 2 unfolding level3_def by (metis begins_simps(2) list.set_intros(1))
    then show ?thesis
    proof cases
      case 1
      then show ?thesis unfolding run by simp
    next
      case 2
      have q: "peek m es [41] s' = Ret True s'" "token m es s' = Ret (41, s', s' + 1) (s' + 2)" using peek_begins [OF 2(2)] token_remains [OF 2(2)] by simp_all
      have "remains m es (s' + 2) (rtoks rs @ rest)" using remains_ConsD(4) [OF 2(2)] by simp
      from parseredirs_ok [OF this, of k] stop_next [OF b] show ?thesis unfolding run 2(1) using q 2(3) by (auto simp del: add_2_eq_Suc')
    qed
  qed
qed

section \<open>Every tree is read back\<close>

lemma level0_exec:
  assumes "syn_ok (SExec ws)"
  shows "level0 (SExec ws)"
  unfolding level0_def
proof (intro allI impI)
  fix m es s rs rest n
  assume r: "remains m es s (toks 0 (SExec ws) @ rtoks rs @ rest)" and b: "begins [124, 41, 38, 59] rest \<or> rest = []"
  show "parseexec n m es s = Diverge \<or> (\<exists>t R s'. parseexec n m es s = Ret (redirs R t) s' \<and> remains m es s' rest \<and> denotes m t (SExec ws) \<and> list_all2 (redir_at m) R rs)"
  proof (cases n)
    case (Suc k)
    have nb: "\<not> begins [40] (map Word ws @ rtoks rs @ rest)"
    proof (cases ws)
      case Nil
      then show ?thesis using stop_next [OF b] by (cases rs) (auto split: if_splits)
    next
      case (Cons w ws')
      then show ?thesis using begins_word [of m es s w "map Word ws' @ rtoks rs @ rest" "[40]"] r by (simp add: symbols_def)
    qed
    have run: "parseexec n m es s = obind (parseredirs k m es s) (\<lambda>rs s. exec_loop k m es [] rs s)"
      using peek_begins [OF r, of "[40]"] nb Suc by simp
    show ?thesis
    proof (cases "ws = []")
      case True
      then have "remains m es s (rtoks rs @ rest)" using r by simp
      from parseredirs_ok [OF this, of k] stop_next [OF b] consider "parseredirs k m es s = Diverge"
        | R s' where "parseredirs k m es s = Ret R s'" "remains m es s' rest" "list_all2 (redir_at m) R rs" by blast
      then show ?thesis
      proof cases
        case 2
        then show ?thesis unfolding run using exec_loop_stop [OF 2(2) b, of k "[]" R] True by (auto intro!: exI [of _ "Execcmd []"])
      qed (simp add: run)
    next
      case False
      then obtain w ws' where w: "ws = w # ws'" by (cases ws) auto
      have nb2: "\<not> begins [60, 62] (map Word ws @ rtoks rs @ rest)"
        using begins_word [of m es s w "map Word ws' @ rtoks rs @ rest" "[60, 62]"] r unfolding w by (simp add: symbols_def)
      have "remains m es s (rtoks [] @ (map Word ws @ rtoks rs @ rest))" using r by simp
      from parseredirs_ok [OF this nb2, of k] consider "parseredirs k m es s = Diverge"
        | s' where "parseredirs k m es s = Ret [] s'" "remains m es s' (map Word ws @ rtoks rs @ rest)" by auto
      then show ?thesis
      proof cases
        case 2
        have "exec_loop k m es [] [] s' = Diverge \<or> (\<exists>args' R s''. exec_loop k m es [] [] s' = Ret (redirs ([] @ R) (Execcmd ([] @ args'))) s''
            \<and> remains m es s'' rest \<and> list_all2 (word_at m) args' ws \<and> list_all2 (redir_at m) R rs)"
          using exec_loop_ok [OF 2(2) b, of "[]" k "[]"] assms False by simp
        then show ?thesis unfolding run 2(1) obind.simps append_Nil using denotes.simps(1) by metis
      qed (simp add: run)
    qed
  qed simp
qed

lemma level0_redir:
  assumes "level0 c"
  shows "level0 (SRedir c k f)"
  unfolding level0_def
proof (intro allI impI)
  fix m es s rs rest n
  assume r: "remains m es s (toks 0 (SRedir c k f) @ rtoks rs @ rest)" and b: "begins [124, 41, 38, 59] rest \<or> rest = []"
  have "remains m es s (toks 0 c @ rtoks ((k, f) # rs) @ rest)" using r by simp
  then consider "parseexec n m es s = Diverge" | t R s' where "parseexec n m es s = Ret (redirs R t) s'" "remains m es s' rest" "denotes m t c" "list_all2 (redir_at m) R ((k, f) # rs)"
    using assms b unfolding level0_def by blast
  then show "parseexec n m es s = Diverge
      \<or> (\<exists>t R s'. parseexec n m es s = Ret (redirs R t) s' \<and> remains m es s' rest \<and> denotes m t (SRedir c k f) \<and> list_all2 (redir_at m) R rs)"
  proof cases
    case 2
    then obtain q eq mode fd R' where R: "R = (q, eq, mode, fd) # R'" "redir_at m (q, eq, mode, fd) (k, f)" "list_all2 (redir_at m) R' rs"
      by (cases R) auto
    have "denotes m (Redircmd t q eq mode fd) (SRedir c k f)" using 2(3) R(2) by simp
    moreover have "redirs R t = redirs R' (Redircmd t q eq mode fd)" by (simp add: R(1))
    ultimately show ?thesis using 2(1,2) R(3) by metis
  qed simp
qed

lemma level1_pipe:
  assumes "level0 l" "level1 r"
  shows "level1 (SPipe l r)"
  unfolding level1_def
proof (intro allI impI)
  fix m es s rest n
  assume x: "remains m es s (toks 1 (SPipe l r) @ rest)" and b: "begins [41, 38, 59] rest \<or> rest = []"
  show "parsepipe n m es s = Diverge \<or> (\<exists>t s'. parsepipe n m es s = Ret t s' \<and> remains m es s' rest \<and> denotes m t (SPipe l r))"
  proof (cases n)
    case (Suc k)
    have "remains m es s (toks 0 l @ rtoks [] @ (Sym 124 # toks 1 r @ rest))" using x by (simp add: paren_def)
    then consider "parseexec k m es s = Diverge" | t s' where "parseexec k m es s = Ret t s'" "remains m es s' (Sym 124 # toks 1 r @ rest)" "denotes m t l"
      using assms(1) unfolding level0_def by (metis begins_simps(2) list.set_intros(1) list_all2_Nil2 redirs.simps(1))
    then show ?thesis
    proof cases
      case 2
      have "remains m es (s' + 2) (toks 1 r @ rest)" using remains_ConsD(4) [OF 2(2)] by simp
      then consider "parsepipe k m es (s' + 2) = Diverge" | u s'' where "parsepipe k m es (s' + 2) = Ret u s''" "remains m es s'' rest" "denotes m u r"
        using assms(2) b unfolding level1_def by blast
      then show ?thesis using 2 peek_begins [OF 2(2)] token_remains [OF 2(2)] Suc by cases simp_all
    qed (simp add: Suc)
  qed simp
qed

lemma level2_back:
  assumes "level2 c"
  shows "level2 (SBack c)"
  unfolding level2_def Let_def
proof (intro allI impI)
  fix m es s k rest n n'
  assume r: "remains m es s (toks 2 (SBack c) @ replicate k (Sym 38) @ rest)" and b: "begins [41, 59] rest \<or> rest = []"
  have "remains m es s (toks 2 c @ replicate (Suc k) (Sym 38) @ rest)" using r by (simp add: paren_def)
  then have "obind (parsepipe n m es s) (back_loop n' m es) = Diverge
      \<or> (\<exists>t s'. obind (parsepipe n m es s) (back_loop n' m es) = Ret ((Backcmd ^^ Suc k) t) s' \<and> remains m es s' rest \<and> denotes m t c)"
    using assms b unfolding level2_def Let_def by blast
  then show "obind (parsepipe n m es s) (back_loop n' m es) = Diverge
      \<or> (\<exists>t s'. obind (parsepipe n m es s) (back_loop n' m es) = Ret ((Backcmd ^^ k) t) s' \<and> remains m es s' rest \<and> denotes m t (SBack c))"
    by (metis denotes.simps(5) funpow_Suc_right comp_apply)
qed

lemma level3_list:
  assumes "level2 l" "level3 r"
  shows "level3 (SList l r)"
  unfolding level3_def
proof (intro allI impI)
  fix m es s rest n
  assume x: "remains m es s (toks 3 (SList l r) @ rest)" and b: "begins [41] rest \<or> rest = []"
  show "parseline n m es s = Diverge \<or> (\<exists>t s'. parseline n m es s = Ret t s' \<and> remains m es s' rest \<and> denotes m t (SList l r))"
  proof (cases n)
    case (Suc k)
    have "remains m es s (toks 2 l @ replicate 0 (Sym 38) @ (Sym 59 # toks 3 r @ rest))" using x by (simp add: paren_def)
    moreover have "begins [41, 59] (Sym 59 # toks 3 r @ rest) \<or> Sym 59 # toks 3 r @ rest = []" by simp
    ultimately have "obind (parsepipe k m es s) (\<lambda>t s. back_loop k m es t s) = Diverge
        \<or> (\<exists>t s'. obind (parsepipe k m es s) (\<lambda>t s. back_loop k m es t s) = Ret ((Backcmd ^^ 0) t) s' \<and> remains m es s' (Sym 59 # toks 3 r @ rest) \<and> denotes m t l)"
      using assms(1) unfolding level2_def Let_def by blast
    then consider "obind (parsepipe k m es s) (\<lambda>t s. back_loop k m es t s) = Diverge"
      | t s' where "obind (parsepipe k m es s) (\<lambda>t s. back_loop k m es t s) = Ret t s'" "remains m es s' (Sym 59 # toks 3 r @ rest)" "denotes m t l" by auto
    then show ?thesis
    proof cases
      case 1
      then show ?thesis unfolding Suc parseline.simps by (simp add: obind_assoc [symmetric])
    next
      case 2
      have run: "parseline n m es s = obind (parseline k m es (s' + 2)) (\<lambda>d s. Ret (Listcmd t d) s)"
        using 2 peek_begins [OF 2(2)] token_remains [OF 2(2)] unfolding Suc parseline.simps by (simp add: obind_assoc [symmetric])
      have "remains m es (s' + 2) (toks 3 r @ rest)" using remains_ConsD(4) [OF 2(2)] by simp
      then consider "parseline k m es (s' + 2) = Diverge" | u s'' where "parseline k m es (s' + 2) = Ret u s''" "remains m es s'' rest" "denotes m u r"
        using assms(2) b unfolding level3_def by blast
      then show ?thesis unfolding run using 2 by cases simp_all
    qed
  qed simp
qed

lemma levels: "syn_ok c \<Longrightarrow> level0 c \<and> level1 c \<and> level2 c \<and> level3 c"
proof (induction c)
  case (SExec ws)
  then have "level0 (SExec ws)" by (rule level0_exec)
  then show ?case using level1_same level2_same level3_same by simp
next
  case (SRedir c k f)
  then have "level0 (SRedir c k f)" using level0_redir by simp
  then show ?case using level1_same level2_same level3_same by simp
next
  case (SPipe l r)
  then have "level1 (SPipe l r)" using level1_pipe by simp
  then show ?case using level2_same level3_same level0_block by (simp add: paren_def)
next
  case (SList l r)
  then have "level3 (SList l r)" using level3_list by simp
  then show ?case using level0_block level1_same level2_same by (simp add: paren_def)
next
  case (SBack c)
  then have "level2 (SBack c)" using level2_back by simp
  then show ?case using level0_block level1_same level3_same by (simp add: paren_def)
qed

section \<open>The parser stops\<close>

text \<open>A pointer that stays within the line, whose end is its first NUL.\<close>

definition in_line :: "mem \<Rightarrow> nat \<Rightarrow> nat \<Rightarrow> bool" where
  "in_line m es s \<longleftrightarrow> s \<le> es \<and> m es = 0 \<and> (\<forall>x. s \<le> x \<longrightarrow> x < es \<longrightarrow> m x \<noteq> 0)"

lemma in_line_mono: "in_line m es s \<Longrightarrow> s \<le> s' \<Longrightarrow> s' \<le> es \<Longrightarrow> in_line m es s'"
  by (simp add: in_line_def)

lemma skip_space_bounds: "s \<le> es \<Longrightarrow> s \<le> skip_space m es s \<and> skip_space m es s \<le> es"
proof (induction m es s rule: skip_space.induct)
  case (1 m es s)
  then show ?case by (subst (1 2) skip_space.simps) auto
qed

lemma skip_word_bounds: "s \<le> es \<Longrightarrow> s \<le> skip_word m es s \<and> skip_word m es s \<le> es"
proof (induction m es s rule: skip_word.induct)
  case (1 m es s)
  then show ?case by (subst (1 2) skip_word.simps) auto
qed

lemma skip_word_moves:
  assumes "s < es" "m s \<notin> set whitespace" "m s \<notin> set symbols"
  shows "s < skip_word m es s"
  using assms skip_word_bounds [of "s + 1" es m] by (subst skip_word.simps) auto

lemma skip_space_stops: "s \<le> es \<Longrightarrow> skip_space m es s = es \<or> m (skip_space m es s) \<notin> set whitespace"
proof (induction m es s rule: skip_space.induct)
  case (1 m es s)
  then show ?case by (subst (1 2) skip_space.simps) auto
qed

text \<open>A token that is not the end of the line is not empty.\<close>

lemma token_moves:
  assumes "in_line m es s"
  shows "\<exists>tok q eq s'. token m es s = Ret (tok, q, eq) s' \<and> in_line m es s' \<and> s \<le> s' \<and> (m (skip_space m es s) \<noteq> 0 \<longrightarrow> s < s') \<and> (tok \<noteq> 0 \<longrightarrow> m (skip_space m es s) \<noteq> 0)"
proof -
  define p where "p = skip_space m es s"
  have p: "s \<le> p" "p \<le> es" "p = es \<or> m p \<notin> set whitespace" using skip_space_bounds [of s es m] skip_space_stops [of s es m] assms by (auto simp: p_def in_line_def)
  have z: "p < es \<longleftrightarrow> m p \<noteq> 0" using p assms by (cases "p = es") (auto simp: in_line_def)
  have z1: "m (p + 1) = 62 \<Longrightarrow> p < es \<Longrightarrow> p + 1 < es" using assms by (cases "p + 1 = es") (auto simp: in_line_def)
  define r where "r = (if m p = 0 then (0, p) else if m p = 124 \<or> m p = 40 \<or> m p = 41 \<or> m p = 59 \<or> m p = 38 \<or> m p = 60 then (m p, p + 1)
             else if m p = 62 then (if m (p + 1) = 62 then (43, p + 2) else (62, p + 1)) else (97, skip_word m es p))"
  have t: "token m es s = Ret (fst r, p, snd r) (skip_space m es (snd r))"
    by (simp add: token_def gettoken_def Let_def p_def r_def split: prod.splits)
  have "p \<le> snd r \<and> snd r \<le> es \<and> (m p \<noteq> 0 \<longrightarrow> p < snd r) \<and> (fst r \<noteq> 0 \<longrightarrow> m p \<noteq> 0)"
  proof (cases "m p = 0 \<or> m p \<in> set symbols")
    case True
    then show ?thesis using p z z1 by (auto simp: r_def symbols_def)
  next
    case False
    then have "r = (97, skip_word m es p)" "m p \<notin> set symbols" "p < es" using z by (auto simp: r_def symbols_def)
    then show ?thesis using skip_word_moves [of p es m] skip_word_bounds [of p es m] p z by auto
  qed
  then show ?thesis using t skip_space_bounds [of "snd r" es m] p(1) in_line_mono [OF assms] unfolding p_def [symmetric] by fastforce
qed

lemma peek_moves:
  assumes "in_line m es s"
  shows "\<exists>b s'. peek m es cs s = Ret b s' \<and> in_line m es s' \<and> s \<le> s' \<and> skip_space m es s' = s' \<and> (b \<longrightarrow> m s' \<noteq> 0)"
proof -
  define p where "p = skip_space m es s"
  have p: "s \<le> p" "p \<le> es" "p = es \<or> m p \<notin> set whitespace" using skip_space_bounds [of s es m] skip_space_stops [of s es m] assms by (auto simp: p_def in_line_def)
  have "skip_space m es p = p" using p by (subst skip_space.simps) auto
  then show ?thesis using p in_line_mono [OF assms p(1,2)] by (simp add: peek_def Let_def p_def)
qed

text \<open>A step that stays in the line and does not run out of fuel.\<close>

definition stays :: "mem \<Rightarrow> nat \<Rightarrow> nat \<Rightarrow> (nat, 'a) outcome \<Rightarrow> bool" where
  "stays m es s r \<longleftrightarrow> (case r of Ret a s' \<Rightarrow> in_line m es s' \<and> s \<le> s' | Panic e \<Rightarrow> True | _ \<Rightarrow> False)"

lemma stays_simps [simp]: "stays m es s (Panic e)" "stays m es s (Ret a s') \<longleftrightarrow> in_line m es s' \<and> s \<le> s'"
  by (simp_all add: stays_def)

lemma stays_bind:
  assumes "stays m es s r" "\<And>a s'. r = Ret a s' \<Longrightarrow> in_line m es s' \<Longrightarrow> s \<le> s' \<Longrightarrow> stays m es s' (f a s')"
  shows "stays m es s (obind r f)"
proof (cases r)
  case (Ret a s')
  then have "stays m es s' (f a s')" "s \<le> s'" using assms by (auto simp: stays_def)
  then show ?thesis using Ret by (auto simp: stays_def split: outcome.splits)
qed (use assms in \<open>auto simp: stays_def\<close>)

lemma stays_trans: "stays m es s' r \<Longrightarrow> s \<le> s' \<Longrightarrow> stays m es s r"
  by (auto simp: stays_def split: outcome.splits)

lemma stays_map: "stays m es s r \<Longrightarrow> stays m es s (obind r (\<lambda>a t. Ret (f a) t))"
  by (cases r) (simp_all add: stays_def)

lemma parseredirs_stays: "in_line m es s \<Longrightarrow> es - s < n \<Longrightarrow> stays m es s (parseredirs n m es s)"
proof (induction n arbitrary: s)
  case (Suc n)
  obtain b s1 where p: "peek m es [60, 62] s = Ret b s1" "in_line m es s1" "s \<le> s1" "skip_space m es s1 = s1" "b \<longrightarrow> m s1 \<noteq> 0"
    using peek_moves [OF Suc.prems(1)] by blast
  obtain t1 q1 e1 s2 where t: "token m es s1 = Ret (t1, q1, e1) s2" "in_line m es s2" "s1 \<le> s2" "b \<longrightarrow> s1 < s2"
    using token_moves [OF p(2)] p(4,5) by auto
  obtain t2 q2 e2 s3 where u: "token m es s2 = Ret (t2, q2, e2) s3" "in_line m es s3" "s2 \<le> s3"
    using token_moves [OF t(2)] by blast
  show ?case
  proof (cases b)
    case True
    then have "es - s3 < n" using Suc.prems p t u by (auto simp: in_line_def)
    then have "stays m es s (parseredirs n m es s3)" using stays_trans [OF Suc.IH [OF u(2)]] p t u by simp
    from stays_map [OF this, of "\<lambda>rs. redir_of t1 q2 e2 # rs"] show ?thesis using p t u True by simp
  qed (use p in simp)
qed simp

lemma back_loop_stays: "in_line m es s \<Longrightarrow> es - s < n \<Longrightarrow> stays m es s (back_loop n m es c s)"
proof (induction n arbitrary: s c)
  case (Suc n)
  obtain b s1 where p: "peek m es [38] s = Ret b s1" "in_line m es s1" "s \<le> s1" "skip_space m es s1 = s1" "b \<longrightarrow> m s1 \<noteq> 0"
    using peek_moves [OF Suc.prems(1)] by blast
  obtain t1 q1 e1 s2 where t: "token m es s1 = Ret (t1, q1, e1) s2" "in_line m es s2" "s1 \<le> s2" "b \<longrightarrow> s1 < s2"
    using token_moves [OF p(2)] p(4,5) by auto
  show ?case
  proof (cases b)
    case True
    then have "es - s2 < n" using Suc.prems p t by (auto simp: in_line_def)
    then show ?thesis using stays_trans [OF Suc.IH [OF t(2)]] p t True by simp
  qed (use p in simp)
qed simp

lemma exec_loop_stays: "in_line m es s \<Longrightarrow> es - s < n \<Longrightarrow> stays m es s (exec_loop n m es args rs s)"
proof (induction n arbitrary: s args rs)
  case (Suc n)
  obtain b s1 where p: "peek m es [124, 41, 38, 59] s = Ret b s1" "in_line m es s1" "s \<le> s1" "skip_space m es s1 = s1"
    using peek_moves [OF Suc.prems(1)] by blast
  obtain t1 q1 e1 s2 where t: "token m es s1 = Ret (t1, q1, e1) s2" "in_line m es s2" "s1 \<le> s2" "t1 \<noteq> 0 \<longrightarrow> s1 < s2"
    using token_moves [OF p(2)] p(4) by auto
  show ?case
  proof (cases "\<not> b \<and> t1 = 97 \<and> length args + 1 < MAXARGS")
    case True
    then have f: "es - s2 < n" using Suc.prems p t by (auto simp: in_line_def)
    have "stays m es s2 (obind (parseredirs n m es s2) (\<lambda>rs' s. exec_loop n m es (args @ [(q1, e1)]) (rs @ rs') s))"
    proof (rule stays_bind [OF parseredirs_stays [OF t(2) f]])
      fix a s3 assume "in_line m es s3" "s2 \<le> s3"
      then show "stays m es s3 (exec_loop n m es (args @ [(q1, e1)]) (rs @ a) s3)" using Suc.IH f by simp
    qed
    then show ?thesis using stays_trans [of m es s2 _ s] p t True by simp
  qed (use p t in auto)
qed simp

lemma parse_stays:
  "in_line m es s \<Longrightarrow> 4 * (es - s) + 4 \<le> n \<Longrightarrow> stays m es s (parseline n m es s)"
  "in_line m es s \<Longrightarrow> 4 * (es - s) + 3 \<le> n \<Longrightarrow> stays m es s (parsepipe n m es s)"
  "in_line m es s \<Longrightarrow> 4 * (es - s) + 1 \<le> n \<Longrightarrow> stays m es s (parseblock n m es s)"
  "in_line m es s \<Longrightarrow> 4 * (es - s) + 2 \<le> n \<Longrightarrow> stays m es s (parseexec n m es s)"
proof (induction n arbitrary: s)
  case (Suc n)
  have sep: "stays m es s1 (obind (peek m es [c] s1) (\<lambda>b s. if b then obind (token m es s) (\<lambda>_ s. obind (P s) (\<lambda>d s. Ret (F d) s)) else Ret x s))"
    if i: "in_line m es s1" and P: "\<And>s2. in_line m es s2 \<Longrightarrow> s1 < s2 \<Longrightarrow> stays m es s2 (P s2)" for s1 c P and F :: "cmd \<Rightarrow> cmd" and x
  proof -
    obtain b s2 where p: "peek m es [c] s1 = Ret b s2" "in_line m es s2" "s1 \<le> s2" "skip_space m es s2 = s2" "b \<longrightarrow> m s2 \<noteq> 0"
      using peek_moves [OF i] by blast
    obtain t1 q1 e1 s3 where t: "token m es s2 = Ret (t1, q1, e1) s3" "in_line m es s3" "s2 \<le> s3" "b \<longrightarrow> s2 < s3"
      using token_moves [OF p(2)] p(4,5) by auto
    show ?thesis
    proof (cases b)
      case True
      then have "stays m es s1 (P s3)" using stays_trans [OF P [OF t(2)]] p t by simp
      from stays_map [OF this, of F] show ?thesis using p t True by simp
    qed (use p in simp)
  qed
  {
    case 1
    show ?case
      unfolding parseline.simps
    proof (rule stays_bind, goal_cases pipe rest)
      case pipe
      then show ?case using Suc.IH(2) [OF 1(1)] 1(2) by simp
    next
      case (rest c s1)
      show ?case
      proof (rule stays_bind [OF back_loop_stays [OF rest(2)]], goal_cases fuel more)
        case fuel
        then show ?case using 1(2) rest by simp
      next
        case (more d s2)
        then show ?case using sep [OF more(2), of "parseline n m es" 59 "Listcmd d" d] Suc.IH(1) 1(2) rest by (simp add: in_line_def)
      qed
    qed
  next
    case 2
    show ?case
      unfolding parsepipe.simps
    proof (rule stays_bind, goal_cases exec rest)
      case exec
      then show ?case using Suc.IH(4) [OF 2(1)] 2(2) by simp
    next
      case (rest c s1)
      then show ?case using sep [OF rest(2), of "parsepipe n m es" 124 "Pipecmd c" c] Suc.IH(2) 2(2) by (simp add: in_line_def)
    qed
  next
    case 3
    obtain b s1 where p: "peek m es [40] s = Ret b s1" "in_line m es s1" "s \<le> s1" "skip_space m es s1 = s1" "b \<longrightarrow> m s1 \<noteq> 0"
      using peek_moves [OF 3(1)] by blast
    obtain t1 q1 e1 s2 where t: "token m es s1 = Ret (t1, q1, e1) s2" "in_line m es s2" "s1 \<le> s2" "b \<longrightarrow> s1 < s2"
      using token_moves [OF p(2)] p(4,5) by auto
    show ?case
    proof (cases b)
      case True
      then have f: "4 * (es - s2) + 4 \<le> n" "es - s2 < n" using 3(2) p t by (auto simp: in_line_def)
      have "stays m es s2 (obind (parseline n m es s2) (\<lambda>c s. obind (peek m es [41] s) (\<lambda>b s.
              if \<not> b then Panic ''syntax - missing )''
              else obind (token m es s) (\<lambda>_ s. obind (parseredirs n m es s) (\<lambda>rs s. Ret (redirs rs c) s)))))"
      proof (rule stays_bind [OF Suc.IH(1) [OF t(2) f(1)]])
        fix c s3 assume c: "in_line m es s3" "s2 \<le> s3"
        obtain b' s4 where p': "peek m es [41] s3 = Ret b' s4" "in_line m es s4" "s3 \<le> s4" using peek_moves [OF c(1)] by blast
        obtain t2 q2 e2 s5 where t': "token m es s4 = Ret (t2, q2, e2) s5" "in_line m es s5" "s4 \<le> s5" using token_moves [OF p'(2)] by blast
        have "es - s5 < n" using f(2) c p' t' by simp
        from stays_map [OF stays_trans [OF parseredirs_stays [OF t'(2) this], of s3], of "\<lambda>rs. redirs rs c"] p' t'
        show "stays m es s3 (obind (peek m es [41] s3) (\<lambda>b s. if \<not> b then Panic ''syntax - missing )''
              else obind (token m es s) (\<lambda>_ s. obind (parseredirs n m es s) (\<lambda>rs s. Ret (redirs rs c) s))))" by simp
      qed
      then show ?thesis using stays_trans [of m es s2 _ s] p t True by simp
    qed (use p in simp)
  next
    case 4
    obtain b s1 where p: "peek m es [40] s = Ret b s1" "in_line m es s1" "s \<le> s1" "skip_space m es s1 = s1" "b \<longrightarrow> m s1 \<noteq> 0"
      using peek_moves [OF 4(1)] by blast
    have f: "4 * (es - s1) + 1 \<le> n" "es - s1 < n" using 4(2) p(3) by auto
    have "stays m es s1 (obind (parseredirs n m es s1) (\<lambda>rs s. exec_loop n m es [] rs s))"
      by (rule stays_bind [OF parseredirs_stays [OF p(2) f(2)]], rule exec_loop_stays) (use f in auto)
    then have "stays m es s (obind (parseredirs n m es s1) (\<lambda>rs s. exec_loop n m es [] rs s))" "stays m es s (parseblock n m es s1)"
      using stays_trans Suc.IH(3) [OF p(2) f(1)] p(3) by blast+
    then show ?case using p(1) by simp
  }
qed simp_all

section \<open>NUL-terminated strings\<close>

fun ends :: "cmd \<Rightarrow> nat set" where
  "ends (Execcmd args) = snd ` set args"
| "ends (Redircmd c q eq mode fd) = insert eq (ends c)"
| "ends (Pipecmd l r) = ends l \<union> ends r"
| "ends (Listcmd l r) = ends l \<union> ends r"
| "ends (Backcmd c) = ends c"

lemma put_nul_eq: "put_nul args m x = (if x \<in> snd ` set args then 0 else m x)"
proof (induction args arbitrary: m)
  case (Cons a args)
  obtain q eq where a: "a = (q, eq)" by (cases a)
  show ?case unfolding a put_nul.simps Cons.IH by auto
qed simp

lemma nulterminate_eq: "nulterminate c m x = (if x \<in> ends c then 0 else m x)"
  by (induction c arbitrary: m) (auto simp: put_nul_eq)

lemma denotes_ends: "denotes m c d \<Longrightarrow> e \<in> ends c \<Longrightarrow> m e = 32"
proof (induction m c d rule: denotes.induct)
  case (1 m args ws)
  then show ?case by (auto simp: list_all2_conv_all_nth in_set_conv_nth word_at_def split: prod.splits)
qed (auto simp: word_at_def)

text \<open>The strings of a command as \<open>exec\<close> and \<open>open\<close> see them.\<close>

fun reads :: "mem \<Rightarrow> cmd \<Rightarrow> syn \<Rightarrow> bool" where
  "reads m (Execcmd args) (SExec ws) = list_all2 (\<lambda>a w. cstr m (fst a) w) args ws"
| "reads m (Redircmd c q eq mode fd) (SRedir d k f) = (reads m c d \<and> cstr m q f \<and> (mode, fd) = rmode k)"
| "reads m (Pipecmd l r) (SPipe l' r') = (reads m l l' \<and> reads m r r')"
| "reads m (Listcmd l r) (SList l' r') = (reads m l l' \<and> reads m r r')"
| "reads m (Backcmd c) (SBack d) = reads m c d"
| "reads m _ _ = False"

lemma word_terminated:
  assumes "word_at m (q, eq) w" "eq \<in> E" "\<And>e. e \<in> E \<Longrightarrow> m e = 32"
  shows "cstr (\<lambda>x. if x \<in> E then 0 else m x) q w"
proof -
  have w: "bytes_at m q w" "eq = q + length w" "word_ok w" using assms(1) by (simp_all add: word_at_def)
  have b: "m (q + i) = w ! i" if "i < length w" for i using w(1) that by (simp add: bytes_at_def)
  have "q + i \<notin> E" if "i < length w" for i
    using assms(3) [of "q + i"] b [OF that] w(3) that by (auto simp: word_ok_def whitespace_def in_set_conv_nth)
  then have "bytes_at (\<lambda>x. if x \<in> E then 0 else m x) q w" using b by (simp add: bytes_at_def)
  moreover have "0 \<notin> set w" using w(3) by (auto simp: word_ok_def)
  ultimately show ?thesis using w(2) assms(2) by (simp add: cstr_def)
qed

lemma denotes_reads:
  "denotes m c d \<Longrightarrow> ends c \<subseteq> E \<Longrightarrow> \<forall>e\<in>E. m e = 32 \<Longrightarrow> reads (\<lambda>x. if x \<in> E then 0 else m x) c d"
proof (induction m c d rule: denotes.induct)
  case (1 m args ws)
  then have "list_all2 (word_at m) args ws" "\<forall>a\<in>set args. snd a \<in> E" by auto
  then have "list_all2 (\<lambda>a w. word_at m a w \<and> snd a \<in> E) args ws" by (auto simp: list_all2_conv_all_nth)
  then show ?case unfolding reads.simps using word_terminated [of m _ _ _ E] 1(3) by (elim list_all2_mono) auto
next
  case (2 m c q eq mode fd d k f)
  then show ?case using word_terminated [of m q eq f E] by simp
qed simp_all

section \<open>Properties\<close>

lemma line_start:
  assumes "cstr m s cs"
  shows "in_line m (s + length cs) s" "strlen m s = Some (length cs)"
proof -
  have "m (s + i) \<noteq> 0" if "i < length cs" for i using assms that nth_mem [OF that] by (metis bytes_at_def cstr_def)
  then show "in_line m (s + length cs) s" using assms unfolding in_line_def by (auto simp: cstr_def dest!: le_Suc_ex)
  show "strlen m s = Some (length cs)" using strlen_cstr [OF assms] .
qed

text \<open>C26. The shell's parser reads back the text of every command: arguments, redirections, pipelines, lists, background commands and parentheses, nested in any way,
  come out as the tree they were written from, with every string NUL-terminated in the line.\<close>

theorem parse_round_trip:
  assumes "syn_ok c" "cstr m s (render (toks 3 c))"
  shows "\<exists>t m'. parsecmd m s = Ret t m' \<and> reads m' t c"
proof -
  define es where "es = s + length (render (toks 3 c))"
  have i: "in_line m es s" and l: "strlen m s = Some (es - s)" using line_start [OF assms(2)] by (simp_all add: es_def)
  have r: "remains m es s (toks 3 c @ [])" using assms(2) toks_ok [OF assms(1)] by (simp add: remains_def cstr_def es_def)
  define n where "n = 4 * (es - s) + 8"
  have "stays m es s (parseline n m es s)" using parse_stays(1) [OF i] by (simp add: n_def)
  then have "parseline n m es s \<noteq> Diverge" by (auto simp: stays_def)
  then obtain t s' where t: "parseline n m es s = Ret t s'" "remains m es s' []" "denotes m t c"
    using levels [OF assms(1)] r unfolding level3_def by blast
  have "s' = es" "peek m es [] s' = Ret False s'" using t(2) peek_begins [OF t(2)] by (simp_all add: remains_def)
  moreover have "es = s + (es - s)" by (simp add: es_def)
  ultimately have "parsecmd m s = Ret t (nulterminate t m)" using l t(1) by (simp add: parsecmd_def Let_def n_def)
  moreover have "reads (nulterminate t m) t c"
  proof -
    have "nulterminate t m = (\<lambda>x. if x \<in> ends t then 0 else m x)" by (simp add: nulterminate_eq fun_eq_iff)
    then show ?thesis using denotes_reads [OF t(3), of "ends t"] denotes_ends [OF t(3)] by simp
  qed
  ultimately show ?thesis by blast
qed

text \<open>C27. The parser stops on every line: it returns a command or exits with an error.\<close>

theorem parse_terminates:
  assumes "cstr m s cs"
  shows "(\<exists>t m'. parsecmd m s = Ret t m') \<or> (\<exists>e. parsecmd m s = Panic e)"
proof -
  define es where "es = s + length cs"
  have i: "in_line m es s" and l: "strlen m s = Some (length cs)" using line_start [OF assms] by (simp_all add: es_def)
  define r where "r = parseline (4 * length cs + 8) m es s"
  have st: "stays m es s r" using parse_stays(1) [OF i] by (simp add: r_def es_def)
  have e: "parsecmd m s = (case obind r (\<lambda>c s. obind (peek m es [] s) (\<lambda>_ s. if s \<noteq> es then Panic ''syntax'' else Ret c s)) of
             Ret c _ \<Rightarrow> Ret c (nulterminate c m) | Panic e \<Rightarrow> Panic e | Sleep c _ \<Rightarrow> Sleep c m | Diverge \<Rightarrow> Diverge)"
    using l by (simp add: parsecmd_def Let_def r_def es_def)
  show ?thesis
  proof (cases r)
    case (Ret c s1)
    then have "in_line m es s1" using st by (simp add: stays_def)
    from peek_moves [OF this, of "[]"] obtain b s2 where "peek m es [] s1 = Ret b s2" by blast
    then show ?thesis unfolding e Ret by simp
  qed (use st e in \<open>auto simp: stays_def\<close>)
qed

text \<open>\<open>cd\<close> cuts off the last character of the line, a newline or not: at the end of a script without a final newline the last letter of the directory is lost.\<close>

lemma cd_cuts_last_character:
  assumes "cstr m buf ([99, 100, 32] @ p)" "p \<noteq> []"
  shows "\<exists>m'. sh_line m buf = Some (Chdir (buf + 3), m') \<and> cstr m' (buf + 3) (butlast p)"
proof -
  define n where "n = length p"
  have b: "m buf = 99" "m (buf + 1) = 100" "m (buf + 2) = 32" "cstr m (buf + 3) p" using assms(1) by (simp_all add: eval_nat_numeral)
  have s: "skip_blanks m buf = Some buf" using b(1) by (subst skip_blanks.simps) simp
  have l: "strlen m buf = Some (3 + n)" using strlen_cstr [OF assms(1)] by (simp add: n_def)
  have "sh_line m buf = Some (Chdir (buf + 3), m(buf + (3 + n) - 1 := 0))" using s l b by (simp add: sh_line_def)
  moreover have "cstr (m(buf + (3 + n) - 1 := 0)) (buf + 3) (butlast p)"
    using b(4) assms(2) by (auto simp: cstr_def bytes_at_def n_def nth_butlast dest: in_set_butlastD)
  ultimately show ?thesis by blast
qed
text \<open>The line \<open>( a | b ) > c & ; d\<close>.\<close>

definition sh_syn :: syn where
  "sh_syn = SList (SBack (SRedir (SPipe (SExec [[97]]) (SExec [[98]])) Out [99])) (SExec [[100]])"

definition sh_mem :: mem where
  "sh_mem = (\<lambda>x. if x < length (render (toks 3 sh_syn)) then render (toks 3 sh_syn) ! x else 0)"

lemma sh_syn_ok: "syn_ok sh_syn"
  by (simp add: sh_syn_def word_ok_def whitespace_def symbols_def MAXARGS_def)

lemma sh_text: "render (toks 3 sh_syn) = [40, 32, 97, 32, 124, 32, 98, 32, 41, 32, 62, 32, 99, 32, 38, 32, 59, 32, 100, 32]"
  by (simp add: sh_syn_def paren_def)

lemma sh_mem_text: "cstr sh_mem 0 (render (toks 3 sh_syn))"
  by (simp add: cstr_def bytes_at_def sh_mem_def sh_text)

theorem parse_round_trip_witness: "\<exists>t m'. parsecmd sh_mem 0 = Ret t m' \<and> reads m' t sh_syn"
  using parse_round_trip [OF sh_syn_ok sh_mem_text] .

theorem parse_terminates_witness: "(\<exists>t m'. parsecmd sh_mem 0 = Ret t m') \<or> (\<exists>e. parsecmd sh_mem 0 = Panic e)"
  using parse_terminates [OF sh_mem_text] .

end
