(* ===== verification/Fs.thy ===== *)
theory Fs
  imports CString
begin

text \<open>
  The file system, \<^verbatim>\<open>kernel/fs.c\<close>. The blocks of the one disk are an array of byte memories: within a transaction a buffer that was read, changed,
  handed to \<open>log_write\<close> and released is the new contents of its block, which is what the buffer cache and the log of \<open>Bio\<close> and \<open>Log\<close> provide.
  The inode table is a function from entries to \<open>inode\<close> records, a pointer to an inode its entry. Block and inode numbers, offsets and sizes are the 32-bit values of the code as naturals,
  with the wrap-around of offsets written out; the 16-bit fields are bit patterns, as the code only compares them for equality.
  A name or path is its list of characters. \<open>either_copyout\<close> and \<open>either_copyin\<close> of \<open>readi\<close> and \<open>writei\<close> are a \<open>sink\<close> and a \<open>source\<close>,
  which \<open>Proc\<close> provides for user memory and this theory for buffers of the kernel. An entry that another process has locked is the outcome \<open>Sleep\<close>.
\<close>

section \<open>Layout\<close>

definition FS_BSIZE :: nat where "FS_BSIZE = 1024"
definition FSMAGIC :: nat where "FSMAGIC = 0x10203040"
definition NDIRECT :: nat where "NDIRECT = 12"
definition NINDIRECT :: nat where "NINDIRECT = FS_BSIZE div 4"
definition MAXFILE :: nat where "MAXFILE = NDIRECT + NINDIRECT"
definition DINODE_SIZE :: nat where "DINODE_SIZE = 64"
definition IPB :: nat where "IPB = FS_BSIZE div DINODE_SIZE"
definition BPB :: nat where "BPB = FS_BSIZE * 8"
definition DIRSIZ :: nat where "DIRSIZ = 14"
definition DIRENT_SIZE :: nat where "DIRENT_SIZE = 16"
definition ROOTINO :: nat where "ROOTINO = 1"
definition FS_ROOTDEV :: nat where "FS_ROOTDEV = 1"
definition NINODE :: nat where "NINODE = 50"
definition T_DIR :: nat where "T_DIR = 1"
definition T_FILE :: nat where "T_FILE = 2"
definition T_DEVICE :: nat where "T_DEVICE = 3"

record superblock =
  sb_magic :: nat
  sb_size :: nat
  sb_nblocks :: nat
  sb_ninodes :: nat
  sb_nlog :: nat
  sb_logstart :: nat
  sb_inodestart :: nat
  sb_bmapstart :: nat

record inode =
  idev :: nat
  inum :: nat
  iref :: int
  ilocked :: bool
  ivalid :: bool
  itype :: nat
  imajor :: nat
  iminor :: nat
  nlink :: nat
  isize :: nat
  addrs :: "nat \<Rightarrow> nat"

record fs =
  blocks :: "nat \<Rightarrow> mem"
  sb :: superblock
  itable :: "nat \<Rightarrow> inode"

definition IBLOCK :: "nat \<Rightarrow> superblock \<Rightarrow> nat" where "IBLOCK i b = i div IPB + sb_inodestart b"
definition BBLOCK :: "nat \<Rightarrow> superblock \<Rightarrow> nat" where "BBLOCK n b = n div BPB + sb_bmapstart b"

definition set_block :: "nat \<Rightarrow> mem \<Rightarrow> fs \<Rightarrow> fs" where
  "set_block b d s = s\<lparr>blocks := (blocks s)(b := d)\<rparr>"

definition set_inode :: "nat \<Rightarrow> (inode \<Rightarrow> inode) \<Rightarrow> fs \<Rightarrow> fs" where
  "set_inode k f s = s\<lparr>itable := (itable s)(k := f (itable s k))\<rparr>"

definition readsb :: "fs \<Rightarrow> superblock" where
  "readsb s = (let d = blocks s 1 in
     \<lparr>sb_magic = ldn 4 d 0, sb_size = ldn 4 d 4, sb_nblocks = ldn 4 d 8, sb_ninodes = ldn 4 d 12, sb_nlog = ldn 4 d 16,
      sb_logstart = ldn 4 d 20, sb_inodestart = ldn 4 d 24, sb_bmapstart = ldn 4 d 28\<rparr>)"

section \<open>Blocks\<close>

definition bzero :: "nat \<Rightarrow> fs \<Rightarrow> fs" where
  "bzero bno s = set_block bno (memset (blocks s bno) 0 0 FS_BSIZE) s"

definition bitmask :: "nat \<Rightarrow> byte" where
  "bitmask bi = push_bit (bi mod 8) 1"

definition bit_byte :: "fs \<Rightarrow> nat \<Rightarrow> byte" where
  "bit_byte s b = blocks s (BBLOCK b (sb s)) (b mod BPB div 8)"

definition set_bit_byte :: "nat \<Rightarrow> byte \<Rightarrow> fs \<Rightarrow> fs" where
  "set_bit_byte b v s = set_block (BBLOCK b (sb s)) ((blocks s (BBLOCK b (sb s)))(b mod BPB div 8 := v)) s"

text \<open>The two nested loops of \<open>balloc\<close> look at the blocks of the disk in order.\<close>

definition balloc :: "fs \<Rightarrow> nat \<times> fs" where
  "balloc s =
     (case find (\<lambda>b. bit_byte s b AND bitmask (b mod BPB) = 0) [0..<sb_size (sb s)] of
        None \<Rightarrow> (0, s)
      | Some b \<Rightarrow> (b, bzero b (set_bit_byte b (bit_byte s b OR bitmask (b mod BPB)) s)))"

definition bfree :: "nat \<Rightarrow> fs \<Rightarrow> (fs, unit) outcome" where
  "bfree b s =
     (if bit_byte s b AND bitmask (b mod BPB) = 0 then Panic ''freeing free block''
      else Ret () (set_bit_byte b (bit_byte s b AND NOT (bitmask (b mod BPB))) s))"

section \<open>Inodes\<close>

definition iinit :: "fs \<Rightarrow> fs" where
  "iinit s = s\<lparr>itable := (\<lambda>k. if k < NINODE then (itable s k)\<lparr>ilocked := False\<rparr> else itable s k)\<rparr>"

definition iget :: "nat \<Rightarrow> nat \<Rightarrow> fs \<Rightarrow> (fs, nat) outcome" where
  "iget dev n s =
     (case find (\<lambda>k. iref (itable s k) > 0 \<and> idev (itable s k) = dev \<and> inum (itable s k) = n) [0..<NINODE] of
        Some k \<Rightarrow> Ret k (set_inode k (\<lambda>ip. ip\<lparr>iref := iref ip + 1\<rparr>) s)
      | None \<Rightarrow>
        (case find (\<lambda>k. iref (itable s k) = 0) [0..<NINODE] of
           None \<Rightarrow> Panic ''iget: no inodes''
         | Some k \<Rightarrow> Ret k (set_inode k (\<lambda>ip. ip\<lparr>idev := dev, inum := n, iref := 1, ivalid := False\<rparr>) s)))"

text \<open>A dinode at offset \<open>o\<close> of its block: type, major, minor, nlink, size, addrs.\<close>

fun put_addrs :: "nat \<Rightarrow> (nat \<Rightarrow> nat) \<Rightarrow> nat \<Rightarrow> mem \<Rightarrow> mem" where
  "put_addrs 0 a off d = d"
| "put_addrs (Suc n) a off d = stn 4 (put_addrs n a off d) (off + 4 * n) (a n)"

definition put_dinode :: "nat \<Rightarrow> inode \<Rightarrow> mem \<Rightarrow> mem" where
  "put_dinode off ip d =
     put_addrs (NDIRECT + 1) (addrs ip) (off + 12)
       (stn 4 (stn 2 (stn 2 (stn 2 (stn 2 d off (itype ip)) (off + 2) (imajor ip)) (off + 4) (iminor ip)) (off + 6) (nlink ip)) (off + 8) (isize ip))"

definition get_dinode :: "nat \<Rightarrow> mem \<Rightarrow> inode \<Rightarrow> inode" where
  "get_dinode off d ip =
     ip\<lparr>itype := ldn 2 d off, imajor := ldn 2 d (off + 2), iminor := ldn 2 d (off + 4), nlink := ldn 2 d (off + 6), isize := ldn 4 d (off + 8),
        addrs := (\<lambda>i. if i \<le> NDIRECT then ldn 4 d (off + 12 + 4 * i) else addrs ip i)\<rparr>"

definition dinode_off :: "nat \<Rightarrow> nat" where
  "dinode_off n = n mod IPB * DINODE_SIZE"

definition iupdate :: "nat \<Rightarrow> fs \<Rightarrow> fs" where
  "iupdate k s =
     (let ip = itable s k; b = IBLOCK (inum ip) (sb s)
      in set_block b (put_dinode (dinode_off (inum ip)) ip (blocks s b)) s)"

definition ialloc :: "nat \<Rightarrow> nat \<Rightarrow> fs \<Rightarrow> (fs, nat option) outcome" where
  "ialloc dev typ s =
     (case find (\<lambda>n. ldn 2 (blocks s (IBLOCK n (sb s))) (dinode_off n) = 0) [1..<sb_ninodes (sb s)] of
        None \<Rightarrow> Ret None s
      | Some n \<Rightarrow>
        let b = IBLOCK n (sb s);
            d = stn 2 (memset (blocks s b) (dinode_off n) 0 DINODE_SIZE) (dinode_off n) typ
        in obind (iget dev n (set_block b d s)) (\<lambda>k s. Ret (Some k) s))"

definition fs_idup :: "nat \<Rightarrow> fs \<Rightarrow> fs" where
  "fs_idup k s = set_inode k (\<lambda>ip. ip\<lparr>iref := iref ip + 1\<rparr>) s"

definition ilock :: "nat \<Rightarrow> fs \<Rightarrow> (fs, unit) outcome" where
  "ilock k s =
     (if iref (itable s k) < 1 then Panic ''ilock''
      else if ilocked (itable s k) then Sleep k s
      else let s = set_inode k (\<lambda>ip. ip\<lparr>ilocked := True\<rparr>) s
           in if \<not> ivalid (itable s k)
              then let n = inum (itable s k);
                       s = set_inode k (\<lambda>ip. (get_dinode (dinode_off n) (blocks s (IBLOCK n (sb s))) ip)\<lparr>ivalid := True\<rparr>) s
                   in if itype (itable s k) = 0 then Panic ''ilock: no type'' else Ret () s
              else Ret () s)"

definition iunlock :: "nat \<Rightarrow> fs \<Rightarrow> (fs, unit) outcome" where
  "iunlock k s =
     (if \<not> ilocked (itable s k) \<or> iref (itable s k) < 1 then Panic ''iunlock''
      else Ret () (set_inode k (\<lambda>ip. ip\<lparr>ilocked := False\<rparr>) s))"

text \<open>The loop of \<open>itrunc\<close> over the direct blocks, and that over the indirect ones.\<close>

fun free_direct :: "nat \<Rightarrow> nat list \<Rightarrow> fs \<Rightarrow> (fs, unit) outcome" where
  "free_direct k [] s = Ret () s"
| "free_direct k (i # is) s =
     (if addrs (itable s k) i \<noteq> 0
      then obind (bfree (addrs (itable s k) i) s) (\<lambda>_ s. free_direct k is (set_inode k (\<lambda>ip. ip\<lparr>addrs := (addrs ip)(i := 0)\<rparr>) s))
      else free_direct k is s)"

fun free_indirect :: "mem \<Rightarrow> nat list \<Rightarrow> fs \<Rightarrow> (fs, unit) outcome" where
  "free_indirect a [] s = Ret () s"
| "free_indirect a (j # js) s =
     (if ldn 4 a (4 * j) \<noteq> 0 then obind (bfree (ldn 4 a (4 * j)) s) (\<lambda>_ s. free_indirect a js s) else free_indirect a js s)"

definition itrunc :: "nat \<Rightarrow> fs \<Rightarrow> (fs, unit) outcome" where
  "itrunc k s =
     obind (free_direct k [0..<NDIRECT] s) (\<lambda>_ s.
     obind (if addrs (itable s k) NDIRECT \<noteq> 0
            then obind (free_indirect (blocks s (addrs (itable s k) NDIRECT)) [0..<NINDIRECT] s) (\<lambda>_ s.
                 obind (bfree (addrs (itable s k) NDIRECT) s) (\<lambda>_ s.
                   Ret () (set_inode k (\<lambda>ip. ip\<lparr>addrs := (addrs ip)(NDIRECT := 0)\<rparr>) s)))
            else Ret () s) (\<lambda>_ s.
       Ret () (iupdate k (set_inode k (\<lambda>ip. ip\<lparr>isize := 0\<rparr>) s))))"

definition iput :: "nat \<Rightarrow> fs \<Rightarrow> (fs, unit) outcome" where
  "iput k s =
     obind (if iref (itable s k) = 1 \<and> ivalid (itable s k) \<and> nlink (itable s k) = 0
            then if ilocked (itable s k) then Sleep k s
                 else obind (itrunc k (set_inode k (\<lambda>ip. ip\<lparr>ilocked := True\<rparr>) s)) (\<lambda>_ s.
                   Ret () (set_inode k (\<lambda>ip. ip\<lparr>ivalid := False, ilocked := False\<rparr>) (iupdate k (set_inode k (\<lambda>ip. ip\<lparr>itype := 0\<rparr>) s))))
            else Ret () s) (\<lambda>_ s.
       Ret () (set_inode k (\<lambda>ip. ip\<lparr>iref := iref ip - 1\<rparr>) s))"

definition iunlockput :: "nat \<Rightarrow> fs \<Rightarrow> (fs, unit) outcome" where
  "iunlockput k s = obind (iunlock k s) (\<lambda>_ s. iput k s)"

fun ireclaim :: "nat \<Rightarrow> nat list \<Rightarrow> fs \<Rightarrow> (fs, unit) outcome" where
  "ireclaim dev [] s = Ret () s"
| "ireclaim dev (n # ns) s =
     (let d = blocks s (IBLOCK n (sb s))
      in if ldn 2 d (dinode_off n) \<noteq> 0 \<and> ldn 2 d (dinode_off n + 6) = 0
         then obind (iget dev n s) (\<lambda>k s. obind (ilock k s) (\<lambda>_ s. obind (iunlock k s) (\<lambda>_ s. obind (iput k s) (\<lambda>_ s. ireclaim dev ns s))))
         else ireclaim dev ns s)"

text \<open>\<open>initlog\<close> is the start of \<open>Log\<close>.\<close>

definition fsinit :: "nat \<Rightarrow> fs \<Rightarrow> (fs, unit) outcome" where
  "fsinit dev s =
     (let s = s\<lparr>sb := readsb s\<rparr>
      in if sb_magic (sb s) \<noteq> FSMAGIC then Panic ''invalid file system''
         else ireclaim dev [1..<sb_ninodes (sb s)] s)"

section \<open>Contents\<close>

definition bmap :: "nat \<Rightarrow> nat \<Rightarrow> fs \<Rightarrow> (fs, nat) outcome" where
  "bmap k bn s =
     (if bn < NDIRECT
      then if addrs (itable s k) bn = 0
           then let (addr, s) = balloc s
                in if addr = 0 then Ret 0 s else Ret addr (set_inode k (\<lambda>ip. ip\<lparr>addrs := (addrs ip)(bn := addr)\<rparr>) s)
           else Ret (addrs (itable s k) bn) s
      else let bn = bn - NDIRECT
           in if bn < NINDIRECT
              then obind (if addrs (itable s k) NDIRECT = 0
                     then let (addr, s) = balloc s
                          in if addr = 0 then Ret 0 s else Ret addr (set_inode k (\<lambda>ip. ip\<lparr>addrs := (addrs ip)(NDIRECT := addr)\<rparr>) s)
                     else Ret (addrs (itable s k) NDIRECT) s) (\<lambda>ind s.
                   if ind = 0 then Ret 0 s
                   else if ldn 4 (blocks s ind) (4 * bn) = 0
                   then let (addr, s) = balloc s
                        in Ret addr (if addr \<noteq> 0 then set_block ind (stn 4 (blocks s ind) (4 * bn) addr) s else s)
                   else Ret (ldn 4 (blocks s ind) (4 * bn)) s)
              else Panic ''bmap: out of range'')"

record stat =
  st_dev :: nat
  st_ino :: nat
  st_type :: nat
  st_nlink :: nat
  st_size :: nat

definition stati :: "nat \<Rightarrow> fs \<Rightarrow> stat" where
  "stati k s = (let ip = itable s k in \<lparr>st_dev = idev ip, st_ino = inum ip, st_type = itype ip, st_nlink = nlink ip, st_size = isize ip\<rparr>)"

text \<open>Where \<open>readi\<close> puts bytes and where \<open>writei\<close> takes them from, with the result -1 when not all could be copied.\<close>

type_synonym 'm sink = "nat \<Rightarrow> byte list \<Rightarrow> 'm \<Rightarrow> ('m, int) outcome"
type_synonym 'm source = "nat \<Rightarrow> nat \<Rightarrow> 'm \<Rightarrow> ('m, int \<times> byte list) outcome"

definition block_bytes :: "mem \<Rightarrow> nat \<Rightarrow> nat \<Rightarrow> byte list" where
  "block_bytes d off n = map (\<lambda>i. d (off + i)) [0..<n]"

definition put_block_bytes :: "mem \<Rightarrow> nat \<Rightarrow> byte list \<Rightarrow> mem" where
  "put_block_bytes d off bs = (\<lambda>x. if off \<le> x \<and> x < off + length bs then bs ! (x - off) else d x)"

definition on_fs :: "(fs \<Rightarrow> (fs, 'a) outcome) \<Rightarrow> fs \<times> 'm \<Rightarrow> (fs \<times> 'm, 'a) outcome" where
  "on_fs f sm = (case f (fst sm) of Ret a s \<Rightarrow> Ret a (s, snd sm) | Panic e \<Rightarrow> Panic e | Sleep c s \<Rightarrow> Sleep c (s, snd sm) | Diverge \<Rightarrow> Diverge)"

definition on_mem :: "('m \<Rightarrow> ('m, 'a) outcome) \<Rightarrow> fs \<times> 'm \<Rightarrow> (fs \<times> 'm, 'a) outcome" where
  "on_mem f sm = (case f (snd sm) of Ret a m \<Rightarrow> Ret a (fst sm, m) | Panic e \<Rightarrow> Panic e | Sleep c m \<Rightarrow> Sleep c (fst sm, m) | Diverge \<Rightarrow> Diverge)"

text \<open>The loops, with the bytes left and those done. What \<open>either_copyin\<close> copied before it failed stays in the buffer.\<close>

function read_loop :: "'m sink \<Rightarrow> nat \<Rightarrow> nat \<Rightarrow> nat \<Rightarrow> nat \<Rightarrow> nat \<Rightarrow> fs \<times> 'm \<Rightarrow> (fs \<times> 'm, int) outcome" where
  "read_loop out k dst off rem tot sm =
     (if rem = 0 then Ret (int tot) sm
      else obind (on_fs (bmap k (off div FS_BSIZE)) sm) (\<lambda>addr sm.
        if addr = 0 then Ret (int tot) sm
        else let m = min rem (FS_BSIZE - off mod FS_BSIZE)
             in obind (on_mem (out dst (block_bytes (blocks (fst sm) addr) (off mod FS_BSIZE) m)) sm) (\<lambda>r sm.
                  if r = -1 then Ret (-1) sm else read_loop out k (dst + m) (off + m) (rem - m) (tot + m) sm)))"
  by auto
termination
  by (relation "measure (\<lambda>(out, k, dst, off, rem, tot, sm). rem)") (auto simp: FS_BSIZE_def)

declare read_loop.simps [simp del]

definition readi :: "'m sink \<Rightarrow> nat \<Rightarrow> nat \<Rightarrow> nat \<Rightarrow> nat \<Rightarrow> fs \<times> 'm \<Rightarrow> (fs \<times> 'm, int) outcome" where
  "readi out k dst off n sm =
     (let len = isize (itable (fst sm) k)
      in if off > len \<or> (off + n) mod 2 ^ 32 < off then Ret 0 sm
         else read_loop out k dst off (if off + n > len then len - off else n) 0 sm)"

text \<open>The bytes written and the offset after them.\<close>

function write_loop :: "'m source \<Rightarrow> nat \<Rightarrow> nat \<Rightarrow> nat \<Rightarrow> nat \<Rightarrow> nat \<Rightarrow> fs \<times> 'm \<Rightarrow> (fs \<times> 'm, nat \<times> nat) outcome" where
  "write_loop inp k src off rem tot sm =
     (if rem = 0 then Ret (tot, off) sm
      else obind (on_fs (bmap k (off div FS_BSIZE)) sm) (\<lambda>addr sm.
        if addr = 0 then Ret (tot, off) sm
        else let m = min rem (FS_BSIZE - off mod FS_BSIZE)
             in obind (on_mem (inp src m) sm) (\<lambda>(r, bs) sm.
                  let sm = (set_block addr (put_block_bytes (blocks (fst sm) addr) (off mod FS_BSIZE) bs) (fst sm), snd sm)
                  in if r = -1 then Ret (tot, off) sm else write_loop inp k (src + m) (off + m) (rem - m) (tot + m) sm)))"
  by auto
termination
  by (relation "measure (\<lambda>(inp, k, src, off, rem, tot, sm). rem)") (auto simp: FS_BSIZE_def)

declare write_loop.simps [simp del]

definition writei :: "'m source \<Rightarrow> nat \<Rightarrow> nat \<Rightarrow> nat \<Rightarrow> nat \<Rightarrow> fs \<times> 'm \<Rightarrow> (fs \<times> 'm, int) outcome" where
  "writei inp k src off n sm =
     (if off > isize (itable (fst sm) k) \<or> (off + n) mod 2 ^ 32 < off then Ret (-1) sm
      else if off + n > MAXFILE * FS_BSIZE then Ret (-1) sm
      else obind (write_loop inp k src off n 0 sm) (\<lambda>(tot, off) (s, m).
        let s = (if off > isize (itable s k) then set_inode k (\<lambda>ip. ip\<lparr>isize := off\<rparr>) s else s)
        in Ret (int tot) (iupdate k s, m)))"

text \<open>Buffers of the kernel: what was read is appended, what is written is taken from a list.\<close>

definition kernel_sink :: "byte list sink" where
  "kernel_sink dst bs acc = Ret 0 (acc @ bs)"

definition kernel_source :: "byte list source" where
  "kernel_source src n buf = Ret (0, map (\<lambda>i. if src + i < length buf then buf ! (src + i) else 0) [0..<n]) buf"

definition readk :: "nat \<Rightarrow> nat \<Rightarrow> nat \<Rightarrow> fs \<Rightarrow> (fs, int \<times> byte list) outcome" where
  "readk k off n s =
     (case readi kernel_sink k 0 off n (s, []) of Ret r (s, bs) \<Rightarrow> Ret (r, bs) s | Panic e \<Rightarrow> Panic e | Sleep c (s, _) \<Rightarrow> Sleep c s | Diverge \<Rightarrow> Diverge)"

definition writek :: "nat \<Rightarrow> nat \<Rightarrow> byte list \<Rightarrow> fs \<Rightarrow> (fs, int) outcome" where
  "writek k off bs s =
     (case writei kernel_source k 0 off (length bs) (s, bs) of Ret r (s, _) \<Rightarrow> Ret r s | Panic e \<Rightarrow> Panic e | Sleep c (s, _) \<Rightarrow> Sleep c s | Diverge \<Rightarrow> Diverge)"

section \<open>Directories\<close>

definition namecmp :: "byte list \<Rightarrow> byte list \<Rightarrow> bool" where
  "namecmp a b \<longleftrightarrow> takeWhile (\<lambda>c. c \<noteq> 0) (take DIRSIZ a) = takeWhile (\<lambda>c. c \<noteq> 0) (take DIRSIZ b)"

text \<open>An entry of 16 bytes: inode number and name.\<close>

definition de_inum :: "byte list \<Rightarrow> nat" where
  "de_inum de = unat (de ! 0) + 256 * unat (de ! 1)"

definition de_name :: "byte list \<Rightarrow> byte list" where
  "de_name de = take DIRSIZ (drop 2 de)"

definition dirent :: "nat \<Rightarrow> byte list \<Rightarrow> byte list" where
  "dirent n name = [word_of_nat n, word_of_nat (n div 256)] @ take DIRSIZ (takeWhile (\<lambda>c. c \<noteq> 0) name @ replicate DIRSIZ 0)"

definition entry_offsets :: "nat \<Rightarrow> nat list" where
  "entry_offsets n = map (\<lambda>i. DIRENT_SIZE * i) [0..<(n + DIRENT_SIZE - 1) div DIRENT_SIZE]"

fun lookup_loop :: "nat \<Rightarrow> byte list \<Rightarrow> nat list \<Rightarrow> fs \<Rightarrow> (fs, (nat \<times> nat) option) outcome" where
  "lookup_loop k name [] s = Ret None s"
| "lookup_loop k name (off # offs) s =
     obind (readk k off DIRENT_SIZE s) (\<lambda>(r, de) s.
       if r \<noteq> int DIRENT_SIZE then Panic ''dirlookup read''
       else if de_inum de = 0 then lookup_loop k name offs s
       else if namecmp name (de_name de)
       then obind (iget (idev (itable s k)) (de_inum de) s) (\<lambda>j s. Ret (Some (j, off)) s)
       else lookup_loop k name offs s)"

text \<open>The inode found and the offset of its entry.\<close>

definition dirlookup :: "nat \<Rightarrow> byte list \<Rightarrow> fs \<Rightarrow> (fs, (nat \<times> nat) option) outcome" where
  "dirlookup k name s =
     (if itype (itable s k) \<noteq> T_DIR then Panic ''dirlookup not DIR''
      else lookup_loop k name (entry_offsets (isize (itable s k))) s)"

text \<open>The offset of the first free entry, or the end.\<close>

fun free_entry :: "nat \<Rightarrow> nat list \<Rightarrow> nat \<Rightarrow> fs \<Rightarrow> (fs, nat) outcome" where
  "free_entry k [] fin s = Ret fin s"
| "free_entry k (off # offs) fin s =
     obind (readk k off DIRENT_SIZE s) (\<lambda>(r, de) s.
       if r \<noteq> int DIRENT_SIZE then Panic ''dirlink read''
       else if de_inum de = 0 then Ret off s
       else free_entry k offs (off + DIRENT_SIZE) s)"

definition dirlink :: "nat \<Rightarrow> byte list \<Rightarrow> nat \<Rightarrow> fs \<Rightarrow> (fs, int) outcome" where
  "dirlink k name n s =
     obind (dirlookup k name s) (\<lambda>r s.
       case r of Some (j, _) \<Rightarrow> obind (iput j s) (\<lambda>_ s. Ret (-1) s)
       | None \<Rightarrow>
         obind (free_entry k (entry_offsets (isize (itable s k))) 0 s) (\<lambda>off s.
         obind (writek k off (dirent n name) s) (\<lambda>r s.
           if r \<noteq> int DIRENT_SIZE then Ret (-1) s else Ret 0 s)))"

section \<open>Paths\<close>

text \<open>The rest of the path and the element, cut to \<open>DIRSIZ\<close> characters.\<close>

definition skipelem :: "byte list \<Rightarrow> (byte list \<times> byte list) option" where
  "skipelem path =
     (let path = dropWhile (\<lambda>c. c = 47) path
      in if path = [] then None
         else let s = takeWhile (\<lambda>c. c \<noteq> 47) path; path = dropWhile (\<lambda>c. c \<noteq> 47) path
              in Some (dropWhile (\<lambda>c. c = 47) path, take DIRSIZ s))"

lemma skipelem_shorter: "skipelem path = Some (rest, name) \<Longrightarrow> length rest < length path"
proof -
  assume h: "skipelem path = Some (rest, name)"
  define p where "p = dropWhile (\<lambda>c. c = 47) path"
  have p: "p \<noteq> []" "rest = dropWhile (\<lambda>c. c = 47) (dropWhile (\<lambda>c. c \<noteq> 47) p)" using h by (auto simp: skipelem_def Let_def p_def split: if_splits)
  then obtain c q where c: "p = c # q" by (cases p) auto
  have "hd p \<noteq> 47" using hd_dropWhile [of "\<lambda>c. c = 47" path] p(1) by (simp add: p_def)
  then have "rest = dropWhile (\<lambda>c. c = 47) (dropWhile (\<lambda>c. c \<noteq> 47) q)" using p(2) c by simp
  then have "length rest \<le> length q" by (metis length_dropWhile_le le_trans)
  moreover have "length p \<le> length path" by (simp add: p_def length_dropWhile_le)
  ultimately show "length rest < length path" using c by simp
qed

text \<open>The walk along a path from an inode the caller holds a reference to; \<open>nameiparent\<close> stops one level early and gives the last element.\<close>

function namex_loop :: "bool \<Rightarrow> byte list \<Rightarrow> nat \<Rightarrow> byte list \<Rightarrow> fs \<Rightarrow> (fs, (nat \<times> byte list) option) outcome" where
  "namex_loop parent path k name s =
     (case skipelem path of
        None \<Rightarrow> if parent then obind (iput k s) (\<lambda>_ s. Ret None s) else Ret (Some (k, name)) s
      | Some (rest, name) \<Rightarrow>
        obind (ilock k s) (\<lambda>_ s.
          if itype (itable s k) \<noteq> T_DIR then obind (iunlockput k s) (\<lambda>_ s. Ret None s)
          else if parent \<and> rest = [] then obind (iunlock k s) (\<lambda>_ s. Ret (Some (k, name)) s)
          else obind (dirlookup k name s) (\<lambda>r s.
            case r of None \<Rightarrow> obind (iunlockput k s) (\<lambda>_ s. Ret None s)
            | Some (j, _) \<Rightarrow> obind (iunlockput k s) (\<lambda>_ s. namex_loop parent rest j name s))))"
  by auto
termination
  by (relation "measure (\<lambda>(parent, path, k, name, s). length path)") (auto dest: skipelem_shorter)

declare namex_loop.simps [simp del]

definition namex :: "nat \<Rightarrow> byte list \<Rightarrow> bool \<Rightarrow> fs \<Rightarrow> (fs, (nat \<times> byte list) option) outcome" where
  "namex cwd path parent s =
     (if path \<noteq> [] \<and> hd path = 47
      then obind (iget FS_ROOTDEV ROOTINO s) (\<lambda>k s. namex_loop parent path k [] s)
      else namex_loop parent path cwd [] (fs_idup cwd s))"

definition namei :: "nat \<Rightarrow> byte list \<Rightarrow> fs \<Rightarrow> (fs, nat option) outcome" where
  "namei cwd path s = obind (namex cwd path False s) (\<lambda>r s. Ret (map_option fst r) s)"

definition nameiparent :: "nat \<Rightarrow> byte list \<Rightarrow> fs \<Rightarrow> (fs, (nat \<times> byte list) option) outcome" where
  "nameiparent cwd path s = namex cwd path True s"

end
