(* ===== verification/Fs_Props.thy ===== *)
theory Fs_Props
  imports Fs
begin

text \<open>
  The disk under the file system: the free map, the block addresses of an inode, and the bytes of a file. A file is what \<open>file_byte\<close> says its bytes are;
  \<open>writei\<close> and \<open>readi\<close> are proved against it.
\<close>

section \<open>The free map\<close>

definition dstart :: "fs \<Rightarrow> nat" where
  "dstart s = sb_bmapstart (sb s) + sb_size (sb s) div BPB + 1"

definition layout_ok :: "fs \<Rightarrow> bool" where
  "layout_ok s \<longleftrightarrow> sb_inodestart (sb s) + sb_ninodes (sb s) div IPB + 1 \<le> sb_bmapstart (sb s) \<and> dstart s \<le> sb_size (sb s) \<and> sb_size (sb s) < 2 ^ 32"

definition used :: "fs \<Rightarrow> nat \<Rightarrow> bool" where
  "used s b \<longleftrightarrow> bit (bit_byte s b) (b mod 8)"

definition fs_ok :: "fs \<Rightarrow> bool" where
  "fs_ok s \<longleftrightarrow> layout_ok s \<and> (\<forall>b<dstart s. used s b)"

lemma mask_bit: "(w AND push_bit n 1 = 0) = (\<not> bit (w :: byte) n)"
  by (simp add: and_exp_eq_0_iff_not_bit push_bit_of_1)

lemma BPB_mod8: "b mod BPB mod 8 = b mod 8"
  by (simp add: BPB_def FS_BSIZE_def mod_mod_cancel)

lemma free_iff: "(bit_byte s b AND bitmask (b mod BPB) = 0) = (\<not> used s b)"
  unfolding bitmask_def used_def BPB_mod8 by (rule mask_bit)

lemma byte_index:
  assumes "x div BPB = b div BPB" "x mod BPB div 8 = b mod BPB div 8" "x mod 8 = b mod 8"
  shows "x = b"
proof -
  have "x mod BPB = x mod BPB div 8 * 8 + x mod BPB mod 8" by simp
  also have "\<dots> = b mod BPB div 8 * 8 + b mod BPB mod 8" using assms(2,3) by (simp only: BPB_mod8)
  also have "\<dots> = b mod BPB" by simp
  finally have "x mod BPB = b mod BPB" .
  moreover have "x = x div BPB * BPB + x mod BPB" "b = b div BPB * BPB + b mod BPB" by simp_all
  ultimately show ?thesis using assms(1) by metis
qed

lemma set_bit_byte_eq:
  assumes "sb s' = sb s" "blocks s' = blocks (set_bit_byte b v s)"
  shows "bit_byte s' x = (if x div BPB = b div BPB \<and> x mod BPB div 8 = b mod BPB div 8 then v else bit_byte s x)"
  using assms by (auto simp: bit_byte_def set_bit_byte_def set_block_def BBLOCK_def)

lemma used_set:
  assumes "used (set_bit_byte b (bit_byte s b OR bitmask (b mod BPB)) s) x = u"
  shows "u = (x = b \<or> used s x)"
proof -
  have e: "bit_byte (set_bit_byte b (bit_byte s b OR bitmask (b mod BPB)) s) x =
      (if x div BPB = b div BPB \<and> x mod BPB div 8 = b mod BPB div 8 then bit_byte s b OR bitmask (b mod BPB) else bit_byte s x)"
    by (rule set_bit_byte_eq) (simp_all add: set_bit_byte_def set_block_def)
  have m: "bit (bitmask (b mod BPB)) n \<longleftrightarrow> n = b mod 8" if "n < 8" for n
    using that unfolding bitmask_def BPB_mod8 by (auto simp: bit_simps)
  show ?thesis
  proof (cases "x div BPB = b div BPB \<and> x mod BPB div 8 = b mod BPB div 8")
    case True
    then have "bit_byte s x = bit_byte s b" by (simp add: bit_byte_def BBLOCK_def)
    then have "u = (used s x \<or> x mod 8 = b mod 8)" using assms e True m [of "x mod 8"] by (auto simp: used_def bit_or_iff)
    moreover have "x = b \<longleftrightarrow> x mod 8 = b mod 8" using byte_index True by blast
    ultimately show ?thesis by blast
  next
    case False
    then have "x \<noteq> b" by auto
    moreover have "bit_byte (set_bit_byte b (bit_byte s b OR bitmask (b mod BPB)) s) x = bit_byte s x" by (subst e) (use False in auto)
    ultimately show ?thesis using assms by (simp add: used_def)
  qed
qed

lemma used_cong:
  assumes "sb s' = sb s" "blocks s' (BBLOCK b (sb s)) = blocks s (BBLOCK b (sb s))"
  shows "used s' b = used s b"
  using assms by (simp add: used_def bit_byte_def)

lemma bitmap_low: "b < sb_size (sb s) \<Longrightarrow> BBLOCK b (sb s) < dstart s"
  unfolding BBLOCK_def dstart_def by (simp add: add.commute less_Suc_eq_le div_le_mono)

text \<open>What \<open>balloc\<close> does: all blocks are in use, or one that was free is marked and cleared.\<close>

definition allocated :: "fs \<Rightarrow> nat \<Rightarrow> fs \<Rightarrow> bool" where
  "allocated s b s' \<longleftrightarrow> dstart s \<le> b \<and> b < sb_size (sb s) \<and> \<not> used s b \<and> (\<forall>x < sb_size (sb s). used s' x \<longleftrightarrow> x = b \<or> used s x)
     \<and> (\<forall>x<FS_BSIZE. blocks s' b x = 0) \<and> (\<forall>x. x \<noteq> b \<longrightarrow> x < sb_bmapstart (sb s) \<or> dstart s \<le> x \<longrightarrow> blocks s' x = blocks s x)
     \<and> sb s' = sb s \<and> itable s' = itable s \<and> fs_ok s'"

lemma balloc_ok:
  assumes "fs_ok s" "balloc s = (b, s')"
  shows "b = 0 \<and> s' = s \<and> (\<forall>x < sb_size (sb s). used s x) \<or> allocated s b s'"
proof (cases "find (\<lambda>b. bit_byte s b AND bitmask (b mod BPB) = 0) [0..<sb_size (sb s)]")
  case None
  then have "\<forall>x < sb_size (sb s). used s x" by (auto simp: find_None_iff free_iff)
  then show ?thesis using None assms(2) by (simp add: balloc_def)
next
  case (Some c)
  define t where "t = set_bit_byte b (bit_byte s b OR bitmask (b mod BPB)) s"
  have c: "c = b" "s' = bzero b t" using Some assms(2) by (auto simp: balloc_def t_def)
  have "c < sb_size (sb s)" "\<not> used s c" using Some free_iff by (auto dest!: find_SomeD)
  then have b: "b < sb_size (sb s)" "\<not> used s b" using c by simp_all
  then have d: "dstart s \<le> b" using assms(1) by (meson fs_ok_def not_le)
  have sb: "sb s' = sb s" "itable s' = itable s" by (simp_all add: c t_def bzero_def set_block_def set_bit_byte_def)
  have bl: "blocks s' x = (if x = b then memset (blocks t b) 0 0 FS_BSIZE else blocks t x)" for x by (simp add: c bzero_def set_block_def)
  have bt: "blocks t x = blocks s x" if "x \<noteq> BBLOCK b (sb s)" for x using that by (simp add: t_def set_bit_byte_def set_block_def)
  have bb: "sb_bmapstart (sb s) \<le> BBLOCK b (sb s)" "BBLOCK b (sb s) < dstart s" using bitmap_low [OF b(1)] by (simp_all add: BBLOCK_def)
  have u: "used s' x \<longleftrightarrow> x = b \<or> used s x" if "x < sb_size (sb s)" for x
  proof -
    have "BBLOCK x (sb s) \<noteq> b" using bitmap_low [OF that] d by simp
    then have "used s' x = used t x" using bl by (intro used_cong) (simp_all add: sb t_def set_bit_byte_def set_block_def)
    then show ?thesis using used_set [OF refl] unfolding t_def by blast
  qed
  have ds: "dstart s' = dstart s" "layout_ok s' = layout_ok s" by (simp_all add: dstart_def layout_ok_def sb)
  have "fs_ok s'" using assms(1) u ds unfolding fs_ok_def layout_ok_def by (metis less_le_trans)
  moreover have "\<forall>x<FS_BSIZE. blocks s' b x = 0" by (simp add: bl memset_apply)
  moreover have "\<forall>x. x \<noteq> b \<longrightarrow> x < sb_bmapstart (sb s) \<or> dstart s \<le> x \<longrightarrow> blocks s' x = blocks s x" using bl bt bb by auto
  ultimately show ?thesis using b d u sb by (simp add: allocated_def)
qed

section \<open>The blocks of an inode\<close>

definition data_block :: "fs \<Rightarrow> nat \<Rightarrow> bool" where
  "data_block s b \<longleftrightarrow> dstart s \<le> b \<and> b < sb_size (sb s) \<and> used s b"

definition indirect :: "fs \<Rightarrow> nat \<Rightarrow> nat" where
  "indirect s k = addrs (itable s k) NDIRECT"

definition iaddr :: "fs \<Rightarrow> nat \<Rightarrow> nat \<Rightarrow> nat" where
  "iaddr s k bn = (if bn < NDIRECT then addrs (itable s k) bn
     else if indirect s k = 0 then 0 else ldn 4 (blocks s (indirect s k)) (4 * (bn - NDIRECT)))"

text \<open>Every address is 0 or a data block of its own.\<close>

definition inode_ok :: "fs \<Rightarrow> nat \<Rightarrow> bool" where
  "inode_ok s k \<longleftrightarrow> (\<forall>bn<MAXFILE. iaddr s k bn \<noteq> 0 \<longrightarrow> data_block s (iaddr s k bn) \<and> iaddr s k bn \<noteq> indirect s k)
     \<and> (indirect s k \<noteq> 0 \<longrightarrow> data_block s (indirect s k))
     \<and> (\<forall>bn<MAXFILE. \<forall>bm<MAXFILE. iaddr s k bn \<noteq> 0 \<longrightarrow> iaddr s k bn = iaddr s k bm \<longrightarrow> bn = bm)"

lemma inode_ok_inj: "inode_ok s k \<Longrightarrow> bn < MAXFILE \<Longrightarrow> bm < MAXFILE \<Longrightarrow> iaddr s k bn \<noteq> 0 \<Longrightarrow> iaddr s k bn = iaddr s k bm \<Longrightarrow> bn = bm"
  by (simp add: inode_ok_def)

definition file_byte :: "fs \<Rightarrow> nat \<Rightarrow> nat \<Rightarrow> byte" where
  "file_byte s k x = (if iaddr s k (x div FS_BSIZE) = 0 then 0 else blocks s (iaddr s k (x div FS_BSIZE)) (x mod FS_BSIZE))"

definition owned :: "fs \<Rightarrow> nat \<Rightarrow> nat set" where
  "owned s k = {b. b \<noteq> 0 \<and> (b = indirect s k \<or> (\<exists>bn<MAXFILE. iaddr s k bn = b))}"

text \<open>What an operation on the contents of inode \<open>k\<close> leaves alone.\<close>

definition keeps :: "fs \<Rightarrow> nat \<Rightarrow> fs \<Rightarrow> bool" where
  "keeps s k s' \<longleftrightarrow> sb s' = sb s \<and> (\<forall>j. j \<noteq> k \<longrightarrow> itable s' j = itable s j) \<and> inum (itable s' k) = inum (itable s k) \<and> isize (itable s' k) = isize (itable s k)
     \<and> itype (itable s' k) = itype (itable s k) \<and> idev (itable s' k) = idev (itable s k)
     \<and> (\<forall>b < sb_size (sb s). used s b \<longrightarrow> used s' b) \<and> (\<forall>b. data_block s b \<longrightarrow> b \<notin> owned s k \<longrightarrow> blocks s' b = blocks s b)
     \<and> (\<forall>b\<in>owned s' k. b < sb_size (sb s) \<longrightarrow> b \<in> owned s k \<or> \<not> used s b) \<and> (\<forall>b < sb_bmapstart (sb s). blocks s' b = blocks s b)"

lemma keeps_refl: "keeps s k s"
  by (simp add: keeps_def)

lemma dstart_cong: "sb s' = sb s \<Longrightarrow> dstart s' = dstart s"
  by (simp add: dstart_def)

lemma keeps_data: "keeps s k s' \<Longrightarrow> data_block s b \<Longrightarrow> data_block s' b"
  by (simp add: keeps_def data_block_def dstart_def)

lemma keeps_trans:
  assumes "keeps s k s'" "keeps s' k s''"
  shows "keeps s k s''"
proof -
  have "blocks s'' b = blocks s b" if "data_block s b" "b \<notin> owned s k" for b
  proof -
    have "data_block s' b" using keeps_data [OF assms(1) that(1)] .
    moreover have "b \<notin> owned s' k" using assms(1) that by (auto simp: keeps_def data_block_def)
    ultimately show ?thesis using assms that by (simp add: keeps_def)
  qed
  moreover have "b \<in> owned s k \<or> \<not> used s b" if o: "b \<in> owned s'' k" and z: "b < sb_size (sb s)" for b
    using assms o z unfolding keeps_def by metis
  ultimately show ?thesis using assms unfolding keeps_def by simp
qed

text \<open>A new block \<open>b\<close> of inode \<open>k\<close>: block \<open>bn\<close> of the file, or the indirect block when \<open>bn\<close> is \<open>None\<close>.\<close>

definition grown :: "fs \<Rightarrow> nat \<Rightarrow> nat \<Rightarrow> nat option \<Rightarrow> fs \<Rightarrow> bool" where
  "grown s k b bn s' \<longleftrightarrow> dstart s \<le> b \<and> b < sb_size (sb s) \<and> \<not> used s b \<and> (\<forall>x. x < sb_size (sb s) \<longrightarrow> used s' x = (x = b \<or> used s x))
     \<and> sb s' = sb s \<and> (\<forall>j. j \<noteq> k \<longrightarrow> itable s' j = itable s j) \<and> inum (itable s' k) = inum (itable s k) \<and> isize (itable s' k) = isize (itable s k)
     \<and> itype (itable s' k) = itype (itable s k) \<and> idev (itable s' k) = idev (itable s k)
     \<and> (\<forall>m<MAXFILE. iaddr s' k m = (if bn = Some m then b else iaddr s k m)) \<and> (\<forall>m. bn = Some m \<longrightarrow> iaddr s k m = 0 \<and> m < MAXFILE)
     \<and> (if bn = None then indirect s k = 0 \<and> indirect s' k = b else indirect s' k = indirect s k)
     \<and> (\<forall>x. data_block s x \<longrightarrow> x \<noteq> indirect s k \<longrightarrow> blocks s' x = blocks s x) \<and> (bn \<noteq> None \<longrightarrow> (\<forall>x<FS_BSIZE. blocks s' b x = 0))
     \<and> (\<forall>x. x < sb_bmapstart (sb s) \<longrightarrow> blocks s' x = blocks s x)"

lemma grown_ok:
  assumes g: "grown s k b bn s'" and i: "inode_ok s k"
  shows "inode_ok s' k" "keeps s k s'" "\<And>x. x < MAXFILE * FS_BSIZE \<Longrightarrow> file_byte s' k x = file_byte s k x"
proof -
  have b: "dstart s \<le> b" "b < sb_size (sb s)" "\<not> used s b" "b \<noteq> 0" using g by (auto simp: grown_def dstart_def)
  have u: "\<And>x. x < sb_size (sb s) \<Longrightarrow> used s' x = (x = b \<or> used s x)" and sb: "sb s' = sb s" using g by (simp_all add: grown_def)
  have ia: "\<And>m. m < MAXFILE \<Longrightarrow> iaddr s' k m = (if bn = Some m then b else iaddr s k m)" and new: "\<And>m. bn = Some m \<Longrightarrow> iaddr s k m = 0"
    using g by (simp_all add: grown_def)
  have ind: "if bn = None then indirect s k = 0 \<and> indirect s' k = b else indirect s' k = indirect s k" using g by (simp add: grown_def)
  have bl: "\<And>x. data_block s x \<Longrightarrow> x \<noteq> indirect s k \<Longrightarrow> blocks s' x = blocks s x" using g by (simp add: grown_def)
  have z: "\<And>x. bn \<noteq> None \<Longrightarrow> x < FS_BSIZE \<Longrightarrow> blocks s' b x = 0" using g by (simp add: grown_def)
  have d: "data_block s' x \<longleftrightarrow> data_block s x \<or> x = b" for x using u b dstart_cong [OF sb] by (auto simp: data_block_def sb)
  have nd: "\<not> data_block s b" using b by (simp add: data_block_def)
  have I: "\<And>m. m < MAXFILE \<Longrightarrow> iaddr s k m \<noteq> 0 \<Longrightarrow> data_block s (iaddr s k m) \<and> iaddr s k m \<noteq> indirect s k" "indirect s k \<noteq> 0 \<Longrightarrow> data_block s (indirect s k)"
      "\<And>m m'. m < MAXFILE \<Longrightarrow> m' < MAXFILE \<Longrightarrow> iaddr s k m \<noteq> 0 \<Longrightarrow> iaddr s k m = iaddr s k m' \<Longrightarrow> m = m'"
    using i unfolding inode_ok_def by blast+
  show "inode_ok s' k"
    unfolding inode_ok_def
  proof (intro conjI allI impI)
    fix m assume m: "m < MAXFILE" "iaddr s' k m \<noteq> 0"
    show "data_block s' (iaddr s' k m)" using m ia [OF m(1)] I(1) [OF m(1)] d by (auto split: if_splits)
    show "iaddr s' k m \<noteq> indirect s' k" using m ia [OF m(1)] I(1) [OF m(1)] I(2) ind nd b(4) by (auto split: if_splits)
  next
    show "data_block s' (indirect s' k)" if "indirect s' k \<noteq> 0" using that ind I(2) d by (auto split: if_splits)
  next
    fix m m' assume m: "m < MAXFILE" "m' < MAXFILE" "iaddr s' k m \<noteq> 0" "iaddr s' k m = iaddr s' k m'"
    then show "m = m'" using ia I(1) I(3) nd by (auto split: if_splits)
  qed
  have ow: "x \<in> owned s k \<or> x = b" if "x \<in> owned s' k" for x using that ia ind by (auto simp: owned_def split: if_splits)
  show "keeps s k s'"
    unfolding keeps_def
  proof (intro conjI allI impI ballI)
    show "blocks s' x = blocks s x" if "data_block s x" "x \<notin> owned s k" for x
    proof (cases "x = indirect s k")
      case True
      then have "x \<noteq> 0" using that b(1) by (auto simp: data_block_def dstart_def)
      then show ?thesis using that True by (auto simp: owned_def)
    qed (use bl that in blast)
    show "x \<in> owned s k \<or> \<not> used s x" if "x \<in> owned s' k" for x using ow [OF that] b(3) by auto
  qed (use g u sb in \<open>auto simp: grown_def\<close>)
  fix x assume x: "x < MAXFILE * FS_BSIZE"
  then have m: "x div FS_BSIZE < MAXFILE" by (simp add: less_mult_imp_div_less)
  have r: "x mod FS_BSIZE < FS_BSIZE" by (simp add: FS_BSIZE_def)
  show "file_byte s' k x = file_byte s k x"
  proof (cases "bn = Some (x div FS_BSIZE)")
    case True
    then show ?thesis using ia [OF m] new z [OF _ r] by (simp add: file_byte_def)
  next
    case False
    then have "iaddr s' k (x div FS_BSIZE) = iaddr s k (x div FS_BSIZE)" using ia [OF m] by simp
    then show ?thesis using I(1) [OF m] bl by (simp add: file_byte_def)
  qed
qed

lemma allocated_grown:
  assumes a: "allocated s b t" and i: "inode_ok s k"
  shows "\<And>x. data_block s x \<Longrightarrow> blocks t x = blocks s x" "iaddr t k m = iaddr s k m" "indirect t k = indirect s k"
    "\<And>x. x < sb_bmapstart (sb s) \<Longrightarrow> blocks t x = blocks s x"
proof -
  show "\<And>x. x < sb_bmapstart (sb s) \<Longrightarrow> blocks t x = blocks s x" using a by (auto simp: allocated_def dstart_def)
  show d: "\<And>x. data_block s x \<Longrightarrow> blocks t x = blocks s x" using a by (auto simp: allocated_def data_block_def)
  show ind: "indirect t k = indirect s k" using a by (simp add: allocated_def indirect_def)
  show "iaddr t k m = iaddr s k m"
  proof (cases "indirect s k = 0")
    case True then show ?thesis using ind a by (simp add: iaddr_def allocated_def)
  next
    case False
    then have "blocks t (indirect s k) = blocks s (indirect s k)" using d i by (simp add: inode_ok_def)
    then show ?thesis using ind a by (simp add: iaddr_def allocated_def)
  qed
qed

lemma set_inode_fields [simp]: "blocks (set_inode k f s) = blocks s" "sb (set_inode k f s) = sb s" "itable (set_inode k f s) j = (if j = k then f (itable s k) else itable s j)"
  by (simp_all add: set_inode_def)

lemma used_blocks: "blocks s' = blocks s \<Longrightarrow> sb s' = sb s \<Longrightarrow> used s' b = used s b"
  by (simp add: used_def bit_byte_def)

lemma fs_ok_blocks: "blocks s' = blocks s \<Longrightarrow> sb s' = sb s \<Longrightarrow> fs_ok s' = fs_ok s"
  by (simp add: fs_ok_def layout_ok_def dstart_def used_def bit_byte_def)

lemma grown_direct:
  assumes a: "allocated s b t" and i: "inode_ok s k" and bn: "bn < NDIRECT" "addrs (itable s k) bn = 0"
  shows "grown s k b (Some bn) (set_inode k (\<lambda>ip. ip\<lparr>addrs := (addrs ip)(bn := b)\<rparr>) t)" (is "grown _ _ _ _ ?u")
proof -
  note A = allocated_grown [OF a i]
  have it: "itable t = itable s" using a by (simp add: allocated_def)
  have ind: "indirect ?u k = indirect s k" using bn it by (simp add: indirect_def)
  have ia: "iaddr ?u k m = (if Some bn = Some m then b else iaddr s k m)" for m
    using A(2) [of m] A(3) ind bn(1) by (auto simp: iaddr_def it)
  have u: "used ?u x = used t x" for x by (rule used_blocks) simp_all
  show ?thesis unfolding grown_def
    using a bn ia ind A(1,4) it by (auto simp: allocated_def u iaddr_def MAXFILE_def)
qed

lemma grown_indirect:
  assumes a: "allocated s b t" and i: "inode_ok s k" and z: "indirect s k = 0"
  shows "grown s k b None (set_inode k (\<lambda>ip. ip\<lparr>addrs := (addrs ip)(NDIRECT := b)\<rparr>) t)" (is "grown _ _ _ _ ?u")
proof -
  note A = allocated_grown [OF a i]
  have it: "itable t = itable s" and zb: "\<And>x. x < FS_BSIZE \<Longrightarrow> blocks t b x = 0" using a by (simp_all add: allocated_def)
  have ind: "indirect ?u k = b" by (simp add: indirect_def)
  have "ldn 4 (blocks t b) (4 * (m - NDIRECT)) = 0" if "m < MAXFILE" for m
  proof -
    have "ldn 4 (blocks t b) (4 * (m - NDIRECT)) = ldn 4 (\<lambda>_. 0) (4 * (m - NDIRECT))"
      using that zb by (intro ldn_cong) (auto simp: MAXFILE_def NDIRECT_def NINDIRECT_def FS_BSIZE_def)
    then show ?thesis by (simp add: ldn_zero)
  qed
  then have ia: "iaddr ?u k m = iaddr s k m" if "m < MAXFILE" for m
    using that z ind by (auto simp: iaddr_def it)
  have u: "used ?u x = used t x" for x by (rule used_blocks) simp_all
  show ?thesis unfolding grown_def using a z ia ind A(1,4) it by (auto simp: allocated_def u)
qed

lemma grown_entry:
  assumes a: "allocated s b t" and i: "inode_ok s k" and z: "indirect s k \<noteq> 0" "bn < NINDIRECT" "iaddr s k (NDIRECT + bn) = 0" and ok: "fs_ok s"
  shows "grown s k b (Some (NDIRECT + bn)) (set_block (indirect s k) (stn 4 (blocks t (indirect s k)) (4 * bn) b) t)" (is "grown _ _ _ _ ?u")
proof -
  note A = allocated_grown [OF a i]
  have it: "itable ?u = itable s" "sb ?u = sb s" and sz: "b < 2 ^ 32" using a ok by (auto simp: allocated_def set_block_def fs_ok_def layout_ok_def)
  have di: "data_block s (indirect s k)" using i z(1) by (simp add: inode_ok_def)
  have nb: "b \<noteq> indirect s k" using di a by (auto simp: data_block_def allocated_def)
  have bu: "blocks ?u x = (if x = indirect s k then stn 4 (blocks t (indirect s k)) (4 * bn) b else blocks t x)" for x by (simp add: set_block_def)
  have ind: "indirect ?u k = indirect s k" using it by (simp add: indirect_def)
  have ia: "iaddr ?u k m = (if Some (NDIRECT + bn) = Some m then b else iaddr s k m)" for m
  proof (cases "m < NDIRECT")
    case True
    then show ?thesis by (simp add: iaddr_def it)
  next
    case False
    then obtain j where j: "m = NDIRECT + j" by (metis le_add_diff_inverse not_less)
    have "ldn 4 (stn 4 (blocks t (indirect s k)) (4 * bn) b) (4 * j) = (if j = bn then b else ldn 4 (blocks t (indirect s k)) (4 * j))"
    proof (cases "j = bn")
      case True
      then show ?thesis using sz ldn_stn_same [of 4 _ "4 * bn" b] by simp
    next
      case False
      then show ?thesis by (simp add: ldn_stn_apart nat_neq_iff) (metis False ldn_stn_apart less_Suc_eq_le mult_Suc_right nat_neq_iff nat_mult_le_cancel_disj add.commute Suc_leI)
    qed
    then show ?thesis using A(1) [OF di] z(1) unfolding j iaddr_def ind bu by auto
  qed
  have u: "used ?u x = used t x" if "x < sb_size (sb s)" for x
  proof (rule used_cong)
    show "sb ?u = sb t" using it a by (simp add: allocated_def)
    have "BBLOCK x (sb t) < dstart s" using bitmap_low [of x t] that a by (simp add: allocated_def dstart_def)
    then show "blocks ?u (BBLOCK x (sb t)) = blocks t (BBLOCK x (sb t))" using di by (simp add: bu data_block_def)
  qed
  have low: "indirect s k \<ge> sb_bmapstart (sb s)" using di by (simp add: data_block_def dstart_def)
  show ?thesis unfolding grown_def
    using a z ia ind A(1,4) it nb u low by (auto simp: allocated_def bu MAXFILE_def)
qed

lemma grown_fs_ok:
  assumes "grown s k b bn s'" "fs_ok s"
  shows "fs_ok s'"
  using assms unfolding grown_def fs_ok_def layout_ok_def dstart_def by (metis less_le_trans)

text \<open>What \<open>bmap\<close> does: the file reads as before, and the address is that of its block; 0 when the disk is full.\<close>

definition same_file :: "fs \<Rightarrow> nat \<Rightarrow> fs \<Rightarrow> bool" where
  "same_file s k s' \<longleftrightarrow> fs_ok s' \<and> inode_ok s' k \<and> keeps s k s' \<and> (\<forall>x<MAXFILE * FS_BSIZE. file_byte s' k x = file_byte s k x)
     \<and> (\<forall>m<MAXFILE. iaddr s k m \<noteq> 0 \<longrightarrow> iaddr s' k m = iaddr s k m)"

lemma same_file_refl: "fs_ok s \<Longrightarrow> inode_ok s k \<Longrightarrow> same_file s k s"
  by (simp add: same_file_def keeps_refl)

lemma same_file_trans: "same_file s k s' \<Longrightarrow> same_file s' k s'' \<Longrightarrow> same_file s k s''"
  unfolding same_file_def using keeps_trans by auto

lemma grown_same_file:
  assumes "grown s k b bn s'" "inode_ok s k" "fs_ok s"
  shows "same_file s k s'"
proof -
  have "\<forall>m<MAXFILE. iaddr s k m \<noteq> 0 \<longrightarrow> iaddr s' k m = iaddr s k m" using assms(1) by (auto simp: grown_def)
  then show ?thesis using grown_ok [OF assms(1,2)] grown_fs_ok [OF assms(1,3)] by (simp add: same_file_def)
qed

lemma bmap_direct:
  assumes "fs_ok s" "inode_ok s k" "bn < NDIRECT"
  shows "\<exists>a s'. bmap k bn s = Ret a s' \<and> same_file s k s' \<and> (a = 0 \<longrightarrow> (\<forall>x. x < sb_size (sb s) \<longrightarrow> used s' x)) \<and> iaddr s' k bn = a"
proof (cases "addrs (itable s k) bn = 0")
  case False
  then show ?thesis using assms same_file_refl by (simp add: bmap_def iaddr_def)
next
  case True
  obtain b t where b: "balloc s = (b, t)" by fastforce
  show ?thesis
  proof (cases "b = 0")
    case True
    have "t = s \<and> (\<forall>x. x < sb_size (sb s) \<longrightarrow> used s x)" using balloc_ok [OF assms(1) b] True by (auto simp: allocated_def dstart_def)
    then show ?thesis using True b assms same_file_refl \<open>addrs (itable s k) bn = 0\<close> by (simp add: bmap_def iaddr_def assms(3))
  next
    case False
    then have a: "allocated s b t" using balloc_ok [OF assms(1) b] by simp
    note g = grown_direct [OF a assms(2,3) True]
    have "iaddr (set_inode k (\<lambda>ip. ip\<lparr>addrs := (addrs ip)(bn := b)\<rparr>) t) k bn = b" using assms(3) by (simp add: iaddr_def)
    then show ?thesis using False b assms True grown_same_file [OF g assms(2,1)] by (simp add: bmap_def)
  qed
qed

lemma bmap_entry:
  assumes "fs_ok s" "inode_ok s k" "bn < NINDIRECT" "indirect s k \<noteq> 0"
  shows "\<exists>a s'. (if ldn 4 (blocks s (indirect s k)) (4 * bn) = 0
       then let (addr, s1) = balloc s in Ret addr (if addr \<noteq> 0 then set_block (indirect s k) (stn 4 (blocks s1 (indirect s k)) (4 * bn) addr) s1 else s1)
       else Ret (ldn 4 (blocks s (indirect s k)) (4 * bn)) s) = Ret a s'
     \<and> same_file s k s' \<and> (a = 0 \<longrightarrow> (\<forall>x. x < sb_size (sb s) \<longrightarrow> used s' x)) \<and> iaddr s' k (NDIRECT + bn) = a"
proof -
  have ia: "iaddr s k (NDIRECT + bn) = ldn 4 (blocks s (indirect s k)) (4 * bn)" using assms(4) by (simp add: iaddr_def)
  show ?thesis
  proof (cases "ldn 4 (blocks s (indirect s k)) (4 * bn) = 0")
    case False
    then show ?thesis using assms same_file_refl ia by simp
  next
    case True
    obtain b t where b: "balloc s = (b, t)" by fastforce
    show ?thesis
    proof (cases "b = 0")
      case True
      have "t = s \<and> (\<forall>x. x < sb_size (sb s) \<longrightarrow> used s x)" using balloc_ok [OF assms(1) b] True by (auto simp: allocated_def dstart_def)
      then show ?thesis using True b assms same_file_refl \<open>ldn 4 _ _ = 0\<close> ia by simp
    next
      case False
      then have a: "allocated s b t" using balloc_ok [OF assms(1) b] by simp
      have z: "iaddr s k (NDIRECT + bn) = 0" using ia True by simp
      note g = grown_entry [OF a assms(2,4,3) z assms(1)]
      have "iaddr (set_block (indirect s k) (stn 4 (blocks t (indirect s k)) (4 * bn) b) t) k (NDIRECT + bn) = b"
        using g assms(3) by (simp add: grown_def MAXFILE_def)
      then show ?thesis using False b True grown_same_file [OF g assms(2,1)] by simp
    qed
  qed
qed

lemma bmap_ok:
  assumes "fs_ok s" "inode_ok s k" "bn < MAXFILE"
  shows "\<exists>a s'. bmap k bn s = Ret a s' \<and> same_file s k s' \<and> (a = 0 \<longrightarrow> (\<forall>x. x < sb_size (sb s) \<longrightarrow> used s' x)) \<and> iaddr s' k bn = a"
proof (cases "bn < NDIRECT")
  case True
  then show ?thesis using bmap_direct assms by simp
next
  case False
  then obtain j where j: "bn = NDIRECT + j" by (metis le_add_diff_inverse not_less)
  have jn: "j < NINDIRECT" using assms(3) j by (simp add: MAXFILE_def)
  define entry :: "nat \<Rightarrow> fs \<Rightarrow> (fs, nat) outcome" where "entry ind s = (if ind = 0 then Ret 0 s
                   else if ldn 4 (blocks s ind) (4 * j) = 0
                   then let (addr, s) = balloc s in Ret addr (if addr \<noteq> 0 then set_block ind (stn 4 (blocks s ind) (4 * j) addr) s else s)
                   else Ret (ldn 4 (blocks s ind) (4 * j)) s)" for ind s
  have run: "bmap k bn s = obind (if indirect s k = 0
                     then let (addr, s) = balloc s
                          in if addr = 0 then Ret 0 s else Ret addr (set_inode k (\<lambda>ip. ip\<lparr>addrs := (addrs ip)(NDIRECT := addr)\<rparr>) s)
                     else Ret (indirect s k) s) entry"
    using jn by (simp add: bmap_def j indirect_def entry_def [abs_def] Let_def)
  show ?thesis
  proof (cases "indirect s k = 0")
    case False
    have "bmap k bn s = entry (indirect s k) s" using run False by simp
    then show ?thesis using bmap_entry [OF assms(1,2) jn False] False unfolding j entry_def by simp
  next
    case True
    obtain b t where b: "balloc s = (b, t)" by fastforce
    show ?thesis
    proof (cases "b = 0")
      case bz: True
      have "t = s \<and> (\<forall>x. x < sb_size (sb s) \<longrightarrow> used s x)" using balloc_ok [OF assms(1) b] bz by (auto simp: allocated_def dstart_def)
      moreover have "bmap k bn s = Ret 0 t" using run True b bz by (simp add: entry_def)
      moreover have "iaddr s k bn = 0" using True by (simp add: iaddr_def j)
      ultimately show ?thesis using assms same_file_refl by simp
    next
      case bn0: False
      then have a: "allocated s b t" using balloc_ok [OF assms(1) b] by simp
      define u where "u = set_inode k (\<lambda>ip. ip\<lparr>addrs := (addrs ip)(NDIRECT := b)\<rparr>) t"
      have S: "same_file s k u" using grown_same_file [OF grown_indirect [OF a assms(2) True] assms(2,1)] by (simp add: u_def)
      then have U: "fs_ok u" "inode_ok u k" "sb u = sb s" by (simp_all add: same_file_def keeps_def)
      have i: "indirect u k = b" by (simp add: u_def indirect_def)
      have "bmap k bn s = entry (indirect u k) u" using run True b bn0 i by (simp add: u_def)
      then show ?thesis using bmap_entry [OF U(1,2) jn] i bn0 same_file_trans [OF S] U(3) unfolding j entry_def by fastforce
    qed
  qed
qed

section \<open>Reading and writing\<close>

definition wrote :: "fs \<Rightarrow> nat \<Rightarrow> nat \<Rightarrow> byte list \<Rightarrow> fs \<Rightarrow> bool" where
  "wrote s k off bs s' \<longleftrightarrow> fs_ok s' \<and> inode_ok s' k \<and> keeps s k s' \<and> (\<forall>m<MAXFILE. iaddr s k m \<noteq> 0 \<longrightarrow> iaddr s' k m = iaddr s k m)
     \<and> (\<forall>x<MAXFILE * FS_BSIZE. file_byte s' k x = (if off \<le> x \<and> x < off + length bs then bs ! (x - off) else file_byte s k x))
     \<and> (\<forall>x. off \<le> x \<longrightarrow> x < off + length bs \<longrightarrow> iaddr s' k (x div FS_BSIZE) \<noteq> 0)"

lemma wrote_nil: "same_file s k s' \<Longrightarrow> wrote s k off [] s'"
  by (auto simp: wrote_def same_file_def)

lemma wrote_same:
  assumes "same_file s k s1" "wrote s1 k off bs s'"
  shows "wrote s k off bs s'"
  using assms keeps_trans [of s k s1 s'] unfolding wrote_def same_file_def by auto

lemma wrote_append:
  assumes a: "wrote s k off bs s1" and b: "wrote s1 k (off + length bs) cs s'" and e: "off + length bs + length cs \<le> MAXFILE * FS_BSIZE"
  shows "wrote s k off (bs @ cs) s'"
proof -
  have "iaddr s' k (x div FS_BSIZE) \<noteq> 0" if x: "off \<le> x" "x < off + length (bs @ cs)" for x
  proof (cases "x < off + length bs")
    case True
    have "x div FS_BSIZE < MAXFILE" using x e by (intro less_mult_imp_div_less) simp
    moreover have "iaddr s1 k (x div FS_BSIZE) \<noteq> 0" using a x True by (simp add: wrote_def)
    ultimately show ?thesis using b by (simp add: wrote_def)
  qed (use b x in \<open>simp add: wrote_def\<close>)
  moreover have "file_byte s' k x = (if off \<le> x \<and> x < off + length (bs @ cs) then (bs @ cs) ! (x - off) else file_byte s k x)" if "x < MAXFILE * FS_BSIZE" for x
    using a b that unfolding wrote_def by (auto simp: nth_append)
  moreover have "keeps s k s'" using a b keeps_trans by (auto simp: wrote_def)
  ultimately show ?thesis using a b unfolding wrote_def by simp
qed

text \<open>Storing bytes into one block of the file.\<close>

lemma write_block:
  assumes ok: "fs_ok s" "inode_ok s k" and a: "iaddr s k bn = a" "a \<noteq> 0" "bn < MAXFILE" and r: "r + length bs \<le> FS_BSIZE"
  shows "wrote s k (bn * FS_BSIZE + r) bs (set_block a (put_block_bytes (blocks s a) r bs) s)" (is "wrote _ _ _ _ ?u")
proof -
  have d: "data_block s a" "a \<noteq> indirect s k" using ok(2) a by (auto simp: inode_ok_def)
  have bu: "blocks ?u x = (if x = a then put_block_bytes (blocks s a) r bs else blocks s x)" for x by (simp add: set_block_def)
  have it: "itable ?u = itable s" "sb ?u = sb s" by (simp_all add: set_block_def)
  have ind: "indirect ?u k = indirect s k" by (simp add: indirect_def it)
  have ia: "iaddr ?u k m = iaddr s k m" for m using d(2) by (auto simp: iaddr_def it ind bu)
  have low: "dstart s \<le> a" using d(1) by (simp add: data_block_def)
  have u: "used ?u x = used s x" if "x < sb_size (sb s)" for x
    using bitmap_low [OF that] low by (intro used_cong) (simp_all add: it bu)
  have fok: "fs_ok ?u" using ok(1) u unfolding fs_ok_def layout_ok_def dstart_def it by (metis less_le_trans)
  have db: "data_block ?u x = data_block s x" for x using u by (auto simp: data_block_def dstart_def it)
  have iok: "inode_ok ?u k" using ok(2) by (simp add: inode_ok_def ia ind db)
  have own: "owned ?u k = owned s k" "a \<in> owned s k" using a by (auto simp: owned_def ia ind)
  have kp: "keeps s k ?u" unfolding keeps_def using own low u by (auto simp: it bu dstart_def)
  have fb: "file_byte ?u k x = (if bn * FS_BSIZE + r \<le> x \<and> x < bn * FS_BSIZE + r + length bs then bs ! (x - (bn * FS_BSIZE + r)) else file_byte s k x)" if x: "x < MAXFILE * FS_BSIZE" for x
  proof (cases "x div FS_BSIZE = bn")
    case True
    have e: "x = bn * FS_BSIZE + x mod FS_BSIZE" using True div_mult_mod_eq [of x FS_BSIZE] by simp
    have "bn * FS_BSIZE + r \<le> x \<and> x < bn * FS_BSIZE + r + length bs \<longleftrightarrow> r \<le> x mod FS_BSIZE \<and> x mod FS_BSIZE < r + length bs"
      "x - (bn * FS_BSIZE + r) = x mod FS_BSIZE - r" by (subst (1 2) e, simp) (subst e, simp)
    then show ?thesis unfolding file_byte_def ia bu using True a by (simp add: put_block_bytes_def)
  next
    case False
    have m: "x div FS_BSIZE < MAXFILE" using x by (simp add: less_mult_imp_div_less)
    have "iaddr s k (x div FS_BSIZE) \<noteq> a" if "iaddr s k (x div FS_BSIZE) \<noteq> 0" using inode_ok_inj [OF ok(2) m a(3) that] False a(1) by auto
    moreover have "\<not> (bn * FS_BSIZE + r \<le> x \<and> x < bn * FS_BSIZE + r + length bs)"
    proof
      assume h: "bn * FS_BSIZE + r \<le> x \<and> x < bn * FS_BSIZE + r + length bs"
      then have "x < Suc bn * FS_BSIZE" "bn * FS_BSIZE \<le> x" using r by simp_all
      then show False using False by (metis div_nat_eqI mult.commute)
    qed
    ultimately show ?thesis by (auto simp: file_byte_def ia bu)
  qed
  have "iaddr ?u k (x div FS_BSIZE) \<noteq> 0" if "bn * FS_BSIZE + r \<le> x" "x < bn * FS_BSIZE + r + length bs" for x
  proof -
    have "x < Suc bn * FS_BSIZE" "bn * FS_BSIZE \<le> x" using r that by simp_all
    then have "x div FS_BSIZE = bn" by (metis div_nat_eqI mult.commute)
    then show ?thesis using ia a by simp
  qed
  then show ?thesis using fok iok kp fb ia by (simp add: wrote_def)
qed

lemma chunk:
  assumes "0 < rem" "off + rem \<le> MAXFILE * FS_BSIZE"
  defines "m \<equiv> min rem (FS_BSIZE - off mod FS_BSIZE)"
  shows "0 < m" "m \<le> rem" "off mod FS_BSIZE + m \<le> FS_BSIZE" "off div FS_BSIZE < MAXFILE" "off div FS_BSIZE * FS_BSIZE + off mod FS_BSIZE = off"
proof -
  have "off mod FS_BSIZE < FS_BSIZE" by (simp add: FS_BSIZE_def)
  then show "0 < m" "m \<le> rem" "off mod FS_BSIZE + m \<le> FS_BSIZE" using assms(1) by (auto simp: m_def)
  show "off div FS_BSIZE < MAXFILE" using assms(1,2) by (intro less_mult_imp_div_less) simp
qed simp

lemma write_loop_ok:
  "fs_ok s \<Longrightarrow> inode_ok s k \<Longrightarrow> off + rem \<le> MAXFILE * FS_BSIZE \<Longrightarrow> src + rem \<le> length buf \<Longrightarrow>
    \<exists>n s'. write_loop kernel_source k src off rem tot (s, buf) = Ret (tot + n, off + n) (s', buf) \<and> n \<le> rem \<and> wrote s k off (take n (drop src buf)) s'
      \<and> (n < rem \<longrightarrow> (\<forall>x. x < sb_size (sb s) \<longrightarrow> used s' x))"
proof (induction rem arbitrary: s off src tot rule: less_induct)
  case (less rem)
  show ?case
  proof (cases "rem = 0")
    case True
    then show ?thesis using less.prems wrote_nil [OF same_file_refl] by (subst write_loop.simps) (auto intro!: exI [of _ 0])
  next
    case False
    define m where "m = min rem (FS_BSIZE - off mod FS_BSIZE)"
    have rp: "0 < rem" using False by simp
    note C = chunk [of rem off, folded m_def, OF rp less.prems(3)]
    obtain a s1 where b: "bmap k (off div FS_BSIZE) s = Ret a s1" "same_file s k s1" "a = 0 \<longrightarrow> (\<forall>x. x < sb_size (sb s) \<longrightarrow> used s1 x)" "iaddr s1 k (off div FS_BSIZE) = a"
      using bmap_ok [OF less.prems(1,2) C(4)] by (elim exE conjE) (rule that)
    have ob: "on_fs (bmap k (off div FS_BSIZE)) (s, buf) = Ret a (s1, buf)" using b(1) by (simp add: on_fs_def)
    show ?thesis
    proof (cases "a = 0")
      case True
      then have "write_loop kernel_source k src off rem tot (s, buf) = Ret (tot, off) (s1, buf)" using False ob by (subst write_loop.simps) simp
      then show ?thesis using b(2,3) True False wrote_nil [OF b(2)] by (auto intro!: exI [of _ 0])
    next
      case an: False
      define bs where "bs = take m (drop src buf)"
      have S1: "fs_ok s1" "inode_ok s1 k" "sb s1 = sb s" using b(2) by (simp_all add: same_file_def keeps_def)
      have lb: "length bs = m" using less.prems(4) C(2) False by (simp add: bs_def)
      define s2 where "s2 = set_block a (put_block_bytes (blocks s1 a) (off mod FS_BSIZE) bs) s1"
      have w: "wrote s1 k off bs s2"
        using write_block [OF S1(1,2) b(4) an _, of "off mod FS_BSIZE" bs] C False unfolding s2_def lb by simp
      have W: "fs_ok s2" "inode_ok s2 k" "sb s2 = sb s" using w S1 by (simp_all add: wrote_def keeps_def)
      have "map (\<lambda>i. if src + i < length buf then buf ! (src + i) else 0) [0..<m] = bs"
        using less.prems(4) C(2) False by (intro nth_equalityI) (auto simp: bs_def lb)
      then have ks: "kernel_source src m buf = Ret (0, bs) buf" by (simp add: kernel_source_def)
      have run: "write_loop kernel_source k src off rem tot (s, buf) = write_loop kernel_source k (src + m) (off + m) (rem - m) (tot + m) (s2, buf)"
        using False ob an by (subst write_loop.simps) (simp add: ks on_mem_def Let_def s2_def flip: m_def)
      have lt: "rem - m < rem" and p3: "off + m + (rem - m) \<le> MAXFILE * FS_BSIZE" and p4: "src + m + (rem - m) \<le> length buf" using C False less.prems by simp_all
      from less.IH [OF lt W(1,2) p3 p4, of "tot + m"] obtain n s' where IH: "write_loop kernel_source k (src + m) (off + m) (rem - m) (tot + m) (s2, buf) = Ret (tot + m + n, off + m + n) (s', buf)"
          "n \<le> rem - m" "wrote s2 k (off + m) (take n (drop (src + m) buf)) s'" "n < rem - m \<longrightarrow> (\<forall>x. x < sb_size (sb s2) \<longrightarrow> used s' x)" by blast
      have "wrote s1 k off (bs @ take n (drop (src + m) buf)) s'"
        using wrote_append [OF w, of "take n (drop (src + m) buf)" s'] IH(2,3) p3 unfolding lb by simp
      moreover have "bs @ take n (drop (src + m) buf) = take (m + n) (drop src buf)" by (simp add: bs_def take_add add.commute)
      ultimately have "wrote s k off (take (m + n) (drop src buf)) s'" using wrote_same [OF b(2)] by simp
      then show ?thesis using run IH(1,2,4) W(3) C(2) False by (intro exI [of _ "m + n"] exI [of _ s']) (simp add: add.assoc)
    qed
  qed
qed

lemma block_bytes_file:
  assumes "iaddr s k (off div FS_BSIZE) = a" "a \<noteq> 0" "off mod FS_BSIZE + m \<le> FS_BSIZE"
  shows "block_bytes (blocks s a) (off mod FS_BSIZE) m = map (file_byte s k) [off..<off + m]"
proof (intro nth_equalityI)
  fix i assume "i < length (block_bytes (blocks s a) (off mod FS_BSIZE) m)"
  then have i: "i < m" by (simp add: block_bytes_def)
  have r: "off mod FS_BSIZE + i < FS_BSIZE" using i assms(3) by simp
  have m: "(off + i) mod FS_BSIZE = off mod FS_BSIZE + i" using mod_less [OF r] by (simp add: mod_add_left_eq)
  have "(off + i) div FS_BSIZE * FS_BSIZE + (off mod FS_BSIZE + i) = off div FS_BSIZE * FS_BSIZE + off mod FS_BSIZE + i"
    using div_mult_mod_eq [of "off + i" FS_BSIZE] unfolding m by simp
  then have "(off + i) div FS_BSIZE = off div FS_BSIZE" by (simp add: FS_BSIZE_def)
  note this m
  then show "block_bytes (blocks s a) (off mod FS_BSIZE) m ! i = map (file_byte s k) [off..<off + m] ! i"
    using i assms by (simp add: block_bytes_def file_byte_def)
qed (simp add: block_bytes_def)

text \<open>Where the blocks are there, nothing is allocated.\<close>

lemma bmap_present: "iaddr s k bn \<noteq> 0 \<Longrightarrow> bn < MAXFILE \<Longrightarrow> bmap k bn s = Ret (iaddr s k bn) s"
  by (auto simp: bmap_def iaddr_def indirect_def MAXFILE_def Let_def split: if_splits)

lemma file_read_loop_ok:
  "fs_ok s \<Longrightarrow> inode_ok s k \<Longrightarrow> off + rem \<le> MAXFILE * FS_BSIZE \<Longrightarrow>
    \<exists>n s'. read_loop kernel_sink k dst off rem tot (s, acc) = Ret (int (tot + n)) (s', acc @ map (file_byte s k) [off..<off + n]) \<and> n \<le> rem \<and> same_file s k s'
      \<and> (n < rem \<longrightarrow> iaddr s' k ((off + n) div FS_BSIZE) = 0) \<and> ((\<forall>x. off \<le> x \<longrightarrow> x < off + rem \<longrightarrow> iaddr s k (x div FS_BSIZE) \<noteq> 0) \<longrightarrow> s' = s)"
proof (induction rem arbitrary: s off dst tot acc rule: less_induct)
  case (less rem)
  show ?case
  proof (cases "rem = 0")
    case True
    then show ?thesis using less.prems same_file_refl by (subst read_loop.simps) (auto intro!: exI [of _ 0])
  next
    case False
    define m where "m = min rem (FS_BSIZE - off mod FS_BSIZE)"
    have rp: "0 < rem" using False by simp
    note C = chunk [of rem off, folded m_def, OF rp less.prems(3)]
    obtain a s1 where b: "bmap k (off div FS_BSIZE) s = Ret a s1" "same_file s k s1" "iaddr s1 k (off div FS_BSIZE) = a"
      using bmap_ok [OF less.prems(1,2) C(4)] by (elim exE conjE) (rule that)
    have pr: "s1 = s" if "iaddr s k (off div FS_BSIZE) \<noteq> 0" using bmap_present [OF that C(4)] b(1) by simp
    have ob: "on_fs (bmap k (off div FS_BSIZE)) (s, acc) = Ret a (s1, acc)" using b(1) by (simp add: on_fs_def)
    show ?thesis
    proof (cases "a = 0")
      case True
      then have "read_loop kernel_sink k dst off rem tot (s, acc) = Ret (int tot) (s1, acc)" using False ob by (subst read_loop.simps) simp
      moreover have "s1 = s" if "\<forall>x. off \<le> x \<longrightarrow> x < off + rem \<longrightarrow> iaddr s k (x div FS_BSIZE) \<noteq> 0" using that pr rp by simp
      ultimately show ?thesis using b(2,3) True by (auto intro!: exI [of _ 0])
    next
      case an: False
      have S1: "fs_ok s1" "inode_ok s1 k" using b(2) by (simp_all add: same_file_def)
      have fb: "map (file_byte s1 k) [x..<y] = map (file_byte s k) [x..<y]" if "y \<le> MAXFILE * FS_BSIZE" for x y
        using b(2) that by (auto simp: same_file_def)
      have bb: "block_bytes (blocks s1 a) (off mod FS_BSIZE) m = map (file_byte s k) [off..<off + m]"
        using block_bytes_file [OF b(3) an C(3)] fb [of "off + m" off] C(2) less.prems(3) by simp
      have run: "read_loop kernel_sink k dst off rem tot (s, acc) = read_loop kernel_sink k (dst + m) (off + m) (rem - m) (tot + m) (s1, acc @ map (file_byte s k) [off..<off + m])"
        using False ob an bb by (subst read_loop.simps) (simp add: kernel_sink_def on_mem_def Let_def flip: m_def)
      have lt: "rem - m < rem" and p3: "off + m + (rem - m) \<le> MAXFILE * FS_BSIZE" using C False less.prems by simp_all
      from less.IH [OF lt S1 p3, of "dst + m" "tot + m" "acc @ map (file_byte s k) [off..<off + m]"] obtain n s' where IH:
          "read_loop kernel_sink k (dst + m) (off + m) (rem - m) (tot + m) (s1, acc @ map (file_byte s k) [off..<off + m]) =
             Ret (int (tot + m + n)) (s', (acc @ map (file_byte s k) [off..<off + m]) @ map (file_byte s1 k) [off + m..<off + m + n])"
          "n \<le> rem - m" "same_file s1 k s'" "n < rem - m \<longrightarrow> iaddr s' k ((off + m + n) div FS_BSIZE) = 0"
          "(\<forall>x. off + m \<le> x \<longrightarrow> x < off + m + (rem - m) \<longrightarrow> iaddr s1 k (x div FS_BSIZE) \<noteq> 0) \<longrightarrow> s' = s1" by blast
      have st: "s' = s" if "\<forall>x. off \<le> x \<longrightarrow> x < off + rem \<longrightarrow> iaddr s k (x div FS_BSIZE) \<noteq> 0" using that IH(5) pr rp by simp
      have "map (file_byte s1 k) [off + m..<off + m + n] = map (file_byte s k) [off + m..<off + m + n]" by (rule fb) (use IH(2) p3 in linarith)
      moreover have up: "[off..<off + m] @ [off + m..<off + m + n] = [off..<off + (m + n)]" using upt_add_eq_append [of off "off + m" n] by (simp add: add.assoc)
      ultimately have "read_loop kernel_sink k dst off rem tot (s, acc) = Ret (int (tot + (m + n))) (s', acc @ map (file_byte s k) [off..<off + (m + n)])"
        unfolding run IH(1) up [symmetric] map_append by (simp add: add.assoc)
      then show ?thesis using IH(2,4) same_file_trans [OF b(2) IH(3)] C(2) st by (intro exI [of _ "m + n"] exI [of _ s']) (auto simp: add.assoc)
    qed
  qed
qed

section \<open>The inode on disk\<close>

definition inum_ok :: "fs \<Rightarrow> nat \<Rightarrow> bool" where
  "inum_ok s k \<longleftrightarrow> inum (itable s k) < sb_ninodes (sb s)"

text \<open>Changing the size and writing the inode back leaves the contents of all files.\<close>

lemma write_back:
  assumes "fs_ok s" "inum_ok s k" and t_def: "t = iupdate k (set_inode k (\<lambda>ip. ip\<lparr>isize := z\<rparr>) s)"
  shows "fs_ok t" "\<And>j m. inode_ok s j \<Longrightarrow> iaddr t j m = iaddr s j m" "\<And>j. inode_ok s j \<Longrightarrow> inode_ok t j"
    "\<And>j x. inode_ok s j \<Longrightarrow> x < MAXFILE * FS_BSIZE \<Longrightarrow> file_byte t j x = file_byte s j x"
    "isize (itable t k) = z" "itable t k = (itable s k)\<lparr>isize := z\<rparr>" "\<And>j. j \<noteq> k \<Longrightarrow> itable t j = itable s j" "\<And>b. dstart s \<le> b \<Longrightarrow> blocks t b = blocks s b"
proof -
  have lo: "layout_ok s" using assms(1) by (simp add: fs_ok_def)
  let ?b = "IBLOCK (inum (itable s k)) (sb s)"
  have low: "?b < sb_bmapstart (sb s)"
    using assms(2) lo div_le_mono [of "inum (itable s k)" "sb_ninodes (sb s)" IPB] by (simp add: IBLOCK_def layout_ok_def inum_ok_def)
  have bt: "blocks t b = blocks s b" if "b \<noteq> ?b" for b using that by (simp add: t_def iupdate_def Let_def set_block_def)
  have sb: "sb t = sb s" by (simp add: t_def iupdate_def Let_def set_block_def)
  have it: "itable t j = (if j = k then (itable s k)\<lparr>isize := z\<rparr> else itable s j)" for j by (simp add: t_def iupdate_def Let_def set_block_def)
  show "isize (itable t k) = z" "itable t k = (itable s k)\<lparr>isize := z\<rparr>" "\<And>j. j \<noteq> k \<Longrightarrow> itable t j = itable s j" by (simp_all add: it)
  show hi: "\<And>b. dstart s \<le> b \<Longrightarrow> blocks t b = blocks s b" using bt low by (simp add: dstart_def)
  have u: "used t b = used s b" for b using low by (intro used_cong) (simp_all add: sb bt BBLOCK_def)
  show "fs_ok t" using assms(1) by (simp add: fs_ok_def layout_ok_def dstart_def sb u)
  have db: "data_block t b = data_block s b" for b by (simp add: data_block_def dstart_def sb u)
  have ind: "indirect t j = indirect s j" for j by (simp add: it indirect_def)
  show ia: "iaddr t j m = iaddr s j m" if "inode_ok s j" for j m
  proof (cases "indirect s j = 0")
    case True then show ?thesis by (simp add: iaddr_def ind it)
  next
    case False
    then have "blocks t (indirect s j) = blocks s (indirect s j)" using that hi by (simp add: inode_ok_def data_block_def)
    then show ?thesis by (simp add: iaddr_def ind it)
  qed
  show "inode_ok s j \<Longrightarrow> inode_ok t j" for j using ia by (simp add: inode_ok_def ind db)
  show "file_byte t j x = file_byte s j x" if o: "inode_ok s j" and x: "x < MAXFILE * FS_BSIZE" for j x
  proof -
    have "x div FS_BSIZE < MAXFILE" using x by (simp add: less_mult_imp_div_less)
    then have "iaddr s j (x div FS_BSIZE) \<noteq> 0 \<Longrightarrow> dstart s \<le> iaddr s j (x div FS_BSIZE)" using o by (simp add: inode_ok_def data_block_def)
    then show ?thesis using ia [OF o] hi by (auto simp: file_byte_def)
  qed
qed

text \<open>What \<open>writei\<close> does on a kernel buffer when its checks pass: \<open>n\<close> bytes are written, all of them unless the disk is full.\<close>

lemma writek_ok:
  assumes ok: "fs_ok s" "inode_ok s k" "inum_ok s k" and off: "off \<le> isize (itable s k)" "off + length bs \<le> MAXFILE * FS_BSIZE"
  shows "\<exists>n t s'. writek k off bs s = Ret (int n) s' \<and> n \<le> length bs \<and> wrote s k off (take n bs) t \<and> (n < length bs \<longrightarrow> (\<forall>x. x < sb_size (sb s) \<longrightarrow> used t x))
    \<and> s' = iupdate k (set_inode k (\<lambda>ip. ip\<lparr>isize := max (isize (itable s k)) (off + n)\<rparr>) t)"
proof -
  obtain n t where w: "write_loop kernel_source k 0 off (length bs) 0 (s, bs) = Ret (0 + n, off + n) (t, bs)" "n \<le> length bs" "wrote s k off (take n (drop 0 bs)) t"
      "n < length bs \<longrightarrow> (\<forall>x. x < sb_size (sb s) \<longrightarrow> used t x)"
    using write_loop_ok [OF ok(1,2) off(2), of 0 bs 0] by auto
  have sz: "isize (itable t k) = isize (itable s k)" using w(3) by (simp add: wrote_def keeps_def)
  have nw: "\<not> (off + length bs) mod 2 ^ 32 < off"
    using off(2) by (simp add: MAXFILE_def NDIRECT_def NINDIRECT_def FS_BSIZE_def)
  have "(if off + n > isize (itable t k) then set_inode k (\<lambda>ip. ip\<lparr>isize := off + n\<rparr>) t else t) = set_inode k (\<lambda>ip. ip\<lparr>isize := max (isize (itable s k)) (off + n)\<rparr>) t"
    by (cases "off + n > isize (itable t k)") (simp_all add: set_inode_def max_def flip: sz)
  then have "writek k off bs s = Ret (int n) (iupdate k (set_inode k (\<lambda>ip. ip\<lparr>isize := max (isize (itable s k)) (off + n)\<rparr>) t))"
    using off nw w(1) by (simp add: writek_def writei_def Let_def)
  then show ?thesis using w by auto
qed

lemma readk_ok:
  assumes "fs_ok s" "inode_ok s k" "off + n \<le> isize (itable s k)" "isize (itable s k) \<le> MAXFILE * FS_BSIZE"
    and "\<And>x. off \<le> x \<Longrightarrow> x < off + n \<Longrightarrow> iaddr s k (x div FS_BSIZE) \<noteq> 0"
  shows "\<exists>s'. readk k off n s = Ret (int n, map (file_byte s k) [off..<off + n]) s' \<and> s' = s"
proof -
  have e: "off + n \<le> MAXFILE * FS_BSIZE" using assms(3,4) by simp
  obtain j s' where r: "read_loop kernel_sink k 0 off n 0 (s, []) = Ret (int (0 + j)) (s', [] @ map (file_byte s k) [off..<off + j])" "j \<le> n" "same_file s k s'"
      "j < n \<longrightarrow> iaddr s' k ((off + j) div FS_BSIZE) = 0" "s' = s"
    using file_read_loop_ok [OF assms(1,2) e, of 0 0 "[]"] assms(5) by blast
  have "j = n"
  proof (rule ccontr)
    assume "j \<noteq> n"
    then have l: "j < n" using r(2) by simp
    then have "iaddr s k ((off + j) div FS_BSIZE) \<noteq> 0" using assms(5) by simp
    moreover have "(off + j) div FS_BSIZE < MAXFILE" using l e by (intro less_mult_imp_div_less) simp
    ultimately show False using r(3,4) l by (simp add: same_file_def)
  qed
  moreover have nw: "\<not> (off + n) mod 2 ^ 32 < off"
    using e by (simp add: MAXFILE_def NDIRECT_def NINDIRECT_def FS_BSIZE_def)
  ultimately show ?thesis using r(1,5) assms(3) by (simp add: readk_def readi_def Let_def)
qed

text \<open>What writing one file leaves of another whose blocks are its own.\<close>

lemma write_apart:
  assumes "fs_ok s" "inode_ok s k" "inum_ok s k" "inode_ok s j" "j \<noteq> k" "owned s j \<inter> owned s k = {}" "writek k off bs s = Ret r s'"
  shows "(\<forall>x<MAXFILE * FS_BSIZE. file_byte s' j x = file_byte s j x) \<and> itable s' j = itable s j \<and> fs_ok s' \<and> inode_ok s' k \<and> inode_ok s' j \<and> owned s' j \<inter> owned s' k = {}
    \<and> (\<forall>m. iaddr s' j m = iaddr s j m) \<and> owned s' j = owned s j"
proof (cases "off \<le> isize (itable s k) \<and> off + length bs \<le> MAXFILE * FS_BSIZE")
  case False
  then have "s' = s" using assms(7) by (auto simp: writek_def writei_def split: if_splits)
  then show ?thesis using assms by simp
next
  case True
  then obtain n t where w: "wrote s k off (take n bs) t" "s' = iupdate k (set_inode k (\<lambda>ip. ip\<lparr>isize := max (isize (itable s k)) (off + n)\<rparr>) t)"
    using writek_ok [OF assms(1-3)] assms(7) by fastforce
  have T: "fs_ok t" "inode_ok t k" "inum_ok t k" and kp: "keeps s k t" using w(1) assms(3) by (auto simp: wrote_def keeps_def inum_ok_def)
  note B = write_back [OF T(1,3) w(2)]
  have it: "itable t j = itable s j" "sb t = sb s" using kp assms(5) by (simp_all add: keeps_def)
  have apart: "blocks t b = blocks s b" if "b \<in> owned s j" "data_block s b" for b using kp assms(6) that by (auto simp: keeps_def)
  have I: "\<And>m. m < MAXFILE \<Longrightarrow> iaddr s j m \<noteq> 0 \<Longrightarrow> data_block s (iaddr s j m)" "indirect s j \<noteq> 0 \<Longrightarrow> data_block s (indirect s j)"
    using assms(4) by (simp_all add: inode_ok_def)
  have ind: "indirect t j = indirect s j" by (simp add: indirect_def it)
  have "indirect s j \<noteq> 0 \<Longrightarrow> blocks t (indirect s j) = blocks s (indirect s j)" using apart I(2) by (auto simp: owned_def)
  then have ia: "iaddr t j m = iaddr s j m" for m by (auto simp: iaddr_def ind it)
  have db: "data_block t b" if "data_block s b" for b using keeps_data [OF kp that] .
  have tj: "inode_ok t j" using assms(4) db unfolding inode_ok_def ia ind by blast
  have fb: "file_byte t j x = file_byte s j x" if "x < MAXFILE * FS_BSIZE" for x
  proof -
    have m: "x div FS_BSIZE < MAXFILE" using that by (simp add: less_mult_imp_div_less)
    then have "iaddr s j (x div FS_BSIZE) \<noteq> 0 \<Longrightarrow> blocks t (iaddr s j (x div FS_BSIZE)) = blocks s (iaddr s j (x div FS_BSIZE))" using apart I(1) by (auto simp: owned_def)
    then show ?thesis by (simp add: file_byte_def ia)
  qed
  have ind': "indirect s' i = indirect t i" for i using B(7) w(2) by (cases "i = k") (simp_all add: indirect_def iupdate_def set_block_def Let_def)
  have own: "owned s' j = owned s j" "owned s' k = owned t k" using B(2) [OF tj] B(2) [OF T(2)] ind' ind by (simp_all add: owned_def ia)
  have "b \<notin> owned t k" if o: "b \<in> owned s j" for b
  proof -
    have d: "data_block s b" using o I by (auto simp: owned_def)
    then show ?thesis using kp o assms(6) by (auto simp: keeps_def data_block_def)
  qed
  then have "owned s' j \<inter> owned s' k = {}" unfolding own by blast
  then show ?thesis using fb B(1,2,3,4,7) tj T(2) it assms(5) own(1) ia by simp
qed

text \<open>What a complete write leaves in the file itself.\<close>

lemma write_self:
  assumes "fs_ok s" "inode_ok s k" "inum_ok s k" "writek k off bs s = Ret (int (length bs)) s'"
  shows "isize (itable s' k) = max (isize (itable s k)) (off + length bs) \<and> fs_ok s' \<and> inode_ok s' k \<and> sb s' = sb s
    \<and> (\<forall>m<MAXFILE. iaddr s k m \<noteq> 0 \<longrightarrow> iaddr s' k m \<noteq> 0)
    \<and> (\<forall>x<MAXFILE * FS_BSIZE. file_byte s' k x = (if off \<le> x \<and> x < off + length bs then bs ! (x - off) else file_byte s k x))
    \<and> (\<forall>x. off \<le> x \<longrightarrow> x < off + length bs \<longrightarrow> iaddr s' k (x div FS_BSIZE) \<noteq> 0)
    \<and> itype (itable s' k) = itype (itable s k) \<and> (\<forall>b. b < sb_inodestart (sb s) \<longrightarrow> blocks s' b = blocks s b)"
proof -
  have g: "off \<le> isize (itable s k)" "off + length bs \<le> MAXFILE * FS_BSIZE"
    using assms(4) by (auto simp: writek_def writei_def split: if_splits)
  obtain n t where w: "writek k off bs s = Ret (int n) s'" "wrote s k off (take n bs) t"
      "s' = iupdate k (set_inode k (\<lambda>ip. ip\<lparr>isize := max (isize (itable s k)) (off + n)\<rparr>) t)"
    using writek_ok [OF assms(1-3) g] assms(4) by auto
  have n: "n = length bs" using w(1) assms(4) by simp
  have T: "fs_ok t" "inode_ok t k" "inum_ok t k" "sb t = sb s" using w(2) assms(3) by (auto simp: wrote_def keeps_def inum_ok_def)
  note B = write_back [OF T(1,3) w(3)]
  have "sb s' = sb s" using w(3) T(4) by (simp add: iupdate_def set_block_def Let_def)
  moreover have "itype (itable s' k) = itype (itable s k)" using B(6) w(2) by (simp add: wrote_def keeps_def)
  moreover have "blocks s' b = blocks s b" if "b < sb_inodestart (sb s)" for b
  proof -
    have "b < sb_bmapstart (sb s)" using that T(1,4) by (simp add: fs_ok_def layout_ok_def)
    then have "blocks t b = blocks s b" using w(2) by (simp add: wrote_def keeps_def)
    then show ?thesis using that T(4) w(3) by (simp add: iupdate_def set_block_def Let_def IBLOCK_def)
  qed
  ultimately show ?thesis using w(2) B(1,5) B(2) [OF T(2)] B(3) [OF T(2)] B(4) [OF T(2)] n by (simp add: wrote_def)
qed

end
