(* ===== verification/Fs_Claims.thy ===== *)
theory Fs_Claims
  imports Fs_Props
begin

text \<open>What reading and writing files promises, on kernel buffers, with a small disk to show that the hypotheses can hold.\<close>

section \<open>A small disk\<close>

definition fs0 :: fs where
  "fs0 = \<lparr>blocks = (\<lambda>b x. if b = 4 \<and> x = 0 then 31 else 0),
     sb = \<lparr>sb_magic = FSMAGIC, sb_size = 8, sb_nblocks = 3, sb_ninodes = 16, sb_nlog = 0, sb_logstart = 2, sb_inodestart = 2, sb_bmapstart = 4\<rparr>,
     itable = (\<lambda>k. \<lparr>idev = 1, inum = k + 1, iref = 1, ilocked = True, ivalid = True, itype = T_FILE, imajor = 0, iminor = 0, nlink = 1, isize = 0, addrs = (\<lambda>_. 0)\<rparr>)\<rparr>"

lemma fs0_used: "used fs0 b \<longleftrightarrow> b < 5" if "b < 8"
proof -
  have "b = 0 \<or> b = 1 \<or> b = 2 \<or> b = 3 \<or> b = 4 \<or> b = 5 \<or> b = 6 \<or> b = 7" using that by linarith
  moreover have "bit (31 :: byte) n \<longleftrightarrow> n < 5" if "n < 8" for n
  proof -
    have "(31 :: byte) = mask 5" by (simp add: mask_eq_exp_minus_1)
    then have "bit (31 :: byte) n = bit (mask 5 :: byte) n" by (rule arg_cong)
    also have "\<dots> = (n < 5)" using that by (simp only: bit_mask_iff) (auto simp: min_def)
    finally show ?thesis .
  qed
  ultimately show ?thesis by (auto simp: used_def bit_byte_def BBLOCK_def fs0_def BPB_def FS_BSIZE_def)
qed

lemma fs0_ok: "fs_ok fs0"
proof -
  have "dstart fs0 = 5" by (simp add: dstart_def fs0_def BPB_def FS_BSIZE_def)
  moreover have "layout_ok fs0" by (simp add: layout_ok_def dstart_def fs0_def BPB_def FS_BSIZE_def IPB_def DINODE_SIZE_def)
  ultimately show ?thesis using fs0_used by (auto simp: fs_ok_def)
qed

lemma fs0_inode: "inode_ok fs0 k" "owned fs0 k = {}"
  by (auto simp: inode_ok_def owned_def iaddr_def indirect_def fs0_def)

lemma fs0_inum: "k < 15 \<Longrightarrow> inum_ok fs0 k"
  by (simp add: inum_ok_def fs0_def)

lemma fs0_balloc: "fst (balloc fs0) = 5"
proof -
  have "[0..<8] = [0, 1, 2, 3, 4, 5, 6, 7 :: nat]" by (simp add: upt_rec)
  then have "find (\<lambda>b. bit_byte fs0 b AND bitmask (b mod BPB) = 0) [0..<sb_size (sb fs0)] = Some 5"
    unfolding free_iff by (simp add: fs0_def [THEN arg_cong [of _ _ sb]] fs0_used)
  then show ?thesis by (simp add: balloc_def)
qed

lemma fs0_write: "\<exists>s'. writek 0 0 [7] fs0 = Ret 1 s'"
proof -
  obtain t where b: "balloc fs0 = (5, t)" using fs0_balloc by (metis prod.collapse)
  show ?thesis
    by (simp add: writek_def writei_def write_loop.simps on_fs_def on_mem_def bmap_def b fs0_def [THEN arg_cong [of _ _ itable]] NDIRECT_def kernel_source_def Let_def MAXFILE_def NINDIRECT_def FS_BSIZE_def)
qed

section \<open>Properties\<close>

text \<open>C31. What \<open>writei\<close> has written completely at an offset of a file, \<open>readi\<close> reads there, across direct and indirect blocks and whether blocks had to be allocated or not.\<close>

theorem file_write_read:
  assumes "fs_ok s" "inode_ok s k" "inum_ok s k" "isize (itable s k) \<le> MAXFILE * FS_BSIZE" "writek k off bs s = Ret (int (length bs)) s'"
  shows "\<exists>s''. readk k off (length bs) s' = Ret (int (length bs), bs) s''"
proof -
  have g: "off \<le> isize (itable s k)" "off + length bs \<le> MAXFILE * FS_BSIZE"
    using assms(5) by (auto simp: writek_def writei_def split: if_splits)
  obtain n t where w: "writek k off bs s = Ret (int n) s'" "wrote s k off (take n bs) t"
      "s' = iupdate k (set_inode k (\<lambda>ip. ip\<lparr>isize := max (isize (itable s k)) (off + n)\<rparr>) t)"
    using writek_ok [OF assms(1-3) g] assms(5) by auto
  have n: "n = length bs" using w(1) assms(5) by simp
  have T: "fs_ok t" "inode_ok t k" "inum_ok t k" using w(2) assms(3) by (auto simp: wrote_def keeps_def inum_ok_def)
  note B = write_back [OF T(1,3) w(3)]
  have fb: "map (file_byte s' k) [off..<off + length bs] = bs"
    using w(2) B(4) [OF T(2)] g(2) by (intro nth_equalityI) (auto simp: wrote_def n)
  have "iaddr s' k (x div FS_BSIZE) \<noteq> 0" if "off \<le> x" "x < off + length bs" for x
    using w(2) B(2) [OF T(2)] that n by (simp add: wrote_def)
  then have "\<exists>s''. readk k off (length bs) s' = Ret (int (length bs), map (file_byte s' k) [off..<off + length bs]) s'' \<and> s'' = s'"
    using readk_ok [OF B(1) B(3) [OF T(2)], of off "length bs"] B(5) n g assms(4) by simp
  then show ?thesis unfolding fb by blast
qed

theorem file_write_read_witness: "\<exists>s' s''. writek 0 0 [7] fs0 = Ret 1 s' \<and> readk 0 0 1 s' = Ret (1, [7]) s''"
proof -
  obtain s' where w: "writek 0 0 [7] fs0 = Ret 1 s'" using fs0_write by blast
  have "isize (itable fs0 0) \<le> MAXFILE * FS_BSIZE" by (simp add: fs0_def)
  then show ?thesis using file_write_read [OF fs0_ok fs0_inode(1) fs0_inum, of 0 0 "[7]" s'] w by auto
qed

text \<open>C32. Writing one file changes no byte of another: with the blocks of two inodes apart, a write to one, also one that fails for lack of space, keeps the contents
  and size of the other, the free map and both inodes in order, and their blocks apart.\<close>

theorem file_write_isolated:
  assumes "fs_ok s" "inode_ok s k" "inum_ok s k" "inode_ok s j" "j \<noteq> k" "owned s j \<inter> owned s k = {}" "writek k off bs s = Ret r s'"
  shows "(\<forall>x<MAXFILE * FS_BSIZE. file_byte s' j x = file_byte s j x) \<and> itable s' j = itable s j \<and> fs_ok s' \<and> inode_ok s' k \<and> inode_ok s' j \<and> owned s' j \<inter> owned s' k = {}"
  using write_apart [OF assms] by blast

theorem file_write_isolated_witness:
  "\<exists>s'. writek 0 0 [7] fs0 = Ret 1 s' \<and> (\<forall>x<MAXFILE * FS_BSIZE. file_byte s' 1 x = file_byte fs0 1 x) \<and> owned s' 1 \<inter> owned s' 0 = {}"
proof -
  obtain s' where w: "writek 0 0 [7] fs0 = Ret 1 s'" using fs0_write by blast
  have "owned fs0 1 \<inter> owned fs0 0 = {}" by (simp add: fs0_inode(2))
  then show ?thesis using file_write_isolated [OF fs0_ok fs0_inode(1) fs0_inum fs0_inode(1) _ _ w, of 1] w by auto
qed

end
