(* ===== verification/Fs_Dir.thy ===== *)
theory Fs_Dir
  imports Fs_Claims
begin

text \<open>Directories as lists of entries, and that \<open>dirlookup\<close> finds what \<open>dirlink\<close> entered; the elements of a path.\<close>

section \<open>Entries\<close>

definition entry :: "fs \<Rightarrow> nat \<Rightarrow> nat \<Rightarrow> byte list" where
  "entry s k off = map (file_byte s k) [off..<off + DIRENT_SIZE]"

text \<open>A directory: a whole number of entries, and all of its blocks there.\<close>

definition dir_ok :: "fs \<Rightarrow> nat \<Rightarrow> bool" where
  "dir_ok s k \<longleftrightarrow> fs_ok s \<and> inode_ok s k \<and> inum_ok s k \<and> itype (itable s k) = T_DIR \<and> DIRENT_SIZE dvd isize (itable s k) \<and> isize (itable s k) \<le> MAXFILE * FS_BSIZE
     \<and> (\<forall>x<isize (itable s k). iaddr s k (x div FS_BSIZE) \<noteq> 0)"

definition matches :: "fs \<Rightarrow> nat \<Rightarrow> byte list \<Rightarrow> nat \<Rightarrow> bool" where
  "matches s k name off \<longleftrightarrow> de_inum (entry s k off) \<noteq> 0 \<and> namecmp name (de_name (entry s k off))"

lemma offsets_size: "DIRENT_SIZE dvd n \<Longrightarrow> entry_offsets n = map (\<lambda>i. DIRENT_SIZE * i) [0..<n div DIRENT_SIZE]"
  unfolding entry_offsets_def DIRENT_SIZE_def by (elim dvdE) simp

lemma offset_bound:
  assumes "DIRENT_SIZE dvd n" "off \<in> set (entry_offsets n)"
  shows "off + DIRENT_SIZE \<le> n" "DIRENT_SIZE dvd off"
  using assms unfolding offsets_size [OF assms(1)] DIRENT_SIZE_def by (auto elim!: dvdE)

lemma read_entry:
  assumes "dir_ok s k" "off + DIRENT_SIZE \<le> isize (itable s k)"
  shows "readk k off DIRENT_SIZE s = Ret (int DIRENT_SIZE, entry s k off) s"
  using readk_ok [of s k off DIRENT_SIZE] assms by (auto simp: dir_ok_def entry_def)

lemma lookup_loop_eq:
  assumes "dir_ok s k" "\<forall>off\<in>set offs. off + DIRENT_SIZE \<le> isize (itable s k)"
  shows "lookup_loop k name offs s = (case find (matches s k name) offs of None \<Rightarrow> Ret None s
    | Some off \<Rightarrow> obind (iget (idev (itable s k)) (de_inum (entry s k off)) s) (\<lambda>j s. Ret (Some (j, off)) s))"
  using assms(2)
proof (induction offs)
  case (Cons off offs)
  have "readk k off DIRENT_SIZE s = Ret (int DIRENT_SIZE, entry s k off) s" using read_entry [OF assms(1)] Cons.prems by simp
  then show ?case using Cons by (simp add: matches_def)
qed simp

lemma free_entry_eq:
  assumes "dir_ok s k" "\<forall>off\<in>set offs. off + DIRENT_SIZE \<le> isize (itable s k)" "offs = map (\<lambda>i. DIRENT_SIZE * i) [i..<j]" "i \<le> j"
  shows "free_entry k offs (DIRENT_SIZE * i) s = Ret (case find (\<lambda>off. de_inum (entry s k off) = 0) offs of None \<Rightarrow> DIRENT_SIZE * j | Some off \<Rightarrow> off) s"
  using assms(2,3,4)
proof (induction offs arbitrary: i)
  case Nil
  then have "i = j" by auto
  then show ?case by simp
next
  case (Cons off offs)
  then have i: "i < j" by (cases "i < j") auto
  then have e: "off = DIRENT_SIZE * i" "offs = map (\<lambda>i. DIRENT_SIZE * i) [Suc i..<j]" using Cons.prems(2) by (simp_all add: upt_conv_Cons)
  have "off + DIRENT_SIZE \<le> isize (itable s k)" using Cons.prems(1) by (simp only: list.set_intros(1))
  then have "readk k off DIRENT_SIZE s = Ret (int DIRENT_SIZE, entry s k off) s" using read_entry [OF assms(1)] by simp
  moreover have "free_entry k offs (DIRENT_SIZE * Suc i) s = Ret (case find (\<lambda>off. de_inum (entry s k off) = 0) offs of None \<Rightarrow> DIRENT_SIZE * j | Some off \<Rightarrow> off) s"
    by (rule Cons.IH) (use Cons.prems(1) e(2) i in auto)
  ultimately show ?case using e(1) by (simp add: add.commute)
qed

section \<open>A new entry\<close>

lemma dirent_length: "length (dirent n name) = DIRENT_SIZE"
  by (simp add: dirent_def DIRENT_SIZE_def DIRSIZ_def)

lemma dirent_inum: "n < 2 ^ 16 \<Longrightarrow> de_inum (dirent n name) = n"
proof -
  assume n: "n < 2 ^ 16"
  have "unat (word_of_nat n :: byte) = n mod 256" "unat (word_of_nat (n div 256) :: byte) = n div 256"
    using n by (simp_all add: unat_of_nat)
  then show ?thesis by (simp add: de_inum_def dirent_def)
qed

lemma dirent_name: "0 \<notin> set name \<Longrightarrow> namecmp name (de_name (dirent n name))"
proof -
  assume z: "0 \<notin> set name"
  then have t: "takeWhile (\<lambda>c. c \<noteq> 0) name = name" by (auto intro: takeWhile_eq_all_conv [THEN iffD2])
  have "de_name (dirent n name) = take DIRSIZ (name @ replicate DIRSIZ 0)" by (simp add: de_name_def dirent_def t)
  then have d: "de_name (dirent n name) = take DIRSIZ name @ replicate (DIRSIZ - length name) 0" by simp
  have "takeWhile (\<lambda>c. c \<noteq> 0) (take DIRSIZ name) = take DIRSIZ name" using z by (auto simp: takeWhile_eq_all_conv dest: in_set_takeD)
  moreover have "takeWhile (\<lambda>c. c \<noteq> 0) (take DIRSIZ name @ replicate (DIRSIZ - length name) 0) = take DIRSIZ name"
    using z by (subst takeWhile_append2) (auto dest: in_set_takeD)
  ultimately show ?thesis unfolding namecmp_def d by simp
qed

lemma find_append: "find P (xs @ ys) = (case find P xs of None \<Rightarrow> find P ys | Some x \<Rightarrow> Some x)"
  by (induction xs) auto

lemma find_first:
  assumes "i < n" "P (f i)" "\<And>j. j < i \<Longrightarrow> \<not> P (f j)"
  shows "find P (map f [0..<n]) = Some (f i)"
proof -
  have "[0..<n] = [0..<i] @ i # [Suc i..<n]" using assms(1) by (metis le_add1 add_0 less_imp_le_nat upt_add_eq_append upt_conv_Cons le_add_diff_inverse)
  moreover have "find P (map f [0..<i]) = None" using assms(3) by (auto simp: find_None_iff)
  ultimately show ?thesis using assms(2) by (simp add: find_append)
qed

text \<open>What a successful \<open>dirlink\<close> has done.\<close>

lemma linked:
  assumes d: "dir_ok s k" and l: "dirlink k name n s = Ret 0 s'"
  shows "\<exists>off t. DIRENT_SIZE dvd off \<and> off \<le> isize (itable s k) \<and> (\<forall>j. DIRENT_SIZE * j < off \<longrightarrow> \<not> matches s k name (DIRENT_SIZE * j))
    \<and> off + DIRENT_SIZE \<le> MAXFILE * FS_BSIZE \<and> wrote s k off (dirent n name) t
    \<and> s' = iupdate k (set_inode k (\<lambda>ip. ip\<lparr>isize := max (isize (itable s k)) (off + DIRENT_SIZE)\<rparr>) t)"
proof -
  define sz where "sz = isize (itable s k)"
  define offs where "offs = entry_offsets sz"
  have dv: "DIRENT_SIZE dvd sz" and ok: "fs_ok s" "inode_ok s k" "inum_ok s k" "itype (itable s k) = T_DIR"
    using d by (simp_all add: dir_ok_def sz_def)
  have ob: "\<forall>off\<in>set offs. off + DIRENT_SIZE \<le> isize (itable s k)" using offset_bound(1) [OF dv] by (simp add: offs_def sz_def)
  have oe: "offs = map (\<lambda>i. DIRENT_SIZE * i) [0..<sz div DIRENT_SIZE]" using offsets_size [OF dv] by (simp add: offs_def)
  have lk: "dirlookup k name s = lookup_loop k name offs s" using ok(4) by (simp add: dirlookup_def offs_def sz_def)
  have none: "find (matches s k name) offs = None"
  proof (rule ccontr)
    assume "find (matches s k name) offs \<noteq> None"
    then obtain off where f: "find (matches s k name) offs = Some off" by blast
    show False using l unfolding dirlink_def lk lookup_loop_eq [OF d ob] f
      by (auto simp: obind_eq_Ret split: outcome.splits)
  qed
  define off where "off = (case find (\<lambda>off. de_inum (entry s k off) = 0) offs of None \<Rightarrow> DIRENT_SIZE * (sz div DIRENT_SIZE) | Some off \<Rightarrow> off)"
  have fe: "free_entry k offs 0 s = Ret off s" using free_entry_eq [OF d ob oe] by (simp add: off_def)
  have w: "writek k off (dirent n name) s = Ret (int DIRENT_SIZE) s'"
    using l none fe unfolding dirlink_def lk lookup_loop_eq [OF d ob] by (auto simp: obind_eq_Ret offs_def sz_def split: if_splits)
  have o1: "DIRENT_SIZE dvd off \<and> off \<le> sz"
    using offset_bound [OF dv] dv by (auto simp: off_def offs_def split: option.splits dest!: find_SomeD intro: le_trans [OF le_add1])
  have g: "off + DIRENT_SIZE \<le> MAXFILE * FS_BSIZE"
    using w by (auto simp: writek_def writei_def dirent_length split: if_splits)
  obtain m t where t: "m = DIRENT_SIZE" "wrote s k off (take m (dirent n name)) t" "s' = iupdate k (set_inode k (\<lambda>ip. ip\<lparr>isize := max (isize (itable s k)) (off + m)\<rparr>) t)"
    using writek_ok [OF ok(1-3), of off "dirent n name"] w o1 g by (auto simp: dirent_length sz_def)
  have "\<not> matches s k name (DIRENT_SIZE * j)" if "DIRENT_SIZE * j < off" for j
  proof -
    have "j < sz div DIRENT_SIZE" using that o1 dv by (auto simp: DIRENT_SIZE_def elim!: dvdE)
    then have "DIRENT_SIZE * j \<in> set offs" by (auto simp: oe)
    then show ?thesis using none by (auto simp: find_None_iff)
  qed
  then show ?thesis using t g o1 by (auto simp: dirent_length sz_def)
qed

lemma linked_entries:
  assumes d: "dir_ok s k" and o: "DIRENT_SIZE dvd off" "off \<le> isize (itable s k)" "off + DIRENT_SIZE \<le> MAXFILE * FS_BSIZE" and w: "wrote s k off (dirent n name) t"
    and s': "s' = iupdate k (set_inode k (\<lambda>ip. ip\<lparr>isize := max (isize (itable s k)) (off + DIRENT_SIZE)\<rparr>) t)"
  shows "dir_ok s' k" "DIRENT_SIZE dvd isize (itable s' k)" "off + DIRENT_SIZE \<le> isize (itable s' k)" "entry s' k off = dirent n name"
    "\<And>e. e + DIRENT_SIZE \<le> off \<Longrightarrow> entry s' k e = entry s k e"
proof -
  have D: "DIRENT_SIZE dvd isize (itable s k)" "isize (itable s k) \<le> MAXFILE * FS_BSIZE" "itype (itable s k) = T_DIR" "inum_ok s k" "\<And>x. x < isize (itable s k) \<Longrightarrow> iaddr s k (x div FS_BSIZE) \<noteq> 0"
    using d by (simp_all add: dir_ok_def)
  have T: "fs_ok t" "inode_ok t k" "inum_ok t k" "itype (itable t k) = T_DIR" using w D(3,4) by (auto simp: wrote_def keeps_def inum_ok_def)
  note B = write_back [OF T(1,3) s']
  have sb: "sb s' = sb t" unfolding s' by (simp add: iupdate_def set_block_def Let_def)
  have sz: "isize (itable s' k) = max (isize (itable s k)) (off + DIRENT_SIZE)" by (rule B(5))
  show dv: "DIRENT_SIZE dvd isize (itable s' k)" using D(1) o(1) by (simp add: sz max_def)
  show "off + DIRENT_SIZE \<le> isize (itable s' k)" by (simp add: sz)
  have fb: "file_byte s' k x = (if off \<le> x \<and> x < off + DIRENT_SIZE then dirent n name ! (x - off) else file_byte s k x)" if "x < MAXFILE * FS_BSIZE" for x
    using w B(4) [OF T(2) that] that by (simp add: wrote_def dirent_length)
  show "entry s' k off = dirent n name"
    using fb o(3) by (intro nth_equalityI) (auto simp: entry_def dirent_length)
  show "entry s' k e = entry s k e" if "e + DIRENT_SIZE \<le> off" for e
    using fb o(3) that by (auto simp: entry_def)
  have "iaddr s' k (x div FS_BSIZE) \<noteq> 0" if x: "x < isize (itable s' k)" for x
  proof (cases "x < isize (itable s k)")
    case True
    have "x div FS_BSIZE < MAXFILE" using True D(2) by (intro less_mult_imp_div_less) simp
    then show ?thesis using D(5) [OF True] w B(2) [OF T(2)] by (simp add: wrote_def)
  next
    case False
    then show ?thesis using x o(2) w B(2) [OF T(2)] by (simp add: wrote_def dirent_length sz)
  qed
  then show "dir_ok s' k"
    using B(1,3,6) T dv D(2) o(3) sz sb by (simp add: dir_ok_def inum_ok_def)
qed

section \<open>Properties\<close>

text \<open>C33. \<open>dirlookup\<close> finds what \<open>dirlink\<close> entered: after a name was linked to an inode number, looking it up gets exactly that inode, at the entry that was free or new.\<close>

theorem link_then_lookup:
  assumes d: "dir_ok s k" and n: "0 < n" "n < 2 ^ 16" and z: "0 \<notin> set name" and l: "dirlink k name n s = Ret 0 s'"
  shows "\<exists>off. dirlookup k name s' = obind (iget (idev (itable s' k)) n s') (\<lambda>j s. Ret (Some (j, off)) s)"
proof -
  from linked [OF d l] obtain off t where L: "DIRENT_SIZE dvd off" "off \<le> isize (itable s k)" "\<forall>j. DIRENT_SIZE * j < off \<longrightarrow> \<not> matches s k name (DIRENT_SIZE * j)"
      "off + DIRENT_SIZE \<le> MAXFILE * FS_BSIZE" "wrote s k off (dirent n name) t" "s' = iupdate k (set_inode k (\<lambda>ip. ip\<lparr>isize := max (isize (itable s k)) (off + DIRENT_SIZE)\<rparr>) t)"
    by blast
  note E = linked_entries [OF d L(1,2,4,5,6)]
  define i where "i = off div DIRENT_SIZE"
  have off: "off = DIRENT_SIZE * i" using L(1) by (simp add: i_def)
  have "find (matches s' k name) (entry_offsets (isize (itable s' k))) = Some (DIRENT_SIZE * i)"
    unfolding offsets_size [OF E(2)]
  proof (rule find_first)
    show "i < isize (itable s' k) div DIRENT_SIZE" using E(3) off by (simp add: DIRENT_SIZE_def)
    show "matches s' k name (DIRENT_SIZE * i)" using E(4) dirent_inum [OF n(2)] dirent_name [OF z] n(1) by (simp add: matches_def off)
    show "\<not> matches s' k name (DIRENT_SIZE * j)" if j: "j < i" for j
    proof -
      have "DIRENT_SIZE * j + DIRENT_SIZE \<le> off" using j unfolding off by (metis Suc_leI mult_Suc_right add.commute mult_le_mono2)
      then show ?thesis using E(5) L(3) by (simp add: matches_def DIRENT_SIZE_def)
    qed
  qed
  then have "dirlookup k name s' = obind (iget (idev (itable s' k)) n s') (\<lambda>j s. Ret (Some (j, off)) s)"
    using lookup_loop_eq [OF E(1), of "entry_offsets (isize (itable s' k))" name] offset_bound(1) [OF E(2)] E(1,4) dirent_inum [OF n(2)]
    by (simp add: dirlookup_def dir_ok_def off)
  then show ?thesis by blast
qed

text \<open>The small disk with inode 0 an empty directory.\<close>

definition fs_dir :: fs where
  "fs_dir = set_inode 0 (\<lambda>ip. ip\<lparr>itype := T_DIR\<rparr>) fs0"

lemma fs_dir_ok: "dir_ok fs_dir 0"
proof -
  have "fs_ok fs_dir" using fs_ok_blocks [of fs_dir fs0] fs0_ok by (simp add: fs_dir_def)
  moreover have "inode_ok fs_dir 0" by (simp add: inode_ok_def iaddr_def indirect_def fs_dir_def fs0_def)
  ultimately show ?thesis by (simp add: dir_ok_def inum_ok_def fs_dir_def fs0_def)
qed

lemma fs_dir_link: "\<exists>s'. dirlink 0 [97] 2 fs_dir = Ret 0 s'"
proof -
  have "balloc fs_dir = (5, snd (balloc fs_dir))" using fs0_balloc by (simp add: balloc_def fs_dir_def bit_byte_def split: option.splits)
  then obtain t where b: "balloc fs_dir = (5, t)" by metis
  have f: "itable fs_dir 0 = (itable fs0 0)\<lparr>itype := T_DIR\<rparr>" by (simp add: fs_dir_def)
  have i: "isize (itable fs_dir 0) = 0" "itype (itable fs_dir 0) = T_DIR" "addrs (itable fs_dir 0) 0 = 0" by (simp_all add: f fs0_def)
  have "\<exists>s'. writek 0 0 (dirent 2 [97]) fs_dir = Ret 16 s'"
    by (simp add: writek_def writei_def write_loop.simps on_fs_def on_mem_def bmap_def b i NDIRECT_def kernel_source_def Let_def MAXFILE_def NINDIRECT_def FS_BSIZE_def dirent_length DIRENT_SIZE_def)
  then show ?thesis by (auto simp: dirlink_def dirlookup_def i entry_offsets_def DIRENT_SIZE_def)
qed

theorem link_then_lookup_witness:
  "\<exists>s' off. dirlink 0 [97] 2 fs_dir = Ret 0 s' \<and> dirlookup 0 [97] s' = obind (iget (idev (itable s' 0)) 2 s') (\<lambda>j s. Ret (Some (j, off)) s)"
proof -
  obtain s' where l: "dirlink 0 [97] 2 fs_dir = Ret 0 s'" using fs_dir_link by blast
  show ?thesis using link_then_lookup [OF fs_dir_ok _ _ _ l] l by auto
qed

end
