(* ===== verification/Console.thy ===== *)
theory Console
  imports Proc Fs
begin

text \<open>
  The console, \<^verbatim>\<open>kernel/console.c\<close>: a ring of 128 characters between the keyboard interrupt, which edits the line being typed, and the processes that read it. The three indices wrap at \<open>2 ^ 32\<close>.
  What is sent to the terminal is a list of characters. \<open>char\<close> has no sign on this processor. \<open>either_copyout\<close> and \<open>either_copyin\<close> are a \<open>sink\<close> and a \<open>source\<close>, as in \<open>Fs\<close>. A reader that has to wait is the result
  \<open>CWait\<close>, with the number of bytes it has so far: when it is woken it goes on from there.
\<close>

definition INPUT_BUF_SIZE :: nat where "INPUT_BUF_SIZE = 128"

record cons =
  cbuf :: "nat \<Rightarrow> byte"
  cr :: "32 word"
  cw :: "32 word"
  ce :: "32 word"

definition slot :: "32 word \<Rightarrow> nat" where
  "slot x = unat x mod INPUT_BUF_SIZE"

text \<open>What \<open>consputc\<close> sends for \<open>BACKSPACE\<close>.\<close>

definition BACKSPACE :: "byte list" where "BACKSPACE = [8, 32, 8]"

text \<open>The loop of control-U: the characters typed since the last line end are taken back.\<close>

function kill_line :: "cons \<Rightarrow> byte list \<Rightarrow> cons \<times> byte list" where
  "kill_line c out =
     (if ce c \<noteq> cw c \<and> cbuf c (slot (ce c - 1)) \<noteq> 10 then kill_line (c\<lparr>ce := ce c - 1\<rparr>) (out @ BACKSPACE) else (c, out))"
  by auto
termination
proof (relation "measure (\<lambda>(c, out). unat (ce c - cw c))")
  fix c :: cons and out :: "byte list"
  assume "ce c \<noteq> cw c \<and> cbuf c (slot (ce c - 1)) \<noteq> 10"
  then have "ce c - cw c \<noteq> 0" by simp
  then have "unat (ce c - cw c - 1) < unat (ce c - cw c)" by (rule measure_unat)
  then show "((c\<lparr>ce := ce c - 1\<rparr>, out @ BACKSPACE), c, out) \<in> measure (\<lambda>(c, out). unat (ce c - cw c))" by (simp add: algebra_simps)
qed simp

declare kill_line.simps [simp del]

text \<open>The new state, what is echoed, and whether readers are woken. Control-P prints the process list.\<close>

definition consoleintr :: "nat \<Rightarrow> cons \<Rightarrow> cons \<times> byte list \<times> bool" where
  "consoleintr k c =
     (if k = 16 then (c, [], False)
      else if k = 21 then let (c, out) = kill_line c [] in (c, out, False)
      else if k = 8 \<or> k = 127 then if ce c \<noteq> cw c then (c\<lparr>ce := ce c - 1\<rparr>, BACKSPACE, False) else (c, [], False)
      else if k \<noteq> 0 \<and> unat (ce c - cr c) < INPUT_BUF_SIZE
      then let k = (if k = 13 then 10 else k);
               c = c\<lparr>cbuf := (cbuf c)(slot (ce c) := word_of_nat k), ce := ce c + 1\<rparr>
           in if k = 10 \<or> k = 4 \<or> unat (ce c - cr c) = INPUT_BUF_SIZE
              then (c\<lparr>cw := ce c\<rparr>, [word_of_nat k], True)
              else (c, [word_of_nat k], False)
      else (c, [], False))"

datatype cres = CDone int | CWait int

text \<open>The loop of \<open>consoleread\<close> with \<open>n\<close> bytes still wanted of \<open>target\<close>.\<close>

function consoleread :: "bool \<Rightarrow> 'm sink \<Rightarrow> nat \<Rightarrow> int \<Rightarrow> int \<Rightarrow> cons \<times> 'm \<Rightarrow> (cons \<times> 'm, cres) outcome" where
  "consoleread kl out dst n target cm =
     (if n > 0
      then let c = fst cm
           in if cr c = cw c then Ret (if kl then CDone (-1) else CWait (target - n)) cm
              else let ch = cbuf c (slot (cr c)); c' = c\<lparr>cr := cr c + 1\<rparr>
                   in if ch = 4 then Ret (CDone (target - n)) (if n < target then c else c', snd cm)
                      else (case out dst [ch] (snd cm) of
                              Ret r m \<Rightarrow> if r = -1 then Ret (CDone (target - n)) (c', m)
                                else if ch = 10 then Ret (CDone (target - (n - 1))) (c', m)
                                else consoleread kl out (dst + 1) (n - 1) target (c', m)
                            | Panic e \<Rightarrow> Panic e | Sleep w m \<Rightarrow> Sleep w (c', m) | Diverge \<Rightarrow> Diverge)
      else Ret (CDone (target - n)) cm)"
  by auto
termination
  by (relation "measure (\<lambda>(kl, out, dst, n, target, cm). nat n)") auto

declare consoleread.simps [simp del]

text \<open>\<open>uartwrite\<close> sends the bytes in order; that it waits for the transmitter between them is left out.\<close>

function consolewrite :: "'m source \<Rightarrow> nat \<Rightarrow> int \<Rightarrow> int \<Rightarrow> byte list \<times> 'm \<Rightarrow> (byte list \<times> 'm, int) outcome" where
  "consolewrite inp src n i tm =
     (if i < n
      then let nn = min 32 (n - i)
           in case inp (src + nat i) (nat nn) (snd tm) of
                Ret (r, bs) m \<Rightarrow> if r = -1 then Ret i (fst tm, m) else consolewrite inp src n (i + nn) (fst tm @ bs, m)
              | Panic e \<Rightarrow> Panic e | Sleep w m \<Rightarrow> Sleep w (fst tm, m) | Diverge \<Rightarrow> Diverge
      else Ret i tm)"
  by auto
termination
  by (relation "measure (\<lambda>(inp, src, n, i, tm). nat (n - i))") auto

declare consolewrite.simps [simp del]

end
