(* ===== verification/Console_Props.thy ===== *)
theory Console_Props
  imports Console
begin

text \<open>
  The console as a line editor: \<open>holds c rd ed\<close> says that the ring holds the characters \<open>rd\<close> that are ready for readers, then the line \<open>ed\<close> that is still being edited. Each key does to these lists what \<open>ed_key\<close> says, and a
  read takes what \<open>line_read\<close> says.
\<close>

definition holds :: "cons \<Rightarrow> byte list \<Rightarrow> byte list \<Rightarrow> bool" where
  "holds c rd ed \<longleftrightarrow> cw c = cr c + of_nat (length rd) \<and> ce c = cr c + of_nat (length rd + length ed) \<and> length rd + length ed \<le> INPUT_BUF_SIZE \<and>
     (\<forall>i<length rd + length ed. cbuf c (slot (cr c + of_nat i)) = (rd @ ed) ! i) \<and> 10 \<notin> set ed"

text \<open>What a key does: control-U takes the line back, backspace and delete a character; line end and control-D give the line to the readers, as does a full buffer.\<close>

definition ed_key :: "nat \<Rightarrow> byte list \<times> byte list \<Rightarrow> byte list \<times> byte list" where
  "ed_key k re =
     (let (rd, ed) = re
      in if k = 16 \<or> k = 0 then (rd, ed)
         else if k = 21 then (rd, [])
         else if k = 8 \<or> k = 127 then (rd, butlast ed)
         else if length rd + length ed = INPUT_BUF_SIZE then (rd, ed)
         else let k = (if k = 13 then 10 else k); ed = ed @ [word_of_nat k]
              in if k = 10 \<or> k = 4 \<or> length rd + length ed = INPUT_BUF_SIZE then (rd @ ed, []) else (rd, ed))"

text \<open>What a read of \<open>n\<close> more bytes takes when \<open>k\<close> have been taken: the bytes, what is left, and whether the read is finished. Control-D ends a read and stays for the next one when bytes were taken before it.\<close>

fun line_read :: "nat \<Rightarrow> nat \<Rightarrow> byte list \<Rightarrow> byte list \<times> byte list \<times> bool" where
  "line_read 0 k rd = ([], rd, True)"
| "line_read (Suc n) k [] = ([], [], False)"
| "line_read (Suc n) k (ch # rd) =
     (if ch = 4 then ([], if k > 0 then ch # rd else rd, True)
      else if ch = 10 then ([ch], rd, True)
      else let (bs, rest, fin) = line_read n (k + 1) rd in (ch # bs, rest, fin))"

section \<open>The ring\<close>

lemma slot_add: "slot (a + of_nat i) = (unat a + i) mod INPUT_BUF_SIZE"
proof -
  have "unat (a + of_nat i :: 32 word) = (unat a + i) mod 2 ^ 32" by (simp add: unat_word_ariths unat_of_nat mod_simps)
  then have "slot (a + of_nat i) = (unat a + i) mod 2 ^ 32 mod 128" by (simp add: slot_def INPUT_BUF_SIZE_def)
  also have "\<dots> = (unat a + i) mod 128" by (rule mod_mod_cancel) simp
  finally show ?thesis by (simp add: INPUT_BUF_SIZE_def)
qed

lemma slot_distinct:
  assumes "i < n" "n < INPUT_BUF_SIZE"
  shows "slot (a + of_nat i) \<noteq> slot (a + of_nat n)"
proof
  assume "slot (a + of_nat i) = slot (a + of_nat n)"
  then have "(unat a + n - (unat a + i)) mod INPUT_BUF_SIZE = 0" unfolding slot_add by (intro mod_eq_dvd_iff_nat [THEN iffD1, THEN dvd_imp_mod_0] ) (use assms in auto)
  then show False using assms by simp
qed

lemma small_unat: "i \<le> INPUT_BUF_SIZE \<Longrightarrow> unat (of_nat i :: 32 word) = i"
  by (simp add: INPUT_BUF_SIZE_def unat_of_nat)

lemma small_inject: "i \<le> INPUT_BUF_SIZE \<Longrightarrow> j \<le> INPUT_BUF_SIZE \<Longrightarrow> (of_nat i :: 32 word) = of_nat j \<longleftrightarrow> i = j"
  by (metis small_unat)

lemma holds_len: "holds c rd ed \<Longrightarrow> unat (ce c - cr c) = length rd + length ed"
  by (simp add: holds_def small_unat del: of_nat_add)

lemma holds_empty: "holds c rd ed \<Longrightarrow> (ce c = cw c) = (ed = []) \<and> (cr c = cw c) = (rd = [])"
  using small_inject [of "length rd + length ed" "length rd"] small_inject [of "length rd" 0] by (auto simp: holds_def simp del: of_nat_add)

lemma holds_last:
  assumes "holds c rd ed" "ed \<noteq> []"
  shows "cbuf c (slot (ce c - 1)) = last ed" "holds (c\<lparr>ce := ce c - 1\<rparr>) rd (butlast ed)"
proof -
  obtain ed' x where e: "ed = ed' @ [x]" using assms(2) by (cases ed rule: rev_cases) auto
  have m: "ce c - 1 = cr c + of_nat (length rd + length ed')" using assms(1) e by (simp add: holds_def algebra_simps)
  show "cbuf c (slot (ce c - 1)) = last ed" using assms(1) e unfolding m by (simp add: holds_def nth_append del: of_nat_add)
  have "(rd @ ed) ! i = (rd @ ed') ! i" if "i < length rd + length ed'" for i using that e by (auto simp: nth_append)
  then show "holds (c\<lparr>ce := ce c - 1\<rparr>) rd (butlast ed)" using assms(1) e m by (auto simp: holds_def simp del: of_nat_add)
qed

lemma kill_line_holds: "holds c rd ed \<Longrightarrow> holds (fst (kill_line c out)) rd []"
proof (induction ed arbitrary: c out rule: rev_induct)
  case Nil
  then show ?case using holds_empty [OF Nil] by (subst kill_line.simps) simp
next
  case (snoc x ed)
  have "x \<noteq> 10" using snoc.prems by (auto simp: holds_def)
  then have "kill_line c out = kill_line (c\<lparr>ce := ce c - 1\<rparr>) (out @ BACKSPACE)"
    using holds_empty [OF snoc.prems] holds_last [OF snoc.prems] by (subst kill_line.simps) simp
  then show ?case using snoc.IH [of "c\<lparr>ce := ce c - 1\<rparr>"] holds_last(2) [OF snoc.prems] by simp
qed

lemma holds_type:
  assumes "holds c rd ed" "length rd + length ed < INPUT_BUF_SIZE" "x \<noteq> 10"
  shows "holds (c\<lparr>cbuf := (cbuf c)(slot (ce c) := x), ce := ce c + 1\<rparr>) rd (ed @ [x])"
proof -
  have e: "ce c = cr c + of_nat (length rd + length ed)" using assms(1) by (simp add: holds_def)
  have "((cbuf c)(slot (ce c) := x)) (slot (cr c + of_nat i)) = (rd @ ed @ [x]) ! i" if "i < length rd + length (ed @ [x])" for i
    using that assms(1) slot_distinct [of i "length rd + length ed" "cr c"] assms(2) unfolding e
    by (cases "i = length rd + length ed") (auto simp: holds_def nth_append simp del: of_nat_add)
  then show ?thesis using assms by (simp add: holds_def)
qed

lemma holds_commit:
  assumes "holds c rd ed" "length rd + length ed < INPUT_BUF_SIZE"
  shows "holds (c\<lparr>cbuf := (cbuf c)(slot (ce c) := x), ce := ce c + 1, cw := ce c + 1\<rparr>) (rd @ ed @ [x]) []"
proof -
  have e: "ce c = cr c + of_nat (length rd + length ed)" using assms(1) by (simp add: holds_def)
  have "((cbuf c)(slot (ce c) := x)) (slot (cr c + of_nat i)) = (rd @ ed @ [x]) ! i" if "i < length rd + length (ed @ [x])" for i
    using that assms(1) slot_distinct [of i "length rd + length ed" "cr c"] assms(2) unfolding e
    by (cases "i = length rd + length ed") (auto simp: holds_def nth_append simp del: of_nat_add)
  then show ?thesis using assms by (simp add: holds_def)
qed

lemma holds_take:
  assumes "holds c (x # rd) ed"
  shows "cbuf c (slot (cr c)) = x" "holds (c\<lparr>cr := cr c + 1\<rparr>) rd ed"
proof -
  have n: "cbuf c (slot (cr c + of_nat i)) = ((x # rd) @ ed) ! i" if "i < length (x # rd) + length ed" for i using assms that by (simp add: holds_def)
  show "cbuf c (slot (cr c)) = x" using n [of 0] by simp
  have "cbuf c (slot (cr c + 1 + of_nat i)) = (rd @ ed) ! i" if "i < length rd + length ed" for i
    using n [of "Suc i"] that by (simp add: algebra_simps)
  then show "holds (c\<lparr>cr := cr c + 1\<rparr>) rd ed" using assms by (simp add: holds_def algebra_simps)
qed


section \<open>Keys and reads\<close>

lemma newline_byte: "k < 256 \<Longrightarrow> (word_of_nat k :: byte) = 10 \<Longrightarrow> k = 10"
  by (drule arg_cong [of _ _ unat]) (simp add: unat_of_nat)

lemma consoleintr_type:
  assumes h: "holds c rd ed" and k: "k < 256" "k \<notin> {0, 8, 16, 21, 127}" and room: "length rd + length ed < INPUT_BUF_SIZE" and i: "consoleintr k c = (c', out, w)"
  shows "holds c' (fst (ed_key k (rd, ed))) (snd (ed_key k (rd, ed))) \<and> (w \<longleftrightarrow> fst (ed_key k (rd, ed)) \<noteq> rd)"
proof -
  define j where "j = (if k = 13 then 10 else k)"
  define d where "d = c\<lparr>cbuf := (cbuf c)(slot (ce c) := word_of_nat j), ce := ce c + 1\<rparr>"
  have n: "unat (ce c - cr c) = length rd + length ed" by (rule holds_len [OF h])
  have n1: "unat (ce d - cr d) = length rd + length ed + 1"
  proof -
    have "ce d - cr d = of_nat (length rd + length ed + 1)" using h by (simp add: d_def holds_def algebra_simps)
    then show ?thesis using room small_unat [of "length rd + length ed + 1"] by simp
  qed
  have c: "consoleintr k c = (if j = 10 \<or> j = 4 \<or> length rd + length ed + 1 = INPUT_BUF_SIZE then (d\<lparr>cw := ce d\<rparr>, [word_of_nat j], True) else (d, [word_of_nat j], False))"
    using k room n n1 by (simp add: consoleintr_def Let_def j_def d_def)
  have e: "ed_key k (rd, ed) = (if j = 10 \<or> j = 4 \<or> length rd + length ed + 1 = INPUT_BUF_SIZE then (rd @ ed @ [word_of_nat j], []) else (rd, ed @ [word_of_nat j]))"
    using k room by (simp add: ed_key_def Let_def j_def)
  show ?thesis
  proof (cases "j = 10 \<or> j = 4 \<or> length rd + length ed + 1 = INPUT_BUF_SIZE")
    case True
    then have "consoleintr k c = (d\<lparr>cw := ce d\<rparr>, [word_of_nat j], True)" "ed_key k (rd, ed) = (rd @ ed @ [word_of_nat j], [])" using c e by simp_all
    then show ?thesis using i holds_commit [OF h room, of "word_of_nat j"] by (simp add: d_def)
  next
    case False
    have "j < 256" using k(1) by (simp add: j_def)
    then have "(word_of_nat j :: byte) \<noteq> 10" using False newline_byte by blast
    moreover have "consoleintr k c = (d, [word_of_nat j], False)" "ed_key k (rd, ed) = (rd, ed @ [word_of_nat j])" using c e False by simp_all
    ultimately show ?thesis using i holds_type [OF h room, of "word_of_nat j"] by (simp add: d_def)
  qed
qed

lemma consoleintr_holds:
  assumes h: "holds c rd ed" and k: "k < 256" and i: "consoleintr k c = (c', out, w)"
  shows "holds c' (fst (ed_key k (rd, ed))) (snd (ed_key k (rd, ed))) \<and> (w \<longleftrightarrow> fst (ed_key k (rd, ed)) \<noteq> rd)"
proof (cases "k \<in> {0, 8, 16, 21, 127}")
  case True
  then show ?thesis using i h holds_last(2) [OF h] holds_empty [OF h] kill_line_holds [OF h, of "[]"]
    by (cases "ed = []") (auto simp: consoleintr_def ed_key_def split: prod.splits)
next
  case False
  note K = False
  have le: "length rd + length ed \<le> INPUT_BUF_SIZE" using h by (simp add: holds_def)
  show ?thesis
  proof (cases "length rd + length ed = INPUT_BUF_SIZE")
    case True
    then show ?thesis using i h K holds_len [OF h] by (auto simp: consoleintr_def ed_key_def)
  next
    case False
    with le consoleintr_type [OF h k K _ i] show ?thesis by simp
  qed
qed

lemma consoleread_holds:
  assumes "holds c rd ed" "line_read n k rd = (bs, rest, fin)"
  shows "\<exists>c'. consoleread kl kernel_sink dst (int n) (int (n + k)) (c, acc) =
     Ret (if fin then CDone (int (k + length bs)) else if kl then CDone (-1) else CWait (int (k + length bs))) (c', acc @ bs) \<and> holds c' rest ed"
  using assms
proof (induction n k rd arbitrary: c dst acc bs rest fin rule: line_read.induct)
  case (1 k rd)
  then show ?case by (subst consoleread.simps) auto
next
  case (2 n k)
  then show ?case using holds_empty [OF 2(1)] by (subst consoleread.simps) auto
next
  case (3 n k ch rd)
  note T = holds_take [OF 3(2)] and E = holds_empty [OF 3(2)]
  show ?case
  proof (cases "ch = 4 \<or> ch = 10")
    case True
    then show ?thesis using 3(2,3) T E by (subst consoleread.simps) (auto simp: Let_def kernel_sink_def split: if_splits)
  next
    case False
    then obtain bs' where b: "line_read n (k + 1) rd = (bs', rest, fin)" "bs = ch # bs'" using 3(3) by (auto split: prod.splits)
    from 3(1) [OF _ _ T(2) b(1), of "dst + 1" "acc @ [ch]"] False obtain c' where
      "consoleread kl kernel_sink (dst + 1) (int n) (int (n + (k + 1))) (c\<lparr>cr := cr c + 1\<rparr>, acc @ [ch]) =
        Ret (if fin then CDone (int (k + 1 + length bs')) else if kl then CDone (-1) else CWait (int (k + 1 + length bs'))) (c', acc @ [ch] @ bs')" "holds c' rest ed"
      by auto
    then show ?thesis using False T E b by (subst consoleread.simps) (auto simp: Let_def kernel_sink_def algebra_simps)
  qed
qed


section \<open>The console as a line editor\<close>

definition keys :: "nat list \<Rightarrow> cons \<Rightarrow> cons" where
  "keys ks c = fold (\<lambda>k c. fst (consoleintr k c)) ks c"

lemma keys_hold: "holds c rd ed \<Longrightarrow> \<forall>k\<in>set ks. k < 256 \<Longrightarrow> holds (keys ks c) (fst (fold ed_key ks (rd, ed))) (snd (fold ed_key ks (rd, ed)))"
proof (induction ks arbitrary: c rd ed)
  case Nil
  then show ?case by (simp add: keys_def)
next
  case (Cons k ks)
  obtain c' out w where i: "consoleintr k c = (c', out, w)" by (cases "consoleintr k c")
  have "holds c' (fst (ed_key k (rd, ed))) (snd (ed_key k (rd, ed)))" using consoleintr_holds [OF Cons.prems(1) _ i] Cons.prems(2) by simp
  from Cons.IH [OF this] Cons.prems(2) i show ?case by (simp add: keys_def)
qed

text \<open>C34. The console is a line editor: whatever is typed, the ring holds the finished lines and the line being edited that the editor's rules give; a read takes what the rules of reading give, up to a line end,
  control-D or the number of bytes asked for, and waits when nothing more is ready; and a reader is woken exactly when characters become ready.\<close>

theorem console_edits_lines:
  assumes "holds c rd ed" "\<forall>k\<in>set ks. k < 256" "fold ed_key ks (rd, ed) = (rd', ed')" "line_read n 0 rd' = (bs, rest, fin)"
  shows "(\<exists>c'. consoleread False kernel_sink dst (int n) (int n) (keys ks c, []) = Ret (if fin then CDone (int (length bs)) else CWait (int (length bs))) (c', bs) \<and> holds c' rest ed') \<and>
    (\<forall>k c' out woken. k < 256 \<and> consoleintr k (keys ks c) = (c', out, woken) \<longrightarrow> (woken \<longleftrightarrow> fst (ed_key k (rd', ed')) \<noteq> rd'))"
proof -
  have h: "holds (keys ks c) rd' ed'" using keys_hold [OF assms(1,2)] assms(3) by simp
  show ?thesis using consoleread_holds [OF h assms(4), of False dst "[]"] consoleintr_holds [OF h] by auto
qed

text \<open>Typing \<open>a b\<close>, backspace and return, and reading up to 100 bytes, gives \<open>a\<close> and the line end.\<close>

theorem console_edits_lines_witness:
  "\<exists>c'. consoleread False kernel_sink 0 100 100 (keys [97, 98, 8, 13] \<lparr>cbuf = \<lambda>_. 0, cr = 0, cw = 0, ce = 0\<rparr>, []) = Ret (CDone 2) (c', [97, 10])"
proof -
  have h: "holds \<lparr>cbuf = \<lambda>_. 0, cr = 0, cw = 0, ce = 0\<rparr> [] []" by (simp add: holds_def)
  have k: "fold ed_key [97, 98, 8, 13] ([], []) = ([97, 10], [])" by (simp add: ed_key_def INPUT_BUF_SIZE_def)
  have l: "line_read 100 0 [97, 10] = ([97, 10], [], True)" by code_simp
  from console_edits_lines [OF h _ k l, of 0] show ?thesis by auto
qed

end
