(* ===== verification/File.thy ===== *)
theory File
  imports Syscall Pipe Console
begin

text \<open>
  Open files, \<^verbatim>\<open>kernel/file.c\<close>, with \<open>pipealloc\<close> of \<^verbatim>\<open>kernel/pipe.c\<close> and the whole of \<open>kexit\<close>. The state \<open>osys\<close> puts the components together: processes and memory (\<open>Proc\<close>), the disk with its
  inode table (\<open>Fs\<close>), the file table, the pipes by the address of their page, how many operations of the log are under way, the console (\<open>Console\<close>) and what was sent to the terminal. The reference count of a file is \<open>frefs\<close> of the kernel, that of an inode
  is in the inode table. A major number is a bit pattern of 16 bits, so a negative one is above \<open>NDEV\<close>. The table of devices is an argument, as it is an array of function pointers.
  A call that waits for a pipe is the result \<open>PWait\<close>, one that waits for an inode the outcome \<open>Sleep\<close>; whether \<open>begin_op\<close> has to wait for space is the matter of \<open>Log\<close>.
\<close>

section \<open>State\<close>

definition NFILE :: nat where "NFILE = 100"
definition NDEV :: nat where "NDEV = 10"

datatype filetype = FD_NONE | FD_PIPE | FD_INODE | FD_DEVICE

record ofile_s =
  ftype :: filetype
  freadable :: bool
  fwritable :: bool
  fpipe :: nat
  fip :: nat
  foff :: nat
  fmajor :: nat

record osys =
  kn :: kernel
  disk :: fs
  ftab :: "nat \<Rightarrow> ofile_s"
  pipes :: "nat \<Rightarrow> pipe"
  ops :: int
  con :: cons
  tty :: "byte list"

definition on_kern :: "(kernel \<Rightarrow> (kernel, 'a) outcome) \<Rightarrow> osys \<Rightarrow> (osys, 'a) outcome" where
  "on_kern f s = (case f (kn s) of Ret a t \<Rightarrow> Ret a (s\<lparr>kn := t\<rparr>) | Panic e \<Rightarrow> Panic e | Sleep c t \<Rightarrow> Sleep c (s\<lparr>kn := t\<rparr>) | Diverge \<Rightarrow> Diverge)"

definition on_disk :: "(fs \<Rightarrow> (fs, 'a) outcome) \<Rightarrow> osys \<Rightarrow> (osys, 'a) outcome" where
  "on_disk f s = (case f (disk s) of Ret a t \<Rightarrow> Ret a (s\<lparr>disk := t\<rparr>) | Panic e \<Rightarrow> Panic e | Sleep c t \<Rightarrow> Sleep c (s\<lparr>disk := t\<rparr>) | Diverge \<Rightarrow> Diverge)"

definition on_both :: "(fs \<times> kernel \<Rightarrow> (fs \<times> kernel, 'a) outcome) \<Rightarrow> osys \<Rightarrow> (osys, 'a) outcome" where
  "on_both f s = (case f (disk s, kn s) of Ret a (d, t) \<Rightarrow> Ret a (s\<lparr>disk := d, kn := t\<rparr>) | Panic e \<Rightarrow> Panic e
     | Sleep c (d, t) \<Rightarrow> Sleep c (s\<lparr>disk := d, kn := t\<rparr>) | Diverge \<Rightarrow> Diverge)"

definition set_file :: "nat \<Rightarrow> (ofile_s \<Rightarrow> ofile_s) \<Rightarrow> osys \<Rightarrow> osys" where
  "set_file f g s = s\<lparr>ftab := (ftab s)(f := g (ftab s f))\<rparr>"

definition set_fref :: "nat \<Rightarrow> int \<Rightarrow> osys \<Rightarrow> osys" where
  "set_fref f v s = s\<lparr>kn := (kn s)\<lparr>frefs := (frefs (kn s))(f := v)\<rparr>\<rparr>"

definition op_begin :: "osys \<Rightarrow> osys" where "op_begin s = s\<lparr>ops := ops s + 1\<rparr>"
definition op_end :: "osys \<Rightarrow> osys" where "op_end s = s\<lparr>ops := ops s - 1\<rparr>"

section \<open>Pipes in the file table\<close>

text \<open>The channels of a pipe are the addresses of its counters.\<close>

definition NREAD_OFFSET :: nat where "NREAD_OFFSET = 536"
definition NWRITE_OFFSET :: nat where "NWRITE_OFFSET = 540"

definition chan_of :: "nat \<Rightarrow> chan \<Rightarrow> wchan" where
  "chan_of pi c = ChAddr (pi + (case c of NRead \<Rightarrow> NREAD_OFFSET | NWrite \<Rightarrow> NWRITE_OFFSET))"

definition to_psys :: "nat \<Rightarrow> osys \<Rightarrow> psys" where
  "to_psys pi s = \<lparr>pk = km (kn s), ppipe = pipes s pi, wakes = []\<rparr>"

definition from_psys :: "nat \<Rightarrow> nat \<Rightarrow> psys \<Rightarrow> osys \<Rightarrow> osys" where
  "from_psys i pi q s = s\<lparr>kn := fold (\<lambda>c. wakeup i (chan_of pi c)) (wakes q) ((kn s)\<lparr>km := pk q\<rparr>), pipes := (pipes s)(pi := ppipe q)\<rparr>"

definition on_pipe :: "nat \<Rightarrow> nat \<Rightarrow> (psys \<Rightarrow> (psys, 'a) outcome) \<Rightarrow> osys \<Rightarrow> (osys, 'a) outcome" where
  "on_pipe i pi f s = (case f (to_psys pi s) of Ret a q \<Rightarrow> Ret a (from_psys i pi q s) | Panic e \<Rightarrow> Panic e | Sleep c q \<Rightarrow> Sleep c (from_psys i pi q s) | Diverge \<Rightarrow> Diverge)"

section \<open>The file table\<close>

definition filealloc :: "osys \<Rightarrow> nat option \<times> osys" where
  "filealloc s =
     (case find (\<lambda>f. frefs (kn s) f = 0) [0..<NFILE] of None \<Rightarrow> (None, s)
      | Some f \<Rightarrow> (Some f, set_fref f 1 s))"

definition fileclose :: "nat \<Rightarrow> nat \<Rightarrow> osys \<Rightarrow> (osys, unit) outcome" where
  "fileclose i f s =
     (if frefs (kn s) f < 1 then Panic ''fileclose''
      else let s = set_fref f (frefs (kn s) f - 1) s
           in if frefs (kn s) f > 0 then Ret () s
              else let ff = ftab s f; s = set_file f (\<lambda>x. x\<lparr>ftype := FD_NONE\<rparr>) (set_fref f 0 s)
                   in case ftype ff of
                        FD_PIPE \<Rightarrow> Ret () (from_psys i (fpipe ff) (pipeclose (fpipe ff) (fwritable ff) (to_psys (fpipe ff) s)) s)
                      | FD_NONE \<Rightarrow> Ret () s
                      | _ \<Rightarrow> obind (on_disk (iput (fip ff)) (op_begin s)) (\<lambda>_ s. Ret () (op_end s)))"

text \<open>A \<open>struct stat\<close> in memory; \<open>pad\<close> is what the kernel's stack holds in its four bytes of padding.\<close>

definition stat_bytes :: "byte list \<Rightarrow> stat \<Rightarrow> byte list" where
  "stat_bytes pad st =
     map (stn 4 (stn 4 (stn 2 (stn 2 (stn 8 (\<lambda>x. if 12 \<le> x \<and> x < 16 then pad ! (x - 12) else 0) 16 (st_size st)) 10 (st_nlink st)) 8 (st_type st)) 4 (st_ino st)) 0 (st_dev st)) [0..<24]"

definition filestat :: "byte list \<Rightarrow> nat \<Rightarrow> nat \<Rightarrow> nat \<Rightarrow> osys \<Rightarrow> (osys, int) outcome" where
  "filestat pad i f addr s =
     (if ftype (ftab s f) = FD_INODE \<or> ftype (ftab s f) = FD_DEVICE
      then let ip = fip (ftab s f)
           in obind (on_disk (ilock ip) s) (\<lambda>_ s.
                let st = stati ip (disk s)
                in obind (on_disk (iunlock ip) s) (\<lambda>_ s.
                   obind (on_kern (mem_op (copyout (uproc_of (ptab (kn s) i)) (pagetable (ptab (kn s) i)) addr (stat_bytes pad st))) s) (\<lambda>r s.
                     if r < 0 then Ret (-1) s else Ret 0 s)))
      else Ret (-1) s)"

section \<open>Reading and writing\<close>

text \<open>The functions of a device, for the process that calls, a user address and a number of bytes.\<close>

type_synonym devfn = "nat \<Rightarrow> nat \<Rightarrow> int \<Rightarrow> osys \<Rightarrow> (osys, pres) outcome"

record devsw =
  dev_read :: "nat \<Rightarrow> devfn option"
  dev_write :: "nat \<Rightarrow> devfn option"

definition user_sink :: "nat \<Rightarrow> kernel sink" where
  "user_sink i dst bs k = either_copyout i True dst bs k"

definition user_source :: "nat \<Rightarrow> kernel source" where
  "user_source i src n k = either_copyin i True src n k"

definition to_uint :: "int \<Rightarrow> nat" where
  "to_uint n = nat (n mod 2 ^ 32)"

definition advance :: "nat \<Rightarrow> int \<Rightarrow> osys \<Rightarrow> osys" where
  "advance f r s = (if r > 0 then set_file f (\<lambda>x. x\<lparr>foff := (foff x + nat r) mod 2 ^ 32\<rparr>) s else s)"

definition fileread :: "devsw \<Rightarrow> nat \<Rightarrow> nat \<Rightarrow> nat \<Rightarrow> int \<Rightarrow> osys \<Rightarrow> (osys, pres) outcome" where
  "fileread dv i f addr n s =
     (let ff = ftab s f
      in if \<not> freadable ff then Ret (PDone (-1)) s
         else case ftype ff of
           FD_PIPE \<Rightarrow> on_pipe i (fpipe ff) (piperead (killed i (kn s)) (uproc_of (ptab (kn s) i)) (pagetable (ptab (kn s) i)) addr n) s
         | FD_DEVICE \<Rightarrow>
             if fmajor ff \<ge> NDEV then Ret (PDone (-1)) s
             else (case dev_read dv (fmajor ff) of None \<Rightarrow> Ret (PDone (-1)) s | Some rd \<Rightarrow> rd i addr n s)
         | FD_INODE \<Rightarrow>
             obind (on_disk (ilock (fip ff)) s) (\<lambda>_ s.
             obind (on_both (readi (user_sink i) (fip ff) addr (foff ff) (to_uint n)) s) (\<lambda>r s.
             let s = advance f r s
             in obind (on_disk (iunlock (fip ff)) s) (\<lambda>_ s. Ret (PDone r) s)))
         | FD_NONE \<Rightarrow> Panic ''fileread'')"

text \<open>The most bytes written in one transaction.\<close>

definition FILEWRITE_MAX :: int where "FILEWRITE_MAX = (10 - 1 - 1 - 2) div 2 * int FS_BSIZE"

function filewrite_loop :: "nat \<Rightarrow> nat \<Rightarrow> nat \<Rightarrow> int \<Rightarrow> int \<Rightarrow> osys \<Rightarrow> (osys, int) outcome" where
  "filewrite_loop i f addr n done s =
     (if done < n
      then let n1 = min (n - done) FILEWRITE_MAX; ip = fip (ftab s f)
           in obind (on_disk (ilock ip) (op_begin s)) (\<lambda>_ s.
              obind (on_both (writei (user_source i) ip (addr + nat done) (foff (ftab s f)) (to_uint n1)) s) (\<lambda>r s.
              let s = advance f r s
              in obind (on_disk (iunlock ip) s) (\<lambda>_ s.
                 let s = op_end s
                 in if r \<noteq> n1 then Ret (-1) s else filewrite_loop i f addr n (done + r) s)))
      else Ret (if done = n then n else -1) s)"
  by auto
termination
  by (relation "measure (\<lambda>(i, f, addr, n, done, s). nat (n - done))") (auto simp: FILEWRITE_MAX_def FS_BSIZE_def min_def split: if_splits)

declare filewrite_loop.simps [simp del]

definition filewrite :: "devsw \<Rightarrow> nat \<Rightarrow> nat \<Rightarrow> nat \<Rightarrow> int \<Rightarrow> osys \<Rightarrow> (osys, pres) outcome" where
  "filewrite dv i f addr n s =
     (let ff = ftab s f
      in if \<not> fwritable ff then Ret (PDone (-1)) s
         else case ftype ff of
           FD_PIPE \<Rightarrow> on_pipe i (fpipe ff) (pipewrite (\<lambda>_. killed i (kn s)) (uproc_of (ptab (kn s) i)) (pagetable (ptab (kn s) i)) addr n 0) s
         | FD_DEVICE \<Rightarrow>
             if fmajor ff \<ge> NDEV then Ret (PDone (-1)) s
             else (case dev_write dv (fmajor ff) of None \<Rightarrow> Ret (PDone (-1)) s | Some wr \<Rightarrow> wr i addr n s)
         | FD_INODE \<Rightarrow> obind (filewrite_loop i f addr n 0 s) (\<lambda>r s. Ret (PDone r) s)
         | FD_NONE \<Rightarrow> Panic ''filewrite'')"

text \<open>The console as a device, which \<open>consoleinit\<close> enters in the table.\<close>

definition CONSOLE :: nat where "CONSOLE = 1"

definition console_read :: devfn where
  "console_read i addr n s =
     (case consoleread (killed i (kn s)) (user_sink i) addr n n (con s, kn s) of
        Ret r (c, k) \<Rightarrow> Ret (case r of CDone v \<Rightarrow> PDone v | CWait v \<Rightarrow> PWait (nat v)) (s\<lparr>con := c, kn := k\<rparr>)
      | Panic e \<Rightarrow> Panic e | Sleep w (c, k) \<Rightarrow> Sleep w (s\<lparr>con := c, kn := k\<rparr>) | Diverge \<Rightarrow> Diverge)"

definition console_write :: devfn where
  "console_write i addr n s =
     (case consolewrite (user_source i) addr n 0 (tty s, kn s) of
        Ret r (t, k) \<Rightarrow> Ret (PDone r) (s\<lparr>tty := t, kn := k\<rparr>)
      | Panic e \<Rightarrow> Panic e | Sleep w (t, k) \<Rightarrow> Sleep w (s\<lparr>tty := t, kn := k\<rparr>) | Diverge \<Rightarrow> Diverge)"

definition consoleinit :: "devsw \<Rightarrow> devsw" where
  "consoleinit dv = dv\<lparr>dev_read := (dev_read dv)(CONSOLE := Some console_read), dev_write := (dev_write dv)(CONSOLE := Some console_write)\<rparr>"

text \<open>The table of devices at start has no entries.\<close>

definition devices :: devsw where
  "devices = consoleinit \<lparr>dev_read = (\<lambda>_. None), dev_write = (\<lambda>_. None)\<rparr>"

section \<open>Making pipes\<close>

definition new_pipe :: "pipe \<Rightarrow> pipe" where
  "new_pipe q = q\<lparr>readopen := True, writeopen := True, nwrite := 0, nread := 0\<rparr>"

text \<open>The two files, for reading and for writing.\<close>

definition pipealloc :: "nat \<Rightarrow> osys \<Rightarrow> (osys, (nat \<times> nat) option) outcome" where
  "pipealloc i s =
     (case filealloc s of (None, s) \<Rightarrow> Ret None s
      | (Some f0, s) \<Rightarrow>
        (case filealloc s of (None, s) \<Rightarrow> obind (fileclose i f0 s) (\<lambda>_ s. Ret None s)
         | (Some f1, s) \<Rightarrow>
           let (pi, m) = kalloc (km (kn s)); s = s\<lparr>kn := (kn s)\<lparr>km := m\<rparr>\<rparr>
           in if pi = 0 then obind (fileclose i f0 s) (\<lambda>_ s. obind (fileclose i f1 s) (\<lambda>_ s. Ret None s))
              else let s = s\<lparr>pipes := (pipes s)(pi := new_pipe (pipes s pi))\<rparr>;
                       s = set_file f0 (\<lambda>x. x\<lparr>ftype := FD_PIPE, freadable := True, fwritable := False, fpipe := pi\<rparr>) s;
                       s = set_file f1 (\<lambda>x. x\<lparr>ftype := FD_PIPE, freadable := False, fwritable := True, fpipe := pi\<rparr>) s
                   in Ret (Some (f0, f1)) s))"

section \<open>Exit\<close>

fun close_all :: "nat \<Rightarrow> nat list \<Rightarrow> osys \<Rightarrow> (osys, unit) outcome" where
  "close_all i [] s = Ret () s"
| "close_all i (fd # fds) s =
     (case ofile (ptab (kn s) i) fd of None \<Rightarrow> close_all i fds s
      | Some f \<Rightarrow> obind (fileclose i f s) (\<lambda>_ s. close_all i fds (s\<lparr>kn := upd i (\<lambda>p. p\<lparr>ofile := (ofile p)(fd := None)\<rparr>) (kn s)\<rparr>)))"

text \<open>Up to the switch to the scheduler, from which it does not come back.\<close>

definition kexit :: "nat \<Rightarrow> 32 word \<Rightarrow> osys \<Rightarrow> (osys, unit) outcome" where
  "kexit i status s =
     (if initproc (kn s) = Some i then Panic ''init exiting''
      else obind (close_all i [0..<NOFILE] s) (\<lambda>_ s.
        case cwd (ptab (kn s) i) of None \<Rightarrow> Panic ''kerneltrap''
        | Some c \<Rightarrow>
          obind (on_disk (iput c) (op_begin s)) (\<lambda>_ s.
            let s = op_end s; s = s\<lparr>kn := upd i (\<lambda>p. p\<lparr>cwd := None\<rparr>) (kn s)\<rparr>
            in Ret () (s\<lparr>kn := exit_zombie i status (kn s)\<rparr>))))"

end
