(* ===== verification/Exec.thy ===== *)
theory Exec
  imports File
begin

text \<open>
  \<^verbatim>\<open>kernel/exec.c\<close>. A path or argument is its list of characters. A script is run by calling \<open>kexec\<close> again on its interpreter, with the script's inode still locked and the operation still open,
  as in the code; \<open>fuel\<close> bounds that recursion, and \<open>Exec_Props\<close> shows that one more than the inodes of the table is enough.
\<close>

definition ELF_MAGIC :: nat where "ELF_MAGIC = 0x464C457F"
definition ELF_PROG_LOAD :: nat where "ELF_PROG_LOAD = 1"
definition ELFHDR_SIZE :: nat where "ELFHDR_SIZE = 64"
definition PROGHDR_SIZE :: nat where "PROGHDR_SIZE = 56"
definition MAXARG :: nat where "MAXARG = 32"
definition USERSTACK :: nat where "USERSTACK = 1"
definition SP_OFFSET :: nat where "SP_OFFSET = 48"

definition field :: "nat \<Rightarrow> nat \<Rightarrow> byte list \<Rightarrow> nat" where
  "field off n bs = ldn n (\<lambda>x. if x < length bs then bs ! x else 0) off"

record elfhdr =
  e_magic :: nat
  e_entry :: nat
  e_phoff :: nat
  e_phnum :: nat

definition elf_of :: "byte list \<Rightarrow> elfhdr" where
  "elf_of bs = \<lparr>e_magic = field 0 4 bs, e_entry = field 24 8 bs, e_phoff = field 32 8 bs, e_phnum = field 56 2 bs\<rparr>"

record proghdr =
  ph_type :: nat
  ph_flags :: nat
  ph_off :: nat
  ph_vaddr :: nat
  ph_filesz :: nat
  ph_memsz :: nat

definition ph_of :: "byte list \<Rightarrow> proghdr" where
  "ph_of bs = \<lparr>ph_type = field 0 4 bs, ph_flags = field 4 4 bs, ph_off = field 8 8 bs, ph_vaddr = field 16 8 bs, ph_filesz = field 32 8 bs, ph_memsz = field 40 8 bs\<rparr>"

definition flags2perm :: "nat \<Rightarrow> nat" where
  "flags2perm flags = (if bit flags 0 then PTE_X else 0) OR (if bit flags 1 then PTE_W else 0)"

section \<open>Loading\<close>

definition phys_sink :: "nat \<Rightarrow> kernel sink" where
  "phys_sink i dst bs k = either_copyout i False dst bs k"

text \<open>The loop, \<open>d\<close> bytes into the segment.\<close>

function loadseg :: "nat \<Rightarrow> nat \<Rightarrow> nat \<Rightarrow> nat \<Rightarrow> nat \<Rightarrow> nat \<Rightarrow> nat \<Rightarrow> osys \<Rightarrow> (osys, int) outcome" where
  "loadseg i pt va ip offset segsz d s =
     (if d < segsz
      then obind (on_kern (mem_op (walkaddr pt (va + d))) s) (\<lambda>pa s.
           if pa = 0 then Panic ''loadseg: address should exist''
           else let n = min (segsz - d) PGSIZE
                in obind (on_both (readi (phys_sink i) ip pa ((offset + d) mod 2 ^ 32) n) s) (\<lambda>r s.
                     if r \<noteq> int n then Ret (-1) s else loadseg i pt va ip offset segsz (d + PGSIZE) s))
      else Ret 0 s)"
  by auto
termination
  by (relation "measure (\<lambda>(i, pt, va, ip, offset, segsz, d, s). segsz - d)") (auto simp: PGSIZE_def)

declare loadseg.simps [simp del]

text \<open>The loop over the program headers: the size of the image, and whether all went well.\<close>

fun load_segments :: "nat \<Rightarrow> nat \<Rightarrow> nat \<Rightarrow> nat \<Rightarrow> nat \<Rightarrow> nat \<Rightarrow> osys \<Rightarrow> (osys, nat \<times> bool) outcome" where
  "load_segments i pt ip off isz 0 s = Ret (isz, True) s"
| "load_segments i pt ip off isz (Suc cnt) s =
     obind (on_disk (readk ip off PROGHDR_SIZE) s) (\<lambda>(r, bs) s.
       if r \<noteq> int PROGHDR_SIZE then Ret (isz, False) s
       else let ph = ph_of bs; next_off = (off + PROGHDR_SIZE) mod 2 ^ 32
            in if ph_type ph \<noteq> ELF_PROG_LOAD then load_segments i pt ip next_off isz cnt s
               else if ph_memsz ph < ph_filesz ph then Ret (isz, False) s
               else if (ph_vaddr ph + ph_memsz ph) mod 2 ^ 64 < ph_vaddr ph then Ret (isz, False) s
               else if ph_vaddr ph mod PGSIZE \<noteq> 0 then Ret (isz, False) s
               else obind (on_kern (mem_op (uvmalloc pt isz (ph_vaddr ph + ph_memsz ph) (flags2perm (ph_flags ph)))) s) (\<lambda>sz1 s.
                 if sz1 = 0 then Ret (isz, False) s
                 else obind (loadseg i pt (ph_vaddr ph) ip (ph_off ph mod 2 ^ 32) (ph_filesz ph mod 2 ^ 32) 0 s) (\<lambda>r s.
                   if r < 0 then Ret (sz1, False) s else load_segments i pt ip next_off sz1 cnt s)))"

section \<open>The stack\<close>

definition align16 :: "nat \<Rightarrow> nat" where "align16 sp = sp - sp mod 16"

text \<open>The loop over the arguments: the stack pointer and the addresses of the strings so far, \<open>None\<close> when they do not fit.\<close>

fun push_args :: "nat \<Rightarrow> nat \<Rightarrow> nat \<Rightarrow> byte list list \<Rightarrow> nat \<Rightarrow> nat list \<Rightarrow> osys \<Rightarrow> (osys, (nat \<times> nat list) option) outcome" where
  "push_args i pt stackbase [] sp ustack s = Ret (Some (sp, ustack)) s"
| "push_args i pt stackbase (arg # args) sp ustack s =
     (if length ustack \<ge> MAXARG then Ret None s
      else let sp = align16 (sp - (length arg + 1))
           in if sp < stackbase then Ret None s
              else obind (on_kern (mem_op (copyout (uproc_of (ptab (kn s) i)) pt sp (arg @ [0]))) s) (\<lambda>r s.
                if r < 0 then Ret None s else push_args i pt stackbase args sp (ustack @ [sp]) s))"

definition bytes8 :: "nat \<Rightarrow> byte list" where
  "bytes8 v = map (stn 8 (\<lambda>_. 0) 0 v) [0..<8]"

definition last_element :: "byte list \<Rightarrow> byte list" where
  "last_element path = rev (takeWhile (\<lambda>c. c \<noteq> 47) (rev path))"

definition exec_bad :: "nat \<Rightarrow> nat \<Rightarrow> osys \<Rightarrow> (osys, int) outcome" where
  "exec_bad pt isz s = obind (on_kern (mem_op (proc_freepagetable pt isz)) s) (\<lambda>_ s. Ret (-1) s)"

text \<open>From the point where the file is closed: stack, arguments, and the switch to the new image.\<close>

definition exec_commit :: "nat \<Rightarrow> byte list \<Rightarrow> byte list list \<Rightarrow> nat \<Rightarrow> nat \<Rightarrow> nat \<Rightarrow> osys \<Rightarrow> (osys, int) outcome" where
  "exec_commit i path argv entry pt isz s =
     (let oldsz = sz (ptab (kn s) i); isz = PGROUNDUP isz;
          s = s\<lparr>kn := upd i (\<lambda>p. p\<lparr>pmmap := TRAPFRAME - PGSIZE, has_mmap := False\<rparr>) (kn s)\<rparr>
      in obind (on_kern (mem_op (uvmalloc pt isz (isz + (USERSTACK + 1) * PGSIZE) PTE_W)) s) (\<lambda>sz1 s.
         if sz1 = 0 then exec_bad pt isz s
         else obind (on_kern (mem_op (uvmclear pt (sz1 - (USERSTACK + 1) * PGSIZE))) s) (\<lambda>_ s.
         let stackbase = sz1 - USERSTACK * PGSIZE
         in obind (push_args i pt stackbase argv sz1 [] s) (\<lambda>st s.
              case st of None \<Rightarrow> exec_bad pt sz1 s
              | Some (sp, ustack) \<Rightarrow>
                let argc = length ustack; sp = align16 (sp - (argc + 1) * 8)
                in if sp < stackbase then exec_bad pt sz1 s
                   else obind (on_kern (mem_op (copyout (uproc_of (ptab (kn s) i)) pt sp (concat (map bytes8 (ustack @ [0]))))) s) (\<lambda>r s.
                     if r < 0 then exec_bad pt sz1 s
                     else let s = s\<lparr>kn := set_reg (A0_OFFSET + 8) i sp (kn s)\<rparr>;
                              s = s\<lparr>kn := upd i (\<lambda>p. p\<lparr>pname := take 15 (last_element path)\<rparr>) (kn s)\<rparr>;
                              oldpt = pagetable (ptab (kn s) i);
                              s = s\<lparr>kn := upd i (\<lambda>p. p\<lparr>pagetable := pt, sz := sz1\<rparr>) (kn s)\<rparr>;
                              s = s\<lparr>kn := set_reg SP_OFFSET i sp (set_reg EPC i entry (kn s))\<rparr>
                          in obind (on_kern (mem_op (proc_freepagetable oldpt oldsz)) s) (\<lambda>_ s. Ret (int argc) s))))))"

section \<open>The call\<close>

definition close_bad :: "nat \<Rightarrow> osys \<Rightarrow> (osys, int) outcome" where
  "close_bad ip s = obind (on_disk (iunlockput ip) s) (\<lambda>_ s. Ret (-1) (op_end s))"

text \<open>An ELF file whose inode is locked.\<close>

definition exec_elf :: "nat \<Rightarrow> nat \<Rightarrow> byte list \<Rightarrow> byte list list \<Rightarrow> nat \<Rightarrow> osys \<Rightarrow> (osys, int) outcome" where
  "exec_elf trampoline i path argv ip s =
     obind (on_disk (readk ip 0 ELFHDR_SIZE) s) (\<lambda>(r, bs) s.
       if r \<noteq> int ELFHDR_SIZE then close_bad ip s
       else let elf = elf_of bs
            in if e_magic elf \<noteq> ELF_MAGIC then close_bad ip s
               else obind (on_kern (mem_op (proc_pagetable trampoline (trapframe (ptab (kn s) i)))) s) (\<lambda>pt s.
                 if pt = 0 then close_bad ip s
                 else obind (load_segments i pt ip (e_phoff elf mod 2 ^ 32) 0 (e_phnum elf) s) (\<lambda>(isz, ok) s.
                   if \<not> ok then obind (exec_bad pt isz s) (\<lambda>_ s. close_bad ip s)
                   else obind (on_disk (iunlockput ip) s) (\<lambda>_ s. exec_commit i path argv (e_entry elf) pt isz (op_end s)))))"

text \<open>The name of the interpreter, from after \<open>#!\<close> to the end of the line.\<close>

fun read_interp :: "nat \<Rightarrow> nat \<Rightarrow> nat \<Rightarrow> osys \<Rightarrow> (osys, byte list) outcome" where
  "read_interp ip off 0 s = Ret [] s"
| "read_interp ip off (Suc n) s =
     obind (on_disk (readk ip off 1) s) (\<lambda>(r, bs) s.
       if r \<noteq> 1 then Ret [] s
       else if hd bs = 10 then Ret [] s
       else obind (read_interp ip (off + 1) n s) (\<lambda>cs s. Ret (hd bs # cs) s))"

definition script_args :: "byte list \<Rightarrow> byte list \<Rightarrow> byte list list \<Rightarrow> byte list list" where
  "script_args interp path argv = interp # path # take (MAXARG - 3) (drop 1 argv)"

text \<open>\<open>namei\<close> for the current directory of process \<open>i\<close>, which it dereferences for a relative path.\<close>

definition proc_namei :: "nat \<Rightarrow> byte list \<Rightarrow> osys \<Rightarrow> (osys, nat option) outcome" where
  "proc_namei i path s =
     (case cwd (ptab (kn s) i) of
        Some c \<Rightarrow> on_disk (namei c path) s
      | None \<Rightarrow> if path \<noteq> [] \<and> hd path = 47 then on_disk (namei 0 path) s else Panic ''kerneltrap'')"

fun kexec :: "nat \<Rightarrow> nat \<Rightarrow> nat \<Rightarrow> byte list \<Rightarrow> byte list list \<Rightarrow> osys \<Rightarrow> (osys, int) outcome" where
  "kexec 0 trampoline i path argv s = Diverge"
| "kexec (Suc fuel) trampoline i path argv s =
     obind (proc_namei i path (op_begin s)) (\<lambda>r s.
       case r of None \<Rightarrow> Ret (-1) (op_end s)
       | Some ip \<Rightarrow>
         obind (on_disk (ilock ip) s) (\<lambda>_ s.
         obind (on_disk (readk ip 0 2) s) (\<lambda>(r, bs) s.
           if r \<noteq> 2 then close_bad ip s
           else if bs = [35, 33]
           then obind (read_interp ip 2 (MAXARG - 1) s) (\<lambda>interp s.
             let interp = takeWhile (\<lambda>c. c \<noteq> 0) interp
             in kexec fuel trampoline i interp (script_args interp path argv) s)
           else exec_elf trampoline i path argv ip s)))"

end
