(* ===== verification/Sysfile.thy ===== *)
theory Sysfile
  imports Exec
begin

text \<open>
  The file system calls, \<^verbatim>\<open>kernel/sysfile.c\<close> (\<open>sys_mmap\<close> is in \<open>Syscall\<close>). A call by process \<open>i\<close> runs as one step between \<open>begin_op\<close> and \<open>end_op\<close>; one that meets an inode locked by another process is the
  outcome \<open>Sleep\<close>. A pathname is fetched from user memory into a buffer of 128 bytes.
\<close>

definition MAXPATH :: nat where "MAXPATH = 128"
definition OMODE_WRONLY :: nat where "OMODE_WRONLY = 1"
definition OMODE_RDWR :: nat where "OMODE_RDWR = 2"
definition OMODE_CREATE :: nat where "OMODE_CREATE = 0x200"
definition OMODE_TRUNC :: nat where "OMODE_TRUNC = 0x400"

section \<open>Descriptors\<close>

text \<open>The descriptor and its file, \<open>None\<close> for the result -1.\<close>

definition argfd :: "nat \<Rightarrow> nat \<Rightarrow> osys \<Rightarrow> (osys, (nat \<times> nat) option) outcome" where
  "argfd n i s =
     obind (on_kern (argint n i) s) (\<lambda>fd s.
       if fd < 0 \<or> fd \<ge> int NOFILE then Ret None s
       else Ret (map_option (\<lambda>f. (nat fd, f)) (ofile (ptab (kn s) i) (nat fd))) s)"

definition set_ofile :: "nat \<Rightarrow> nat \<Rightarrow> nat option \<Rightarrow> osys \<Rightarrow> osys" where
  "set_ofile i fd v s = s\<lparr>kn := upd i (\<lambda>p. p\<lparr>ofile := (ofile p)(fd := v)\<rparr>) (kn s)\<rparr>"

definition fdalloc :: "nat \<Rightarrow> nat \<Rightarrow> osys \<Rightarrow> nat option \<times> osys" where
  "fdalloc i f s =
     (case find (\<lambda>fd. ofile (ptab (kn s) i) fd = None) [0..<NOFILE] of None \<Rightarrow> (None, s)
      | Some fd \<Rightarrow> (Some fd, set_ofile i fd (Some f) s))"

definition sys_dup :: "nat \<Rightarrow> osys \<Rightarrow> (osys, int) outcome" where
  "sys_dup i s =
     obind (argfd 0 i s) (\<lambda>r s.
       case r of None \<Rightarrow> Ret (-1) s
       | Some (_, f) \<Rightarrow>
         (case fdalloc i f s of (None, s) \<Rightarrow> Ret (-1) s
          | (Some fd, s) \<Rightarrow> obind (on_kern (filedup f) s) (\<lambda>_ s. Ret (int fd) s)))"

definition sys_read :: "devsw \<Rightarrow> nat \<Rightarrow> osys \<Rightarrow> (osys, pres) outcome" where
  "sys_read dv i s =
     obind (on_kern (argaddr 1 i) s) (\<lambda>p s. obind (on_kern (argint 2 i) s) (\<lambda>n s. obind (argfd 0 i s) (\<lambda>r s.
       case r of None \<Rightarrow> Ret (PDone (-1)) s | Some (_, f) \<Rightarrow> fileread dv i f p n s)))"

definition sys_write :: "devsw \<Rightarrow> nat \<Rightarrow> osys \<Rightarrow> (osys, pres) outcome" where
  "sys_write dv i s =
     obind (on_kern (argaddr 1 i) s) (\<lambda>p s. obind (on_kern (argint 2 i) s) (\<lambda>n s. obind (argfd 0 i s) (\<lambda>r s.
       case r of None \<Rightarrow> Ret (PDone (-1)) s | Some (_, f) \<Rightarrow> filewrite dv i f p n s)))"

definition sys_close :: "nat \<Rightarrow> osys \<Rightarrow> (osys, int) outcome" where
  "sys_close i s =
     obind (argfd 0 i s) (\<lambda>r s.
       case r of None \<Rightarrow> Ret (-1) s
       | Some (fd, f) \<Rightarrow> obind (fileclose i f (set_ofile i fd None s)) (\<lambda>_ s. Ret 0 s))"

definition sys_fstat :: "byte list \<Rightarrow> nat \<Rightarrow> osys \<Rightarrow> (osys, int) outcome" where
  "sys_fstat pad i s =
     obind (on_kern (argaddr 1 i) s) (\<lambda>st s. obind (argfd 0 i s) (\<lambda>r s.
       case r of None \<Rightarrow> Ret (-1) s | Some (_, f) \<Rightarrow> filestat pad i f st s))"

section \<open>Links\<close>

definition proc_nameiparent :: "nat \<Rightarrow> byte list \<Rightarrow> osys \<Rightarrow> (osys, (nat \<times> byte list) option) outcome" where
  "proc_nameiparent i path s =
     (case cwd (ptab (kn s) i) of
        Some c \<Rightarrow> on_disk (nameiparent c path) s
      | None \<Rightarrow> if path \<noteq> [] \<and> hd path = 47 then on_disk (nameiparent 0 path) s else Panic ''kerneltrap'')"

text \<open>The count of links is a 16-bit pattern.\<close>

definition add_nlink :: "int \<Rightarrow> nat \<Rightarrow> fs \<Rightarrow> fs" where
  "add_nlink v k s = iupdate k (set_inode k (\<lambda>ip. ip\<lparr>nlink := nat ((int (nlink ip) + v) mod 2 ^ 16)\<rparr>) s)"

definition on_disk_do :: "(fs \<Rightarrow> fs) \<Rightarrow> osys \<Rightarrow> osys" where
  "on_disk_do f s = s\<lparr>disk := f (disk s)\<rparr>"

text \<open>The label \<open>bad\<close> of \<open>sys_link\<close>.\<close>

definition link_bad :: "nat \<Rightarrow> osys \<Rightarrow> (osys, int) outcome" where
  "link_bad ip s =
     obind (on_disk (ilock ip) s) (\<lambda>_ s.
     obind (on_disk (iunlockput ip) (on_disk_do (add_nlink (-1) ip) s)) (\<lambda>_ s. Ret (-1) (op_end s)))"

definition link_paths :: "nat \<Rightarrow> byte list \<Rightarrow> byte list \<Rightarrow> osys \<Rightarrow> (osys, int) outcome" where
  "link_paths i old new s =
     obind (proc_namei i old (op_begin s)) (\<lambda>r s.
       case r of None \<Rightarrow> Ret (-1) (op_end s)
       | Some ip \<Rightarrow>
         obind (on_disk (ilock ip) s) (\<lambda>_ s.
           if itype (itable (disk s) ip) = T_DIR then obind (on_disk (iunlockput ip) s) (\<lambda>_ s. Ret (-1) (op_end s))
           else obind (on_disk (iunlock ip) (on_disk_do (add_nlink 1 ip) s)) (\<lambda>_ s.
                obind (proc_nameiparent i new s) (\<lambda>r s.
                  case r of None \<Rightarrow> link_bad ip s
                  | Some (dp, name) \<Rightarrow>
                    obind (on_disk (ilock dp) s) (\<lambda>_ s.
                    obind (if idev (itable (disk s) dp) \<noteq> idev (itable (disk s) ip) then Ret (-1) s
                           else on_disk (dirlink dp name (inum (itable (disk s) ip))) s) (\<lambda>r s.
                      if r < 0 then obind (on_disk (iunlockput dp) s) (\<lambda>_ s. link_bad ip s)
                      else obind (on_disk (iunlockput dp) s) (\<lambda>_ s. obind (on_disk (iput ip) s) (\<lambda>_ s. Ret 0 (op_end s)))))))))"

definition sys_link :: "nat \<Rightarrow> osys \<Rightarrow> (osys, int) outcome" where
  "sys_link i s =
     obind (on_kern (argstr 0 MAXPATH i) s) (\<lambda>old s.
       case old of None \<Rightarrow> Ret (-1) s
       | Some old \<Rightarrow> obind (on_kern (argstr 1 MAXPATH i) s) (\<lambda>new s.
           case new of None \<Rightarrow> Ret (-1) s | Some new \<Rightarrow> link_paths i old new s))"

text \<open>Whether the entries at these offsets are all free.\<close>

fun empty_loop :: "nat \<Rightarrow> nat list \<Rightarrow> fs \<Rightarrow> (fs, bool) outcome" where
  "empty_loop k [] s = Ret True s"
| "empty_loop k (off # offs) s =
     obind (readk k off DIRENT_SIZE s) (\<lambda>(r, de) s.
       if r \<noteq> int DIRENT_SIZE then Panic ''isdirempty: readi''
       else if de_inum de \<noteq> 0 then Ret False s else empty_loop k offs s)"

definition isdirempty :: "nat \<Rightarrow> fs \<Rightarrow> (fs, bool) outcome" where
  "isdirempty k s = empty_loop k (drop 2 (entry_offsets (isize (itable s k)))) s"

definition unlink_bad :: "nat \<Rightarrow> osys \<Rightarrow> (osys, int) outcome" where
  "unlink_bad dp s = obind (on_disk (iunlockput dp) s) (\<lambda>_ s. Ret (-1) (op_end s))"

definition unlink_path :: "nat \<Rightarrow> byte list \<Rightarrow> osys \<Rightarrow> (osys, int) outcome" where
  "unlink_path i path s =
     obind (proc_nameiparent i path (op_begin s)) (\<lambda>r s.
       case r of None \<Rightarrow> Ret (-1) (op_end s)
       | Some (dp, name) \<Rightarrow>
         obind (on_disk (ilock dp) s) (\<lambda>_ s.
           if namecmp name [46] \<or> namecmp name [46, 46] then unlink_bad dp s
           else obind (on_disk (dirlookup dp name) s) (\<lambda>r s.
             case r of None \<Rightarrow> unlink_bad dp s
             | Some (ip, off) \<Rightarrow>
               obind (on_disk (ilock ip) s) (\<lambda>_ s.
                 if nlink (itable (disk s) ip) = 0 \<or> nlink (itable (disk s) ip) \<ge> 2 ^ 15 then Panic ''unlink: nlink < 1''
                 else obind (if itype (itable (disk s) ip) = T_DIR then on_disk (isdirempty ip) s else Ret True s) (\<lambda>empty s.
                   if \<not> empty then obind (on_disk (iunlockput ip) s) (\<lambda>_ s. unlink_bad dp s)
                   else obind (on_disk (writek dp off (replicate DIRENT_SIZE 0)) s) (\<lambda>r s.
                     if r \<noteq> int DIRENT_SIZE then Panic ''unlink: writei''
                     else let s = (if itype (itable (disk s) ip) = T_DIR then on_disk_do (add_nlink (-1) dp) s else s)
                          in obind (on_disk (iunlockput dp) s) (\<lambda>_ s.
                             obind (on_disk (iunlockput ip) (on_disk_do (add_nlink (-1) ip) s)) (\<lambda>_ s. Ret 0 (op_end s)))))))))"

definition sys_unlink :: "nat \<Rightarrow> osys \<Rightarrow> (osys, int) outcome" where
  "sys_unlink i s =
     obind (on_kern (argstr 0 MAXPATH i) s) (\<lambda>path s. case path of None \<Rightarrow> Ret (-1) s | Some path \<Rightarrow> unlink_path i path s)"

section \<open>Creating and opening\<close>

text \<open>The label \<open>fail\<close> of \<open>create\<close>.\<close>

definition create_fail :: "nat \<Rightarrow> nat \<Rightarrow> osys \<Rightarrow> (osys, nat option) outcome" where
  "create_fail ip dp s =
     obind (on_disk (iunlockput ip) (on_disk_do (\<lambda>d. iupdate ip (set_inode ip (\<lambda>n. n\<lparr>nlink := 0\<rparr>) d)) s)) (\<lambda>_ s.
     obind (on_disk (iunlockput dp) s) (\<lambda>_ s. Ret None s))"

text \<open>The entries \<open>.\<close> and \<open>..\<close> of a new directory, and its own entry in \<open>dp\<close>; whether all could be made.\<close>

definition create_entries :: "nat \<Rightarrow> nat \<Rightarrow> byte list \<Rightarrow> nat \<Rightarrow> fs \<Rightarrow> (fs, bool) outcome" where
  "create_entries ip dp name typ s =
     obind (if typ = T_DIR
            then obind (dirlink ip [46] (inum (itable s ip)) s) (\<lambda>r s.
              if r < 0 then Ret False s
              else obind (dirlink ip [46, 46] (inum (itable s dp)) s) (\<lambda>r s. Ret (r \<ge> 0) s))
            else Ret True s) (\<lambda>ok s.
       if \<not> ok then Ret False s
       else obind (dirlink dp name (inum (itable s ip)) s) (\<lambda>r s. Ret (r \<ge> 0) s))"

text \<open>The inode, locked.\<close>

definition create :: "nat \<Rightarrow> byte list \<Rightarrow> nat \<Rightarrow> nat \<Rightarrow> nat \<Rightarrow> osys \<Rightarrow> (osys, nat option) outcome" where
  "create i path typ major minor s =
     obind (proc_nameiparent i path s) (\<lambda>r s.
       case r of None \<Rightarrow> Ret None s
       | Some (dp, name) \<Rightarrow>
         obind (on_disk (ilock dp) s) (\<lambda>_ s.
         obind (on_disk (dirlookup dp name) s) (\<lambda>r s.
           case r of
             Some (ip, _) \<Rightarrow>
               obind (on_disk (iunlockput dp) s) (\<lambda>_ s.
               obind (on_disk (ilock ip) s) (\<lambda>_ s.
                 if typ = T_FILE \<and> (itype (itable (disk s) ip) = T_FILE \<or> itype (itable (disk s) ip) = T_DEVICE) then Ret (Some ip) s
                 else obind (on_disk (iunlockput ip) s) (\<lambda>_ s. Ret None s)))
           | None \<Rightarrow>
               obind (on_disk (ialloc (idev (itable (disk s) dp)) typ) s) (\<lambda>r s.
                 case r of None \<Rightarrow> obind (on_disk (iunlockput dp) s) (\<lambda>_ s. Ret None s)
                 | Some ip \<Rightarrow>
                   obind (on_disk (ilock ip) s) (\<lambda>_ s.
                   let s = on_disk_do (\<lambda>d. iupdate ip (set_inode ip (\<lambda>n. n\<lparr>imajor := major, iminor := minor, nlink := 1\<rparr>) d)) s
                   in obind (on_disk (create_entries ip dp name typ) s) (\<lambda>ok s.
                        if \<not> ok then create_fail ip dp s
                        else let s = (if typ = T_DIR then on_disk_do (add_nlink 1 dp) s else s)
                             in obind (on_disk (iunlockput dp) s) (\<lambda>_ s. Ret (Some ip) s)))))))"

definition open_bad :: "nat \<Rightarrow> osys \<Rightarrow> (osys, int) outcome" where
  "open_bad ip s = obind (on_disk (iunlockput ip) s) (\<lambda>_ s. Ret (-1) (op_end s))"

definition open_file :: "nat \<Rightarrow> nat \<Rightarrow> nat \<Rightarrow> osys \<Rightarrow> osys" where
  "open_file omode ip f s =
     (let n = itable (disk s) ip
      in set_file f (\<lambda>x. (if itype n = T_DEVICE then x\<lparr>ftype := FD_DEVICE, fmajor := imajor n\<rparr> else x\<lparr>ftype := FD_INODE, foff := 0\<rparr>)
           \<lparr>fip := ip, freadable := (omode AND OMODE_WRONLY = 0), fwritable := (omode AND OMODE_WRONLY \<noteq> 0 \<or> omode AND OMODE_RDWR \<noteq> 0)\<rparr>) s)"

text \<open>The part of \<open>sys_open\<close> that makes a file and a descriptor for a locked inode.\<close>

definition open_inode :: "nat \<Rightarrow> nat \<Rightarrow> nat \<Rightarrow> osys \<Rightarrow> (osys, int) outcome" where
  "open_inode i omode ip s =
     (if itype (itable (disk s) ip) = T_DEVICE \<and> imajor (itable (disk s) ip) \<ge> NDEV then open_bad ip s
      else case filealloc s of (None, s) \<Rightarrow> open_bad ip s
      | (Some f, s) \<Rightarrow>
        (case fdalloc i f s of (None, s) \<Rightarrow> obind (fileclose i f s) (\<lambda>_ s. open_bad ip s)
         | (Some fd, s) \<Rightarrow>
           let s = open_file omode ip f s
           in obind (if omode AND OMODE_TRUNC \<noteq> 0 \<and> itype (itable (disk s) ip) = T_FILE then on_disk (itrunc ip) s else Ret () s) (\<lambda>_ s.
              obind (on_disk (iunlock ip) s) (\<lambda>_ s. Ret (int fd) (op_end s)))))"

definition open_path :: "nat \<Rightarrow> byte list \<Rightarrow> nat \<Rightarrow> osys \<Rightarrow> (osys, int) outcome" where
  "open_path i path omode s =
     (let s = op_begin s
      in if omode AND OMODE_CREATE \<noteq> 0
         then obind (create i path T_FILE 0 0 s) (\<lambda>r s. case r of None \<Rightarrow> Ret (-1) (op_end s) | Some ip \<Rightarrow> open_inode i omode ip s)
         else obind (proc_namei i path s) (\<lambda>r s.
           case r of None \<Rightarrow> Ret (-1) (op_end s)
           | Some ip \<Rightarrow> obind (on_disk (ilock ip) s) (\<lambda>_ s.
               if itype (itable (disk s) ip) = T_DIR \<and> omode \<noteq> 0 then open_bad ip s else open_inode i omode ip s)))"

definition sys_open :: "nat \<Rightarrow> osys \<Rightarrow> (osys, int) outcome" where
  "sys_open i s =
     obind (on_kern (argint 1 i) s) (\<lambda>omode s. obind (on_kern (argstr 0 MAXPATH i) s) (\<lambda>path s.
       case path of None \<Rightarrow> Ret (-1) s | Some path \<Rightarrow> open_path i path (to_uint omode) s))"

definition make_node :: "nat \<Rightarrow> byte list \<Rightarrow> nat \<Rightarrow> nat \<Rightarrow> nat \<Rightarrow> osys \<Rightarrow> (osys, int) outcome" where
  "make_node i path typ major minor s =
     obind (create i path typ major minor s) (\<lambda>r s.
       case r of None \<Rightarrow> Ret (-1) (op_end s)
       | Some ip \<Rightarrow> obind (on_disk (iunlockput ip) s) (\<lambda>_ s. Ret 0 (op_end s)))"

definition sys_mkdir :: "nat \<Rightarrow> osys \<Rightarrow> (osys, int) outcome" where
  "sys_mkdir i s =
     obind (on_kern (argstr 0 MAXPATH i) (op_begin s)) (\<lambda>path s.
       case path of None \<Rightarrow> Ret (-1) (op_end s) | Some path \<Rightarrow> make_node i path T_DIR 0 0 s)"

definition sys_mknod :: "nat \<Rightarrow> osys \<Rightarrow> (osys, int) outcome" where
  "sys_mknod i s =
     obind (on_kern (argint 1 i) (op_begin s)) (\<lambda>major s. obind (on_kern (argint 2 i) s) (\<lambda>minor s. obind (on_kern (argstr 0 MAXPATH i) s) (\<lambda>path s.
       case path of None \<Rightarrow> Ret (-1) (op_end s)
       | Some path \<Rightarrow> make_node i path T_DEVICE (nat (major mod 2 ^ 16)) (nat (minor mod 2 ^ 16)) s)))"

definition chdir_path :: "nat \<Rightarrow> byte list \<Rightarrow> osys \<Rightarrow> (osys, int) outcome" where
  "chdir_path i path s =
     obind (proc_namei i path s) (\<lambda>r s.
       case r of None \<Rightarrow> Ret (-1) (op_end s)
       | Some ip \<Rightarrow>
         obind (on_disk (ilock ip) s) (\<lambda>_ s.
           if itype (itable (disk s) ip) \<noteq> T_DIR then obind (on_disk (iunlockput ip) s) (\<lambda>_ s. Ret (-1) (op_end s))
           else obind (on_disk (iunlock ip) s) (\<lambda>_ s.
             case cwd (ptab (kn s) i) of None \<Rightarrow> Panic ''kerneltrap''
             | Some c \<Rightarrow> obind (on_disk (iput c) s) (\<lambda>_ s.
                 let s = op_end s in Ret 0 (s\<lparr>kn := upd i (\<lambda>p. p\<lparr>cwd := Some ip\<rparr>) (kn s)\<rparr>)))))"

definition sys_chdir :: "nat \<Rightarrow> osys \<Rightarrow> (osys, int) outcome" where
  "sys_chdir i s =
     obind (on_kern (argstr 0 MAXPATH i) (op_begin s)) (\<lambda>path s.
       case path of None \<Rightarrow> Ret (-1) (op_end s) | Some path \<Rightarrow> chdir_path i path s)"

section \<open>Programs and pipes\<close>

text \<open>The loop of \<open>sys_exec\<close>: the pages that hold the arguments so far, and the arguments when all could be fetched.\<close>

function fetch_args :: "nat \<Rightarrow> nat \<Rightarrow> nat \<Rightarrow> (nat \<times> byte list) list \<Rightarrow> osys \<Rightarrow> (osys, (nat \<times> byte list) list \<times> bool) outcome" where
  "fetch_args i uargv n acc s =
     (if n \<ge> MAXARG then Ret (acc, False) s
      else obind (on_kern (fetchaddr (uargv + 8 * n) i) s) (\<lambda>r s.
        case r of None \<Rightarrow> Ret (acc, False) s
        | Some uarg \<Rightarrow>
          if uarg = 0 then Ret (acc, True) s
          else let (pa, m) = kalloc (km (kn s)); s = s\<lparr>kn := (kn s)\<lparr>km := m\<rparr>\<rparr>
               in if pa = 0 then Ret (acc, False) s
                  else obind (on_kern (fetchstr uarg PGSIZE i) s) (\<lambda>r s.
                    case r of None \<Rightarrow> Ret (acc @ [(pa, [])], False) s
                    | Some str \<Rightarrow>
                      fetch_args i uargv (n + 1) (acc @ [(pa, str)]) (s\<lparr>kn := (kn s)\<lparr>km := (km (kn s))\<lparr>pmem := put_bytes pa (str @ [0]) (pmem (km (kn s)))\<rparr>\<rparr>\<rparr>))))"
  by auto
termination
  by (relation "measure (\<lambda>(i, uargv, n, acc, s). MAXARG - n)") auto

declare fetch_args.simps [simp del]

definition free_args :: "(nat \<times> byte list) list \<Rightarrow> osys \<Rightarrow> osys" where
  "free_args acc s = s\<lparr>kn := (kn s)\<lparr>km := fold (\<lambda>(pa, _). kfree pa) acc (km (kn s))\<rparr>\<rparr>"

definition sys_exec :: "nat \<Rightarrow> nat \<Rightarrow> nat \<Rightarrow> osys \<Rightarrow> (osys, int) outcome" where
  "sys_exec fuel trampoline i s =
     obind (on_kern (argaddr 1 i) s) (\<lambda>uargv s. obind (on_kern (argstr 0 MAXPATH i) s) (\<lambda>path s.
       case path of None \<Rightarrow> Ret (-1) s
       | Some path \<Rightarrow>
         obind (fetch_args i uargv 0 [] s) (\<lambda>(acc, ok) s.
           if ok then obind (kexec fuel trampoline i path (map snd acc) s) (\<lambda>r s. Ret r (free_args acc s))
           else Ret (-1) (free_args acc s))))"

definition pipe_undo :: "nat \<Rightarrow> nat \<Rightarrow> nat \<Rightarrow> osys \<Rightarrow> (osys, int) outcome" where
  "pipe_undo i rdf wrf s = obind (fileclose i rdf s) (\<lambda>_ s. obind (fileclose i wrf s) (\<lambda>_ s. Ret (-1) s))"

definition put_fd :: "nat \<Rightarrow> nat \<Rightarrow> nat \<Rightarrow> osys \<Rightarrow> (osys, int) outcome" where
  "put_fd i addr fd = on_kern (\<lambda>k. mem_op (copyout (uproc_of (ptab k i)) (pagetable (ptab k i)) addr (bytes4 (word_of_nat fd))) k)"

text \<open>Descriptors for the two ends, whose numbers are stored in user memory.\<close>

definition pipe_fds :: "nat \<Rightarrow> nat \<Rightarrow> nat \<Rightarrow> nat \<Rightarrow> osys \<Rightarrow> (osys, int) outcome" where
  "pipe_fds i fdarray rdf wrf s =
     (case fdalloc i rdf s of (None, s) \<Rightarrow> pipe_undo i rdf wrf s
      | (Some fd0, s) \<Rightarrow>
        (case fdalloc i wrf s of (None, s) \<Rightarrow> pipe_undo i rdf wrf (set_ofile i fd0 None s)
         | (Some fd1, s) \<Rightarrow>
           obind (put_fd i fdarray fd0 s) (\<lambda>r s.
           obind (if r < 0 then Ret (-1) s else put_fd i (fdarray + 4) fd1 s) (\<lambda>r s.
             if r < 0 then pipe_undo i rdf wrf (set_ofile i fd1 None (set_ofile i fd0 None s)) else Ret 0 s))))"

definition sys_pipe :: "nat \<Rightarrow> osys \<Rightarrow> (osys, int) outcome" where
  "sys_pipe i s =
     obind (on_kern (argaddr 0 i) s) (\<lambda>fdarray s.
     obind (pipealloc i s) (\<lambda>r s.
       case r of None \<Rightarrow> Ret (-1) s | Some (rdf, wrf) \<Rightarrow> pipe_fds i fdarray rdf wrf s))"

end
