(* ===== verification/Fs_Refs.thy ===== *)
theory Fs_Refs
  imports Fs
begin

text \<open>
  References to and locks on inodes, as \<open>refs\<close> and \<open>locks\<close> of the table: what each routine of the file system takes and gives back. Reading, writing and allocating
  blocks leaves both alone; \<open>iget\<close>, \<open>dirlookup\<close> and \<open>namei\<close> take a reference on what they find and \<open>iput\<close> gives one back; a lock is taken only when free and every path out of a routine gives it back.
\<close>

named_theorems hold_simps "references and locks after a step"

definition refs :: "fs \<Rightarrow> nat \<Rightarrow> int" where "refs d k = iref (itable d k)"
definition locks :: "fs \<Rightarrow> nat \<Rightarrow> bool" where "locks d k = ilocked (itable d k)"
definition one :: "nat \<Rightarrow> nat \<Rightarrow> int" where "one k x = (if x = k then 1 else 0)"

definition same_hold :: "fs \<Rightarrow> fs \<Rightarrow> bool" where
  "same_hold d d' \<longleftrightarrow> refs d' = refs d \<and> locks d' = locks d"

lemma same_hold_refl [simp]: "same_hold d d"
  by (simp add: same_hold_def)

lemma same_hold_trans [trans]: "same_hold a b \<Longrightarrow> same_hold b c \<Longrightarrow> same_hold a c"
  by (simp add: same_hold_def)

lemma hold_set_block [hold_simps]: "refs (set_block b m d) = refs d" "locks (set_block b m d) = locks d"
  by (auto simp: refs_def locks_def set_block_def)

lemma hold_set_inode [hold_simps]:
  "(\<And>ip. iref (f ip) = iref ip) \<Longrightarrow> refs (set_inode k f d) = refs d"
  "(\<And>ip. ilocked (f ip) = ilocked ip) \<Longrightarrow> locks (set_inode k f d) = locks d"
  by (auto simp: fun_eq_iff refs_def locks_def set_inode_def)

lemma hold_set_lock [hold_simps]: "(\<And>ip. ilocked (f ip) = b) \<Longrightarrow> locks (set_inode k f d) = (locks d)(k := b)"
  by (auto simp: fun_eq_iff locks_def set_inode_def)

lemma hold_add_ref [hold_simps]: "(\<And>ip. iref (f ip) = iref ip + v) \<Longrightarrow> refs (set_inode k f d) = (\<lambda>x. refs d x + v * one k x)"
  by (auto simp: refs_def set_inode_def one_def)

lemma hold_iupdate [hold_simps]: "refs (iupdate k d) = refs d" "locks (iupdate k d) = locks d"
  by (simp_all add: iupdate_def Let_def hold_simps)

lemma hold_balloc [hold_simps]: "refs (snd (balloc d)) = refs d" "locks (snd (balloc d)) = locks d"
  by (simp_all add: balloc_def bzero_def set_bit_byte_def hold_simps split: option.splits)

lemma balloc_hold: "balloc d = (a, d') \<Longrightarrow> refs d' = refs d \<and> locks d' = locks d"
  using hold_balloc [of d] by simp

lemma bfree_hold: "bfree b d = Ret r d' \<Longrightarrow> same_hold d d'"
  by (auto simp: bfree_def same_hold_def set_bit_byte_def hold_simps split: if_splits)

lemma bmap_hold: "bmap k bn d = Ret a d' \<Longrightarrow> same_hold d d'"
  by (auto simp: bmap_def same_hold_def Let_def hold_simps obind_eq_Ret dest!: balloc_hold split: if_splits prod.splits)

lemma on_fs_Ret: "on_fs f sm = Ret a sm' \<longleftrightarrow> f (fst sm) = Ret a (fst sm') \<and> snd sm' = snd sm"
  by (cases sm') (auto simp: on_fs_def split: outcome.splits)

lemma on_mem_Ret: "on_mem f sm = Ret a sm' \<longleftrightarrow> f (snd sm) = Ret a (snd sm') \<and> fst sm' = fst sm"
  by (cases sm') (auto simp: on_mem_def split: outcome.splits)

lemma same_hold_set_block [simp]: "same_hold d (set_block b m d') = same_hold d d'" "same_hold (set_block b m d) d' = same_hold d d'"
  by (simp_all add: same_hold_def hold_simps)

lemma chunk_less: "0 < rem \<Longrightarrow> rem - min rem (FS_BSIZE - off mod FS_BSIZE) < rem"
  by (auto simp: FS_BSIZE_def)

lemma read_loop_hold: "Fs.read_loop out k dst off rem tot sm = Ret r sm' \<Longrightarrow> same_hold (fst sm) (fst sm')"
proof (induction rem arbitrary: dst off tot sm rule: less_induct)
  case (less rem)
  note IH = less.IH [rotated]
  from less.prems show ?case
    by (subst (asm) Fs.read_loop.simps) (auto simp: obind_eq_Ret on_fs_Ret on_mem_Ret Let_def split: if_splits dest!: bmap_hold IH intro!: chunk_less elim: same_hold_trans)
qed

lemma write_loop_hold: "write_loop inp k src off rem tot sm = Ret r sm' \<Longrightarrow> same_hold (fst sm) (fst sm')"
proof (induction rem arbitrary: src off tot sm rule: less_induct)
  case (less rem)
  note IH = less.IH [rotated]
  from less.prems show ?case
    by (subst (asm) write_loop.simps) (auto simp: obind_eq_Ret on_fs_Ret on_mem_Ret Let_def split: if_splits prod.splits dest!: bmap_hold IH intro!: chunk_less elim: same_hold_trans)
qed

lemma readi_hold: "readi out k dst off n sm = Ret r sm' \<Longrightarrow> same_hold (fst sm) (fst sm')"
  by (auto simp: readi_def Let_def split: if_splits dest: read_loop_hold)

lemma writei_hold: "writei inp k src off n sm = Ret r sm' \<Longrightarrow> same_hold (fst sm) (fst sm')"
  by (auto simp: writei_def Let_def obind_eq_Ret same_hold_def hold_simps split: if_splits prod.splits dest!: write_loop_hold)

lemma readk_hold: "readk k off n d = Ret r d' \<Longrightarrow> same_hold d d'"
  by (auto simp: readk_def split: outcome.splits dest: readi_hold)

lemma writek_hold: "writek k off bs d = Ret r d' \<Longrightarrow> same_hold d d'"
  by (auto simp: writek_def split: outcome.splits dest: writei_hold)


lemma find_upt: "find P [0..<n] = Some k \<Longrightarrow> P k \<and> k < n"
  by (auto simp: find_Some_iff)

lemma iget_hold: "iget dev n d = Ret k d' \<Longrightarrow> refs d' = (\<lambda>x. refs d x + one k x) \<and> locks d' = locks d \<and> k < NINODE"
  by (auto simp: iget_def hold_simps split: option.splits dest!: find_upt) (auto simp: fun_eq_iff refs_def set_inode_def one_def)

lemma ialloc_hold: "ialloc dev typ d = Ret r d' \<Longrightarrow>
    (case r of None \<Rightarrow> same_hold d d' | Some k \<Rightarrow> refs d' = (\<lambda>x. refs d x + one k x) \<and> locks d' = locks d \<and> k < NINODE)"
  by (auto simp: ialloc_def Let_def obind_eq_Ret hold_simps split: option.splits dest!: iget_hold)

lemma ilock_hold: "ilock k d = Ret r d' \<Longrightarrow> \<not> locks d k \<and> refs d' = refs d \<and> locks d' = (locks d)(k := True)"
  by (auto simp: ilock_def Let_def get_dinode_def hold_simps locks_def [of d k] split: if_splits)

lemma iunlock_hold: "iunlock k d = Ret r d' \<Longrightarrow> locks d k \<and> refs d' = refs d \<and> locks d' = (locks d)(k := False)"
  by (auto simp: iunlock_def hold_simps locks_def [of d k] split: if_splits)

lemma free_direct_hold: "free_direct k is d = Ret r d' \<Longrightarrow> same_hold d d'"
  by (induction k "is" d rule: free_direct.induct)
    (auto simp: obind_eq_Ret same_hold_def hold_simps split: if_splits dest!: bfree_hold)

lemma free_indirect_hold: "free_indirect a js d = Ret r d' \<Longrightarrow> same_hold d d'"
  by (induction a js d rule: free_indirect.induct)
    (auto simp: obind_eq_Ret same_hold_def split: if_splits dest!: bfree_hold)

lemma itrunc_hold: "itrunc k d = Ret r d' \<Longrightarrow> same_hold d d'"
  by (auto simp: itrunc_def obind_eq_Ret same_hold_def hold_simps split: if_splits dest!: bfree_hold free_direct_hold free_indirect_hold)

lemma iput_hold: "iput k d = Ret r d' \<Longrightarrow> refs d' = (\<lambda>x. refs d x - one k x) \<and> locks d' = locks d"
proof -
  assume h: "iput k d = Ret r d'"
  have "(locks d)(k := False) = locks d" if "\<not> ilocked (itable d k)" using that by (auto simp: fun_eq_iff locks_def)
  then show ?thesis
    using h by (auto simp: iput_def obind_eq_Ret same_hold_def hold_simps hold_add_ref [where v = "-1"] split: if_splits dest!: itrunc_hold)
qed

lemma iunlockput_hold: "iunlockput k d = Ret r d' \<Longrightarrow> locks d k \<and> refs d' = (\<lambda>x. refs d x - one k x) \<and> locks d' = (locks d)(k := False)"
  by (auto simp: iunlockput_def obind_eq_Ret dest!: iunlock_hold iput_hold)

lemma lookup_loop_hold: "lookup_loop k name offs d = Ret r d' \<Longrightarrow>
    (case r of None \<Rightarrow> same_hold d d' | Some (j, _) \<Rightarrow> refs d' = (\<lambda>x. refs d x + one j x) \<and> locks d' = locks d \<and> j < NINODE)"
proof (induction k name offs d rule: lookup_loop.induct)
  case (2 k name off offs d)
  then show ?case
    by (auto simp: obind_eq_Ret same_hold_def split: if_splits option.splits prod.splits dest!: readk_hold iget_hold)
qed simp


lemma dirlookup_hold: "dirlookup k name d = Ret r d' \<Longrightarrow>
    (case r of None \<Rightarrow> same_hold d d' | Some (j, _) \<Rightarrow> refs d' = (\<lambda>x. refs d x + one j x) \<and> locks d' = locks d \<and> j < NINODE)"
  by (auto simp: dirlookup_def split: if_splits dest: lookup_loop_hold)

lemma free_entry_hold: "free_entry k offs fin d = Ret r d' \<Longrightarrow> same_hold d d'"
proof (induction k offs fin d rule: free_entry.induct)
  case (2 k off offs fin d)
  then show ?case by (auto simp: obind_eq_Ret same_hold_def split: if_splits prod.splits dest!: readk_hold)
qed simp

lemma dirlink_hold: "dirlink k name n d = Ret r d' \<Longrightarrow> same_hold d d'"
proof -
  assume h: "dirlink k name n d = Ret r d'"
  then obtain q d1 where q: "dirlookup k name d = Ret q d1" by (auto simp: dirlink_def obind_eq_Ret)
  show ?thesis
  proof (cases q)
    case None
    then show ?thesis using h dirlookup_hold [OF q]
      by (auto simp: dirlink_def q obind_eq_Ret split: if_splits dest!: free_entry_hold writek_hold elim!: same_hold_trans)
  next
    case (Some jo)
    then show ?thesis using h dirlookup_hold [OF q] by (cases jo) (auto simp: dirlink_def q obind_eq_Ret same_hold_def dest!: iput_hold)
  qed
qed

text \<open>The walk along a path gives back the reference it starts with and takes one on what it finds.\<close>

lemma namex_loop_hold: "namex_loop parent path k name d = Ret r d' \<Longrightarrow>
    locks d' = locks d \<and> refs d' = (\<lambda>x. refs d x - one k x + (case r of None \<Rightarrow> 0 | Some (j, _) \<Rightarrow> one j x)) \<and> (case r of None \<Rightarrow> True | Some (j, _) \<Rightarrow> j = k \<or> j < NINODE)"
proof (induction parent path k name d rule: namex_loop.induct)
  case (1 parent path k name d)
  note IH = 1(1)
  show ?case
  proof (cases "skipelem path")
    case None
    then show ?thesis using 1(2) by (subst (asm) namex_loop.simps) (auto simp: obind_eq_Ret fun_eq_iff split: if_splits dest!: iput_hold)
  next
    case (Some rn)
    obtain rest nm where rn: "rn = (rest, nm)" by (cases rn)
    from 1(2) obtain d1 where l: "ilock k d = Ret () d1" by (subst (asm) namex_loop.simps) (auto simp: Some rn obind_eq_Ret)
    note L = ilock_hold [OF l]
    have unl: "(locks d)(k := False) = locks d" using L by (auto simp: fun_eq_iff)
    consider (nodir) "itype (itable d1 k) \<noteq> T_DIR" | (par) "itype (itable d1 k) = T_DIR" "parent \<and> rest = []" | (walk) "itype (itable d1 k) = T_DIR" "\<not> (parent \<and> rest = [])" by blast
    then show ?thesis
    proof cases
      case walk
      from 1(2) walk obtain q d2 where lk: "dirlookup k nm d1 = Ret q d2"
          and q: "(case q of None \<Rightarrow> obind (iunlockput k d2) (\<lambda>_ s. Ret None s) | Some (j, _) \<Rightarrow> obind (iunlockput k d2) (\<lambda>_ s. namex_loop parent rest j nm s)) = Ret r d'"
        by (subst (asm) namex_loop.simps) (auto simp: Some rn l obind_eq_Ret split: if_splits)
      show ?thesis
      proof (cases q)
        case None
        then show ?thesis using q dirlookup_hold [OF lk] L unl by (auto simp: obind_eq_Ret same_hold_def dest!: iunlockput_hold)
      next
        case (Some jo)
        then obtain j off d3 where j: "q = Some (j, off)" "iunlockput k d2 = Ret () d3" "namex_loop parent rest j nm d3 = Ret r d'"
          using q by (cases jo) (auto simp: obind_eq_Ret)
        have "locks d' = locks d3 \<and> refs d' = (\<lambda>x. refs d3 x - one j x + (case r of None \<Rightarrow> 0 | Some (j, _) \<Rightarrow> one j x)) \<and> (case r of None \<Rightarrow> True | Some (i, _) \<Rightarrow> i = j \<or> i < NINODE)"
          by (rule IH [OF \<open>skipelem path = Some rn\<close> rn [symmetric] _ walk(2) j(1) refl j(3), of d1]) (simp add: walk(1))
        then show ?thesis using dirlookup_hold [OF lk] iunlockput_hold [OF j(2)] L unl j(1) by (auto simp: fun_eq_iff split: option.splits)
      qed
    qed (use 1(2) L unl in \<open>(subst (asm) namex_loop.simps, auto simp: Some rn l obind_eq_Ret dest!: iunlockput_hold iunlock_hold)+\<close>)
  qed
qed

lemma namex_hold: "namex cwd path parent d = Ret r d' \<Longrightarrow>
    locks d' = locks d \<and> refs d' = (\<lambda>x. refs d x + (case r of None \<Rightarrow> 0 | Some (j, _) \<Rightarrow> one j x)) \<and> (case r of None \<Rightarrow> True | Some (j, _) \<Rightarrow> j = cwd \<or> j < NINODE)"
  by (auto simp: namex_def obind_eq_Ret fs_idup_def hold_simps hold_add_ref [where v = 1] split: if_splits option.splits dest!: iget_hold namex_loop_hold)

lemma namei_hold: "namei cwd path d = Ret r d' \<Longrightarrow>
    locks d' = locks d \<and> refs d' = (\<lambda>x. refs d x + (case r of None \<Rightarrow> 0 | Some j \<Rightarrow> one j x)) \<and> (case r of None \<Rightarrow> True | Some j \<Rightarrow> j = cwd \<or> j < NINODE)"
  by (auto simp: namei_def obind_eq_Ret split: option.splits dest!: namex_hold)

end
