(* ===== verification/Sysfile_Refs.thy ===== *)
theory Sysfile_Refs
  imports Sysfile Fs_Refs
begin

text \<open>
  References across a system call. \<open>books\<close> are the places that hold references: the descriptors and current directory of every process, the counts of files and what each file is. A call is stepped through with \<open>post\<close>, which
  says what holds when it returns; the rules \<open>post_rules\<close> say of every step how it changes references, locks, operations of the log and books.
\<close>

named_theorems post_rules "what a step of a system call does to references and locks"

definition books :: "osys \<Rightarrow> (nat \<Rightarrow> (nat \<Rightarrow> nat option) \<times> nat option) \<times> (nat \<Rightarrow> int) \<times> (nat \<Rightarrow> filetype \<times> nat)" where
  "books s = (\<lambda>p. (ofile (ptab (kn s) p), cwd (ptab (kn s) p)), frefs (kn s), \<lambda>f. (ftype (ftab s f), fip (ftab s f)))"

definition rest :: "osys \<Rightarrow> _" where
  "rest s = (ops s, books s)"

definition neutral :: "osys \<Rightarrow> osys \<Rightarrow> bool" where
  "neutral s s' \<longleftrightarrow> refs (disk s') = refs (disk s) \<and> locks (disk s') = locks (disk s) \<and> rest s' = rest s"

definition post :: "('s, 'a) outcome \<Rightarrow> ('a \<Rightarrow> 's \<Rightarrow> bool) \<Rightarrow> bool" where
  "post m Q \<longleftrightarrow> (\<forall>a s. m = Ret a s \<longrightarrow> Q a s)"

section \<open>Stepping through a call\<close>

lemma post_Ret [simp]: "post (Ret a s) Q = Q a s"
  by (simp add: post_def)

lemma post_Panic [simp]: "post (Panic e) Q"
  by (simp add: post_def)

lemma post_obind [post_rules]: "post m (\<lambda>a s. post (f a s) Q) \<Longrightarrow> post (obind m f) Q"
  by (cases m) (auto simp: post_def)

lemma post_Ret_I [post_rules]: "Q a s \<Longrightarrow> post (Ret a s) Q"
  by simp

lemma post_Panic_I [post_rules]: "post (Panic e) Q"
  by simp

lemma post_Let [post_rules]: "post (f x) Q \<Longrightarrow> post (let y = x in f y) Q"
  by simp

lemma post_mono: "post m Q \<Longrightarrow> (\<And>a s. Q a s \<Longrightarrow> R a s) \<Longrightarrow> post m R"
  by (auto simp: post_def)

lemma post_if [post_rules]: "(b \<Longrightarrow> post x Q) \<Longrightarrow> (\<not> b \<Longrightarrow> post y Q) \<Longrightarrow> post (if b then x else y) Q"
  by simp

lemma post_option [post_rules]: "(x = None \<Longrightarrow> post y Q) \<Longrightarrow> (\<And>a. x = Some a \<Longrightarrow> post (f a) Q) \<Longrightarrow> post (case x of None \<Rightarrow> y | Some a \<Rightarrow> f a) Q"
  by (cases x) simp_all

lemma post_prod [post_rules]: "(\<And>a b. x = (a, b) \<Longrightarrow> post (f a b) Q) \<Longrightarrow> post (case x of (a, b) \<Rightarrow> f a b) Q"
  by (cases x) simp

lemma post_prod_app [post_rules]: "(\<And>a b. x = (a, b) \<Longrightarrow> post (f a b s) Q) \<Longrightarrow> post ((case x of (a, b) \<Rightarrow> f a b) s) Q"
  by (cases x) simp

lemma post_on_disk: "(\<And>a d. f (disk s) = Ret a d \<Longrightarrow> Q a (s\<lparr>disk := d\<rparr>)) \<Longrightarrow> post (on_disk f s) Q"
  by (auto simp: post_def on_disk_def split: outcome.splits)

lemma rest_disk [simp]: "rest (s\<lparr>disk := d\<rparr>) = rest s"
  by (simp add: rest_def books_def)

text \<open>Steps on the disk.\<close>

lemma post_ilock [post_rules]:
  "(\<And>a s'. \<not> locks (disk s) k \<Longrightarrow> refs (disk s') = refs (disk s) \<Longrightarrow> locks (disk s') = (locks (disk s))(k := True) \<Longrightarrow> rest s' = rest s \<Longrightarrow> Q a s') \<Longrightarrow> post (on_disk (ilock k) s) Q"
  by (auto intro!: post_on_disk dest!: ilock_hold)

lemma post_iunlock [post_rules]:
  "(\<And>a s'. refs (disk s') = refs (disk s) \<Longrightarrow> locks (disk s') = (locks (disk s))(k := False) \<Longrightarrow> rest s' = rest s \<Longrightarrow> Q a s') \<Longrightarrow> post (on_disk (iunlock k) s) Q"
  by (auto intro!: post_on_disk dest!: iunlock_hold)

lemma post_iput [post_rules]:
  "(\<And>a s'. refs (disk s') = (\<lambda>x. refs (disk s) x - one k x) \<Longrightarrow> locks (disk s') = locks (disk s) \<Longrightarrow> rest s' = rest s \<Longrightarrow> Q a s') \<Longrightarrow> post (on_disk (iput k) s) Q"
  by (auto intro!: post_on_disk dest!: iput_hold)

lemma post_iunlockput [post_rules]:
  "(\<And>a s'. refs (disk s') = (\<lambda>x. refs (disk s) x - one k x) \<Longrightarrow> locks (disk s') = (locks (disk s))(k := False) \<Longrightarrow> rest s' = rest s \<Longrightarrow> Q a s') \<Longrightarrow> post (on_disk (iunlockput k) s) Q"
  by (auto intro!: post_on_disk dest!: iunlockput_hold)

lemma post_ialloc [post_rules]:
  "(\<And>r s'. refs (disk s') = (\<lambda>x. refs (disk s) x + (case r of None \<Rightarrow> 0 | Some k \<Rightarrow> one k x)) \<Longrightarrow> locks (disk s') = locks (disk s) \<Longrightarrow> rest s' = rest s \<Longrightarrow> Q r s')
    \<Longrightarrow> post (on_disk (ialloc dev typ) s) Q"
  by (auto intro!: post_on_disk simp: same_hold_def split: option.splits dest!: ialloc_hold)

lemma post_dirlookup [post_rules]:
  "(\<And>r s'. refs (disk s') = (\<lambda>x. refs (disk s) x + (case r of None \<Rightarrow> 0 | Some (k, _) \<Rightarrow> one k x)) \<Longrightarrow> locks (disk s') = locks (disk s) \<Longrightarrow> rest s' = rest s \<Longrightarrow> Q r s')
    \<Longrightarrow> post (on_disk (dirlookup k name) s) Q"
  by (auto intro!: post_on_disk simp: same_hold_def split: option.splits dest!: dirlookup_hold)

lemma post_proc_namei [post_rules]:
  "(\<And>r s'. refs (disk s') = (\<lambda>x. refs (disk s) x + (case r of None \<Rightarrow> 0 | Some k \<Rightarrow> one k x)) \<Longrightarrow> locks (disk s') = locks (disk s) \<Longrightarrow> rest s' = rest s \<Longrightarrow> Q r s')
    \<Longrightarrow> post (proc_namei i path s) Q"
  by (auto intro!: post_on_disk simp: proc_namei_def split: option.splits if_splits dest!: namei_hold)

lemma post_proc_nameiparent [post_rules]:
  "(\<And>r s'. refs (disk s') = (\<lambda>x. refs (disk s) x + (case r of None \<Rightarrow> 0 | Some (k, _) \<Rightarrow> one k x)) \<Longrightarrow> locks (disk s') = locks (disk s) \<Longrightarrow> rest s' = rest s \<Longrightarrow> Q r s')
    \<Longrightarrow> post (proc_nameiparent i path s) Q"
  by (auto intro!: post_on_disk simp: proc_nameiparent_def nameiparent_def split: option.splits if_splits dest!: namex_hold)

lemma post_quiet:
  "(\<And>a d'. f (disk s) = Ret a d' \<Longrightarrow> same_hold (disk s) d') \<Longrightarrow>
   (\<And>a s'. refs (disk s') = refs (disk s) \<Longrightarrow> locks (disk s') = locks (disk s) \<Longrightarrow> rest s' = rest s \<Longrightarrow> Q a s') \<Longrightarrow> post (on_disk f s) Q"
  by (rule post_on_disk) (simp add: same_hold_def)

lemma empty_loop_hold: "empty_loop k offs d = Ret r d' \<Longrightarrow> same_hold d d'"
proof (induction k offs d rule: empty_loop.induct)
  case (2 k off offs d)
  then show ?case by (auto simp: obind_eq_Ret same_hold_def split: if_splits prod.splits dest!: readk_hold)
qed simp

lemma isdirempty_hold: "isdirempty k d = Ret r d' \<Longrightarrow> same_hold d d'"
  by (auto simp: isdirempty_def dest: empty_loop_hold)

lemma create_entries_hold: "create_entries ip dp name typ d = Ret r d' \<Longrightarrow> same_hold d d'"
  by (auto simp: create_entries_def obind_eq_Ret split: if_splits dest!: dirlink_hold elim: same_hold_trans)

lemma post_quiet_int [post_rules]:
  assumes "\<And>a s'. refs (disk s') = refs (disk s) \<Longrightarrow> locks (disk s') = locks (disk s) \<Longrightarrow> rest s' = rest s \<Longrightarrow> Q a s'"
  shows "post (on_disk (dirlink k name n) s) Q" "post (on_disk (writek k off bs) s) Q"
  using assms by (auto intro!: post_quiet dest: dirlink_hold writek_hold)

lemma post_quiet_bool [post_rules]:
  assumes "\<And>a s'. refs (disk s') = refs (disk s) \<Longrightarrow> locks (disk s') = locks (disk s) \<Longrightarrow> rest s' = rest s \<Longrightarrow> Q a s'"
  shows "post (on_disk (isdirempty k) s) Q" "post (on_disk (create_entries k dp name typ) s) Q"
  using assms by (auto intro!: post_quiet dest: isdirempty_hold create_entries_hold)

lemma post_itrunc [post_rules]:
  "(\<And>a s'. refs (disk s') = refs (disk s) \<Longrightarrow> locks (disk s') = locks (disk s) \<Longrightarrow> rest s' = rest s \<Longrightarrow> Q a s') \<Longrightarrow> post (on_disk (itrunc k) s) Q"
  by (auto intro!: post_quiet dest: itrunc_hold)

lemma unlock_same [hold_simps]: "\<not> f k \<Longrightarrow> f(k := False) = f"
  by (auto simp: fun_eq_iff)

lemma hold_do [simp]:
  "rest (on_disk_do f s) = rest s" "disk (on_disk_do f s) = f (disk s)"
  by (simp_all add: on_disk_do_def)

lemma hold_add_nlink [hold_simps]: "refs (add_nlink v k d) = refs d" "locks (add_nlink v k d) = locks d"
  by (simp_all add: add_nlink_def hold_simps)

lemma ops_simps [simp]: "disk (op_begin s) = disk s" "disk (op_end s) = disk s"
  "rest (op_begin s) = (fst (rest s) + 1, snd (rest s))" "rest (op_end s) = (fst (rest s) - 1, snd (rest s))"
  by (simp_all add: op_begin_def op_end_def rest_def books_def)

lemma link_neutral: "post (link_paths i old new s) (\<lambda>_ s'. neutral s s')"
  unfolding link_paths_def link_bad_def neutral_def
  by (intro post_rules) (simp_all add: hold_simps)

lemma unlink_neutral: "post (unlink_path i path s) (\<lambda>_ s'. neutral s s')"
  unfolding unlink_path_def unlink_bad_def neutral_def
  by (intro post_rules) (simp_all add: hold_simps split: if_splits)

lemma post_create [post_rules]:
  "(\<And>r s'. refs (disk s') = (\<lambda>x. refs (disk s) x + (case r of None \<Rightarrow> 0 | Some k \<Rightarrow> one k x)) \<Longrightarrow>
     (case r of None \<Rightarrow> locks (disk s') = locks (disk s) | Some k \<Rightarrow> \<not> locks (disk s) k \<and> locks (disk s') = (locks (disk s))(k := True)) \<Longrightarrow> rest s' = rest s \<Longrightarrow> Q r s')
    \<Longrightarrow> post (create i path typ major minor s) Q"
proof (rule post_mono [of _ "\<lambda>r s'. refs (disk s') = (\<lambda>x. refs (disk s) x + (case r of None \<Rightarrow> 0 | Some k \<Rightarrow> one k x)) \<and>
     (case r of None \<Rightarrow> locks (disk s') = locks (disk s) | Some k \<Rightarrow> \<not> locks (disk s) k \<and> locks (disk s') = (locks (disk s))(k := True)) \<and> rest s' = rest s"])
  show "post (create i path typ major minor s) (\<lambda>r s'. refs (disk s') = (\<lambda>x. refs (disk s) x + (case r of None \<Rightarrow> 0 | Some k \<Rightarrow> one k x)) \<and>
     (case r of None \<Rightarrow> locks (disk s') = locks (disk s) | Some k \<Rightarrow> \<not> locks (disk s) k \<and> locks (disk s') = (locks (disk s))(k := True)) \<and> rest s' = rest s)"
    unfolding create_def create_fail_def
    by (intro post_rules) (simp_all add: hold_simps split: if_splits)
qed blast

lemma make_node_neutral: "post (make_node i path typ major minor s) (\<lambda>_ s'. neutral s (op_begin s'))"
  unfolding make_node_def neutral_def
  by (intro post_rules) (simp_all add: hold_simps)

end
