(* ===== verification/Sysfile_Books.thy ===== *)
theory Sysfile_Books
  imports Sysfile_Refs
begin

text \<open>
  Counting references. \<open>held\<close> counts the open files and current directories that point at an inode, \<open>fds\<close> the descriptors that point at a file. \<open>acc B R E G\<close>: the counts kept by the kernel are these numbers plus the
  references a system call has in hand, \<open>E\<close> on inodes and \<open>G\<close> on files.
\<close>

type_synonym books = "(nat \<Rightarrow> (nat \<Rightarrow> nat option) \<times> nat option) \<times> (nat \<Rightarrow> int) \<times> (nat \<Rightarrow> filetype \<times> nat)"

definition on_inode :: "filetype \<times> nat \<Rightarrow> nat \<Rightarrow> bool" where
  "on_inode t k \<longleftrightarrow> (fst t = FD_INODE \<or> fst t = FD_DEVICE) \<and> snd t = k"

fun held :: "books \<Rightarrow> nat \<Rightarrow> int" where
  "held (P, F, T) k = (\<Sum>f<NFILE. of_bool (0 < F f \<and> on_inode (T f) k)) + (\<Sum>p<NPROC. of_bool (snd (P p) = Some k))"

fun fds :: "books \<Rightarrow> nat \<Rightarrow> int" where
  "fds (P, F, T) f = (\<Sum>p<NPROC. \<Sum>fd<NOFILE. of_bool (fst (P p) fd = Some f))"

fun acc :: "books \<Rightarrow> (nat \<Rightarrow> int) \<Rightarrow> (nat \<Rightarrow> int) \<Rightarrow> (nat \<Rightarrow> int) \<Rightarrow> bool" where
  "acc (P, F, T) R E G \<longleftrightarrow> (\<forall>k. R k = held (P, F, T) k + E k) \<and> (\<forall>f. F f = fds (P, F, T) f + G f) \<and> (\<forall>f. F f = 0 \<longrightarrow> fst (T f) = FD_NONE) \<and> (\<forall>f. 0 < F f \<longrightarrow> f < NFILE)"

lemma sum_change:
  fixes g h :: "nat \<Rightarrow> int"
  assumes "i < n" "\<And>x. x \<noteq> i \<Longrightarrow> h x = g x"
  shows "(\<Sum>x<n. h x) = (\<Sum>x<n. g x) + h i - g i"
proof -
  have "(\<Sum>x<n. h x) = h i + (\<Sum>x\<in>{..<n} - {i}. h x)" using assms(1) by (simp add: sum.remove)
  also have "(\<Sum>x\<in>{..<n} - {i}. h x) = (\<Sum>x\<in>{..<n} - {i}. g x)" by (rule sum.cong) (simp_all add: assms(2))
  also have "(\<Sum>x\<in>{..<n} - {i}. g x) = (\<Sum>x<n. g x) - g i" using assms(1) by (simp add: sum_diff1)
  finally show ?thesis by simp
qed

lemma held_files:
  assumes "f < NFILE"
  shows "held (P, F(f := v), T(f := t)) k = held (P, F, T) k + of_bool (0 < v \<and> on_inode t k) - of_bool (0 < F f \<and> on_inode (T f) k)"
  using sum_change [OF assms, of "\<lambda>x. of_bool (0 < (F(f := v)) x \<and> on_inode ((T(f := t)) x) k)" "\<lambda>x. of_bool (0 < F x \<and> on_inode (T x) k)"] by simp

lemma held_proc:
  assumes "i < NPROC"
  shows "held (P(i := q), F, T) k = held (P, F, T) k + of_bool (snd q = Some k) - of_bool (snd (P i) = Some k)"
  using sum_change [OF assms, of "\<lambda>p. of_bool (snd ((P(i := q)) p) = Some k)" "\<lambda>p. of_bool (snd (P p) = Some k)"] by simp

lemma fds_proc:
  assumes "i < NPROC" "fd < NOFILE"
  shows "fds (P(i := ((fst (P i))(fd := v), c)), F, T) f = fds (P, F, T) f + of_bool (v = Some f) - of_bool (fst (P i) fd = Some f)"
proof -
  define g where "g = (\<lambda>(q :: nat \<Rightarrow> (nat \<Rightarrow> nat option) \<times> nat option) p. \<Sum>fd<NOFILE. of_bool (fst (q p) fd = Some f) :: int)"
  have "fds (P(i := ((fst (P i))(fd := v), c)), F, T) f = fds (P, F, T) f + g (P(i := ((fst (P i))(fd := v), c))) i - g P i"
    using sum_change [OF assms(1), of "g (P(i := ((fst (P i))(fd := v), c)))" "g P"] by (simp add: g_def)
  moreover have "g (P(i := ((fst (P i))(fd := v), c))) i = g P i + of_bool (v = Some f) - of_bool (fst (P i) fd = Some f)"
    using sum_change [OF assms(2), of "\<lambda>x. of_bool (((fst (P i))(fd := v)) x = Some f)" "\<lambda>x. of_bool (fst (P i) x = Some f)"] by (simp add: g_def)
  ultimately show ?thesis by simp
qed

lemma fds_cwd: "fds (P(i := (fst (P i), c)), F, T) f = fds (P, F, T) f"
  by (auto intro!: sum.cong)

lemma fds_files: "fds (P, F', T') f = fds (P, F, T) f"
  by simp

lemma fds_nonneg: "0 \<le> fds (P, F, T) f"
  by (simp add: sum_nonneg)

declare held.simps [simp del] fds.simps [simp del]

section \<open>Steps\<close>

text \<open>One entry of the file table changes.\<close>

lemma acc_file:
  assumes a: "acc (P, F, T) R E G" and f: "f < NFILE" and z: "v = 0 \<Longrightarrow> fst t = FD_NONE"
    and R: "\<And>k. R' k = R k + E' k - E k + of_bool (0 < v \<and> on_inode t k) - of_bool (0 < F f \<and> on_inode (T f) k)"
    and G: "\<And>x. G' x = G x + (v - F f) * one f x"
  shows "acc (P, F(f := v), T(f := t)) R' E' G'"
proof -
  have h: "R k = held (P, F, T) k + E k" "F x = fds (P, F, T) x + G x" for k x using a by simp_all
  have "R' k = held (P, F(f := v), T(f := t)) k + E' k" for k using R [of k] h(1) [of k] held_files [OF f, of P F v T t k] by simp
  moreover have "(F(f := v)) x = fds (P, F(f := v), T(f := t)) x + G' x" for x
    using G [of x] h(2) [of x] fds_files [of P "F(f := v)" "T(f := t)" x F T] by (cases "x = f") (simp_all add: one_def)
  moreover have "\<forall>x. (F(f := v)) x = 0 \<longrightarrow> fst ((T(f := t)) x) = FD_NONE" "\<forall>x. 0 < (F(f := v)) x \<longrightarrow> x < NFILE" using a f z by auto
  ultimately show ?thesis unfolding acc.simps by blast
qed

lemma acc_lt: "acc (P, F, T) R E G \<Longrightarrow> 0 < F f \<Longrightarrow> f < NFILE"
  by simp

lemma acc_free: "acc (P, F, T) R E G \<Longrightarrow> F f = 0 \<Longrightarrow> fst (T f) = FD_NONE"
  by simp

lemma acc_alloc:
  assumes "acc (P, F, T) R E G" "F f = 0" "f < NFILE"
  shows "acc (P, F(f := 1), T) R E (\<lambda>x. G x + one f x)"
  using acc_file [OF assms(1,3), of 1 "T f" R E "\<lambda>x. G x + one f x"] acc_free [OF assms(1,2)] assms(2) by (simp add: on_inode_def)

lemma acc_dup:
  assumes "acc (P, F, T) R E G" "F f \<ge> 1"
  shows "acc (P, F(f := F f + 1), T) R E (\<lambda>x. G x + one f x)"
  using acc_file [OF assms(1) acc_lt [OF assms(1)], of f "F f + 1" "T f" R E "\<lambda>x. G x + one f x"] assms(2) by simp

lemma acc_drop:
  assumes "acc (P, F, T) R E G" "F f > 1"
  shows "acc (P, F(f := F f - 1), T) R E (\<lambda>x. G x - one f x)"
  using acc_file [OF assms(1) acc_lt [OF assms(1)], of f "F f - 1" "T f" R E "\<lambda>x. G x - one f x"] assms(2) by simp

lemma acc_last:
  assumes "acc (P, F, T) R E G" "F f = 1"
  shows "acc (P, F(f := 0), T(f := (FD_NONE, ip))) (\<lambda>x. R x - of_bool (on_inode (T f) x)) E (\<lambda>x. G x - one f x)"
  using acc_lt [OF assms(1)] assms(2) by (intro acc_file [OF assms(1)]) auto

lemma acc_open:
  assumes "acc (P, F, T) R E G" "F f > 0" "fst (T f) = FD_NONE" "t = FD_INODE \<or> t = FD_DEVICE"
  shows "acc (P, F, T(f := (t, ip))) R (\<lambda>x. E x - one ip x) G"
  using acc_file [OF assms(1) acc_lt [OF assms(1,2)], of "F f" "(t, ip)" R "\<lambda>x. E x - one ip x" G] assms(2,3,4) by (auto simp: on_inode_def one_def)

lemma acc_other:
  assumes "acc (P, F, T) R E G" "F f > 0" "fst (T f) = FD_NONE" "t \<noteq> FD_INODE" "t \<noteq> FD_DEVICE"
  shows "acc (P, F, T(f := (t, ip))) R E G"
  using acc_file [OF assms(1) acc_lt [OF assms(1,2)], of "F f" "(t, ip)" R E G] assms(2-5) by (simp add: on_inode_def)

lemma acc_fd:
  assumes "acc (P, F, T) R E G" "i < NPROC" "fd < NOFILE" "fst (P i) fd = old"
  shows "acc (P(i := ((fst (P i))(fd := v), snd (P i))), F, T) R E (\<lambda>x. G x + of_bool (old = Some x) - of_bool (v = Some x))"
  using assms(1) fds_proc [OF assms(2,3), of P v "snd (P i)" F T] held_proc [OF assms(2), of P "((fst (P i))(fd := v), snd (P i))" F T] by (auto simp: assms(4))

lemma acc_cwd:
  assumes "acc (P, F, T) R E G" "i < NPROC" "snd (P i) = Some c"
  shows "acc (P(i := (fst (P i), v)), F, T) R (\<lambda>x. E x + one c x - of_bool (v = Some x)) G"
  using assms(1) held_proc [OF assms(2), of P "(fst (P i), v)" F T] assms(3) fds_cwd [of P i v F T] by (auto simp: one_def)


declare acc.simps [simp del]

section \<open>The state\<close>

definition accounts :: "(nat \<Rightarrow> int) \<Rightarrow> (nat \<Rightarrow> int) \<Rightarrow> osys \<Rightarrow> bool" where
  "accounts E G s = acc (books s) (refs (disk s)) E G"

definition unlocked_same :: "osys \<Rightarrow> osys \<Rightarrow> bool" where
  "unlocked_same s s' \<longleftrightarrow> locks (disk s') = locks (disk s) \<and> ops s' = ops s"

lemma unlocked_same_refl [simp]: "unlocked_same s s"
  by (simp add: unlocked_same_def)

lemma unlocked_same_trans [trans]: "unlocked_same a b \<Longrightarrow> unlocked_same b c \<Longrightarrow> unlocked_same a c"
  by (simp add: unlocked_same_def)

lemma accounts_view: "books s' = books s \<Longrightarrow> refs (disk s') = refs (disk s) \<Longrightarrow> accounts E G s \<Longrightarrow> accounts E G s'"
  by (simp add: accounts_def)

lemma neutral_accounts: "neutral s s' \<Longrightarrow> accounts E G s \<Longrightarrow> accounts E G s' \<and> unlocked_same s s'"
  by (auto simp: neutral_def rest_def accounts_def unlocked_same_def)

lemma accounts_refs: "accounts E G s \<Longrightarrow> books s' = books s \<Longrightarrow> refs (disk s') = (\<lambda>x. refs (disk s) x + D x) \<Longrightarrow> accounts (\<lambda>x. E x + D x) G s'"
  by (cases "books s") (auto simp: accounts_def acc.simps)

lemma disk_simps [simp]: "disk (set_fref f v s) = disk s" "disk (set_file f g s) = disk s" "disk (set_ofile i fd w s) = disk s"
  "ops (set_fref f v s) = ops s" "ops (set_file f g s) = ops s" "ops (set_ofile i fd w s) = ops s"
  "ftab (set_fref f v s) = ftab s" "frefs (kn (set_fref f v s)) = (frefs (kn s))(f := v)" "ptab (kn (set_fref f v s)) = ptab (kn s)" "kn (set_file f g s) = kn s"
  by (simp_all add: set_fref_def set_file_def set_ofile_def)

lemma books_set_fref: "books (set_fref f v s) = (let (P, F, T) = books s in (P, F(f := v), T))"
  by (simp add: books_def set_fref_def)

lemma books_set_file: "books (set_file f g s) = (let (P, F, T) = books s in (P, F, T(f := (ftype (g (ftab s f)), fip (g (ftab s f))))))"
  by (auto simp: books_def set_file_def)

lemma books_set_ofile: "books (set_ofile i fd v s) = (let (P, F, T) = books s in (P(i := ((fst (P i))(fd := v), snd (P i))), F, T))"
  by (auto simp: books_def set_ofile_def upd_def)

lemma books_cwd: "books (s\<lparr>kn := upd i (\<lambda>p. p\<lparr>cwd := c\<rparr>) (kn s)\<rparr>) = (let (P, F, T) = books s in (P(i := (fst (P i), c)), F, T))"
  by (auto simp: books_def upd_def)

lemma wakeup_books [simp]: "ofile (ptab (wakeup i c k) p) = ofile (ptab k p)" "cwd (ptab (wakeup i c k) p) = cwd (ptab k p)" "frefs (wakeup i c k) = frefs k"
  by (simp_all add: wakeup_def)

lemma wakes_books:
  "ofile (ptab (fold (\<lambda>c. wakeup i (h c)) cs k) p) = ofile (ptab k p) \<and> cwd (ptab (fold (\<lambda>c. wakeup i (h c)) cs k) p) = cwd (ptab k p) \<and> frefs (fold (\<lambda>c. wakeup i (h c)) cs k) = frefs k"
  by (induction cs arbitrary: k) simp_all

lemma books_from_psys [simp]: "books (from_psys i pi q s) = books s" "disk (from_psys i pi q s) = disk s" "ops (from_psys i pi q s) = ops s"
  by (simp_all add: from_psys_def books_def wakes_books)

lemma filealloc_accounts:
  assumes "accounts E G s" "filealloc s = (Some f, s')"
  shows "accounts E (\<lambda>x. G x + one f x) s' \<and> unlocked_same s s' \<and> frefs (kn s') f = 1 \<and> ftype (ftab s' f) = FD_NONE \<and> disk s' = disk s \<and> ptab (kn s') = ptab (kn s)"
proof -
  obtain P F T where B: "books s = (P, F, T)" by (cases "books s")
  have f: "F f = 0" "f < NFILE" "s' = set_fref f 1 s" "fst (T f) = FD_NONE \<longleftrightarrow> ftype (ftab s f) = FD_NONE"
    using assms(2) B by (auto simp: filealloc_def books_def split: option.splits dest!: find_upt)
  have a: "acc (P, F, T) (refs (disk s)) E G" using assms(1) B by (simp add: accounts_def)
  from acc_alloc [OF a f(1,2)] acc_free [OF a f(1)] show ?thesis
    using f(3,4) B by (simp add: accounts_def books_set_fref unlocked_same_def)
qed

lemma fdalloc_accounts:
  assumes "accounts E G s" "fdalloc i f s = (Some fd, s')" "i < NPROC"
  shows "accounts E (\<lambda>x. G x - one f x) s' \<and> s' = set_ofile i fd (Some f) s \<and> ofile (ptab (kn s) i) fd = None \<and> fd < NOFILE"
proof -
  obtain P F T where B: "books s = (P, F, T)" by (cases "books s")
  have f: "ofile (ptab (kn s) i) fd = None" "fd < NOFILE" "s' = set_ofile i fd (Some f) s"
    using assms(2) by (auto simp: fdalloc_def split: option.splits dest!: find_upt)
  then have p: "fst (P i) fd = None" using B by (auto simp: books_def)
  have a: "acc (P, F, T) (refs (disk s)) E G" using assms(1) B by (simp add: accounts_def)
  have "(\<lambda>x. G x + of_bool (None = Some x) - of_bool (Some f = Some x)) = (\<lambda>x. G x - one f x)" by (auto simp: one_def)
  with acc_fd [OF a assms(3) f(2) p, of "Some f"] f B show ?thesis by (simp add: accounts_def books_set_ofile)
qed

lemma close_fd_accounts:
  assumes "accounts E G s" "ofile (ptab (kn s) i) fd = Some f" "i < NPROC" "fd < NOFILE"
  shows "accounts E (\<lambda>x. G x + one f x) (set_ofile i fd None s)"
proof -
  obtain P F T where B: "books s = (P, F, T)" by (cases "books s")
  have p: "fst (P i) fd = Some f" using assms(2) B by (auto simp: books_def)
  have a: "acc (P, F, T) (refs (disk s)) E G" using assms(1) B by (simp add: accounts_def)
  have "(\<lambda>x. G x + of_bool (Some f = Some x) - of_bool (None = Some x)) = (\<lambda>x. G x + one f x)" by (auto simp: one_def)
  with acc_fd [OF a assms(3,4) p, of None] B show ?thesis by (simp add: accounts_def books_set_ofile)
qed

lemma books_proc: "fst (books s') = fst (books s) \<Longrightarrow> ofile (ptab (kn s') p) = ofile (ptab (kn s) p) \<and> cwd (ptab (kn s') p) = cwd (ptab (kn s) p)"
  by (drule fun_cong [where x = p]) (simp add: books_def)

lemma fileclose_accounts:
  assumes "accounts E G s"
  shows "post (fileclose i f s) (\<lambda>_ s'. accounts E (\<lambda>x. G x - one f x) s' \<and> unlocked_same s s' \<and> (\<forall>p. ofile (ptab (kn s') p) = ofile (ptab (kn s) p) \<and> cwd (ptab (kn s') p) = cwd (ptab (kn s) p)))"
proof -
  obtain P F T where B: "books s = (P, F, T)" by (cases "books s")
  then have F: "F = frefs (kn s)" and T: "T f = (ftype (ftab s f), fip (ftab s f))" by (auto simp: books_def)
  have a: "acc (P, F, T) (refs (disk s)) E G" using assms B by (simp add: accounts_def)
  have P: "books s' = (P, F', T') \<Longrightarrow> ofile (ptab (kn s') p) = ofile (ptab (kn s) p) \<and> cwd (ptab (kn s') p) = cwd (ptab (kn s) p)" for s' F' T' p
    using B by (intro books_proc) simp
  consider "frefs (kn s) f < 1" | "frefs (kn s) f > 1" | "frefs (kn s) f = 1" by linarith
  then show ?thesis
  proof cases
    case 1
    then show ?thesis by (simp add: fileclose_def)
  next
    case 2
    then have "fileclose i f s = Ret () (set_fref f (frefs (kn s) f - 1) s)" by (simp add: fileclose_def set_fref_def Let_def)
    with 2 show ?thesis using acc_drop [OF a, of f] F B P [of "set_fref f (frefs (kn s) f - 1) s"] by (simp add: accounts_def books_set_fref unlocked_same_def)
  next
    case 3
    define t where "t = set_file f (\<lambda>x. x\<lparr>ftype := FD_NONE\<rparr>) (set_fref f 0 (set_fref f (frefs (kn s) f - 1) s))"
    have t: "books t = (P, F(f := 0), T(f := (FD_NONE, fip (ftab s f))))" "disk t = disk s" "ops t = ops s"
      by (simp_all add: t_def books_set_file books_set_fref B)
    note L = acc_last [OF a 3 [folded F], of "fip (ftab s f)"]
    have c: "fileclose i f s = (case ftype (ftab s f) of
                        FD_PIPE \<Rightarrow> Ret () (from_psys i (fpipe (ftab s f)) (pipeclose (fpipe (ftab s f)) (fwritable (ftab s f)) (to_psys (fpipe (ftab s f)) t)) t)
                      | FD_NONE \<Rightarrow> Ret () t
                      | _ \<Rightarrow> obind (on_disk (iput (fip (ftab s f))) (op_begin t)) (\<lambda>_ s. Ret () (op_end s)))"
      using 3 by (cases "ftype (ftab s f)") (simp_all add: fileclose_def Let_def t_def)
    show ?thesis
    proof (cases "ftype (ftab s f) = FD_INODE \<or> ftype (ftab s f) = FD_DEVICE")
      case True
      then have c': "fileclose i f s = obind (on_disk (iput (fip (ftab s f))) (op_begin t)) (\<lambda>_ s. Ret () (op_end s))" using c by auto
      have R: "(\<lambda>x. refs (disk s) x - of_bool (on_inode (T f) x)) = (\<lambda>x. refs (disk s) x - one (fip (ftab s f)) x)" using True T by (auto simp: on_inode_def one_def)
      have o: "ops u = fst (rest u)" "books u = snd (rest u)" for u by (simp_all add: rest_def)
      show ?thesis unfolding c' using L t P
        by (intro post_rules) (simp add: accounts_def unlocked_same_def o [of "op_end _"], auto simp: R o)
    next
      case False
      then have R: "(\<lambda>x. refs (disk s) x - of_bool (on_inode (T f) x)) = refs (disk s)" using T by (auto simp: on_inode_def)
      from False show ?thesis unfolding c using L t R P [of t] P [of "from_psys i _ _ t"]
        by (cases "ftype (ftab s f)") (simp_all add: accounts_def unlocked_same_def)
    qed
  qed
qed

end
