(* ===== verification/Sysfile_Calls.thy ===== *)
theory Sysfile_Calls
  imports Sysfile_Books
begin

text \<open>Every file system call keeps the counts of references right and gives back what it locked: one lemma per call, stepping through it with the rules of \<open>Sysfile_Refs\<close> and \<open>Sysfile_Books\<close>.\<close>

section \<open>Steps that only touch memory\<close>

definition km_only :: "(kernel \<Rightarrow> (kernel, 'a) outcome) \<Rightarrow> bool" where
  "km_only f \<longleftrightarrow> (\<forall>k a k'. f k = Ret a k' \<longrightarrow> (\<exists>m. k' = k\<lparr>km := m\<rparr>))"

lemma km_onlyD: "km_only f \<Longrightarrow> f k = Ret a k' \<Longrightarrow> \<exists>m. k' = k\<lparr>km := m\<rparr>"
  by (simp add: km_only_def)

lemma km_mem_op [simp, intro]: "km_only (mem_op f)"
  by (auto simp: km_only_def mem_op_def split: outcome.splits)

lemma km_same: "\<exists>m. k = k\<lparr>km := m\<rparr>"
  by (rule exI [of _ "km k"]) simp

lemma km_args [simp, intro]: "km_only (argint n i)" "km_only (argaddr n i)"
  by (auto simp: km_only_def argint_def argaddr_def argraw_def km_same split: if_splits)

lemma mem_op_km: "mem_op f k = Ret a k' \<Longrightarrow> \<exists>m. k' = k\<lparr>km := m\<rparr>"
  using km_onlyD [OF km_mem_op] .

lemma km_fetch [simp, intro]: "km_only (fetchaddr a i)" "km_only (fetchstr a mx i)"
  by (auto simp: km_only_def fetchaddr_def fetchstr_def obind_eq_Ret km_same split: if_splits prod.splits dest!: mem_op_km)

lemma km_argstr [simp, intro]: "km_only (argstr n mx i)"
proof (unfold km_only_def, intro allI impI)
  fix k a k'
  assume "argstr n mx i k = Ret a k'"
  then obtain addr where "fetchstr addr mx i k = Ret a k'" by (auto simp: argstr_def argaddr_def argraw_def obind_eq_Ret split: if_splits)
  then show "\<exists>m. k' = k\<lparr>km := m\<rparr>" using km_onlyD [OF km_fetch(2)] by blast
qed

lemma km_copy [simp, intro]: "km_only (either_copyout i u dst bs)" "km_only (either_copyin i u src n)"
  by (auto simp: km_only_def either_copyout_def either_copyin_def km_same split: if_splits dest!: mem_op_km)

lemma post_km: "km_only f \<Longrightarrow> (\<And>a m. Q a (s\<lparr>kn := (kn s)\<lparr>km := m\<rparr>\<rparr>)) \<Longrightarrow> post (on_kern f s) Q"
  by (auto simp: post_def on_kern_def split: outcome.splits dest!: km_onlyD)

lemma km_view [simp]: "disk (s\<lparr>kn := k\<rparr>) = disk s" "books (s\<lparr>kn := (kn s)\<lparr>km := m\<rparr>\<rparr>) = books s" "rest (s\<lparr>kn := (kn s)\<lparr>km := m\<rparr>\<rparr>) = rest s" "ops (s\<lparr>kn := k\<rparr>) = ops s"
  by (simp_all add: books_def rest_def)

lemma neutral_km [simp]: "neutral s (s\<lparr>kn := (kn s)\<lparr>km := m\<rparr>\<rparr>)"
  by (simp add: neutral_def)

lemma neutral_refl [simp]: "neutral s s"
  by (simp add: neutral_def)

lemma neutral_trans [trans]: "neutral a b \<Longrightarrow> neutral b c \<Longrightarrow> neutral a c"
  by (simp add: neutral_def)

lemma post_arg [post_rules]: "(\<And>v s'. neutral s s' \<Longrightarrow> Q v s') \<Longrightarrow> post (on_kern (argint n i) s) Q"
  by (rule post_km) auto

lemma post_argaddr [post_rules]: "(\<And>v s'. neutral s s' \<Longrightarrow> Q v s') \<Longrightarrow> post (on_kern (argaddr n i) s) Q"
  by (rule post_km) auto

lemma post_argstr [post_rules]: "(\<And>v s'. neutral s s' \<Longrightarrow> Q v s') \<Longrightarrow> post (on_kern (argstr n mx i) s) Q"
  by (rule post_km) auto

lemma post_mem_op [post_rules]: "(\<And>v s'. neutral s s' \<Longrightarrow> Q v s') \<Longrightarrow> post (on_kern (mem_op f) s) Q"
  by (rule post_km) auto

lemma neutral_proc: "neutral s s' \<Longrightarrow> ofile (ptab (kn s') p) = ofile (ptab (kn s) p) \<and> cwd (ptab (kn s') p) = cwd (ptab (kn s) p)"
  by (rule books_proc) (simp add: neutral_def rest_def)

lemma post_argfd [post_rules]:
  assumes a: "\<And>r s'. neutral s s' \<Longrightarrow> (case r of None \<Rightarrow> True | Some (fd, f) \<Rightarrow> fd < NOFILE \<and> ofile (ptab (kn s') i) fd = Some f) \<Longrightarrow> Q r s'"
  shows "post (argfd n i s) Q"
  unfolding argfd_def by (intro post_rules) (rule a; auto split: option.splits simp: map_option_case)+

section \<open>Calls that keep all references\<close>

definition keeps :: "osys \<Rightarrow> osys \<Rightarrow> bool" where
  "keeps s s' \<longleftrightarrow> accounts (\<lambda>_. 0) (\<lambda>_. 0) s' \<and> unlocked_same s s'"

lemma neutral_keeps: "accounts (\<lambda>_. 0) (\<lambda>_. 0) s \<Longrightarrow> neutral s s' \<Longrightarrow> keeps s s'"
  unfolding keeps_def by (rule neutral_accounts)

lemma post_neutral_mono: "neutral s t \<Longrightarrow> post m (\<lambda>_ s'. neutral t s') \<Longrightarrow> post m (\<lambda>_ s'. neutral s s')"
  by (erule post_mono) (rule neutral_trans)

lemma sys_link_neutral: "post (sys_link i s) (\<lambda>_ s'. neutral s s')"
  unfolding sys_link_def
  by (intro post_rules) (auto intro: neutral_trans post_neutral_mono link_neutral)

lemma sys_unlink_neutral: "post (sys_unlink i s) (\<lambda>_ s'. neutral s s')"
  unfolding sys_unlink_def
  by (intro post_rules) (auto intro: post_neutral_mono unlink_neutral)

lemma neutral_op: "neutral (op_begin s) (op_begin s') \<Longrightarrow> neutral s s'"
  by (cases "rest s"; cases "rest s'") (auto simp: neutral_def)

lemma neutral_end: "neutral (op_begin s) s' \<Longrightarrow> neutral s (op_end s')"
  by (auto simp: neutral_def)

lemma make_node_called: "neutral (op_begin s) t \<Longrightarrow> post (make_node i path typ major minor t) (\<lambda>_ s'. neutral s s')"
  by (rule post_mono [OF make_node_neutral]) (blast intro: neutral_op neutral_trans)

lemma sys_mkdir_neutral: "post (sys_mkdir i s) (\<lambda>_ s'. neutral s s')"
  unfolding sys_mkdir_def
  by (intro post_rules) (auto intro: make_node_called neutral_end)

lemma sys_mknod_neutral: "post (sys_mknod i s) (\<lambda>_ s'. neutral s s')"
  unfolding sys_mknod_def
  by (intro post_rules) (blast intro: make_node_called neutral_end neutral_trans)+

lemma sys_fstat_neutral: "post (sys_fstat pad i s) (\<lambda>_ s'. neutral s s')"
proof -
  have f: "post (filestat pad i f addr t) (\<lambda>_ s'. neutral t s')" for f addr t
    unfolding filestat_def Let_def
  proof (intro post_if post_Ret_I neutral_refl post_obind post_ilock post_iunlock post_mem_op)
    fix u v v'
    assume "\<not> locks (disk t) (fip (ftab t f))" "refs (disk u) = refs (disk t)" "locks (disk u) = (locks (disk t))(fip (ftab t f) := True)" "rest u = rest t"
      "refs (disk v) = refs (disk u)" "locks (disk v) = (locks (disk u))(fip (ftab t f) := False)" "rest v = rest u" "neutral v v'"
    then show "neutral t v'" "neutral t v'" by (simp_all add: neutral_def hold_simps)
  qed
  show ?thesis unfolding sys_fstat_def by (intro post_rules) (blast intro: f neutral_trans post_neutral_mono)+
qed

section \<open>Descriptors\<close>

lemma sys_dup_keeps:
  assumes a: "accounts (\<lambda>_. 0) (\<lambda>_. 0) s" and i: "i < NPROC"
  shows "post (sys_dup i s) (\<lambda>_ s'. keeps s s')"
proof -
  have "keeps s t'" if n: "neutral s t" and f: "ofile (ptab (kn t) i) fd = Some f" "fd < NOFILE" and al: "fdalloc i f t = (Some fd', u)" and d: "on_kern (filedup f) u = Ret r t'" for t t' u fd fd' f r
  proof -
    have t: "accounts (\<lambda>_. 0) (\<lambda>_. 0) t" "unlocked_same s t" using neutral_accounts [OF n a] by auto
    note u = fdalloc_accounts [OF t(1) al i]
    have t': "frefs (kn u) f \<ge> 1" "t' = set_fref f (frefs (kn u) f + 1) u" using d by (auto simp: on_kern_def filedup_def set_fref_def split: if_splits)
    obtain P F T where B: "books u = (P, F, T)" by (cases "books u")
    then have F: "F f = frefs (kn u) f" by (simp add: books_def fun_eq_iff)
    have "acc (P, F, T) (refs (disk u)) (\<lambda>_. 0) (\<lambda>x. 0 - one f x)" using conjunct1 [OF u] B by (simp add: accounts_def)
    from acc_dup [OF this, of f] t'(1) F have "accounts (\<lambda>_. 0) (\<lambda>_. 0) t'" unfolding t'(2) by (simp add: accounts_def books_set_fref B)
    then show ?thesis using t(2) u t'(2) by (simp add: keeps_def unlocked_same_def)
  qed
  moreover have "keeps s t" if "neutral s t" for t using neutral_keeps [OF a that] .
  moreover have "t = u" if "fdalloc i f t = (None, u)" for f t u using that by (auto simp: fdalloc_def split: option.splits)
  ultimately show ?thesis unfolding sys_dup_def by (intro post_rules) (fastforce simp: post_def)+
qed


lemma sys_close_keeps:
  assumes a: "accounts (\<lambda>_. 0) (\<lambda>_. 0) s" and i: "i < NPROC"
  shows "post (sys_close i s) (\<lambda>_ s'. keeps s s')"
proof -
  have "post (fileclose i f (set_ofile i fd None t)) (\<lambda>_ s'. keeps s s')" if n: "neutral s t" and f: "ofile (ptab (kn t) i) fd = Some f" "fd < NOFILE" for t fd f
  proof -
    have t: "accounts (\<lambda>_. 0) (\<lambda>_. 0) t" "unlocked_same s t" using neutral_accounts [OF n a] by auto
    from fileclose_accounts [OF close_fd_accounts [OF t(1) f(1) i f(2)]] show ?thesis
      by (rule post_mono) (use t(2) in \<open>auto simp: keeps_def unlocked_same_def\<close>)
  qed
  moreover have "keeps s t" if "neutral s t" for t using neutral_keeps [OF a that] .
  ultimately show ?thesis unfolding sys_close_def by (intro post_rules) (fastforce simp: post_def)+
qed

section \<open>Opening\<close>

lemma books_parts: "books s = (P, F, T) \<Longrightarrow> F f = frefs (kn s) f \<and> T f = (ftype (ftab s f), fip (ftab s f))"
  by (auto simp: books_def)

lemma open_file_accounts:
  assumes a: "accounts E G s" and f: "frefs (kn s) f > 0" "ftype (ftab s f) = FD_NONE"
  shows "accounts (\<lambda>x. E x - one ip x) G (open_file omode ip f s)"
proof -
  obtain P F T where B: "books s = (P, F, T)" by (cases "books s")
  define t where "t = (if itype (itable (disk s) ip) = T_DEVICE then FD_DEVICE else FD_INODE)"
  have o: "books (open_file omode ip f s) = (P, F, T(f := (t, ip)))" "disk (open_file omode ip f s) = disk s"
    by (auto simp: open_file_def Let_def books_set_file B t_def)
  have "acc (P, F, T) (refs (disk s)) E G" using a B by (simp add: accounts_def)
  from acc_open [OF this, of f t ip] show ?thesis using f books_parts [OF B, of f] by (simp add: accounts_def o t_def)
qed

text \<open>Both ways out of \<open>open_inode\<close>, which is called with a reference on the inode in hand and the inode locked, in a state \<open>s\<close> of a call that started in \<open>s0\<close>.\<close>

definition in_open :: "nat \<Rightarrow> osys \<Rightarrow> osys \<Rightarrow> bool" where
  "in_open ip s0 s \<longleftrightarrow> locks (disk s) = (locks (disk s0))(ip := True) \<and> \<not> locks (disk s0) ip \<and> ops s = ops s0 + 1"

lemma in_open_same: "in_open ip s0 s \<Longrightarrow> unlocked_same s t \<Longrightarrow> in_open ip s0 t"
  by (simp add: in_open_def unlocked_same_def)

lemma open_bad_keeps:
  assumes "accounts (one ip) (\<lambda>_. 0) t" "in_open ip s0 t"
  shows "post (open_bad ip t) (\<lambda>_ s'. keeps s0 s')"
proof -
  have "keeps s0 (op_end u)" if u: "refs (disk u) = (\<lambda>x. refs (disk t) x - one ip x)" "locks (disk u) = (locks (disk t))(ip := False)" "rest u = rest t" for u
  proof -
    have b: "books u = books t" "ops u = ops t" using u(3) by (simp_all add: rest_def)
    then have "accounts (\<lambda>_. 0) (\<lambda>_. 0) u" using accounts_refs [OF assms(1), of u "\<lambda>x. - one ip x"] u(1) by simp
    moreover have "books (op_end u) = books u" "ops (op_end u) = ops u - 1" by (simp_all add: op_end_def books_def)
    ultimately show ?thesis using u(2) b(2) assms(2) by (simp add: keeps_def accounts_def unlocked_same_def in_open_def hold_simps)
  qed
  then show ?thesis unfolding open_bad_def by (intro post_rules) auto
qed

lemma opened_keeps:
  assumes a: "accounts (one ip) (\<lambda>_. 0) s" and i: "i < NPROC" and L: "in_open ip s0 s" and al: "filealloc s = (Some f, t)" "fdalloc i f t = (Some fd, u)"
    and w: "refs (disk w) = refs (disk (open_file omode ip f u))" "locks (disk w) = (locks (disk (open_file omode ip f u)))(ip := False)" "rest w = rest (open_file omode ip f u)"
  shows "keeps s0 (op_end w)"
proof -
  note A = filealloc_accounts [OF a al(1)]
  note B = fdalloc_accounts [OF conjunct1 [OF A] al(2) i]
  have "frefs (kn u) f = 1" "ftype (ftab u f) = FD_NONE" using A B by (auto simp: set_ofile_def upd_def)
  then have o: "accounts (\<lambda>_. 0) (\<lambda>_. 0) (open_file omode ip f u)" using open_file_accounts [OF conjunct1 [OF B], of f ip omode] by simp
  have k: "unlocked_same s (open_file omode ip f u)" using A B by (simp add: unlocked_same_def open_file_def Let_def)
  have "books (op_end w) = books (open_file omode ip f u)" "ops (op_end w) = ops (open_file omode ip f u) - 1" using w(3) by (auto simp: rest_def op_end_def books_def)
  then show ?thesis using o in_open_same [OF L k] w by (simp add: keeps_def accounts_def unlocked_same_def in_open_def hold_simps)
qed

lemma open_inode_keeps:
  assumes a: "accounts (one ip) (\<lambda>_. 0) s" and i: "i < NPROC" and L: "in_open ip s0 s"
  shows "post (open_inode i omode ip s) (\<lambda>_ s'. keeps s0 s')"
proof -
  have full: "t = s" if "filealloc s = (None, t)" for t using that by (auto simp: filealloc_def split: option.splits)
  have nofd: "post (fileclose i f u) (\<lambda>_ s'. post (open_bad ip s') (\<lambda>_ s'. keeps s0 s'))" if al: "filealloc s = (Some f, t)" "fdalloc i f t = (None, u)" for f t u
  proof -
    have "u = t" using that(2) by (auto simp: fdalloc_def split: option.splits)
    with filealloc_accounts [OF a al(1)] have A: "accounts (one ip) (\<lambda>x. 0 + one f x) u" "unlocked_same s u" by auto
    from fileclose_accounts [OF A(1), of i f] show ?thesis
      by (rule post_mono) (auto intro!: open_bad_keeps in_open_same [OF L] unlocked_same_trans [OF A(2)])
  qed
  show ?thesis unfolding open_inode_def
    by (intro post_rules) (use full nofd opened_keeps [OF a i L] open_bad_keeps [OF a L] in auto)
qed

lemma open_path_keeps:
  assumes a: "accounts (\<lambda>_. 0) (\<lambda>_. 0) s" and i: "i < NPROC"
  shows "post (open_path i path omode s) (\<lambda>_ s'. keeps s s')"
proof -
  have r: "books t = snd (rest t)" "ops t = fst (rest t)" for t by (simp_all add: rest_def)
  have none: "keeps s (op_end t)" if "refs (disk t) = refs (disk s)" "locks (disk t) = locks (disk s)" "rest t = (fst (rest s) + 1, snd (rest s))" for t
    using that a by (simp add: keeps_def accounts_def unlocked_same_def r)
  have inode: "accounts (one ip) (\<lambda>_. 0) t \<and> in_open ip s t" if "refs (disk t) = (\<lambda>x. refs (disk s) x + one ip x)" "locks (disk t) = (locks (disk s))(ip := True)" "\<not> locks (disk s) ip" "rest t = (fst (rest s) + 1, snd (rest s))" for ip t
    using accounts_refs [OF a, of t "one ip"] that by (simp add: in_open_def r)
  show ?thesis unfolding open_path_def
    by (intro post_rules) (auto intro!: none open_inode_keeps [OF _ i] open_bad_keeps dest: inode split: option.splits)
qed

lemma sys_open_keeps:
  assumes a: "accounts (\<lambda>_. 0) (\<lambda>_. 0) s" and i: "i < NPROC"
  shows "post (sys_open i s) (\<lambda>_ s'. keeps s s')"
proof -
  have p: "post (open_path i path omode t) (\<lambda>_ s'. keeps s s')" if "neutral s t" for path omode t
    using open_path_keeps [OF _ i, of t path omode] neutral_accounts [OF that a] by (auto elim!: post_mono simp: keeps_def intro: unlocked_same_trans)
  show ?thesis unfolding sys_open_def by (intro post_rules) (blast intro: p neutral_trans neutral_keeps [OF a])+
qed

end
