(* ===== verification/Sysfile_Calls2.thy ===== *)
theory Sysfile_Calls2
  imports Sysfile_Calls
begin

text \<open>The remaining calls: changing directory, pipes, exit, reading and writing.\<close>

lemma op_view: "books (op_end s) = books s" "books (op_begin s) = books s" "ops (op_end s) = ops s - 1" "ops (op_begin s) = ops s + 1"
  by (simp_all add: op_end_def op_begin_def books_def)

lemma chdir_path_keeps:
  assumes a: "accounts (\<lambda>_. 0) (\<lambda>_. 0) s" and i: "i < NPROC" and n: "neutral (op_begin s) s1"
  shows "post (chdir_path i path s1) (\<lambda>_ s'. keeps s s')"
proof -
  have r: "books t = snd (rest t)" "ops t = fst (rest t)" for t by (simp_all add: rest_def)
  have S: "refs (disk s1) = refs (disk s)" "locks (disk s1) = locks (disk s)" "rest s1 = (fst (rest s) + 1, snd (rest s))" using n by (simp_all add: neutral_def)
  have same: "keeps s (op_end t)" if "refs (disk t) = refs (disk s1)" "locks (disk t) = locks (disk s1)" "rest t = rest s1" for t
    using that a S by (simp add: keeps_def accounts_def unlocked_same_def r)
  have moved: "keeps s (op_end t\<lparr>kn := upd i (\<lambda>p. p\<lparr>cwd := Some ip\<rparr>) (kn (op_end t))\<rparr>)"
    if "refs (disk t) = (\<lambda>x. refs (disk s1) x + one ip x - one c x)" "locks (disk t) = locks (disk s1)" "rest t = rest s1" "cwd (ptab (kn u) i) = Some c" "rest u = rest s1" for t u ip c
  proof -
    obtain P F T where B: "books t = (P, F, T)" by (cases "books t")
    have e: "books (op_end t) = (P, F, T)" using B by (simp add: op_end_def books_def)
    have "books u = books t" using that(3,5) by (simp add: r)
    then have c: "snd (P i) = Some c" using that(4) B by (auto simp: books_def)
    have "accounts (\<lambda>x. one ip x - one c x) (\<lambda>_. 0) t"
      using accounts_refs [OF a, of t "\<lambda>x. one ip x - one c x"] that(1,3) S by (simp add: r algebra_simps)
    then have "acc (P, F, T) (refs (disk t)) (\<lambda>x. one ip x - one c x) (\<lambda>_. 0)" using B by (simp add: accounts_def)
    from acc_cwd [OF this i c, of "Some ip"] have "acc (P(i := (fst (P i), Some ip)), F, T) (refs (disk t)) (\<lambda>x. one ip x - of_bool (ip = x)) (\<lambda>_. 0)" by simp
    moreover have "(\<lambda>x. one ip x - of_bool (ip = x)) = (\<lambda>_. 0)" by (auto simp: one_def)
    moreover have "ops t = ops s + 1" using that(3) S(3) by (simp add: r)
    ultimately show ?thesis using e that(2) S(2) by (simp add: keeps_def accounts_def books_cwd unlocked_same_def op_view)
  qed
  show ?thesis unfolding chdir_path_def
    by (intro post_rules) (auto intro!: same moved simp: hold_simps split: option.splits)
qed

lemma sys_chdir_keeps:
  assumes a: "accounts (\<lambda>_. 0) (\<lambda>_. 0) s" and i: "i < NPROC"
  shows "post (sys_chdir i s) (\<lambda>_ s'. keeps s s')"
  unfolding sys_chdir_def
  by (intro post_rules) (auto intro: chdir_path_keeps [OF a i] neutral_keeps [OF a] neutral_end)

section \<open>Pipes\<close>

text \<open>References on files in hand, in a call that started in \<open>s\<close>.\<close>

definition pend :: "(nat \<Rightarrow> int) \<Rightarrow> osys \<Rightarrow> osys \<Rightarrow> bool" where
  "pend G s t \<longleftrightarrow> accounts (\<lambda>_. 0) G t \<and> unlocked_same s t"

lemma pend_keeps: "pend (\<lambda>_. 0) s t = keeps s t"
  by (simp add: pend_def keeps_def)

lemma pend_close: "pend G s t \<Longrightarrow> (\<And>t'. pend (\<lambda>x. G x - one f x) s t' \<Longrightarrow> Q () t') \<Longrightarrow> post (fileclose i f t) Q"
  by (rule post_mono [OF fileclose_accounts [of "\<lambda>_. 0" G t i f]]) (auto simp: pend_def unlocked_same_def)

lemma pend_neutral: "pend G s t \<Longrightarrow> neutral t u \<Longrightarrow> pend G s u"
  using neutral_accounts [of t u] by (auto simp: pend_def intro: unlocked_same_trans)

lemma pend_alloc: "pend G s t \<Longrightarrow> filealloc t = (Some f, u) \<Longrightarrow> pend (\<lambda>x. G x + one f x) s u \<and> frefs (kn u) f = 1 \<and> ftype (ftab u f) = FD_NONE"
  using filealloc_accounts [of "\<lambda>_. 0" G t f u] by (auto simp: pend_def intro: unlocked_same_trans)

lemma pend_fd: "pend G s t \<Longrightarrow> i < NPROC \<Longrightarrow> fdalloc i f t = (Some fd, u) \<Longrightarrow> pend (\<lambda>x. G x - one f x) s u \<and> ofile (ptab (kn u) i) fd = Some f \<and> fd < NOFILE \<and> u = set_ofile i fd (Some f) t \<and> ofile (ptab (kn t) i) fd = None"
  using fdalloc_accounts [of "\<lambda>_. 0" G t i f fd u] by (auto simp: pend_def unlocked_same_def set_ofile_def upd_def)

lemma pend_unfd: "pend G s t \<Longrightarrow> i < NPROC \<Longrightarrow> ofile (ptab (kn t) i) fd = Some f \<Longrightarrow> fd < NOFILE \<Longrightarrow> pend (\<lambda>x. G x + one f x) s (set_ofile i fd None t)"
  using close_fd_accounts [of "\<lambda>_. 0" G t i fd f] by (auto simp: pend_def unlocked_same_def)

lemma pend_pipe:
  assumes "pend G s t" "frefs (kn t) f > 0" "ftype (ftab t f) = FD_NONE"
  shows "pend G s (set_file f (\<lambda>x. x\<lparr>ftype := FD_PIPE, freadable := r, fwritable := w, fpipe := pi\<rparr>) t)"
proof -
  obtain P F T where B: "books t = (P, F, T)" by (cases "books t")
  have "acc (P, F, T) (refs (disk t)) (\<lambda>_. 0) G" using assms(1) B by (simp add: pend_def accounts_def)
  from acc_other [OF this, of f FD_PIPE "fip (ftab t f)"] show ?thesis using assms books_parts [OF B, of f] by (simp add: pend_def accounts_def books_set_file B unlocked_same_def)
qed

lemma neutral_pipes [simp]: "neutral s (s\<lparr>pipes := p\<rparr>)"
  by (simp add: neutral_def rest_def books_def)

lemma filealloc_None: "filealloc s = (None, t) \<Longrightarrow> t = s"
  by (auto simp: filealloc_def split: option.splits)

lemma fdalloc_None: "fdalloc i f s = (None, t) \<Longrightarrow> t = s"
  by (auto simp: fdalloc_def split: option.splits)

lemma pipealloc_pend:
  assumes "pend (\<lambda>_. 0) s t"
  shows "post (pipealloc i t) (\<lambda>r t'. pend (\<lambda>x. case r of None \<Rightarrow> 0 | Some (f0, f1) \<Rightarrow> one f0 x + one f1 x) s t')"
proof (cases "filealloc t")
  case (Pair r u)
  show ?thesis
  proof (cases r)
    case None
    then show ?thesis using Pair assms filealloc_None [of t u] by (simp add: pipealloc_def)
  next
    case (Some f0)
    note A = pend_alloc [OF assms, of f0 u]
    obtain r1 v where v: "filealloc u = (r1, v)" by (cases "filealloc u")
    show ?thesis
    proof (cases r1)
      case None
      then have "v = u" using v filealloc_None by simp
      then show ?thesis using None A Pair Some v unfolding pipealloc_def by (auto intro!: post_rules pend_close [where i = i and G = "\<lambda>x. 0 + one f0 x" and s = s])
    next
      case (Some f1)
      note C = pend_alloc [OF _ v [unfolded Some], of "\<lambda>x. 0 + one f0 x" s]
      obtain pi m where k: "kalloc (km (kn v)) = (pi, m)" by (cases "kalloc (km (kn v))")
      have ne: "f1 \<noteq> f0" using v A Pair \<open>r = Some f0\<close> Some by (auto simp: filealloc_def split: option.splits dest!: find_upt)
      have V: "pend (\<lambda>x. 0 + one f0 x + one f1 x) s v" "frefs (kn v) f1 = 1" "ftype (ftab v f1) = FD_NONE" "frefs (kn v) f0 = 1" "ftype (ftab v f0) = FD_NONE"
        using C A Pair \<open>r = Some f0\<close> v ne Some by (auto simp: filealloc_def split: option.splits)
      define w where "w = v\<lparr>kn := (kn v)\<lparr>km := m\<rparr>\<rparr>"
      have W: "pend (\<lambda>x. 0 + one f0 x + one f1 x) s w" using pend_neutral [OF V(1)] by (simp add: w_def)
      have e: "pipealloc i t = (if pi = 0 then obind (fileclose i f0 w) (\<lambda>_ s. obind (fileclose i f1 s) (\<lambda>_ s. Ret None s))
         else Ret (Some (f0, f1)) (set_file f1 (\<lambda>x. x\<lparr>ftype := FD_PIPE, freadable := False, fwritable := True, fpipe := pi\<rparr>)
           (set_file f0 (\<lambda>x. x\<lparr>ftype := FD_PIPE, freadable := True, fwritable := False, fpipe := pi\<rparr>) (w\<lparr>pipes := (pipes w)(pi := new_pipe (pipes w pi))\<rparr>))))"
        using Pair \<open>r = Some f0\<close> v Some k by (simp add: pipealloc_def w_def Let_def)
      have X: "pend (\<lambda>x. 0 + one f0 x + one f1 x) s (w\<lparr>pipes := p\<rparr>)" for p using pend_neutral [OF W] by simp
      have Y: "frefs (kn w) = frefs (kn v)" "ftab w = ftab v" by (simp_all add: w_def)
      show ?thesis
      proof (cases "pi = 0")
        case True
        then show ?thesis unfolding e using W
          by (simp del: post_Ret) (rule post_obind, rule pend_close [OF W], rule post_obind, erule pend_close, simp)
      next
        case False
        have P0: "pend (\<lambda>x. 0 + one f0 x + one f1 x) s (set_file f0 (\<lambda>x. x\<lparr>ftype := FD_PIPE, freadable := True, fwritable := False, fpipe := pi\<rparr>) (w\<lparr>pipes := p\<rparr>))" for p
          by (rule pend_pipe [OF X]) (use V Y in simp_all)
        have "pend (\<lambda>x. 0 + one f0 x + one f1 x) s (set_file f1 (\<lambda>x. x\<lparr>ftype := FD_PIPE, freadable := False, fwritable := True, fpipe := pi\<rparr>)
            (set_file f0 (\<lambda>x. x\<lparr>ftype := FD_PIPE, freadable := True, fwritable := False, fpipe := pi\<rparr>) (w\<lparr>pipes := p\<rparr>)))" for p
          by (rule pend_pipe [OF P0]) (use V Y ne in \<open>simp_all add: set_file_def\<close>)
        then show ?thesis unfolding e using False by simp
      qed
    qed
  qed
qed


lemma undo_keeps: "pend (\<lambda>x. one f0 x + one f1 x) s t \<Longrightarrow> post (pipe_undo i f0 f1 t) (\<lambda>_ s'. keeps s s')"
  unfolding pipe_undo_def by (rule post_obind, erule pend_close, rule post_obind, erule pend_close) (simp add: pend_keeps)

text \<open>When the numbers of the descriptors cannot be stored, all is undone.\<close>

lemma pipe_unstored_keeps:
  assumes p: "pend (\<lambda>_. 0) s t" and i: "i < NPROC" and fd: "ofile (ptab (kn t) i) fd0 = Some f0" "ofile (ptab (kn t) i) fd1 = Some f1" "fd0 < NOFILE" "fd1 < NOFILE" "fd0 \<noteq> fd1" and n: "neutral t u"
  shows "post (pipe_undo i f0 f1 (set_ofile i fd1 None (set_ofile i fd0 None u))) (\<lambda>_ s'. keeps s s')"
proof (rule undo_keeps)
  have u: "pend (\<lambda>_. 0) s u" "ofile (ptab (kn u) i) fd0 = Some f0" "ofile (ptab (kn u) i) fd1 = Some f1" using pend_neutral [OF p n] neutral_proc [OF n, of i] fd by auto
  have "ofile (ptab (kn (set_ofile i fd0 None u)) i) fd1 = Some f1" using u(3) fd(5) by (simp add: set_ofile_def upd_def)
  from pend_unfd [OF pend_unfd [OF u(1) i u(2) fd(3)] i this fd(4)] show "pend (\<lambda>x. one f0 x + one f1 x) s (set_ofile i fd1 None (set_ofile i fd0 None u))" by simp
qed

lemma post_put_fd [post_rules]: "(\<And>v s'. neutral s s' \<Longrightarrow> Q v s') \<Longrightarrow> post (put_fd i a fd s) Q"
  unfolding put_fd_def by (rule post_km) (auto simp: km_only_def dest!: mem_op_km)

lemma pipe_fds_keeps:
  assumes p: "pend (\<lambda>x. one f0 x + one f1 x) s t" and i: "i < NPROC"
  shows "post (pipe_fds i a f0 f1 t) (\<lambda>_ s'. keeps s s')"
proof (cases "fdalloc i f0 t")
  case (Pair r u)
  show ?thesis
  proof (cases r)
    case None
    then show ?thesis using Pair p fdalloc_None [of i f0 t u] by (simp add: pipe_fds_def undo_keeps)
  next
    case (Some fd0)
    note U = pend_fd [OF p i Pair [unfolded Some]]
    have U1: "pend (\<lambda>x. one f1 x) s u" using conjunct1 [OF U] by simp
    have U2: "ofile (ptab (kn u) i) fd0 = Some f0" "fd0 < NOFILE" using U by blast+
    obtain r1 v where v: "fdalloc i f1 u = (r1, v)" by (cases "fdalloc i f1 u")
    show ?thesis
    proof (cases r1)
      case None
      then have "v = u" using v fdalloc_None by simp
      moreover have "pend (\<lambda>x. one f0 x + one f1 x) s (set_ofile i fd0 None u)" using pend_unfd [OF U1 i U2] by (simp add: add.commute)
      ultimately show ?thesis using Pair Some v None by (simp add: pipe_fds_def undo_keeps)
    next
      case (Some fd1)
      note V = pend_fd [OF U1 i v [unfolded Some]]
      have V1: "pend (\<lambda>_. 0) s v" using conjunct1 [OF V] by simp
      have V2: "ofile (ptab (kn v) i) fd0 = Some f0" "ofile (ptab (kn v) i) fd1 = Some f1" "fd0 < NOFILE" "fd1 < NOFILE" "fd0 \<noteq> fd1"
        using V U2 by (auto simp: set_ofile_def upd_def)
      have bad: "post (pipe_undo i f0 f1 (set_ofile i fd1 None (set_ofile i fd0 None w))) (\<lambda>_ s'. keeps s s')" if "neutral v w" for w using pipe_unstored_keeps [OF V1 i V2 that] .
      have ok: "keeps s w" if "neutral v w" for w using pend_neutral [OF V1 that] by (simp add: pend_keeps)
      have e: "pipe_fds i a f0 f1 t = obind (put_fd i a fd0 v) (\<lambda>r s. obind (if r < 0 then Ret (-1) s else put_fd i (a + 4) fd1 s) (\<lambda>r s.
             if r < 0 then pipe_undo i f0 f1 (set_ofile i fd1 None (set_ofile i fd0 None s)) else Ret 0 s))"
        using Pair \<open>r = Some fd0\<close> v Some by (simp add: pipe_fds_def)
      show ?thesis unfolding e by (intro post_rules) (blast intro: bad ok neutral_trans)+
    qed
  qed
qed

lemma sys_pipe_keeps:
  assumes a: "accounts (\<lambda>_. 0) (\<lambda>_. 0) s" and i: "i < NPROC"
  shows "post (sys_pipe i s) (\<lambda>_ s'. keeps s s')"
proof -
  have start: "pend (\<lambda>_. 0) s t" if "neutral s t" for t using neutral_keeps [OF a that] by (simp add: pend_keeps)
  show ?thesis unfolding sys_pipe_def
    by (intro post_obind post_argaddr, rule post_mono [OF pipealloc_pend [OF start]], assumption)
      (auto simp: pend_keeps intro: pipe_fds_keeps [OF _ i] split: option.splits)
qed

section \<open>Exit\<close>

lemma upd_books: "(\<And>p. ofile (g p) = ofile p \<and> cwd (g p) = cwd p) \<Longrightarrow> ofile (ptab (upd j g k) p) = ofile (ptab k p) \<and> cwd (ptab (upd j g k) p) = cwd (ptab k p) \<and> frefs (upd j g k) = frefs k"
  by (simp add: upd_def)

lemma reparent_books: "ofile (ptab (reparent i js k) p) = ofile (ptab k p) \<and> cwd (ptab (reparent i js k) p) = cwd (ptab k p) \<and> frefs (reparent i js k) = frefs k"
  by (induction i js k rule: reparent.induct) (auto simp: Let_def upd_def split: option.splits)

lemma exit_zombie_books: "ofile (ptab (exit_zombie i st k) p) = ofile (ptab k p) \<and> cwd (ptab (exit_zombie i st k) p) = cwd (ptab k p) \<and> frefs (exit_zombie i st k) = frefs k"
  using reparent_books [of i "[0..<NPROC]" k p] by (auto simp: exit_zombie_def Let_def upd_def split: option.splits)

lemma neutral_zombie: "neutral s (s\<lparr>kn := exit_zombie i st (kn s)\<rparr>)"
  using exit_zombie_books [of i st "kn s"] by (simp add: neutral_def rest_def books_def)

lemma close_all_pend:
  assumes "pend (\<lambda>_. 0) s t" "i < NPROC" "\<forall>fd\<in>set ds. fd < NOFILE"
  shows "post (close_all i ds t) (\<lambda>_ t'. pend (\<lambda>_. 0) s t' \<and> cwd (ptab (kn t') i) = cwd (ptab (kn t) i))"
  using assms(1,3)
proof (induction ds arbitrary: t)
  case (Cons fd ds)
  show ?case
  proof (cases "ofile (ptab (kn t) i) fd")
    case (Some f)
    have "post (close_all i ds (u\<lparr>kn := upd i (\<lambda>p. p\<lparr>ofile := (ofile p)(fd := None)\<rparr>) (kn u)\<rparr>)) (\<lambda>_ t'. pend (\<lambda>_. 0) s t' \<and> cwd (ptab (kn t') i) = cwd (ptab (kn t) i))"
      if u: "accounts (\<lambda>_. 0) (\<lambda>x. 0 - one f x) u" "unlocked_same t u" "\<forall>p. ofile (ptab (kn u) p) = ofile (ptab (kn t) p) \<and> cwd (ptab (kn u) p) = cwd (ptab (kn t) p)" for u
    proof -
      have p: "pend (\<lambda>x. 0 - one f x) s u" using u(1,2) Cons.prems(1) by (auto simp: pend_def intro: unlocked_same_trans)
      have "pend (\<lambda>_. 0) s (set_ofile i fd None u)" using pend_unfd [OF p assms(2), of fd f] u(3) Some Cons.prems(2) by simp
      from Cons.IH [OF this] Cons.prems(2) u(3) show ?thesis by (simp add: set_ofile_def upd_def)
    qed
    then show ?thesis using Some fileclose_accounts [of "\<lambda>_. 0" "\<lambda>_. 0" t i f] Cons.prems(1)
      by (auto intro!: post_obind elim!: post_mono simp: pend_def)
  qed (use Cons in simp)
qed simp

lemma kexit_keeps:
  assumes a: "accounts (\<lambda>_. 0) (\<lambda>_. 0) s" and i: "i < NPROC"
  shows "post (kexit i st s) (\<lambda>_ s'. keeps s s')"
proof -
  have fin: "keeps s (v\<lparr>kn := exit_zombie i st (kn v)\<rparr>)" if p: "pend (\<lambda>_. 0) s t" and c: "cwd (ptab (kn t) i) = Some c" and u: "refs (disk u) = (\<lambda>x. refs (disk t) x - one c x)" "locks (disk u) = locks (disk t)" "rest u = rest (op_begin t)"
     and v: "v = op_end u\<lparr>kn := upd i (\<lambda>p. p\<lparr>cwd := None\<rparr>) (kn (op_end u))\<rparr>" for t c u v
  proof -
    obtain P F T where B: "books t = (P, F, T)" by (cases "books t")
    have e: "books u = (P, F, T)" "ops u = ops t + 1" using u(3) B by (simp_all add: rest_def op_view del: ops_simps)
    have "snd (P i) = Some c" using c B by (auto simp: books_def)
    moreover have "acc (P, F, T) (refs (disk u)) (\<lambda>x. - one c x) (\<lambda>_. 0)" using p accounts_refs [of "\<lambda>_. 0" "\<lambda>_. 0" t u "\<lambda>x. - one c x"] u(1) e B by (simp add: pend_def accounts_def)
    ultimately have "acc (P(i := (fst (P i), None)), F, T) (refs (disk u)) (\<lambda>_. 0) (\<lambda>_. 0)" using acc_cwd [OF _ i, of P F T "refs (disk u)" "\<lambda>x. - one c x" "\<lambda>_. 0" c None] by simp
    then have "accounts (\<lambda>_. 0) (\<lambda>_. 0) v" "unlocked_same s v" using e p u(2) by (simp_all add: v accounts_def books_cwd op_view unlocked_same_def pend_def)
    then show ?thesis using pend_neutral [OF _ neutral_zombie, of "\<lambda>_. 0" s v i st] by (simp add: pend_def pend_keeps [symmetric])
  qed
  have fin': "keeps s (op_end u\<lparr>kn := exit_zombie i st (upd i (cwd_update (\<lambda>_. None)) (kn (op_end u)))\<rparr>)"
    if "pend (\<lambda>_. 0) s t" "cwd (ptab (kn t) i) = Some c" "refs (disk u) = (\<lambda>x. refs (disk t) x - one c x)" "locks (disk u) = locks (disk t)" "rest u = (fst (rest t) + 1, snd (rest t))" for t c u
    using fin [OF that(1-4) _ refl] that(5) by simp
  have "pend (\<lambda>_. 0) s s" using a by (simp add: pend_def)
  from close_all_pend [OF this i, of "[0..<NOFILE]"] have "post (close_all i [0..<NOFILE] s) (\<lambda>_ t. pend (\<lambda>_. 0) s t)" by (auto elim: post_mono)
  then show ?thesis unfolding kexit_def Let_def
    by (intro post_if post_Panic_I post_obind) (auto elim!: post_mono split: option.splits intro!: post_rules intro: fin')
qed

end
