(* ===== verification/Sysfile_Claims.thy ===== *)
theory Sysfile_Claims
  imports Sysfile_Calls2
begin

text \<open>Reading and writing keep all references; from all calls together, the counts are right after every sequence of calls.\<close>

section \<open>Loops that copy\<close>

lemma read_loop_mem:
  assumes I: "\<And>dst bs m r m'. out dst bs m = Ret r m' \<Longrightarrow> I m \<Longrightarrow> I m'"
  shows "Fs.read_loop out k dst off rem tot sm = Ret r sm' \<Longrightarrow> I (snd sm) \<Longrightarrow> I (snd sm')"
proof (induction rem arbitrary: dst off tot sm rule: less_induct)
  case (less rem)
  note IH = less.IH [OF chunk_less]
  from less.prems show ?case
    by (subst (asm) Fs.read_loop.simps) (auto simp: obind_eq_Ret on_fs_Ret on_mem_Ret Let_def split: if_splits elim!: IH [rotated] dest: I)
qed

lemma write_loop_mem:
  assumes I: "\<And>src n m r m'. inp src n m = Ret r m' \<Longrightarrow> I m \<Longrightarrow> I m'"
  shows "write_loop inp k src off rem tot sm = Ret r sm' \<Longrightarrow> I (snd sm) \<Longrightarrow> I (snd sm')"
proof (induction rem arbitrary: src off tot sm rule: less_induct)
  case (less rem)
  note IH = less.IH [OF chunk_less]
  from less.prems show ?case
    by (subst (asm) write_loop.simps) (auto simp: obind_eq_Ret on_fs_Ret on_mem_Ret Let_def split: if_splits prod.splits elim!: IH [rotated] dest: I)
qed

lemma consoleread_mem:
  assumes I: "\<And>dst bs m r m'. out dst bs m = Ret r m' \<Longrightarrow> I m \<Longrightarrow> I m'"
  shows "consoleread kl out dst n target cm = Ret r cm' \<Longrightarrow> I (snd cm) \<Longrightarrow> I (snd cm')"
proof (induction "nat n" arbitrary: n dst cm rule: less_induct)
  case less
  have IH: "0 < n \<Longrightarrow> consoleread kl out (dst + 1) (n - 1) target (c, m) = Ret r cm' \<Longrightarrow> I m \<Longrightarrow> I (snd cm')" for c m
    using less.hyps [of "n - 1" "dst + 1" "(c, m)"] by simp
  from less.prems show ?case
    by (subst (asm) consoleread.simps) (auto simp: Let_def split: if_splits outcome.splits dest: I IH)
qed

lemma consolewrite_mem:
  assumes I: "\<And>src n m r m'. inp src n m = Ret r m' \<Longrightarrow> I m \<Longrightarrow> I m'"
  shows "consolewrite inp src n i tm = Ret r tm' \<Longrightarrow> I (snd tm) \<Longrightarrow> I (snd tm')"
proof (induction "nat (n - i)" arbitrary: i tm rule: less_induct)
  case less
  have IH: "i < n \<Longrightarrow> consolewrite inp src n (i + min 32 (n - i)) (t, m) = Ret r tm' \<Longrightarrow> I m \<Longrightarrow> I (snd tm')" for t m
    using less.hyps [of "i + min 32 (n - i)" "(t, m)"] by simp
  from less.prems show ?case
    by (subst (asm) consolewrite.simps) (auto simp: Let_def split: if_splits outcome.splits; metis I IH)
qed

definition km_of :: "kernel \<Rightarrow> kernel \<Rightarrow> bool" where
  "km_of k k' \<longleftrightarrow> (\<exists>m. k' = k\<lparr>km := m\<rparr>)"

lemma km_of_refl [simp]: "km_of k k"
  unfolding km_of_def by (rule km_same)

lemma km_of_step: "km_only f \<Longrightarrow> f k' = Ret r k'' \<Longrightarrow> km_of k k' \<Longrightarrow> km_of k k''"
  by (force simp: km_of_def dest: km_onlyD)

lemma sink_step: "user_sink i dst bs m = Ret r m' \<Longrightarrow> km_of k m \<Longrightarrow> km_of k m'"
  using km_of_step [OF km_copy(1) [of i True dst bs]] by (simp add: user_sink_def)

lemma source_step: "user_source i src n m = Ret r m' \<Longrightarrow> km_of k m \<Longrightarrow> km_of k m'"
  using km_of_step [OF km_copy(2) [of i True src n]] by (simp add: user_source_def)

lemma readi_user:
  assumes "readi (user_sink i) ip dst off n (d, k) = Ret r (d', k')"
  shows "same_hold d d' \<and> km_of k k'"
  using readi_hold [OF assms] assms read_loop_mem [of "user_sink i" "km_of k" ip dst off _ 0 "(d, k)" r "(d', k')"] sink_step
  by (auto simp: readi_def Let_def split: if_splits)

lemma writei_user:
  assumes "writei (user_source i) ip src off n (d, k) = Ret r (d', k')"
  shows "same_hold d d' \<and> km_of k k'"
proof -
  have "km_of k k'" if "write_loop (user_source i) ip src off n 0 (d, k) = Ret q (e, k')" for q e
    using write_loop_mem [of "user_source i" "km_of k", OF _ that] source_step by auto
  then show ?thesis using writei_hold [OF assms] assms by (auto simp: writei_def Let_def obind_eq_Ret split: if_splits prod.splits)
qed

section \<open>Reading and writing\<close>

lemma neutral_both: "same_hold (disk s) d \<Longrightarrow> km_of (kn s) k \<Longrightarrow> neutral s (s\<lparr>disk := d, kn := k\<rparr>)"
  by (auto simp: neutral_def same_hold_def km_of_def rest_def books_def)

lemma post_readi [post_rules]: "(\<And>r s'. neutral s s' \<Longrightarrow> Q r s') \<Longrightarrow> post (on_both (readi (user_sink i) ip a off n) s) Q"
  by (auto simp: post_def on_both_def split: outcome.splits prod.splits dest!: readi_user intro: neutral_both)

lemma post_writei [post_rules]: "(\<And>r s'. neutral s s' \<Longrightarrow> Q r s') \<Longrightarrow> post (on_both (writei (user_source i) ip a off n) s) Q"
  by (auto simp: post_def on_both_def split: outcome.splits prod.splits dest!: writei_user intro: neutral_both)

lemma neutral_advance: "neutral s (advance f r s)"
  by (auto simp: advance_def neutral_def rest_def books_set_file) (auto simp: books_def)

lemma neutral_from_psys: "neutral s (from_psys i pi q s)"
  by (simp add: neutral_def rest_def)

lemma post_on_pipe [post_rules]: "(\<And>r s'. neutral s s' \<Longrightarrow> Q r s') \<Longrightarrow> post (on_pipe i pi f s) Q"
  by (auto simp: post_def on_pipe_def split: outcome.splits intro: neutral_from_psys)

lemma neutral_unlock:
  assumes "\<not> locks (disk s) k" "refs (disk t) = refs (disk s)" "locks (disk t) = (locks (disk s))(k := True)" "rest t = rest s" "neutral t u"
    "refs (disk v) = refs (disk (advance f r u))" "locks (disk v) = (locks (disk (advance f r u)))(k := False)" "rest v = rest (advance f r u)"
  shows "neutral s v"
  using assms neutral_advance [of u f r] by (auto simp: neutral_def hold_simps)

lemma neutral_written:
  assumes "\<not> locks (disk (op_begin s)) k" "refs (disk t) = refs (disk (op_begin s))" "locks (disk t) = (locks (disk (op_begin s)))(k := True)" "rest t = rest (op_begin s)" "neutral t u"
    "refs (disk v) = refs (disk (advance f r u))" "locks (disk v) = (locks (disk (advance f r u)))(k := False)" "rest v = rest (advance f r u)"
  shows "neutral (op_begin s) v"
  by (rule neutral_unlock [OF assms])

lemma console_read_neutral: "post (console_read i a n s) (\<lambda>_ s'. neutral s s')"
proof (unfold post_def, intro allI impI)
  fix r s'
  assume "console_read i a n s = Ret r s'"
  then obtain q c k where k: "consoleread (killed i (kn s)) (user_sink i) a n n (con s, kn s) = Ret q (c, k)" "s' = s\<lparr>con := c, kn := k\<rparr>"
    by (auto simp: console_read_def split: outcome.splits prod.splits)
  from consoleread_mem [of "user_sink i" "km_of (kn s)", OF _ k(1)] sink_step have "km_of (kn s) k" by auto
  then show "neutral s s'" using k(2) by (auto simp: km_of_def neutral_def rest_def books_def)
qed

lemma console_write_neutral: "post (console_write i a n s) (\<lambda>_ s'. neutral s s')"
proof (unfold post_def, intro allI impI)
  fix r s'
  assume "console_write i a n s = Ret r s'"
  then obtain q t k where k: "consolewrite (user_source i) a n 0 (tty s, kn s) = Ret q (t, k)" "s' = s\<lparr>tty := t, kn := k\<rparr>"
    by (auto simp: console_write_def split: outcome.splits prod.splits)
  from consolewrite_mem [of "user_source i" "km_of (kn s)", OF _ k(1)] source_step have "km_of (kn s) k" by auto
  then show "neutral s s'" using k(2) by (auto simp: km_of_def neutral_def rest_def books_def)
qed

lemma fileread_neutral: "post (fileread devices i f a n s) (\<lambda>_ s'. neutral s s')"
proof -
  have d: "post (case dev_read devices m of None \<Rightarrow> Ret (PDone (-1)) s | Some rd \<Rightarrow> rd i a n s) (\<lambda>_ s'. neutral s s')" for m
    using console_read_neutral by (simp add: devices_def consoleinit_def)
  have n: "post (obind (on_disk (ilock ip) s) (\<lambda>_ s. obind (on_both (readi (user_sink i) ip a off m) s) (\<lambda>r s. obind (on_disk (iunlock ip) (advance f r s)) (\<lambda>_ s. Ret (PDone r) s)))) (\<lambda>_ s'. neutral s s')" for ip off m
    by (intro post_rules) (blast intro: neutral_unlock)
  show ?thesis using d n by (cases "ftype (ftab s f)") (auto simp: fileread_def Let_def intro!: post_on_pipe)
qed

lemma filewrite_loop_neutral: "post (filewrite_loop i f a n d s) (\<lambda>_ s'. neutral s s')"
proof (induction "nat (n - d)" arbitrary: d s rule: less_induct)
  case less
  have step: "post (if r \<noteq> n1 then Ret (-1) (op_end v) else filewrite_loop i f a n (d + r) (op_end v)) (\<lambda>_ s'. neutral s s')"
    if v: "neutral (op_begin s) v" and n1: "n1 = min (n - d) FILEWRITE_MAX" and d: "d < n" for v r n1
  proof -
    have "nat (n - (d + n1)) < nat (n - d)" using n1 d by (auto simp: FILEWRITE_MAX_def FS_BSIZE_def)
    from less.hyps [OF this, of "op_end v"] neutral_end [OF v] show ?thesis by (auto intro: post_neutral_mono)
  qed
  show ?case
    apply (subst filewrite_loop.simps, unfold Let_def, rule post_if)
    subgoal by (intro post_obind post_ilock post_writei post_iunlock) (rule step [OF neutral_written refl])
    subgoal by simp
    done
qed

lemma filewrite_neutral: "post (filewrite devices i f a n s) (\<lambda>_ s'. neutral s s')"
proof -
  have d: "post (case dev_write devices m of None \<Rightarrow> Ret (PDone (-1)) s | Some wr \<Rightarrow> wr i a n s) (\<lambda>_ s'. neutral s s')" for m
    using console_write_neutral by (simp add: devices_def consoleinit_def)
  have n: "post (obind (filewrite_loop i f a n 0 s) (\<lambda>r s. Ret (PDone r) s)) (\<lambda>_ s'. neutral s s')"
    by (rule post_obind) (use filewrite_loop_neutral in simp)
  show ?thesis using d n by (cases "ftype (ftab s f)") (auto simp: filewrite_def Let_def intro!: post_on_pipe)
qed

lemma sys_read_neutral: "post (sys_read devices i s) (\<lambda>_ s'. neutral s s')"
  unfolding sys_read_def by (intro post_rules) (blast intro: neutral_trans post_neutral_mono fileread_neutral)+

lemma sys_write_neutral: "post (sys_write devices i s) (\<lambda>_ s'. neutral s s')"
  unfolding sys_write_def by (intro post_rules) (blast intro: neutral_trans post_neutral_mono filewrite_neutral)+


section \<open>Sequences of calls\<close>

text \<open>A file system call of process \<open>i\<close>, or its exit, that returns.\<close>

inductive file_call :: "nat \<Rightarrow> osys \<Rightarrow> osys \<Rightarrow> bool" where
  "sys_dup i s = Ret r s' \<Longrightarrow> file_call i s s'"
| "sys_read devices i s = Ret q s' \<Longrightarrow> file_call i s s'"
| "sys_write devices i s = Ret q s' \<Longrightarrow> file_call i s s'"
| "sys_close i s = Ret r s' \<Longrightarrow> file_call i s s'"
| "sys_fstat pad i s = Ret r s' \<Longrightarrow> file_call i s s'"
| "sys_link i s = Ret r s' \<Longrightarrow> file_call i s s'"
| "sys_unlink i s = Ret r s' \<Longrightarrow> file_call i s s'"
| "sys_open i s = Ret r s' \<Longrightarrow> file_call i s s'"
| "sys_mkdir i s = Ret r s' \<Longrightarrow> file_call i s s'"
| "sys_mknod i s = Ret r s' \<Longrightarrow> file_call i s s'"
| "sys_chdir i s = Ret r s' \<Longrightarrow> file_call i s s'"
| "sys_pipe i s = Ret r s' \<Longrightarrow> file_call i s s'"
| "kexit i st s = Ret u s' \<Longrightarrow> file_call i s s'"

inductive file_calls :: "osys \<Rightarrow> osys \<Rightarrow> bool" where
  refl: "file_calls s s"
| step: "file_calls s t \<Longrightarrow> i < NPROC \<Longrightarrow> file_call i t u \<Longrightarrow> file_calls s u"

lemma postD: "post m Q \<Longrightarrow> m = Ret a s \<Longrightarrow> Q a s"
  by (simp add: post_def)

lemmas call_keeps = sys_dup_keeps sys_close_keeps sys_open_keeps sys_chdir_keeps sys_pipe_keeps kexit_keeps
lemmas call_neutral = sys_read_neutral sys_write_neutral sys_fstat_neutral sys_link_neutral sys_unlink_neutral sys_mkdir_neutral sys_mknod_neutral

lemma file_call_keeps:
  assumes "file_call i s s'" "i < NPROC" and a: "accounts (\<lambda>_. 0) (\<lambda>_. 0) s"
  shows "keeps s s'"
  using assms(1)
  by cases (blast dest: postD [OF call_neutral(1)] postD [OF call_neutral(2)] postD [OF call_neutral(3)] postD [OF call_neutral(4)] postD [OF call_neutral(5)]
      postD [OF call_neutral(6)] postD [OF call_neutral(7)] intro: neutral_keeps [OF a] call_keeps [OF a assms(2), THEN postD])+

lemma file_calls_keep: "file_calls s s' \<Longrightarrow> accounts (\<lambda>_. 0) (\<lambda>_. 0) s \<Longrightarrow> keeps s s'"
proof (induction rule: file_calls.induct)
  case (step s t i u)
  then show ?case using file_call_keeps [of i t u] by (auto simp: keeps_def intro: unlocked_same_trans)
qed (simp add: keeps_def)

lemma accounts_iff:
  "accounts (\<lambda>_. 0) (\<lambda>_. 0) s \<longleftrightarrow> (\<forall>k. iref (itable (disk s) k) = held (books s) k) \<and> (\<forall>f. frefs (kn s) f = fds (books s) f) \<and>
     (\<forall>f. frefs (kn s) f = 0 \<longrightarrow> ftype (ftab s f) = FD_NONE) \<and> (\<forall>f. 0 < frefs (kn s) f \<longrightarrow> f < NFILE)"
  by (simp add: accounts_def books_def acc.simps refs_def)

text \<open>A state with one process in the root directory that has one open file.\<close>

definition os0 :: osys where
  "os0 = \<lparr>kn = \<lparr>ptab = (\<lambda>p. \<lparr>pstate = UNUSED, wchan = NoChan, pkilled = False, xstate = 0, pid = 0, parent = None, kstack = 0, sz = 0, pagetable = 0, trapframe = 0, ctx_ra = 0, ctx_sp = 0,
            ofile = (if p = 0 then [0 \<mapsto> 0] else Map.empty), cwd = (if p = 0 then Some 0 else None), pname = [], stracing = False, countp = 0, priority = 0, nice_lv = 0, pmmap = 0, has_mmap = False\<rparr>),
          km = \<lparr>pmem = (\<lambda>_. 0), freelist = 0, ref_count = (\<lambda>_. 0)\<rparr>, nextpid = 2, initproc = None, frefs = (\<lambda>f. if f = 0 then 1 else 0), irefs = (\<lambda>_. 0)\<rparr>,
     disk = \<lparr>blocks = (\<lambda>_ _. 0), sb = \<lparr>sb_magic = FSMAGIC, sb_size = 8, sb_nblocks = 3, sb_ninodes = 16, sb_nlog = 0, sb_logstart = 2, sb_inodestart = 2, sb_bmapstart = 4\<rparr>,
          itable = (\<lambda>k. \<lparr>idev = 1, inum = 1, iref = (if k = 0 then 2 else 0), ilocked = False, ivalid = True, itype = T_DIR, imajor = 0, iminor = 0, nlink = 1, isize = 0, addrs = (\<lambda>_. 0)\<rparr>)\<rparr>,
     ftab = (\<lambda>f. \<lparr>ftype = (if f = 0 then FD_INODE else FD_NONE), freadable = True, fwritable = False, fpipe = 0, fip = 0, foff = 0, fmajor = 0\<rparr>),
     pipes = (\<lambda>_. \<lparr>pdata = (\<lambda>_. 0), nread = 0, nwrite = 0, readopen = False, writeopen = False\<rparr>), ops = 0, con = \<lparr>cbuf = (\<lambda>_. 0), cr = 0, cw = 0, ce = 0\<rparr>, tty = []\<rparr>"


lemma os0_accounts: "accounts (\<lambda>_. 0) (\<lambda>_. 0) os0"
proof -
  have o: "(\<Sum>x<n. of_bool (x = 0 \<and> P)) = (of_bool P :: int)" if "0 < n" for n :: nat and P
    using sum_change [OF that, of "\<lambda>x. of_bool (x = 0 \<and> P)" "\<lambda>_. 0"] by simp
  have n: "0 < NFILE" "0 < NPROC" "0 < NOFILE" by (simp_all add: NFILE_def NPROC_def NOFILE_def)
  have h: "held (books os0) k = of_bool (0 = k) + of_bool (0 = k)" for k
  proof -
    have "(\<Sum>f<NFILE. of_bool (0 < frefs (kn os0) f \<and> on_inode (ftype (ftab os0 f), fip (ftab os0 f)) k)) = (\<Sum>f<NFILE. of_bool (f = 0 \<and> 0 = k) :: int)"
      by (rule sum.cong) (auto simp: os0_def on_inode_def)
    moreover have "(\<Sum>p<NPROC. of_bool (cwd (ptab (kn os0) p) = Some k)) = (\<Sum>p<NPROC. of_bool (p = 0 \<and> 0 = k) :: int)"
      by (rule sum.cong) (auto simp: os0_def)
    ultimately show ?thesis using o n by (simp add: books_def held.simps)
  qed
  have d: "fds (books os0) f = of_bool (0 = f)" for f
  proof -
    have "(\<Sum>fd<NOFILE. of_bool (ofile (ptab (kn os0) p) fd = Some f)) = (of_bool (p = 0 \<and> 0 = f) :: int)" for p
    proof -
      have "(\<Sum>fd<NOFILE. of_bool (ofile (ptab (kn os0) p) fd = Some f)) = (\<Sum>fd<NOFILE. of_bool (fd = 0 \<and> p = 0 \<and> 0 = f) :: int)"
        by (rule sum.cong) (auto simp: os0_def)
      then show ?thesis using o n by simp
    qed
    then show ?thesis using o n by (simp add: books_def fds.simps)
  qed
  show ?thesis unfolding accounts_iff using h d n by (auto simp: os0_def)
qed

text \<open>C37. References are counted right over every sequence of file system calls and exits, on all their paths, errors included: the count of every inode is the number of open files and current directories that point at it,
  the count of every open file the number of descriptors that do, and no call leaves an inode locked or a log operation open.\<close>

theorem references_counted:
  assumes "file_calls s s'" and "\<forall>k. iref (itable (disk s) k) = held (books s) k" and "\<forall>f. frefs (kn s) f = fds (books s) f"
    and "\<forall>f. frefs (kn s) f = 0 \<longrightarrow> ftype (ftab s f) = FD_NONE" and "\<forall>f. 0 < frefs (kn s) f \<longrightarrow> f < NFILE"
  shows "(\<forall>k. iref (itable (disk s') k) = held (books s') k \<and> ilocked (itable (disk s') k) = ilocked (itable (disk s) k)) \<and> (\<forall>f. frefs (kn s') f = fds (books s') f) \<and> ops s' = ops s"
proof -
  have "accounts (\<lambda>_. 0) (\<lambda>_. 0) s" using assms(2-5) by (simp add: accounts_iff)
  from file_calls_keep [OF assms(1) this] have "accounts (\<lambda>_. 0) (\<lambda>_. 0) s'" "locks (disk s') = locks (disk s)" "ops s' = ops s" by (simp_all add: keeps_def unlocked_same_def)
  then show ?thesis by (simp add: accounts_iff locks_def fun_eq_iff)
qed

text \<open>After \<open>dup\<close> of its open file the process has two descriptors of it.\<close>

theorem references_counted_witness:
  "\<exists>s'. sys_dup 0 os0 = Ret 1 s' \<and> frefs (kn s') 0 = 2 \<and> fds (books s') 0 = 2 \<and> held (books s') 0 = 2"
proof -
  define u where "u = set_ofile 0 1 (Some 0) os0"
  define s' where "s' = set_fref 0 2 u"
  have o: "ofile (ptab (kn os0) 0) = [0 \<mapsto> 0]" "frefs (kn u) 0 = 1" by (simp_all add: os0_def u_def set_ofile_def upd_def)
  have "argint 0 0 (kn os0) = Ret 0 (kn os0)" by (simp add: argint_def argraw_def reg_def to_int_def os0_def numeral_eq_Suc)
  then have "argfd 0 0 os0 = Ret (Some (0, 0)) os0" by (simp add: argfd_def on_kern_def NOFILE_def o)
  moreover have "fdalloc 0 0 os0 = (Some 1, u)" by (simp add: fdalloc_def o NOFILE_def upt_rec u_def)
  moreover have "on_kern (filedup 0) u = Ret 0 s'" by (simp add: on_kern_def filedup_def set_fref_def o s'_def)
  ultimately have r: "sys_dup 0 os0 = Ret 1 s'" by (simp add: sys_dup_def)
  have "file_calls os0 s'" by (rule file_calls.step [OF file_calls.refl, of 0]) (use r in \<open>auto intro: file_call.intros simp: NPROC_def\<close>)
  from references_counted [OF this] os0_accounts
  have "iref (itable (disk s') 0) = held (books s') 0" "frefs (kn s') 0 = fds (books s') 0" unfolding accounts_iff by blast+
  moreover have "frefs (kn s') 0 = 2" "iref (itable (disk s') 0) = 2" by (simp_all add: s'_def u_def set_fref_def set_ofile_def os0_def)
  ultimately show ?thesis using r by auto
qed

end
