(* ===== verification/Exec_Props.thy ===== *)
theory Exec_Props
  imports Sysfile_Claims
begin

text \<open>
  What \<open>exec\<close> does to locks, references and log operations: nothing for a program, but each script on the way leaves its inode locked and referenced and its operation open. From the locks, that a chain of scripts is finite.
\<close>

section \<open>Loading a program\<close>

lemma phys_step: "phys_sink i dst bs m = Ret r m' \<Longrightarrow> km_of k m \<Longrightarrow> km_of k m'"
  using km_of_step [OF km_copy(1) [of i False dst bs]] by (simp add: phys_sink_def)

lemma readi_phys:
  assumes "readi (phys_sink i) ip dst off n (d, k) = Ret r (d', k')"
  shows "same_hold d d' \<and> km_of k k'"
  using readi_hold [OF assms] assms read_loop_mem [of "phys_sink i" "km_of k" ip dst off _ 0 "(d, k)" r "(d', k')"] phys_step
  by (auto simp: readi_def Let_def split: if_splits)

lemma post_readi_phys [post_rules]: "(\<And>r s'. neutral s s' \<Longrightarrow> Q r s') \<Longrightarrow> post (on_both (readi (phys_sink i) ip a off n) s) Q"
  by (auto simp: post_def on_both_def split: outcome.splits prod.splits dest!: readi_phys intro: neutral_both)

lemma post_readk [post_rules]: "(\<And>r s'. neutral s s' \<Longrightarrow> Q r s') \<Longrightarrow> post (on_disk (readk k off n) s) Q"
  by (rule post_quiet) (auto simp: neutral_def dest: readk_hold)

lemma loadseg_neutral: "post (loadseg i pt va ip offset segsz d s) (\<lambda>_ s'. neutral s s')"
proof (induction "segsz - d" arbitrary: d s rule: less_induct)
  case less
  have IH: "d < segsz \<Longrightarrow> post (loadseg i pt va ip offset segsz (d + PGSIZE) t) (\<lambda>_ s'. neutral t s')" for t
    using less.hyps [of "d + PGSIZE" t] by (simp add: PGSIZE_def)
  show ?case
    apply (subst loadseg.simps, unfold Let_def, rule post_if)
    subgoal by (intro post_obind post_mem_op post_readi_phys post_if post_Panic_I post_Ret_I) (blast intro: neutral_trans post_neutral_mono IH)+
    subgoal by simp
    done
qed

lemma load_segments_neutral: "post (load_segments i pt ip off isz cnt s) (\<lambda>_ s'. neutral s s')"
proof (induction cnt arbitrary: off isz s)
  case (Suc cnt)
  have l: "post (loadseg i pt va ip o' z 0 t) (\<lambda>r s'. post (if r < 0 then Ret (sz1, False) s' else load_segments i pt ip o'' sz1 cnt s') (\<lambda>_ s'. neutral s s'))" if "neutral s t" for va o' o'' z sz1 t
    by (rule post_mono [OF loadseg_neutral]) (use that Suc.IH in \<open>auto intro: neutral_trans post_neutral_mono\<close>)
  show ?case unfolding load_segments.simps Let_def
    by (intro post_rules) (blast intro: neutral_trans post_neutral_mono Suc.IH l)+
qed simp

lemma push_args_neutral: "post (push_args i pt base args sp us s) (\<lambda>_ s'. neutral s s')"
proof (induction args arbitrary: sp us s)
  case (Cons a args)
  show ?case unfolding push_args.simps Let_def by (intro post_rules) (blast intro: neutral_trans post_neutral_mono Cons.IH neutral_refl)+
qed simp

lemma post_push_args [post_rules]: "(\<And>r s'. neutral s s' \<Longrightarrow> Q r s') \<Longrightarrow> post (push_args i pt base args sp us s) Q"
  by (rule post_mono [OF push_args_neutral])

lemma exec_bad_neutral: "post (exec_bad pt isz s) (\<lambda>_ s'. neutral s s')"
  unfolding exec_bad_def by (intro post_rules)

lemma neutral_upd: "(\<And>p. ofile (g p) = ofile p \<and> cwd (g p) = cwd p) \<Longrightarrow> neutral s (s\<lparr>kn := upd i g (kn s)\<rparr>)"
  using upd_books [of g i "kn s"] by (simp add: neutral_def rest_def books_def)

lemma neutral_set_reg: "neutral s (s\<lparr>kn := set_reg off i v (kn s)\<rparr>)"
  by (simp add: neutral_def rest_def books_def set_reg_def)


lemma rest_set_reg: "rest (s\<lparr>kn := set_reg off i v k\<rparr>) = rest (s\<lparr>kn := k\<rparr>)"
  by (simp add: rest_def books_def set_reg_def)

lemma rest_upd: "(\<And>p. ofile (g p) = ofile p \<and> cwd (g p) = cwd p) \<Longrightarrow> rest (s\<lparr>kn := upd i g k\<rparr>) = rest (s\<lparr>kn := k\<rparr>)"
  using upd_books [of g i k] by (simp add: rest_def books_def)

lemma exec_commit_neutral: "post (exec_commit i path argv entry pt isz s) (\<lambda>_ s'. neutral s s')"
proof -
  have bad: "post (exec_bad pt z t) (\<lambda>_ s'. neutral s s')" if "refs (disk t) = refs (disk s)" "locks (disk t) = locks (disk s)" "rest t = rest s" for z t
    by (rule post_neutral_mono [OF _ exec_bad_neutral]) (simp add: that neutral_def)
  show ?thesis unfolding exec_commit_def Let_def
    by (intro post_rules) (auto intro!: bad [unfolded neutral_def] simp: neutral_def rest_set_reg rest_upd)
qed

section \<open>Locks and operations\<close>

text \<open>After the file was closed: the lock is free, the reference and the operation given back.\<close>

definition closed :: "nat \<Rightarrow> osys \<Rightarrow> osys \<Rightarrow> bool" where
  "closed ip s s' \<longleftrightarrow> refs (disk s') = (\<lambda>x. refs (disk s) x - one ip x) \<and> locks (disk s') = (locks (disk s))(ip := False) \<and> rest s' = (fst (rest s) - 1, snd (rest s))"

lemma closed_neutral: "neutral s t \<Longrightarrow> closed ip t u \<Longrightarrow> closed ip s u" "closed ip s t \<Longrightarrow> neutral t u \<Longrightarrow> closed ip s u"
  by (simp_all add: closed_def neutral_def)

lemma close_bad_closed: "neutral s t \<Longrightarrow> post (close_bad ip t) (\<lambda>_ s'. closed ip s s')"
  unfolding close_bad_def by (intro post_rules) (auto simp: closed_def neutral_def)

lemma exec_elf_closed: "post (exec_elf tr i path argv ip s) (\<lambda>_ s'. closed ip s s')"
proof -
  have fail: "post (exec_bad pt isz u) (\<lambda>_ s'. post (close_bad ip s') (\<lambda>_ s'. closed ip s s'))" if "neutral s u" for pt isz u
    by (rule post_mono [OF exec_bad_neutral]) (rule close_bad_closed, rule neutral_trans [OF that])
  have ok: "post (exec_commit i path argv e pt isz (op_end v)) (\<lambda>_ s'. closed ip s s')"
    if "neutral s u" "refs (disk v) = (\<lambda>x. refs (disk u) x - one ip x)" "locks (disk v) = (locks (disk u))(ip := False)" "rest v = rest u" for e pt isz u v
    by (rule post_mono [OF exec_commit_neutral]) (rule closed_neutral(2), use that in \<open>auto simp: closed_def neutral_def\<close>)
  have seg: "post (load_segments i pt ip off 0 n t) (\<lambda>r s'. post ((case r of (isz, ok) \<Rightarrow> \<lambda>s. if \<not> ok then obind (exec_bad pt isz s) (\<lambda>_ s. close_bad ip s)
      else obind (on_disk (iunlockput ip) s) (\<lambda>_ s. exec_commit i path argv e pt isz (op_end s))) s') (\<lambda>_ s'. closed ip s s'))" if "neutral s t" for pt off n t e
    by (rule post_mono [OF load_segments_neutral]) (intro post_rules, auto intro: fail ok neutral_trans [OF that])
  show ?thesis unfolding exec_elf_def Let_def
    by (intro post_rules) (blast intro: close_bad_closed seg neutral_trans)+
qed


section \<open>Scripts\<close>

text \<open>The inodes \<open>ks\<close> stay locked, each with one more reference and one operation open.\<close>

definition left_held :: "nat list \<Rightarrow> osys \<Rightarrow> osys \<Rightarrow> bool" where
  "left_held ks s s' \<longleftrightarrow> distinct ks \<and> (\<forall>k\<in>set ks. \<not> locks (disk s) k) \<and> locks (disk s') = (\<lambda>k. locks (disk s) k \<or> k \<in> set ks) \<and>
     refs (disk s') = (\<lambda>x. refs (disk s) x + sum_list (map (\<lambda>k. one k x) ks)) \<and> rest s' = (fst (rest s) + int (length ks), snd (rest s))"

definition starts_script :: "nat \<Rightarrow> byte list \<Rightarrow> osys \<Rightarrow> bool" where
  "starts_script i path s \<longleftrightarrow> (\<exists>ip s1 s2 s3. proc_namei i path (op_begin s) = Ret (Some ip) s1 \<and> on_disk (ilock ip) s1 = Ret () s2 \<and> on_disk (readk ip 0 2) s2 = Ret (2, [35, 33]) s3)"

lemma read_interp_neutral: "post (read_interp ip off n s) (\<lambda>_ s'. neutral s s')"
proof (induction n arbitrary: off s)
  case (Suc n)
  have r: "post (read_interp ip (off + 1) n t) (\<lambda>cs s'. post (Ret (c # cs) s') (\<lambda>_ s'. neutral s s'))" if "neutral s t" for t c
    by (rule post_mono [OF Suc.IH]) (use that in \<open>auto intro: neutral_trans\<close>)
  show ?case unfolding read_interp.simps by (intro post_rules) (blast intro: r neutral_trans)+
qed simp

text \<open>The state when the first two bytes of the file have been read.\<close>

lemma exec_opened:
  assumes "proc_namei i path (op_begin s) = Ret (Some ip) s1" "on_disk (ilock ip) s1 = Ret u s2" "on_disk (readk ip 0 2) s2 = Ret q s3"
  shows "\<not> locks (disk s) ip \<and> locks (disk s3) = (locks (disk s))(ip := True) \<and> refs (disk s3) = (\<lambda>x. refs (disk s) x + one ip x) \<and> rest s3 = (fst (rest s) + 1, snd (rest s))"
proof -
  have "post (proc_namei i path (op_begin s)) (\<lambda>r t. refs (disk t) = (\<lambda>x. refs (disk s) x + (case r of None \<Rightarrow> 0 | Some k \<Rightarrow> one k x)) \<and> locks (disk t) = locks (disk s) \<and> rest t = (fst (rest s) + 1, snd (rest s)))"
    by (rule post_proc_namei) simp
  moreover have "post (on_disk (ilock ip) s1) (\<lambda>_ t. \<not> locks (disk s1) ip \<and> refs (disk t) = refs (disk s1) \<and> locks (disk t) = (locks (disk s1))(ip := True) \<and> rest t = rest s1)"
    by (rule post_ilock) simp
  moreover have "post (on_disk (readk ip 0 2) s2) (\<lambda>_ t. neutral s2 t)" by (rule post_readk)
  ultimately show ?thesis using assms by (auto simp: post_def neutral_def)
qed

lemma closed_left:
  assumes "\<not> locks (disk s) ip" "locks (disk s3) = (locks (disk s))(ip := True)" "refs (disk s3) = (\<lambda>x. refs (disk s) x + one ip x)" "rest s3 = (fst (rest s) + 1, snd (rest s))" "closed ip s3 s'"
  shows "left_held [] s s'"
  using assms by (auto simp: left_held_def closed_def hold_simps)

lemma script_left:
  assumes "\<not> locks (disk s) ip" "locks (disk s3) = (locks (disk s))(ip := True)" "refs (disk s3) = (\<lambda>x. refs (disk s) x + one ip x)" "rest s3 = (fst (rest s) + 1, snd (rest s))"
    "neutral s3 s4" "left_held ks s4 s'"
  shows "left_held (ip # ks) s s'"
  using assms by (auto simp: left_held_def neutral_def fun_eq_iff) metis

lemma kexec_left: "kexec fuel tr i path argv s = Ret r s' \<Longrightarrow> \<exists>ks. left_held ks s s' \<and> (ks \<noteq> [] \<longleftrightarrow> starts_script i path s)"
proof (induction fuel arbitrary: path argv s)
  case (Suc fuel)
  obtain q s1 where n: "proc_namei i path (op_begin s) = Ret q s1" using Suc.prems by (auto simp: obind_eq_Ret)
  show ?case
  proof (cases q)
    case None
    have "post (proc_namei i path (op_begin s)) (\<lambda>r t. refs (disk t) = (\<lambda>x. refs (disk s) x + (case r of None \<Rightarrow> 0 | Some k \<Rightarrow> one k x)) \<and> locks (disk t) = locks (disk s) \<and> rest t = (fst (rest s) + 1, snd (rest s)))"
      by (rule post_proc_namei) simp
    then have "left_held [] s s'" using n None Suc.prems by (auto simp: post_def left_held_def)
    moreover have "\<not> starts_script i path s" using n None by (simp add: starts_script_def)
    ultimately show ?thesis by blast
  next
    case (Some ip)
    then obtain u s2 r2 bs s3 where l: "on_disk (ilock ip) s1 = Ret u s2" "on_disk (readk ip 0 2) s2 = Ret (r2, bs) s3" using n Suc.prems by (auto simp: obind_eq_Ret)
    note O = exec_opened [OF n [unfolded Some] l]
    have sc: "starts_script i path s \<longleftrightarrow> r2 = 2 \<and> bs = [35, 33]" using n Some l by (auto simp: starts_script_def)
    show ?thesis
    proof (cases "r2 = 2 \<and> bs = [35, 33]")
      case True
      then obtain interp s4 where k: "read_interp ip 2 (MAXARG - 1) s3 = Ret interp s4"
          "kexec fuel tr i (takeWhile (\<lambda>c. c \<noteq> 0) interp) (script_args (takeWhile (\<lambda>c. c \<noteq> 0) interp) path argv) s4 = Ret r s'"
        using Suc.prems n Some l by (auto simp: obind_eq_Ret Let_def)
      from Suc.IH [OF k(2)] obtain ks where "left_held ks s4 s'" by blast
      with script_left [of s ip s3 s4 ks s'] O postD [OF read_interp_neutral k(1)] have "left_held (ip # ks) s s'" by blast
      then show ?thesis using sc True by blast
    next
      case False
      then have "(if r2 \<noteq> 2 then close_bad ip s3 else exec_elf tr i path argv ip s3) = Ret r s'" using Suc.prems n Some l by (auto split: if_splits)
      then have "closed ip s3 s'" using postD [OF close_bad_closed [OF neutral_refl]] postD [OF exec_elf_closed] by (auto split: if_splits)
      then show ?thesis using closed_left [of s ip s3 s'] O sc False by blast
    qed
  qed
qed simp

section \<open>Fuel\<close>

definition free_inodes :: "osys \<Rightarrow> nat" where
  "free_inodes s = card {k. k < NINODE \<and> \<not> locks (disk s) k}"

lemma free_less:
  assumes "ip < NINODE" "\<not> locks (disk s) ip" "locks (disk t) = (locks (disk s))(ip := True)"
  shows "free_inodes t < free_inodes s"
  unfolding free_inodes_def by (rule psubset_card_mono) (use assms in auto)

lemma proc_namei_lt:
  assumes "proc_namei i path s = Ret (Some ip) s'" "\<forall>c. cwd (ptab (kn s) i) = Some c \<longrightarrow> c < NINODE"
  shows "ip < NINODE"
proof -
  have "0 < NINODE" by (simp add: NINODE_def)
  then show ?thesis using assms by (auto simp: proc_namei_def on_disk_def split: option.splits outcome.splits if_splits dest!: namei_hold)
qed

lemma kexec_more_fuel:
  "free_inodes s < fuel \<Longrightarrow> \<forall>c. cwd (ptab (kn s) i) = Some c \<longrightarrow> c < NINODE \<Longrightarrow> kexec (fuel + n) tr i path argv s = kexec fuel tr i path argv s"
proof (induction fuel arbitrary: path argv s)
  case (Suc fuel)
  have deep: "kexec (fuel + n) tr i p a s4 = kexec fuel tr i p a s4"
    if k: "proc_namei i path (op_begin s) = Ret (Some ip) s1" "on_disk (ilock ip) s1 = Ret u s2" "on_disk (readk ip 0 2) s2 = Ret q s3" "read_interp ip 2 m s3 = Ret interp s4" for ip s1 u s2 q s3 m interp s4 p a
  proof (rule Suc.IH)
    note O = exec_opened [OF k(1-3)] and R = postD [OF read_interp_neutral k(4)]
    have "ip < NINODE" by (rule proc_namei_lt [OF k(1)]) (use Suc.prems(2) in \<open>simp add: op_begin_def\<close>)
    then have "free_inodes s4 < free_inodes s" using free_less [of ip s s4] O R by (simp add: neutral_def)
    then show "free_inodes s4 < fuel" using Suc.prems(1) by simp
    have "books s4 = books s" using O R by (simp add: neutral_def rest_def)
    then show "\<forall>c. cwd (ptab (kn s4) i) = Some c \<longrightarrow> c < NINODE" using books_proc [of s4 s i] Suc.prems(2) by simp
  qed
  show ?case
  proof (cases "proc_namei i path (op_begin s)")
    case (Ret q s1)
    note n = Ret
    show ?thesis
    proof (cases q)
      case (Some ip)
      show ?thesis
      proof (cases "on_disk (ilock ip) s1")
        case (Ret u s2)
        note l = Ret
        show ?thesis
        proof (cases "on_disk (readk ip 0 2) s2")
          case (Ret rb s3)
          then show ?thesis using n Some l deep by (cases "read_interp ip 2 (MAXARG - 1) s3"; cases rb) (auto simp: Let_def)
        qed (simp_all add: n Some l)
      qed (simp_all add: n Some)
    qed (simp add: n)
  qed simp_all
qed simp

end
