(* ===== verification/Exec_Claims.thy ===== *)
theory Exec_Claims
  imports Exec_Props
begin

text \<open>What \<open>exec\<close> promises and where it does not keep it, with a small state that holds a script.\<close>

section \<open>Chains of scripts\<close>

text \<open>One call of \<open>kexec\<close> by itself: from a path, arguments and state to those of the inner call.\<close>

fun script_step :: "nat \<Rightarrow> byte list \<times> byte list list \<times> osys \<Rightarrow> byte list \<times> byte list list \<times> osys \<Rightarrow> bool" where
  "script_step i (path, argv, s) (interp, args, t) \<longleftrightarrow>
     (\<exists>ip s1 s2 s3 cs. proc_namei i path (op_begin s) = Ret (Some ip) s1 \<and> on_disk (ilock ip) s1 = Ret () s2 \<and> on_disk (readk ip 0 2) s2 = Ret (2, [35, 33]) s3 \<and>
        read_interp ip 2 (MAXARG - 1) s3 = Ret cs t \<and> interp = takeWhile (\<lambda>c. c \<noteq> 0) cs \<and> args = script_args interp path argv)"

definition cwd_ok :: "nat \<Rightarrow> osys \<Rightarrow> bool" where
  "cwd_ok i s \<longleftrightarrow> (\<forall>c. cwd (ptab (kn s) i) = Some c \<longrightarrow> c < NINODE)"

lemma script_step_free:
  assumes "script_step i (p, a, s) (p', a', t)" "cwd_ok i s"
  shows "free_inodes t < free_inodes s \<and> cwd_ok i t"
proof -
  obtain ip s1 s2 s3 cs where k: "proc_namei i p (op_begin s) = Ret (Some ip) s1" "on_disk (ilock ip) s1 = Ret () s2" "on_disk (readk ip 0 2) s2 = Ret (2, [35, 33]) s3"
      "read_interp ip 2 (MAXARG - 1) s3 = Ret cs t" using assms(1) by auto
  note O = exec_opened [OF k(1-3)] and R = postD [OF read_interp_neutral k(4)]
  have "ip < NINODE" by (rule proc_namei_lt [OF k(1)]) (use assms(2) in \<open>simp add: op_begin_def cwd_ok_def\<close>)
  then have "free_inodes t < free_inodes s" using free_less [of ip s t] O R by (simp add: neutral_def)
  moreover have "books t = books s" using O R by (simp add: neutral_def rest_def)
  ultimately show ?thesis using books_proc [of t s i] assms(2) by (simp add: cwd_ok_def)
qed

lemma script_chain_free: "(script_step i ^^ n) x y \<Longrightarrow> cwd_ok i (snd (snd x)) \<Longrightarrow> n + free_inodes (snd (snd y)) \<le> free_inodes (snd (snd x))"
proof (induction n arbitrary: x)
  case (Suc n)
  then obtain z where z: "script_step i x z" "(script_step i ^^ n) z y" by (metis relpowp_Suc_D2)
  have "free_inodes (snd (snd z)) < free_inodes (snd (snd x)) \<and> cwd_ok i (snd (snd z))"
    using z(1) Suc.prems(2) script_step_free [of i "fst x" "fst (snd x)" "snd (snd x)" "fst z" "fst (snd z)" "snd (snd z)"] by simp
  then show ?case using Suc.IH [OF z(2)] by simp
qed simp

lemma free_le: "free_inodes s \<le> NINODE"
proof -
  have "free_inodes s \<le> card {..<NINODE}" unfolding free_inodes_def by (rule card_mono) auto
  then show ?thesis by simp
qed

text \<open>C36. Scripts that name scripts as their interpreters come to an end: \<open>kexec\<close> calls itself at most as often as the inode table has entries, whatever the files hold, so the depth of recursion given to the model is enough.\<close>

theorem script_chain_ends:
  assumes "cwd_ok i s"
  shows "(\<forall>n y. (script_step i ^^ n) (path, argv, s) y \<longrightarrow> n \<le> NINODE) \<and> (\<forall>m. kexec (NINODE + 1 + m) tr i path argv s = kexec (NINODE + 1) tr i path argv s)"
proof -
  have "n \<le> NINODE" if "(script_step i ^^ n) (path, argv, s) y" for n y using script_chain_free [OF that] assms free_le [of s] by simp
  moreover have "kexec (NINODE + 1 + m) tr i path argv s = kexec (NINODE + 1) tr i path argv s" for m
    using kexec_more_fuel [of s "NINODE + 1" i m tr path argv] assms free_le [of s] by (simp add: cwd_ok_def)
  ultimately show ?thesis by blast
qed


section \<open>A script\<close>

text \<open>The process is in a directory entry whose inode is a script of three characters, \<open>#!/\<close>; inode 1 of the table is the root, an empty directory.\<close>

definition disk1 :: fs where
  "disk1 = (disk os0)\<lparr>blocks := (\<lambda>b x. if b = 5 then (if x = 0 then 35 else if x = 1 then 33 else if x = 2 then 47 else 0) else 0),
     itable := (\<lambda>k. \<lparr>idev = 1, inum = (if k = 0 then 2 else 1), iref = (if k < 2 then 1 else 0), ilocked = False, ivalid = True, itype = (if k = 0 then T_FILE else T_DIR), imajor = 0, iminor = 0, nlink = 1,
        isize = (if k = 0 then 3 else 0), addrs = (\<lambda>n. if k = 0 \<and> n = 0 then 5 else 0)\<rparr>)\<rparr>"

definition os1 :: osys where
  "os1 = os0\<lparr>disk := disk1\<rparr>"


lemma readk_script:
  assumes "isize (itable d 0) = 3" "addrs (itable d 0) 0 = 5" "blocks d = blocks disk1"
  shows "readk 0 0 2 d = Ret (2, [35, 33]) d" "readk 0 2 1 d = Ret (1, [47]) d" "readk 0 3 1 d = Ret (0, []) d"
proof -
  have b: "bmap 0 0 d = Ret 5 d" using assms(2) by (simp add: bmap_def NDIRECT_def)
  have e: "Fs.read_loop kernel_sink 0 dst off 0 tot sm = Ret (int tot) sm" for dst off tot and sm :: "fs \<times> byte list" by (subst Fs.read_loop.simps) simp
  have u: "[0..<2 :: nat] = [0, 1]" by (simp add: upt_rec)
  have "Fs.read_loop kernel_sink 0 0 0 2 0 (d, []) = Ret 2 (d, [35, 33])"
    by (subst Fs.read_loop.simps) (simp add: on_fs_def on_mem_def b kernel_sink_def block_bytes_def assms(3) disk1_def FS_BSIZE_def Let_def e u)
  then show "readk 0 0 2 d = Ret (2, [35, 33]) d" by (simp add: readk_def readi_def Let_def assms(1))
  have "Fs.read_loop kernel_sink 0 0 2 1 0 (d, []) = Ret 1 (d, [47])"
    by (subst Fs.read_loop.simps) (simp add: on_fs_def on_mem_def b kernel_sink_def block_bytes_def assms(3) disk1_def FS_BSIZE_def Let_def e)
  then show "readk 0 2 1 d = Ret (1, [47]) d" by (simp add: readk_def readi_def Let_def assms(1))
  show "readk 0 3 1 d = Ret (0, []) d" by (simp add: readk_def readi_def Let_def assms(1) e)
qed

lemma readk_empty: "isize (itable d k) = 0 \<Longrightarrow> readk k 0 2 d = Ret (0, []) d"
  by (simp add: readk_def readi_def Let_def) (subst Fs.read_loop.simps, simp)

lemma root_found: "find (\<lambda>k. 0 < iref (itable (set_inode 0 f disk1) k) \<and> idev (itable (set_inode 0 f disk1) k) = FS_ROOTDEV \<and> inum (itable (set_inode 0 f disk1) k) = ROOTINO) [0..<NINODE] = Some 1"
    if "inum (f (itable disk1 0)) = 2"
proof -
  have "[0..<NINODE] = 0 # 1 # [2..<NINODE]" by (simp add: NINODE_def upt_rec)
  then show ?thesis using that by (simp add: set_inode_def disk1_def FS_ROOTDEV_def ROOTINO_def)
qed

lemma script_namei: "proc_namei 0 [] (op_begin os1) = Ret (Some 0) ((op_begin os1)\<lparr>disk := set_inode 0 (\<lambda>ip. ip\<lparr>iref := 2\<rparr>) disk1\<rparr>)"
proof -
  have "namei 0 [] disk1 = Ret (Some 0) (fs_idup 0 disk1)" by (simp add: namei_def namex_def) (subst namex_loop.simps, simp add: skipelem_def)
  moreover have "fs_idup 0 disk1 = set_inode 0 (\<lambda>ip. ip\<lparr>iref := 2\<rparr>) disk1" by (simp add: fs_idup_def set_inode_def disk1_def)
  moreover have "cwd (ptab (kn (op_begin os1)) 0) = Some 0" "disk (op_begin os1) = disk1" by (simp_all add: op_begin_def os1_def os0_def)
  ultimately show ?thesis by (simp add: proc_namei_def on_disk_def)
qed

definition disk2 :: fs where
  "disk2 = set_inode 0 (\<lambda>ip. ip\<lparr>iref := 2, ilocked := True\<rparr>) disk1"

lemma script_lock: "ilock 0 (set_inode 0 (\<lambda>ip. ip\<lparr>iref := 2\<rparr>) disk1) = Ret () disk2"
  by (simp add: ilock_def Let_def disk2_def set_inode_def disk1_def)

lemma disk2_script: "isize (itable disk2 0) = 3" "addrs (itable disk2 0) 0 = 5" "blocks disk2 = blocks disk1"
  by (simp_all add: disk2_def set_inode_def disk1_def)

lemma script_interp: "read_interp 0 2 (MAXARG - 1) (s\<lparr>disk := disk2\<rparr>) = Ret [47] (s\<lparr>disk := disk2\<rparr>)"
proof -
  have m: "MAXARG - 1 = Suc (Suc 29)" by (simp add: MAXARG_def)
  have r: "on_disk (readk 0 2 1) (s\<lparr>disk := disk2\<rparr>) = Ret (1, [47]) (s\<lparr>disk := disk2\<rparr>)" "on_disk (readk 0 3 1) (s\<lparr>disk := disk2\<rparr>) = Ret (0, []) (s\<lparr>disk := disk2\<rparr>)"
    using readk_script(2,3) [OF disk2_script] by (simp_all add: on_disk_def)
  show ?thesis unfolding m read_interp.simps by (simp add: r [simplified] numeral_3_eq_3 [symmetric])
qed

text \<open>The inner call finds the root, which is too short to be a program.\<close>

definition disk3 :: fs where
  "disk3 = set_inode 1 (\<lambda>ip. ip\<lparr>iref := 2\<rparr>) disk2"

lemma root_namei: "cwd (ptab (kn s) 0) = Some 0 \<Longrightarrow> disk s = disk2 \<Longrightarrow> proc_namei 0 [47] s = Ret (Some 1) (s\<lparr>disk := disk3\<rparr>)"
proof -
  assume c: "cwd (ptab (kn s) 0) = Some 0" "disk s = disk2"
  have "iget FS_ROOTDEV ROOTINO disk2 = Ret 1 disk3"
    using root_found [of "\<lambda>ip. ip\<lparr>iref := 2, ilocked := True\<rparr>"] by (simp add: iget_def disk2_def disk3_def) (simp add: disk1_def set_inode_def)
  moreover have "namex_loop False [47] 1 [] disk3 = Ret (Some (1, [])) disk3" by (subst namex_loop.simps) (simp add: skipelem_def)
  ultimately show ?thesis using c by (simp add: proc_namei_def on_disk_def namei_def namex_def)
qed

lemma op_undo: "op_end (op_begin s\<lparr>disk := d\<rparr>) = s\<lparr>disk := d\<rparr>"
  by (cases s) (simp add: op_end_def op_begin_def)

lemma root_exec: "cwd (ptab (kn s) 0) = Some 0 \<Longrightarrow> disk s = disk2 \<Longrightarrow> \<exists>d. kexec (Suc fuel) tr 0 [47] args s = Ret (-1) (s\<lparr>disk := d\<rparr>)"
proof -
  assume c: "cwd (ptab (kn s) 0) = Some 0" "disk s = disk2"
  define d where "d = set_inode 1 (\<lambda>ip. ip\<lparr>ilocked := True\<rparr>) disk3"
  have n: "proc_namei 0 [47] (op_begin s) = Ret (Some 1) (op_begin s\<lparr>disk := disk3\<rparr>)"
    using root_namei [of "op_begin s"] c by (simp add: op_begin_def)
  have l: "ilock 1 disk3 = Ret () d" by (simp add: ilock_def Let_def d_def disk3_def disk2_def disk1_def set_inode_def)
  have r: "readk 1 0 2 d = Ret (0, []) d" by (rule readk_empty) (simp add: d_def disk3_def disk2_def disk1_def set_inode_def)
  have "iunlockput 1 d = Ret () (set_inode 1 (\<lambda>ip. ip\<lparr>iref := 1\<rparr>) (set_inode 1 (\<lambda>ip. ip\<lparr>ilocked := False\<rparr>) d))"
    by (simp add: iunlockput_def iunlock_def iput_def d_def disk3_def disk2_def disk1_def set_inode_def)
  then show ?thesis using n l r by (auto simp: on_disk_def close_bad_def op_undo)
qed

lemma os1_exec: "\<exists>d. kexec (Suc (Suc fuel)) tr 0 [] args os1 = Ret (-1) (op_begin os1\<lparr>disk := d\<rparr>)"
proof -
  have c: "cwd (ptab (kn (op_begin os1)) 0) = Some 0" by (simp add: op_begin_def os1_def os0_def)
  have "on_disk (readk 0 0 2) (op_begin os1\<lparr>disk := disk2\<rparr>) = Ret (2, [35, 33]) (op_begin os1\<lparr>disk := disk2\<rparr>)" using readk_script(1) [OF disk2_script] by (simp add: on_disk_def)
  then have "kexec (Suc (Suc fuel)) tr 0 [] args os1 = kexec (Suc fuel) tr 0 [47] (script_args [47] [] args) (op_begin os1\<lparr>disk := disk2\<rparr>)"
    using script_namei script_lock script_interp [of "op_begin os1"] by (simp add: on_disk_def Let_def del: kexec.simps(2) add: kexec.simps(2) [of "Suc fuel"])
  moreover have "cwd (ptab (kn (op_begin os1\<lparr>disk := disk2\<rparr>)) 0) = Some 0" "disk (op_begin os1\<lparr>disk := disk2\<rparr>) = disk2" using c by simp_all
  from root_exec [OF this] obtain d where "kexec (Suc fuel) tr 0 [47] (script_args [47] [] args) (op_begin os1\<lparr>disk := disk2\<rparr>) = Ret (-1) (op_begin os1\<lparr>disk := disk2, disk := d\<rparr>)" by blast
  ultimately show ?thesis by auto
qed


text \<open>Running the script gives the same result with a deeper recursion allowed.\<close>

theorem script_chain_ends_witness: "\<exists>s'. kexec (NINODE + 1 + 7) 0 0 [] [] os1 = Ret (-1) s'"
proof -
  have "cwd_ok 0 os1" by (simp add: cwd_ok_def os1_def os0_def NINODE_def)
  from script_chain_ends [OF this, of "[]" "[]" 0] have "kexec (NINODE + 1 + 7) 0 0 [] [] os1 = kexec (NINODE + 1) 0 0 [] [] os1" by blast
  moreover have "NINODE + 1 = Suc (Suc 49)" by (simp add: NINODE_def)
  ultimately show ?thesis using os1_exec [of 49 0 "[]"] by metis
qed

end
