(* ===== verification/Virtio.thy ===== *)
theory Virtio
  imports Kalloc
begin

text \<open>
  The disk driver, \<^verbatim>\<open>kernel/virtio_disk.c\<close>. \<open>vdisk\<close> has the queues shared with the device, the driver's own book-keeping, the fields of buffers the driver uses, where each caller of
  \<open>virtio_disk_rw\<close> stands, and what belongs to the device. A pointer handed to the device is one of the three objects the driver points at. Sections under \<open>vdisk_lock\<close> are one step:
  a caller runs up to the next \<open>sleep\<close>.

  The device is not part of the sources. What it does is the parameter of \<open>vstep\<close>, a relation of states, and \<open>device_ok\<close> says what its documentation promises: it takes published chains from the ring in order, serves the chains
  it has taken in any order, and for a chain of the documented form does the transfer, sets the status to zero and enters the chain in the used ring. For any other chain it may do anything.
\<close>

section \<open>The queues\<close>

definition NUM :: nat where "NUM = 8"
definition VRING_DESC_F_NEXT :: "16 word" where "VRING_DESC_F_NEXT = 1"
definition VRING_DESC_F_WRITE :: "16 word" where "VRING_DESC_F_WRITE = 2"
definition VIRTIO_BLK_T_IN :: "32 word" where "VIRTIO_BLK_T_IN = 0"
definition VIRTIO_BLK_T_OUT :: "32 word" where "VIRTIO_BLK_T_OUT = 1"
definition VBSIZE :: nat where "VBSIZE = 1024"

datatype vptr = PNull | POps nat | PData nat | PStatus nat

record virtq_desc =
  d_addr :: vptr
  d_len :: "32 word"
  d_flags :: "16 word"
  d_next :: "16 word"

record virtio_blk_req =
  r_type :: "32 word"
  r_reserved :: "32 word"
  r_sector :: "64 word"

text \<open>Where a caller of \<open>virtio_disk_rw\<close> stands: not in it, in the loop that waits for descriptors, or in the loop that waits for the buffer \<open>b\<close>, with \<open>idx[0]\<close>; the last component says that it sleeps there.\<close>

datatype caller = Idle | AtFree nat bool bool | AtDone nat bool nat bool

record vdisk =
  desc :: "nat \<Rightarrow> virtq_desc"
  avail_idx :: "16 word"
  avail_ring :: "nat \<Rightarrow> 16 word"
  uidx :: "16 word"
  used_ring :: "nat \<Rightarrow> 32 word"
  dfree :: "nat \<Rightarrow> bool"
  used_idx :: "16 word"
  info_b :: "nat \<Rightarrow> nat option"
  info_status :: "nat \<Rightarrow> byte"
  ops :: "nat \<Rightarrow> virtio_blk_req"
  b_disk :: "nat \<Rightarrow> bool"
  b_blockno :: "nat \<Rightarrow> 32 word"
  b_data :: "nat \<Rightarrow> nat \<Rightarrow> byte"
  callers :: "nat \<Rightarrow> caller"
  platter :: "nat \<Rightarrow> byte"
  dlast :: "16 word"
  dpend :: "nat list"

section \<open>Sleeping and waking\<close>

text \<open>\<open>wakeup(&disk.free[0])\<close> and \<open>wakeup(b)\<close>.\<close>

definition wakeup_free :: "vdisk \<Rightarrow> vdisk" where
  "wakeup_free s = s\<lparr>callers := (\<lambda>k. case callers s k of AtFree b w _ \<Rightarrow> AtFree b w False | c \<Rightarrow> c)\<rparr>"

definition wakeup_buf :: "nat \<Rightarrow> vdisk \<Rightarrow> vdisk" where
  "wakeup_buf b s = s\<lparr>callers := (\<lambda>k. case callers s k of AtDone b' w h z \<Rightarrow> AtDone b' w h (z \<and> b' \<noteq> b) | c \<Rightarrow> c)\<rparr>"

section \<open>Descriptors\<close>

definition alloc_desc :: "vdisk \<Rightarrow> nat option \<times> vdisk" where
  "alloc_desc s =
     (case find (dfree s) [0..<NUM] of None \<Rightarrow> (None, s)
      | Some i \<Rightarrow> (Some i, s\<lparr>dfree := (dfree s)(i := False)\<rparr>))"

definition null_desc :: virtq_desc where
  "null_desc = \<lparr>d_addr = PNull, d_len = 0, d_flags = 0, d_next = 0\<rparr>"

definition free_desc :: "nat \<Rightarrow> vdisk \<Rightarrow> (vdisk, unit) outcome" where
  "free_desc i s =
     (if i \<ge> NUM then Panic ''free_desc 1''
      else if dfree s i then Panic ''free_desc 2''
      else Ret () (wakeup_free (s\<lparr>desc := (desc s)(i := null_desc), dfree := (dfree s)(i := True)\<rparr>)))"

lemma free_desc_Ret: "free_desc i s = Ret u t \<longleftrightarrow> i < NUM \<and> \<not> dfree s i \<and> t = wakeup_free (s\<lparr>desc := (desc s)(i := null_desc), dfree := (dfree s)(i := True)\<rparr>)"
  by (auto simp: free_desc_def)

lemma wakeup_free_fields [simp]:
  "dfree (wakeup_free s) = dfree s" "desc (wakeup_free s) = desc s" "ops (wakeup_free s) = ops s" "b_disk (wakeup_free s) = b_disk s"
  "avail_idx (wakeup_free s) = avail_idx s" "avail_ring (wakeup_free s) = avail_ring s" "uidx (wakeup_free s) = uidx s"
  "used_ring (wakeup_free s) = used_ring s" "used_idx (wakeup_free s) = used_idx s" "info_b (wakeup_free s) = info_b s"
  "info_status (wakeup_free s) = info_status s" "b_blockno (wakeup_free s) = b_blockno s" "b_data (wakeup_free s) = b_data s"
  "platter (wakeup_free s) = platter s" "dlast (wakeup_free s) = dlast s" "dpend (wakeup_free s) = dpend s"
  by (simp_all add: wakeup_free_def)

lemma taken_decreases:
  assumes "i < NUM" "\<not> f i"
  shows "length (filter (\<lambda>j. \<not> (f(i := True)) j) [0..<NUM]) < length (filter (\<lambda>j. \<not> f j) [0..<NUM])"
proof -
  have "filter (\<lambda>j. \<not> (f(i := True)) j) [0..<NUM] = filter (\<lambda>j. j \<noteq> i) (filter (\<lambda>j. \<not> f j) [0..<NUM])"
    unfolding filter_filter by (rule filter_cong) auto
  also have "length \<dots> < length (filter (\<lambda>j. \<not> f j) [0..<NUM])"
    by (rule length_filter_less [of i]) (use assms in auto)
  finally show ?thesis .
qed

text \<open>The loop of \<open>free_chain\<close> ends because a descriptor that is met again is free, and \<open>free_desc\<close> panics.\<close>

function free_chain :: "nat \<Rightarrow> vdisk \<Rightarrow> (vdisk, unit) outcome" where
  "free_chain i s =
     (let flag = d_flags (desc s i); nxt = unat (d_next (desc s i))
      in case free_desc i s of
           Ret _ s \<Rightarrow> if flag AND VRING_DESC_F_NEXT \<noteq> 0 then free_chain nxt s else Ret () s
         | Panic e \<Rightarrow> Panic e | Sleep c s \<Rightarrow> Sleep c s | Diverge \<Rightarrow> Diverge)"
  by auto
termination
  by (relation "measure (\<lambda>(i, s). length (filter (\<lambda>j. \<not> dfree s j) [0..<NUM]))") (use taken_decreases in \<open>auto simp: free_desc_Ret simp del: fun_upd_apply\<close>)

declare free_chain.simps [simp del]

fun free_descs :: "nat list \<Rightarrow> vdisk \<Rightarrow> (vdisk, unit) outcome" where
  "free_descs [] s = Ret () s"
| "free_descs (i # is) s = obind (free_desc i s) (\<lambda>_ s. free_descs is s)"

fun alloc_loop :: "nat \<Rightarrow> nat list \<Rightarrow> vdisk \<Rightarrow> (vdisk, nat list option) outcome" where
  "alloc_loop 0 idx s = Ret (Some idx) s"
| "alloc_loop (Suc n) idx s =
     (case alloc_desc s of
        (None, s) \<Rightarrow> obind (free_descs idx s) (\<lambda>_ s. Ret None s)
      | (Some i, s) \<Rightarrow> alloc_loop n (idx @ [i]) s)"

definition alloc3_desc :: "vdisk \<Rightarrow> (vdisk, nat list option) outcome" where
  "alloc3_desc s = alloc_loop 3 [] s"

section \<open>A request\<close>

definition set_desc :: "nat \<Rightarrow> virtq_desc \<Rightarrow> vdisk \<Rightarrow> vdisk" where
  "set_desc i d s = s\<lparr>desc := (desc s)(i := d)\<rparr>"

text \<open>From the descriptors to the notification of the device.\<close>

definition submit :: "nat \<Rightarrow> bool \<Rightarrow> nat \<Rightarrow> nat \<Rightarrow> nat \<Rightarrow> vdisk \<Rightarrow> vdisk" where
  "submit b write i0 i1 i2 s =
     (let sector = ucast (b_blockno s b * word_of_nat (VBSIZE div 512));
          s = s\<lparr>ops := (ops s)(i0 := \<lparr>r_type = (if write then VIRTIO_BLK_T_OUT else VIRTIO_BLK_T_IN), r_reserved = 0, r_sector = sector\<rparr>)\<rparr>;
          s = set_desc i0 \<lparr>d_addr = POps i0, d_len = 16, d_flags = VRING_DESC_F_NEXT, d_next = word_of_nat i1\<rparr> s;
          s = set_desc i1 \<lparr>d_addr = PData b, d_len = word_of_nat VBSIZE,
                d_flags = (if write then 0 else VRING_DESC_F_WRITE) OR VRING_DESC_F_NEXT, d_next = word_of_nat i2\<rparr> s;
          s = s\<lparr>info_status := (info_status s)(i0 := 0xff)\<rparr>;
          s = set_desc i2 \<lparr>d_addr = PStatus i0, d_len = 1, d_flags = VRING_DESC_F_WRITE, d_next = 0\<rparr> s;
          s = s\<lparr>b_disk := (b_disk s)(b := True), info_b := (info_b s)(i0 := Some b)\<rparr>;
          s = s\<lparr>avail_ring := (avail_ring s)(unat (avail_idx s) mod NUM := word_of_nat i0)\<rparr>
      in s\<lparr>avail_idx := avail_idx s + 1\<rparr>)"

definition set_caller :: "nat \<Rightarrow> caller \<Rightarrow> vdisk \<Rightarrow> vdisk" where
  "set_caller k c s = s\<lparr>callers := (callers s)(k := c)\<rparr>"

text \<open>Entering \<open>virtio_disk_rw\<close>, and what a caller does when it has the lock and runs: it goes round the loop it is in.\<close>

definition rw_enter :: "nat \<Rightarrow> nat \<Rightarrow> bool \<Rightarrow> vdisk \<Rightarrow> vdisk" where
  "rw_enter k b write s = set_caller k (AtFree b write False) s"

definition rw_finish :: "nat \<Rightarrow> nat \<Rightarrow> vdisk \<Rightarrow> (vdisk, unit) outcome" where
  "rw_finish k i0 s = obind (free_chain i0 (s\<lparr>info_b := (info_b s)(i0 := None)\<rparr>)) (\<lambda>_ s. Ret () (set_caller k Idle s))"

definition virtio_disk_rw :: "nat \<Rightarrow> vdisk \<Rightarrow> (vdisk, unit) outcome" where
  "virtio_disk_rw k s =
     (case callers s k of
        AtFree b write False \<Rightarrow>
          obind (alloc3_desc s) (\<lambda>r s.
            case r of None \<Rightarrow> Ret () (set_caller k (AtFree b write True) s)
            | Some idx \<Rightarrow>
                let s = submit b write (idx ! 0) (idx ! 1) (idx ! 2) s
                in if b_disk s b then Ret () (set_caller k (AtDone b write (idx ! 0) True) s) else rw_finish k (idx ! 0) s)
      | AtDone b write i0 False \<Rightarrow>
          if b_disk s b then Ret () (set_caller k (AtDone b write i0 True) s) else rw_finish k i0 s
      | _ \<Rightarrow> Ret () s)"

section \<open>The interrupt\<close>

definition ack :: "nat \<Rightarrow> vdisk \<Rightarrow> (vdisk, unit) outcome" where
  "ack i s =
     (if info_status s i \<noteq> 0 then Panic ''virtio_disk_intr status''
      else case info_b s i of None \<Rightarrow> Panic ''kerneltrap''
           | Some b \<Rightarrow> let s = wakeup_buf b (s\<lparr>b_disk := (b_disk s)(b := False)\<rparr>) in Ret () (s\<lparr>used_idx := used_idx s + 1\<rparr>))"

lemma ack_indices: "ack i s = Ret u t \<Longrightarrow> used_idx t = used_idx s + 1 \<and> uidx t = uidx s"
  by (auto simp: ack_def wakeup_buf_def Let_def split: if_splits option.splits)

lemma unat_pred_less: "x \<noteq> (0 :: 16 word) \<Longrightarrow> unat (x - 1) < unat x"
  by (rule measure_unat)

function virtio_disk_intr :: "vdisk \<Rightarrow> (vdisk, unit) outcome" where
  "virtio_disk_intr s =
     (if used_idx s \<noteq> uidx s
      then case ack (unat (used_ring s (unat (used_idx s) mod NUM))) s of
             Ret _ s \<Rightarrow> virtio_disk_intr s | Panic e \<Rightarrow> Panic e | Sleep c s \<Rightarrow> Sleep c s | Diverge \<Rightarrow> Diverge
      else Ret () s)"
  by auto
termination
proof (relation "measure (\<lambda>s. unat (uidx s - used_idx s))")
  fix s u t
  assume h: "used_idx s \<noteq> uidx s" "ack (unat (used_ring s (unat (used_idx s) mod NUM))) s = Ret u t"
  have "unat (uidx s - used_idx s - 1) < unat (uidx s - used_idx s)" using h(1) by (intro unat_pred_less) simp
  then show "(t, s) \<in> measure (\<lambda>s. unat (uidx s - used_idx s))" using ack_indices [OF h(2)] by (simp add: diff_diff_eq)
qed simp

declare virtio_disk_intr.simps [simp del]

section \<open>Initialisation\<close>

text \<open>What the device answers when its registers are read, in the order of the code.\<close>

record mmio =
  m_magic :: "32 word"
  m_version :: "32 word"
  m_device_id :: "32 word"
  m_vendor_id :: "32 word"
  m_features :: "32 word"
  m_status :: "32 word"
  m_ready :: "32 word"
  m_num_max :: "32 word"

definition features_kept :: "32 word \<Rightarrow> 32 word" where
  "features_kept f = f AND NOT (push_bit 5 1) AND NOT (push_bit 7 1) AND NOT (push_bit 11 1) AND NOT (push_bit 12 1)
     AND NOT (push_bit 27 1) AND NOT (push_bit 29 1) AND NOT (push_bit 28 1)"

text \<open>The registers written, as offset and value; then the pages of the queue and the state of the driver.\<close>

definition virtio_disk_init :: "mmio \<Rightarrow> kmem \<Rightarrow> vdisk \<Rightarrow> (kmem \<times> vdisk, (nat \<times> 32 word) list) outcome" where
  "virtio_disk_init r m s =
     (if m_magic r \<noteq> 0x74726976 \<or> m_version r \<noteq> 2 \<or> m_device_id r \<noteq> 2 \<or> m_vendor_id r \<noteq> 0x554d4551
      then Panic ''could not find virtio disk''
      else if m_status r AND 8 = 0 then Panic ''virtio disk FEATURES_OK unset''
      else if m_ready r \<noteq> 0 then Panic ''virtio disk should not be ready''
      else if m_num_max r = 0 then Panic ''virtio disk has no queue 0''
      else if m_num_max r < word_of_nat NUM then Panic ''virtio disk max queue too short''
      else let (dsc, m) = kalloc m; (avl, m) = kalloc m; (usd, m) = kalloc m
           in if dsc = 0 \<or> avl = 0 \<or> usd = 0 then Panic ''virtio disk kalloc''
              else let m = m\<lparr>pmem := memset (memset (memset (pmem m) dsc 0 PGSIZE) avl 0 PGSIZE) usd 0 PGSIZE\<rparr>;
                       s = s\<lparr>desc := (\<lambda>_. null_desc), avail_idx := 0, avail_ring := (\<lambda>_. 0), uidx := 0, used_ring := (\<lambda>_. 0),
                             dfree := (\<lambda>i. if i < NUM then True else dfree s i)\<rparr>
                   in Ret [(0x070, 0), (0x070, 1), (0x070, 3), (0x020, features_kept (m_features r)), (0x070, 11), (0x030, 0),
                           (0x038, word_of_nat NUM), (0x080, word_of_nat dsc), (0x084, word_of_nat (dsc div 2 ^ 32)),
                           (0x090, word_of_nat avl), (0x094, word_of_nat (avl div 2 ^ 32)), (0x0a0, word_of_nat usd), (0x0a4, word_of_nat (usd div 2 ^ 32)),
                           (0x044, 1), (0x070, m_status r OR 4)] (m, s))"

section \<open>What the device promises\<close>

text \<open>A chain of the documented form: header, data, status, with lengths and directions that fit. \<open>parse_chain\<close> gives whether the disk is written, the sector, the buffer, and whose status byte is set.\<close>

definition parse_chain :: "nat \<Rightarrow> vdisk \<Rightarrow> (bool \<times> nat \<times> nat \<times> nat) option" where
  "parse_chain h s =
     (let d0 = desc s h; d1 = desc s (unat (d_next d0)); d2 = desc s (unat (d_next d1))
      in case (d_addr d0, d_addr d1, d_addr d2) of
           (POps q, PData b, PStatus k) \<Rightarrow>
             (let out = (r_type (ops s q) = VIRTIO_BLK_T_OUT)
              in if d_len d0 = 16 \<and> d_flags d0 = VRING_DESC_F_NEXT \<and> (out \<or> r_type (ops s q) = VIRTIO_BLK_T_IN)
                    \<and> d_len d1 = word_of_nat VBSIZE \<and> d_flags d1 = (if out then VRING_DESC_F_NEXT else VRING_DESC_F_NEXT OR VRING_DESC_F_WRITE)
                    \<and> d_len d2 = 1 \<and> d_flags d2 = VRING_DESC_F_WRITE
                 then Some (out, unat (r_sector (ops s q)), b, k) else None)
         | _ \<Rightarrow> None)"

text \<open>The transfer of a block at a byte address of the medium.\<close>

definition transfer :: "bool \<Rightarrow> nat \<Rightarrow> (nat \<Rightarrow> byte) \<Rightarrow> (nat \<Rightarrow> byte) \<Rightarrow> (nat \<Rightarrow> byte) \<times> (nat \<Rightarrow> byte)" where
  "transfer out a medium bytes =
     (if out then (\<lambda>x. if a \<le> x \<and> x < a + VBSIZE then bytes (x - a) else medium x, bytes)
      else (medium, \<lambda>i. if i < VBSIZE then medium (a + i) else bytes i))"

definition dev_fetch :: "vdisk \<Rightarrow> vdisk" where
  "dev_fetch s = s\<lparr>dpend := dpend s @ [unat (avail_ring s (unat (dlast s) mod NUM))], dlast := dlast s + 1\<rparr>"

definition dev_serve :: "nat \<Rightarrow> bool \<Rightarrow> nat \<Rightarrow> nat \<Rightarrow> nat \<Rightarrow> vdisk \<Rightarrow> vdisk" where
  "dev_serve h out sector b k s =
     (let (medium, bytes) = transfer out (512 * sector) (platter s) (b_data s b)
      in s\<lparr>platter := medium, b_data := (b_data s)(b := bytes), info_status := (info_status s)(k := 0),
           used_ring := (used_ring s)(unat (uidx s) mod NUM := word_of_nat h), uidx := uidx s + 1, dpend := remove1 h (dpend s)\<rparr>)"

definition device_ok :: "(vdisk \<Rightarrow> vdisk \<Rightarrow> bool) \<Rightarrow> bool" where
  "device_ok D \<longleftrightarrow>
     (\<forall>s t. D s t \<longrightarrow> (dlast s \<noteq> avail_idx s \<and> t = dev_fetch s) \<or>
        (\<exists>h\<in>set (dpend s). case parse_chain h s of None \<Rightarrow> True | Some (out, sector, b, k) \<Rightarrow> t = dev_serve h out sector b k s))"

section \<open>Runs\<close>

definition uses :: "nat \<Rightarrow> caller \<Rightarrow> bool" where
  "uses b c = (case c of Idle \<Rightarrow> False | AtFree b' _ _ \<Rightarrow> b' = b | AtDone b' _ _ _ \<Rightarrow> b' = b)"

definition in_use :: "vdisk \<Rightarrow> nat \<Rightarrow> bool" where
  "in_use s b \<longleftrightarrow> (\<exists>k. uses b (callers s k))"

text \<open>
  \<open>enter\<close>: a call for a buffer that nobody else is transferring, as its sleep lock sees to, and for a block of the disk. \<open>edit\<close>: the owner of a buffer that is not being transferred changes it. \<open>stir\<close>: a process that is killed
  wakes without reason.
\<close>

inductive vstep :: "(vdisk \<Rightarrow> vdisk \<Rightarrow> bool) \<Rightarrow> vdisk \<Rightarrow> vdisk \<Rightarrow> bool" for D where
  enter: "callers s k = Idle \<Longrightarrow> \<not> in_use s b \<Longrightarrow> unat (b_blockno s b) < 2 ^ 31 \<Longrightarrow> vstep D s (rw_enter k b write s)"
| run: "virtio_disk_rw k s = Ret () t \<Longrightarrow> vstep D s t"
| intr: "virtio_disk_intr s = Ret () t \<Longrightarrow> vstep D s t"
| device: "D s t \<Longrightarrow> vstep D s t"
| edit: "\<not> in_use s b \<Longrightarrow> vstep D s (s\<lparr>b_data := (b_data s)(b := bytes), b_blockno := (b_blockno s)(b := n)\<rparr>)"
| stir_free: "callers s k = AtFree b w z \<Longrightarrow> vstep D s (set_caller k (AtFree b w False) s)"
| stir_done: "callers s k = AtDone b w h z \<Longrightarrow> vstep D s (set_caller k (AtDone b w h False) s)"

text \<open>Before the first call: the static variables of the driver are zero, and the device has taken and finished nothing.\<close>

definition booted :: "vdisk \<Rightarrow> bool" where
  "booted s \<longleftrightarrow> (\<exists>r m s0 w m'. virtio_disk_init r m s0 = Ret w (m', s) \<and> used_idx s0 = 0 \<and> info_b s0 = (\<lambda>_. None)
     \<and> (\<forall>k. callers s0 k = Idle) \<and> dlast s0 = 0 \<and> dpend s0 = [])"

inductive vreach :: "(vdisk \<Rightarrow> vdisk \<Rightarrow> bool) \<Rightarrow> vdisk \<Rightarrow> bool" for D where
  start: "booted s \<Longrightarrow> vreach D s"
| step: "vreach D s \<Longrightarrow> vstep D s t \<Longrightarrow> vreach D t"

section \<open>The specification\<close>

text \<open>A disk as its callers see it: a call is asked, its transfer happens at one moment, then the call returns.\<close>

datatype acall = ANone | AAsked nat bool | AServed nat bool

record adisk =
  a_platter :: "nat \<Rightarrow> byte"
  a_data :: "nat \<Rightarrow> nat \<Rightarrow> byte"
  a_block :: "nat \<Rightarrow> nat"
  a_calls :: "nat \<Rightarrow> acall"

definition a_busy :: "adisk \<Rightarrow> nat \<Rightarrow> bool" where
  "a_busy a b \<longleftrightarrow> (\<exists>k w. a_calls a k = AAsked b w \<or> a_calls a k = AServed b w)"

inductive astep :: "adisk \<Rightarrow> adisk \<Rightarrow> bool" where
  a_ask: "a_calls a k = ANone \<Longrightarrow> \<not> a_busy a b \<Longrightarrow> astep a (a\<lparr>a_calls := (a_calls a)(k := AAsked b w)\<rparr>)"
| a_serve: "a_calls a k = AAsked b w \<Longrightarrow> transfer w (VBSIZE * a_block a b) (a_platter a) (a_data a b) = (medium, bytes) \<Longrightarrow>
    astep a (a\<lparr>a_platter := medium, a_data := (a_data a)(b := bytes), a_calls := (a_calls a)(k := AServed b w)\<rparr>)"
| a_return: "a_calls a k = AServed b w \<Longrightarrow> astep a (a\<lparr>a_calls := (a_calls a)(k := ANone)\<rparr>)"
| a_edit: "\<not> a_busy a b \<Longrightarrow> astep a (a\<lparr>a_data := (a_data a)(b := bytes), a_block := (a_block a)(b := n)\<rparr>)"

text \<open>The entries of a ring between two of its indices.\<close>

definition ring_q :: "(nat \<Rightarrow> 'a) \<Rightarrow> 16 word \<Rightarrow> 16 word \<Rightarrow> 'a list" where
  "ring_q ring src lim = map (\<lambda>j. ring ((unat src + j) mod NUM)) [0..<unat (lim - src)]"

definition avail_q :: "vdisk \<Rightarrow> nat list" where
  "avail_q s = map unat (ring_q (avail_ring s) (dlast s) (avail_idx s))"

definition used_q :: "vdisk \<Rightarrow> nat list" where
  "used_q s = map unat (ring_q (used_ring s) (used_idx s) (uidx s))"

definition abs_call :: "vdisk \<Rightarrow> caller \<Rightarrow> acall" where
  "abs_call s c = (case c of Idle \<Rightarrow> ANone | AtFree b w _ \<Rightarrow> AAsked b w
     | AtDone b w h _ \<Rightarrow> if h \<in> set (avail_q s) \<or> h \<in> set (dpend s) then AAsked b w else AServed b w)"

definition abs_disk :: "vdisk \<Rightarrow> adisk" where
  "abs_disk s = \<lparr>a_platter = platter s, a_data = b_data s, a_block = (\<lambda>b. unat (b_blockno s b)), a_calls = (\<lambda>k. abs_call s (callers s k))\<rparr>"

end
