(* ===== verification/Virtio_Props.thy ===== *)
theory Virtio_Props
  imports Virtio
begin

text \<open>
  The driver under every interleaving of callers, interrupts and the device: \<open>fly\<close> is the requests in flight, and \<open>fly_ok\<close> says that their chains are well formed, do not share descriptors, account for every descriptor
  that is not free, and that each request that is not yet acknowledged is in exactly one place on its way through the queues.
\<close>

section \<open>Rings\<close>

lemma ring_add: "(unat (x + 1 :: 16 word) + j) mod NUM = (unat x + Suc j) mod NUM"
proof -
  have "unat (x + 1) = (unat x + 1) mod 2 ^ 16" by (simp add: unat_word_ariths(1))
  moreover have "(unat x + 1) mod 2 ^ 16 mod 8 = (unat x + 1) mod 8" by (rule mod_mod_cancel) simp
  ultimately show ?thesis by (metis NUM_def add_Suc_right add_Suc_shift plus_1_eq_Suc mod_add_left_eq add.commute)
qed

lemma ring_deq:
  assumes "src \<noteq> lim"
  shows "ring_q ring src lim = ring (unat src mod NUM) # ring_q ring (src + 1) lim"
proof -
  have "lim - src \<noteq> 0" using assms by simp
  then have n: "unat (lim - src) = Suc (unat (lim - (src + 1)))"
    using unat_minus_one [of "lim - src"] unat_gt_0 [of "lim - src"] by (simp add: diff_diff_eq)
  show ?thesis unfolding ring_q_def n upt_conv_Cons [OF zero_less_Suc] list.map map_Suc_upt [symmetric] map_map comp_def ring_add by simp
qed

lemma ring_apart: "j < n \<Longrightarrow> n < 8 \<Longrightarrow> (a + j) mod 8 \<noteq> (a + n) mod (8 :: nat)"
  using mod_eq_dvd_iff_nat [of "a + j" "a + n" 8] by (auto dest: dvd_imp_le)

lemma ring_enq:
  assumes "length (ring_q ring src lim) < NUM"
  shows "ring_q (ring(unat lim mod NUM := x)) src (lim + 1) = ring_q ring src lim @ [x]"
proof -
  let ?n = "unat (lim - src)"
  have n: "?n < 8" using assms by (simp add: ring_q_def NUM_def)
  have "unat (lim - src + 1) = ?n + 1" using n by (simp add: unat_word_ariths(1))
  then have s: "unat (lim + 1 - src) = Suc ?n" by (simp add: algebra_simps)
  have "unat (src + (lim - src)) = (unat src + ?n) mod 2 ^ LENGTH(16)" by (rule unat_word_ariths(1))
  then have "unat lim = (unat src + ?n) mod 2 ^ 16" by simp
  moreover have "(unat src + ?n) mod 2 ^ 16 mod 8 = (unat src + ?n) mod 8" by (rule mod_mod_cancel) simp
  ultimately have u: "unat lim mod NUM = (unat src + ?n) mod NUM" by (simp add: NUM_def)
  have "(unat src + j) mod NUM \<noteq> (unat src + ?n) mod NUM" if "j < ?n" for j
    unfolding NUM_def using that n by (rule ring_apart)
  then show ?thesis by (simp add: ring_q_def s u)
qed

lemma ring_empty: "ring_q ring src lim = [] \<longleftrightarrow> src = lim"
  by (auto simp: ring_q_def unat_eq_0)

section \<open>Requests in flight\<close>

definition fly :: "vdisk \<Rightarrow> nat \<Rightarrow> (nat \<times> bool \<times> nat) option" where
  "fly s k = (case callers s k of AtDone b w h _ \<Rightarrow> Some (b, w, h) | _ \<Rightarrow> None)"

definition chain_of :: "vdisk \<Rightarrow> nat \<Rightarrow> nat list" where
  "chain_of s h = (let i1 = unat (d_next (desc s h)) in [h, i1, unat (d_next (desc s i1))])"

definition req_ok :: "vdisk \<Rightarrow> nat \<Rightarrow> bool \<Rightarrow> nat \<Rightarrow> bool" where
  "req_ok s b w h \<longleftrightarrow>
     (\<exists>i1 i2. distinct [h, i1, i2] \<and> (\<forall>i\<in>{h, i1, i2}. i < NUM \<and> \<not> dfree s i)
       \<and> desc s h = \<lparr>d_addr = POps h, d_len = 16, d_flags = VRING_DESC_F_NEXT, d_next = word_of_nat i1\<rparr>
       \<and> desc s i1 = \<lparr>d_addr = PData b, d_len = word_of_nat VBSIZE, d_flags = (if w then 0 else VRING_DESC_F_WRITE) OR VRING_DESC_F_NEXT, d_next = word_of_nat i2\<rparr>
       \<and> desc s i2 = \<lparr>d_addr = PStatus h, d_len = 1, d_flags = VRING_DESC_F_WRITE, d_next = 0\<rparr>
       \<and> ops s h = \<lparr>r_type = (if w then VIRTIO_BLK_T_OUT else VIRTIO_BLK_T_IN), r_reserved = 0, r_sector = ucast (b_blockno s b * word_of_nat (VBSIZE div 512))\<rparr>
       \<and> info_b s h = Some b)"

definition queued :: "vdisk \<Rightarrow> nat list" where
  "queued s = avail_q s @ dpend s @ used_q s"

definition fly_ok :: "vdisk \<Rightarrow> bool" where
  "fly_ok s \<longleftrightarrow>
     (\<forall>k b w h. fly s k = Some (b, w, h) \<longrightarrow> req_ok s b w h \<and> (b_disk s b \<longleftrightarrow> h \<in> set (queued s)))
     \<and> (\<forall>k b w h k' b' w' h'. fly s k = Some (b, w, h) \<longrightarrow> fly s k' = Some (b', w', h') \<longrightarrow> k \<noteq> k' \<longrightarrow> b \<noteq> b' \<and> set (chain_of s h) \<inter> set (chain_of s h') = {})
     \<and> (\<forall>i<NUM. \<not> dfree s i \<longrightarrow> (\<exists>k b w h. fly s k = Some (b, w, h) \<and> i \<in> set (chain_of s h)))
     \<and> distinct (queued s)
     \<and> (\<forall>h\<in>set (queued s). \<exists>k b w. fly s k = Some (b, w, h))
     \<and> (\<forall>h\<in>set (used_q s). info_status s h = 0)"

definition users_ok :: "vdisk \<Rightarrow> bool" where
  "users_ok s \<longleftrightarrow> (\<forall>k b. uses b (callers s k) \<longrightarrow> unat (b_blockno s b) < 2 ^ 31 \<and> (\<forall>k'. uses b (callers s k') \<longrightarrow> k' = k))"

definition few_free :: "vdisk \<Rightarrow> bool" where
  "few_free s \<longleftrightarrow> card {i. i < NUM \<and> dfree s i} < 3"

definition wake_ok :: "vdisk \<Rightarrow> bool" where
  "wake_ok s \<longleftrightarrow> (\<forall>k b w h. callers s k = AtDone b w h True \<longrightarrow> b_disk s b) \<and> (\<forall>k b w. callers s k = AtFree b w True \<longrightarrow> few_free s)"

definition vinv :: "vdisk \<Rightarrow> bool" where
  "vinv s \<longleftrightarrow> fly_ok s \<and> users_ok s \<and> wake_ok s"

lemma fly_Some: "fly s k = Some (b, w, h) \<longleftrightarrow> (\<exists>z. callers s k = AtDone b w h z)"
  by (auto simp: fly_def split: caller.splits)

lemma small_word [simp]: "i < NUM \<Longrightarrow> unat (word_of_nat i :: 16 word) = i" "i < NUM \<Longrightarrow> unat (word_of_nat i :: 32 word) = i"
  by (simp_all add: NUM_def unsigned_of_nat take_bit_nat_eq_self)

lemma req_chain: "req_ok s b w h \<Longrightarrow> \<exists>i1 i2. chain_of s h = [h, i1, i2] \<and> distinct [h, i1, i2] \<and> (\<forall>i\<in>set (chain_of s h). i < NUM \<and> \<not> dfree s i)"
  by (auto simp: req_ok_def chain_of_def Let_def)

lemma fly_okD:
  assumes "fly_ok s"
  shows "fly s k = Some (b, w, h) \<Longrightarrow> req_ok s b w h"
    "fly s k = Some (b, w, h) \<Longrightarrow> b_disk s b \<longleftrightarrow> h \<in> set (queued s)"
    "fly s k = Some (b, w, h) \<Longrightarrow> fly s k' = Some (b', w', h') \<Longrightarrow> k \<noteq> k' \<Longrightarrow> b \<noteq> b' \<and> set (chain_of s h) \<inter> set (chain_of s h') = {}"
    "i < NUM \<Longrightarrow> \<not> dfree s i \<Longrightarrow> \<exists>k b w h. fly s k = Some (b, w, h) \<and> i \<in> set (chain_of s h)"
    "distinct (queued s)"
    "h \<in> set (queued s) \<Longrightarrow> \<exists>k b w. fly s k = Some (b, w, h)"
    "h \<in> set (used_q s) \<Longrightarrow> info_status s h = 0"
  using assms unfolding fly_ok_def by - (elim conjE; simp; fail | elim conjE; metis)+

lemma chains_bound:
  assumes "fly_ok s" "distinct hs" "\<forall>h\<in>set hs. \<exists>k b w. fly s k = Some (b, w, h)"
  shows "length hs \<le> 2"
proof -
  have one: "\<exists>k b w. fly s k = Some (b, w, h) \<and> req_ok s b w h" if "h \<in> set hs" for h
    using assms(3) that fly_okD(1) [OF assms(1)] by meson
  have apart: "set (chain_of s h) \<inter> set (chain_of s h') = {}" if "h \<in> set hs" "h' \<in> set hs" "h \<noteq> h'" for h h'
    using one [OF that(1)] one [OF that(2)] that(3) fly_okD(3) [OF assms(1)] by (metis option.inject prod.inject)
  have inj: "inj_on (chain_of s) (set hs)" by (rule inj_onI) (simp add: chain_of_def Let_def)
  have "distinct (concat (map (chain_of s) hs))"
  proof (rule distinct_concat)
    show "distinct (map (chain_of s) hs)" using assms(2) inj by (simp add: distinct_map)
    show "distinct ys" if "ys \<in> set (map (chain_of s) hs)" for ys using that one req_chain by fastforce
    show "set ys \<inter> set zs = {}" if "ys \<in> set (map (chain_of s) hs)" "zs \<in> set (map (chain_of s) hs)" "ys \<noteq> zs" for ys zs
      using that apart by auto
  qed
  moreover have "set (concat (map (chain_of s) hs)) \<subseteq> {..<NUM}" using one req_chain by fastforce
  moreover have "length (concat (map (chain_of s) hs)) = 3 * length hs" by (induction hs) (simp_all add: chain_of_def Let_def)
  ultimately have "3 * length hs \<le> NUM" by (metis card_lessThan card_mono distinct_card finite_lessThan)
  then show ?thesis by (simp add: NUM_def)
qed

lemma queue_short: "fly_ok s \<Longrightarrow> length (queued s) \<le> 2"
  using chains_bound [of s "queued s"] by (auto simp: fly_ok_def)


section \<open>Allocating and freeing descriptors\<close>

lemma alloc_desc_spec:
  "alloc_desc s = (None, t) \<Longrightarrow> t = s \<and> (\<forall>i<NUM. \<not> dfree s i)"
  "alloc_desc s = (Some i, t) \<Longrightarrow> i < NUM \<and> dfree s i \<and> t = s\<lparr>dfree := (dfree s)(i := False)\<rparr>"
  by (auto simp: alloc_desc_def find_None_iff find_Some_iff split: option.splits)

lemma wakeup_twice [simp]: "callers (wakeup_free (wakeup_free s)) = callers (wakeup_free s)"
  by (auto simp: wakeup_free_def fun_eq_iff split: caller.splits)

lemma few_freeI: "(\<And>i. i < NUM \<Longrightarrow> dfree s i \<Longrightarrow> i = x \<or> i = y) \<Longrightarrow> few_free s"
proof -
  assume h: "\<And>i. i < NUM \<Longrightarrow> dfree s i \<Longrightarrow> i = x \<or> i = y"
  then have "card {i. i < NUM \<and> dfree s i} \<le> card {x, y}" by (intro card_mono) auto
  also have "\<dots> < 3" by (cases "x = y") auto
  finally show ?thesis by (simp add: few_free_def)
qed

text \<open>What a failed attempt leaves: the same descriptors are free, and at most the waiting callers were woken.\<close>

definition retried :: "vdisk \<Rightarrow> vdisk \<Rightarrow> bool" where
  "retried s t \<longleftrightarrow> t = s\<lparr>desc := desc t, callers := callers t\<rparr> \<and> (\<forall>i. \<not> dfree s i \<longrightarrow> desc t i = desc s i)
     \<and> (callers t = callers s \<or> callers t = callers (wakeup_free s))"

lemma alloc3_cases:
  obtains t where "alloc3_desc s = Ret None t" "few_free s" "retried s t"
  | i0 i1 i2 where "alloc3_desc s = Ret (Some [i0, i1, i2]) (s\<lparr>dfree := (dfree s)(i0 := False, i1 := False, i2 := False)\<rparr>)"
      "distinct [i0, i1, i2]" "\<forall>i\<in>{i0, i1, i2}. i < NUM \<and> dfree s i"
proof (cases "alloc_desc s")
  case (Pair r0 s0)
  note a0 = this
  show ?thesis
  proof (cases r0)
    case None
    then show ?thesis using alloc_desc_spec(1) [of s s0] a0
      by (intro that(1) [of s]) (auto simp: alloc3_desc_def numeral_3_eq_3 retried_def intro: few_freeI)
  next
    case (Some i0)
    then have s0: "i0 < NUM" "dfree s i0" "s0 = s\<lparr>dfree := (dfree s)(i0 := False)\<rparr>" using alloc_desc_spec(2) a0 by auto
    obtain r1 s1 where a1: "alloc_desc s0 = (r1, s1)" by fastforce
    show ?thesis
    proof (cases r1)
      case None
      then have s1: "s1 = s0" "\<forall>i<NUM. \<not> dfree s0 i" using alloc_desc_spec(1) a1 by auto
      let ?t = "wakeup_free (s0\<lparr>desc := (desc s0)(i0 := null_desc), dfree := (dfree s0)(i0 := True)\<rparr>)"
      have "alloc3_desc s = Ret None ?t" using a0 a1 s0 s1 Some None by (simp add: alloc3_desc_def numeral_3_eq_3 free_desc_def)
      moreover have "few_free s" using spec [OF s1(2)] s0 by (intro few_freeI [of s i0 i0]) (force split: if_splits)
      moreover have "retried s ?t" using s0 by (auto simp: retried_def wakeup_free_def fun_eq_iff intro!: vdisk.equality)
      ultimately show ?thesis by (rule that(1))
    next
      case (Some i1)
      then have s1: "i1 < NUM" "dfree s0 i1" "s1 = s0\<lparr>dfree := (dfree s0)(i1 := False)\<rparr>" using alloc_desc_spec(2) a1 by auto
      obtain r2 s2 where a2: "alloc_desc s1 = (r2, s2)" by fastforce
      note r01 = a0 \<open>r0 = Some i0\<close> a1 Some
      have ne: "i0 \<noteq> i1" using s0 s1 by auto
      show ?thesis
      proof (cases r2)
        case None
        then have s2: "s2 = s1" "\<forall>i<NUM. \<not> dfree s1 i" using alloc_desc_spec(1) a2 by auto
        let ?u = "wakeup_free (s1\<lparr>desc := (desc s1)(i0 := null_desc), dfree := (dfree s1)(i0 := True)\<rparr>)"
        let ?t = "wakeup_free (?u\<lparr>desc := (desc ?u)(i1 := null_desc), dfree := (dfree ?u)(i1 := True)\<rparr>)"
        have "alloc3_desc s = Ret None ?t" using r01 a2 s0 s1 s2 None ne by (simp add: alloc3_desc_def numeral_3_eq_3 free_desc_def)
        moreover have "few_free s" using spec [OF s2(2)] s0(3) s1(3) by (intro few_freeI [of s i0 i1]) (force split: if_splits)
        moreover have "retried s ?t" using s0 s1 ne by (auto simp: retried_def wakeup_free_def fun_eq_iff intro!: vdisk.equality split: caller.splits)
        ultimately show ?thesis by (rule that(1))
      next
        case (Some i2)
        then have s2: "i2 < NUM" "dfree s1 i2" "s2 = s1\<lparr>dfree := (dfree s1)(i2 := False)\<rparr>" using alloc_desc_spec(2) a2 by auto
        have "alloc3_desc s = Ret (Some [i0, i1, i2]) s2" using r01 a2 s0 s1 Some by (simp add: alloc3_desc_def numeral_3_eq_3)
        then show ?thesis using s0 s1 s2 ne by (intro that(2) [of i0 i1 i2]) (auto split: if_splits)
      qed
    qed
  qed
qed

lemma req_ok_cong:
  assumes "req_ok s b w h" "\<forall>i\<in>set (chain_of s h). desc t i = desc s i \<and> \<not> dfree t i"
    "ops t h = ops s h" "info_b t h = info_b s h" "b_blockno t b = b_blockno s b"
  shows "req_ok t b w h" "chain_of t h = chain_of s h"
proof -
  obtain i1 i2 where i: "chain_of s h = [h, i1, i2]" "unat (d_next (desc s h)) = i1" "unat (d_next (desc s i1)) = i2"
    by (auto simp: chain_of_def Let_def)
  then show c: "chain_of t h = chain_of s h" using assms(2) by (simp add: chain_of_def Let_def)
  have d: "desc t h = desc s h" "desc t i1 = desc s i1" "desc t i2 = desc s i2" "\<not> dfree t h" "\<not> dfree t i1" "\<not> dfree t i2" using assms(2) i(1) by auto
  obtain j1 j2 where j: "distinct [h, j1, j2]" "\<forall>i\<in>{h, j1, j2}. i < NUM \<and> \<not> dfree s i" 
    "desc s h = \<lparr>d_addr = POps h, d_len = 16, d_flags = VRING_DESC_F_NEXT, d_next = word_of_nat j1\<rparr>"
    "desc s j1 = \<lparr>d_addr = PData b, d_len = word_of_nat VBSIZE, d_flags = (if w then 0 else VRING_DESC_F_WRITE) OR VRING_DESC_F_NEXT, d_next = word_of_nat j2\<rparr>"
    "desc s j2 = \<lparr>d_addr = PStatus h, d_len = 1, d_flags = VRING_DESC_F_WRITE, d_next = 0\<rparr>"
    "ops s h = \<lparr>r_type = (if w then VIRTIO_BLK_T_OUT else VIRTIO_BLK_T_IN), r_reserved = 0, r_sector = ucast (b_blockno s b * word_of_nat (VBSIZE div 512))\<rparr>"
    "info_b s h = Some b"
    using assms(1) unfolding req_ok_def by blast
  have "j1 = i1" "j2 = i2" using j i by auto
  then show "req_ok t b w h" unfolding req_ok_def using j d assms(3-5) by (intro exI [of _ i1] exI [of _ i2]) simp
qed

lemma free_chain_req:
  assumes "req_ok s b w h"
  shows "\<exists>t. free_chain h (s\<lparr>info_b := (info_b s)(h := None)\<rparr>) = Ret () t \<and> callers t = callers (wakeup_free s)
    \<and> t = s\<lparr>info_b := (info_b s)(h := None), desc := desc t, dfree := dfree t, callers := callers t\<rparr>
    \<and> (\<forall>i. i \<notin> set (chain_of s h) \<longrightarrow> desc t i = desc s i) \<and> (\<forall>i. dfree t i \<longleftrightarrow> dfree s i \<or> i \<in> set (chain_of s h))"
proof -
  obtain i1 i2 where j: "distinct [h, i1, i2]" "\<forall>i\<in>{h, i1, i2}. i < NUM \<and> \<not> dfree s i" 
    "desc s h = \<lparr>d_addr = POps h, d_len = 16, d_flags = VRING_DESC_F_NEXT, d_next = word_of_nat i1\<rparr>"
    "desc s i1 = \<lparr>d_addr = PData b, d_len = word_of_nat VBSIZE, d_flags = (if w then 0 else VRING_DESC_F_WRITE) OR VRING_DESC_F_NEXT, d_next = word_of_nat i2\<rparr>"
    "desc s i2 = \<lparr>d_addr = PStatus h, d_len = 1, d_flags = VRING_DESC_F_WRITE, d_next = 0\<rparr>"
    using assms unfolding req_ok_def by blast
  have c: "chain_of s h = [h, i1, i2]" using j by (simp add: chain_of_def Let_def)
  let ?f = "\<lambda>i s. wakeup_free (s\<lparr>desc := (desc s)(i := null_desc), dfree := (dfree s)(i := True)\<rparr>)"
  let ?t = "?f i2 (?f i1 (?f h (s\<lparr>info_b := (info_b s)(h := None)\<rparr>)))"
  have fl: "VRING_DESC_F_NEXT AND VRING_DESC_F_NEXT \<noteq> 0" "((if w then 0 else VRING_DESC_F_WRITE) OR VRING_DESC_F_NEXT) AND VRING_DESC_F_NEXT \<noteq> 0" "VRING_DESC_F_WRITE AND VRING_DESC_F_NEXT = 0"
    by (auto simp: VRING_DESC_F_NEXT_def VRING_DESC_F_WRITE_def)
  have "free_chain h (s\<lparr>info_b := (info_b s)(h := None)\<rparr>) = Ret () ?t"
    using j fl by (simp add: free_chain.simps [of h] free_chain.simps [of i1] free_chain.simps [of i2] free_desc_def Let_def)
  moreover have "callers ?t = callers (wakeup_free s)" by (auto simp: wakeup_free_def fun_eq_iff split: caller.splits)
  moreover have "?t = s\<lparr>info_b := (info_b s)(h := None), desc := desc ?t, dfree := dfree ?t, callers := callers ?t\<rparr>" by (simp add: wakeup_free_def)
  ultimately show ?thesis using c by (intro exI [of _ ?t]) auto
qed


section \<open>Steps keep the requests in flight in order\<close>

lemma fly_ok_same:
  assumes "fly_ok s" "fly t = fly s" "desc t = desc s" "dfree t = dfree s" "ops t = ops s" "info_b t = info_b s" "info_status t = info_status s"
    "b_disk t = b_disk s" "b_blockno t = b_blockno s" "avail_q t = avail_q s" "used_q t = used_q s" "dpend t = dpend s"
  shows "fly_ok t"
  using assms(1) by (simp add: fly_ok_def req_ok_def chain_of_def queued_def assms(2-))

lemma fly_wakeup [simp]: "fly (wakeup_free s) = fly s"
  by (auto simp: fly_def wakeup_free_def fun_eq_iff split: caller.splits)

lemma fly_set_caller: "fly (set_caller k c s) = (fly s)(k := (case c of AtDone b w h _ \<Rightarrow> Some (b, w, h) | _ \<Rightarrow> None))"
  by (auto simp: fly_def set_caller_def fun_eq_iff split: caller.splits)

lemma set_caller_fields [simp]:
  "desc (set_caller k c s) = desc s" "dfree (set_caller k c s) = dfree s" "ops (set_caller k c s) = ops s" "info_b (set_caller k c s) = info_b s"
  "info_status (set_caller k c s) = info_status s" "b_disk (set_caller k c s) = b_disk s" "b_blockno (set_caller k c s) = b_blockno s"
  "avail_q (set_caller k c s) = avail_q s" "used_q (set_caller k c s) = used_q s" "dpend (set_caller k c s) = dpend s" "platter (set_caller k c s) = platter s" "b_data (set_caller k c s) = b_data s"
  "callers (set_caller k c s) = (callers s)(k := c)" "queued (set_caller k c s) = queued s"
  by (simp_all add: set_caller_def avail_q_def used_q_def queued_def)

lemma chain_taken: "fly_ok s \<Longrightarrow> fly s k = Some (b, w, h) \<Longrightarrow> i \<in> set (chain_of s h) \<Longrightarrow> i < NUM \<and> \<not> dfree s i"
  using req_chain fly_okD(1) by blast

lemma head_in_chain [simp]: "h \<in> set (chain_of s h)"
  by (simp add: chain_of_def Let_def)

lemma fly_ok_retried:
  assumes "fly_ok s" "retried s t" "fly t = fly s"
  shows "fly_ok t"
proof -
  obtain dd cc where t: "t = s\<lparr>desc := dd, callers := cc\<rparr>" using assms(2) unfolding retried_def by blast
  have f: "dfree t = dfree s" "ops t = ops s" "info_b t = info_b s" "info_status t = info_status s" "b_disk t = b_disk s" "b_blockno t = b_blockno s"
    "queued t = queued s" "used_q t = used_q s"
    unfolding t by (simp_all add: queued_def avail_q_def used_q_def)
  have d: "\<forall>i. \<not> dfree s i \<longrightarrow> desc t i = desc s i" using assms(2) by (simp add: retried_def)
  have c: "req_ok t b w h \<and> chain_of t h = chain_of s h" if "fly s k = Some (b, w, h)" for k b w h
    using req_ok_cong [OF fly_okD(1) [OF assms(1) that], of t] chain_taken [OF assms(1) that] d f by simp
  show ?thesis unfolding fly_ok_def assms(3) f using fly_okD [OF assms(1)] c by (intro conjI allI impI ballI) metis+
qed


lemma fly_ok_finish:
  assumes "fly_ok s" "fly s k = Some (b, w, h)" "\<not> b_disk s b" "fly t = (fly s)(k := None)"
    "t = s\<lparr>info_b := (info_b s)(h := None), desc := desc t, dfree := dfree t, callers := callers t\<rparr>"
    "\<forall>i. i \<notin> set (chain_of s h) \<longrightarrow> desc t i = desc s i" "\<forall>i. dfree t i \<longleftrightarrow> dfree s i \<or> i \<in> set (chain_of s h)"
  shows "fly_ok t"
proof -
  obtain dd ff cc where t: "t = s\<lparr>info_b := (info_b s)(h := None), desc := dd, dfree := ff, callers := cc\<rparr>" using assms(5) by blast
  have f: "ops t = ops s" "info_b t = (info_b s)(h := None)" "info_status t = info_status s" "b_disk t = b_disk s" "b_blockno t = b_blockno s"
    "queued t = queued s" "used_q t = used_q s"
    unfolding t by (simp_all add: queued_def avail_q_def used_q_def)
  have gone: "h \<notin> set (queued s)" using assms(1-3) fly_okD(2) by blast
  have apart: "set (chain_of s h') \<inter> set (chain_of s h) = {}" if "fly t k' = Some (b', w', h')" for k' b' w' h'
    using that fly_okD(3) [OF assms(1), of k' b' w' h' k b w h] assms(2,4) by (auto split: if_splits)
  have old: "fly s k' = Some (b', w', h')" if "fly t k' = Some (b', w', h')" for k' b' w' h' using that assms(4) by (auto split: if_splits)
  have c: "req_ok t b' w' h' \<and> chain_of t h' = chain_of s h'" if v: "fly t k' = Some (b', w', h')" for k' b' w' h'
  proof -
    have "h' \<noteq> h" using apart [OF v] head_in_chain by blast
    then show ?thesis using req_ok_cong [OF fly_okD(1) [OF assms(1) old [OF v]], of t] chain_taken [OF assms(1) old [OF v]] apart [OF v] assms(6,7) f by auto
  qed
  show ?thesis unfolding fly_ok_def
  proof (intro conjI)
    show "\<forall>k b w h. fly t k = Some (b, w, h) \<longrightarrow> req_ok t b w h \<and> b_disk t b = (h \<in> set (queued t))"
      unfolding f using c old fly_okD(2) [OF assms(1)] by blast
    show "\<forall>k b w h k' b' w' h'. fly t k = Some (b, w, h) \<longrightarrow> fly t k' = Some (b', w', h') \<longrightarrow> k \<noteq> k' \<longrightarrow>
        b \<noteq> b' \<and> set (chain_of t h) \<inter> set (chain_of t h') = {}"
      using c old fly_okD(3) [OF assms(1)] by metis
    show "\<forall>i<NUM. \<not> dfree t i \<longrightarrow> (\<exists>k b w h. fly t k = Some (b, w, h) \<and> i \<in> set (chain_of t h))"
    proof (intro allI impI)
      fix i assume i: "i < NUM" "\<not> dfree t i"
      then have i': "\<not> dfree s i" "i \<notin> set (chain_of s h)" using assms(7) by auto
      then obtain k' b' w' h' where v: "fly s k' = Some (b', w', h')" "i \<in> set (chain_of s h')" using fly_okD(4) [OF assms(1) i(1)] by blast
      then have "k' \<noteq> k" using assms(2) i' by auto
      then have "fly t k' = Some (b', w', h')" using v assms(4) by simp
      then show "\<exists>k b w h. fly t k = Some (b, w, h) \<and> i \<in> set (chain_of t h)" using c v by metis
    qed
    show "distinct (queued t)" using fly_okD(5) [OF assms(1)] f by simp
    show "\<forall>h\<in>set (queued t). \<exists>k b w. fly t k = Some (b, w, h)"
    proof
      fix h' assume "h' \<in> set (queued t)"
      then obtain k' b' w' where v: "fly s k' = Some (b', w', h')" "h' \<in> set (queued s)" using fly_okD(6) [OF assms(1)] f by metis
      then have "k' \<noteq> k" using gone assms(2) by auto
      then show "\<exists>k b w. fly t k = Some (b, w, h')" using v assms(4) by (intro exI [of _ k'] exI [of _ b'] exI [of _ w']) simp
    qed
    show "\<forall>h\<in>set (used_q t). info_status t h = 0" using fly_okD(7) [OF assms(1)] f by simp
  qed
qed

lemma submit_fields:
  fixes b w i0 i1 i2 s
  defines "t \<equiv> submit b w i0 i1 i2 s"
  assumes "distinct [i0, i1, i2]"
  shows "desc t i0 = \<lparr>d_addr = POps i0, d_len = 16, d_flags = VRING_DESC_F_NEXT, d_next = word_of_nat i1\<rparr>"
    "desc t i1 = \<lparr>d_addr = PData b, d_len = word_of_nat VBSIZE, d_flags = (if w then 0 else VRING_DESC_F_WRITE) OR VRING_DESC_F_NEXT, d_next = word_of_nat i2\<rparr>"
    "desc t i2 = \<lparr>d_addr = PStatus i0, d_len = 1, d_flags = VRING_DESC_F_WRITE, d_next = 0\<rparr>"
    "i \<notin> {i0, i1, i2} \<Longrightarrow> desc t i = desc s i"
    "ops t = (ops s)(i0 := \<lparr>r_type = (if w then VIRTIO_BLK_T_OUT else VIRTIO_BLK_T_IN), r_reserved = 0, r_sector = ucast (b_blockno s b * word_of_nat (VBSIZE div 512))\<rparr>)"
    "info_b t = (info_b s)(i0 := Some b)" "info_status t = (info_status s)(i0 := 0xff)" "b_disk t = (b_disk s)(b := True)"
    "dfree t = dfree s" "callers t = callers s" "used_q t = used_q s" "dpend t = dpend s" "b_blockno t = b_blockno s"
    "b_data t = b_data s" "platter t = platter s"
    "i0 < NUM \<Longrightarrow> length (avail_q s) < NUM \<Longrightarrow> avail_q t = avail_q s @ [i0]"
  using assms(2) ring_enq [of "avail_ring s" "dlast s" "avail_idx s" "word_of_nat i0"]
  by (auto simp: t_def submit_def set_desc_def Let_def used_q_def avail_q_def)

lemma fly_ok_submit:
  fixes w :: bool
  assumes "fly_ok s" "fly s k = None" "\<forall>k' w' h'. fly s k' \<noteq> Some (b, w', h')"
    "distinct [i0, i1, i2]" "\<forall>i\<in>{i0, i1, i2}. i < NUM \<and> dfree s i"
  defines "t \<equiv> set_caller k (AtDone b w i0 True) (submit b w i0 i1 i2 (s\<lparr>dfree := (dfree s)(i0 := False, i1 := False, i2 := False)\<rparr>))"
  shows "fly_ok t" "avail_q t = avail_q s @ [i0]" "dpend t = dpend s"
proof -
  let ?s = "s\<lparr>dfree := (dfree s)(i0 := False, i1 := False, i2 := False)\<rparr>"
  note sf = submit_fields [where b = b and w = w and s = ?s, OF assms(4)]
  have q0: "avail_q ?s = avail_q s" "used_q ?s = used_q s" by (simp_all add: avail_q_def used_q_def)
  have short: "length (avail_q s) < NUM" using queue_short [OF assms(1)] by (simp add: queued_def NUM_def)
  show aq: "avail_q t = avail_q s @ [i0]" using sf(16) assms(5) short q0 by (simp add: t_def)
  show dp: "dpend t = dpend s" by (simp add: t_def sf(12))
  have uq: "used_q t = used_q s" by (simp add: t_def sf(11) q0)
  have qs: "queued t = avail_q s @ [i0] @ dpend s @ used_q s" by (simp add: queued_def aq dp uq)
  have fl: "fly t = (fly s)(k := Some (b, w, i0))" using sf(10) by (auto simp: t_def fly_set_caller fly_def fun_eq_iff)
  have new: "req_ok t b w i0" unfolding req_ok_def t_def using sf assms(4,5) by (intro exI [of _ i1] exI [of _ i2]) simp
  have newc: "chain_of t i0 = [i0, i1, i2]" using sf assms(4,5) by (simp add: t_def chain_of_def Let_def)
  have away: "set (chain_of s h') \<inter> {i0, i1, i2} = {}" if "fly s k' = Some (b', w', h')" for k' b' w' h'
    using chain_taken [OF assms(1) that] assms(5) by blast
  have c: "req_ok t b' w' h' \<and> chain_of t h' = chain_of s h'" if v: "fly s k' = Some (b', w', h')" for k' b' w' h'
  proof -
    have "h' \<noteq> i0" using away [OF v] head_in_chain [of h' s] by auto
    moreover have "desc t i = desc s i \<and> \<not> dfree t i" if "i \<in> set (chain_of s h')" for i
      using away [OF v] that sf(4) [of i] sf(9) chain_taken [OF assms(1) v that] by (auto simp: t_def)
    ultimately show ?thesis using req_ok_cong [OF fly_okD(1) [OF assms(1) v], of t] sf(5,6,13) by (simp add: t_def)
  qed
  have fresh: "i0 \<notin> set (queued s)" using fly_okD(6) [OF assms(1), of i0] away head_in_chain [of i0 s] by blast
  show "fly_ok t" unfolding fly_ok_def
  proof (intro conjI)
    show "\<forall>k b w h. fly t k = Some (b, w, h) \<longrightarrow> req_ok t b w h \<and> b_disk t b = (h \<in> set (queued t))"
    proof (intro allI impI)
      fix k' b' w' h' assume v: "fly t k' = Some (b', w', h')"
      show "req_ok t b' w' h' \<and> b_disk t b' = (h' \<in> set (queued t))"
      proof (cases "k' = k")
        case True then show ?thesis using v fl new sf(8) qs by (auto simp: t_def)
      next
        case False
        then have v': "fly s k' = Some (b', w', h')" using v fl by simp
        then have "b' \<noteq> b" "h' \<noteq> i0" using assms(3) away [OF v'] head_in_chain [of h' s] by auto
        then show ?thesis using c [OF v'] fly_okD(2) [OF assms(1) v'] sf(8) qs by (auto simp: t_def queued_def)
      qed
    qed
    show "\<forall>k b w h k' b' w' h'. fly t k = Some (b, w, h) \<longrightarrow> fly t k' = Some (b', w', h') \<longrightarrow> k \<noteq> k' \<longrightarrow>
        b \<noteq> b' \<and> set (chain_of t h) \<inter> set (chain_of t h') = {}"
    proof (intro allI impI)
      fix j1 b1 w1 h1 j2 b2 w2 h2 assume v: "fly t j1 = Some (b1, w1, h1)" "fly t j2 = Some (b2, w2, h2)" "j1 \<noteq> j2"
      consider "j1 = k" | "j2 = k" | "j1 \<noteq> k" "j2 \<noteq> k" by blast
      then show "b1 \<noteq> b2 \<and> set (chain_of t h1) \<inter> set (chain_of t h2) = {}"
      proof cases
        case 1 then have "fly s j2 = Some (b2, w2, h2)" "b1 = b" "h1 = i0" using v fl by auto
        then show ?thesis using c away newc assms(3) by (metis empty_set inf_commute list.simps(15))
      next
        case 2 then have "fly s j1 = Some (b1, w1, h1)" "b2 = b" "h2 = i0" using v fl by auto
        then show ?thesis using c away newc assms(3) by (metis empty_set list.simps(15))
      next
        case 3 then have "fly s j1 = Some (b1, w1, h1)" "fly s j2 = Some (b2, w2, h2)" using v fl by auto
        then show ?thesis using c fly_okD(3) [OF assms(1)] v(3) by metis
      qed
    qed
    show "\<forall>i<NUM. \<not> dfree t i \<longrightarrow> (\<exists>k b w h. fly t k = Some (b, w, h) \<and> i \<in> set (chain_of t h))"
    proof (intro allI impI)
      fix i assume i: "i < NUM" "\<not> dfree t i"
      show "\<exists>k b w h. fly t k = Some (b, w, h) \<and> i \<in> set (chain_of t h)"
      proof (cases "i \<in> {i0, i1, i2}")
        case True then show ?thesis using fl newc by (intro exI [of _ k] exI [of _ b] exI [of _ w] exI [of _ i0]) auto
      next
        case False
        then have "\<not> dfree s i" using i sf(9) by (auto simp: t_def)
        then obtain k' b' w' h' where v: "fly s k' = Some (b', w', h')" "i \<in> set (chain_of s h')" using fly_okD(4) [OF assms(1) i(1)] by blast
        then have "fly t k' = Some (b', w', h')" using fl assms(2) by (cases "k' = k") auto
        then show ?thesis using c [OF v(1)] v(2) by metis
      qed
    qed
    show "distinct (queued t)" using fly_okD(5) [OF assms(1)] fresh qs by (auto simp: queued_def)
    show "\<forall>h\<in>set (queued t). \<exists>k b w. fly t k = Some (b, w, h)"
    proof
      fix h' assume h: "h' \<in> set (queued t)"
      show "\<exists>k b w. fly t k = Some (b, w, h')"
      proof (cases "h' = i0")
        case True then show ?thesis using fl by (intro exI [of _ k] exI [of _ b] exI [of _ w]) simp
      next
        case False
        then have "h' \<in> set (queued s)" using h unfolding qs by (auto simp: queued_def)
        then obtain k' b' w' where v: "fly s k' = Some (b', w', h')" using fly_okD(6) [OF assms(1)] by blast
        then show ?thesis using fl assms(2) by (intro exI [of _ k'] exI [of _ b'] exI [of _ w']) auto
      qed
    qed
    show "\<forall>h\<in>set (used_q t). info_status t h = 0"
      using fly_okD(7) [OF assms(1)] fresh sf(7) uq by (auto simp: t_def queued_def)
  qed
qed


lemma fly_ok_ack:
  assumes "fly_ok s" "used_idx s \<noteq> uidx s"
  defines "h \<equiv> unat (used_ring s (unat (used_idx s) mod NUM))"
  obtains k b w where "fly s k = Some (b, w, h)" "b_disk s b" "used_q s = h # used_q (s\<lparr>used_idx := used_idx s + 1\<rparr>)"
    "ack h s = Ret () (wakeup_buf b (s\<lparr>b_disk := (b_disk s)(b := False), used_idx := used_idx s + 1\<rparr>))"
    "fly_ok (wakeup_buf b (s\<lparr>b_disk := (b_disk s)(b := False), used_idx := used_idx s + 1\<rparr>))"
proof -
  have uq: "used_q s = h # used_q (s\<lparr>used_idx := used_idx s + 1\<rparr>)" using ring_deq [OF assms(2), of "used_ring s"] by (simp add: used_q_def h_def)
  then have hq: "h \<in> set (queued s)" "h \<in> set (used_q s)" by (simp_all add: queued_def)
  then obtain k b w where v: "fly s k = Some (b, w, h)" using fly_okD(6) [OF assms(1)] by blast
  then have bd: "b_disk s b" using fly_okD(2) [OF assms(1)] hq by blast
  have "info_b s h = Some b" "info_status s h = 0" using fly_okD(1) [OF assms(1) v] fly_okD(7) [OF assms(1)] hq by (auto simp: req_ok_def)
  let ?t = "wakeup_buf b (s\<lparr>b_disk := (b_disk s)(b := False), used_idx := used_idx s + 1\<rparr>)"
  have a: "ack h s = Ret () ?t" using \<open>info_b s h = Some b\<close> \<open>info_status s h = 0\<close> by (simp add: ack_def wakeup_buf_def)
  have fl: "fly ?t = fly s" by (auto simp: fly_def wakeup_buf_def fun_eq_iff split: caller.splits)
  have f: "desc ?t = desc s" "dfree ?t = dfree s" "ops ?t = ops s" "info_b ?t = info_b s" "info_status ?t = info_status s" "b_blockno ?t = b_blockno s"
    "b_disk ?t = (b_disk s)(b := False)" "avail_q ?t = avail_q s" "dpend ?t = dpend s" "used_q s = h # used_q ?t"
    using uq by (simp_all add: wakeup_buf_def avail_q_def used_q_def)
  have q: "distinct (avail_q s @ dpend s @ h # used_q ?t)" using fly_okD(5) [OF assms(1)] f(10) by (simp add: queued_def)
  have qs: "set (queued ?t) = set (queued s) - {h}" using q f(8-10) by (auto simp: queued_def)
  have r: "req_ok ?t b' w' h' = req_ok s b' w' h'" "chain_of ?t h' = chain_of s h'" for b' w' h'
    by (simp_all add: req_ok_def chain_of_def f)
  have "fly_ok ?t" unfolding fly_ok_def r fl
  proof (intro conjI)
    show "\<forall>k b' w h'. fly s k = Some (b', w, h') \<longrightarrow> req_ok s b' w h' \<and> b_disk ?t b' = (h' \<in> set (queued ?t))"
    proof (intro allI impI conjI)
      fix k' b' w' h' assume v': "fly s k' = Some (b', w', h')"
      show "req_ok s b' w' h'" by (rule fly_okD(1) [OF assms(1) v'])
      have "k' = k \<and> b' = b \<and> h' = h \<or> b' \<noteq> b \<and> h' \<noteq> h"
        using fly_okD(3) [OF assms(1) v v'] v v' by (cases "k' = k") (auto simp: chain_of_def Let_def)
      then show "b_disk ?t b' = (h' \<in> set (queued ?t))" using fly_okD(2) [OF assms(1) v'] f(7) qs by auto
    qed
    show "\<forall>k b w h k' b' w' h'. fly s k = Some (b, w, h) \<longrightarrow> fly s k' = Some (b', w', h') \<longrightarrow> k \<noteq> k' \<longrightarrow>
        b \<noteq> b' \<and> set (chain_of s h) \<inter> set (chain_of s h') = {}" using fly_okD(3) [OF assms(1)] by metis
    show "\<forall>i<NUM. \<not> dfree ?t i \<longrightarrow> (\<exists>k b w h. fly s k = Some (b, w, h) \<and> i \<in> set (chain_of s h))" unfolding f using fly_okD(4) [OF assms(1)] by metis
    show "distinct (queued ?t)" using q f(8-10) by (simp add: queued_def)
    show "\<forall>h\<in>set (queued ?t). \<exists>k b w. fly s k = Some (b, w, h)" unfolding qs using fly_okD(6) [OF assms(1)] by auto
    show "\<forall>h\<in>set (used_q ?t). info_status ?t h = 0" using fly_okD(7) [OF assms(1)] f(5,10) by simp
  qed
  then show ?thesis using that v bd uq a by blast
qed

lemma fly_ok_fetch:
  assumes "fly_ok s" "dlast s \<noteq> avail_idx s"
  shows "fly_ok (dev_fetch s)" "set (avail_q (dev_fetch s)) \<union> set (dpend (dev_fetch s)) = set (avail_q s) \<union> set (dpend s)"
proof -
  let ?h = "unat (avail_ring s (unat (dlast s) mod NUM))"
  have a: "avail_q s = ?h # avail_q (dev_fetch s)" using ring_deq [OF assms(2), of "avail_ring s"] by (simp add: avail_q_def dev_fetch_def)
  have f: "dpend (dev_fetch s) = dpend s @ [?h]" "used_q (dev_fetch s) = used_q s" "fly (dev_fetch s) = fly s" "info_status (dev_fetch s) = info_status s"
    "b_disk (dev_fetch s) = b_disk s" "dfree (dev_fetch s) = dfree s" by (auto simp: dev_fetch_def used_q_def fly_def fun_eq_iff)
  have r: "req_ok (dev_fetch s) b' w' h' = req_ok s b' w' h'" "chain_of (dev_fetch s) h' = chain_of s h'" for b' w' h'
    by (simp_all add: req_ok_def chain_of_def dev_fetch_def)
  show "set (avail_q (dev_fetch s)) \<union> set (dpend (dev_fetch s)) = set (avail_q s) \<union> set (dpend s)" using a f(1) by auto
  have "set (queued (dev_fetch s)) = set (queued s)" "distinct (queued (dev_fetch s))"
    using fly_okD(5) [OF assms(1)] a f(1,2) by (auto simp: queued_def)
  then show "fly_ok (dev_fetch s)" unfolding fly_ok_def r f using assms(1) by (simp add: fly_ok_def)
qed

lemma fly_ok_serve:
  fixes n :: nat
  assumes "fly_ok s" "h \<in> set (dpend s)" "fly s k = Some (b, w, h)"
  defines "t \<equiv> dev_serve h w n b h s"
  shows "fly_ok t" "set (avail_q t) \<union> set (dpend t) = set (avail_q s) \<union> set (dpend s) - {h}"
proof -
  have short: "length (used_q s) < NUM" using queue_short [OF assms(1)] by (simp add: queued_def NUM_def)
  have hn: "h < NUM" using chain_taken [OF assms(1,3), of h] by simp
  have f: "dpend t = remove1 h (dpend s)" "avail_q t = avail_q s" "fly t = fly s" "info_status t = (info_status s)(h := 0)" "b_disk t = b_disk s" "dfree t = dfree s"
    by (auto simp: t_def dev_serve_def avail_q_def fly_def fun_eq_iff split: prod.splits)
  have u: "used_q t = used_q s @ [h]" using ring_enq [of "used_ring s" "used_idx s" "uidx s" "word_of_nat h"] short hn
    by (simp add: t_def dev_serve_def used_q_def split: prod.splits)
  have r: "req_ok t b' w' h' = req_ok s b' w' h'" "chain_of t h' = chain_of s h'" for b' w' h'
    by (simp_all add: req_ok_def chain_of_def t_def dev_serve_def split: prod.splits)
  have d: "distinct (avail_q s @ dpend s @ used_q s)" using fly_okD(5) [OF assms(1)] by (simp add: queued_def)
  then have rm: "set (remove1 h (dpend s)) = set (dpend s) - {h}" "distinct (remove1 h (dpend s))" by auto
  show "set (avail_q t) \<union> set (dpend t) = set (avail_q s) \<union> set (dpend s) - {h}" using f rm d assms(2) by auto
  have q: "set (queued t) = set (queued s)" "distinct (queued t)" using rm d assms(2) by (auto simp: queued_def f u)
  have st: "\<forall>h'\<in>set (used_q t). info_status t h' = 0" using fly_okD(7) [OF assms(1)] by (auto simp: f u)
  show "fly_ok t" unfolding fly_ok_def r f q using assms(1) q(2) st by (simp add: fly_ok_def f)
qed

end
