(* ===== verification/Virtio_Claims.thy ===== *)
theory Virtio_Claims
  imports Virtio_Props
begin

text \<open>Every step of the driver and the device keeps the invariant and is a step of the specification, or none; and somebody can always go on.\<close>

section \<open>Callers\<close>

lemma users_ok_cong:
  assumes "users_ok s" "\<And>k b. uses b (callers t k) \<Longrightarrow> uses b (callers s k)" "b_blockno t = b_blockno s"
  shows "users_ok t"
  using assms(1) unfolding users_ok_def assms(3) using assms(2) by blast

lemma uses_simps [simp]: "\<not> uses b Idle" "uses b (AtFree b' w z) \<longleftrightarrow> b' = b" "uses b (AtDone b' w h z) \<longleftrightarrow> b' = b"
  by (simp_all add: uses_def)

lemma uses_wakeup [simp]: "uses b (callers (wakeup_free s) k) = uses b (callers s k)" "uses b (callers (wakeup_buf c s) k) = uses b (callers s k)"
  by (auto simp: wakeup_free_def wakeup_buf_def uses_def split: caller.splits)

lemma callers_wakeup_free [simp]:
  "callers (wakeup_free s) k = AtDone b w h z \<longleftrightarrow> callers s k = AtDone b w h z" "callers (wakeup_free s) k \<noteq> AtFree b w True"
  by (auto simp: wakeup_free_def split: caller.splits)

lemma callers_wakeup_buf [simp]:
  "callers (wakeup_buf c s) k = AtDone b w h True \<longleftrightarrow> callers s k = AtDone b w h True \<and> b \<noteq> c"
  "callers (wakeup_buf c s) k = AtFree b w z \<longleftrightarrow> callers s k = AtFree b w z"
  by (auto simp: wakeup_buf_def split: caller.splits)

lemma wakeup_buf_fields [simp]: "b_disk (wakeup_buf c s) = b_disk s" "dfree (wakeup_buf c s) = dfree s"
  by (simp_all add: wakeup_buf_def)

lemma users_okD: "users_ok s \<Longrightarrow> uses b (callers s k) \<Longrightarrow> uses b (callers s k') \<Longrightarrow> k' = k"
  "users_ok s \<Longrightarrow> uses b (callers s k) \<Longrightarrow> unat (b_blockno s b) < 2 ^ 31"
  by (auto simp: users_ok_def)

lemma fly_cong: "callers t = callers s \<Longrightarrow> fly t = fly s"
  by (simp add: fly_def fun_eq_iff)

lemma fly_uses: "fly s k = Some (b, w, h) \<Longrightarrow> uses b (callers s k)"
  by (auto simp: fly_Some)

lemma few_free_mono: "few_free s \<Longrightarrow> (\<And>i. dfree t i \<Longrightarrow> dfree s i) \<Longrightarrow> few_free t"
  unfolding few_free_def by (rule order.strict_trans1 [OF card_mono]) auto

section \<open>The view of the specification\<close>

lemma busy_iff: "a_busy (abs_disk s) b \<longleftrightarrow> in_use s b"
  unfolding a_busy_def in_use_def abs_disk_def abs_call_def uses_def by (simp split: caller.splits) blast

lemma abs_call_cong: "avail_q t = avail_q s \<Longrightarrow> dpend t = dpend s \<Longrightarrow> abs_call t = abs_call s"
  by (simp add: abs_call_def fun_eq_iff split: caller.splits)

lemma abs_call_wakeup [simp]: "abs_call s (callers (wakeup_free s') k) = abs_call s (callers s' k)"
  by (auto simp: abs_call_def wakeup_free_def split: caller.splits)

lemma abs_same:
  assumes "platter t = platter s" "b_data t = b_data s" "b_blockno t = b_blockno s" "\<And>k. abs_call t (callers t k) = abs_call s (callers s k)"
  shows "abs_disk t = abs_disk s"
  using assms by (simp add: abs_disk_def)

text \<open>What every step has to show.\<close>

definition good_step :: "vdisk \<Rightarrow> vdisk \<Rightarrow> bool" where
  "good_step s t \<longleftrightarrow> vinv t \<and> (abs_disk t = abs_disk s \<or> astep (abs_disk s) (abs_disk t))"

lemma good_enter:
  assumes "vinv s" "callers s k = Idle" "\<not> in_use s b" "unat (b_blockno s b) < 2 ^ 31"
  shows "good_step s (rw_enter k b w s)"
proof -
  let ?t = "rw_enter k b w s"
  have "fly ?t = fly s" using assms(2) by (auto simp: rw_enter_def fly_set_caller fly_def fun_eq_iff)
  then have "fly_ok ?t" using fly_ok_same [of s ?t] assms(1) by (simp add: vinv_def rw_enter_def)
  moreover have "users_ok ?t" using assms by (auto simp: vinv_def users_ok_def rw_enter_def in_use_def)
  moreover have "wake_ok ?t" using assms(1) by (auto simp: vinv_def wake_ok_def rw_enter_def few_free_def)
  moreover have "abs_disk ?t = (abs_disk s)\<lparr>a_calls := (a_calls (abs_disk s))(k := AAsked b w)\<rparr>"
    by (auto simp: abs_disk_def rw_enter_def abs_call_def fun_eq_iff split: caller.splits)
  moreover have "a_calls (abs_disk s) k = ANone" using assms(2) by (simp add: abs_disk_def abs_call_def)
  ultimately show ?thesis using a_ask [of "abs_disk s" k b w] assms(3) by (simp add: good_step_def vinv_def busy_iff)
qed

lemma good_flag:
  assumes "vinv s" "callers s k = AtFree b w z \<and> c = AtFree b w False \<or> callers s k = AtDone b w h z \<and> (c = AtDone b w h False \<or> c = AtDone b w h True \<and> b_disk s b)"
  shows "good_step s (set_caller k c s)"
proof -
  let ?t = "set_caller k c s"
  have "fly ?t = fly s" using assms(2) by (auto simp: fly_set_caller fly_def fun_eq_iff)
  then have "fly_ok ?t" using fly_ok_same [of s ?t] assms(1) by (simp add: vinv_def)
  moreover have "users_ok ?t" by (rule users_ok_cong [of s]) (use assms in \<open>auto simp: vinv_def split: if_splits\<close>)
  moreover have "wake_ok ?t" using assms by (auto simp: vinv_def wake_ok_def few_free_def)
  moreover have "abs_disk ?t = abs_disk s" using assms(2) by (intro abs_same) (auto simp: abs_call_def split: caller.splits)
  ultimately show ?thesis by (simp add: good_step_def vinv_def)
qed

lemma good_edit:
  assumes "vinv s" "\<not> in_use s b"
  shows "good_step s (s\<lparr>b_data := (b_data s)(b := bytes), b_blockno := (b_blockno s)(b := n)\<rparr>)"
proof -
  let ?t = "s\<lparr>b_data := (b_data s)(b := bytes), b_blockno := (b_blockno s)(b := n)\<rparr>"
  have fl: "fly ?t = fly s" and q: "queued ?t = queued s" "used_q ?t = used_q s" "avail_q ?t = avail_q s" by (auto simp: fly_def fun_eq_iff queued_def avail_q_def used_q_def)
  have r: "req_ok ?t b' w' h' = req_ok s b' w' h'" if "fly s k = Some (b', w', h')" for k b' w' h'
    using fly_uses [OF that] assms(2) by (auto simp: req_ok_def in_use_def)
  have c: "chain_of ?t h = chain_of s h" for h by (simp add: chain_of_def)
  have "fly_ok ?t" unfolding fly_ok_def fl q c using assms(1) r by (simp add: vinv_def fly_ok_def)
  moreover have "users_ok ?t" using assms by (auto simp: vinv_def users_ok_def in_use_def)
  moreover have "wake_ok ?t" using assms by (simp add: vinv_def wake_ok_def few_free_def)
  moreover have "abs_disk ?t = (abs_disk s)\<lparr>a_data := (a_data (abs_disk s))(b := bytes), a_block := (a_block (abs_disk s))(b := unat n)\<rparr>"
    by (auto simp: abs_disk_def abs_call_def q(3) fun_eq_iff split: caller.splits)
  ultimately show ?thesis using a_edit [where a = "abs_disk s" and b = b and bytes = bytes and n = "unat n"] assms(2) by (simp add: good_step_def vinv_def busy_iff)
qed

section \<open>Running the routine\<close>

lemma good_fail:
  assumes "vinv s" "callers s k = AtFree b w False" "few_free s" "retried s t"
  shows "good_step s (set_caller k (AtFree b w True) t)"
proof -
  let ?t = "set_caller k (AtFree b w True) t"
  obtain dd cc where t: "t = s\<lparr>desc := dd, callers := cc\<rparr>" using assms(4) unfolding retried_def by blast
  have cs: "callers t = callers s \<or> callers t = callers (wakeup_free s)" using assms(4) by (simp add: retried_def)
  have fl: "fly t = fly s" using cs fly_cong [of t s] fly_cong [of t "wakeup_free s"] by auto
  have "fly s k = None" using assms(2) by (simp add: fly_def)
  then have "fly ?t = fly t" using fl by (auto simp: fly_set_caller fun_eq_iff)
  then have "fly_ok ?t" using fly_ok_same [of t ?t] fly_ok_retried [OF _ assms(4) fl] assms(1) by (simp add: vinv_def)
  moreover have "users_ok ?t"
    by (rule users_ok_cong [of s]) (use assms(1,2) cs in \<open>auto simp: vinv_def t split: if_splits\<close>)
  moreover have "wake_ok ?t"
  proof -
    have "b_disk t = b_disk s" "dfree t = dfree s" by (simp_all add: t)
    then show ?thesis using assms(1,3) cs by (auto simp: vinv_def wake_ok_def few_free_def split: if_splits) blast+
  qed
  moreover have "abs_disk ?t = abs_disk s"
  proof -
    have f: "avail_q t = avail_q s" "dpend t = dpend s" "platter t = platter s" "b_data t = b_data s" "b_blockno t = b_blockno s"
      by (simp_all add: t avail_q_def)
    then have "abs_call ?t = abs_call s" by (intro abs_call_cong) simp_all
    moreover have "abs_call s (AtFree b w True) = abs_call s (callers s k)" by (simp add: assms(2) abs_call_def)
    ultimately show ?thesis using f cs by (intro abs_same) auto
  qed
  ultimately show ?thesis by (simp add: good_step_def vinv_def)
qed

lemma good_submit:
  assumes "vinv s" "callers s k = AtFree b w False" "distinct [i0, i1, i2]" "\<forall>i\<in>{i0, i1, i2}. i < NUM \<and> dfree s i"
  shows "good_step s (set_caller k (AtDone b w i0 True) (submit b w i0 i1 i2 (s\<lparr>dfree := (dfree s)(i0 := False, i1 := False, i2 := False)\<rparr>)))"
proof -
  let ?s = "s\<lparr>dfree := (dfree s)(i0 := False, i1 := False, i2 := False)\<rparr>"
  let ?u = "submit b w i0 i1 i2 ?s"
  let ?t = "set_caller k (AtDone b w i0 True) ?u"
  note sf = submit_fields [where b = b and w = w and s = ?s, OF assms(3)]
  have inv: "fly_ok s" "users_ok s" "wake_ok s" using assms(1) by (simp_all add: vinv_def)
  have "fly s k = None" using assms(2) by (simp add: fly_def)
  moreover have "\<forall>k' w' h'. fly s k' \<noteq> Some (b, w', h')"
    using users_okD(1) [OF inv(2), of b k] fly_uses assms(2) \<open>fly s k = None\<close> by (metis option.distinct(1) uses_simps(2))
  ultimately have f: "fly_ok ?t" "avail_q ?t = avail_q s @ [i0]" "dpend ?t = dpend s" using fly_ok_submit [OF inv(1) _ _ assms(3,4)] by blast+
  moreover have "users_ok ?t" by (rule users_ok_cong [OF inv(2)]) (use assms(2) sf(10,13) in \<open>auto split: if_splits\<close>)
  moreover have "wake_ok ?t" unfolding wake_ok_def
  proof (intro conjI allI impI)
    fix k' b' w' h' assume "callers ?t k' = AtDone b' w' h' True"
    then show "b_disk ?t b'" using inv(3) sf(8,10) by (auto simp: wake_ok_def split: if_splits)
  next
    fix k' b' w' assume "callers ?t k' = AtFree b' w' True"
    then have "few_free s" using inv(3) sf(10) by (auto simp: wake_ok_def split: if_splits)
    then show "few_free ?t" by (rule few_free_mono) (use sf(9) in \<open>auto split: if_splits\<close>)
  qed
  moreover have "abs_disk ?t = abs_disk s"
  proof (rule abs_same)
    fix k'
    have "h' \<noteq> i0" if "callers s k' = AtDone b' w' h' z" for b' w' h' z
      using chain_taken [OF inv(1), of k' b' w' h' h'] that assms(4) by (auto simp: fly_Some)
    then show "abs_call ?t (callers ?t k') = abs_call s (callers s k')"
      unfolding abs_call_def f(2,3) using assms(2) sf(10) by (auto split: caller.splits)
  qed (simp_all add: sf)
  ultimately show ?thesis by (simp add: good_step_def vinv_def)
qed

lemma good_finish:
  assumes "vinv s" "callers s k = AtDone b w h z" "\<not> b_disk s b"
  obtains t where "rw_finish k h s = Ret () t" "good_step s t"
proof -
  have inv: "fly_ok s" "users_ok s" "wake_ok s" using assms(1) by (simp_all add: vinv_def)
  have v: "fly s k = Some (b, w, h)" using assms(2) by (auto simp: fly_Some)
  obtain u where u: "free_chain h (s\<lparr>info_b := (info_b s)(h := None)\<rparr>) = Ret () u" "callers u = callers (wakeup_free s)"
    "u = s\<lparr>info_b := (info_b s)(h := None), desc := desc u, dfree := dfree u, callers := callers u\<rparr>"
    "\<forall>i. i \<notin> set (chain_of s h) \<longrightarrow> desc u i = desc s i" "\<forall>i. dfree u i \<longleftrightarrow> dfree s i \<or> i \<in> set (chain_of s h)"
    using free_chain_req [OF fly_okD(1) [OF inv(1) v]] by blast
  then obtain dd ff cc where uu: "u = s\<lparr>info_b := (info_b s)(h := None), desc := dd, dfree := ff, callers := cc\<rparr>" by blast
  let ?t = "set_caller k Idle u"
  have fin: "rw_finish k h s = Ret () ?t" using u(1) by (simp add: rw_finish_def)
  have fl: "fly ?t = (fly s)(k := None)" using fly_cong [OF u(2)] by (simp add: fly_set_caller)
  have ok: "fly_ok ?t"
  proof (rule fly_ok_finish [OF inv(1) v assms(3) fl])
    show "?t = s\<lparr>info_b := (info_b s)(h := None), desc := desc ?t, dfree := dfree ?t, callers := callers ?t\<rparr>" unfolding uu by (simp add: set_caller_def)
  qed (use u in auto)
  have us: "users_ok ?t" by (rule users_ok_cong [OF inv(2)]) (use u(2) in \<open>auto simp: uu split: if_splits\<close>)
  have "b_disk u = b_disk s" by (simp add: uu)
  then have wk: "wake_ok ?t" using inv(3) u(2) by (auto simp: wake_ok_def split: if_splits)
  have served: "h \<notin> set (queued s)" using fly_okD(2) [OF inv(1) v] assms(3) by blast
  have "a_calls (abs_disk s) k = AServed b w" using served assms(2) by (simp add: abs_disk_def abs_call_def queued_def)
  moreover have "abs_disk ?t = (abs_disk s)\<lparr>a_calls := (a_calls (abs_disk s))(k := ANone)\<rparr>"
  proof -
    have f: "avail_q u = avail_q s" "dpend u = dpend s" "platter u = platter s" "b_data u = b_data s" "b_blockno u = b_blockno s"
      by (simp_all add: uu avail_q_def)
    then have "abs_call ?t = abs_call s" by (intro abs_call_cong) simp_all
    then show ?thesis using f u(2) by (auto simp: abs_disk_def fun_eq_iff) (simp add: abs_call_def)
  qed
  ultimately have "astep (abs_disk s) (abs_disk ?t)" using a_return [of "abs_disk s" k b w] by simp
  then show ?thesis using that fin ok us wk by (simp add: good_step_def vinv_def)
qed

lemma good_run:
  assumes "vinv s"
  shows "\<exists>t. virtio_disk_rw k s = Ret () t \<and> good_step s t"
proof (cases "callers s k")
  case Idle then show ?thesis using assms by (simp add: virtio_disk_rw_def good_step_def)
next
  case (AtFree b w z)
  show ?thesis
  proof (cases z)
    case True then show ?thesis using AtFree assms by (simp add: virtio_disk_rw_def good_step_def)
  next
    case False
    show ?thesis
    proof (cases rule: alloc3_cases [of s])
      case (1 t)
      then show ?thesis using AtFree False good_fail [OF assms _ 1(2,3)] by (auto simp: virtio_disk_rw_def)
    next
      case (2 i0 i1 i2)
      have "b_disk (submit b w i0 i1 i2 (s\<lparr>dfree := (dfree s)(i0 := False, i1 := False, i2 := False)\<rparr>)) b"
        using submit_fields(8) [OF 2(2)] by simp
      then show ?thesis using AtFree False 2(1) good_submit [OF assms _ 2(2,3)] by (simp add: virtio_disk_rw_def)
    qed
  qed
next
  case (AtDone b w h z)
  show ?thesis
  proof (cases "z \<or> b_disk s b")
    case True then show ?thesis using AtDone assms good_flag [OF assms, of k b w z "AtDone b w h True" h]
      by (cases z) (auto simp: virtio_disk_rw_def good_step_def)
  next
    case False then show ?thesis using good_finish [OF assms AtDone] AtDone by (auto simp: virtio_disk_rw_def)
  qed
qed


section \<open>The interrupt\<close>

lemma good_ack:
  assumes "vinv s" "used_idx s \<noteq> uidx s"
  shows "\<exists>t. ack (unat (used_ring s (unat (used_idx s) mod NUM))) s = Ret () t \<and> vinv t \<and> abs_disk t = abs_disk s"
proof -
  let ?h = "unat (used_ring s (unat (used_idx s) mod NUM))"
  have inv: "fly_ok s" "users_ok s" "wake_ok s" using assms(1) by (simp_all add: vinv_def)
  obtain k b w where a: "fly s k = Some (b, w, ?h)"
    "ack ?h s = Ret () (wakeup_buf b (s\<lparr>b_disk := (b_disk s)(b := False), used_idx := used_idx s + 1\<rparr>))"
    "fly_ok (wakeup_buf b (s\<lparr>b_disk := (b_disk s)(b := False), used_idx := used_idx s + 1\<rparr>))"
    using fly_ok_ack [OF inv(1) assms(2)] by metis
  let ?t = "wakeup_buf b (s\<lparr>b_disk := (b_disk s)(b := False), used_idx := used_idx s + 1\<rparr>)"
  have "users_ok ?t" by (rule users_ok_cong [OF inv(2)]) (auto simp: wakeup_buf_def uses_def split: caller.splits)
  moreover have "wake_ok ?t" using inv(3) by (auto simp: wake_ok_def few_free_def)
  moreover have "abs_disk ?t = abs_disk s" by (rule abs_same) (auto simp: wakeup_buf_def abs_call_def avail_q_def split: caller.splits)
  ultimately show ?thesis using a by (simp add: vinv_def)
qed

lemma good_intr: "vinv s \<Longrightarrow> \<exists>t. virtio_disk_intr s = Ret () t \<and> vinv t \<and> abs_disk t = abs_disk s"
proof (induction s rule: virtio_disk_intr.induct)
  case (1 s)
  show ?case
  proof (cases "used_idx s = uidx s")
    case True then show ?thesis using 1(2) by (simp add: virtio_disk_intr.simps [of s])
  next
    case False
    then obtain u where u: "ack (unat (used_ring s (unat (used_idx s) mod NUM))) s = Ret () u" "vinv u" "abs_disk u = abs_disk s"
      using good_ack [OF 1(2)] by blast
    then show ?thesis using 1(1) [OF False u(1,2)] False by (simp add: virtio_disk_intr.simps [of s])
  qed
qed

section \<open>The device\<close>

lemma parse_req:
  assumes "req_ok s b w h" "unat (b_blockno s b) < 2 ^ 31"
  shows "parse_chain h s = Some (w, 2 * unat (b_blockno s b), b, h)"
proof -
  have "unat (b_blockno s b * 2) = 2 * unat (b_blockno s b)" using assms(2) by (simp add: unat_word_ariths(2))
  moreover have "unat (ucast (b_blockno s b * 2) :: 64 word) = unat (b_blockno s b * 2)"
    using unsigned_less [of "b_blockno s b * 2", where ?'a = nat] by (simp add: unsigned_ucast_eq take_bit_nat_eq_self)
  moreover have "VIRTIO_BLK_T_IN \<noteq> VIRTIO_BLK_T_OUT" by (simp add: VIRTIO_BLK_T_IN_def VIRTIO_BLK_T_OUT_def)
  ultimately show ?thesis using assms(1) by (auto simp: req_ok_def parse_chain_def Let_def VBSIZE_def or.commute)
qed

lemma good_device:
  assumes "vinv s" "device_ok D" "D s t"
  shows "good_step s t"
proof -
  have inv: "fly_ok s" "users_ok s" "wake_ok s" using assms(1) by (simp_all add: vinv_def)
  consider "dlast s \<noteq> avail_idx s" "t = dev_fetch s"
    | h where "h \<in> set (dpend s)" "case parse_chain h s of None \<Rightarrow> True | Some (out, sector, b, k) \<Rightarrow> t = dev_serve h out sector b k s"
    using assms(2,3) unfolding device_ok_def by blast
  then show ?thesis
  proof cases
    case 1
    have q: "h \<in> set (avail_q t) \<or> h \<in> set (dpend t) \<longleftrightarrow> h \<in> set (avail_q s) \<or> h \<in> set (dpend s)" for h
      using fly_ok_fetch(2) [OF inv(1) 1(1)] 1(2) by blast
    have "users_ok t" using inv(2) 1(2) by (simp add: users_ok_def dev_fetch_def)
    moreover have "wake_ok t" using inv(3) 1(2) by (simp add: wake_ok_def dev_fetch_def few_free_def)
    moreover have "abs_disk t = abs_disk s" proof -
      have "callers t = callers s" "platter t = platter s" "b_data t = b_data s" "b_blockno t = b_blockno s" using 1(2) by (simp_all add: dev_fetch_def)
      then show ?thesis by (intro abs_same) (simp_all add: abs_call_def q split: caller.splits)
    qed
    ultimately show ?thesis using fly_ok_fetch(1) [OF inv(1) 1(1)] 1(2) by (simp add: good_step_def vinv_def)
  next
    case (2 h)
    then obtain k b w where v: "fly s k = Some (b, w, h)" using fly_okD(6) [OF inv(1), of h] by (auto simp: queued_def)
    let ?n = "2 * unat (b_blockno s b)"
    have t: "t = dev_serve h w ?n b h s"
      using 2(2) parse_req [OF fly_okD(1) [OF inv(1) v] users_okD(2) [OF inv(2) fly_uses [OF v]]] by simp
    obtain medium bytes where tr: "transfer w (VBSIZE * unat (b_blockno s b)) (platter s) (b_data s b) = (medium, bytes)" by fastforce
    have tf: "callers t = callers s" "platter t = medium" "b_data t = (b_data s)(b := bytes)" "b_blockno t = b_blockno s" "b_disk t = b_disk s" "dfree t = dfree s"
      using tr by (simp_all add: t dev_serve_def VBSIZE_def)
    have q: "h' \<in> set (avail_q t) \<or> h' \<in> set (dpend t) \<longleftrightarrow> (h' \<in> set (avail_q s) \<or> h' \<in> set (dpend s)) \<and> h' \<noteq> h" for h'
      using fly_ok_serve(2) [OF inv(1) 2(1) v, of ?n] t by blast
    have "users_ok t" using inv(2) by (simp add: users_ok_def tf)
    moreover have "wake_ok t" using inv(3) by (simp add: wake_ok_def tf few_free_def)
    moreover have "fly_ok t" using fly_ok_serve(1) [OF inv(1) 2(1) v] t by blast
    moreover have "a_calls (abs_disk s) k = AAsked b w" using v 2(1) by (auto simp: abs_disk_def abs_call_def fly_Some)
    moreover have "abs_disk t = (abs_disk s)\<lparr>a_platter := medium, a_data := (a_data (abs_disk s))(b := bytes), a_calls := (a_calls (abs_disk s))(k := AServed b w)\<rparr>"
    proof -
      have "abs_call t (callers s k') = (if k' = k then AServed b w else abs_call s (callers s k'))" for k'
      proof -
        have "h' \<noteq> h" if "callers s k' = AtDone b' w' h' z" "k' \<noteq> k" for b' w' h' z
          using fly_okD(3) [OF inv(1) v, of k' b' w' h'] that by (auto simp: fly_Some chain_of_def Let_def)
        then show ?thesis using v unfolding abs_call_def q by (auto simp: fly_Some split: caller.splits)
      qed
      then show ?thesis by (simp add: abs_disk_def tf fun_eq_iff)
    qed
    ultimately show ?thesis using a_serve [of "abs_disk s" k b w medium bytes] tr by (simp add: good_step_def vinv_def abs_disk_def)
  qed
qed

section \<open>All states\<close>

lemma good_vstep:
  assumes "vinv s" "device_ok D" "vstep D s t"
  shows "good_step s t"
  using assms(3)
proof cases
  case (run k) then show ?thesis using good_run [OF assms(1), of k] by auto
next
  case intr then show ?thesis using good_intr [OF assms(1)] by (auto simp: good_step_def)
qed (use assms in \<open>auto intro: good_enter good_device good_edit good_flag\<close>)

lemma vinv_booted: "booted s \<Longrightarrow> vinv s"
  by (auto simp: booted_def virtio_disk_init_def vinv_def fly_ok_def users_ok_def wake_ok_def fly_def queued_def avail_q_def used_q_def ring_q_def Let_def
      split: if_splits prod.splits)

lemma vinv_reach: "vreach D s \<Longrightarrow> device_ok D \<Longrightarrow> vinv s"
proof (induction rule: vreach.induct)
  case (start s) then show ?case by (simp add: vinv_booted)
next
  case (step s t) then show ?case using good_vstep by (simp add: good_step_def)
qed





section \<open>Properties\<close>

text \<open>C38. Under every interleaving of callers, interrupts and a device that keeps its promises, in whatever order it serves requests, each call of \<open>virtio_disk_rw\<close> transfers its block exactly once between its start and its return: every step
  of the driver is a step of \<open>astep\<close> or changes nothing that callers can see. In particular no buffer and no part of the disk changes outside of the requested transfers.\<close>

theorem disk_requests_served:
  assumes "device_ok D" "vreach D s" "vstep D s t"
  shows "abs_disk t = abs_disk s \<or> astep (abs_disk s) (abs_disk t)"
  using good_vstep [OF vinv_reach [OF assms(2,1)] assms(1,3)] by (simp add: good_step_def)


section \<open>A device and a start\<close>

text \<open>A device that serves one request after the other.\<close>

definition in_order :: "vdisk \<Rightarrow> vdisk \<Rightarrow> bool" where
  "in_order s t \<longleftrightarrow> dpend s = [] \<and> dlast s \<noteq> avail_idx s \<and> t = dev_fetch s
     \<or> (case dpend s of [] \<Rightarrow> False | h # _ \<Rightarrow>
          (case parse_chain h s of None \<Rightarrow> False | Some (out, sector, b, k) \<Rightarrow> t = dev_serve h out sector b k s))"

lemma in_order_ok: "device_ok in_order"
  by (auto simp: device_ok_def in_order_def split: list.splits option.splits prod.splits)

definition v_regs :: mmio where
  "v_regs = \<lparr>m_magic = 0x74726976, m_version = 2, m_device_id = 2, m_vendor_id = 0x554d4551, m_features = 0, m_status = 11, m_ready = 0, m_num_max = 1024\<rparr>"

definition v_start :: vdisk where
  "v_start = \<lparr>desc = (\<lambda>_. null_desc), avail_idx = 0, avail_ring = (\<lambda>_. 0), uidx = 0, used_ring = (\<lambda>_. 0), dfree = (\<lambda>i. i < NUM), used_idx = 0,
     info_b = (\<lambda>_. None), info_status = (\<lambda>_. 0), ops = (\<lambda>_. \<lparr>r_type = 0, r_reserved = 0, r_sector = 0\<rparr>), b_disk = (\<lambda>_. False), b_blockno = (\<lambda>_. 7),
     b_data = (\<lambda>_ _. 65), callers = (\<lambda>_. Idle), platter = (\<lambda>_. 0), dlast = 0, dpend = []\<rparr>"


definition v_pages :: kmem where
  "v_pages = \<lparr>pmem = stn 8 (stn 8 (\<lambda>_. 0) KERNBASE (KERNBASE + PGSIZE)) (KERNBASE + PGSIZE) (KERNBASE + 2 * PGSIZE), freelist = KERNBASE, ref_count = (\<lambda>_. 0)\<rparr>"

lemma kalloc_next: "freelist m \<noteq> 0 \<Longrightarrow> \<exists>m'. kalloc m = (freelist m, m') \<and> freelist m' = ldn 8 (pmem m) (freelist m) \<and> pmem m' = memset (pmem m) (freelist m) 5 PGSIZE"
  by (auto simp: kalloc_def run_next_def Let_def)

lemma v_start_booted: "booted v_start"
proof -
  note ld = ldn_stn_same ldn_stn_apart KERNBASE_def PGSIZE_def
  obtain m1 where 1: "kalloc v_pages = (KERNBASE, m1)" "freelist m1 = KERNBASE + PGSIZE" "pmem m1 = memset (pmem v_pages) KERNBASE 5 PGSIZE"
    using kalloc_next [of v_pages] by (auto simp: v_pages_def ld)
  have "ldn 8 (pmem m1) (KERNBASE + PGSIZE) = ldn 8 (pmem v_pages) (KERNBASE + PGSIZE)" unfolding 1(3) by (rule ldn_cong) (simp add: memset_apply)
  then have n: "ldn 8 (pmem m1) (KERNBASE + PGSIZE) = KERNBASE + 2 * PGSIZE" by (simp add: v_pages_def ld)
  obtain m2 where 2: "kalloc m1 = (KERNBASE + PGSIZE, m2)" "freelist m2 = KERNBASE + 2 * PGSIZE"
    using kalloc_next [of m1] 1(2) n by (auto simp: KERNBASE_def)
  obtain m3 where 3: "kalloc m2 = (KERNBASE + 2 * PGSIZE, m3)" using kalloc_next [of m2] 2(2) by (auto simp: KERNBASE_def)
  have "\<exists>w m'. virtio_disk_init v_regs v_pages v_start = Ret w (m', v_start)"
    using 1(1) 2(1) 3 by (auto simp: virtio_disk_init_def v_regs_def NUM_def KERNBASE_def v_start_def)
  then show ?thesis unfolding booted_def by (intro exI [of _ v_regs] exI [of _ v_pages] exI [of _ v_start]) (auto simp: v_start_def)
qed

lemma v_enter: "vstep in_order v_start (rw_enter 0 3 True v_start)"
  by (rule vstep.enter) (simp_all add: v_start_def in_use_def)

theorem disk_requests_served_witness:
  "device_ok in_order \<and> vreach in_order v_start \<and> vstep in_order v_start (rw_enter 0 3 True v_start)
    \<and> (abs_disk (rw_enter 0 3 True v_start) = abs_disk v_start \<or> astep (abs_disk v_start) (abs_disk (rw_enter 0 3 True v_start)))"
  using disk_requests_served [OF in_order_ok vreach.start [OF v_start_booted] v_enter] in_order_ok vreach.start [OF v_start_booted] v_enter by blast


end
