(* ===== verification/Mkfs.thy ===== *)
theory Mkfs
  imports Fs
begin

text \<open>
  The builder of the initial disk image, \<^verbatim>\<open>mkfs/mkfs.c\<close>, which runs on the host. \<open>mkimg\<close> has the image file, block by block with its length, and the two counters \<open>freeinode\<close> and \<open>freeblock\<close>. A \<open>struct dinode\<close> is kept as an \<open>inode\<close> of
  \<open>Fs\<close>, of which only the fields on disk are used; numbers are stored little-endian, which is what \<open>xshort\<close> and \<open>xint\<close> are for. A failed assertion or a call of \<open>die\<close> ends the program: \<open>None\<close>. An argument is a path with what
  the host delivers for it, the blocks \<open>read\<close> returns one after the other, or \<open>None\<close> when it cannot be opened. What is printed is left out.
\<close>

section \<open>Layout\<close>

definition FSSIZE :: nat where "FSSIZE = 4000"
definition NINODES :: nat where "NINODES = 200"
definition nbitmap :: nat where "nbitmap = FSSIZE div BPB + 1"
definition ninodeblocks :: nat where "ninodeblocks = NINODES div IPB + 1"
definition nlog :: nat where "nlog = 30 + 1"
definition nmeta :: nat where "nmeta = 2 + nlog + ninodeblocks + nbitmap"
definition nblocks :: nat where "nblocks = FSSIZE - nmeta"

definition mk_sb :: superblock where
  "mk_sb = \<lparr>sb_magic = FSMAGIC, sb_size = FSSIZE, sb_nblocks = nblocks, sb_ninodes = NINODES, sb_nlog = nlog, sb_logstart = 2,
     sb_inodestart = 2 + nlog, sb_bmapstart = 2 + nlog + ninodeblocks\<rparr>"

definition sb_block :: "superblock \<Rightarrow> mem" where
  "sb_block b = stn 4 (stn 4 (stn 4 (stn 4 (stn 4 (stn 4 (stn 4 (stn 4 (\<lambda>_. 0) 0 (sb_magic b)) 4 (sb_size b)) 8 (sb_nblocks b)) 12 (sb_ninodes b)) 16 (sb_nlog b))
     20 (sb_logstart b)) 24 (sb_inodestart b)) 28 (sb_bmapstart b)"

section \<open>Blocks and inodes\<close>

record mkimg =
  img :: "nat \<Rightarrow> mem"
  img_len :: nat
  freeinode :: nat
  freeblock :: nat

definition wsect :: "nat \<Rightarrow> mem \<Rightarrow> mkimg \<Rightarrow> mkimg" where
  "wsect sec d s = s\<lparr>img := (img s)(sec := d), img_len := max (img_len s) (sec + 1)\<rparr>"

definition rsect :: "nat \<Rightarrow> mkimg \<Rightarrow> mem option" where
  "rsect sec s = (if sec < img_len s then Some (img s sec) else None)"

definition din0 :: inode where
  "din0 = \<lparr>idev = 0, inum = 0, iref = 0, ilocked = False, ivalid = False, itype = 0, imajor = 0, iminor = 0, nlink = 0, isize = 0, addrs = (\<lambda>_. 0)\<rparr>"

definition winode :: "nat \<Rightarrow> inode \<Rightarrow> mkimg \<Rightarrow> mkimg option" where
  "winode n din s = (let bn = IBLOCK n mk_sb in Option.bind (rsect bn s) (\<lambda>d. Some (wsect bn (put_dinode (dinode_off n) din d) s)))"

definition rinode :: "nat \<Rightarrow> mkimg \<Rightarrow> inode option" where
  "rinode n s = Option.bind (rsect (IBLOCK n mk_sb) s) (\<lambda>d. Some (get_dinode (dinode_off n) d din0))"

definition mk_ialloc :: "nat \<Rightarrow> mkimg \<Rightarrow> (nat \<times> mkimg) option" where
  "mk_ialloc typ s =
     (let n = freeinode s; s = s\<lparr>freeinode := freeinode s + 1\<rparr>
      in Option.bind (winode n (din0\<lparr>itype := typ, nlink := 1, isize := 0\<rparr>) s) (\<lambda>s. Some (n, s)))"

text \<open>The loop of \<open>balloc\<close>: the bits of the first \<open>n\<close> blocks.\<close>

fun bitmap :: "nat \<Rightarrow> mem" where
  "bitmap 0 = (\<lambda>_. 0)"
| "bitmap (Suc i) = (bitmap i)(i div 8 := bitmap i (i div 8) OR push_bit (i mod 8) 1)"

definition mk_balloc :: "nat \<Rightarrow> mkimg \<Rightarrow> mkimg option" where
  "mk_balloc n s = (if n < BPB then Some (wsect (sb_bmapstart mk_sb) (bitmap n) s) else None)"

section \<open>Appending to a file\<close>

definition take_block :: "mkimg \<Rightarrow> nat \<times> mkimg" where
  "take_block s = (freeblock s, s\<lparr>freeblock := freeblock s + 1\<rparr>)"

text \<open>The block \<open>fbn\<close> of the file, with the inode and the image after it was found or made.\<close>

definition file_block :: "nat \<Rightarrow> inode \<Rightarrow> mkimg \<Rightarrow> (nat \<times> inode \<times> mkimg) option" where
  "file_block fbn din s =
     (if fbn < NDIRECT
      then let (din, s) = (if addrs din fbn = 0 then let (x, s) = take_block s in (din\<lparr>addrs := (addrs din)(fbn := x)\<rparr>, s) else (din, s))
           in Some (addrs din fbn, din, s)
      else let (din, s) = (if addrs din NDIRECT = 0 then let (x, s) = take_block s in (din\<lparr>addrs := (addrs din)(NDIRECT := x)\<rparr>, s) else (din, s))
           in Option.bind (rsect (addrs din NDIRECT) s) (\<lambda>ind.
                let (ind, s) = (if ldn 4 ind (4 * (fbn - NDIRECT)) = 0
                       then let (x, s) = take_block s; ind = stn 4 ind (4 * (fbn - NDIRECT)) x in (ind, wsect (addrs din NDIRECT) ind s)
                       else (ind, s))
                in Some (ldn 4 ind (4 * (fbn - NDIRECT)), din, s)))"

function append_loop :: "nat \<Rightarrow> byte list \<Rightarrow> inode \<Rightarrow> mkimg \<Rightarrow> (nat \<times> inode \<times> mkimg) option" where
  "append_loop off p din s =
     (if p = [] then Some (off, din, s)
      else let fbn = off div FS_BSIZE
           in if fbn < MAXFILE
              then Option.bind (file_block fbn din s) (\<lambda>(x, din, s).
                     let n1 = min (length p) ((fbn + 1) * FS_BSIZE - off)
                     in Option.bind (rsect x s) (\<lambda>buf.
                          append_loop (off + n1) (drop n1 p) din (wsect x (put_block_bytes buf (off - fbn * FS_BSIZE) (take n1 p)) s)))
              else None)"
  by auto
termination
proof (relation "measure (\<lambda>(off, p, din, s). length p)")
  fix off :: nat and p :: "byte list" and fbn n1
  assume "p \<noteq> []" "fbn = off div FS_BSIZE" "n1 = min (length p) ((fbn + 1) * FS_BSIZE - off)"
  moreover have "off < (off div FS_BSIZE + 1) * FS_BSIZE" using dividend_less_div_times [of FS_BSIZE off] by (simp add: FS_BSIZE_def)
  ultimately have "length (drop n1 p) < length p" by (cases p) auto
  then show "((off + n1, drop n1 p, din', s'), off, p, din, s) \<in> measure (\<lambda>(off, p, din, s). length p)" for din' s' din s by simp
qed simp

declare append_loop.simps [simp del]

definition iappend :: "nat \<Rightarrow> byte list \<Rightarrow> mkimg \<Rightarrow> mkimg option" where
  "iappend n p s =
     Option.bind (rinode n s) (\<lambda>din.
     Option.bind (append_loop (isize din) p din s) (\<lambda>(off, din, s).
       winode n (din\<lparr>isize := off\<rparr>) s))"

section \<open>The whole image\<close>

definition user_prefix :: "byte list" where "user_prefix = [117, 115, 101, 114, 47]"

text \<open>The name of the file in the root directory, if the assertions on it hold.\<close>

definition shortname :: "byte list \<Rightarrow> byte list option" where
  "shortname path =
     (let nm = (if take 5 path = user_prefix then drop 5 path else path)
      in if 47 \<in> set nm then None
         else let nm = (if nm \<noteq> [] \<and> nm ! 0 = 95 then drop 1 nm else nm) in if length nm \<le> DIRSIZ then Some nm else None)"

fun append_all :: "nat \<Rightarrow> byte list list \<Rightarrow> mkimg \<Rightarrow> mkimg option" where
  "append_all n [] s = Some s"
| "append_all n (c # cs) s = Option.bind (iappend n c s) (append_all n cs)"

definition add_file :: "nat \<Rightarrow> byte list \<Rightarrow> byte list list option \<Rightarrow> mkimg \<Rightarrow> mkimg option" where
  "add_file rootino path contents s =
     Option.bind (shortname path) (\<lambda>nm.
     Option.bind contents (\<lambda>cs.
     Option.bind (mk_ialloc T_FILE s) (\<lambda>(n, s).
     Option.bind (iappend rootino (dirent n nm) s) (\<lambda>s. append_all n cs s))))"

fun add_files :: "nat \<Rightarrow> (byte list \<times> byte list list option) list \<Rightarrow> mkimg \<Rightarrow> mkimg option" where
  "add_files rootino [] s = Some s"
| "add_files rootino ((path, contents) # fs) s = Option.bind (add_file rootino path contents s) (add_files rootino fs)"

definition zero_image :: mkimg where
  "zero_image = fold (\<lambda>i. wsect i (\<lambda>_. 0)) [0..<FSSIZE] \<lparr>img = (\<lambda>_ _. 0), img_len = 0, freeinode = 1, freeblock = nmeta\<rparr>"

definition fix_root :: "nat \<Rightarrow> mkimg \<Rightarrow> mkimg option" where
  "fix_root rootino s = Option.bind (rinode rootino s) (\<lambda>din. winode rootino (din\<lparr>isize := (isize din div FS_BSIZE + 1) * FS_BSIZE\<rparr>) s)"

definition mkfs :: "(byte list \<times> byte list list option) list \<Rightarrow> mkimg option" where
  "mkfs files =
     Option.bind (mk_ialloc T_DIR (wsect 1 (sb_block mk_sb) zero_image)) (\<lambda>(rootino, s).
       if rootino \<noteq> ROOTINO then None
       else Option.bind (iappend rootino (dirent rootino [46]) s) (\<lambda>s.
            Option.bind (iappend rootino (dirent rootino [46, 46]) s) (\<lambda>s.
            Option.bind (add_files rootino files s) (\<lambda>s.
            Option.bind (fix_root rootino s) (\<lambda>s. mk_balloc (freeblock s) s)))))"

end
