(* ===== verification/Mkfs_Props.thy ===== *)
theory Mkfs_Props
  imports Mkfs Fs_Dir
begin

text \<open>
  The image as the kernel sees it: \<open>kv s n din\<close> is the kernel's state over the image, with the inodes below \<open>NINODES\<close> as they are on disk and inode \<open>n\<close> as in \<open>din\<close>; the free map has the bits that \<open>balloc\<close> will write at the end. On it every routine of
  \<^verbatim>\<open>mkfs.c\<close> does what the kernel's own does: \<open>iappend\<close> is \<open>writei\<close> at the end of the file. So what is known of \<open>writei\<close> holds of the image.
\<close>

section \<open>Numbers\<close>

lemma mk_numbers [simp]:
  "sb_bmapstart mk_sb = 46" "sb_inodestart mk_sb = 33" "sb_size mk_sb = FSSIZE" "sb_ninodes mk_sb = NINODES" "nmeta = 47"
  by (simp_all add: mk_sb_def nlog_def ninodeblocks_def nbitmap_def nmeta_def NINODES_def IPB_def FS_BSIZE_def DINODE_SIZE_def FSSIZE_def BPB_def)

lemma BBLOCK_mk: "b < FSSIZE \<Longrightarrow> BBLOCK b mk_sb = 46"
  by (simp add: BBLOCK_def BPB_def FS_BSIZE_def FSSIZE_def)

lemma IBLOCK_mk: "n < NINODES \<Longrightarrow> IBLOCK n mk_sb < 46" "33 \<le> IBLOCK n mk_sb"
proof -
  show "33 \<le> IBLOCK n mk_sb" by (simp add: IBLOCK_def)
  assume "n < NINODES"
  then have "n div IPB < 13" by (simp add: NINODES_def IPB_def FS_BSIZE_def DINODE_SIZE_def)
  then show "IBLOCK n mk_sb < 46" by (simp add: IBLOCK_def)
qed

lemma dstart_mk: "sb s = mk_sb \<Longrightarrow> dstart s = 47"
  by (simp add: dstart_def BPB_def FS_BSIZE_def FSSIZE_def)

section \<open>Inodes on disk\<close>

lemma put_addrs_outside: "x < off \<or> off + 4 * n \<le> x \<Longrightarrow> put_addrs n a off d x = d x"
  by (induction n) (auto simp: stn_outside)

lemma put_addrs_get: "i < n \<Longrightarrow> ldn 4 (put_addrs n a off d) (off + 4 * i) = a i mod 2 ^ 32"
proof (induction n)
  case (Suc n)
  then show ?case by (cases "i = n") (simp_all add: ldn_stn_same ldn_stn_apart)
qed simp

lemma ldn_put_addrs: "a + k \<le> off \<or> off + 4 * n \<le> a \<Longrightarrow> ldn k (put_addrs n f off d) a = ldn k d a"
  by (rule ldn_cong) (auto simp: put_addrs_outside)

lemma put_dinode_outside: "x < off \<or> off + 64 \<le> x \<Longrightarrow> put_dinode off ip d x = d x"
  by (auto simp: put_dinode_def put_addrs_outside NDIRECT_def stn_outside)

lemma get_put_dinode:
  "get_dinode off (put_dinode off ip d) ip0 =
     ip0\<lparr>itype := itype ip mod 2 ^ 16, imajor := imajor ip mod 2 ^ 16, iminor := iminor ip mod 2 ^ 16, nlink := nlink ip mod 2 ^ 16, isize := isize ip mod 2 ^ 32,
       addrs := (\<lambda>i. if i \<le> NDIRECT then addrs ip i mod 2 ^ 32 else addrs ip0 i)\<rparr>"
  by (simp add: get_dinode_def put_dinode_def put_addrs_get ldn_put_addrs ldn_stn_same ldn_stn_apart fun_eq_iff less_Suc_eq_le del: put_addrs.simps)

lemma get_dinode_apart:
  assumes "\<And>x. off \<le> x \<Longrightarrow> x < off + 64 \<Longrightarrow> d' x = d x"
  shows "get_dinode off d' ip = get_dinode off d ip"
proof -
  have "ldn k d' a = ldn k d a" if "off \<le> a" "a + k \<le> off + 64" for k a using assms that by (intro ldn_cong) auto
  then show ?thesis by (auto simp: get_dinode_def NDIRECT_def fun_eq_iff)
qed

lemma dinode_apart:
  assumes "IBLOCK n mk_sb = IBLOCK m mk_sb" "n \<noteq> m"
  shows "dinode_off n + 64 \<le> dinode_off m \<or> dinode_off m + 64 \<le> dinode_off n"
proof -
  have "n div IPB = m div IPB" using assms(1) by (simp add: IBLOCK_def)
  then have "n mod IPB \<noteq> m mod IPB" using assms(2) by (metis div_mult_mod_eq)
  then have "n mod IPB + 1 \<le> m mod IPB \<or> m mod IPB + 1 \<le> n mod IPB" by linarith
  then show ?thesis unfolding dinode_off_def DINODE_SIZE_def by linarith
qed

text \<open>Inodes that are the same after a round trip over the disk.\<close>

definition canon :: "inode \<Rightarrow> bool" where
  "canon ip \<longleftrightarrow> idev ip = 0 \<and> inum ip = 0 \<and> iref ip = 0 \<and> \<not> ilocked ip \<and> \<not> ivalid ip \<and> itype ip < 2 ^ 16 \<and> imajor ip < 2 ^ 16 \<and> iminor ip < 2 ^ 16 \<and> nlink ip < 2 ^ 16
     \<and> isize ip < 2 ^ 32 \<and> (\<forall>i. addrs ip i < 2 ^ 32 \<and> (NDIRECT < i \<longrightarrow> addrs ip i = 0))"

lemma canon_get: "canon (get_dinode off d din0)"
  using ldn_less [of 2 d] ldn_less [of 4 d] by (simp add: canon_def get_dinode_def din0_def)

lemma canon_round: "canon ip \<Longrightarrow> get_dinode off (put_dinode off ip d) din0 = ip"
  unfolding get_put_dinode by (rule inode.equality) (auto simp: canon_def din0_def fun_eq_iff)

lemma canon_addr: "canon ip \<Longrightarrow> a < 2 ^ 32 \<Longrightarrow> i \<le> NDIRECT \<Longrightarrow> canon (ip\<lparr>addrs := (addrs ip)(i := a)\<rparr>)"
  by (simp add: canon_def)

lemma canon_size: "canon ip \<Longrightarrow> z < 2 ^ 32 \<Longrightarrow> canon (ip\<lparr>isize := z\<rparr>)"
  by (simp add: canon_def)

lemma put_dinode_inum: "put_dinode off (ip\<lparr>inum := n\<rparr>) d = put_dinode off ip d"
  by (simp add: put_dinode_def)

section \<open>The view\<close>

definition load :: "nat \<Rightarrow> mkimg \<Rightarrow> inode" where
  "load n s = get_dinode (dinode_off n) (img s (IBLOCK n mk_sb)) din0"

definition kv :: "mkimg \<Rightarrow> nat \<Rightarrow> inode \<Rightarrow> fs" where
  "kv s n din = \<lparr>blocks = (img s)(46 := bitmap (freeblock s)), sb = mk_sb,
     itable = (\<lambda>j. if j < NINODES then (load j s)\<lparr>inum := j\<rparr> else din0)(n := din\<lparr>inum := n\<rparr>)\<rparr>"

definition mk_ok :: "mkimg \<Rightarrow> bool" where
  "mk_ok s \<longleftrightarrow> img_len s = FSSIZE \<and> 47 \<le> freeblock s \<and> freeblock s \<le> FSSIZE \<and> (\<forall>b. freeblock s \<le> b \<longrightarrow> img s b = (\<lambda>_. 0))"

lemma kv_fields [simp]: "sb (kv s n din) = mk_sb" "itable (kv s n din) n = din\<lparr>inum := n\<rparr>" "b \<noteq> 46 \<Longrightarrow> blocks (kv s n din) b = img s b" "blocks (kv s n din) 46 = bitmap (freeblock s)"
  by (simp_all add: kv_def)

lemma bitmap_bit: "bit (bitmap u (b div 8)) (b mod 8) \<longleftrightarrow> b < u"
proof (induction u)
  case (Suc u)
  show ?case
  proof (cases "b div 8 = u div 8")
    case True
    have "bit (push_bit (u mod 8) 1 :: byte) (b mod 8) \<longleftrightarrow> b mod 8 = u mod 8" by (auto simp: bit_simps)
    moreover have "b mod 8 = u mod 8 \<longleftrightarrow> b = u" using True by (metis div_mult_mod_eq)
    ultimately show ?thesis using True Suc by (auto simp: bit_or_iff)
  next
    case False
    then have "b \<noteq> u" by auto
    then show ?thesis using False Suc by auto
  qed
qed simp

lemma small_mod: "b < FSSIZE \<Longrightarrow> b mod BPB = b"
  by (simp add: BPB_def FS_BSIZE_def FSSIZE_def)

lemma kv_used: "b < FSSIZE \<Longrightarrow> used (kv s n din) b \<longleftrightarrow> b < freeblock s"
  using bitmap_bit [of "freeblock s" b] by (simp add: used_def bit_byte_def BBLOCK_mk small_mod)

lemma kv_fs_ok: "mk_ok s \<Longrightarrow> fs_ok (kv s n din)"
  unfolding fs_ok_def layout_ok_def dstart_mk [OF kv_fields(1)] using kv_used
  by (auto simp: mk_ok_def FSSIZE_def NINODES_def IPB_def FS_BSIZE_def DINODE_SIZE_def)

lemma find_least: "a < b \<Longrightarrow> P a \<Longrightarrow> (\<And>i. i < a \<Longrightarrow> \<not> P i) \<Longrightarrow> find P [0..<b] = Some a"
  using find_first [of a b P id] by simp

lemma load_cong: "img s' (IBLOCK n mk_sb) = img s (IBLOCK n mk_sb) \<Longrightarrow> load n s' = load n s"
  by (simp add: load_def)

lemma kv_balloc:
  assumes "mk_ok s" "freeblock s < FSSIZE"
  shows "balloc (kv s n din) = (freeblock s, kv (s\<lparr>freeblock := freeblock s + 1\<rparr>) n din)"
proof -
  let ?u = "freeblock s"
  have "find (\<lambda>b. bit_byte (kv s n din) b AND bitmask (b mod BPB) = 0) [0..<sb_size (sb (kv s n din))] = Some ?u"
    unfolding free_iff by (rule find_least) (use assms(2) kv_used [of _ s n din] in auto)
  then have r: "balloc (kv s n din) = (?u, bzero ?u (set_bit_byte ?u (bit_byte (kv s n din) ?u OR bitmask (?u mod BPB)) (kv s n din)))" by (simp add: balloc_def)
  have z: "img s ?u = (\<lambda>_. 0)" "?u \<noteq> 46" using assms(1) by (auto simp: mk_ok_def)
  have "memset (img s ?u) 0 0 FS_BSIZE = img s ?u" using z(1) by (auto simp: fun_eq_iff memset_apply)
  then have "bzero ?u (set_bit_byte ?u (bit_byte (kv s n din) ?u OR bitmask (?u mod BPB)) (kv s n din)) = kv (s\<lparr>freeblock := freeblock s + 1\<rparr>) n din"
    using z(2) assms(2) by (auto simp: bzero_def set_bit_byte_def set_block_def bit_byte_def BBLOCK_mk small_mod bitmask_def kv_def load_def fun_eq_iff)
  then show ?thesis using r by simp
qed

lemma kv_wsect:
  assumes "47 \<le> b" "b < FSSIZE" "mk_ok s"
  shows "kv (wsect b d s) n din = set_block b d (kv s n din)" "img_len (wsect b d s) = img_len s" "b < freeblock s \<Longrightarrow> mk_ok (wsect b d s)"
proof -
  have "load j (wsect b d s) = load j s" if "j < NINODES" for j
    using IBLOCK_mk(1) [OF that] assms(1) by (intro load_cong) (simp add: wsect_def)
  then show "kv (wsect b d s) n din = set_block b d (kv s n din)"
    using assms(1) by (auto simp: kv_def set_block_def wsect_def fun_eq_iff)
  show "img_len (wsect b d s) = img_len s" "b < freeblock s \<Longrightarrow> mk_ok (wsect b d s)" using assms by (auto simp: wsect_def mk_ok_def)
qed

lemma mk_ok_take: "mk_ok s \<Longrightarrow> freeblock s < FSSIZE \<Longrightarrow> mk_ok (s\<lparr>freeblock := freeblock s + 1\<rparr>)"
  by (simp add: mk_ok_def)

lemma kv_set_addr: "set_inode n (\<lambda>ip. ip\<lparr>addrs := (addrs ip)(i := x)\<rparr>) (kv s n din) = kv s n (din\<lparr>addrs := (addrs din)(i := x)\<rparr>)"
  by (cases din) (simp add: set_inode_def kv_def)


section \<open>The blocks of a file\<close>

lemma rsect_Some: "mk_ok s \<Longrightarrow> rsect b s = Some d \<longleftrightarrow> b < FSSIZE \<and> d = img s b"
  by (auto simp: rsect_def mk_ok_def)

lemma kv_data: "data_block (kv s n din) b \<longleftrightarrow> 47 \<le> b \<and> b < FSSIZE \<and> b < freeblock s"
  using kv_used [of b s n din] by (auto simp: data_block_def dstart_mk)

lemma file_block_direct:
  assumes "mk_ok s" "canon din" "fbn < NDIRECT" "file_block fbn din s = Some (x, din', s')" "x < FSSIZE"
  shows "bmap n fbn (kv s n din) = Ret x (kv s' n din') \<and> mk_ok s' \<and> canon din' \<and> x \<noteq> 0"
proof (cases "addrs din fbn = 0")
  case True
  then have x: "x = freeblock s" "din' = din\<lparr>addrs := (addrs din)(fbn := x)\<rparr>" "s' = s\<lparr>freeblock := freeblock s + 1\<rparr>"
    using assms(3,4) by (auto simp: file_block_def take_block_def)
  have f: "freeblock s < FSSIZE" "x \<noteq> 0" using assms(1,5) x(1) by (auto simp: mk_ok_def)
  have "canon din'" unfolding x(2) by (rule canon_addr) (use assms in \<open>auto simp: FSSIZE_def\<close>)
  moreover have "bmap n fbn (kv s n din) = Ret x (kv s' n din')"
    using True assms(3) f(2) kv_balloc [OF assms(1) f(1), of n din] unfolding x(2,3) kv_set_addr [symmetric] by (simp add: bmap_def x(1))
  ultimately show ?thesis using mk_ok_take [OF assms(1) f(1)] x(3) f(2) by simp
next
  case False
  then show ?thesis using assms by (auto simp: file_block_def bmap_def)
qed

lemma file_block_entry:
  assumes "mk_ok s" "canon din" "j < NINDIRECT" "addrs din NDIRECT \<noteq> 0" "data_block (kv s n din) (addrs din NDIRECT)"
    and r: "file_block (NDIRECT + j) din s = Some (x, din', s')" "x < FSSIZE"
  shows "bmap n (NDIRECT + j) (kv s n din) = Ret x (kv s' n din') \<and> mk_ok s' \<and> canon din' \<and> x \<noteq> 0"
proof -
  let ?i = "addrs din NDIRECT"
  have i: "47 \<le> ?i" "?i < FSSIZE" "?i < freeblock s" using assms(5) by (auto simp: kv_data)
  then have rs: "rsect ?i s = Some (img s ?i)" using rsect_Some [OF assms(1)] by simp
  have ib: "blocks (kv s n din) ?i = img s ?i" using i by simp
  have bm: "bmap n (NDIRECT + j) (kv s n din) = (if ldn 4 (img s ?i) (4 * j) = 0
      then let (addr, t) = balloc (kv s n din) in Ret addr (if addr \<noteq> 0 then set_block ?i (stn 4 (blocks t ?i) (4 * j) addr) t else t)
      else Ret (ldn 4 (img s ?i) (4 * j)) (kv s n din))"
    using assms(3,4) ib by (simp add: bmap_def)
  show ?thesis
  proof (cases "ldn 4 (img s ?i) (4 * j) = 0")
    case True
    let ?s = "s\<lparr>freeblock := freeblock s + 1\<rparr>"
    have x: "x = freeblock s mod 2 ^ 32" "din' = din" "s' = wsect ?i (stn 4 (img s ?i) (4 * j) (freeblock s)) ?s"
      using r(1) assms(4) rs True by (auto simp: file_block_def take_block_def Let_def ldn_stn_same)
    have f: "freeblock s < FSSIZE"
    proof (rule ccontr)
      assume "\<not> freeblock s < FSSIZE"
      then have "freeblock s = FSSIZE" using assms(1) by (simp add: mk_ok_def)
      then show False using x(1) r(2) by (simp add: FSSIZE_def)
    qed
    then have xf: "x = freeblock s" "x \<noteq> 0" using x(1) assms(1) by (auto simp: mk_ok_def FSSIZE_def)
    have ok: "mk_ok ?s" by (rule mk_ok_take [OF assms(1) f])
    note W = kv_wsect [OF i(1,2) ok]
    have "mk_ok s'" unfolding x(3) by (rule W(3)) (use i(3) in simp)
    moreover have "bmap n (NDIRECT + j) (kv s n din) = Ret x (kv s' n din')"
      unfolding bm x(2,3) W(1) kv_balloc [OF assms(1) f] using True xf i(1) by simp
    ultimately show ?thesis using x(2) assms(2) xf(2) by simp
  next
    case False
    then have "x = ldn 4 (img s ?i) (4 * j)" "din' = din" "s' = s" using r(1) assms(4) rs by (auto simp: file_block_def)
    then show ?thesis unfolding bm using False assms(1,2) by simp
  qed
qed

lemma file_block_sim:
  assumes "mk_ok s" "canon din" "inode_ok (kv s n din) n" "fbn < MAXFILE" and r: "file_block fbn din s = Some (x, din', s')" "x < FSSIZE"
  shows "bmap n fbn (kv s n din) = Ret x (kv s' n din') \<and> mk_ok s' \<and> canon din' \<and> x \<noteq> 0"
proof (cases "fbn < NDIRECT")
  case True
  then show ?thesis using file_block_direct assms by blast
next
  case False
  then obtain j where j: "fbn = NDIRECT + j" "j < NINDIRECT" using assms(4) by (metis MAXFILE_def add_less_cancel_left le_add_diff_inverse not_less)
  show ?thesis
  proof (cases "addrs din NDIRECT = 0")
    case False
    then have "data_block (kv s n din) (addrs din NDIRECT)" using assms(3) by (simp add: inode_ok_def indirect_def)
    then show ?thesis using file_block_entry [OF assms(1,2) j(2) False] r j(1) by simp
  next
    case True
    let ?u = "freeblock s" and ?s = "s\<lparr>freeblock := freeblock s + 1\<rparr>"
    let ?d = "din\<lparr>addrs := (addrs din)(NDIRECT := ?u)\<rparr>"
    have u0: "?u \<noteq> 0" "47 \<le> ?u" using assms(1) by (auto simp: mk_ok_def)
    have fb: "file_block fbn din s = file_block fbn ?d ?s" using True u0 j(1) by (simp add: file_block_def take_block_def)
    have f: "?u < FSSIZE"
    proof (rule ccontr)
      assume "\<not> ?u < FSSIZE"
      then have "rsect ?u ?s = None" using assms(1) by (simp add: rsect_def mk_ok_def)
      then have "file_block fbn ?d ?s = None" using u0 j(1) by (simp add: file_block_def)
      then show False using r(1) fb by simp
    qed
    have ok: "mk_ok ?s" by (rule mk_ok_take [OF assms(1) f])
    have cd: "canon ?d" by (rule canon_addr [OF assms(2)]) (use f in \<open>simp_all add: FSSIZE_def\<close>)
    have dd: "data_block (kv ?s n ?d) (addrs ?d NDIRECT)" using f u0 by (simp add: kv_data)
    have S: "bmap n (NDIRECT + j) (kv ?s n ?d) = Ret x (kv s' n din') \<and> mk_ok s' \<and> canon din' \<and> x \<noteq> 0"
      by (rule file_block_entry [OF ok cd j(2) _ dd]) (use r fb j(1) u0 in simp_all)
    have "bmap n fbn (kv s n din) = bmap n fbn (kv ?s n ?d)"
      using True u0 j kv_balloc [OF assms(1) f, of n din] by (simp add: bmap_def kv_set_addr)
    then show ?thesis using S j(1) by simp
  qed
qed


section \<open>Appending\<close>

lemma block_room:
  "off < (off div FS_BSIZE + 1) * FS_BSIZE" "(off div FS_BSIZE + 1) * FS_BSIZE - off = FS_BSIZE - off mod FS_BSIZE" "off - off div FS_BSIZE * FS_BSIZE = off mod FS_BSIZE"
proof -
  have "off = off div FS_BSIZE * FS_BSIZE + off mod FS_BSIZE" "off mod FS_BSIZE < FS_BSIZE" by (simp_all add: FS_BSIZE_def)
  then show "off < (off div FS_BSIZE + 1) * FS_BSIZE" "(off div FS_BSIZE + 1) * FS_BSIZE - off = FS_BSIZE - off mod FS_BSIZE" "off - off div FS_BSIZE * FS_BSIZE = off mod FS_BSIZE"
    unfolding add_mult_distrib by linarith+
qed

lemma file_block_len: "file_block fbn din s = Some (x, din', s') \<Longrightarrow> img_len s' = img_len s"
  by (auto simp: file_block_def take_block_def rsect_def wsect_def Let_def split: if_splits Option.bind_splits)

lemma append_fits: "append_loop off p din s = Some (off', din', s') \<Longrightarrow> off' = off + length p \<and> (p = [] \<or> off + length p \<le> MAXFILE * FS_BSIZE)"
proof (induction off p din s rule: append_loop.induct)
  case (1 off p din s)
  show ?case
  proof (cases "p = []")
    case True
    then show ?thesis using 1(2) by (subst (asm) append_loop.simps) simp
  next
    case False
    let ?f = "off div FS_BSIZE" and ?n = "min (length p) ((off div FS_BSIZE + 1) * FS_BSIZE - off)"
    from 1(2) False obtain x d1 s1 buf where r: "?f < MAXFILE" "file_block ?f din s = Some (x, d1, s1)" "rsect x s1 = Some buf"
        "append_loop (off + ?n) (drop ?n p) d1 (wsect x (put_block_bytes buf (off - ?f * FS_BSIZE) (take ?n p)) s1) = Some (off', din', s')"
      by (subst (asm) append_loop.simps) (auto simp: Let_def split: if_splits Option.bind_splits)
    have IH: "off' = off + ?n + length (drop ?n p) \<and> (drop ?n p = [] \<or> off + ?n + length (drop ?n p) \<le> MAXFILE * FS_BSIZE)"
      by (rule 1(1) [OF False refl r(1,2) refl refl refl r(3) r(4)])
    have "off + ?n \<le> (?f + 1) * FS_BSIZE" using block_room(1) [of off] by linarith
    also have "\<dots> \<le> MAXFILE * FS_BSIZE" using r(1) by (intro mult_le_mono1) simp
    finally show ?thesis using IH by auto
  qed
qed

lemma append_loop_sim:
  "mk_ok s \<Longrightarrow> canon din \<Longrightarrow> inode_ok (kv s n din) n \<Longrightarrow> append_loop off p din s = Some (off', din', s') \<Longrightarrow> p = drop src buf \<Longrightarrow> src \<le> length buf \<Longrightarrow>
    write_loop kernel_source n src off (length p) tot (kv s n din, buf) = Ret (tot + length p, off') (kv s' n din', buf)
    \<and> mk_ok s' \<and> canon din' \<and> inode_ok (kv s' n din') n"
proof (induction off p din s arbitrary: src tot rule: append_loop.induct)
  case (1 off p din s)
  show ?case
  proof (cases "p = []")
    case True
    then show ?thesis using 1(2-5) by (subst (asm) append_loop.simps, subst write_loop.simps) simp
  next
    case False
    let ?f = "off div FS_BSIZE" and ?n = "min (length p) ((off div FS_BSIZE + 1) * FS_BSIZE - off)"
    from 1(5) False obtain x d1 s1 blk where r: "?f < MAXFILE" "file_block ?f din s = Some (x, d1, s1)" "rsect x s1 = Some blk"
        "append_loop (off + ?n) (drop ?n p) d1 (wsect x (put_block_bytes blk (off - ?f * FS_BSIZE) (take ?n p)) s1) = Some (off', din', s')"
      by (subst (asm) append_loop.simps) (auto simp: Let_def split: if_splits Option.bind_splits)
    note room = block_room [of off]
    have len: "img_len s1 = FSSIZE" using file_block_len [OF r(2)] 1(2) by (simp add: mk_ok_def)
    then have x: "x < FSSIZE" "blk = img s1 x" using r(3) by (auto simp: rsect_def split: if_splits)
    have B: "bmap n ?f (kv s n din) = Ret x (kv s1 n d1)" "mk_ok s1" "canon d1" "x \<noteq> 0" using file_block_sim [OF 1(2,3,4) r(1,2) x(1)] by simp_all
    obtain a t where b: "bmap n ?f (kv s n din) = Ret a t" "same_file (kv s n din) n t" "iaddr t n ?f = a" using bmap_ok [OF kv_fs_ok [OF 1(2)] 1(4) r(1)] by blast
    have t: "a = x" "t = kv s1 n d1" using b(1) B(1) by simp_all
    have ok1: "fs_ok (kv s1 n d1)" "inode_ok (kv s1 n d1) n" "iaddr (kv s1 n d1) n ?f = x" using b(2,3) t by (simp_all add: same_file_def)
    have "data_block (kv s1 n d1) x" using ok1(2,3) r(1) B(4) by (auto simp: inode_ok_def)
    then have xd: "47 \<le> x" "x < freeblock s1" by (simp_all add: kv_data)
    let ?u = "wsect x (put_block_bytes blk (off - ?f * FS_BSIZE) (take ?n p)) s1"
    note W = kv_wsect(1) [OF xd(1) x(1) B(2), of "put_block_bytes blk (off - ?f * FS_BSIZE) (take ?n p)" n d1]
    have lt: "length (take ?n p) = ?n" by simp
    have fits: "off mod FS_BSIZE + length (take ?n p) \<le> FS_BSIZE" proof -
      have "off mod FS_BSIZE < FS_BSIZE" by (simp add: FS_BSIZE_def)
      moreover have "?n \<le> FS_BSIZE - off mod FS_BSIZE" unfolding room(2) by (rule min.cobounded2)
      ultimately show ?thesis unfolding lt by linarith
    qed
    have bx: "blocks (kv s1 n d1) x = blk" using xd x(2) by simp
    have iu: "inode_ok (kv ?u n d1) n" using write_block [OF ok1(1,2,3) B(4) r(1) fits] W room(3) bx by (simp add: wrote_def)
    have IH: "write_loop kernel_source n (src + ?n) (off + ?n) (length (drop ?n p)) (tot + ?n) (kv ?u n d1, buf) = Ret (tot + ?n + length (drop ?n p), off') (kv s' n din', buf)
      \<and> mk_ok s' \<and> canon din' \<and> inode_ok (kv s' n din') n"
      by (rule 1(1) [OF False refl r(1,2) refl refl refl r(3) kv_wsect(3) [OF xd(1) x(1) B(2) xd(2)] B(3) iu r(4)]) (use 1(6,7) in \<open>simp_all add: add.commute\<close>)
    have src: "kernel_source src ?n buf = Ret (0, take ?n p) buf"
      using 1(6,7) by (auto simp: kernel_source_def intro!: nth_equalityI)
    have "write_loop kernel_source n src off (length p) tot (kv s n din, buf) = write_loop kernel_source n (src + ?n) (off + ?n) (length p - ?n) (tot + ?n) (kv ?u n d1, buf)"
      using False B(1,4) src W room bx by (subst write_loop.simps) (simp add: on_fs_def on_mem_def Let_def)
    then show ?thesis using IH by simp
  qed
qed


lemma file_block_inode: "file_block fbn din s = Some (x, din', s') \<Longrightarrow> freeinode s' = freeinode s \<and> isize din' = isize din"
  by (auto simp: file_block_def take_block_def wsect_def Let_def split: if_splits Option.bind_splits)

lemma append_loop_inode: "append_loop off p din s = Some (off', din', s') \<Longrightarrow> freeinode s' = freeinode s \<and> isize din' = isize din"
proof (induction off p din s rule: append_loop.induct)
  case (1 off p din s)
  show ?case
  proof (cases "p = []")
    case True
    then show ?thesis using 1(2) by (subst (asm) append_loop.simps) simp
  next
    case False
    let ?f = "off div FS_BSIZE" and ?n = "min (length p) ((off div FS_BSIZE + 1) * FS_BSIZE - off)"
    from 1(2) False obtain x d1 s1 buf where r: "?f < MAXFILE" "file_block ?f din s = Some (x, d1, s1)" "rsect x s1 = Some buf"
        "append_loop (off + ?n) (drop ?n p) d1 (wsect x (put_block_bytes buf (off - ?f * FS_BSIZE) (take ?n p)) s1) = Some (off', din', s')"
      by (subst (asm) append_loop.simps) (auto simp: Let_def split: if_splits Option.bind_splits)
    have "freeinode s' = freeinode (wsect x (put_block_bytes buf (off - ?f * FS_BSIZE) (take ?n p)) s1) \<and> isize din' = isize d1"
      by (rule 1(1) [OF False refl r(1,2) refl refl refl r(3) r(4)])
    then show ?thesis using file_block_inode [OF r(2)] by (simp add: wsect_def)
  qed
qed

section \<open>Inodes and the view\<close>

definition kview :: "mkimg \<Rightarrow> fs" where
  "kview s = \<lparr>blocks = (img s)(46 := bitmap (freeblock s)), sb = mk_sb, itable = (\<lambda>j. if j < NINODES then (load j s)\<lparr>inum := j\<rparr> else din0)\<rparr>"

lemma kv_load: "n < NINODES \<Longrightarrow> kv s n (load n s) = kview s"
  by (auto simp: kv_def kview_def)

lemma kview_inode: "n < NINODES \<Longrightarrow> itable (kview s) n = (load n s)\<lparr>inum := n\<rparr>" "sb (kview s) = mk_sb"
  by (simp_all add: kview_def)

lemma wsect_fields: "img (wsect b d s) = (img s)(b := d)" "freeblock (wsect b d s) = freeblock s" "freeinode (wsect b d s) = freeinode s"
  by (simp_all add: wsect_def)

lemma winode_sim:
  assumes "mk_ok s" "n < NINODES" "canon din"
  obtains s' where "winode n din s = Some s'" "mk_ok s'" "kview s' = iupdate n (kv s n din)" "load n s' = din" "freeinode s' = freeinode s"
    "\<And>j. j < NINODES \<Longrightarrow> j \<noteq> n \<Longrightarrow> load j s' = load j s" "freeblock s' = freeblock s" "\<And>b. b < 33 \<or> 46 \<le> b \<Longrightarrow> img s' b = img s b"
proof -
  let ?b = "IBLOCK n mk_sb"
  let ?s = "wsect ?b (put_dinode (dinode_off n) din (img s ?b)) s"
  note b = IBLOCK_mk(1) [OF assms(2)] IBLOCK_mk(2) [of n]
  have len: "img_len s = FSSIZE" using assms(1) by (simp add: mk_ok_def)
  then have w: "winode n din s = Some ?s" using b by (simp add: winode_def rsect_def FSSIZE_def Let_def)
  have ok: "mk_ok ?s" using assms(1) b by (auto simp: mk_ok_def wsect_def FSSIZE_def)
  have ld: "load n ?s = din" using canon_round [OF assms(3)] by (simp add: load_def wsect_def)
  have other: "load j ?s = load j s" if "j < NINODES" "j \<noteq> n" for j
  proof (cases "IBLOCK j mk_sb = ?b")
    case True
    then have "dinode_off j + 64 \<le> dinode_off n \<or> dinode_off n + 64 \<le> dinode_off j" using dinode_apart that(2) by blast
    then show ?thesis unfolding load_def True by (intro get_dinode_apart) (auto simp: wsect_def put_dinode_outside)
  qed (simp add: load_def wsect_def)
  have "kview ?s = kv ?s n din" using kv_load [OF assms(2), of ?s] ld by simp
  also have "\<dots> = iupdate n (kv s n din)"
  proof -
    have "(\<lambda>j. if j < NINODES then (load j ?s)\<lparr>inum := j\<rparr> else din0)(n := din\<lparr>inum := n\<rparr>) = (\<lambda>j. if j < NINODES then (load j s)\<lparr>inum := j\<rparr> else din0)(n := din\<lparr>inum := n\<rparr>)"
      using other by (auto simp: fun_eq_iff)
    then show ?thesis using b by (auto simp: iupdate_def kv_def set_block_def put_dinode_inum wsect_fields Let_def fun_upd_twist)
  qed
  finally show ?thesis by (rule that [OF w ok _ ld _ other]) (use b in \<open>auto simp: wsect_fields\<close>)
qed

lemma kv_size: "set_inode n (\<lambda>ip. ip\<lparr>isize := z\<rparr>) (kv s n din) = kv s n (din\<lparr>isize := z\<rparr>)"
  by (cases din) (simp add: set_inode_def kv_def)

lemma iappend_sim:
  assumes "mk_ok s" "n < NINODES" "inode_ok (kview s) n" "isize (load n s) \<le> MAXFILE * FS_BSIZE" "iappend n p s = Some s'"
  shows "writek n (isize (load n s)) p (kview s) = Ret (int (length p)) (kview s')" "mk_ok s'" "freeinode s' = freeinode s"
    "isize (load n s) + length p \<le> MAXFILE * FS_BSIZE"
proof -
  let ?z = "isize (load n s)"
  have "rinode n s = Some (load n s)" using assms(1) IBLOCK_mk(1) [OF assms(2)] by (simp add: rinode_def rsect_def load_def mk_ok_def FSSIZE_def)
  then obtain off d1 s1 where a: "append_loop ?z p (load n s) s = Some (off, d1, s1)" "winode n (d1\<lparr>isize := off\<rparr>) s1 = Some s'"
    using assms(5) by (auto simp: iappend_def split: Option.bind_splits)
  note kl = kv_load [OF assms(2), of s]
  have off: "off = ?z + length p" "?z + length p \<le> MAXFILE * FS_BSIZE" using append_fits [OF a(1)] assms(4) by auto
  have c: "canon (load n s)" unfolding load_def by (rule canon_get)
  have iok: "inode_ok (kv s n (load n s)) n" using assms(3) kl by simp
  have L: "write_loop kernel_source n 0 ?z (length p) 0 (kv s n (load n s), p) = Ret (0 + length p, off) (kv s1 n d1, p)" "mk_ok s1" "canon d1"
    using append_loop_sim [OF assms(1) c iok a(1), of 0 p 0] by simp_all
  have "off < 2 ^ 32" using off by (simp add: MAXFILE_def NDIRECT_def NINDIRECT_def FS_BSIZE_def)
  then have c1: "canon (d1\<lparr>isize := off\<rparr>)" by (rule canon_size [OF L(3)])
  obtain s2 where s2: "winode n (d1\<lparr>isize := off\<rparr>) s1 = Some s2" "mk_ok s2" "kview s2 = iupdate n (kv s1 n (d1\<lparr>isize := off\<rparr>))" "freeinode s2 = freeinode s1"
    using winode_sim [OF L(2) assms(2) c1] by metis
  then have e: "s2 = s'" using a(2) by simp
  show "mk_ok s'" "freeinode s' = freeinode s" using s2 e append_loop_inode [OF a(1)] by simp_all
  show "?z + length p \<le> MAXFILE * FS_BSIZE" by (rule off(2))
  have nw: "\<not> (?z + length p) mod 2 ^ 32 < ?z" using off(2) by (simp add: MAXFILE_def NDIRECT_def NINDIRECT_def FS_BSIZE_def)
  have sz: "isize (itable (kview s) n) = ?z" using kview_inode(1) [OF assms(2)] by simp
  have sz1: "isize (itable (kv s1 n d1) n) \<le> off" using append_loop_inode [OF a(1)] off by simp
  have "(if off > isize (itable (kv s1 n d1) n) then set_inode n (\<lambda>ip. ip\<lparr>isize := off\<rparr>) (kv s1 n d1) else kv s1 n d1) = kv s1 n (d1\<lparr>isize := off\<rparr>)"
  proof (cases "off > isize (itable (kv s1 n d1) n)")
    case False
    then have "isize d1 = off" using sz1 by simp
    then have "d1\<lparr>isize := off\<rparr> = d1" by (cases d1) simp
    then show ?thesis using False by simp
  qed (simp add: kv_size)
  then show "writek n ?z p (kview s) = Ret (int (length p)) (kview s')"
    using L(1) off(2) nw sz kl s2(3) e by (simp add: writek_def writei_def Let_def)
qed

end
