(* ===== verification/Mkfs_Claims.thy ===== *)
theory Mkfs_Claims
  imports Mkfs_Props
begin

text \<open>The image that \<open>mkfs\<close> builds, as the kernel reads it: every file with its contents, and a root directory in which every name is found.\<close>

section \<open>Files\<close>

definition holds_file :: "fs \<Rightarrow> nat \<Rightarrow> byte list \<Rightarrow> bool" where
  "holds_file f n bs \<longleftrightarrow> inode_ok f n \<and> isize (itable f n) = length bs \<and> length bs \<le> MAXFILE * FS_BSIZE
     \<and> (\<forall>x<MAXFILE * FS_BSIZE. file_byte f n x = (if x < length bs then bs ! x else 0)) \<and> (\<forall>x<length bs. iaddr f n (x div FS_BSIZE) \<noteq> 0)"

text \<open>The contents \<open>cs\<close> of the inodes, from inode 1 on.\<close>

definition files_ok :: "mkimg \<Rightarrow> byte list list \<Rightarrow> bool" where
  "files_ok s cs \<longleftrightarrow> mk_ok s \<and> img s 1 = sb_block mk_sb \<and> freeinode s = length cs + 1 \<and> length cs < NINODES
     \<and> (\<forall>n. 1 \<le> n \<longrightarrow> n \<le> length cs \<longrightarrow> itype (load n s) = (if n = ROOTINO then T_DIR else T_FILE))
     \<and> (\<forall>n. 1 \<le> n \<longrightarrow> n \<le> length cs \<longrightarrow> holds_file (kview s) n (cs ! (n - 1)))
     \<and> (\<forall>n m. 1 \<le> n \<longrightarrow> n \<le> length cs \<longrightarrow> 1 \<le> m \<longrightarrow> m \<le> length cs \<longrightarrow> n \<noteq> m \<longrightarrow> owned (kview s) n \<inter> owned (kview s) m = {})"

lemma kview_fs_ok: "mk_ok s \<Longrightarrow> fs_ok (kview s)"
  using kv_fs_ok [of s 0 "load 0 s"] kv_load [of 0 s] by (simp add: NINODES_def)

lemma kview_load: "n < NINODES \<Longrightarrow> isize (itable (kview s) n) = isize (load n s)"
  by (simp add: kview_inode)

text \<open>A file depends only on the addresses in its inode and on the blocks from the free map on.\<close>

lemma fs_ok_view:
  assumes "sb f = mk_sb" "sb f' = mk_sb" "\<And>b. 46 \<le> b \<Longrightarrow> blocks f' b = blocks f b" "fs_ok f"
  shows "fs_ok f'"
proof -
  have "used f' b = used f b" if "b < FSSIZE" for b using assms(1-3) that by (intro used_cong) (simp_all add: BBLOCK_mk)
  then show ?thesis using assms(4) dstart_mk assms(1,2) by (auto simp: fs_ok_def layout_ok_def FSSIZE_def)
qed

lemma holds_cong:
  assumes "inode_ok f m" "\<forall>i\<le>NDIRECT. addrs (itable f' m') i = addrs (itable f m) i" "sb f = mk_sb" "sb f' = mk_sb" "\<And>b. 46 \<le> b \<Longrightarrow> blocks f' b = blocks f b"
  shows "iaddr f' m' = iaddr f m" "indirect f' m' = indirect f m" "inode_ok f' m'" "x < MAXFILE * FS_BSIZE \<Longrightarrow> file_byte f' m' x = file_byte f m x" "owned f' m' = owned f m"
proof -
  have ds: "dstart f = 47" "dstart f' = 47" using dstart_mk assms(3,4) by blast+
  have us: "used f' b = used f b" if "b < FSSIZE" for b using assms(3-5) that by (intro used_cong) (simp_all add: BBLOCK_mk)
  then have db: "data_block f' b = data_block f b" for b by (auto simp: data_block_def ds assms(3,4))
  show ind: "indirect f' m' = indirect f m" using assms(2) by (simp add: indirect_def)
  have "blocks f' (indirect f m) = blocks f (indirect f m)" if "indirect f m \<noteq> 0" using assms(1,5) that ds by (simp add: inode_ok_def data_block_def)
  then show ia: "iaddr f' m' = iaddr f m" using ind assms(2) by (intro ext) (simp add: iaddr_def)
  show "inode_ok f' m'" using assms(1) by (simp add: inode_ok_def ia ind db)
  show "owned f' m' = owned f m" by (simp add: owned_def ia ind)
  assume x: "x < MAXFILE * FS_BSIZE"
  then have "x div FS_BSIZE < MAXFILE" by (simp add: less_mult_imp_div_less)
  then have "iaddr f m (x div FS_BSIZE) \<noteq> 0 \<Longrightarrow> 47 \<le> iaddr f m (x div FS_BSIZE)" using assms(1) ds by (simp add: inode_ok_def data_block_def)
  then show "file_byte f' m' x = file_byte f m x" using assms(5) by (auto simp: file_byte_def ia)
qed

lemma holds_file_cong:
  assumes "holds_file f m bs" "\<forall>i\<le>NDIRECT. addrs (itable f' m') i = addrs (itable f m) i" "isize (itable f' m') = isize (itable f m)" "sb f = mk_sb" "sb f' = mk_sb" "\<And>b. 46 \<le> b \<Longrightarrow> blocks f' b = blocks f b"
  shows "holds_file f' m' bs"
  using holds_cong [OF _ assms(2,4,5,6)] assms(1,3) by (simp add: holds_file_def)

lemma append_ok:
  assumes "files_ok s cs" "1 \<le> n" "n \<le> length cs" "iappend n p s = Some s'"
  shows "files_ok s' (cs[n - 1 := cs ! (n - 1) @ p])"
proof -
  have F: "mk_ok s" "freeinode s = length cs + 1" "length cs < NINODES" "img s 1 = sb_block mk_sb"
    and T: "\<And>m. 1 \<le> m \<Longrightarrow> m \<le> length cs \<Longrightarrow> itype (load m s) = (if m = ROOTINO then T_DIR else T_FILE)"
    and H: "\<And>m. 1 \<le> m \<Longrightarrow> m \<le> length cs \<Longrightarrow> holds_file (kview s) m (cs ! (m - 1))"
    and D: "\<And>m l. 1 \<le> m \<Longrightarrow> m \<le> length cs \<Longrightarrow> 1 \<le> l \<Longrightarrow> l \<le> length cs \<Longrightarrow> m \<noteq> l \<Longrightarrow> owned (kview s) m \<inter> owned (kview s) l = {}"
    using assms(1) unfolding files_ok_def by blast+
  have n: "n < NINODES" using assms(3) F(3) by simp
  let ?b = "cs ! (n - 1)"
  have Hn: "inode_ok (kview s) n" "isize (load n s) = length ?b" "length ?b \<le> MAXFILE * FS_BSIZE"
      "\<And>x. x < MAXFILE * FS_BSIZE \<Longrightarrow> file_byte (kview s) n x = (if x < length ?b then ?b ! x else 0)" "\<And>x. x < length ?b \<Longrightarrow> iaddr (kview s) n (x div FS_BSIZE) \<noteq> 0"
    using H [OF assms(2,3)] kview_load [OF n] by (simp_all add: holds_file_def)
  have sz: "isize (load n s) \<le> MAXFILE * FS_BSIZE" using Hn(2,3) by simp
  note S = iappend_sim [OF F(1) n Hn(1) sz assms(4)]
  have w: "writek n (length ?b) p (kview s) = Ret (int (length p)) (kview s')" using S(1) Hn(2) by simp
  have io: "inum_ok (kview s) n" using n by (simp add: inum_ok_def kview_inode)
  note self = write_self [OF kview_fs_ok [OF F(1)] Hn(1) io w]
  have fits: "length ?b + length p \<le> MAXFILE * FS_BSIZE" using S(4) Hn(2) by simp
  have new: "holds_file (kview s') n (?b @ p)" unfolding holds_file_def
  proof (intro conjI allI impI)
    show "inode_ok (kview s') n" "isize (itable (kview s') n) = length (?b @ p)" using self Hn(2) kview_load [OF n, of s] by simp_all
    show "length (?b @ p) \<le> MAXFILE * FS_BSIZE" using fits by simp
    show "file_byte (kview s') n x = (if x < length (?b @ p) then (?b @ p) ! x else 0)" if "x < MAXFILE * FS_BSIZE" for x
      using self that Hn(4) [OF that] by (auto simp: nth_append)
    show "iaddr (kview s') n (x div FS_BSIZE) \<noteq> 0" if x: "x < length (?b @ p)" for x
    proof (cases "x < length ?b")
      case True
      have "x div FS_BSIZE < MAXFILE" using x fits by (intro less_mult_imp_div_less) simp
      then show ?thesis using self Hn(5) [OF True] by blast
    qed (use self x in auto)
  qed
  have old: "holds_file (kview s') m (cs ! (m - 1)) \<and> owned (kview s') m \<inter> owned (kview s') n = {} \<and> owned (kview s') m = owned (kview s) m" if m: "1 \<le> m" "m \<le> length cs" "m \<noteq> n" for m
    using write_apart [OF kview_fs_ok [OF F(1)] Hn(1) io _ m(3) _ w] H [OF m(1,2)] D [OF m(1,2) assms(2,3) m(3)] unfolding holds_file_def by auto
  have ty: "itype (load m s') = itype (load m s)" if m: "1 \<le> m" "m \<le> length cs" for m
  proof (cases "m = n")
    case True
    have "itype (itable (kview s') n) = itype (itable (kview s) n)" using self by blast
    then show ?thesis using True kview_inode(1) [OF n] by simp
  next
    case False
    have "itable (kview s') m = itable (kview s) m"
      using write_apart [OF kview_fs_ok [OF F(1)] Hn(1) io _ False _ w] H [OF m] D [OF m assms(2,3) False] unfolding holds_file_def by auto
    then have "itype (itable (kview s') m) = itype (itable (kview s) m)" by simp
    then show ?thesis using m F(3) by (simp add: kview_inode)
  qed
  have "blocks (kview s') 1 = blocks (kview s) 1" using self by (simp add: kview_inode)
  then have sb1: "img s' 1 = sb_block mk_sb" using F(4) by (simp add: kview_def)
  show ?thesis unfolding files_ok_def
  proof (intro conjI allI impI)
    show "mk_ok s'" by (rule S(2))
    show "img s' 1 = sb_block mk_sb" by (rule sb1)
    show "itype (load m s') = (if m = ROOTINO then T_DIR else T_FILE)" if "1 \<le> m" "m \<le> length (cs[n - 1 := ?b @ p])" for m
      using ty [of m] T [of m] that by simp
    show "freeinode s' = length (cs[n - 1 := ?b @ p]) + 1" using S(3) F(2) by simp
    show "length (cs[n - 1 := ?b @ p]) < NINODES" using F(3) by simp
    show "holds_file (kview s') m (cs[n - 1 := ?b @ p] ! (m - 1))" if "1 \<le> m" "m \<le> length (cs[n - 1 := ?b @ p])" for m
      using old [of m] new that assms(2) by (cases "m = n") (auto simp: nth_list_update)
    show "owned (kview s') m \<inter> owned (kview s') l = {}" if "1 \<le> m" "m \<le> length (cs[n - 1 := ?b @ p])" "1 \<le> l" "l \<le> length (cs[n - 1 := ?b @ p])" "m \<noteq> l" for m l
      using old [of m] old [of l] D [of m l] that by (cases "m = n"; cases "l = n") auto
  qed
qed


lemma append_all_ok:
  "files_ok s cs \<Longrightarrow> 1 \<le> n \<Longrightarrow> n \<le> length cs \<Longrightarrow> append_all n ps s = Some s' \<Longrightarrow> files_ok s' (cs[n - 1 := cs ! (n - 1) @ concat ps])"
proof (induction ps arbitrary: s cs)
  case Nil
  then show ?case by simp
next
  case (Cons p ps)
  then obtain s1 where a: "iappend n p s = Some s1" "append_all n ps s1 = Some s'" by (auto split: Option.bind_splits)
  have "files_ok s1 (cs[n - 1 := cs ! (n - 1) @ p])" by (rule append_ok [OF Cons.prems(1-3) a(1)])
  from Cons.IH [OF this Cons.prems(2) _ a(2)] Cons.prems(2,3) show ?case by simp
qed

lemma empty_inode:
  assumes "addrs (itable f n) = (\<lambda>_. 0)" "isize (itable f n) = 0"
  shows "holds_file f n []" "owned f n = {}"
  using assms by (auto simp: holds_file_def inode_ok_def iaddr_def indirect_def file_byte_def owned_def)

lemma ialloc_ok:
  assumes "files_ok s cs" "typ = (if cs = [] then T_DIR else T_FILE)" "length cs + 1 < NINODES"
  obtains s' where "mk_ialloc typ s = Some (length cs + 1, s')" "files_ok s' (cs @ [[]])" "freeblock s' = freeblock s"
proof -
  have F: "mk_ok s" "freeinode s = length cs + 1" "length cs < NINODES" "img s 1 = sb_block mk_sb"
    and T: "\<And>m. 1 \<le> m \<Longrightarrow> m \<le> length cs \<Longrightarrow> itype (load m s) = (if m = ROOTINO then T_DIR else T_FILE)"
    and H: "\<And>m. 1 \<le> m \<Longrightarrow> m \<le> length cs \<Longrightarrow> holds_file (kview s) m (cs ! (m - 1))"
    and D: "\<And>m l. 1 \<le> m \<Longrightarrow> m \<le> length cs \<Longrightarrow> 1 \<le> l \<Longrightarrow> l \<le> length cs \<Longrightarrow> m \<noteq> l \<Longrightarrow> owned (kview s) m \<inter> owned (kview s) l = {}"
    using assms(1) unfolding files_ok_def by blast+
  let ?n = "length cs + 1" and ?s = "s\<lparr>freeinode := length cs + 2\<rparr>" and ?d = "din0\<lparr>itype := typ, nlink := 1, isize := 0\<rparr>"
  have c: "canon ?d" using assms(2) by (simp add: canon_def din0_def T_DIR_def T_FILE_def)
  have ok: "mk_ok ?s" using F(1) by (simp add: mk_ok_def)
  obtain s' where s1: "winode ?n ?d ?s = Some s'" "mk_ok s'" "load ?n s' = ?d" "freeinode s' = freeinode ?s"
      "\<And>j. j < NINODES \<Longrightarrow> j \<noteq> ?n \<Longrightarrow> load j s' = load j ?s" "freeblock s' = freeblock ?s" "\<And>b. b < 33 \<or> 46 \<le> b \<Longrightarrow> img s' b = img ?s b"
    by (rule winode_sim [OF ok assms(3) c]) blast
  have r: "mk_ialloc typ s = Some (?n, s')" using s1(1) F(2) by (simp add: mk_ialloc_def)
  have lo: "load m s' = load m s" if "m \<le> length cs" for m using s1(5) [of m] that F(3) by (simp add: load_def)
  have bl: "blocks (kview s') b = blocks (kview s) b" if "46 \<le> b" for b using s1(6) s1(7) [of b] that by (simp add: kview_def)
  have it: "itable (kview s') m = itable (kview s) m" if "m \<le> length cs" for m using lo [OF that] that F(3) by (simp add: kview_inode)
  have new: "holds_file (kview s') ?n []" "owned (kview s') ?n = {}"
    by (rule empty_inode; use s1(3) assms(3) in \<open>simp add: kview_inode din0_def\<close>)+
  have old: "holds_file (kview s') m (cs ! (m - 1)) \<and> owned (kview s') m = owned (kview s) m" if m: "1 \<le> m" "m \<le> length cs" for m
  proof -
    note h = H [OF m] and i = it [OF m(2)]
    have "holds_file (kview s') m (cs ! (m - 1))" by (rule holds_file_cong [OF h]) (simp_all add: i bl kview_inode(2))
    moreover have "owned (kview s') m = owned (kview s) m" by (rule holds_cong(5)) (use h in \<open>simp_all add: i bl kview_inode(2) holds_file_def\<close>)
    ultimately show ?thesis by simp
  qed
  have "files_ok s' (cs @ [[]])" unfolding files_ok_def
  proof (intro conjI allI impI)
    show "mk_ok s'" "freeinode s' = length (cs @ [[]]) + 1" "length (cs @ [[]]) < NINODES" using s1(2,4) assms(3) by simp_all
    show "img s' 1 = sb_block mk_sb" using s1(7) [of 1] F(4) by simp
    show "itype (load m s') = (if m = ROOTINO then T_DIR else T_FILE)" if "1 \<le> m" "m \<le> length (cs @ [[]])" for m
      using that T [of m] lo [of m] s1(3) assms(2) by (cases "m = ?n") (auto simp: ROOTINO_def)
    show "holds_file (kview s') m ((cs @ [[]]) ! (m - 1))" if "1 \<le> m" "m \<le> length (cs @ [[]])" for m
      using that old [of m] new by (cases "m = ?n") (auto simp: nth_append)
    show "owned (kview s') m \<inter> owned (kview s') l = {}" if "1 \<le> m" "m \<le> length (cs @ [[]])" "1 \<le> l" "l \<le> length (cs @ [[]])" "m \<noteq> l" for m l
      using that old [of m] old [of l] new D [of m l] by (cases "m = ?n"; cases "l = ?n") auto
  qed
  then show ?thesis using that r s1(6) by simp
qed


section \<open>The whole image\<close>

lemma add_file_ok:
  assumes "files_ok s (r # cs)" "length cs + 2 < NINODES" "add_file ROOTINO path contents s = Some s'"
  shows "\<exists>nm ps. shortname path = Some nm \<and> contents = Some ps \<and> files_ok s' ((r @ dirent (length cs + 2) nm) # cs @ [concat ps])"
proof -
  obtain s1 where s1: "mk_ialloc T_FILE s = Some (length cs + 2, s1)" "files_ok s1 (r # cs @ [[]])"
    using ialloc_ok [OF assms(1), of T_FILE] assms(2) by auto
  then obtain nm ps s2 where a: "shortname path = Some nm" "contents = Some ps" "iappend ROOTINO (dirent (length cs + 2) nm) s1 = Some s2" "append_all (length cs + 2) ps s2 = Some s'"
    using assms(3) by (auto simp: add_file_def split: Option.bind_splits)
  have "files_ok s2 ((r @ dirent (length cs + 2) nm) # cs @ [[]])"
    using append_ok [OF s1(2) _ _ a(3)] by (simp add: ROOTINO_def)
  from append_all_ok [OF this _ _ a(4)] have "files_ok s' ((r @ dirent (length cs + 2) nm) # cs @ [concat ps])" by (simp add: nth_append list_update_append)
  then show ?thesis using a by blast
qed

lemma add_files_ok:
  "files_ok s (r # cs) \<Longrightarrow> length cs + length files + 1 < NINODES \<Longrightarrow> add_files ROOTINO files s = Some s' \<Longrightarrow>
    \<exists>names pss. map (\<lambda>f. shortname (fst f)) files = map Some names \<and> map snd files = map Some pss
      \<and> files_ok s' ((r @ concat (map (\<lambda>i. dirent (length cs + 2 + i) (names ! i)) [0..<length files])) # cs @ map concat pss)"
proof (induction files arbitrary: s r cs)
  case Nil
  then show ?case by simp
next
  case (Cons f files)
  obtain path contents where f: "f = (path, contents)" by fastforce
  obtain s1 where a: "add_file ROOTINO path contents s = Some s1" "add_files ROOTINO files s1 = Some s'"
    using Cons.prems(3) f by (auto split: Option.bind_splits)
  obtain nm ps where n: "shortname path = Some nm" "contents = Some ps" "files_ok s1 ((r @ dirent (length cs + 2) nm) # cs @ [concat ps])"
    using add_file_ok [OF Cons.prems(1) _ a(1)] Cons.prems(2) by auto
  obtain names pss where IH: "map (\<lambda>f. shortname (fst f)) files = map Some names" "map snd files = map Some pss"
      "files_ok s' (((r @ dirent (length cs + 2) nm) @ concat (map (\<lambda>i. dirent (length (cs @ [concat ps]) + 2 + i) (names ! i)) [0..<length files])) # (cs @ [concat ps]) @ map concat pss)"
    using Cons.IH [OF n(3) _ a(2)] Cons.prems(2) by auto
  have "concat (map (\<lambda>i. dirent (length cs + 2 + i) ((nm # names) ! i)) [0..<length (f # files)]) =
      dirent (length cs + 2) nm @ concat (map (\<lambda>i. dirent (length (cs @ [concat ps]) + 2 + i) (names ! i)) [0..<length files])"
    by (simp add: upt_conv_Cons map_Suc_upt [symmetric] comp_def del: upt_Suc)
  then show ?case using IH f n by (intro exI [of _ "nm # names"] exI [of _ "ps # pss"]) simp
qed

definition root_bytes :: "byte list list \<Rightarrow> byte list" where
  "root_bytes names = dirent 1 [46] @ dirent 1 [46, 46] @ concat (map (\<lambda>i. dirent (i + 2) (names ! i)) [0..<length names])"

lemma zero_image: "zero_image = \<lparr>img = (\<lambda>_ _. 0), img_len = FSSIZE, freeinode = 1, freeblock = 47\<rparr>"
proof -
  have "fold (\<lambda>i. wsect i (\<lambda>_. 0)) [0..<n] \<lparr>img = (\<lambda>_ _. 0), img_len = 0, freeinode = 1, freeblock = nmeta\<rparr> = \<lparr>img = (\<lambda>_ _. 0), img_len = n, freeinode = 1, freeblock = 47\<rparr>" for n
    by (induction n) (simp_all add: wsect_def fun_eq_iff)
  then show ?thesis by (simp add: zero_image_def)
qed

lemma start_ok: "files_ok (wsect 1 (sb_block mk_sb) zero_image) []"
  by (simp add: files_ok_def zero_image wsect_def mk_ok_def FSSIZE_def NINODES_def)

text \<open>What \<open>mkfs\<close> leaves: the directory with its size rounded up, the other files, and the free map.\<close>

lemma mkfs_ok:
  assumes "mkfs files = Some s" "length files + 1 < NINODES"
  obtains names pss s1 s2 where "map (\<lambda>f. shortname (fst f)) files = map Some names" "map snd files = map Some pss" "files_ok s1 (root_bytes names # map concat pss)"
    "fix_root ROOTINO s1 = Some s2" "img s = (img s2)(46 := bitmap (freeblock s2))"
proof -
  obtain s0 where s0: "mk_ialloc T_DIR (wsect 1 (sb_block mk_sb) zero_image) = Some (1, s0)" "files_ok s0 [[]]"
    using ialloc_ok [OF start_ok, of T_DIR] by (auto simp: NINODES_def)
  then obtain sa sb s1 s2 where a: "iappend ROOTINO (dirent 1 [46]) s0 = Some sa" "iappend ROOTINO (dirent 1 [46, 46]) sa = Some sb"
      "add_files ROOTINO files sb = Some s1" "fix_root ROOTINO s1 = Some s2" "mk_balloc (freeblock s2) s2 = Some s"
    using assms(1) by (auto simp: mkfs_def ROOTINO_def split: Option.bind_splits)
  have "files_ok sa [dirent 1 [46]]" using append_ok [OF s0(2) _ _ a(1)] by (simp add: ROOTINO_def)
  then have "files_ok sb [dirent 1 [46] @ dirent 1 [46, 46]]" using append_ok [OF _ _ _ a(2)] by (fastforce simp: ROOTINO_def)
  from add_files_ok [OF this _ a(3)] assms(2) obtain names pss where n: "map (\<lambda>f. shortname (fst f)) files = map Some names" "map snd files = map Some pss"
      "files_ok s1 (((dirent 1 [46] @ dirent 1 [46, 46]) @ concat (map (\<lambda>i. dirent (2 + i) (names ! i)) [0..<length files])) # map concat pss)" by auto
  have "length names = length files" using n(1) by (metis length_map)
  then have "files_ok s1 (root_bytes names # map concat pss)" using n(3) by (simp add: root_bytes_def add.commute)
  moreover have "img s = (img s2)(46 := bitmap (freeblock s2))" using a(5) by (auto simp: mk_balloc_def wsect_def split: if_splits)
  ultimately show ?thesis using that n(1,2) a(4) by blast
qed

lemma readsb_mk: "blocks f 1 = sb_block mk_sb \<Longrightarrow> readsb f = mk_sb"
  by (simp add: readsb_def sb_block_def Let_def ldn_stn_same ldn_stn_apart)
     (simp add: mk_sb_def FSMAGIC_def FSSIZE_def nblocks_def nmeta_def nlog_def ninodeblocks_def nbitmap_def NINODES_def IPB_def FS_BSIZE_def DINODE_SIZE_def BPB_def)

text \<open>The table entry \<open>k\<close> holds inode \<open>n\<close> of the image.\<close>

definition loaded :: "fs \<Rightarrow> nat \<Rightarrow> nat \<Rightarrow> mkimg \<Rightarrow> bool" where
  "loaded f k n s \<longleftrightarrow> (\<forall>i\<le>NDIRECT. addrs (itable f k) i = addrs (load n s) i) \<and> isize (itable f k) = isize (load n s) \<and> itype (itable f k) = itype (load n s) \<and> inum (itable f k) = n"

lemma ilock_loads:
  assumes "ilock k f = Ret () g" "\<not> ivalid (itable f k)" "blocks f = img s" "sb f = mk_sb"
  shows "loaded g k (inum (itable f k)) s" "blocks g = img s" "sb g = mk_sb" "idev (itable g k) = idev (itable f k)" "\<And>j. j \<noteq> k \<Longrightarrow> itable g j = itable f j" "iref (itable g k) = iref (itable f k)"
  using assms by (auto simp: ilock_def set_inode_def Let_def loaded_def load_def get_dinode_def split: if_splits)

definition rounded :: "nat \<Rightarrow> nat" where
  "rounded z = (z div FS_BSIZE + 1) * FS_BSIZE"

lemma image_ok:
  assumes m: "mkfs files = Some s" and n: "length files + 1 < NINODES" and f: "blocks f = img s" "sb f = readsb f"
  obtains names pss where "map (\<lambda>f. shortname (fst f)) files = map Some names" "map snd files = map Some pss" "fs_ok f" "sb f = mk_sb"
    "\<And>k i. i < length files \<Longrightarrow> loaded f k (i + 2) s \<Longrightarrow> holds_file f k (concat (pss ! i)) \<and> itype (itable f k) = T_FILE"
    "\<And>k. loaded f k ROOTINO s \<Longrightarrow> isize (itable f k) = rounded (length (root_bytes names)) \<and> itype (itable f k) = T_DIR \<and> inode_ok f k \<and> length (root_bytes names) \<le> MAXFILE * FS_BSIZE
       \<and> (\<forall>x<MAXFILE * FS_BSIZE. file_byte f k x = (if x < length (root_bytes names) then root_bytes names ! x else 0)) \<and> (\<forall>x<length (root_bytes names). iaddr f k (x div FS_BSIZE) \<noteq> 0)"
proof -
  obtain names pss s1 s2 where k: "map (\<lambda>f. shortname (fst f)) files = map Some names" "map snd files = map Some pss" "files_ok s1 (root_bytes names # map concat pss)"
      "fix_root ROOTINO s1 = Some s2" "img s = (img s2)(46 := bitmap (freeblock s2))" by (rule mkfs_ok [OF m n])
  have lp: "length pss = length files" using k(2) by (metis length_map)
  let ?cs = "root_bytes names # map concat pss"
  have F: "mk_ok s1" "img s1 1 = sb_block mk_sb"
    and T: "\<And>m. 1 \<le> m \<Longrightarrow> m \<le> length ?cs \<Longrightarrow> itype (load m s1) = (if m = ROOTINO then T_DIR else T_FILE)"
    and H: "\<And>m. 1 \<le> m \<Longrightarrow> m \<le> length ?cs \<Longrightarrow> holds_file (kview s1) m (?cs ! (m - 1))"
    using k(3) unfolding files_ok_def by blast+
  have H1: "holds_file (kview s1) 1 (root_bytes names)" using H [of 1] by simp
  have root: "1 < NINODES" "ROOTINO = 1" by (simp_all add: NINODES_def ROOTINO_def)
  have sz: "isize (load 1 s1) = length (root_bytes names)" "length (root_bytes names) \<le> MAXFILE * FS_BSIZE" using H1 root by (simp_all add: holds_file_def kview_inode)
  have ri: "rinode 1 s1 = Some (load 1 s1)" using F(1) IBLOCK_mk(1) [OF root(1)] by (simp add: rinode_def rsect_def load_def mk_ok_def FSSIZE_def)
  let ?d = "(load 1 s1)\<lparr>isize := rounded (length (root_bytes names))\<rparr>"
  have "rounded (length (root_bytes names)) \<le> (MAXFILE + 1) * FS_BSIZE" unfolding rounded_def
    using sz(2) div_le_mono [OF sz(2), of FS_BSIZE] by (simp add: FS_BSIZE_def)
  then have "rounded (length (root_bytes names)) < 2 ^ 32" by (simp add: MAXFILE_def NDIRECT_def NINDIRECT_def FS_BSIZE_def)
  then have c: "canon ?d" unfolding load_def by (rule canon_size [OF canon_get])
  obtain s3 where s3: "winode 1 ?d s1 = Some s3" "load 1 s3 = ?d" "\<And>j. j < NINODES \<Longrightarrow> j \<noteq> 1 \<Longrightarrow> load j s3 = load j s1" "freeblock s3 = freeblock s1"
      "\<And>b. b < 33 \<or> 46 \<le> b \<Longrightarrow> img s3 b = img s1 b"
    by (rule winode_sim [OF F(1) root(1) c]) blast
  have e: "s3 = s2" using k(4) ri s3(1) sz(1) by (simp add: fix_root_def root(2) rounded_def)
  have ld: "load j s = load j s2" if "j < NINODES" for j using IBLOCK_mk(1) [OF that] k(5) by (intro load_cong) simp
  have bl: "blocks f b = blocks (kview s1) b" if "46 \<le> b" for b using s3(4) s3(5) [of b] that e f(1) k(5) by (simp add: kview_def)
  have "blocks f 1 = sb_block mk_sb" using s3(5) [of 1] e f(1) k(5) F(2) by simp
  then have sbf: "sb f = mk_sb" using readsb_mk f(2) by simp
  have adr: "\<forall>i\<le>NDIRECT. addrs (itable f k) i = addrs (itable (kview s1) n) i" if "loaded f k n s" "1 \<le> n" "n < NINODES" for k n
    using that ld [of n] s3(2,3) e by (cases "n = 1") (auto simp: loaded_def kview_inode)
  have fok: "fs_ok f" by (rule fs_ok_view [OF kview_inode(2) sbf bl kview_fs_ok [OF F(1)]])
  show ?thesis
  proof (rule that [OF k(1,2) fok sbf])
    fix k i assume i: "i < length files" "loaded f k (i + 2) s"
    have b: "1 \<le> i + 2" "i + 2 \<le> length ?cs" "i + 2 < NINODES" "i + 2 \<noteq> 1" using i(1) n lp by auto
    have l: "load (i + 2) s = load (i + 2) s1" using ld [OF b(3)] s3(3) [OF b(3,4)] e by simp
    have h: "holds_file (kview s1) (i + 2) (concat (pss ! i))" using H [OF b(1,2)] i(1) lp by simp
    have ia: "isize (itable f k) = isize (itable (kview s1) (i + 2))" using i(2) l b(3) by (simp add: loaded_def kview_inode)
    have "holds_file f k (concat (pss ! i))" by (rule holds_file_cong [OF h adr [OF i(2) b(1,3)] ia kview_inode(2) sbf bl])
    then show "holds_file f k (concat (pss ! i)) \<and> itype (itable f k) = T_FILE" using T [OF b(1,2)] i(2) l by (simp add: loaded_def root(2))
  next
    fix k assume i: "loaded f k ROOTINO s"
    have l: "load 1 s = ?d" using ld [OF root(1)] s3(2) e by simp
    have io: "inode_ok (kview s1) 1" using H1 by (simp add: holds_file_def)
    have ad: "\<forall>i\<le>NDIRECT. addrs (itable f k) i = addrs (itable (kview s1) 1) i" using adr [of k 1] i root by simp
    note C = holds_cong [OF io ad kview_inode(2) sbf bl]
    show "isize (itable f k) = rounded (length (root_bytes names)) \<and> itype (itable f k) = T_DIR \<and> inode_ok f k \<and> length (root_bytes names) \<le> MAXFILE * FS_BSIZE
       \<and> (\<forall>x<MAXFILE * FS_BSIZE. file_byte f k x = (if x < length (root_bytes names) then root_bytes names ! x else 0)) \<and> (\<forall>x<length (root_bytes names). iaddr f k (x div FS_BSIZE) \<noteq> 0)"
      using C(1,3,4) H1 i l T [of 1] sz(2) by (simp add: loaded_def root(2) holds_file_def)
  qed
qed


section \<open>The root directory\<close>

definition root_entry :: "byte list list \<Rightarrow> nat \<Rightarrow> byte list" where
  "root_entry names j = (if j = 0 then dirent 1 [46] else if j = 1 then dirent 1 [46, 46] else dirent j (names ! (j - 2)))"

lemma root_entries: "root_bytes names = concat (map (root_entry names) [0..<length names + 2])"
proof -
  have "map (root_entry names) [0..<length names + 2] = root_entry names 0 # root_entry names 1 # map (\<lambda>i. root_entry names (i + 2)) [0..<length names]"
    by (simp add: upt_conv_Cons map_Suc_upt [symmetric] comp_def del: upt_Suc)
  also have "map (\<lambda>i. root_entry names (i + 2)) [0..<length names] = map (\<lambda>i. dirent (i + 2) (names ! i)) [0..<length names]"
    by (simp add: root_entry_def)
  finally have e: "map (root_entry names) [0..<length names + 2] = dirent 1 [46] # dirent 1 [46, 46] # map (\<lambda>i. dirent (i + 2) (names ! i)) [0..<length names]"
    by (simp only: root_entry_def [of _ 0] root_entry_def [of _ 1]) simp
  show ?thesis unfolding root_bytes_def e by simp
qed

lemma concat_chunks:
  assumes "\<And>i. length (g i) = c"
  shows "length (concat (map g [0..<n])) = c * n" "j < n \<Longrightarrow> r < c \<Longrightarrow> concat (map g [0..<n]) ! (c * j + r) = g j ! r"
proof -
  show l: "length (concat (map g [0..<n])) = c * n" for n by (induction n) (simp_all add: assms)
  assume jr: "j < n" "r < c"
  then show "concat (map g [0..<n]) ! (c * j + r) = g j ! r"
  proof (induction n)
    case (Suc n)
    show ?case
    proof (cases "j = n")
      case True then show ?thesis using l [of n] by (simp add: nth_append)
    next
      case False
      then have "c * j + r < c * n" using Suc.prems by (metis add.commute add_less_cancel_right less_Suc_eq mult_Suc_right mult_le_mono2 Suc_leI less_le_trans)
      then show ?thesis using Suc False l [of n] by (simp add: nth_append)
    qed
  qed simp
qed

lemma root_length: "length (root_bytes names) = DIRENT_SIZE * (length names + 2)"
  unfolding root_entries by (rule concat_chunks) (simp add: root_entry_def dirent_length)

lemma root_entry_at:
  assumes "\<forall>x<MAXFILE * FS_BSIZE. file_byte f k x = (if x < length (root_bytes names) then root_bytes names ! x else 0)" "length (root_bytes names) \<le> MAXFILE * FS_BSIZE" "j < length names + 2"
  shows "entry f k (DIRENT_SIZE * j) = root_entry names j"
proof (rule nth_equalityI)
  have le: "length (root_entry names i) = DIRENT_SIZE" for i by (simp add: root_entry_def dirent_length)
  show "length (entry f k (DIRENT_SIZE * j)) = length (root_entry names j)" by (simp add: entry_def le)
  fix r assume "r < length (entry f k (DIRENT_SIZE * j))"
  then have r: "r < DIRENT_SIZE" by (simp add: entry_def)
  have "DIRENT_SIZE * j + r < DIRENT_SIZE * (length names + 2)" using r assms(3) by (simp add: DIRENT_SIZE_def)
  then have "DIRENT_SIZE * j + r < length (root_bytes names)" by (simp only: root_length)
  moreover have "root_bytes names ! (DIRENT_SIZE * j + r) = root_entry names j ! r"
    unfolding root_entries by (rule concat_chunks(2) [OF le assms(3) r])
  ultimately show "entry f k (DIRENT_SIZE * j) ! r = root_entry names j ! r" using assms(1,2) r by (simp add: entry_def)
qed

lemma namecmp_dirent:
  assumes "0 \<notin> set a" "0 \<notin> set b" "length a \<le> DIRSIZ" "length b \<le> DIRSIZ"
  shows "namecmp a (de_name (dirent n b)) \<longleftrightarrow> a = b"
proof -
  have t: "takeWhile (\<lambda>c. c \<noteq> 0) x = x" if "0 \<notin> set x" for x :: "byte list" using that by (auto simp: takeWhile_eq_all_conv)
  have "de_name (dirent n b) = b @ replicate (DIRSIZ - length b) 0" using assms(4) by (simp add: de_name_def dirent_def t [OF assms(2)])
  moreover have "takeWhile (\<lambda>c. c \<noteq> 0) (b @ replicate (DIRSIZ - length b) 0) = b" using assms(2) by (subst takeWhile_append2) auto
  moreover have "take DIRSIZ a = a" "take DIRSIZ (b @ replicate (DIRSIZ - length b) 0) = b @ replicate (DIRSIZ - length b) 0" using assms(3,4) by simp_all
  ultimately show ?thesis unfolding namecmp_def by (simp only: t [OF assms(1)])
qed

lemma shortname_props: "shortname path = Some nm \<Longrightarrow> set nm \<subseteq> set path \<and> length nm \<le> DIRSIZ"
  by (auto simp: shortname_def Let_def split: if_splits dest: in_set_dropD)

lemma rounded_blocks:
  assumes "\<forall>x<L. P (x div FS_BSIZE)" "L mod FS_BSIZE \<noteq> 0" "x < rounded L"
  shows "P (x div FS_BSIZE)"
proof -
  have "x div FS_BSIZE < L div FS_BSIZE + 1" using assms(3) by (simp add: rounded_def less_mult_imp_div_less)
  then have "x div FS_BSIZE * FS_BSIZE \<le> L div FS_BSIZE * FS_BSIZE" by simp
  also have "\<dots> < L" using assms(2) by (metis div_mult_mod_eq less_add_same_cancel1 neq0_conv)
  finally show ?thesis using assms(1) by (metis FS_BSIZE_def nonzero_mult_div_cancel_right zero_neq_numeral)
qed

lemma root_dir_ok:
  assumes "fs_ok f" "sb f = mk_sb" "inum (itable f k) = ROOTINO" "isize (itable f k) = rounded (length (root_bytes names))" "itype (itable f k) = T_DIR" "inode_ok f k"
    "\<forall>x<length (root_bytes names). iaddr f k (x div FS_BSIZE) \<noteq> 0" "(length names + 2) mod 64 \<noteq> 0" "length names < NINODES"
  shows "dir_ok f k"
proof -
  have L: "length (root_bytes names) = 16 * (length names + 2)" by (simp add: root_length DIRENT_SIZE_def)
  have "16 * (length names + 2) mod 1024 = 16 * ((length names + 2) mod 64)" by (simp add: mult_mod_right)
  then have nz: "length (root_bytes names) mod FS_BSIZE \<noteq> 0" using assms(8) by (simp add: L FS_BSIZE_def)
  have "length (root_bytes names) div FS_BSIZE \<le> 16 * (NINODES + 2) div FS_BSIZE" using assms(9) unfolding L by (intro div_le_mono) simp
  then have "length (root_bytes names) div FS_BSIZE \<le> 3" by (simp add: NINODES_def FS_BSIZE_def)
  then have "rounded (length (root_bytes names)) \<le> MAXFILE * FS_BSIZE" by (simp add: rounded_def MAXFILE_def NDIRECT_def NINDIRECT_def FS_BSIZE_def)
  moreover have "DIRENT_SIZE dvd rounded (length (root_bytes names))" unfolding rounded_def by (rule dvd_mult) (simp add: DIRENT_SIZE_def FS_BSIZE_def)
  moreover have "iaddr f k (x div FS_BSIZE) \<noteq> 0" if "x < rounded (length (root_bytes names))" for x
    using rounded_blocks [of "length (root_bytes names)" "\<lambda>b. iaddr f k b \<noteq> 0" x] assms(7) nz that by blast
  ultimately show ?thesis using assms by (simp add: dir_ok_def inum_ok_def ROOTINO_def NINODES_def)
qed

lemma root_lookup:
  assumes d: "dir_ok f k" and sz: "isize (itable f k) = rounded (length (root_bytes names))" "length (root_bytes names) \<le> MAXFILE * FS_BSIZE"
    and fb: "\<forall>x<MAXFILE * FS_BSIZE. file_byte f k x = (if x < length (root_bytes names) then root_bytes names ! x else 0)"
    and nm: "distinct names" "[46] \<notin> set names" "[46, 46] \<notin> set names" "\<forall>a\<in>set names. 0 \<notin> set a \<and> length a \<le> DIRSIZ" and i: "i < length names" "length names < NINODES"
  shows "dirlookup k (names ! i) f = obind (iget (idev (itable f k)) (i + 2) f) (\<lambda>j s. Ret (Some (j, DIRENT_SIZE * (i + 2))) s)"
proof -
  have en: "entry f k (DIRENT_SIZE * j) = root_entry names j" if "j < length names + 2" for j by (rule root_entry_at [OF fb sz(2) that])
  have dv: "DIRENT_SIZE dvd isize (itable f k)" using d by (simp add: dir_ok_def)
  have ni: "names ! i \<in> set names" using i by simp
  have dots: "namecmp (names ! i) (de_name (dirent 1 d)) \<longleftrightarrow> names ! i = d" if "d \<in> {[46], [46, 46]}" for d :: "byte list"
    using that nm(4) ni by (intro namecmp_dirent) (auto simp: DIRSIZ_def)
  have other: "namecmp (names ! i) (de_name (dirent n (names ! l))) \<longleftrightarrow> i = l" if "l < length names" for n l
    using namecmp_dirent [of "names ! i" "names ! l" n] nm(1,4) that i nth_eq_iff_index_eq [OF nm(1) i(1) that] by auto
  have "find (matches f k (names ! i)) (entry_offsets (isize (itable f k))) = Some (DIRENT_SIZE * (i + 2))"
    unfolding offsets_size [OF dv]
  proof (rule find_first)
    have "length (root_bytes names) < rounded (length (root_bytes names))" using block_room(1) by (simp add: rounded_def)
    then have "DIRENT_SIZE * (length names + 2) < isize (itable f k)" using sz(1) root_length by metis
    then have "length names + 2 \<le> isize (itable f k) div DIRENT_SIZE" by (simp add: DIRENT_SIZE_def)
    then show "i + 2 < isize (itable f k) div DIRENT_SIZE" using i by simp
    have "i + 2 < 2 ^ 16" using i by (simp add: NINODES_def)
    then show "matches f k (names ! i) (DIRENT_SIZE * (i + 2))" using en [of "i + 2"] i other dirent_inum [of "i + 2"] by (simp add: matches_def root_entry_def)
    show "\<not> matches f k (names ! i) (DIRENT_SIZE * j)" if j: "j < i + 2" for j
    proof -
      consider "j = 0" | "j = 1" | "2 \<le> j" by linarith
      then have "\<not> namecmp (names ! i) (de_name (root_entry names j))"
      proof cases
        case 1 then show ?thesis using dots [of "[46]"] ni nm(2) by (simp add: root_entry_def) metis
      next
        case 2 then show ?thesis using dots [of "[46, 46]"] ni nm(3) by (simp add: root_entry_def) metis
      next
        case 3
        then have "root_entry names j = dirent j (names ! (j - 2))" "j - 2 < length names" "i \<noteq> j - 2" using j i by (auto simp: root_entry_def)
        then show ?thesis using other [of "j - 2" j] by simp
      qed
      then show ?thesis using en [of j] j i by (simp add: matches_def)
    qed
  qed
  moreover have "de_inum (entry f k (DIRENT_SIZE * (i + 2))) = i + 2"
  proof -
    have "root_entry names (i + 2) = dirent (i + 2) (names ! i)" by (simp add: root_entry_def)
    moreover have "i + 2 < 2 ^ 16" "i + 2 < length names + 2" using i by (simp_all add: NINODES_def)
    ultimately show ?thesis using en [of "i + 2"] dirent_inum by metis
  qed
  moreover have "lookup_loop k (names ! i) (entry_offsets (isize (itable f k))) f = dirlookup k (names ! i) f" using d by (simp add: dirlookup_def dir_ok_def)
  moreover have "\<forall>off\<in>set (entry_offsets (isize (itable f k))). off + DIRENT_SIZE \<le> isize (itable f k)" using offset_bound(1) [OF dv] by blast
  ultimately show ?thesis using lookup_loop_eq [OF d, of "entry_offsets (isize (itable f k))" "names ! i"] by simp
qed


section \<open>Reading a file by its name\<close>

lemma map_Some_eq: "map Some xs = map Some ys \<Longrightarrow> xs = ys"
  by (simp add: inj_map_eq_map)

text \<open>A fresh entry for an inode that is not in the table.\<close>

lemma iget_fresh:
  assumes "iget d n g = Ret j h" "\<forall>l. iref (itable g l) > 0 \<longrightarrow> inum (itable g l) \<noteq> n"
  shows "h = set_inode j (\<lambda>ip. ip\<lparr>idev := d, inum := n, iref := 1, ivalid := False\<rparr>) g" "iref (itable g j) = 0"
proof -
  have "find (\<lambda>k. iref (itable g k) > 0 \<and> idev (itable g k) = d \<and> inum (itable g k) = n) [0..<NINODE] = None" using assms(2) by (auto simp: find_None_iff)
  then show "h = set_inode j (\<lambda>ip. ip\<lparr>idev := d, inum := n, iref := 1, ivalid := False\<rparr>) g" "iref (itable g j) = 0"
    using assms(1) by (auto simp: iget_def split: option.splits dest!: find_SomeD)
qed

lemma file_opened:
  assumes "mkfs files = Some s" "length files + 1 < NINODES" "blocks h = img s" "sb h = readsb h" "i < length files"
    "inum (itable h j) = i + 2" "iref (itable h j) = 1" "\<not> ilocked (itable h j)" "\<not> ivalid (itable h j)"
  shows "\<exists>c g'. snd (files ! i) = Some c \<and> ilock j h = Ret () g' \<and> isize (itable g' j) = length (concat c) \<and> readk j 0 (length (concat c)) g' = Ret (int (length (concat c)), concat c) g'"
proof -
  have sbh: "sb h = mk_sb" by (rule image_ok [OF assms(1-4)])
  define g' where "g' = set_inode j (\<lambda>ip. (get_dinode (dinode_off (i + 2)) (blocks h (IBLOCK (i + 2) (sb h))) ip)\<lparr>ivalid := True\<rparr>) (set_inode j (\<lambda>ip. ip\<lparr>ilocked := True\<rparr>) h)"
  have g: "blocks g' = img s" "sb g' = readsb g'" "loaded g' j (i + 2) s"
    using assms(3,4,6) sbh by (simp_all add: g'_def set_inode_def readsb_def loaded_def load_def get_dinode_def)
  obtain names pss where p: "map snd files = map Some pss" "fs_ok g'" "holds_file g' j (concat (pss ! i))" "itype (itable g' j) = T_FILE"
    by (rule image_ok [OF assms(1,2) g(1,2)]) (use assms(5) g(3) in blast)
  have l: "ilock j h = Ret () g'" using assms(6-9) p(4) by (simp add: ilock_def g'_def Let_def set_inode_def T_FILE_def)
  let ?c = "concat (pss ! i)"
  have H: "inode_ok g' j" "isize (itable g' j) = length ?c" "length ?c \<le> MAXFILE * FS_BSIZE" "\<forall>x<MAXFILE * FS_BSIZE. file_byte g' j x = (if x < length ?c then ?c ! x else 0)"
      "\<forall>x<length ?c. iaddr g' j (x div FS_BSIZE) \<noteq> 0" using p(3) by (simp_all add: holds_file_def)
  have "map (file_byte g' j) [0..<0 + length ?c] = ?c" using H(3,4) by (intro nth_equalityI) auto
  then have "readk j 0 (length ?c) g' = Ret (int (length ?c), ?c) g'" using readk_ok [OF p(2) H(1), of 0 "length ?c"] H(2,3,5) by auto
  moreover have "snd (files ! i) = Some (pss ! i)" using p(1) assms(5) by (metis length_map nth_map)
  ultimately show ?thesis using l H(2) by blast
qed

lemma image_lookup:
  assumes m: "mkfs files = Some s" "length files + 1 < NINODES" "(length files + 2) mod 64 \<noteq> 0"
    and nm: "\<forall>p\<in>set files. 0 \<notin> set (fst p) \<and> shortname (fst p) \<notin> {Some [46], Some [46, 46]}" "distinct (map (\<lambda>p. shortname (fst p)) files)"
    and f: "blocks f = img s" "sb f = readsb f" "inum (itable f k) = ROOTINO" "\<not> ivalid (itable f k)" "ilock k f = Ret () g"
    and i: "i < length files" "shortname (fst (files ! i)) = Some name"
  shows "dirlookup k name g = obind (iget (idev (itable g k)) (i + 2) g) (\<lambda>j s. Ret (Some (j, DIRENT_SIZE * (i + 2))) s)" "blocks g = img s" "sb g = readsb g"
proof -
  have sbf: "sb f = mk_sb" by (rule image_ok [OF m(1,2) f(1,2)])
  note G = ilock_loads [OF f(5,4,1) sbf]
  show bg: "blocks g = img s" "sb g = readsb g" using G(2,3) f(1,2) sbf by (simp_all add: readsb_def)
  obtain names where n: "map (\<lambda>f. shortname (fst f)) files = map Some names" "fs_ok g" "sb g = mk_sb"
      "isize (itable g k) = rounded (length (root_bytes names)) \<and> itype (itable g k) = T_DIR \<and> inode_ok g k \<and> length (root_bytes names) \<le> MAXFILE * FS_BSIZE
       \<and> (\<forall>x<MAXFILE * FS_BSIZE. file_byte g k x = (if x < length (root_bytes names) then root_bytes names ! x else 0)) \<and> (\<forall>x<length (root_bytes names). iaddr g k (x div FS_BSIZE) \<noteq> 0)"
    by (rule image_ok [OF m(1,2) bg]) (use G(1) f(3) in auto)
  have ln: "length names = length files" using n(1) by (metis length_map)
  have ge: "shortname (fst (files ! l)) = Some (names ! l)" if "l < length files" for l using n(1) that ln by (metis nth_map)
  have dn: "distinct names" using nm(2) unfolding n(1) by (simp add: distinct_map)
  have sub: "\<exists>p\<in>set files. shortname (fst p) = Some a" if "a \<in> set names" for a
    using that ge ln by (metis in_set_conv_nth nth_mem)
  have pr: "[46] \<notin> set names" "[46, 46] \<notin> set names" "\<forall>a\<in>set names. 0 \<notin> set a \<and> length a \<le> DIRSIZ"
  proof -
    have a: "0 \<notin> set a \<and> length a \<le> DIRSIZ \<and> a \<noteq> [46] \<and> a \<noteq> [46, 46]" if an: "a \<in> set names" for a
    proof -
      obtain p where p: "p \<in> set files" "shortname (fst p) = Some a" using sub [OF an] by blast
      then show ?thesis using nm(1) shortname_props [OF p(2)] by auto
    qed
    then show "[46] \<notin> set names" "[46, 46] \<notin> set names" "\<forall>a\<in>set names. 0 \<notin> set a \<and> length a \<le> DIRSIZ" by blast+
  qed
  have "inum (itable g k) = ROOTINO" using G(1) f(3) by (simp add: loaded_def)
  then have d: "dir_ok g k" using root_dir_ok [OF n(2,3), of k names] n(4) m(2,3) ln by simp
  have "names ! i = name" using ge [OF i(1)] i(2) by simp
  then show "dirlookup k name g = obind (iget (idev (itable g k)) (i + 2) g) (\<lambda>j s. Ret (Some (j, DIRENT_SIZE * (i + 2))) s)"
    using root_lookup [OF d _ _ _ dn pr, of i] n(4) i(1) ln m(2) by simp
qed

section \<open>A small image\<close>

lemma iappend_one:
  assumes "files_ok s cs" "1 \<le> n" "n \<le> length cs" "p \<noteq> []" "length (cs ! (n - 1)) mod FS_BSIZE + length p \<le> FS_BSIZE" "length (cs ! (n - 1)) < NDIRECT * FS_BSIZE" "freeblock s < FSSIZE"
  obtains s' where "iappend n p s = Some s'" "freeblock s' \<le> freeblock s + 1" "files_ok s' (cs[n - 1 := cs ! (n - 1) @ p])"
proof -
  let ?off = "length (cs ! (n - 1))" and ?d = "load n s"
  let ?f = "?off div FS_BSIZE"
  have F: "mk_ok s" "n < NINODES" using assms(1,3) by (simp_all add: files_ok_def)
  have H: "holds_file (kview s) n (cs ! (n - 1))" using assms(1-3) by (simp add: files_ok_def)
  have off: "isize ?d = ?off" using H F(2) by (simp add: holds_file_def kview_inode)
  have ri: "rinode n s = Some ?d" using F IBLOCK_mk(1) [OF F(2)] by (simp add: rinode_def rsect_def load_def mk_ok_def FSSIZE_def)
  have fb: "?f < NDIRECT" using assms(6) by (simp add: less_mult_imp_div_less)
  obtain x d1 s1 where b: "file_block ?f ?d s = Some (x, d1, s1)" "x < FSSIZE" "img_len s1 = FSSIZE" "freeblock s1 \<le> freeblock s + 1"
  proof (cases "addrs ?d ?f = 0")
    case True
    then show ?thesis using that [of "freeblock s" "?d\<lparr>addrs := (addrs ?d)(?f := freeblock s)\<rparr>" "s\<lparr>freeblock := freeblock s + 1\<rparr>"] fb F(1) assms(7)
      by (simp add: file_block_def take_block_def mk_ok_def)
  next
    case False
    have "iaddr (kview s) n ?f = addrs ?d ?f" using fb F(2) by (simp add: iaddr_def kview_inode)
    moreover have "?f < MAXFILE" using fb by (simp add: MAXFILE_def)
    moreover have "\<forall>bn<MAXFILE. iaddr (kview s) n bn \<noteq> 0 \<longrightarrow> data_block (kview s) (iaddr (kview s) n bn)" using H by (simp add: holds_file_def inode_ok_def)
    ultimately have "data_block (kview s) (addrs ?d ?f)" using False by metis
    then have "addrs ?d ?f < FSSIZE" by (simp add: data_block_def kview_inode)
    then show ?thesis using that [of "addrs ?d ?f" ?d s] fb False F(1) by (simp add: file_block_def mk_ok_def)
  qed
  have n1: "min (length p) ((?f + 1) * FS_BSIZE - ?off) = length p" using assms(5) block_room(2) [of ?off] by simp
  let ?s2 = "wsect x (put_block_bytes (img s1 x) (?off - ?f * FS_BSIZE) p) s1"
  have "?f < MAXFILE" using fb by (simp add: MAXFILE_def)
  then have "append_loop ?off p ?d s = append_loop (?off + length p) [] d1 ?s2"
    using b assms(4) n1 by (subst append_loop.simps) (simp add: rsect_def Let_def)
  also have "\<dots> = Some (?off + length p, d1, ?s2)" by (subst append_loop.simps) simp
  finally have al: "append_loop ?off p ?d s = Some (?off + length p, d1, ?s2)" .
  obtain s' where w: "winode n (d1\<lparr>isize := ?off + length p\<rparr>) ?s2 = Some s'" "freeblock s' = freeblock s1"
    using b(2,3) IBLOCK_mk(1) [OF F(2)] by (auto simp: winode_def rsect_def wsect_def FSSIZE_def Let_def)
  have r: "iappend n p s = Some s'" using ri al w(1) off by (simp add: iappend_def)
  show ?thesis using that [OF r _ append_ok [OF assms(1-3) r]] w(2) b(4) by simp
qed

definition files1 :: "(byte list \<times> byte list list option) list" where
  "files1 = [([97], Some [[7]])]"

lemma mkfs1: "\<exists>s. mkfs files1 = Some s"
proof -
  let ?r1 = "dirent 1 [46]" and ?r2 = "dirent 1 [46, 46]" and ?r3 = "dirent 2 [97]"
  note num = dirent_length DIRENT_SIZE_def FS_BSIZE_def NDIRECT_def FSSIZE_def
  have ne: "dirent n x \<noteq> []" for n x using dirent_length [of n x] by (auto simp: DIRENT_SIZE_def)
  obtain s0 where s0: "mk_ialloc T_DIR (wsect 1 (sb_block mk_sb) zero_image) = Some (1, s0)" "files_ok s0 [[]]" "freeblock s0 = 47"
    using ialloc_ok [OF start_ok, of T_DIR] by (auto simp: NINODES_def wsect_def zero_image)
  obtain s1 where s1: "iappend 1 ?r1 s0 = Some s1" "freeblock s1 \<le> freeblock s0 + 1" "files_ok s1 [?r1]"
    using iappend_one [OF s0(2), of 1 ?r1] s0(3) ne by (auto simp: num)
  obtain s2 where s2: "iappend 1 ?r2 s1 = Some s2" "freeblock s2 \<le> freeblock s1 + 1" "files_ok s2 [?r1 @ ?r2]"
    using iappend_one [OF s1(3), of 1 ?r2] s0(3) s1(2) ne by (auto simp: num)
  obtain s3 where s3: "mk_ialloc T_FILE s2 = Some (2, s3)" "files_ok s3 [?r1 @ ?r2, []]" "freeblock s3 = freeblock s2"
    using ialloc_ok [OF s2(3), of T_FILE] by (auto simp: NINODES_def numeral_2_eq_2)
  have b3: "freeblock s3 \<le> 49" using s0(3) s1(2) s2(2) s3(3) by simp
  obtain s4 where s4: "iappend 1 ?r3 s3 = Some s4" "freeblock s4 \<le> freeblock s3 + 1" "files_ok s4 [(?r1 @ ?r2) @ ?r3, []]"
    using iappend_one [OF s3(2), of 1 ?r3] b3 ne by (auto simp: num)
  obtain s5 where s5: "iappend 2 [7] s4 = Some s5" "freeblock s5 \<le> freeblock s4 + 1" "files_ok s5 [(?r1 @ ?r2) @ ?r3, [7]]"
    using iappend_one [OF s4(3), of 2 "[7]"] s4(2) b3 by (auto simp: num)
  have "shortname [97] = Some [97]" by (simp add: shortname_def user_prefix_def DIRSIZ_def)
  then have af: "add_files 1 files1 s2 = Some s5" using s3(1) s4(1) s5(1) by (simp add: files1_def add_file_def)
  have "img_len s5 = FSSIZE" "IBLOCK 1 mk_sb < 46" using s5(3) IBLOCK_mk(1) [of 1] by (simp_all add: files_ok_def mk_ok_def NINODES_def)
  then obtain s6 where s6: "fix_root 1 s5 = Some s6" "freeblock s6 = freeblock s5"
    by (auto simp: fix_root_def rinode_def winode_def rsect_def wsect_def FSSIZE_def Let_def)
  then have "\<exists>s. mk_balloc (freeblock s6) s6 = Some s" using s5(2) s4(2) b3 by (simp add: mk_balloc_def BPB_def FS_BSIZE_def)
  then show ?thesis using s0(1) s1(1) s2(1) af s6(1) by (simp add: mkfs_def ROOTINO_def)
qed

lemma root_locked:
  assumes "mkfs files = Some s" "length files + 1 < NINODES" "blocks h = img s" "sb h = readsb h"
    "inum (itable h j) = ROOTINO" "iref (itable h j) = 1" "\<not> ilocked (itable h j)" "\<not> ivalid (itable h j)"
  shows "\<exists>g. ilock j h = Ret () g"
proof -
  have sbh: "sb h = mk_sb" by (rule image_ok [OF assms(1-4)])
  define g' where "g' = set_inode j (\<lambda>ip. (get_dinode (dinode_off ROOTINO) (blocks h (IBLOCK ROOTINO (sb h))) ip)\<lparr>ivalid := True\<rparr>) (set_inode j (\<lambda>ip. ip\<lparr>ilocked := True\<rparr>) h)"
  have g: "blocks g' = img s" "sb g' = readsb g'" "loaded g' j ROOTINO s"
    using assms(3-5) sbh by (simp_all add: g'_def set_inode_def readsb_def loaded_def load_def get_dinode_def)
  have "itype (itable g' j) = T_DIR" by (rule image_ok [OF assms(1,2) g(1,2)]) (use g(3) in blast)
  then have "ilock j h = Ret () g'" using assms(5-8) by (simp add: ilock_def g'_def Let_def set_inode_def T_DIR_def)
  then show ?thesis by blast
qed

text \<open>C40. The image holds the files it was made of: when \<open>mkfs\<close> has built an image from files with different names, then on the kernel's file system over this image, with the root directory locked, looking up the name
  of a file gives an inode that can be locked and from which \<open>readi\<close> reads exactly the bytes of that file, across direct and indirect blocks and however the host delivered them. A root directory that fills its blocks exactly is excepted,
  where \<open>mkfs\<close> makes it one block too long.\<close>

theorem image_reads_back:
  assumes "mkfs files = Some s" "length files + 1 < NINODES" "(length files + 2) mod 64 \<noteq> 0"
    and "\<forall>p\<in>set files. 0 \<notin> set (fst p) \<and> shortname (fst p) \<notin> {Some [46], Some [46, 46]}" "distinct (map (\<lambda>p. shortname (fst p)) files)"
    and "blocks f = img s" "sb f = readsb f" "inum (itable f k) = ROOTINO" "\<not> ivalid (itable f k)" "ilock k f = Ret () g"
    and "i < length files" "shortname (fst (files ! i)) = Some name" "dirlookup k name g = Ret r h"
    and "\<forall>l. iref (itable g l) > 0 \<longrightarrow> inum (itable g l) \<noteq> i + 2" "\<forall>l. iref (itable g l) = 0 \<longrightarrow> \<not> ilocked (itable g l)"
  shows "\<exists>j off c g'. r = Some (j, off) \<and> snd (files ! i) = Some c \<and> ilock j h = Ret () g' \<and> isize (itable g' j) = length (concat c)
    \<and> readk j 0 (length (concat c)) g' = Ret (int (length (concat c)), concat c) g'"
proof -
  note L = image_lookup [OF assms(1-12)]
  obtain j where j: "iget (idev (itable g k)) (i + 2) g = Ret j h" "r = Some (j, DIRENT_SIZE * (i + 2))"
    using assms(13) L(1) by (auto simp: obind_eq_Ret)
  note I = iget_fresh [OF j(1) assms(14)]
  have "blocks h = img s" "sb h = readsb h" "inum (itable h j) = i + 2" "iref (itable h j) = 1" "\<not> ilocked (itable h j)" "\<not> ivalid (itable h j)"
    using L(2,3) I assms(15) by (simp_all add: set_inode_def readsb_def)
  then show ?thesis using file_opened [OF assms(1,2) _ _ assms(11), of h j] j(2) by blast
qed


theorem image_reads_back_witness:
  "\<exists>s f g h j off g'. mkfs files1 = Some s \<and> blocks f = img s \<and> ilock 0 f = Ret () g \<and> dirlookup 0 [97] g = Ret (Some (j, off)) h \<and> ilock j h = Ret () g'
    \<and> isize (itable g' j) = 1 \<and> readk j 0 1 g' = Ret (1, [7]) g'"
proof -
  obtain s where m: "mkfs files1 = Some s" using mkfs1 by blast
  define f0 where "f0 = \<lparr>blocks = img s, sb = mk_sb, itable = (\<lambda>l. if l = 0 then din0\<lparr>inum := ROOTINO, iref := 1\<rparr> else din0)\<rparr>"
  define f where "f = f0\<lparr>sb := readsb f0\<rparr>"
  have f: "blocks f = img s" "sb f = readsb f" "inum (itable f 0) = ROOTINO" "iref (itable f 0) = 1" "\<not> ilocked (itable f 0)" "\<not> ivalid (itable f 0)" "\<And>l. l \<noteq> 0 \<Longrightarrow> itable f l = din0"
    by (simp_all add: f_def f0_def readsb_def din0_def)
  have n: "length files1 + 1 < NINODES" "(length files1 + 2) mod 64 \<noteq> 0" "0 < length files1" by (simp_all add: files1_def NINODES_def)
  have sn: "shortname [97] = Some [97]" by (simp add: shortname_def user_prefix_def DIRSIZ_def)
  have nm: "\<forall>p\<in>set files1. 0 \<notin> set (fst p) \<and> shortname (fst p) \<notin> {Some [46], Some [46, 46]}" "distinct (map (\<lambda>p. shortname (fst p)) files1)" "shortname (fst (files1 ! 0)) = Some [97]"
    using sn by (simp_all add: files1_def)
  obtain g where g: "ilock 0 f = Ret () g" using root_locked [OF m n(1) f(1-6)] by blast
  note L = image_lookup [OF m n(1,2) nm(1,2) f(1,2,3,6) g n(3) nm(3)]
  have sbf: "sb f = mk_sb" by (rule image_ok [OF m n(1) f(1,2)])
  note G = ilock_loads [OF g f(6,1) sbf]
  have it: "itable g l = din0" if "l \<noteq> 0" for l using G(5) [OF that] f(7) [OF that] by simp
  have it0: "inum (itable g 0) = ROOTINO" using G(1) f(3) by (simp add: loaded_def)
  have out: "\<forall>l. iref (itable g l) > 0 \<longrightarrow> inum (itable g l) \<noteq> 0 + 2" proof (intro allI impI)
    fix l assume "iref (itable g l) > 0"
    then have "l = 0" using it [of l] by (cases "l = 0") (simp_all add: din0_def)
    then show "inum (itable g l) \<noteq> 0 + 2" using it0 by (simp add: ROOTINO_def)
  qed
  have free: "find (\<lambda>k. iref (itable g k) = 0) [0..<NINODE] \<noteq> None" using it [of 1] by (auto simp: find_None_iff NINODE_def din0_def intro!: exI [of _ 1])
  then have "\<exists>j h. iget (idev (itable g 0)) (0 + 2) g = Ret j h" by (auto simp: iget_def split: option.splits)
  then obtain j h where r: "iget (idev (itable g 0)) (0 + 2) g = Ret j h" by blast
  then have d: "dirlookup 0 [97] g = Ret (Some (j, DIRENT_SIZE * (0 + 2))) h" using L(1) by simp
  have unl: "\<forall>l. iref (itable g l) = 0 \<longrightarrow> \<not> ilocked (itable g l)" proof (intro allI impI)
    fix l assume "iref (itable g l) = 0"
    then have "l \<noteq> 0" using G(6) f(4) by (cases "l = 0") simp_all
    then show "\<not> ilocked (itable g l)" using it by (simp add: din0_def)
  qed
  from image_reads_back [OF m n(1,2) nm(1,2) f(1,2,3,6) g n(3) nm(3) d out unl] show ?thesis using m f(1) g d by (fastforce simp: files1_def)
qed

end
