(* ===== verification/Spec2Isabelle.thy ===== *)
theory Spec2Isabelle
  imports Umalloc_Props Log_Props Crash_Props Grep Pipe_Props Spinlock Syscall_Props Sh_Props Fs_Dir Console_Props Exec_Claims Virtio_Claims Mkfs_Claims
begin

text \<open>
  A verification development for a small RISC-V teaching kernel in the style of xv6, extended with a user-level memory
  allocator, a second shell, shared pages, priorities and scripts. Every definition that models code is a translation of a
  function, structure or constant of the C sources; numbers keep the width they have in C wherever wrapping can matter.

  \<^bold>\<open>The program and its parts.\<close> A user program calls \<open>malloc\<close> (\<^verbatim>\<open>user/umalloc.c\<close>), which keeps its blocks in memory obtained with
  \<open>sbrk\<close>. System calls enter through \<open>usertrap\<close> and \<open>syscall\<close>, which fetch arguments from registers and user memory and dispatch to the
  handlers. Calls on processes and memory work on the process table (\<^verbatim>\<open>kernel/proc.c\<close>) and the page tables (\<^verbatim>\<open>kernel/vm.c\<close>), which live in
  pages of the physical allocator (\<^verbatim>\<open>kernel/kalloc.c\<close>). Calls on files go through descriptors to the table of open files
  (\<^verbatim>\<open>kernel/file.c\<close>) and on to pipes, devices or inodes (\<^verbatim>\<open>kernel/fs.c\<close>); blocks of the disk pass through the log and the buffer cache
  (\<^verbatim>\<open>kernel/log.c\<close>, \<^verbatim>\<open>kernel/bio.c\<close>). Spin locks keep the harts apart.

  \<^bold>\<open>How code is modelled.\<close> Memory is a function from addresses to bytes (\<open>Prelude\<close>); C objects in it are read and written little-endian at
  their offsets, so heap blocks, page tables, free lists, block headers, inodes and directory entries are the bytes of the program, not
  abstract trees. Each routine is a function on a record with the static variables of its file. A routine that can panic, wait or not return gives an
  \<open>outcome\<close> with the cases \<open>Done\<close>, \<open>Panic\<close>, \<open>Sleep\<close> and \<open>Diverge\<close>; an error return is an ordinary value. A routine that runs under one lock is one step; only
  \<open>Spinlock\<close>, where the interleaving of single memory accesses is the point, has smaller steps.

  \<^bold>\<open>Theories.\<close>

  \<^item> \<open>Prelude\<close>, \<open>CString\<close>, \<open>Memlayout\<close>: byte memory, outcomes, loops; the routines of \<^verbatim>\<open>kernel/string.c\<close> and \<^verbatim>\<open>user/ulib.c\<close>; constants.

  \<^item> \<open>Umalloc\<close> (\<^verbatim>\<open>user/umalloc.c\<close>): \<open>heap\<close> has the break, the bytes and the list pointers of the file. \<open>Umalloc_Rep\<close> says which block list and free list
    the bytes represent, \<open>Umalloc_Inv\<close> that splitting, merging, extending and trimming keep the invariant, \<open>Umalloc_Props\<close> what \<open>malloc\<close>, \<open>free\<close> and \<open>realloc\<close>
    promise. \<open>Allocator\<close> states the contract for clients as a locale, interpreted there on the model.

  \<^item> \<open>Kalloc\<close>, \<open>Page_Pool\<close>: \<^verbatim>\<open>kernel/kalloc.c\<close> with its reference counts, and the locale of what the kernel relies on, interpreted on the model: a shared page survives until its
    last owner gives it back.

  \<^item> \<open>Vm\<close> (\<^verbatim>\<open>kernel/vm.c\<close>): walking, mapping, copying and faulting on Sv39 tables. \<open>Vm_Inv\<close>, \<open>Vm_Map\<close>, \<open>Vm_User\<close>, \<open>Vm_Copy\<close>, \<open>Vm_Awake\<close> relate the tables to a tree of entries
    and to the memory \<open>umem\<close> the process sees; \<open>Vm_Props\<close> has lazy allocation, isolation of address spaces and the copies as reads and writes of \<open>umem\<close>.

  \<^item> \<open>Bio\<close>, \<open>Log\<close> (\<^verbatim>\<open>kernel/bio.c\<close>, \<^verbatim>\<open>kernel/sleeplock.c\<close>, \<^verbatim>\<open>kernel/log.c\<close>): the cache keeps what the disk holds; \<open>Redo_Log\<close> proves crash safety of a redo log once, over any header format,
    \<open>Log_Crash\<close> interprets it on the header block of the code and \<open>Log_Props\<close> draws the conclusions, with the reservation of log space over interleaved calls.

  \<^item> \<open>Fs\<close> (\<^verbatim>\<open>kernel/fs.c\<close>): free map, inode table, mapping of file blocks, reading, writing, directories and paths. \<open>Fs_Props\<close>, \<open>Fs_Claims\<close>, \<open>Fs_Dir\<close>: files keep what is written, apart from each other, and
    directories find what is entered. \<open>Fs_Refs\<close>: what each routine takes and gives back of references and locks.

  \<^item> \<open>Proc\<close> (\<^verbatim>\<open>kernel/proc.c\<close>): the table, fork, exit, wait, sleep, wakeup, kill, scheduling. \<open>Proc_Props\<close>, \<open>Proc_Inv\<close>, \<open>Proc_Claims\<close>: the table as a state machine \<open>proc_step\<close> with its invariant, what a child inherits, that no exit is
    missed, and \<open>wait\<close> against its specification.

  \<^item> \<open>Pipe\<close>, \<open>Pipe_Props\<close> (\<^verbatim>\<open>kernel/pipe.c\<close>): the ring refines a bounded queue; bytes go from one process to another in order.

  \<^item> \<open>Spinlock\<close> (\<^verbatim>\<open>kernel/spinlock.c\<close>): mutual exclusion over every interleaving of the harts' steps.

  \<^item> \<open>Console\<close>, \<open>Console_Props\<close> (\<^verbatim>\<open>kernel/console.c\<close>): the ring of characters refines a line editor.

  \<^item> \<open>Syscall\<close>, \<open>Syscall_Props\<close> (\<^verbatim>\<open>kernel/syscall.c\<close>, \<^verbatim>\<open>kernel/sysproc.c\<close>, \<^verbatim>\<open>kernel/trap.c\<close>): arguments, dispatch, the calls on processes, traps.

  \<^item> \<open>File\<close> (\<^verbatim>\<open>kernel/file.c\<close>): the state \<open>osys\<close> of processes, memory, disk, inode table, open files, pipes and console together. \<open>Sysfile\<close> (\<^verbatim>\<open>kernel/sysfile.c\<close>) and \<open>Exec\<close> (\<^verbatim>\<open>kernel/exec.c\<close>) run over it. \<open>Sysfile_Refs\<close>,
    \<open>Sysfile_Books\<close>, \<open>Sysfile_Calls\<close>, \<open>Sysfile_Calls2\<close>, \<open>Sysfile_Claims\<close>: every call keeps the counts of references exact and gives back its locks and log operations, on every path through
    it. \<open>Exec_Props\<close>, \<open>Exec_Claims\<close>: the same for programs, the leak for scripts, and that chains of scripts end.

  \<^item> \<open>Sh\<close>, \<open>Sh_Props\<close> (\<^verbatim>\<open>user/sh.c\<close>), \<open>Crash\<close>, \<open>Crash_Props\<close> (\<^verbatim>\<open>user/crash.c\<close>), \<open>Grep\<close> (\<^verbatim>\<open>user/grep.c\<close>): the two shells and the pattern matcher. 

  \<^bold>\<open>Interfaces.\<close> The locales are the contracts between components: \<open>allocator\<close> between \<open>malloc\<close> and its clients, \<open>page_pool\<close> between \<open>kalloc\<close> and
  its clients, \<open>header_format\<close> between the log and its header block. Each is interpreted on the code's model in the theory of the component that provides it.

  \<^bold>\<open>Bounds and fuel.\<close> Loops that may not end are \<open>partial_function\<close>s in the option type, and not returning is \<open>None\<close> or \<open>Diverge\<close>; where the code is meant to
  return, that it returns is part of the theorem. \<open>freewalk\<close> recurses over the three levels of a table and is given three. The parser of \<open>sh\<close> has fuel
  \<open>4 * n + 8\<close> for a line of \<open>n\<close> characters, and \<open>parse_terminates\<close> shows it is never used up. \<open>kexec\<close> calls itself for scripts with fuel \<open>NINODE + 1\<close>; \<open>script_chain_ends\<close> shows
  that this is enough, since every script on the way keeps an inode locked.

  \<^bold>\<open>What the model leaves out.\<close> Waiting is an outcome: the model does not keep the continuation of a sleeping routine, except where it is resumed explicitly (pipes, the console, \<open>wait\<close>).
  The memory of harts is sequentially consistent. The file system works on the contents of blocks, which the cache and the log are shown to provide separately. \<open>fork\<close> counts the new references to inodes in the process table's own
  counter, so it is not among the calls of \<open>references_counted\<close>.

  \<^bold>\<open>Not modelled.\<close> Output and formatting (\<^verbatim>\<open>kernel/printf.c\<close>, \<^verbatim>\<open>user/printf.c\<close>, the tracing of calls), which has no effect on the state; device registers (\<^verbatim>\<open>kernel/uart.c\<close>, \<^verbatim>\<open>kernel/plic.c\<close>, the request rings of \<^verbatim>\<open>kernel/virtio_disk.c\<close>), where the
  behaviour of the device is not in the sources: a completed disk request is \<open>virtio_disk_rw\<close> of \<open>Bio\<close>; boot, the assembly of context switch and traps, and the routines that only move control registers; the image builder, which runs on the host;
  test programs and the small utilities.
\<close>

end
